(* ===== verification/Prelude.thy ===== *)
theory Prelude
  imports Main "HOL-Library.Word" "HOL-Library.AList" "HOL-Library.Monad_Syntax"
begin

text \<open>
  Shared vocabulary of the BlobSeer development: the machine types of the C++ code, the outcome
  of a server-side RPC handler, and the generic facts on lists, association lists and 64-bit
  words that the component theories use.

  The named collection \<open>blob_defs\<close> holds the definitions a component unfolds as a
  group; \<open>word_nat\<close> holds the rewrite rules that move 64-bit arithmetic to \<open>nat\<close>
  where the operands are known not to wrap.
\<close>

named_theorems blob_defs \<open>definitions unfolded as a group\<close>
named_theorems word_nat \<open>64-bit arithmetic read as natural numbers\<close>

type_synonym u32 = "32 word"
type_synonym u64 = "64 word"
type_synonym byte = "8 word"

text \<open>
  The contents of a \<open>buffer_wrapper\<close>; the vector of parameters or results of an RPC; the
  32-bit status an RPC returns.
\<close>

type_synonym buffer = "byte list"
type_synonym rpcvector_t = "buffer list"
type_synonym rpcreturn_t = int
type_synonym string_pair_t = "string \<times> string"

text \<open>
  What a handler does: it returns a status and a result vector together with the new state of
  its server, it lets an exception escape, it runs into undefined behaviour (an access outside
  an array, a division by zero), or it never returns.
\<close>

datatype 's outcome =
    Returns rpcreturn_t rpcvector_t 's
  | Throws string
  | Undefined string
  | Hangs

section \<open>Lists\<close>

lemma nth_length_last [simp]: "xs \<noteq> [] \<Longrightarrow> xs ! (length xs - Suc 0) = last xs"
  by (simp add: last_conv_nth)

lemma find_None_append:
  "find P (xs @ ys) = (case find P xs of None \<Rightarrow> find P ys | Some x \<Rightarrow> Some x)"
  by (induction xs) auto

lemma map_eq_upt_nth:
  "map f xs = [a..<b] \<Longrightarrow> n < length xs \<Longrightarrow> f (xs ! n) = a + n"
  by (metis length_map length_upt nth_map nth_upt less_diff_conv add.commute)

lemma length_of_map_upt: "map f xs = [a..<b] \<Longrightarrow> length xs = b - a"
  by (metis length_map length_upt)

section \<open>Association lists\<close>

lemma map_of_delete_eq: "map_of (AList.delete k al) = (map_of al)(k := None)"
  by (simp add: AList.delete_conv')

lemma fst_set_delete: "fst ` set (AList.delete k al) = fst ` set al - {k}"
  by (auto simp: AList.delete_eq)

lemma length_delete_distinct:
  "distinct (map fst al) \<Longrightarrow>
     length (AList.delete k al) = (if k \<in> fst ` set al then length al - 1 else length al)"
proof (induction al)
  case (Cons a al)
  show ?case
  proof (cases "fst a = k")
    case True
    with Cons.prems have "k \<notin> fst ` set al" by auto
    then have "AList.delete k al = al" by (simp add: AList.delete_idem)
    with True show ?thesis by (cases a) simp
  next
    case False
    with Cons show ?thesis by (cases a) (auto simp: Suc_diff_Suc gr0_conv_Suc dest!: split_list)
  qed
qed simp

lemma distinct_fst_delete: "distinct (map fst al) \<Longrightarrow> distinct (map fst (AList.delete k al))"
  by (rule AList.distinct_delete)

section \<open>64-bit words read as natural numbers\<close>

lemma unat_add_nowrap [word_nat]:
  "unat (a :: u64) + unat b < 2 ^ 64 \<Longrightarrow> unat (a + b) = unat a + unat b"
  by (simp add: unat_word_ariths)

lemma unat_mult_nowrap [word_nat]:
  "unat (a :: u64) * unat b < 2 ^ 64 \<Longrightarrow> unat (a * b) = unat a * unat b"
  by (simp add: unat_word_ariths)

lemma unat_sub_nowrap [word_nat]:
  "b \<le> (a :: u64) \<Longrightarrow> unat (a - b) = unat a - unat b"
  by (simp add: unat_sub_if' word_le_nat_alt)

lemma unat_of_nat_small [word_nat]: "n < 2 ^ 64 \<Longrightarrow> unat (of_nat n :: u64) = n"
  by (simp add: unat_of_nat)

lemma unat_u64_bound [simp]: "unat (a :: u64) < 2 ^ 64"
  using unsigned_less [of a] by simp

lemma unat_u32_bound [simp]: "unat (a :: u32) < 2 ^ 32"
  using unsigned_less [of a] by simp

lemma of_nat_u64_inject:
  "m < 2 ^ 64 \<Longrightarrow> n < 2 ^ 64 \<Longrightarrow> (of_nat m :: u64) = of_nat n \<longleftrightarrow> m = n"
  by (metis unat_of_nat_small)

lemma unat_ucast_u32: "unat (ucast (w :: u32) :: u64) = unat w"
proof -
  have "unat w < 2 ^ 64" by (rule less_trans [OF unat_u32_bound]) simp
  then show ?thesis by (simp add: unsigned_ucast_eq take_bit_nat_eq_self)
qed

lemma push_bit_1_eq: "push_bit 1 (a :: u64) = 2 * a"
  by simp

end
