(* ===== verification/Buffer_Wrapper.thy ===== *)
theory Buffer_Wrapper
  imports Prelude
begin

text \<open>
  \<open>common/buffer_wrapper.hpp\<close>: a memory buffer that serialises values into itself and reads
  them back. The buffer is its byte contents (reference counting and the cached hash are not
  observable).

  Serialisation is done by \<open>boost::archive\<close>, which is not part of the repository: the record
  \<open>archive\<close> is a parameter of everything below, with the bytes an output archive starts
  with and one writer and one reader for each primitive type. What the code relies on is
  \<open>archive_ok\<close>: a reader applied to what the writer wrote gives the value back and leaves
  the rest of the stream untouched.
\<close>

section \<open>Archives and serialisers\<close>

record 'a ser =
  put :: "'a \<Rightarrow> buffer"
  get :: "buffer \<Rightarrow> ('a \<times> buffer) option"

record archive =
  ar_header :: buffer
  ar_bool :: "bool ser"
  ar_u32 :: "u32 ser"
  ar_u64 :: "u64 ser"
  ar_string :: "string ser"
  ar_count :: "nat ser"

definition ser_ok :: "'a ser \<Rightarrow> bool" where
  "ser_ok s \<longleftrightarrow> (\<forall>x rest. get s (put s x @ rest) = Some (x, rest))"

definition archive_ok :: "archive \<Rightarrow> bool" where
  "archive_ok ar \<longleftrightarrow> ar_header ar \<noteq> [] \<and> ser_ok (ar_bool ar) \<and> ser_ok (ar_u32 ar) \<and>
     ser_ok (ar_u64 ar) \<and> ser_ok (ar_string ar) \<and> ser_ok (ar_count ar)"

text \<open>\<open>ar & a & b\<close>: two members in sequence.\<close>

definition ser_pair :: "'a ser \<Rightarrow> 'b ser \<Rightarrow> ('a \<times> 'b) ser" where
  "ser_pair s t = \<lparr>
     put = (\<lambda>(x, y). put s x @ put t y),
     get = (\<lambda>b. do { (x, b) \<leftarrow> get s b; (y, b) \<leftarrow> get t b; Some ((x, y), b) })\<rparr>"

text \<open>A class whose \<open>serialize\<close> visits the members of \<open>from\<close> in order.\<close>

definition ser_class :: "('c \<Rightarrow> 'a) \<Rightarrow> ('a \<Rightarrow> 'c) \<Rightarrow> 'a ser \<Rightarrow> 'c ser" where
  "ser_class from to s = \<lparr>
     put = (\<lambda>x. put s (from x)),
     get = (\<lambda>b. do { (x, b) \<leftarrow> get s b; Some (to x, b) })\<rparr>"

text \<open>\<open>boost/serialization/vector.hpp\<close>, \<open>map.hpp\<close>: the element count, then the elements.\<close>

fun get_items :: "'a ser \<Rightarrow> nat \<Rightarrow> buffer \<Rightarrow> ('a list \<times> buffer) option" where
  "get_items s 0 b = Some ([], b)"
| "get_items s (Suc n) b =
     do { (x, b) \<leftarrow> get s b; (xs, b) \<leftarrow> get_items s n b; Some (x # xs, b) }"

definition ser_list :: "archive \<Rightarrow> 'a ser \<Rightarrow> 'a list ser" where
  "ser_list ar s = \<lparr>
     put = (\<lambda>xs. put (ar_count ar) (length xs) @ concat (map (put s) xs)),
     get = (\<lambda>b. do { (n, b) \<leftarrow> get (ar_count ar) b; get_items s n b })\<rparr>"

lemma ser_okD [simp]: "ser_ok s \<Longrightarrow> get s (put s x @ rest) = Some (x, rest)"
  by (simp add: ser_ok_def)

lemma ser_ok_pair [intro]: "ser_ok s \<Longrightarrow> ser_ok t \<Longrightarrow> ser_ok (ser_pair s t)"
  by (auto simp: ser_ok_def ser_pair_def)

lemma ser_ok_class [intro]: "ser_ok s \<Longrightarrow> (\<And>x. to (from x) = x) \<Longrightarrow> ser_ok (ser_class from to s)"
  by (auto simp: ser_ok_def ser_class_def)

lemma get_items_concat [simp]:
  "ser_ok s \<Longrightarrow> get_items s (length xs) (concat (map (put s) xs) @ rest) = Some (xs, rest)"
  by (induction xs) auto

lemma ser_ok_list [intro]: "ser_ok (ar_count ar) \<Longrightarrow> ser_ok s \<Longrightarrow> ser_ok (ser_list ar s)"
  unfolding ser_ok_def [of "ser_list ar s"] by (auto simp: ser_list_def)

lemma archive_okD:
  assumes "archive_ok ar"
  shows "ar_header ar \<noteq> []" and "ser_ok (ar_bool ar)" and "ser_ok (ar_u32 ar)"
    and "ser_ok (ar_u64 ar)" and "ser_ok (ar_string ar)" and "ser_ok (ar_count ar)"
  using assms by (simp_all add: archive_ok_def)

section \<open>The wrapper\<close>

text \<open>
  The constructor from a value with \<open>serialize = true\<close>, and \<open>getValue(\<dots>, true)\<close>: an
  empty buffer throws, a failed deserialisation is caught and gives \<open>false\<close>; bytes after
  the value are ignored.
\<close>

datatype 'a got = Got 'a | Got_false | Got_throws

definition buffer_wrapper :: "archive \<Rightarrow> 'a ser \<Rightarrow> 'a \<Rightarrow> buffer" where
  "buffer_wrapper ar s x = ar_header ar @ put s x"

definition bw_size :: "buffer \<Rightarrow> u32" where
  "bw_size b = of_nat (length b)"

definition getValue :: "archive \<Rightarrow> 'a ser \<Rightarrow> buffer \<Rightarrow> 'a got" where
  "getValue ar s b =
     (if b = [] then Got_throws
      else if take (length (ar_header ar)) b \<noteq> ar_header ar then Got_false
      else case get s (drop (length (ar_header ar)) b) of
             None \<Rightarrow> Got_false
           | Some (x, _) \<Rightarrow> Got x)"

definition getValue_error :: string where
  "getValue_error = ''Trying to get value from empty buffer''"

lemma getValue_wrapper [simp]:
  assumes "archive_ok ar" and "ser_ok s"
  shows "getValue ar s (buffer_wrapper ar s x) = Got x"
proof -
  have "get s (put s x) = Some (x, [])"
    using ser_okD [OF assms(2), of x "[]"] by simp
  with assms(1) show ?thesis by (simp add: getValue_def buffer_wrapper_def archive_ok_def)
qed

lemma getValue_Nil [simp]: "getValue ar s [] = Got_throws"
  by (simp add: getValue_def)

lemma buffer_wrapper_nonempty [simp]: "archive_ok ar \<Longrightarrow> buffer_wrapper ar s x \<noteq> []"
  by (simp add: buffer_wrapper_def archive_ok_def)

lemma buffer_wrapper_inject:
  assumes "archive_ok ar" and "ser_ok s"
  shows "buffer_wrapper ar s x = buffer_wrapper ar s y \<longleftrightarrow> x = y"
  by (metis getValue_wrapper [OF assms] got.inject)

section \<open>Reading the parameters of a call\<close>

text \<open>
  The opening of most handlers: check the number of parameters, then read the serialised ones
  left to right, stopping at the first that fails. The continuation gets the values.
\<close>

definition read_param ::
  "archive \<Rightarrow> 'a ser \<Rightarrow> buffer \<Rightarrow> 's outcome \<Rightarrow> ('a \<Rightarrow> 's outcome) \<Rightarrow> 's outcome" where
  "read_param ar s b bad k =
     (case getValue ar s b of
        Got x \<Rightarrow> k x
      | Got_false \<Rightarrow> bad
      | Got_throws \<Rightarrow> Throws getValue_error)"

lemma read_param_wrapper [simp]:
  "archive_ok ar \<Longrightarrow> ser_ok s \<Longrightarrow> read_param ar s (buffer_wrapper ar s x) bad k = k x"
  by (simp add: read_param_def)

lemma read_param_Nil [simp]: "read_param ar s [] bad k = Throws getValue_error"
  by (simp add: read_param_def)

section \<open>A concrete archive\<close>

text \<open>
  One archive that satisfies the assumption: a one-byte signature, words as their bytes least
  significant first, counts and strings in unary and length-prefixed form. It instantiates the
  parameter in the witnesses.
\<close>

definition word_bytes :: "nat \<Rightarrow> 'a::len word \<Rightarrow> buffer" where
  "word_bytes n w = map (\<lambda>i. ucast (drop_bit (8 * i) w)) [0..<n]"

fun bytes_word :: "buffer \<Rightarrow> 'a::len word" where
  "bytes_word [] = 0"
| "bytes_word (b # bs) = ucast b + push_bit 8 (bytes_word bs)"

definition ser_word :: "nat \<Rightarrow> 'a::len word ser" where
  "ser_word n = \<lparr>put = word_bytes n,
     get = (\<lambda>b. if length b < n then None else Some (bytes_word (take n b), drop n b))\<rparr>"

definition ser_bool :: "bool ser" where
  "ser_bool = \<lparr>put = (\<lambda>x. [if x then 1 else 0]),
     get = (\<lambda>b. case b of [] \<Rightarrow> None | x # b \<Rightarrow> Some (x \<noteq> 0, b))\<rparr>"

definition ser_unary :: "nat ser" where
  "ser_unary = \<lparr>put = (\<lambda>n. replicate n 1 @ [0]),
     get = (\<lambda>b. if 0 \<in> set b then Some (length (takeWhile (\<lambda>x. x \<noteq> 0) b),
                                        drop 1 (dropWhile (\<lambda>x. x \<noteq> 0) b)) else None)\<rparr>"

definition ser_char :: "char ser" where
  "ser_char = ser_class (\<lambda>c. of_nat (of_char c)) (\<lambda>b. char_of (unat b)) (ser_word 1 :: byte ser)"

definition plain_archive :: archive where
  "plain_archive = \<lparr>ar_header = [22], ar_bool = ser_bool, ar_u32 = ser_word 4,
     ar_u64 = ser_word 8,
     ar_string = ser_list \<lparr>ar_header = [], ar_bool = ser_bool, ar_u32 = ser_word 4,
       ar_u64 = ser_word 8, ar_string = \<lparr>put = (\<lambda>_. []), get = (\<lambda>b. None)\<rparr>,
       ar_count = ser_unary\<rparr> ser_char,
     ar_count = ser_unary\<rparr>"

lemma length_word_bytes [simp]: "length (word_bytes n w) = n"
  by (simp add: word_bytes_def)

lemma word_bytes_Suc: "word_bytes (Suc n) w = ucast w # word_bytes n (drop_bit 8 w)"
  by (simp add: word_bytes_def map_upt_Suc ac_simps del: upt_Suc)

lemma ucast_byte_take_bit:
  "8 \<le> LENGTH('a) \<Longrightarrow> (ucast (ucast (w :: 'a::len word) :: byte) :: 'a word) = take_bit 8 w"
  by (rule bit_word_eqI) (auto simp: bit_ucast_iff bit_take_bit_iff)

lemma bytes_word_word_bytes:
  "8 \<le> LENGTH('a) \<Longrightarrow> bytes_word (word_bytes n (w :: 'a::len word)) = take_bit (8 * n) w"
proof (induction n arbitrary: w)
  case 0
  show ?case by (simp add: word_bytes_def)
next
  case (Suc n)
  have "drop_bit 8 (take_bit (8 * Suc n) w) = take_bit (8 * n) (drop_bit 8 w)"
    by (simp add: drop_bit_take_bit)
  with bits_ident [of 8 "take_bit (8 * Suc n) w"]
  have "take_bit 8 w + push_bit 8 (take_bit (8 * n) (drop_bit 8 w)) = take_bit (8 * Suc n) w"
    by (simp add: ac_simps)
  with Suc show ?case by (simp add: word_bytes_Suc ucast_byte_take_bit)
qed

lemma ser_ok_word:
  "8 \<le> LENGTH('a) \<Longrightarrow> LENGTH('a) \<le> 8 * n \<Longrightarrow> ser_ok (ser_word n :: 'a::len word ser)"
  by (simp add: ser_ok_def ser_word_def bytes_word_word_bytes take_bit_word_eq_self)

lemma ser_ok_bool: "ser_ok ser_bool"
  by (simp add: ser_ok_def ser_bool_def)

lemma ser_ok_unary: "ser_ok ser_unary"
  by (simp add: ser_ok_def ser_unary_def takeWhile_append dropWhile_append)

lemma ser_ok_char: "ser_ok ser_char"
  unfolding ser_char_def
  by (rule ser_ok_class, rule ser_ok_word) (auto simp: unat_of_nat)

lemma plain_archive_ok: "archive_ok plain_archive"
  by (auto simp: archive_ok_def plain_archive_def
      intro!: ser_ok_bool ser_ok_word ser_ok_list ser_ok_unary ser_ok_char)

end
