(* ===== verification/Buffer_Object.thy ===== *)
theory Buffer_Object
  imports Buffer_Wrapper
begin

text \<open>
  The rest of \<open>common/buffer_wrapper.hpp\<close>: the object itself, with its length as an \<open>unsigned int\<close>, whether
  it owns the memory, and the hash value that is computed when it is first asked for and kept (0 means
  not computed). Elsewhere a buffer is just its bytes; the lemmas below say why this is enough: two
  objects are equal exactly if their bytes are, and the hash is a function of the bytes.

  The checksum of \<open>boost::crc\<close> is a parameter.
\<close>

record bw_object =
  bw_len :: u32
  bw_content :: "buffer option"
  bw_owned :: bool
  bw_hash :: u64

text \<open>
  Construction from memory of \<open>sz\<close> bytes (which the object does not own if \<open>is_managed\<close>), from a value, by copying,
  and the empty buffer.
\<close>

definition bw_from_memory :: "buffer \<Rightarrow> u32 \<Rightarrow> bool \<Rightarrow> bw_object" where
  "bw_from_memory ct sz is_managed = \<lparr>bw_len = sz, bw_content = Some ct, bw_owned = (\<not> is_managed), bw_hash = 0\<rparr>"

definition bw_from_value :: "archive \<Rightarrow> 'a ser \<Rightarrow> ('a \<Rightarrow> buffer) \<Rightarrow> 'a \<Rightarrow> bool \<Rightarrow> bw_object" where
  "bw_from_value ar s raw ct serialize =
     (let bytes = (if serialize then buffer_wrapper ar s ct else raw ct); len = of_nat (length bytes) :: u32
      in \<lparr>bw_len = len, bw_content = Some (take (unat len) bytes), bw_owned = True, bw_hash = 0\<rparr>)"

definition bw_copy :: "bw_object \<Rightarrow> bw_object" where
  "bw_copy b = \<lparr>bw_len = bw_len b, bw_content = bw_content b, bw_owned = bw_owned b, bw_hash = bw_hash b\<rparr>"

definition bw_default :: bw_object where
  "bw_default = \<lparr>bw_len = 0, bw_content = None, bw_owned = False, bw_hash = 0\<rparr>"

definition bw_empty :: "bw_object \<Rightarrow> bool" where
  "bw_empty b \<longleftrightarrow> bw_len b = 0 \<or> bw_content b = None"

text \<open>The bytes of the object; the memory of an object with a nonzero length has at least as many.\<close>

definition bw_bytes :: "bw_object \<Rightarrow> buffer" where
  "bw_bytes b = (case bw_content b of None \<Rightarrow> [] | Some m \<Rightarrow> take (unat (bw_len b)) m)"

definition bw_valid :: "bw_object \<Rightarrow> bool" where
  "bw_valid b \<longleftrightarrow> (case bw_content b of None \<Rightarrow> bw_len b = 0 | Some m \<Rightarrow> unat (bw_len b) \<le> length m)"

definition bw_equal :: "bw_object \<Rightarrow> bw_object \<Rightarrow> bool" where
  "bw_equal b c \<longleftrightarrow> bw_len b = bw_len c \<and> bw_bytes b = bw_bytes c"

text \<open>\<open>getValue(\<dots>, false)\<close>: the bytes are taken as a value of a type of \<open>sz\<close> bytes.\<close>

definition getValue_raw :: "nat \<Rightarrow> (buffer \<Rightarrow> 'a) \<Rightarrow> bw_object \<Rightarrow> 'a got" where
  "getValue_raw sz from b =
     (if bw_len b = 0 then Got_throws else if sz \<noteq> unat (bw_len b) then Got_false else Got (from (bw_bytes b)))"

definition buffer_wrapper_hash :: "(buffer \<Rightarrow> u32) \<Rightarrow> bw_object \<Rightarrow> u64 \<times> bw_object" where
  "buffer_wrapper_hash crc b =
     (let b = (if bw_hash b = 0 then b\<lparr>bw_hash := ucast (crc (bw_bytes b))\<rparr> else b) in (bw_hash b, b))"

section \<open>Objects as bytes\<close>

definition hash_ok :: "(buffer \<Rightarrow> u32) \<Rightarrow> bw_object \<Rightarrow> bool" where
  "hash_ok crc b \<longleftrightarrow> bw_valid b \<and> (bw_hash b = 0 \<or> bw_hash b = ucast (crc (bw_bytes b)))"

lemma copy_same [simp]: "bw_copy b = b"
  by (cases b) (simp add: bw_copy_def)

lemma hash_not_observed [simp]: "bw_bytes (b\<lparr>bw_hash := h\<rparr>) = bw_bytes b" "bw_valid (b\<lparr>bw_hash := h\<rparr>) = bw_valid b"
  by (simp_all add: bw_bytes_def bw_valid_def split: option.split)

lemma new_objects_ok:
  "unat sz \<le> length ct \<Longrightarrow> hash_ok crc (bw_from_memory ct sz is_managed)"
  "hash_ok crc (bw_from_value ar s raw x serialize)" "hash_ok crc bw_default" "hash_ok crc b \<Longrightarrow> hash_ok crc (bw_copy b)"
proof -
  have "unat (of_nat n :: u32) \<le> n" for n by (simp add: unat_of_nat mod_less_eq_dividend)
  then show "hash_ok crc (bw_from_value ar s raw x serialize)" by (simp add: hash_ok_def bw_from_value_def bw_valid_def Let_def)
qed (simp_all add: hash_ok_def bw_from_memory_def bw_default_def bw_valid_def)

lemma bytes_length: "bw_valid b \<Longrightarrow> length (bw_bytes b) = unat (bw_len b)"
  by (auto simp: bw_valid_def bw_bytes_def split: option.splits)

lemma bw_equal_iff: "bw_valid b \<Longrightarrow> bw_valid c \<Longrightarrow> bw_equal b c \<longleftrightarrow> bw_bytes b = bw_bytes c"
  using bytes_length [of b] bytes_length [of c] by (auto simp: bw_equal_def word_unat_eq_iff)

lemma bw_empty_iff: "bw_valid b \<Longrightarrow> bw_empty b \<longleftrightarrow> bw_bytes b = []"
  using bytes_length [of b] by (auto simp: bw_empty_def bw_bytes_def bw_valid_def unat_eq_0 split: option.splits)

lemma from_value_bytes:
  "length (buffer_wrapper ar s x) < 2 ^ 32 \<Longrightarrow> bw_bytes (bw_from_value ar s raw x True) = buffer_wrapper ar s x"
  by (simp add: bw_bytes_def bw_from_value_def Let_def unat_of_nat)

lemma raw_round_trip:
  assumes "\<And>x. length (raw x) = n" "\<And>x. from (raw x) = x" "0 < n" "n < 2 ^ 32"
  shows "getValue_raw n from (bw_from_value ar s raw x False) = Got x"
proof -
  have n: "unat (of_nat n :: u32) = n" using assms(4) by (simp add: unat_of_nat)
  then have "(of_nat n :: u32) \<noteq> 0" using assms(3) by (metis less_irrefl unat_0)
  with n show ?thesis using assms(1,2) by (simp add: getValue_raw_def bw_from_value_def bw_bytes_def Let_def)
qed

text \<open>
  The hash is that of the bytes, however often it is asked for and whether the object is a copy; so equal
  objects have equal hashes, as the hash tables that use them as keys require.
\<close>

lemma hash_of_bytes:
  assumes "hash_ok crc b"
  shows "fst (buffer_wrapper_hash crc b) = ucast (crc (bw_bytes b))" "hash_ok crc (snd (buffer_wrapper_hash crc b))"
    "bw_bytes (snd (buffer_wrapper_hash crc b)) = bw_bytes b"
  using assms by (auto simp: buffer_wrapper_hash_def hash_ok_def Let_def)

lemma hash_respects_equal:
  "hash_ok crc b \<Longrightarrow> hash_ok crc c \<Longrightarrow> bw_equal b c \<Longrightarrow> fst (buffer_wrapper_hash crc b) = fst (buffer_wrapper_hash crc c)"
  by (simp add: hash_of_bytes(1) bw_equal_def)

end
