(* ===== verification/Structures.thy ===== *)
theory Structures
  imports Buffer_Wrapper
begin

text \<open>
  \<open>common/structures.hpp\<close>: the descriptors the parts of BlobSeer exchange (providers, tree
  node keys and page keys, version roots, metadata tree nodes), the per-blob record of the
  version manager and its answer to a ticket request, with the member functions of each and the
  order in which \<open>serialize\<close> visits the members.
\<close>

section \<open>Providers\<close>

record provider_desc =
  pd_host :: string
  pd_service :: string

type_synonym replica_list_t = "provider_desc list"

definition provider_desc_default :: provider_desc where
  "provider_desc_default = \<lparr>pd_host = '''', pd_service = ''''\<rparr>"

definition provider_desc_empty :: "provider_desc \<Rightarrow> bool" where
  "provider_desc_empty p \<longleftrightarrow> pd_host p = '''' \<and> pd_service p = ''''"

section \<open>Ranges, node keys and page keys\<close>

datatype child_pos = ROOT | LEFT_CHILD | RIGHT_CHILD

record query_t =
  q_id :: u32
  q_version :: u32
  q_offset :: u64
  q_size :: u64

definition query_t_default :: query_t where
  "query_t_default = \<lparr>q_id = 0, q_version = 0, q_offset = 0, q_size = 0\<rparr>"

definition intersects :: "query_t \<Rightarrow> query_t \<Rightarrow> bool" where
  "intersects a b =
     (if q_offset a \<le> q_offset b then q_offset b < q_offset a + q_size a
      else q_offset a < q_offset b + q_size b)"

text \<open>\<open>operator<\<close> compares versions only: it is the order of the interval map.\<close>

definition query_less :: "query_t \<Rightarrow> query_t \<Rightarrow> bool" where
  "query_less a b \<longleftrightarrow> q_version a < q_version b"

definition query_empty :: "query_t \<Rightarrow> bool" where
  "query_empty q \<longleftrightarrow> q_id q = 0 \<and> q_version q = 0 \<and> q_offset q = 0 \<and> q_size q = 0"

text \<open>
  \<open>getParent\<close>. The parent's size is computed modulo \<open>2 ^ 64\<close>; when it is 0 the code
  divides by zero, which is \<open>None\<close> here.
\<close>

definition getParent :: "query_t \<Rightarrow> (child_pos \<times> query_t) option" where
  "getParent q =
     (let psize = 2 * q_size q in
      if psize = 0 then None
      else if q_offset q mod psize = 0 then Some (LEFT_CHILD, q\<lparr>q_size := psize\<rparr>)
      else Some (RIGHT_CHILD, q\<lparr>q_size := psize, q_offset := q_offset q - q_size q\<rparr>))"

section \<open>Roots and tree nodes\<close>

record root_t =
  rt_node :: query_t
  rt_replica_count :: u32
  rt_current_size :: u64
  rt_page_size :: u64

definition root_t_make :: "u32 \<Rightarrow> u32 \<Rightarrow> u64 \<Rightarrow> u64 \<Rightarrow> u32 \<Rightarrow> root_t" where
  "root_t_make i v ps ms rc =
     \<lparr>rt_node = \<lparr>q_id = i, q_version = v, q_offset = 0, q_size = ms\<rparr>,
      rt_replica_count = rc, rt_current_size = 0, rt_page_size = ps\<rparr>"

definition root_empty :: "root_t \<Rightarrow> bool" where
  "root_empty r \<longleftrightarrow> q_id (rt_node r) = 0"

record dhtnode_t =
  nd_is_leaf :: bool
  nd_left :: query_t
  nd_right :: query_t

definition dhtnode_make :: "bool \<Rightarrow> dhtnode_t" where
  "dhtnode_make leaf = \<lparr>nd_is_leaf = leaf, nd_left = query_t_default, nd_right = query_t_default\<rparr>"

type_synonym siblings_enum_t = "query_t list"

section \<open>The interval map\<close>

text \<open>
  \<open>std::map<query_t, root_flag_t>\<close>: the entries in the order of the keys, that is of their
  versions; two keys with the same version are the same key. \<open>insert\<close> keeps an entry that is
  already there.
\<close>

type_synonym root_flag_t = "root_t \<times> bool"
type_synonym interval_entry_t = "query_t \<times> root_flag_t"
type_synonym interval_list_t = "interval_entry_t list"

fun im_insert :: "interval_entry_t \<Rightarrow> interval_list_t \<Rightarrow> interval_list_t" where
  "im_insert e [] = [e]"
| "im_insert e (x # xs) =
     (if query_less (fst e) (fst x) then e # x # xs
      else if query_less (fst x) (fst e) then x # im_insert e xs
      else x # xs)"

fun im_find :: "query_t \<Rightarrow> interval_list_t \<Rightarrow> interval_entry_t option" where
  "im_find q [] = None"
| "im_find q (x # xs) =
     (if \<not> query_less q (fst x) \<and> \<not> query_less (fst x) q then Some x else im_find q xs)"

fun im_mark :: "query_t \<Rightarrow> interval_list_t \<Rightarrow> interval_list_t" where
  "im_mark q [] = []"
| "im_mark q (x # xs) =
     (if \<not> query_less q (fst x) \<and> \<not> query_less (fst x) q
      then (fst x, (fst (snd x), True)) # xs
      else x # im_mark q xs)"

fun im_erase :: "query_t \<Rightarrow> interval_list_t \<Rightarrow> interval_list_t" where
  "im_erase q [] = []"
| "im_erase q (x # xs) =
     (if \<not> query_less q (fst x) \<and> \<not> query_less (fst x) q then xs else x # im_erase q xs)"

section \<open>The version manager's record of a blob and its answer to a writer\<close>

record obj_info =
  oi_roots :: "root_t list"
  oi_intervals :: interval_list_t
  oi_current_ticket :: u32
  oi_max_size :: u64
  oi_progress_size :: u64

definition obj_info_new :: "u32 \<Rightarrow> u64 \<Rightarrow> u32 \<Rightarrow> obj_info" where
  "obj_info_new i ps rc =
     \<lparr>oi_roots = [root_t_make i 0 ps 0 rc], oi_intervals = [], oi_current_ticket = 1,
      oi_max_size = ps, oi_progress_size = 0\<rparr>"

definition obj_info_clone :: "root_t \<Rightarrow> obj_info" where
  "obj_info_clone root =
     \<lparr>oi_roots = [root], oi_intervals = [], oi_current_ticket = 1,
      oi_max_size = q_size (rt_node root), oi_progress_size = rt_current_size root\<rparr>"

record vmgr_reply =
  vr_intervals :: interval_list_t
  vr_root_size :: u64
  vr_stable_root :: root_t

definition search_list :: "siblings_enum_t \<Rightarrow> u64 \<Rightarrow> u64 \<Rightarrow> query_t" where
  "search_list siblings off sz =
     (case find (\<lambda>q. q_offset q = off \<and> q_size q = sz) siblings of
        Some q \<Rightarrow> q
      | None \<Rightarrow> query_t_default)"

section \<open>The serialize members\<close>

definition ser_provider_desc :: "archive \<Rightarrow> provider_desc ser" where
  "ser_provider_desc ar =
     ser_class (\<lambda>p. (pd_host p, pd_service p)) (\<lambda>(h, s). \<lparr>pd_host = h, pd_service = s\<rparr>)
       (ser_pair (ar_string ar) (ar_string ar))"

definition ser_replica_list :: "archive \<Rightarrow> replica_list_t ser" where
  "ser_replica_list ar = ser_list ar (ser_provider_desc ar)"

definition ser_query :: "archive \<Rightarrow> query_t ser" where
  "ser_query ar =
     ser_class (\<lambda>q. (q_id q, q_version q, q_offset q, q_size q))
       (\<lambda>(i, v, o', s). \<lparr>q_id = i, q_version = v, q_offset = o', q_size = s\<rparr>)
       (ser_pair (ar_u32 ar) (ser_pair (ar_u32 ar) (ser_pair (ar_u64 ar) (ar_u64 ar))))"

definition ser_root :: "archive \<Rightarrow> root_t ser" where
  "ser_root ar =
     ser_class (\<lambda>r. (rt_node r, rt_page_size r, rt_current_size r, rt_replica_count r))
       (\<lambda>(n, ps, cs, rc). \<lparr>rt_node = n, rt_replica_count = rc, rt_current_size = cs,
                          rt_page_size = ps\<rparr>)
       (ser_pair (ser_query ar) (ser_pair (ar_u64 ar) (ser_pair (ar_u64 ar) (ar_u32 ar))))"

definition ser_dhtnode :: "archive \<Rightarrow> dhtnode_t ser" where
  "ser_dhtnode ar =
     ser_class (\<lambda>n. (nd_left n, nd_right n, nd_is_leaf n))
       (\<lambda>(l, r, b). \<lparr>nd_is_leaf = b, nd_left = l, nd_right = r\<rparr>)
       (ser_pair (ser_query ar) (ser_pair (ser_query ar) (ar_bool ar)))"

definition ser_vmgr_reply :: "archive \<Rightarrow> vmgr_reply ser" where
  "ser_vmgr_reply ar =
     ser_class (\<lambda>r. (vr_intervals r, vr_stable_root r, vr_root_size r))
       (\<lambda>(i, st, rs). \<lparr>vr_intervals = i, vr_root_size = rs, vr_stable_root = st\<rparr>)
       (ser_pair (ser_list ar (ser_pair (ser_query ar) (ser_pair (ser_root ar) (ar_bool ar))))
         (ser_pair (ser_root ar) (ar_u64 ar)))"

lemma archive_ser_ok [simp, intro]:
  assumes "archive_ok ar"
  shows "ser_ok (ar_bool ar)" "ser_ok (ar_u32 ar)" "ser_ok (ar_u64 ar)" "ser_ok (ar_string ar)"
    and "ser_ok (ser_query ar)" "ser_ok (ser_provider_desc ar)" "ser_ok (ser_replica_list ar)"
  using archive_okD [OF assms]
  by (auto simp: ser_query_def ser_provider_desc_def ser_replica_list_def
      intro!: ser_ok_class ser_ok_pair ser_ok_list)

lemma archive_ser_ok_root [simp, intro]:
  assumes "archive_ok ar"
  shows "ser_ok (ser_root ar)" and "ser_ok (ser_dhtnode ar)" and "ser_ok (ser_vmgr_reply ar)"
  using assms archive_okD(6) [OF assms]
  by (auto simp: ser_root_def ser_dhtnode_def ser_vmgr_reply_def intro!: ser_ok_class ser_ok_pair ser_ok_list)

section \<open>Lemmas on the data\<close>

lemma query_less_irrefl [simp]: "\<not> query_less q q"
  by (simp add: query_less_def)

lemma same_version_iff:
  "\<not> query_less q p \<and> \<not> query_less p q \<longleftrightarrow> q_version p = q_version q"
  by (auto simp: query_less_def)

lemma query_empty_default [simp]: "query_empty query_t_default"
  by (simp add: query_empty_def query_t_default_def)

lemma query_empty_iff: "query_empty q \<longleftrightarrow> q = query_t_default"
  by (cases q) (simp add: query_empty_def query_t_default_def)

text \<open>The versions of the entries, as numbers, in the order of the map.\<close>

definition versions :: "interval_list_t \<Rightarrow> nat list" where
  "versions xs = map (\<lambda>e. unat (q_version (fst e))) xs"

lemma versions_simps [simp]:
  "versions [] = []" "versions (x # xs) = unat (q_version (fst x)) # versions xs"
  "versions (xs @ ys) = versions xs @ versions ys"
  by (simp_all add: versions_def)

lemma versions_im_mark [simp]: "versions (im_mark q xs) = versions xs"
  by (induction xs) (auto simp: versions_def)

lemma im_insert_last:
  "\<forall>v \<in> set (versions xs). v < unat (q_version (fst e)) \<Longrightarrow> im_insert e xs = xs @ [e]"
  by (induction xs) (auto simp: query_less_def word_less_nat_alt)

lemma im_find_version: "im_find q xs = Some e \<Longrightarrow> q_version (fst e) = q_version q"
  by (induction xs) (auto simp: same_version_iff split: if_splits)

lemma im_find_mem: "im_find q xs = Some e \<Longrightarrow> e \<in> set xs"
  by (induction xs) (auto split: if_splits)

lemma im_find_None_iff: "im_find q xs = None \<longleftrightarrow> unat (q_version q) \<notin> set (versions xs)"
  by (induction xs) (auto simp: same_version_iff word_unat_eq_iff)

lemma im_erase_last:
  assumes "\<forall>v \<in> set (versions xs). v < unat (q_version (fst e))"
  shows "im_erase (fst e) (xs @ [e]) = xs"
  using assms by (induction xs) (auto simp: query_less_def word_less_nat_alt)

lemma search_list_append:
  "search_list (xs @ ys) off sz =
     (if \<exists>q \<in> set xs. q_offset q = off \<and> q_size q = sz then search_list xs off sz
      else search_list ys off sz)"
proof (cases "\<exists>q \<in> set xs. q_offset q = off \<and> q_size q = sz")
  case True
  then obtain q where "find (\<lambda>q. q_offset q = off \<and> q_size q = sz) xs = Some q"
    by (metis (mono_tags, lifting) find_None_iff option.exhaust)
  with True show ?thesis by (simp add: search_list_def find_None_append)
next
  case False
  then have "find (\<lambda>q. q_offset q = off \<and> q_size q = sz) xs = None"
    by (auto simp: find_None_iff)
  with False show ?thesis by (auto simp: search_list_def find_None_append)
qed

end
