(* ===== verification/Dyadic.thy ===== *)
theory Dyadic
  imports Structures
begin

text \<open>
  Offsets and sizes that are multiples of the page size, and the nodes of the metadata tree.
  A node at level \<open>k\<close> with index \<open>i\<close> covers the pages \<open>i * 2 ^ k\<close> up to
  \<open>(i + 1) * 2 ^ k\<close>. The lemmas carry the 64-bit computations of the code over to page
  numbers, as long as the tree ends below \<open>2 ^ 64\<close>.
\<close>

section \<open>Multiples of the page size\<close>

definition pw :: "u64 \<Rightarrow> nat \<Rightarrow> u64" where
  "pw ps n = of_nat n * ps"

lemma pw_0 [simp]: "pw ps 0 = 0"
  by (simp add: pw_def)

lemma pw_1 [simp]: "pw ps (Suc 0) = ps"
  by (simp add: pw_def)

lemma pw_add: "pw ps (m + n) = pw ps m + pw ps n"
  by (simp add: pw_def distrib_right)

lemma pw_double: "2 * pw ps n = pw ps (2 * n)"
  by (simp add: pw_def)

lemma pw_diff: "n \<le> m \<Longrightarrow> pw ps m - pw ps n = pw ps (m - n)"
  by (simp add: pw_def of_nat_diff left_diff_distrib)

text \<open>Page numbers up to \<open>N\<close> have byte addresses that do not wrap.\<close>

definition fits :: "u64 \<Rightarrow> nat \<Rightarrow> bool" where
  "fits ps N \<longleftrightarrow> ps \<noteq> 0 \<and> N * unat ps < 2 ^ 64"

lemma fits_mono: "fits ps N \<Longrightarrow> M \<le> N \<Longrightarrow> fits ps M"
  by (auto simp: fits_def intro: le_less_trans mult_le_mono1)

lemma unat_ps_pos: "fits ps N \<Longrightarrow> 0 < unat ps"
  by (simp add: fits_def unat_gt_0)

lemma unat_pw:
  assumes "fits ps N" and "n \<le> N" shows "unat (pw ps n) = n * unat ps"
proof -
  have le: "n * unat ps \<le> N * unat ps" using assms(2) by simp
  have "n \<le> n * unat ps" using unat_ps_pos [OF assms(1)] by (cases "unat ps") simp_all
  then have "n < 2 ^ 64" using le assms(1) unfolding fits_def by linarith
  then have "unat (of_nat n :: u64) = n" by (rule unat_of_nat_small)
  moreover have "n * unat ps < 2 ^ 64" using le assms(1) unfolding fits_def by linarith
  ultimately show ?thesis unfolding pw_def by (metis unat_mult_nowrap)
qed

lemma pw_order:
  assumes "fits ps N" and "m \<le> N" and "n \<le> N"
  shows "pw ps m \<le> pw ps n \<longleftrightarrow> m \<le> n" and "pw ps m < pw ps n \<longleftrightarrow> m < n"
    and "pw ps m = pw ps n \<longleftrightarrow> m = n"
  using unat_ps_pos [OF assms(1)] assms
  by (simp_all add: word_le_nat_alt word_less_nat_alt word_unat_eq_iff unat_pw)

lemma pw_eq_0_iff: "fits ps N \<Longrightarrow> n \<le> N \<Longrightarrow> pw ps n = 0 \<longleftrightarrow> n = 0"
  using pw_order(3) [of ps N n 0] by simp

lemma pw_mod:
  assumes "fits ps N" and "m \<le> N" and "n \<le> N" shows "pw ps m mod pw ps n = pw ps (m mod n)"
proof -
  have "m mod n \<le> N" using assms(2) by (meson le_trans mod_less_eq_dividend)
  then show ?thesis
    using assms by (simp add: word_unat_eq_iff unat_mod_distrib unat_pw mult_mod_left)
qed

lemma pw_div_ps:
  assumes "fits ps N" and "m \<le> N" shows "pw ps m div ps = of_nat m"
proof -
  have "m \<le> m * unat ps" using unat_ps_pos [OF assms(1)] by (cases "unat ps") simp_all
  also have "\<dots> \<le> N * unat ps" using assms(2) by simp
  finally have "m < 2 ^ 64" using assms(1) unfolding fits_def by linarith
  then have "unat (of_nat m :: u64) = m" by (rule unat_of_nat_small)
  then show ?thesis
    using assms unat_ps_pos [OF assms(1)] by (simp add: word_unat_eq_iff unat_div_distrib unat_pw)
qed

lemma pw_mod_ps: "fits ps N \<Longrightarrow> m \<le> N \<Longrightarrow> pw ps m mod ps = 0"
  by (simp add: word_unat_eq_iff unat_mod_distrib unat_pw)

lemma pw_half:
  assumes "fits ps N" and "2 * n \<le> N" shows "pw ps (2 * n) div 2 = pw ps n"
proof -
  have "unat (pw ps (2 * n) div 2) = 2 * n * unat ps div 2"
    using assms by (simp add: unat_div_distrib unat_pw)
  also have "\<dots> = n * unat ps" by (simp add: mult.assoc)
  finally show ?thesis using assms by (simp add: word_unat_eq_iff unat_pw)
qed

text \<open>Byte ranges that consist of whole pages.\<close>

lemma intersects_pages:
  assumes "fits ps N"
    and "q_offset q = pw ps a" "q_size q = pw ps m" "a + m \<le> N"
    and "q_offset r = pw ps c" "q_size r = pw ps n" "c + n \<le> N"
  shows "intersects q r \<longleftrightarrow> (if a \<le> c then c < a + m else a < c + n)"
  using assms by (simp add: intersects_def pw_order [OF assms(1)] flip: pw_add)

section \<open>Tree nodes\<close>

definition at_node :: "u64 \<Rightarrow> nat \<Rightarrow> nat \<Rightarrow> query_t \<Rightarrow> bool" where
  "at_node ps k i q \<longleftrightarrow> q_offset q = pw ps (i * 2 ^ k) \<and> q_size q = pw ps (2 ^ k)"

definition nodeq :: "u64 \<Rightarrow> u32 \<Rightarrow> u32 \<Rightarrow> nat \<Rightarrow> nat \<Rightarrow> query_t" where
  "nodeq ps d v k i =
     \<lparr>q_id = d, q_version = v, q_offset = pw ps (i * 2 ^ k), q_size = pw ps (2 ^ k)\<rparr>"

definition meets :: "nat \<Rightarrow> nat \<Rightarrow> nat \<Rightarrow> nat \<Rightarrow> bool" where
  "meets k i a b \<longleftrightarrow> i * 2 ^ k < b \<and> a < Suc i * 2 ^ k"

lemma at_node_nodeq [simp]: "at_node ps k i (nodeq ps d v k i)"
  by (simp add: at_node_def nodeq_def)

lemma nodeq_sel [simp]:
  "q_id (nodeq ps d v k i) = d" "q_version (nodeq ps d v k i) = v"
  "q_offset (nodeq ps d v k i) = pw ps (i * 2 ^ k)" "q_size (nodeq ps d v k i) = pw ps (2 ^ k)"
  by (simp_all add: nodeq_def)

lemma meets_iff_div:
  assumes "a < b"
  shows "meets k i a b \<longleftrightarrow> a div 2 ^ k \<le> i \<and> i \<le> (b - 1) div 2 ^ k"
proof -
  have "i * 2 ^ k < b \<longleftrightarrow> i * 2 ^ k \<le> b - 1" using assms by linarith
  also have "\<dots> \<longleftrightarrow> i \<le> (b - 1) div 2 ^ k" by (simp add: less_eq_div_iff_mult_less_eq)
  finally have 1: "i * 2 ^ k < b \<longleftrightarrow> i \<le> (b - 1) div 2 ^ k" .
  have "a < Suc i * 2 ^ k \<longleftrightarrow> a div 2 ^ k < Suc i"
    by (simp add: div_less_iff_less_mult)
  then show ?thesis using 1 by (auto simp: meets_def less_Suc_eq_le)
qed

lemma meets_child:
  "meets (Suc k) i a b \<longleftrightarrow> meets k (2 * i) a b \<or> meets k (2 * i + 1) a b" if "a < b"
  using that by (auto simp: meets_def algebra_simps)

lemma overlap_iff:
  assumes "0 < (l :: nat)" and "a < b"
  shows "(if x \<le> a then a < x + l else x < b) \<longleftrightarrow> x < b \<and> a < l + x"
    and "(if a \<le> x then x < b else a < x + l) \<longleftrightarrow> x < b \<and> a < l + x"
  using assms by auto

text \<open>The nodes of a tree with \<open>2 ^ K\<close> pages.\<close>


lemma node_bounds:
  assumes "Suc i * 2 ^ k \<le> (2 :: nat) ^ K"
  shows "i * 2 ^ k \<le> 2 ^ K" and "(2 :: nat) ^ k \<le> 2 ^ K" and "i * 2 ^ k + 2 ^ k \<le> 2 ^ K"
proof -
  have "2 ^ k \<le> Suc i * 2 ^ k" and "i * 2 ^ k \<le> Suc i * 2 ^ k" by simp_all
  then show "i * 2 ^ k \<le> 2 ^ K" and "(2 :: nat) ^ k \<le> 2 ^ K" and "i * 2 ^ k + 2 ^ k \<le> 2 ^ K"
    using assms by (simp_all only: le_trans mult_Suc add.commute)
qed

lemma intersects_node:
  assumes fit: "fits ps (2 ^ K)" and "at_node ps k i q" "Suc i * 2 ^ k \<le> 2 ^ K"
    and "q_offset r = pw ps a" "q_size r = pw ps (b - a)" "a < b" "b \<le> 2 ^ K"
  shows "intersects q r \<longleftrightarrow> meets k i a b" and "intersects r q \<longleftrightarrow> meets k i a b"
proof -
  have len: "0 < (2 :: nat) ^ k" by simp
  have geo: "q_offset q = pw ps (i * 2 ^ k)" "q_size q = pw ps (2 ^ k)"
    using assms(2) by (simp_all add: at_node_def)
  have ab: "a + (b - a) = b" using assms(6) by simp
  note bnd = node_bounds(3) [OF assms(3)]
  show "intersects q r \<longleftrightarrow> meets k i a b"
    unfolding intersects_pages [OF fit geo bnd assms(4,5), unfolded ab, OF assms(7)] meets_def mult_Suc
    by (rule overlap_iff [OF len assms(6)])
  show "intersects r q \<longleftrightarrow> meets k i a b"
    unfolding intersects_pages [OF fit assms(4,5) _ geo bnd, unfolded ab, OF assms(7)] meets_def mult_Suc
    by (rule overlap_iff [OF len assms(6)])
qed

lemma at_node_inject:
  assumes "fits ps (2 ^ K)" "at_node ps k i q" "at_node ps l j q"
    and "Suc i * 2 ^ k \<le> 2 ^ K" "Suc j * 2 ^ l \<le> 2 ^ K"
  shows "k = l \<and> i = j"
proof -
  have "pw ps (2 ^ k) = pw ps (2 ^ l)" and "pw ps (i * 2 ^ k) = pw ps (j * 2 ^ l)"
    using assms(2,3) by (simp_all add: at_node_def)
  then have "(2 :: nat) ^ k = 2 ^ l" and "i * 2 ^ k = j * 2 ^ l"
    using node_bounds [OF assms(4)] node_bounds [OF assms(5)]
    by (simp_all only: pw_order(3) [OF assms(1)])
  then show ?thesis by simp
qed

lemma parent_bound:
  assumes "Suc i * 2 ^ k \<le> (2 :: nat) ^ K" and "k < K"
  shows "Suc (i div 2) * 2 ^ Suc k \<le> (2 :: nat) ^ K"
proof -
  obtain m where m: "K = Suc (k + m)" using assms(2) less_imp_Suc_add by blast
  have "Suc i * 2 ^ k \<le> (2 * 2 ^ m) * 2 ^ k" using assms(1) by (simp add: m power_add mult.commute)
  then have "Suc i \<le> 2 * 2 ^ m" by (metis mult_le_cancel2 zero_less_numeral zero_less_power)
  then have "Suc (i div 2) \<le> 2 ^ m" by linarith
  then have "Suc (i div 2) * 2 ^ Suc k \<le> 2 ^ m * 2 ^ Suc k" by (rule mult_le_mono1)
  then show ?thesis by (simp add: m power_add ac_simps)
qed

lemma getParent_node:
  assumes fit: "fits ps (2 ^ K)" and "Suc i * 2 ^ k \<le> 2 ^ K" and "k < K"
  shows "getParent (nodeq ps d v k i) =
    Some (if even i then LEFT_CHILD else RIGHT_CHILD, nodeq ps d v (Suc k) (i div 2))"
proof -
  note b = node_bounds [OF assms(2)] and pb = node_bounds [OF parent_bound [OF assms(2,3)]]
  have psize: "2 * pw ps (2 ^ k) = pw ps (2 ^ Suc k)" by (simp add: pw_double)
  have nz: "pw ps (2 ^ Suc k) \<noteq> 0" using pb(2) by (simp only: pw_eq_0_iff [OF fit])  simp
  have "pw ps (i * 2 ^ k) mod pw ps (2 ^ Suc k) = pw ps (i * 2 ^ k mod 2 ^ Suc k)"
    using b pb by (simp only: pw_mod [OF fit])
  also have "i * 2 ^ k mod 2 ^ Suc k = (i mod 2) * 2 ^ k"
    by (simp add: mult_mod_left)
  finally have md: "pw ps (i * 2 ^ k) mod pw ps (2 ^ Suc k) = 0 \<longleftrightarrow> even i"
    using b(2) pw_eq_0_iff [OF fit, of "(i mod 2) * 2 ^ k"] by (cases "even i") (simp_all add: odd_iff_mod_2_eq_one)
  show ?thesis
  proof (cases "even i")
    case True
    then have off: "pw ps (i * 2 ^ k) = pw ps (i div 2 * 2 ^ Suc k)" by (elim evenE) (simp add: ac_simps)
    show ?thesis using md nz True
      by (simp add: getParent_def Let_def psize nodeq_def off del: power_Suc)
  next
    case False
    then have "i * 2 ^ k - 2 ^ k = i div 2 * 2 ^ Suc k" by (auto elim!: oddE simp: algebra_simps)
    moreover have "(2 :: nat) ^ k \<le> i * 2 ^ k" using False by (cases i) simp_all
    ultimately have "pw ps (i * 2 ^ k) - pw ps (2 ^ k) = pw ps (i div 2 * 2 ^ Suc k)"
      by (simp only: pw_diff)
    then show ?thesis
      using md nz False by (simp add: getParent_def Let_def psize nodeq_def del: power_Suc)
  qed
qed

end
