(* ===== verification/Range_Query.thy ===== *)
theory Range_Query
  imports Dyadic
begin

text \<open>
  \<open>client/range_query.cpp\<close> and \<open>client/replica_policy.hpp\<close>: the metadata tree of a
  version, written and read by clients through a DHT. A tree node is stored under its key
  (blob, version, offset, size); a leaf names a page key, under which the list of providers of
  the page is stored.

  The DHT is seen through the values it returns for keys (the empty buffer when there is none)
  and the error code of each \<open>put\<close>. Requests are issued first and their callbacks run during
  \<open>wait\<close>, in an order that depends on the network.
\<close>

type_synonym dht_values = "buffer \<Rightarrow> buffer"
type_synonym dht_put = "buffer \<times> buffer"

definition dht_key :: "archive \<Rightarrow> query_t \<Rightarrow> buffer" where
  "dht_key ar q = buffer_wrapper ar (ser_query ar) q"

section \<open>Replica selection\<close>

record random_select =
  rs_providers :: replica_list_t
  rs_page_key :: query_t

definition random_select_init :: random_select where
  "random_select_init = \<lparr>rs_providers = [], rs_page_key = query_t_default\<rparr>"

text \<open>After a failed deserialisation the list is not used again.\<close>

definition set_providers :: "archive \<Rightarrow> query_t \<Rightarrow> buffer \<Rightarrow> random_select \<Rightarrow> bool \<times> random_select" where
  "set_providers ar key val rs =
     (let rs = rs\<lparr>rs_page_key := key\<rparr> in
      if val = [] then (False, rs)
      else case getValue ar (ser_replica_list ar) val of
             Got providers \<Rightarrow> (True, rs\<lparr>rs_providers := providers\<rparr>)
           | _ \<Rightarrow> (False, rs))"

definition get_page_key :: "random_select \<Rightarrow> query_t" where
  "get_page_key rs = rs_page_key rs"

text \<open>\<open>rnd\<close> is the value of \<open>rand()\<close>.\<close>

definition try_next :: "nat \<Rightarrow> random_select \<Rightarrow> provider_desc \<times> random_select" where
  "try_next rnd rs =
     (let n = length (rs_providers rs) in
      if n = 0 then (provider_desc_default, rs)
      else let i = rnd mod n
           in (rs_providers rs ! i,
               rs\<lparr>rs_providers := take i (rs_providers rs) @ drop (Suc i) (rs_providers rs)\<rparr>))"

section \<open>Writing\<close>

definition read_node :: "archive \<Rightarrow> buffer \<Rightarrow> dhtnode_t option" where
  "read_node ar val =
     (if val = [] then None
      else case getValue ar (ser_dhtnode ar) val of Got node \<Rightarrow> Some node | _ \<Rightarrow> None)"

text \<open>
  The callback that walks down the stable tree towards \<open>target\<close> and collects the siblings on
  one side. Each call issues at most one further \<open>get\<close>. A walk that never ends is \<open>None\<close>.
\<close>

partial_function (option) siblings_callback ::
  "archive \<Rightarrow> dht_values \<Rightarrow> bool \<Rightarrow> query_t \<Rightarrow> siblings_enum_t \<Rightarrow> query_t \<Rightarrow> buffer
     \<Rightarrow> siblings_enum_t option" where
  "siblings_callback ar g isLeft target siblings parent val =
     (case read_node ar val of
        None \<Rightarrow> Some siblings
      | Some node \<Rightarrow>
          if nd_is_leaf node then Some siblings
          else
            let half = q_size parent div 2;
                left = (nd_left node)\<lparr>q_size := half, q_offset := q_offset parent\<rparr>;
                right = (nd_right node)\<lparr>q_size := half, q_offset := q_offset parent + half\<rparr>
            in if intersects left target
               then siblings_callback ar g isLeft target
                      (if \<not> isLeft \<and> query_empty (search_list siblings (q_offset right) (q_size right))
                       then siblings @ [right] else siblings)
                      left (g (dht_key ar left))
               else siblings_callback ar g isLeft target
                      (if isLeft \<and> query_empty (search_list siblings (q_offset left) (q_size left))
                       then siblings @ [left] else siblings)
                      right (g (dht_key ar right)))"

text \<open>
  The siblings that writers with earlier tickets are about to write. \<open>None\<close> is the division
  by zero after the size has been shifted out.
\<close>

partial_function (option) compute_sibling_versions ::
  "siblings_enum_t \<Rightarrow> query_t \<Rightarrow> interval_list_t \<Rightarrow> u64 \<Rightarrow> siblings_enum_t option" where
  "compute_sibling_versions siblings current intervals root_size =
     (if q_size current < root_size then
        if 2 * q_size current = 0 then None
        else
          let is_left = q_offset current mod (2 * q_size current) = 0;
              brother = (if is_left
                         then current\<lparr>q_offset := q_offset current + q_size current\<rparr>
                         else current\<lparr>q_offset := q_offset current - q_size current\<rparr>);
              parent = (if is_left then current else current\<lparr>q_offset := q_offset brother\<rparr>)
                         \<lparr>q_size := 2 * q_size current\<rparr>
          in compute_sibling_versions
               (case find (\<lambda>e. intersects brother (fst e)) (rev intervals) of
                  None \<Rightarrow> siblings
                | Some e \<Rightarrow> siblings @ [brother\<lparr>q_version := q_version (fst e)\<rparr>])
               parent intervals root_size
      else Some siblings)"

text \<open>
  The first loop: a page key entry and a leaf for every page. The loop reads the providers of
  page \<open>i\<close> from position \<open>j\<close> of the list; reading past its end is \<open>None\<close>.
\<close>

definition take_providers :: "replica_list_t \<Rightarrow> u32 \<Rightarrow> u32 \<Rightarrow> replica_list_t option" where
  "take_providers provider_list j rc =
     (if \<forall>k \<in> set [unat j..<unat (j + rc)]. k < length provider_list
      then Some (map (\<lambda>k. provider_list ! k) [unat j..<unat (j + rc)])
      else None)"

fun leaf_puts ::
  "archive \<Rightarrow> query_t \<Rightarrow> u32 \<Rightarrow> replica_list_t \<Rightarrow> u32 \<Rightarrow> query_t list \<Rightarrow> (query_t list \<times> dht_put list) option" where
  "leaf_puts ar query rc provider_list j [] = Some ([], [])"
| "leaf_puts ar query rc provider_list j (page # pages) =
     do {
       let node = (dhtnode_make True)\<lparr>nd_left := page\<rparr>;
       let leaf = page\<lparr>q_version := q_version query,
                       q_offset := q_offset query + q_offset page * q_size page\<rparr>;
       providers \<leftarrow> take_providers provider_list j rc;
       (leaves, puts) \<leftarrow> leaf_puts ar query rc provider_list (j + rc) pages;
       Some (leaf # leaves,
             (dht_key ar page, buffer_wrapper ar (ser_replica_list ar) providers) #
             (dht_key ar leaf, buffer_wrapper ar (ser_dhtnode ar) node) # puts)
     }"

text \<open>
  The second loop: nodes leave the front of the queue and their parents join at its back, until
  the root has left. \<open>None\<close> is a division by zero in \<open>getParent\<close>, or a loop that never ends.
\<close>

definition take_brother ::
  "u64 \<Rightarrow> child_pos \<Rightarrow> query_t \<Rightarrow> query_t list \<Rightarrow> (child_pos \<times> query_t \<times> query_t list) option" where
  "take_brother root_size position first_parent rest =
     (case rest of
        [] \<Rightarrow> Some (position, query_t_default, [])
      | next # rest' \<Rightarrow>
          if q_size next = root_size then Some (position, next, rest)
          else do {
            (next_position, next_parent) \<leftarrow> getParent next;
            Some (if next_position = RIGHT_CHILD \<and> first_parent = next_parent
                  then (ROOT, next, rest') else (position, next, rest))
          })"

partial_function (option) build_tree ::
  "archive \<Rightarrow> u64 \<Rightarrow> siblings_enum_t \<Rightarrow> siblings_enum_t \<Rightarrow> query_t list \<Rightarrow> dht_put list
     \<Rightarrow> dht_put list option" where
  "build_tree ar root_size left_siblings right_siblings deque puts =
     (case deque of
        [] \<Rightarrow> Some puts
      | first # rest \<Rightarrow>
          if q_size first = root_size
          then build_tree ar root_size left_siblings right_siblings rest puts
          else do {
            (position, first_parent) \<leftarrow> getParent first;
            (position, next, rest) \<leftarrow> take_brother root_size position first_parent rest;
            let next = (if position = LEFT_CHILD
                        then search_list right_siblings (q_offset first + q_size first) (q_size first)
                        else next);
            let (first, next) = (if position = RIGHT_CHILD
                        then (search_list left_siblings (q_offset first - q_size first) (q_size first), first)
                        else (first, next));
            let node = (dhtnode_make False)\<lparr>nd_left := first, nd_right := next\<rparr>;
            build_tree ar root_size left_siblings right_siblings (rest @ [first_parent])
              (puts @ [(dht_key ar first_parent, buffer_wrapper ar (ser_dhtnode ar) node)])
          })"

text \<open>
  The whole operation: its result and the puts it issued, in order. \<open>put_error n\<close> is the error
  code the callback of the \<open>n\<close>-th put receives; the callbacks run in the two \<open>wait\<close> calls.
  \<open>None\<close> is an access outside an array, a division by zero or a loop that never ends.
\<close>

definition no_error :: "(nat \<Rightarrow> int) \<Rightarrow> nat \<Rightarrow> bool" where
  "no_error put_error n \<longleftrightarrow> (\<forall>i \<in> set [0..<n]. put_error i = 0)"

definition stable_siblings ::
  "archive \<Rightarrow> dht_values \<Rightarrow> query_t \<Rightarrow> query_t \<Rightarrow> query_t \<Rightarrow> siblings_enum_t \<Rightarrow> siblings_enum_t
     \<Rightarrow> (siblings_enum_t \<times> siblings_enum_t) option" where
  "stable_siblings ar g stable_root front back left_siblings right_siblings =
     do {
       left_siblings \<leftarrow>
         (if intersects stable_root front
          then siblings_callback ar g True front left_siblings stable_root (g (dht_key ar stable_root))
          else if query_empty (search_list left_siblings (q_offset stable_root) (q_size stable_root))
          then Some (left_siblings @ [stable_root])
          else Some left_siblings);
       right_siblings \<leftarrow>
         (if intersects stable_root back
          then siblings_callback ar g False back right_siblings stable_root (g (dht_key ar stable_root))
          else Some right_siblings);
       Some (left_siblings, right_siblings)
     }"

definition edge_leaves :: "query_t \<Rightarrow> u64 \<Rightarrow> query_t \<times> query_t" where
  "edge_leaves query page_size =
     (let stop = q_offset query + q_size query in
      (query\<lparr>q_offset := q_offset query div page_size * page_size, q_size := page_size\<rparr>,
       query\<lparr>q_offset := (stop div page_size - (if stop mod page_size = 0 then 1 else 0)) * page_size,
             q_size := page_size\<rparr>))"

definition writeRecordLocations ::
  "archive \<Rightarrow> dht_values \<Rightarrow> (nat \<Rightarrow> int) \<Rightarrow> vmgr_reply \<Rightarrow> query_t list \<Rightarrow> replica_list_t
     \<Rightarrow> (bool \<times> dht_put list) option" where
  "writeRecordLocations ar g put_error mgr_reply node_deque provider_list =
     (if node_deque = [] then Some (False, [])
      else if vr_intervals mgr_reply = [] then None
      else do {
        let query = fst (last (vr_intervals mgr_reply));
        let stable_root = vr_stable_root mgr_reply;
        (leaves, puts) \<leftarrow> leaf_puts ar query (rt_replica_count stable_root) provider_list 0 node_deque;
        let page_size = rt_page_size stable_root;
        if page_size = 0 then None
        else do {
          let (left, right) = edge_leaves query page_size;
          let intervals = im_erase query (vr_intervals mgr_reply);
          left_siblings \<leftarrow> compute_sibling_versions [] left intervals (vr_root_size mgr_reply);
          right_siblings \<leftarrow> compute_sibling_versions [] right intervals (vr_root_size mgr_reply);
          (left_siblings, right_siblings) \<leftarrow>
            stable_siblings ar g (rt_node stable_root) (hd leaves) (last leaves) left_siblings right_siblings;
          if no_error put_error (length puts)
          then do {
            all_puts \<leftarrow> build_tree ar (vr_root_size mgr_reply) left_siblings right_siblings leaves puts;
            Some (no_error put_error (length all_puts), all_puts)
          }
          else Some (False, puts)
        }
      })"

section \<open>Reading\<close>

text \<open>
  A request that waits for its answer, with the bound arguments of its callback. The position of
  a page in the result is an \<open>unsigned int\<close>.
\<close>

datatype read_request =
    Get_node query_t u64
  | Get_leaf query_t u32

record read_state =
  rd_pending :: "read_request list"
  rd_result :: bool
  rd_leaves :: "random_select list"

text \<open>
  \<open>ASSERT\<close> throws, or is compiled out and the access is outside the vector: both are \<open>None\<close>.
\<close>

definition leaf_callback ::
  "archive \<Rightarrow> query_t \<Rightarrow> u32 \<Rightarrow> buffer \<Rightarrow> read_state \<Rightarrow> read_state option" where
  "leaf_callback ar page_key index val s =
     (if \<not> rd_result s then Some s
      else if length (rd_leaves s) \<le> unat index then None
      else let (ok, rs) = set_providers ar page_key val (rd_leaves s ! unat index)
           in Some (s\<lparr>rd_leaves := (rd_leaves s)[unat index := rs], rd_result := ok\<rparr>))"

definition read_callback ::
  "archive \<Rightarrow> query_t \<Rightarrow> u64 \<Rightarrow> u64 \<Rightarrow> buffer \<Rightarrow> read_state \<Rightarrow> read_state option" where
  "read_callback ar rng page_size off val s =
     (if \<not> rd_result s then Some s
      else case read_node ar val of
        None \<Rightarrow> Some (s\<lparr>rd_result := False\<rparr>)
      | Some node \<Rightarrow>
          if nd_is_leaf node then
            if page_size = 0 then None
            else Some (s\<lparr>rd_pending := rd_pending s @
                   [Get_leaf (nd_left node) (ucast ((off - q_offset rng) div page_size))]\<rparr>)
          else Some (s\<lparr>rd_pending := rd_pending s @
                 (if intersects (nd_left node) rng then [Get_node (nd_left node) (q_offset (nd_left node))] else []) @
                 (if intersects (nd_right node) rng then [Get_node (nd_right node) (q_offset (nd_right node))] else [])\<rparr>))"

definition deliver ::
  "archive \<Rightarrow> dht_values \<Rightarrow> query_t \<Rightarrow> u64 \<Rightarrow> read_request \<Rightarrow> read_state \<Rightarrow> read_state option" where
  "deliver ar g rng page_size req s =
     (case req of
        Get_node q off \<Rightarrow> read_callback ar rng page_size off (g (dht_key ar q)) s
      | Get_leaf key index \<Rightarrow> leaf_callback ar key index (g (dht_key ar key)) s)"

text \<open>
  \<open>wait\<close>: answers arrive until no request is left. \<open>pick\<close> says which request is answered
  next; it stands for the network.
\<close>

partial_function (option) run_reads ::
  "archive \<Rightarrow> dht_values \<Rightarrow> query_t \<Rightarrow> u64 \<Rightarrow> (read_state \<Rightarrow> nat) \<Rightarrow> read_state \<Rightarrow> read_state option" where
  "run_reads ar g rng page_size pick s =
     (if rd_pending s = [] then Some s
      else
        let n = pick s mod length (rd_pending s)
        in case deliver ar g rng page_size (rd_pending s ! n)
                  (s\<lparr>rd_pending := take n (rd_pending s) @ drop (Suc n) (rd_pending s)\<rparr>) of
             None \<Rightarrow> None
           | Some s' \<Rightarrow> run_reads ar g rng page_size pick s')"

definition readRecordLocations ::
  "archive \<Rightarrow> dht_values \<Rightarrow> (read_state \<Rightarrow> nat) \<Rightarrow> random_select list \<Rightarrow> query_t \<Rightarrow> root_t
     \<Rightarrow> (bool \<times> random_select list) option" where
  "readRecordLocations ar g pick leaves rng root =
     do {
       s \<leftarrow> run_reads ar g rng (rt_page_size root) pick
              \<lparr>rd_pending = [Get_node (rt_node root) 0], rd_result = True, rd_leaves = leaves\<rparr>;
       Some (rd_result s, rd_leaves s)
     }"

end
