(* ===== verification/Rpc_Meta.thy ===== *)
theory Rpc_Meta
  imports Buffer_Wrapper
begin

text \<open>
  \<open>rpc/rpc_meta.hpp\<close> and the RPC numbers of \<open>vmanager/main.hpp\<close>,
  \<open>pmanager/publisher.hpp\<close> and \<open>provider/provider.hpp\<close>: the status codes of a call, its
  header, and the names under which the servers register their handlers.
\<close>

definition rpc_ok :: rpcreturn_t where "rpc_ok = 0"
definition rpc_earg :: rpcreturn_t where "rpc_earg = 7"
definition rpc_eres :: rpcreturn_t where "rpc_eres = 28"
definition rpc_eobj :: rpcreturn_t where "rpc_eobj = 6"

lemma rpc_status_distinct [simp]:
  "rpc_ok \<noteq> rpc_earg" "rpc_ok \<noteq> rpc_eres" "rpc_ok \<noteq> rpc_eobj"
  "rpc_earg \<noteq> rpc_ok" "rpc_eres \<noteq> rpc_ok" "rpc_eobj \<noteq> rpc_ok"
  "rpc_earg \<noteq> rpc_eres" "rpc_earg \<noteq> rpc_eobj" "rpc_eres \<noteq> rpc_eobj"
  "rpc_eres \<noteq> rpc_earg" "rpc_eobj \<noteq> rpc_earg" "rpc_eobj \<noteq> rpc_eres"
  by (simp_all add: rpc_ok_def rpc_earg_def rpc_eres_def rpc_eobj_def)

record rpcheader_t =
  hd_name :: u32
  hd_psize :: u32
  hd_status :: rpcreturn_t

definition rpcheader_make :: "u32 \<Rightarrow> u32 \<Rightarrow> rpcheader_t" where
  "rpcheader_make n s = \<lparr>hd_name = n, hd_psize = s, hd_status = rpc_ok\<rparr>"

definition VMGR_GETROOT :: u32 where "VMGR_GETROOT = 1"
definition VMGR_GETTICKET :: u32 where "VMGR_GETTICKET = 2"
definition VMGR_CREATE :: u32 where "VMGR_CREATE = 3"
definition VMGR_PUBLISH :: u32 where "VMGR_PUBLISH = 4"
definition VMGR_GETOBJNO :: u32 where "VMGR_GETOBJNO = 5"
definition VMGR_CLONE :: u32 where "VMGR_CLONE = 6"

definition PUBLISHER_UPDATE :: u32 where "PUBLISHER_UPDATE = 1"
definition PUBLISHER_GET :: u32 where "PUBLISHER_GET = 2"

definition PROVIDER_READ :: u32 where "PROVIDER_READ = 1"
definition PROVIDER_WRITE :: u32 where "PROVIDER_WRITE = 2"
definition PROVIDER_FREE :: u32 where "PROVIDER_FREE = 3"
definition PROVIDER_READ_PARTIAL :: u32 where "PROVIDER_READ_PARTIAL = 4"

lemmas rpc_names [blob_defs] =
  VMGR_GETROOT_def VMGR_GETTICKET_def VMGR_CREATE_def VMGR_PUBLISH_def VMGR_GETOBJNO_def
  VMGR_CLONE_def PUBLISHER_UPDATE_def PUBLISHER_GET_def PROVIDER_READ_def PROVIDER_WRITE_def
  PROVIDER_FREE_def PROVIDER_READ_PARTIAL_def

end
