(* ===== verification/Rpc_Wire.thy ===== *)
theory Rpc_Wire
  imports Rpc_Meta
begin

text \<open>
  The two ends of an RPC connection: \<open>rpc/rpc_client.hpp\<close> from \<open>handle_connect\<close> to
  \<open>handle_callback\<close>, and \<open>rpc/rpc_server.hpp\<close> from \<open>handle_connection\<close> to the
  answer. A request is a header with the name of the RPC and the number of parameters, followed by
  the size and the bytes of each parameter; an answer has the same form.

  The chains of asynchronous handlers are functions on a socket. A socket is seen from its end of
  the connection: the bytes that will still arrive before the connection ends, the bytes written,
  and how many more can be written before it breaks. The \<open>transfer_all\<close> operations of
  \<open>boost::asio\<close> move all the bytes or report an error. Headers are sent as they lie in memory, on
  machines of one byte order (least significant byte first here).
\<close>

section \<open>Sockets\<close>

record sync_socket =
  so_in :: buffer
  so_out :: buffer
  so_room :: nat
  so_error :: rpcreturn_t
  so_open :: bool

definition async_read :: "nat \<Rightarrow> sync_socket \<Rightarrow> rpcreturn_t \<times> buffer \<times> sync_socket" where
  "async_read n so =
     (if n \<le> length (so_in so) then (0, take n (so_in so), so\<lparr>so_in := drop n (so_in so)\<rparr>)
      else (so_error so, so_in so, so\<lparr>so_in := []\<rparr>))"

definition async_write :: "buffer \<Rightarrow> sync_socket \<Rightarrow> rpcreturn_t \<times> sync_socket" where
  "async_write bs so =
     (if length bs \<le> so_room so
      then (0, so\<lparr>so_out := so_out so @ bs, so_room := so_room so - length bs\<rparr>)
      else (so_error so, so\<lparr>so_out := so_out so @ take (so_room so) bs, so_room := 0\<rparr>))"

definition sock_close :: "sync_socket \<Rightarrow> sync_socket" where
  "sock_close so = so\<lparr>so_open := False\<rparr>"

section \<open>Headers and requests\<close>

definition header_bytes :: "rpcheader_t \<Rightarrow> buffer" where
  "header_bytes h = word_bytes 4 (hd_name h) @ word_bytes 4 (hd_psize h) @
     word_bytes 4 (word_of_int (hd_status h) :: u32)"

definition bytes_header :: "buffer \<Rightarrow> rpcheader_t" where
  "bytes_header b =
     \<lparr>hd_name = bytes_word (take 4 b), hd_psize = bytes_word (take 4 (drop 4 b)),
      hd_status = sint (bytes_word (take 4 (drop 8 b)) :: u32)\<rparr>"

definition HEADER_SIZE :: nat where "HEADER_SIZE = 12"

definition asio_invalid_argument :: rpcreturn_t where "asio_invalid_argument = 22"

text \<open>
  The callback is not part of the record: the client hands status and results to its caller, the
  server looks the handler up.
\<close>

record rpcinfo_t =
  ri_id :: u32
  ri_host_id :: string_pair_t
  ri_params :: rpcvector_t
  ri_result :: rpcvector_t
  ri_header :: rpcheader_t

definition rpcinfo_client :: "string \<Rightarrow> string \<Rightarrow> u32 \<Rightarrow> rpcvector_t \<Rightarrow> rpcvector_t \<Rightarrow> rpcinfo_t" where
  "rpcinfo_client h s n p r =
     \<lparr>ri_id = 0, ri_host_id = (h, s), ri_params = p, ri_result = r,
      ri_header = rpcheader_make n (of_nat (length p))\<rparr>"

definition rpcinfo_server :: rpcinfo_t where
  "rpcinfo_server = \<lparr>ri_id = 0, ri_host_id = ('''', ''''), ri_params = [], ri_result = [],
     ri_header = rpcheader_make 0 0\<rparr>"

text \<open>\<open>std::vector::resize\<close>\<close>

definition resize :: "nat \<Rightarrow> rpcvector_t \<Rightarrow> rpcvector_t" where
  "resize n v = take n v @ replicate (n - length v) []"

text \<open>The bytes \<open>buffer(b.get(), b.size())\<close> refers to; the size is an \<open>unsigned int\<close>.\<close>

definition sent_bytes :: "buffer \<Rightarrow> buffer" where
  "sent_bytes b = take (unat (bw_size b)) b"

definition set_psize :: "u32 \<Rightarrow> rpcinfo_t \<Rightarrow> rpcinfo_t" where
  "set_psize n rd = rd\<lparr>ri_header := (ri_header rd)\<lparr>hd_psize := n\<rparr>\<rparr>"

section \<open>The client's end\<close>

text \<open>
  The results are the error \<open>handle_callback\<close> is called with, the call and the socket.
  \<open>handle_answer\<close> and the two handlers it chains: a result with a buffer of the caller keeps it
  and must have its size, any other result gets a buffer of its own.
\<close>

function client_handle_answer :: "nat \<Rightarrow> rpcinfo_t \<Rightarrow> sync_socket \<Rightarrow> rpcreturn_t \<times> rpcinfo_t \<times> sync_socket" where
  "client_handle_answer index rd so =
     (if index < length (ri_result rd) then
        case async_read 4 so of (err, sz, so) \<Rightarrow>
          if err \<noteq> 0 then (asio_invalid_argument, rd, so)
          else let psize = bytes_word sz :: u32;
                   rd = set_psize psize rd;
                   old = ri_result rd ! index
               in if bw_size old \<noteq> 0 \<and> bw_size old \<noteq> psize then (asio_invalid_argument, rd, so)
                  else case async_read (unat psize) so of (err, bs, so) \<Rightarrow>
                    let rd = rd\<lparr>ri_result := (ri_result rd)[index := bs @ drop (length bs) old]\<rparr>
                    in if err \<noteq> 0 then (asio_invalid_argument, rd, so)
                       else client_handle_answer (Suc index) rd so
      else (0, rd, so))"
  by auto
termination
  by (relation "measure (\<lambda>(index, rd, so). length (ri_result rd) - index)") (auto simp: set_psize_def)

definition client_read_answer :: "rpcinfo_t \<Rightarrow> sync_socket \<Rightarrow> rpcreturn_t \<times> rpcinfo_t \<times> sync_socket" where
  "client_read_answer rd so =
     (case async_read HEADER_SIZE so of (err, bs, so) \<Rightarrow>
        if err \<noteq> 0 then (asio_invalid_argument, rd, so)
        else let h = bytes_header bs
             in client_handle_answer 0 (rd\<lparr>ri_header := h, ri_result := resize (unat (hd_psize h)) (ri_result rd)\<rparr>) so)"

function client_handle_params :: "nat \<Rightarrow> rpcinfo_t \<Rightarrow> sync_socket \<Rightarrow> rpcreturn_t \<times> rpcinfo_t \<times> sync_socket" where
  "client_handle_params index rd so =
     (if index < length (ri_params rd) then
        let p = ri_params rd ! index;
            rd = set_psize (bw_size p) rd
        in case async_write (word_bytes 4 (bw_size p)) so of (err, so) \<Rightarrow>
             if err \<noteq> 0 then (err, rd, so)
             else case async_write (sent_bytes p) so of (err, so) \<Rightarrow>
                    if err \<noteq> 0 then (asio_invalid_argument, rd, so)
                    else client_handle_params (Suc index) rd so
      else client_read_answer rd so)"
  by auto
termination
  by (relation "measure (\<lambda>(index, rd, so). length (ri_params rd) - index)") (auto simp: set_psize_def)

text \<open>\<open>handle_connect\<close> on an open socket and \<open>handle_header\<close>.\<close>

definition client_send :: "rpcinfo_t \<Rightarrow> sync_socket \<Rightarrow> rpcreturn_t \<times> rpcinfo_t \<times> sync_socket" where
  "client_send rd so =
     (case async_write (header_bytes (ri_header rd)) so of (err, so) \<Rightarrow>
        if err \<noteq> 0 then (err, rd, so) else client_handle_params 0 rd so)"

text \<open>What \<open>handle_callback\<close> passes to the caller's callback, and the socket.\<close>

definition client_callback ::
  "rpcreturn_t \<times> rpcinfo_t \<times> sync_socket \<Rightarrow> (rpcreturn_t \<times> rpcvector_t) \<times> sync_socket" where
  "client_callback x =
     (case x of (err, rd, so) \<Rightarrow>
        if err \<noteq> 0 then ((err, ri_result rd), sock_close so)
        else ((hd_status (ri_header rd), ri_result rd), so))"

section \<open>The server's end\<close>

text \<open>\<open>None\<close>: the server drops the connection.\<close>

function server_handle_params :: "nat \<Rightarrow> rpcinfo_t \<Rightarrow> sync_socket \<Rightarrow> (rpcinfo_t \<times> sync_socket) option" where
  "server_handle_params index rd so =
     (if index < length (ri_params rd) then
        case async_read 4 so of (err, sz, so) \<Rightarrow>
          if err \<noteq> 0 then None
          else let psize = bytes_word sz :: u32; rd = set_psize psize rd
               in case async_read (unat psize) so of (err, bs, so) \<Rightarrow>
                    if err \<noteq> 0 then None
                    else server_handle_params (Suc index) (rd\<lparr>ri_params := (ri_params rd)[index := bs]\<rparr>) so
      else Some (rd, so))"
  by auto
termination
  by (relation "measure (\<lambda>(index, rd, so). length (ri_params rd) - index)") (auto simp: set_psize_def)

text \<open>
  \<open>handle_connection\<close> and \<open>handle_header\<close>; \<open>known\<close> says whether a handler is
  registered. The call then waits in the task queue. A connection reuses its record from one call to
  the next.
\<close>

definition server_receive :: "(u32 \<Rightarrow> bool) \<Rightarrow> rpcinfo_t \<Rightarrow> sync_socket \<Rightarrow> (rpcinfo_t \<times> sync_socket) option" where
  "server_receive known rd so =
     (case async_read HEADER_SIZE so of (err, bs, so) \<Rightarrow>
        if err \<noteq> 0 then None
        else let h = bytes_header bs
             in if \<not> known (hd_name h) then None
                else server_handle_params 0
                       (rd\<lparr>ri_header := h, ri_params := resize (unat (hd_psize h)) (ri_params rd)\<rparr>) so)"

function server_handle_answer :: "nat \<Rightarrow> rpcinfo_t \<Rightarrow> sync_socket \<Rightarrow> (rpcinfo_t \<times> sync_socket) option" where
  "server_handle_answer index rd so =
     (if index < length (ri_result rd) then
        let p = ri_result rd ! index;
            rd = set_psize (bw_size p) rd
        in case async_write (word_bytes 4 (bw_size p)) so of (err, so) \<Rightarrow>
             if err \<noteq> 0 then None
             else case async_write (sent_bytes p) so of (err, so) \<Rightarrow>
                    if err \<noteq> 0 then None
                    else server_handle_answer (Suc index) rd so
      else Some (rd, so))"
  by auto
termination
  by (relation "measure (\<lambda>(index, rd, so). length (ri_result rd) - index)") (auto simp: set_psize_def)

text \<open>What \<open>processor_exec\<close> does with the status and results of the handler.\<close>

definition server_answer ::
  "rpcreturn_t \<Rightarrow> rpcvector_t \<Rightarrow> rpcinfo_t \<Rightarrow> sync_socket \<Rightarrow> (rpcinfo_t \<times> sync_socket) option" where
  "server_answer st result rd so =
     (let rd = rd\<lparr>ri_result := result,
                  ri_header := (ri_header rd)\<lparr>hd_status := st, hd_psize := of_nat (length result)\<rparr>\<rparr>
      in case async_write (header_bytes (ri_header rd)) so of (err, so) \<Rightarrow>
           if err \<noteq> 0 then None else server_handle_answer 0 rd so)"

declare client_handle_answer.simps [simp del] client_handle_params.simps [simp del]
  server_handle_params.simps [simp del] server_handle_answer.simps [simp del]

section \<open>What goes over the wire\<close>

definition frames :: "rpcvector_t \<Rightarrow> buffer" where
  "frames ps = concat (map (\<lambda>p. word_bytes 4 (bw_size p) @ p) ps)"

definition request_bytes :: "u32 \<Rightarrow> rpcvector_t \<Rightarrow> buffer" where
  "request_bytes n ps = header_bytes (rpcheader_make n (of_nat (length ps))) @ frames ps"

definition answer_bytes :: "u32 \<Rightarrow> rpcreturn_t \<Rightarrow> rpcvector_t \<Rightarrow> buffer" where
  "answer_bytes n st res =
     header_bytes \<lparr>hd_name = n, hd_psize = of_nat (length res), hd_status = st\<rparr> @ frames res"

definition sendable :: "rpcvector_t \<Rightarrow> bool" where
  "sendable ps \<longleftrightarrow> length ps < 2 ^ 32 \<and> (\<forall>p \<in> set ps. length p < 2 ^ 32)"

text \<open>
  What a callback gets for an answer, given the buffers the caller supplied: a result that does not
  have the size of its buffer makes the call fail; the results before it have been stored.
\<close>

definition bad_result :: "rpcvector_t \<Rightarrow> rpcvector_t \<Rightarrow> nat \<Rightarrow> bool" where
  "bad_result buffers res i \<longleftrightarrow> i < length buffers \<and> buffers ! i \<noteq> [] \<and> length (buffers ! i) \<noteq> length (res ! i)"

definition managed_answer :: "rpcvector_t \<Rightarrow> rpcreturn_t \<times> rpcvector_t \<Rightarrow> rpcreturn_t \<times> rpcvector_t" where
  "managed_answer buffers a =
     (case a of (st, res) \<Rightarrow>
        case find (bad_result buffers res) [0..<length res] of
          None \<Rightarrow> (st, res)
        | Some i \<Rightarrow> (asio_invalid_argument, take i res @ drop i (resize (length res) buffers)))"

lemma frames_simps [simp]:
  "frames [] = []" "frames (p # ps) = word_bytes 4 (bw_size p) @ p @ frames ps"
  by (simp_all add: frames_def)

lemma length_header_bytes [simp]: "length (header_bytes h) = HEADER_SIZE"
  by (simp add: header_bytes_def HEADER_SIZE_def)

lemma bytes_word_u32 [simp]: "bytes_word (word_bytes 4 (w :: u32)) = w"
  by (simp add: bytes_word_word_bytes take_bit_word_eq_self)

lemma bytes_header_bytes:
  "- (2 ^ 31) \<le> hd_status h \<Longrightarrow> hd_status h < 2 ^ 31 \<Longrightarrow> bytes_header (header_bytes h) = h"
  by (cases h) (simp add: bytes_header_def header_bytes_def signed_take_bit_int_eq_self sint_word_ariths
      signed_of_int)

lemma unat_bw_size [simp]: "length b < 2 ^ 32 \<Longrightarrow> unat (bw_size b) = length b"
  by (simp add: bw_size_def unat_of_nat)

lemma sent_bytes_small [simp]: "length b < 2 ^ 32 \<Longrightarrow> sent_bytes b = b"
  by (simp add: sent_bytes_def)

lemma bw_size_eq_iff:
  "length a < 2 ^ 32 \<Longrightarrow> length b < 2 ^ 32 \<Longrightarrow> bw_size a = bw_size b \<longleftrightarrow> length a = length b"
  by (metis unat_bw_size bw_size_def)

lemma bw_size_0_iff: "length a < 2 ^ 32 \<Longrightarrow> bw_size a = 0 \<longleftrightarrow> a = []"
  using bw_size_eq_iff [of a "[]"] by (simp add: bw_size_def)

lemma bw_size_Nil [simp]: "bw_size [] = 0"
  by (simp add: bw_size_def)

lemma sendableD: "sendable ps \<Longrightarrow> i < length ps \<Longrightarrow> length (ps ! i) < 2 ^ 32"
  by (simp add: sendable_def)

lemma frames_drop: "i < length ps \<Longrightarrow> frames (drop i ps) = word_bytes 4 (bw_size (ps ! i)) @ (ps ! i) @ frames (drop (Suc i) ps)"
  by (simp flip: Cons_nth_drop_Suc)

lemma async_read_append [simp]:
  "so_in so = a @ b \<Longrightarrow> length a = n \<Longrightarrow> async_read n so = (0, a, so\<lparr>so_in := b\<rparr>)"
  by (auto simp: async_read_def)

lemma async_read_0 [simp]: "async_read 0 so = (0, [], so)"
  by (simp add: async_read_def)

lemma async_read_short: "length (so_in so) < n \<Longrightarrow> async_read n so = (so_error so, so_in so, so\<lparr>so_in := []\<rparr>)"
  by (simp add: async_read_def)

lemma async_write_room [simp]:
  "length bs \<le> so_room so \<Longrightarrow>
     async_write bs so = (0, so\<lparr>so_out := so_out so @ bs, so_room := so_room so - length bs\<rparr>)"
  by (simp add: async_write_def)

lemma set_psize_simps [simp]:
  "ri_params (set_psize n rd) = ri_params rd" "ri_result (set_psize n rd) = ri_result rd"
  "hd_status (ri_header (set_psize n rd)) = hd_status (ri_header rd)"
  "hd_name (ri_header (set_psize n rd)) = hd_name (ri_header rd)"
  by (simp_all add: set_psize_def)

section \<open>Receiving parameters and results\<close>

lemma server_params_received:
  assumes "sendable ps" "length (ri_params rd) = length ps" "take i (ri_params rd) = take i ps" "i \<le> length ps"
    and "so_in so = frames (drop i ps) @ rest"
  shows "\<exists>h. server_handle_params i rd so = Some (rd\<lparr>ri_params := ps, ri_header := h\<rparr>, so\<lparr>so_in := rest\<rparr>) \<and>
    hd_name h = hd_name (ri_header rd)"
  using assms(2-)
proof (induction "length ps - i" arbitrary: i rd so)
  case 0
  then show ?case
    by (intro exI [of _ "ri_header rd"]) (simp add: server_handle_params.simps)
next
  case (Suc n)
  then have i: "i < length ps" by simp
  note len = sendableD [OF assms(1) i]
  let ?so = "so\<lparr>so_in := frames (drop (Suc i) ps) @ rest\<rparr>"
  let ?rd = "(set_psize (bw_size (ps ! i)) rd)\<lparr>ri_params := (ri_params rd)[i := ps ! i]\<rparr>"
  have step: "server_handle_params i rd so = server_handle_params (Suc i) ?rd ?so"
    by (subst server_handle_params.simps) (use i Suc.prems len in \<open>simp add: frames_drop\<close>)
  have "take (Suc i) (ri_params ?rd) = take (Suc i) ps"
    using i Suc.prems by (simp add: take_Suc_conv_app_nth)
  with Suc.hyps(1) [of "Suc i" ?rd ?so] Suc.hyps(2) Suc.prems i show ?case
    unfolding step by (auto simp: set_psize_def)
qed

lemma bad_result_size:
  assumes "sendable res" "sendable buffers" "i < length res"
  shows "bad_result buffers res i \<longleftrightarrow>
     bw_size (resize (length res) buffers ! i) \<noteq> 0 \<and> bw_size (resize (length res) buffers ! i) \<noteq> bw_size (res ! i)"
  using assms sendableD [of buffers i] sendableD [of res i]
  by (cases "i < length buffers")
     (auto simp: bad_result_def resize_def nth_append bw_size_0_iff bw_size_eq_iff bw_size_Nil)

lemma drop_resized:
  assumes "i < length res" "\<not> bad_result buffers res i"
  shows "drop (length (res ! i)) (resize (length res) buffers ! i) = []"
  using assms by (auto simp: bad_result_def resize_def nth_append)

lemma client_results_received:
  assumes "sendable res" "sendable buffers" "ri_result rd = take i res @ drop i (resize (length res) buffers)" "i \<le> length res"
    and "so_in so = frames (drop i res) @ rest"
  shows "case find (bad_result buffers res) [i..<length res] of
      None \<Rightarrow> \<exists>h. client_handle_answer i rd so = (0, rd\<lparr>ri_result := res, ri_header := h\<rparr>, so\<lparr>so_in := rest\<rparr>) \<and>
        hd_status h = hd_status (ri_header rd)
    | Some j \<Rightarrow> \<exists>h bs. client_handle_answer i rd so =
        (asio_invalid_argument, rd\<lparr>ri_result := take j res @ drop j (resize (length res) buffers), ri_header := h\<rparr>, so\<lparr>so_in := bs\<rparr>)"
  using assms(3-)
proof (induction "length res - i" arbitrary: i rd so)
  case 0
  then have "drop i (resize (length res) buffers) = []" by (simp add: resize_def)
  with 0 show ?case
    by (simp add: client_handle_answer.simps) (intro exI [of _ "ri_header rd"], simp)
next
  case (Suc n)
  then have i: "i < length res" by simp
  note len = sendableD [OF assms(1) i]
  have lr: "length (resize (length res) buffers) = length res" by (simp add: resize_def)
  then have old: "i < length (ri_result rd)" "ri_result rd ! i = resize (length res) buffers ! i"
    using i Suc.prems by (simp_all add: nth_append)
  have upt: "[i..<length res] = i # [Suc i..<length res]" using i by (rule upt_conv_Cons)
  let ?rd = "(set_psize (bw_size (res ! i)) rd)"
  show ?case
  proof (cases "bad_result buffers res i")
    case True
    have "client_handle_answer i rd so =
        (asio_invalid_argument, ?rd, so\<lparr>so_in := res ! i @ frames (drop (Suc i) res) @ rest\<rparr>)"
      by (subst client_handle_answer.simps)
        (use i Suc.prems True old bad_result_size [OF assms(1,2) i] in \<open>simp add: frames_drop\<close>)
    with True Suc.prems show ?thesis unfolding upt
      by simp (intro exI [of _ "ri_header ?rd"] conjI exI [of _ "res ! i @ frames (drop (Suc i) res) @ rest"],
        cases rd, simp_all add: set_psize_def)
  next
    case False
    let ?rd' = "?rd\<lparr>ri_result := (ri_result rd)[i := res ! i]\<rparr>"
    let ?so = "so\<lparr>so_in := frames (drop (Suc i) res) @ rest\<rparr>"
    have step: "client_handle_answer i rd so = client_handle_answer (Suc i) ?rd' ?so"
      by (subst client_handle_answer.simps)
        (use i Suc.prems False old len drop_resized [OF i False] bad_result_size [OF assms(1,2) i] in
          \<open>auto simp: frames_drop bw_size_0_iff [OF len]\<close>)
    have "ri_result ?rd' = take (Suc i) res @ drop (Suc i) (resize (length res) buffers)"
      using i Suc.prems lr by (simp add: list_update_append take_Suc_conv_app_nth flip: Cons_nth_drop_Suc [of i "resize _ _"])
    with Suc.hyps(1) [of "Suc i" ?rd' ?so] Suc.hyps(2) Suc.prems i False show ?thesis
      unfolding step upt by (auto simp: set_psize_def split: option.splits)
  qed
qed

section \<open>Sending\<close>

lemma client_params_sent:
  assumes "sendable (ri_params rd)" "i \<le> length (ri_params rd)" "length (frames (drop i (ri_params rd))) \<le> so_room so"
  shows "\<exists>h. client_handle_params i rd so = client_read_answer (rd\<lparr>ri_header := h\<rparr>)
    (so\<lparr>so_out := so_out so @ frames (drop i (ri_params rd)), so_room := so_room so - length (frames (drop i (ri_params rd)))\<rparr>)"
  using assms
proof (induction "length (ri_params rd) - i" arbitrary: i rd so)
  case 0
  then show ?case
    by (intro exI [of _ "ri_header rd"]) (simp add: client_handle_params.simps)
next
  case (Suc n)
  then have i: "i < length (ri_params rd)" by simp
  note len = sendableD [OF Suc.prems(1) i]
  let ?p = "ri_params rd ! i"
  let ?rd = "set_psize (bw_size ?p) rd"
  let ?so = "so\<lparr>so_out := so_out so @ word_bytes 4 (bw_size ?p) @ ?p, so_room := so_room so - (4 + length ?p)\<rparr>"
  have step: "client_handle_params i rd so = client_handle_params (Suc i) ?rd ?so"
    by (subst client_handle_params.simps) (use i Suc.prems len in \<open>simp add: frames_drop Let_def\<close>)
  from Suc.hyps(1) [of ?rd "Suc i" ?so] Suc.hyps(2) Suc.prems i show ?case
    unfolding step by (auto simp: set_psize_def frames_drop add.assoc)
qed

lemma server_results_sent:
  assumes "sendable (ri_result rd)" "i \<le> length (ri_result rd)" "length (frames (drop i (ri_result rd))) \<le> so_room so"
  shows "\<exists>h. server_handle_answer i rd so = Some (rd\<lparr>ri_header := h\<rparr>,
    so\<lparr>so_out := so_out so @ frames (drop i (ri_result rd)), so_room := so_room so - length (frames (drop i (ri_result rd)))\<rparr>)"
  using assms
proof (induction "length (ri_result rd) - i" arbitrary: i rd so)
  case 0
  then show ?case
    by (intro exI [of _ "ri_header rd"]) (simp add: server_handle_answer.simps)
next
  case (Suc n)
  then have i: "i < length (ri_result rd)" by simp
  note len = sendableD [OF Suc.prems(1) i]
  let ?p = "ri_result rd ! i"
  let ?rd = "set_psize (bw_size ?p) rd"
  let ?so = "so\<lparr>so_out := so_out so @ word_bytes 4 (bw_size ?p) @ ?p, so_room := so_room so - (4 + length ?p)\<rparr>"
  have step: "server_handle_answer i rd so = server_handle_answer (Suc i) ?rd ?so"
    by (subst server_handle_answer.simps) (use i Suc.prems len in \<open>simp add: frames_drop Let_def\<close>)
  from Suc.hyps(1) [of ?rd "Suc i" ?so] Suc.hyps(2) Suc.prems i show ?case
    unfolding step by (auto simp: set_psize_def frames_drop add.assoc)
qed

section \<open>The two ends together\<close>

lemma server_receives_request:
  assumes "sendable ps" "known n" "so_in so = request_bytes n ps @ rest"
  shows "\<exists>h. server_receive known rd so = Some (rd\<lparr>ri_params := ps, ri_header := h\<rparr>, so\<lparr>so_in := rest\<rparr>) \<and> hd_name h = n"
proof -
  let ?h = "rpcheader_make n (of_nat (length ps))"
  have h: "bytes_header (header_bytes ?h) = ?h"
    by (rule bytes_header_bytes) (simp_all add: rpcheader_make_def rpc_ok_def)
  have len: "unat (hd_psize ?h) = length ps" using assms(1) by (simp add: rpcheader_make_def sendable_def unat_of_nat)
  let ?rd = "rd\<lparr>ri_header := ?h, ri_params := resize (length ps) (ri_params rd)\<rparr>"
  have step: "server_receive known rd so = server_handle_params 0 ?rd (so\<lparr>so_in := frames ps @ rest\<rparr>)"
    using assms(2,3) len by (simp add: server_receive_def request_bytes_def h) (simp add: rpcheader_make_def)
  have "length (ri_params ?rd) = length ps" by (simp add: resize_def)
  with server_params_received [OF assms(1), of ?rd 0 "so\<lparr>so_in := frames ps @ rest\<rparr>" rest] show ?thesis
    unfolding step by (auto simp: rpcheader_make_def)
qed

lemma server_sends_answer:
  assumes "sendable res" "length (answer_bytes (hd_name (ri_header rd)) st res) \<le> so_room so"
  shows "\<exists>h. server_answer st res rd so = Some (rd\<lparr>ri_result := res, ri_header := h\<rparr>,
    so\<lparr>so_out := so_out so @ answer_bytes (hd_name (ri_header rd)) st res,
       so_room := so_room so - length (answer_bytes (hd_name (ri_header rd)) st res)\<rparr>)"
proof -
  let ?h = "(ri_header rd)\<lparr>hd_status := st, hd_psize := of_nat (length res)\<rparr>"
  let ?rd = "rd\<lparr>ri_result := res, ri_header := ?h\<rparr>"
  let ?so = "so\<lparr>so_out := so_out so @ header_bytes ?h, so_room := so_room so - HEADER_SIZE\<rparr>"
  have hb: "answer_bytes (hd_name (ri_header rd)) st res = header_bytes ?h @ frames res"
    by (simp add: answer_bytes_def header_bytes_def)
  have "server_answer st res rd so = server_handle_answer 0 ?rd ?so"
    using assms(2) by (simp add: server_answer_def hb)
  with server_results_sent [of ?rd 0 ?so] assms show ?thesis by (auto simp: hb)
qed

lemma client_gets_answer:
  assumes "sendable res" "sendable (ri_result rd)" "- (2 ^ 31) \<le> st" "st < 2 ^ 31"
    and "so_in so = answer_bytes n st res @ rest"
  shows "fst (client_callback (client_read_answer rd so)) = managed_answer (ri_result rd) (st, res)"
    and "find (bad_result (ri_result rd) res) [0..<length res] = None \<Longrightarrow>
      snd (client_callback (client_read_answer rd so)) = so\<lparr>so_in := rest\<rparr>"
proof -
  let ?h = "\<lparr>hd_name = n, hd_psize = of_nat (length res), hd_status = st\<rparr>"
  have h: "bytes_header (header_bytes ?h) = ?h"
    by (rule bytes_header_bytes) (use assms(3,4) in simp_all)
  have len: "unat (hd_psize ?h) = length res" using assms(1) by (simp add: sendable_def unat_of_nat)
  let ?rd = "rd\<lparr>ri_header := ?h, ri_result := resize (length res) (ri_result rd)\<rparr>"
  have step: "client_read_answer rd so = client_handle_answer 0 ?rd (so\<lparr>so_in := frames res @ rest\<rparr>)"
    using assms(5) len by (simp add: client_read_answer_def answer_bytes_def h)
  note r = client_results_received [OF assms(1,2), of ?rd 0 "so\<lparr>so_in := frames res @ rest\<rparr>" rest]
  show "fst (client_callback (client_read_answer rd so)) = managed_answer (ri_result rd) (st, res)"
    using r unfolding step
    by (auto simp: managed_answer_def client_callback_def asio_invalid_argument_def split: option.splits)
  show "find (bad_result (ri_result rd) res) [0..<length res] = None \<Longrightarrow>
      snd (client_callback (client_read_answer rd so)) = so\<lparr>so_in := rest\<rparr>"
    using r unfolding step by (auto simp: client_callback_def split: option.splits)
qed

lemma client_callback_header [simp]:
  "client_callback (client_read_answer (rd\<lparr>ri_header := h\<rparr>) so) = client_callback (client_read_answer rd so)"
  by (auto simp: client_callback_def client_read_answer_def asio_invalid_argument_def Let_def split: prod.splits)

lemma client_sends_request:
  assumes "sendable ps" "length (request_bytes n ps) \<le> so_room so"
  shows "client_callback (client_send (rpcinfo_client h s n ps buffers) so) =
    client_callback (client_read_answer (rpcinfo_client h s n ps buffers)
      (so\<lparr>so_out := so_out so @ request_bytes n ps, so_room := so_room so - length (request_bytes n ps)\<rparr>))"
proof -
  let ?rd = "rpcinfo_client h s n ps buffers"
  let ?hb = "header_bytes (ri_header ?rd)"
  let ?so = "so\<lparr>so_out := so_out so @ ?hb, so_room := so_room so - HEADER_SIZE\<rparr>"
  have rb: "request_bytes n ps = ?hb @ frames ps" by (simp add: request_bytes_def rpcinfo_client_def)
  have "client_send ?rd so = client_handle_params 0 ?rd ?so"
    using assms(2) by (simp add: client_send_def rb)
  moreover have "ri_params ?rd = ps" by (simp add: rpcinfo_client_def)
  moreover have "length (frames ps) \<le> so_room so - HEADER_SIZE" using assms(2) by (simp add: rb)
  ultimately show ?thesis
    using client_params_sent [of ?rd 0 ?so] assms(1) by (auto simp: rb add.assoc)
qed

section \<open>Connections that break\<close>

lemma client_results_truncated:
  assumes "sendable res" "length (ri_result rd) = length res" "i \<le> length res"
    and "so_in so = take m (frames (drop i res))" "m < length (frames (drop i res))" "so_error so \<noteq> 0"
  shows "fst (client_handle_answer i rd so) = asio_invalid_argument"
  using assms(2-)
proof (induction "length res - i" arbitrary: i rd so m)
  case 0
  then show ?case by simp
next
  case (Suc n)
  then have i: "i < length res" by simp
  note len = sendableD [OF assms(1) i]
  let ?w = "word_bytes 4 (bw_size (res ! i))" and ?F = "frames (drop (Suc i) res)"
  have inp: "so_in so = take m (?w @ res ! i @ ?F)" "m < 4 + length (res ! i) + length ?F"
    using Suc.prems(3,4) i by (simp_all add: frames_drop)
  show ?case
  proof (cases "4 \<le> m")
    case False
    then have "async_read 4 so = (so_error so, so_in so, so\<lparr>so_in := []\<rparr>)"
      by (intro async_read_short) (simp add: inp)
    then show ?thesis
      by (subst client_handle_answer.simps) (use i Suc.prems in simp)
  next
    case True
    then have "async_read 4 so = (0, ?w, so\<lparr>so_in := take (m - 4) (res ! i @ ?F)\<rparr>)"
      by (intro async_read_append) (simp_all add: inp take_append)
    note r1 = this
    show ?thesis
    proof (cases "4 + length (res ! i) \<le> m")
      case False
      let ?so = "so\<lparr>so_in := take (m - 4) (res ! i @ ?F)\<rparr>"
      have "async_read (length (res ! i)) ?so = (so_error so, so_in ?so, ?so\<lparr>so_in := []\<rparr>)"
        using async_read_short [of ?so "length (res ! i)"] False True by simp
      then show ?thesis
        by (subst client_handle_answer.simps) (use i Suc.prems len r1 in \<open>simp add: Let_def\<close>)
    next
      case More: True
      let ?so = "so\<lparr>so_in := take (m - (4 + length (res ! i))) ?F\<rparr>"
      let ?old = "ri_result rd ! i"
      let ?rd = "(set_psize (bw_size (res ! i)) rd)\<lparr>ri_result := (ri_result rd)[i := res ! i @ drop (length (res ! i)) ?old]\<rparr>"
      have r2: "async_read (length (res ! i)) (so\<lparr>so_in := take (m - 4) (res ! i @ ?F)\<rparr>) = (0, res ! i, ?so)"
        using More async_read_append [of "so\<lparr>so_in := take (m - 4) (res ! i @ ?F)\<rparr>" "res ! i"] by (simp add: take_append)
      have "fst (client_handle_answer (Suc i) ?rd ?so) = asio_invalid_argument"
        by (rule Suc.hyps(1) [of "Suc i" ?rd ?so "m - (4 + length (res ! i))"])
          (use Suc.hyps(2) Suc.prems i inp More in auto)
      then show ?thesis
        by (subst client_handle_answer.simps) (use i Suc.prems len r1 r2 in \<open>simp add: Let_def\<close>)
    qed
  qed
qed

lemma client_answer_truncated:
  assumes "sendable res" "- (2 ^ 31) \<le> st" "st < 2 ^ 31" "so_error so \<noteq> 0"
    and "so_in so = take m (answer_bytes n st res)" "m < length (answer_bytes n st res)"
  shows "fst (fst (client_callback (client_read_answer rd so))) = asio_invalid_argument"
proof -
  let ?h = "\<lparr>hd_name = n, hd_psize = of_nat (length res), hd_status = st\<rparr>"
  have h: "bytes_header (header_bytes ?h) = ?h"
    by (rule bytes_header_bytes) (use assms(2,3) in simp_all)
  have ps: "unat (hd_psize ?h) = length res" using assms(1) by (simp add: sendable_def unat_of_nat)
  have "fst (client_read_answer rd so) = asio_invalid_argument"
  proof (cases "HEADER_SIZE \<le> m")
    case False
    then have "async_read HEADER_SIZE so = (so_error so, so_in so, so\<lparr>so_in := []\<rparr>)"
      by (intro async_read_short) (simp add: assms(5))
    then show ?thesis using assms(4) by (simp add: client_read_answer_def)
  next
    case True
    let ?so = "so\<lparr>so_in := take (m - HEADER_SIZE) (frames res)\<rparr>"
    let ?rd = "rd\<lparr>ri_header := ?h, ri_result := resize (length res) (ri_result rd)\<rparr>"
    have "async_read HEADER_SIZE so = (0, header_bytes ?h, ?so)"
      using True by (intro async_read_append) (simp_all add: assms(5) answer_bytes_def)
    then have "client_read_answer rd so = client_handle_answer 0 ?rd ?so"
      using ps by (simp add: client_read_answer_def h)
    moreover have "fst (client_handle_answer 0 ?rd ?so) = asio_invalid_argument"
      by (rule client_results_truncated [OF assms(1)])
        (use True assms(4,6) in \<open>auto simp: answer_bytes_def resize_def\<close>)
    ultimately show ?thesis by simp
  qed
  then show ?thesis by (auto simp: client_callback_def asio_invalid_argument_def split: prod.splits)
qed

section \<open>The server\<close>

text \<open>
  A server has connections on which it waits for a request, and the queue of complete requests for
  the thread that runs the handlers. While its request is in the queue a connection is not read.
  \<open>sv_lookup\<close> are the registered handlers; a handler gets the address of the peer (only
  \<open>rpcserver_extcallback_t\<close> uses it).
\<close>

type_synonym 's rpc_handler = "string \<Rightarrow> rpcvector_t \<Rightarrow> 's \<Rightarrow> 's outcome"

record task_t =
  tk_peer :: string
  tk_info :: rpcinfo_t
  tk_socket :: sync_socket

record 's rpc_server =
  sv_lookup :: "u32 \<rightharpoonup> 's rpc_handler"
  sv_connections :: "string \<rightharpoonup> task_t"
  sv_task_queue :: "task_t list"
  sv_app :: 's

definition register_rpc :: "u32 \<Rightarrow> 's rpc_handler \<Rightarrow> 's rpc_server \<Rightarrow> 's rpc_server" where
  "register_rpc name callback sv = sv\<lparr>sv_lookup := (sv_lookup sv)(name \<mapsto> callback)\<rparr>"

definition handle_accept :: "string \<Rightarrow> sync_socket \<Rightarrow> 's rpc_server \<Rightarrow> 's rpc_server" where
  "handle_accept peer so sv =
     sv\<lparr>sv_connections := (sv_connections sv)(peer \<mapsto>
          \<lparr>tk_peer = peer, tk_info = rpcinfo_server, tk_socket = so\<rparr>)\<rparr>"

text \<open>A request arrives on a connection, up to the end of \<open>handle_params\<close>.\<close>

definition server_request :: "string \<Rightarrow> 's rpc_server \<Rightarrow> 's rpc_server" where
  "server_request peer sv =
     (case sv_connections sv peer of
        None \<Rightarrow> sv
      | Some t \<Rightarrow>
          let sv = sv\<lparr>sv_connections := (sv_connections sv)(peer := None)\<rparr>
          in case server_receive (\<lambda>n. sv_lookup sv n \<noteq> None) (tk_info t) (tk_socket t) of
               None \<Rightarrow> sv
             | Some (rd, so) \<Rightarrow> sv\<lparr>sv_task_queue := sv_task_queue sv @ [t\<lparr>tk_info := rd, tk_socket := so\<rparr>]\<rparr>)"

text \<open>
  One round of \<open>processor_exec\<close>, with the answer. \<open>condition::wait\<close> may return without a
  notification, and \<open>front()\<close> of the empty queue is then undefined. An exception that leaves the
  handler leaves the thread.
\<close>

definition processor_exec :: "'s rpc_server \<Rightarrow> 's rpc_server outcome" where
  "processor_exec sv =
     (case sv_task_queue sv of
        [] \<Rightarrow> Undefined ''task_queue.front()''
      | t # q \<Rightarrow>
          (case sv_lookup sv (hd_name (ri_header (tk_info t))) of
             None \<Rightarrow> Undefined ''empty callback''
           | Some f \<Rightarrow>
               (case f (tk_peer t) (ri_params (tk_info t)) (sv_app sv) of
                  Returns st res app \<Rightarrow>
                    Returns st res (let sv = sv\<lparr>sv_task_queue := q, sv_app := app\<rparr>
                      in case server_answer st res (tk_info t) (tk_socket t) of
                           None \<Rightarrow> sv
                         | Some (rd, so) \<Rightarrow> sv\<lparr>sv_connections := (sv_connections sv)(tk_peer t \<mapsto>
                             t\<lparr>tk_info := rd, tk_socket := so\<rparr>)\<rparr>)
                | Throws e \<Rightarrow> Throws e
                | Undefined e \<Rightarrow> Undefined e
                | Hangs \<Rightarrow> Hangs)))"

text \<open>
  Runs of a server, and the calls that entered the queue.
\<close>

datatype server_event = Request string | Process

type_synonym call_t = "string \<times> u32 \<times> rpcvector_t"

definition call_of :: "task_t \<Rightarrow> call_t" where
  "call_of t = (tk_peer t, hd_name (ri_header (tk_info t)), ri_params (tk_info t))"

fun server_run :: "server_event list \<Rightarrow> 's rpc_server \<Rightarrow> ('s rpc_server \<times> call_t list) option" where
  "server_run [] sv = Some (sv, [])"
| "server_run (Request p # es) sv =
     (let sv' = server_request p sv;
          new = map call_of (drop (length (sv_task_queue sv)) (sv_task_queue sv'))
      in case server_run es sv' of None \<Rightarrow> None | Some (sv'', cs) \<Rightarrow> Some (sv'', new @ cs))"
| "server_run (Process # es) sv =
     (case processor_exec sv of Returns st res sv' \<Rightarrow> server_run es sv' | _ \<Rightarrow> None)"

fun apply_calls :: "(u32 \<rightharpoonup> 's rpc_handler) \<Rightarrow> call_t list \<Rightarrow> 's \<Rightarrow> 's option" where
  "apply_calls lookup [] s = Some s"
| "apply_calls lookup ((peer, name, params) # cs) s =
     (case lookup name of
        None \<Rightarrow> None
      | Some f \<Rightarrow> (case f peer params s of Returns st res s' \<Rightarrow> apply_calls lookup cs s' | _ \<Rightarrow> None))"

lemma server_request_queue:
  "\<exists>ts. sv_task_queue (server_request p sv) = sv_task_queue sv @ ts \<and> sv_app (server_request p sv) = sv_app sv \<and>
     sv_lookup (server_request p sv) = sv_lookup sv"
  by (auto simp: server_request_def Let_def split: option.splits)

lemma processor_exec_returns:
  assumes "processor_exec sv = Returns st res sv'"
  obtains t where "sv_task_queue sv = t # sv_task_queue sv'" "sv_lookup sv' = sv_lookup sv"
    "apply_calls (sv_lookup sv) [call_of t] (sv_app sv) = Some (sv_app sv')"
  using assms
  by (auto simp: processor_exec_def call_of_def Let_def split: list.splits option.splits outcome.splits)

lemma apply_calls_Cons:
  "apply_calls l (c # cs) s = (case apply_calls l [c] s of None \<Rightarrow> None | Some s' \<Rightarrow> apply_calls l cs s')"
  by (cases c) (auto split: option.splits outcome.splits)

lemma server_run_serial:
  assumes "server_run es sv = Some (sv', cs)"
  shows "\<exists>n. n + length (sv_task_queue sv') = length (sv_task_queue sv) + length cs \<and>
    apply_calls (sv_lookup sv) (take n (map call_of (sv_task_queue sv) @ cs)) (sv_app sv) = Some (sv_app sv') \<and>
    drop n (map call_of (sv_task_queue sv) @ cs) = map call_of (sv_task_queue sv') \<and> sv_lookup sv' = sv_lookup sv"
  using assms
proof (induction es sv arbitrary: cs rule: server_run.induct)
  case (1 sv)
  then show ?case by (intro exI [of _ 0]) auto
next
  case (2 p es sv)
  obtain ts where ts: "sv_task_queue (server_request p sv) = sv_task_queue sv @ ts"
    "sv_app (server_request p sv) = sv_app sv" "sv_lookup (server_request p sv) = sv_lookup sv"
    using server_request_queue [of p sv] by blast
  from 2(2) obtain cs' where r: "server_run es (server_request p sv) = Some (sv', cs')" "cs = map call_of ts @ cs'"
    by (auto simp: ts Let_def split: option.splits)
  from 2(1) [OF refl refl r(1)] show ?case by (simp add: ts r(2) add.assoc)
next
  case (3 es sv)
  from 3(2) obtain st res sv1 where p: "processor_exec sv = Returns st res sv1" and r: "server_run es sv1 = Some (sv', cs)"
    by (auto split: outcome.splits)
  from p obtain t where t: "sv_task_queue sv = t # sv_task_queue sv1" "sv_lookup sv1 = sv_lookup sv"
    "apply_calls (sv_lookup sv) [call_of t] (sv_app sv) = Some (sv_app sv1)" by (rule processor_exec_returns)
  from 3(1) [OF p r] obtain n where "n + length (sv_task_queue sv') = length (sv_task_queue sv1) + length cs"
    "apply_calls (sv_lookup sv1) (take n (map call_of (sv_task_queue sv1) @ cs)) (sv_app sv1) = Some (sv_app sv')"
    "drop n (map call_of (sv_task_queue sv1) @ cs) = map call_of (sv_task_queue sv')" "sv_lookup sv' = sv_lookup sv1"
    by blast
  moreover have "apply_calls (sv_lookup sv) (call_of t # xs) (sv_app sv) = apply_calls (sv_lookup sv) xs (sv_app sv1)" for xs
    by (subst apply_calls_Cons) (simp only: t(3) option.case)
  ultimately show ?case using t(1,2) by (intro exI [of _ "Suc n"]) simp
qed

section \<open>Properties\<close>

text \<open>
  C12: A call and its answer survive the wire. The server that reads the bytes the client writes for
  a call gets the name and the parameters of the call; the callback of the client that reads the
  bytes the server writes for an answer gets the status and the results of the answer, unless a
  result does not have the size of the buffer the caller supplied for it, when it gets an error;
  on both ends the bytes that follow on the connection are left for the next call.
\<close>

theorem rpc_round_trip:
  assumes "sendable params" "sendable res" "sendable buffers" "- (2 ^ 31) \<le> st" "st < 2 ^ 31"
    and "known name" "so_in s = request_bytes name params @ later"
    and "length (request_bytes name params) \<le> so_room c" "length (answer_bytes name st res) \<le> so_room s"
    and "so_in c = answer_bytes name st res @ later'"
    and "(answer, c') = client_callback (client_send (rpcinfo_client host service name params buffers) c)"
  shows "(\<exists>rd s' rd' s''. server_receive known rd0 s = Some (rd, s') \<and> hd_name (ri_header rd) = name \<and>
      ri_params rd = params \<and> so_in s' = later \<and>
      server_answer st res rd s' = Some (rd', s'') \<and> so_in s'' = later \<and>
      so_out s'' = so_out s @ answer_bytes name st res) \<and>
    answer = managed_answer buffers (st, res) \<and>
    ((\<forall>i < length res. \<not> bad_result buffers res i) \<longrightarrow>
      answer = (st, res) \<and>
      c' = c\<lparr>so_in := later', so_out := so_out c @ request_bytes name params,
             so_room := so_room c - length (request_bytes name params)\<rparr>)"
proof (intro conjI impI)
  obtain h where rd: "server_receive known rd0 s = Some (rd0\<lparr>ri_params := params, ri_header := h\<rparr>, s\<lparr>so_in := later\<rparr>)"
    "hd_name h = name" using server_receives_request [of params known name s later, OF assms(1,6,7)] by blast
  with server_sends_answer [OF assms(2), of "rd0\<lparr>ri_params := params, ri_header := h\<rparr>" st "s\<lparr>so_in := later\<rparr>"] assms(9)
  show "\<exists>rd s' rd' s''. server_receive known rd0 s = Some (rd, s') \<and> hd_name (ri_header rd) = name \<and>
      ri_params rd = params \<and> so_in s' = later \<and>
      server_answer st res rd s' = Some (rd', s'') \<and> so_in s'' = later \<and>
      so_out s'' = so_out s @ answer_bytes name st res" by auto
next
  let ?rd = "rpcinfo_client host service name params buffers"
  let ?c = "c\<lparr>so_out := so_out c @ request_bytes name params, so_room := so_room c - length (request_bytes name params)\<rparr>"
  have r: "ri_result ?rd = buffers" "so_in ?c = answer_bytes name st res @ later'"
    by (simp_all add: rpcinfo_client_def assms(10))
  note ans = assms(11) [unfolded client_sends_request [OF assms(1,8)]]
  note got = client_gets_answer [of res ?rd st ?c name later', OF assms(2) _ assms(4,5), unfolded r(1), OF assms(3) r(2)]
  from ans got(1) show a: "answer = managed_answer buffers (st, res)" by (metis fst_conv)
  assume "\<forall>i < length res. \<not> bad_result buffers res i"
  then have none: "find (bad_result buffers res) [0..<length res] = None" by (simp add: find_None_iff)
  show "answer = (st, res)" by (simp add: a managed_answer_def none)
  show "c' = c\<lparr>so_in := later', so_out := so_out c @ request_bytes name params,
             so_room := so_room c - length (request_bytes name params)\<rparr>"
    using got(2) [OF none] arg_cong [OF ans, of snd] by simp
qed

text \<open>
  C31: A connection that breaks while the answer is on its way never makes a call look successful: if
  only a proper part of the bytes of an answer arrives, the callback gets an error, whatever the
  status in the part that arrived.
\<close>

theorem broken_answer_is_error:
  assumes "sendable params" "sendable res" "- (2 ^ 31) \<le> st" "st < 2 ^ 31"
    and "length (request_bytes name params) \<le> so_room c" "so_error c \<noteq> 0"
    and "so_in c = take m (answer_bytes name st res)" "m < length (answer_bytes name st res)"
  shows "fst (fst (client_callback (client_send (rpcinfo_client host service name params buffers) c))) = asio_invalid_argument"
  unfolding client_sends_request [OF assms(1,5)]
  by (rule client_answer_truncated [OF assms(2-4) _ _ assms(8)]) (simp_all add: assms(6,7))

text \<open>
  C32: The handlers of a server run one at a time, in the order in which their requests arrived
  completely: after any sequence of arrivals and rounds of the processing thread the state of the
  server is what the calls that are no longer in the queue give when they are applied in that order.
\<close>

theorem server_runs_in_arrival_order:
  assumes "server_run es sv = Some (sv', calls)" and "sv_task_queue sv = []"
  shows "\<exists>n. n + length (sv_task_queue sv') = length calls \<and>
    apply_calls (sv_lookup sv) (take n calls) (sv_app sv) = Some (sv_app sv') \<and>
    map call_of (sv_task_queue sv') = drop n calls"
  using server_run_serial [OF assms(1)] assms(2) by auto

section \<open>Instances\<close>

text \<open>A call with one parameter of one byte, one result of one byte and a buffer for it.\<close>

definition ex_client :: sync_socket where
  "ex_client = \<lparr>so_in = answer_bytes 1 0 [[7]], so_out = [], so_room = 100, so_error = 2, so_open = True\<rparr>"

definition ex_server :: sync_socket where
  "ex_server = \<lparr>so_in = request_bytes 1 [[5]], so_out = [], so_room = 100, so_error = 2, so_open = True\<rparr>"

lemma ex_sendable: "sendable [[5]]" "sendable [[7]]" "sendable [[0]]"
  by (simp_all add: sendable_def)

lemma ex_lengths: "length (request_bytes n [[x]]) = 17" "length (answer_bytes n st [[x]]) = 17"
  by (simp_all add: request_bytes_def answer_bytes_def HEADER_SIZE_def)

theorem rpc_round_trip_witness:
  "fst (client_callback (client_send (rpcinfo_client ''host'' ''80'' 1 [[5]] [[0]]) ex_client)) = (0, [[7]]) \<and>
   (\<exists>rd s'. server_receive (\<lambda>n. n = 1) rpcinfo_server ex_server = Some (rd, s') \<and> ri_params rd = [[5]])"
proof -
  obtain answer c' where "(answer, c') = client_callback (client_send (rpcinfo_client ''host'' ''80'' 1 [[5]] [[0]]) ex_client)"
    by (metis surj_pair)
  note x = this
  have "\<not> bad_result [[0]] [[7]] i" for i by (auto simp: bad_result_def less_Suc_eq)
  with rpc_round_trip [of "[[5]]" "[[7]]" "[[0]]" 0 "\<lambda>n. n = 1" 1 ex_server "[]" ex_client "[]" answer c' "''host''" "''80''" rpcinfo_server,
      OF ex_sendable _ _ _ _ _ _ _ x]
  have "(\<exists>rd s'. server_receive (\<lambda>n. n = 1) rpcinfo_server ex_server = Some (rd, s') \<and> ri_params rd = [[5]]) \<and> answer = (0, [[7]])"
    by (auto simp: ex_client_def ex_server_def ex_lengths)
  with x show ?thesis by (metis fst_conv)
qed

theorem broken_answer_is_error_witness:
  "fst (fst (client_callback (client_send (rpcinfo_client ''host'' ''80'' 1 [[5]] [[0]])
     (ex_client\<lparr>so_in := take 16 (so_in ex_client)\<rparr>)))) = asio_invalid_argument"
  by (rule broken_answer_is_error [of "[[5]]" "[[7]]" 0 1 _ 16])
    (simp_all add: ex_sendable ex_lengths, simp_all add: ex_client_def)

text \<open>A server that counts the calls of one RPC.\<close>

definition ex_counter :: "nat rpc_server" where
  "ex_counter = handle_accept ''peer'' ex_server
     (register_rpc 1 (\<lambda>sender params n. Returns 0 [params ! 0] (Suc n))
       \<lparr>sv_lookup = Map.empty, sv_connections = Map.empty, sv_task_queue = [], sv_app = 0\<rparr>)"

lemma ex_counter_run:
  "\<exists>sv. server_run [Request ''peer'', Process] ex_counter = Some (sv, [(''peer'', 1, [[5]])]) \<and> sv_app sv = 1 \<and> sv_task_queue sv = []"
proof -
  obtain h where h: "server_receive (\<lambda>n. sv_lookup ex_counter n \<noteq> None) rpcinfo_server ex_server =
      Some (rpcinfo_server\<lparr>ri_params := [[5]], ri_header := h\<rparr>, ex_server\<lparr>so_in := []\<rparr>)" "hd_name h = 1"
    using server_receives_request [of "[[5]]" "\<lambda>n. sv_lookup ex_counter n \<noteq> None" 1 ex_server "[]" rpcinfo_server]
    by (auto simp: ex_sendable ex_counter_def register_rpc_def handle_accept_def) (auto simp: ex_server_def)
  let ?t = "\<lparr>tk_peer = ''peer'', tk_info = rpcinfo_server\<lparr>ri_params := [[5]], ri_header := h\<rparr>, tk_socket = ex_server\<lparr>so_in := []\<rparr>\<rparr>"
  have conn: "sv_connections ex_counter ''peer'' = Some \<lparr>tk_peer = ''peer'', tk_info = rpcinfo_server, tk_socket = ex_server\<rparr>"
    and q: "sv_task_queue ex_counter = []" "sv_app ex_counter = 0" "sv_lookup ex_counter 1 = Some (\<lambda>sender params n. Returns 0 [params ! 0] (Suc n))"
    by (simp_all add: ex_counter_def handle_accept_def register_rpc_def)
  have r: "server_request ''peer'' ex_counter =
      ex_counter\<lparr>sv_connections := (sv_connections ex_counter)(''peer'' := None), sv_task_queue := [?t]\<rparr>"
    using h(1) by (simp add: server_request_def conn Let_def q)
  show ?thesis
    by (simp add: r processor_exec_def h(2) q call_of_def Let_def split: option.splits)
qed

theorem server_runs_in_arrival_order_witness:
  "\<exists>sv. server_run [Request ''peer'', Process] ex_counter = Some (sv, [(''peer'', 1, [[5]])]) \<and>
     apply_calls (sv_lookup ex_counter) [(''peer'', 1, [[5]])] 0 = Some (sv_app sv)"
proof -
  obtain sv where sv: "server_run [Request ''peer'', Process] ex_counter = Some (sv, [(''peer'', 1, [[5]])])"
    "sv_task_queue sv = []" using ex_counter_run by blast
  have "sv_task_queue ex_counter = []" "sv_app ex_counter = 0"
    by (simp_all add: ex_counter_def handle_accept_def register_rpc_def)
  with server_runs_in_arrival_order [OF sv(1)] sv show ?thesis by auto
qed

end
