(* ===== verification/Cache_MT.thy ===== *)
theory Cache_MT
  imports Prelude
begin

text \<open>
  \<open>common/cache_mt.hpp\<close>: the bounded cache and its two eviction policies. The policy is a
  template parameter of the C++ class; here it is a record of operations on a policy state, which
  the operations of the cache take as an argument. What the cache relies on is the locale
  \<open>cache_policy\<close>, which both policies satisfy.

  \<open>cache_map\<close> is an association list with distinct keys; its order stands for the unspecified
  order of the hash table. The lock makes every operation one step.
\<close>

section \<open>Policies\<close>

record ('k, 'p) policy_ops =
  po_hit :: "'k \<Rightarrow> 'p \<Rightarrow> 'p"
  po_miss :: "'k \<Rightarrow> 'p \<Rightarrow> 'p"
  po_evictEntry :: "'p \<Rightarrow> ('k \<times> 'p) option"
  po_clear :: "'p \<Rightarrow> 'p"
  po_invalidate :: "'k \<Rightarrow> 'p \<Rightarrow> 'p"

definition cache_mt_none :: "('k, unit) policy_ops" where
  "cache_mt_none = \<lparr>po_hit = (\<lambda>key p. p), po_miss = (\<lambda>key p. p), po_evictEntry = (\<lambda>p. None),
     po_clear = (\<lambda>p. p), po_invalidate = (\<lambda>key p. p)\<rparr>"

text \<open>
  The nodes of the \<open>std::list\<close> have an identity, which the iterators stored in
  \<open>access_count\<close> hold: \<open>queue\<close> lists the nodes with their keys, and \<open>fresh_node\<close> is
  the identity of the next node to be allocated.
\<close>

record 'k cache_mt_LRU =
  access_count :: "'k \<rightharpoonup> nat"
  queue :: "(nat \<times> 'k) list"
  fresh_node :: nat

definition lru_init :: "'k cache_mt_LRU" where
  "lru_init = \<lparr>access_count = Map.empty, queue = [], fresh_node = 0\<rparr>"

definition lru_invalidate :: "'k \<Rightarrow> 'k cache_mt_LRU \<Rightarrow> 'k cache_mt_LRU" where
  "lru_invalidate key p =
     (case access_count p key of
        None \<Rightarrow> p
      | Some i \<Rightarrow> p\<lparr>queue := AList.delete i (queue p), access_count := (access_count p)(key := None)\<rparr>)"

definition lru_hit :: "'k \<Rightarrow> 'k cache_mt_LRU \<Rightarrow> 'k cache_mt_LRU" where
  "lru_hit key p =
     (let p = lru_invalidate key p;
          n = fresh_node p;
          p = p\<lparr>queue := queue p @ [(n, key)], fresh_node := Suc n\<rparr>
      in if access_count p key = None then p\<lparr>access_count := (access_count p)(key \<mapsto> n)\<rparr> else p)"

definition lru_evictEntry :: "'k cache_mt_LRU \<Rightarrow> ('k \<times> 'k cache_mt_LRU) option" where
  "lru_evictEntry p =
     (case queue p of
        [] \<Rightarrow> None
      | (i, key) # _ \<Rightarrow> Some (key, lru_invalidate key p))"

definition lru_clear :: "'k cache_mt_LRU \<Rightarrow> 'k cache_mt_LRU" where
  "lru_clear p = p\<lparr>access_count := Map.empty, queue := []\<rparr>"

definition cache_mt_LRU_ops :: "('k, 'k cache_mt_LRU) policy_ops" where
  "cache_mt_LRU_ops = \<lparr>po_hit = lru_hit, po_miss = (\<lambda>key p. p), po_evictEntry = lru_evictEntry,
     po_clear = lru_clear, po_invalidate = lru_invalidate\<rparr>"

section \<open>The cache\<close>

record ('k, 'v, 'p) cache_mt =
  policy :: 'p
  cache_map :: "('k \<times> 'v \<times> bool) list"
  m_size :: u32

definition cache_init :: "'p \<Rightarrow> u32 \<Rightarrow> ('k, 'v, 'p) cache_mt" where
  "cache_init p m = \<lparr>policy = p, cache_map = [], m_size = m\<rparr>"

definition cache_max_size :: "('k, 'v, 'p) cache_mt \<Rightarrow> u32" where
  "cache_max_size c = m_size c"

definition cache_size :: "('k, 'v, 'p) cache_mt \<Rightarrow> u32" where
  "cache_size c = of_nat (length (cache_map c))"

definition cache_clear :: "('k, 'p) policy_ops \<Rightarrow> ('k, 'v, 'p) cache_mt \<Rightarrow> ('k, 'v, 'p) cache_mt" where
  "cache_clear ops c = c\<lparr>cache_map := [], policy := po_clear ops (policy c)\<rparr>"

text \<open>
  What \<open>e = cache_map[k]\<close> followed by \<open>if (e.second) evict_callback(k, e.first)\<close> hands to the
  callback: an absent key gives a default entry, which is not dirty.
\<close>

definition dirty_entry :: "'k \<Rightarrow> ('k \<times> 'v \<times> bool) list \<Rightarrow> ('k \<times> 'v) list" where
  "dirty_entry k m = (case map_of m k of Some (v, True) \<Rightarrow> [(k, v)] | _ \<Rightarrow> [])"

text \<open>
  The results are the value returned, the calls of \<open>evict_callback\<close> in order, and the cache. The
  eviction loop of \<open>resize\<close> ends only if the policy keeps its promises.
\<close>

partial_function (option) resize_loop ::
  "('k, 'p) policy_ops \<Rightarrow> ('k \<times> 'v) list \<Rightarrow> ('k, 'v, 'p) cache_mt
     \<Rightarrow> (bool \<times> ('k \<times> 'v) list \<times> ('k, 'v, 'p) cache_mt) option" where
  "resize_loop ops out c =
     (if unat (m_size c) < length (cache_map c)
      then case po_evictEntry ops (policy c) of
             None \<Rightarrow> Some (False, out, c)
           | Some (k, p) \<Rightarrow>
               resize_loop ops (out @ dirty_entry k (cache_map c))
                 (c\<lparr>policy := p, cache_map := AList.delete k (cache_map c)\<rparr>)
      else Some (True, out, c))"

definition cache_resize ::
  "('k, 'p) policy_ops \<Rightarrow> u32 \<Rightarrow> ('k, 'v, 'p) cache_mt
     \<Rightarrow> (bool \<times> ('k \<times> 'v) list \<times> ('k, 'v, 'p) cache_mt) option" where
  "cache_resize ops msize c =
     (if m_size c < msize then Some (True, [], c\<lparr>m_size := msize\<rparr>) else resize_loop ops [] c)"

definition cache_write ::
  "('k, 'p) policy_ops \<Rightarrow> 'k \<Rightarrow> 'v \<Rightarrow> bool \<Rightarrow> ('k, 'v, 'p) cache_mt
     \<Rightarrow> bool \<times> ('k \<times> 'v) list \<times> ('k, 'v, 'p) cache_mt" where
  "cache_write ops key data dirty c =
     (let m = AList.delete key (cache_map c) in
      if length m = unat (m_size c)
      then case po_evictEntry ops (policy c) of
             None \<Rightarrow> (False, [], c\<lparr>cache_map := m\<rparr>)
           | Some (ek, p) \<Rightarrow>
               (True, dirty_entry ek m,
                c\<lparr>cache_map := (key, data, dirty) # AList.delete ek m, policy := po_hit ops key p\<rparr>)
      else (True, [], c\<lparr>cache_map := (key, data, dirty) # m, policy := po_hit ops key (policy c)\<rparr>))"

definition cache_read ::
  "('k, 'p) policy_ops \<Rightarrow> 'k \<Rightarrow> ('k, 'v, 'p) cache_mt \<Rightarrow> 'v option \<times> ('k, 'v, 'p) cache_mt" where
  "cache_read ops key c =
     (case map_of (cache_map c) key of
        None \<Rightarrow> (None, c\<lparr>policy := po_miss ops key (policy c)\<rparr>)
      | Some (v, _) \<Rightarrow> (Some v, c\<lparr>policy := po_hit ops key (policy c)\<rparr>))"

definition cache_free :: "('k, 'p) policy_ops \<Rightarrow> 'k \<Rightarrow> ('k, 'v, 'p) cache_mt \<Rightarrow> ('k, 'v, 'p) cache_mt" where
  "cache_free ops key c =
     c\<lparr>policy := po_invalidate ops key (policy c), cache_map := AList.delete key (cache_map c)\<rparr>"

section \<open>The contract of a policy\<close>

text \<open>
  \<open>tracks p K\<close>: the policy state \<open>p\<close> fits a cache that holds the keys \<open>K\<close>. A key the policy
  evicts is one of them.
\<close>

definition cached_keys :: "('k, 'v, 'p) cache_mt \<Rightarrow> 'k set" where
  "cached_keys c = fst ` set (cache_map c)"

definition lookup :: "('k, 'v, 'p) cache_mt \<Rightarrow> 'k \<Rightarrow> ('v \<times> bool) option" where
  "lookup c = map_of (cache_map c)"

definition cache_inv :: "('p \<Rightarrow> 'k set \<Rightarrow> bool) \<Rightarrow> ('k, 'v, 'p) cache_mt \<Rightarrow> bool" where
  "cache_inv tracks c \<longleftrightarrow> distinct (map fst (cache_map c)) \<and> length (cache_map c) \<le> unat (m_size c) \<and>
     tracks (policy c) (cached_keys c)"

lemma cached_keys_lookup: "cached_keys c = dom (lookup c)"
  by (simp add: cached_keys_def lookup_def dom_map_of_conv_image_fst)

lemma resize_loop_idle [simp]: "length (cache_map c) \<le> unat (m_size c) \<Longrightarrow> resize_loop ops out c = Some (True, out, c)"
  by (simp add: resize_loop.simps)

locale cache_policy =
  fixes ops :: "('k, 'p) policy_ops"
    and tracks :: "'p \<Rightarrow> 'k set \<Rightarrow> bool"
  assumes tracks_hit: "tracks p K \<Longrightarrow> tracks (po_hit ops k p) (insert k K)"
    and tracks_miss: "tracks p K \<Longrightarrow> tracks (po_miss ops k p) K"
    and tracks_invalidate: "tracks p K \<Longrightarrow> tracks (po_invalidate ops k p) (K - {k})"
    and tracks_clear: "tracks p K \<Longrightarrow> tracks (po_clear ops p) {}"
    and tracks_evict: "tracks p K \<Longrightarrow> po_evictEntry ops p = Some (k, p') \<Longrightarrow> k \<in> K \<and> tracks p' (K - {k})"
begin

lemma inv_init: "tracks p {} \<Longrightarrow> cache_inv tracks (cache_init p m)"
  by (simp add: cache_inv_def cache_init_def cached_keys_def)

lemma inv_clear: "cache_inv tracks c \<Longrightarrow> cache_inv tracks (cache_clear ops c)"
  by (auto simp: cache_inv_def cache_clear_def cached_keys_def intro: tracks_clear)

lemma inv_free: "cache_inv tracks c \<Longrightarrow> cache_inv tracks (cache_free ops k c)"
  using tracks_invalidate [of "policy c" "cached_keys c" k]
  by (auto simp: cache_inv_def cache_free_def cached_keys_def fst_set_delete distinct_fst_delete
      intro: le_trans [OF length_delete_le])

lemma inv_read:
  assumes "cache_inv tracks c"
  shows "cache_inv tracks (snd (cache_read ops k c))"
proof (cases "k \<in> cached_keys c")
  case True
  then obtain v b where "map_of (cache_map c) k = Some (v, b)" by (auto simp: cached_keys_lookup lookup_def)
  then show ?thesis using tracks_hit [of "policy c" "cached_keys c" k] assms True
    by (simp add: cache_inv_def cache_read_def cached_keys_def insert_absorb)
next
  case False
  then have "map_of (cache_map c) k = None" by (auto simp: cached_keys_lookup lookup_def)
  then show ?thesis using tracks_miss [of "policy c" "cached_keys c" k] assms
    by (simp add: cache_inv_def cache_read_def cached_keys_def)
qed

text \<open>
  The cache is never larger than its capacity, so \<open>resize\<close> has nothing to evict; it can only
  enlarge the capacity.
\<close>

lemma resize_grows:
  assumes "cache_inv tracks c"
  shows "cache_resize ops msize c = Some (True, [], c\<lparr>m_size := max (m_size c) msize\<rparr>)"
  using assms by (auto simp: cache_resize_def cache_inv_def max_def not_less)

lemma inv_resize: "cache_inv tracks c \<Longrightarrow> cache_inv tracks (c\<lparr>m_size := max (m_size c) msize\<rparr>)"
  by (auto simp: cache_inv_def cached_keys_def max_def word_le_nat_alt)

text \<open>The three ways a write can go.\<close>

lemma write_cases:
  assumes "cache_inv tracks c"
  obtains (stored) "cache_write ops k d dirty c = (True, [], c\<lparr>cache_map := (k, d, dirty) # AList.delete k (cache_map c),
        policy := po_hit ops k (policy c)\<rparr>)" "length (AList.delete k (cache_map c)) < unat (m_size c)"
  | (evicted) ek p where "k \<notin> cached_keys c" "ek \<in> cached_keys c" "ek \<noteq> k" "length (cache_map c) = unat (m_size c)"
      "po_evictEntry ops (policy c) = Some (ek, p)" "tracks p (cached_keys c - {ek})"
      "cache_write ops k d dirty c = (True, dirty_entry ek (cache_map c),
         c\<lparr>cache_map := (k, d, dirty) # AList.delete ek (cache_map c), policy := po_hit ops k p\<rparr>)"
  | (rejected) "k \<notin> cached_keys c" "length (cache_map c) = unat (m_size c)" "po_evictEntry ops (policy c) = None"
      "cache_write ops k d dirty c = (False, [], c)"
proof (cases "length (AList.delete k (cache_map c)) = unat (m_size c)")
  case False
  have "length (AList.delete k (cache_map c)) \<le> unat (m_size c)"
    using assms length_delete_le [of k "cache_map c"] by (auto simp: cache_inv_def intro: le_trans)
  with False show ?thesis by (intro stored) (auto simp: cache_write_def)
next
  case True
  note inv = assms [unfolded cache_inv_def]
  have "k \<notin> cached_keys c"
  proof
    assume "k \<in> cached_keys c"
    then have "length (AList.delete k (cache_map c)) = length (cache_map c) - 1" "cache_map c \<noteq> []"
      using length_delete_distinct [of "cache_map c" k] inv by (auto simp: cached_keys_def)
    with True inv show False by (cases "cache_map c") auto
  qed
  then have same: "AList.delete k (cache_map c) = cache_map c"
    by (auto simp: cached_keys_def AList.delete_idem)
  show ?thesis
  proof (cases "po_evictEntry ops (policy c)")
    case None
    with same True show ?thesis by (intro rejected \<open>k \<notin> cached_keys c\<close>) (auto simp: cache_write_def)
  next
    case (Some e)
    then obtain ek p where e: "po_evictEntry ops (policy c) = Some (ek, p)" by (cases e) auto
    with tracks_evict [of "policy c" "cached_keys c" ek p] inv have "ek \<in> cached_keys c" "tracks p (cached_keys c - {ek})"
      by auto
    moreover from this(1) \<open>k \<notin> cached_keys c\<close> have "ek \<noteq> k" by auto
    ultimately show ?thesis using e same True \<open>k \<notin> cached_keys c\<close>
      by (intro evicted [of ek p]) (auto simp: cache_write_def Let_def)
  qed
qed

lemma inv_write:
  assumes "cache_inv tracks c"
  shows "cache_inv tracks (snd (snd (cache_write ops k d dirty c)))"
  using assms
proof (cases rule: write_cases [of c k d dirty])
  case stored
  have "insert k (fst ` set (cache_map c) - {k}) = insert k (cached_keys c)" by (auto simp: cached_keys_def)
  with stored assms tracks_hit [of "policy c" "cached_keys c" k] show ?thesis
    by (simp add: cache_inv_def cached_keys_def fst_set_delete distinct_fst_delete del: AList.delete_conv)
next
  case (evicted ek p)
  have "length (AList.delete ek (cache_map c)) < unat (m_size c)"
    using length_delete_distinct [of "cache_map c" ek] assms evicted
    by (cases "cache_map c") (auto simp: cache_inv_def cached_keys_def)
  with evicted assms tracks_hit [of p "cached_keys c - {ek}" k] show ?thesis
    by (auto simp: cache_inv_def cached_keys_def fst_set_delete distinct_fst_delete)
qed (use assms in simp)

text \<open>
  What a write does to the contents: it is stored, at most one other entry is dropped, and a
  dropped entry that is dirty goes to the callback.
\<close>

lemma write_lookup:
  assumes "cache_inv tracks c" "cache_write ops k d dirty c = (True, out, c')"
  shows "(lookup c' = (lookup c)(k \<mapsto> (d, dirty)) \<and> out = []) \<or>
    (\<exists>ek e. ek \<noteq> k \<and> lookup c ek = Some e \<and> lookup c' = (lookup c)(ek := None, k \<mapsto> (d, dirty)) \<and>
       out = (if snd e then [(ek, fst e)] else []))"
  using assms(1)
proof (cases rule: write_cases [of c k d dirty])
  case (evicted ek p)
  then obtain e where "lookup c ek = Some e" by (auto simp: cached_keys_lookup)
  moreover have "dirty_entry ek (cache_map c) = (if snd e then [(ek, fst e)] else [])"
    using calculation by (cases e) (auto simp: dirty_entry_def lookup_def split: bool.splits)
  ultimately show ?thesis using evicted assms(2)
    by (intro disjI2 exI [of _ ek] exI [of _ e]) (auto simp: lookup_def map_of_delete_eq)
qed (use assms in \<open>auto simp: lookup_def map_of_delete_eq\<close>)

lemma write_rejected:
  assumes "cache_inv tracks c" "cache_write ops k d dirty c = (False, out, c')"
  shows "out = [] \<and> c' = c \<and> po_evictEntry ops (policy c) = None \<and> length (cache_map c) = unat (m_size c)"
  using assms(1) by (cases rule: write_cases [of c k d dirty]) (use assms(2) in auto)

lemma write_with_room:
  assumes "cache_inv tracks c" "length (cache_map c) < unat (m_size c)"
  shows "fst (cache_write ops k d dirty c) \<and> fst (snd (cache_write ops k d dirty c)) = [] \<and>
    lookup (snd (snd (cache_write ops k d dirty c))) = (lookup c)(k \<mapsto> (d, dirty))"
  using assms(1) by (cases rule: write_cases [of c k d dirty])
    (use assms(2) in \<open>auto simp: lookup_def map_of_delete_eq\<close>)

lemma read_result: "cache_read ops k c = (r, c') \<Longrightarrow> r = map_option fst (lookup c k) \<and> lookup c' = lookup c \<and> m_size c' = m_size c"
  by (auto simp: cache_read_def lookup_def split: option.splits)

end

section \<open>No policy\<close>

interpretation none: cache_policy cache_mt_none "\<lambda>p K. True"
  by unfold_locales (auto simp: cache_mt_none_def)

section \<open>Least recently used\<close>

text \<open>
  The abstract view of the LRU policy is the list of its keys, least recently used first. In the
  invariant the iterators of \<open>access_count\<close> are those of the nodes of the queue.
\<close>

definition lru_keys :: "'k cache_mt_LRU \<Rightarrow> 'k list" where
  "lru_keys p = map snd (queue p)"

definition lru_inv :: "'k cache_mt_LRU \<Rightarrow> bool" where
  "lru_inv p \<longleftrightarrow> distinct (map fst (queue p)) \<and> distinct (map snd (queue p)) \<and>
     (\<forall>(i, k) \<in> set (queue p). i < fresh_node p) \<and>
     (\<forall>k i. access_count p k = Some i \<longleftrightarrow> (i, k) \<in> set (queue p))"

definition lru_tracks :: "'k cache_mt_LRU \<Rightarrow> 'k set \<Rightarrow> bool" where
  "lru_tracks p K \<longleftrightarrow> lru_inv p \<and> set (lru_keys p) = K"

lemma lru_init_ok: "lru_inv lru_init \<and> lru_keys lru_init = []"
  by (simp add: lru_inv_def lru_init_def lru_keys_def)

lemma lru_invalidate_eq:
  assumes "lru_inv p"
  shows "lru_invalidate k p = p\<lparr>queue := filter (\<lambda>x. snd x \<noteq> k) (queue p), access_count := (access_count p)(k := None)\<rparr>"
proof (cases "access_count p k")
  case None
  then have "filter (\<lambda>x. snd x \<noteq> k) (queue p) = queue p" using assms
    by (force simp: lru_inv_def filter_id_conv)
  moreover have "(access_count p)(k := None) = access_count p" using None by auto
  ultimately show ?thesis using None by (simp add: lru_invalidate_def)
next
  case (Some i)
  then have i: "(i, k) \<in> set (queue p)" using assms by (simp add: lru_inv_def)
  have inj: "inj_on fst (set (queue p))" "inj_on snd (set (queue p))"
    using assms by (simp_all add: lru_inv_def distinct_map)
  have "i \<noteq> fst x \<longleftrightarrow> snd x \<noteq> k" if "x \<in> set (queue p)" for x
    using inj_onD [OF inj(1), of x "(i, k)"] inj_onD [OF inj(2), of x "(i, k)"] i that by (cases x) auto
  then have "AList.delete i (queue p) = filter (\<lambda>x. snd x \<noteq> k) (queue p)"
    unfolding AList.delete_eq by (intro filter_cong refl) (simp add: split_beta)
  with Some show ?thesis by (simp add: lru_invalidate_def)
qed

lemma lru_keys_invalidate:
  "lru_inv p \<Longrightarrow> lru_keys (lru_invalidate k p) = removeAll k (lru_keys p)"
  by (simp add: lru_invalidate_eq lru_keys_def removeAll_filter_not_eq filter_map comp_def eq_commute)

lemma lru_inv_invalidate: "lru_inv p \<Longrightarrow> lru_inv (lru_invalidate k p)"
  by (auto simp: lru_invalidate_eq lru_inv_def distinct_map_filter)

lemma access_invalidate [simp]: "access_count (lru_invalidate k p) k = None"
  by (simp add: lru_invalidate_def split: option.splits)

lemma lru_keys_hit:
  assumes "lru_inv p"
  shows "lru_keys (lru_hit k p) = removeAll k (lru_keys p) @ [k]"
  using lru_keys_invalidate [OF assms, of k] by (simp add: lru_hit_def Let_def lru_keys_def)

lemma lru_inv_hit:
  assumes "lru_inv p"
  shows "lru_inv (lru_hit k p)"
proof -
  let ?q = "lru_invalidate k p"
  have inv: "lru_inv ?q" using lru_inv_invalidate [OF assms] .
  have "k \<notin> snd ` set (queue ?q)" using assms by (auto simp: lru_invalidate_eq)
  moreover have "fresh_node ?q \<notin> fst ` set (queue ?q)" using inv by (force simp: lru_inv_def)
  ultimately show ?thesis using inv
    by (auto simp: lru_hit_def Let_def lru_inv_def less_Suc_eq image_iff)
qed

lemma lru_evict_None: "lru_evictEntry p = None \<longleftrightarrow> lru_keys p = []"
  by (auto simp: lru_evictEntry_def lru_keys_def split: list.splits)

lemma lru_evict_Some:
  assumes "lru_inv p" "lru_evictEntry p = Some (k, p')"
  shows "lru_keys p = k # lru_keys p' \<and> lru_inv p'"
proof -
  obtain i xs where q: "queue p = (i, k) # xs" and p': "p' = lru_invalidate k p"
    using assms(2) by (auto simp: lru_evictEntry_def split: list.splits)
  have "removeAll k (lru_keys p) = map snd xs"
    using assms(1) q by (simp add: lru_keys_def lru_inv_def)
  then show ?thesis using lru_keys_invalidate [OF assms(1), of k] lru_inv_invalidate [OF assms(1), of k] q p'
    by (simp add: lru_keys_def)
qed

lemma distinct_lru_keys: "lru_inv p \<Longrightarrow> distinct (lru_keys p)"
  by (simp add: lru_inv_def lru_keys_def)

interpretation lru: cache_policy cache_mt_LRU_ops lru_tracks
proof unfold_locales
  fix p :: "'k cache_mt_LRU" and K k
  assume t: "lru_tracks p K"
  then show "lru_tracks (po_hit cache_mt_LRU_ops k p) (insert k K)"
    by (auto simp: cache_mt_LRU_ops_def lru_tracks_def lru_inv_hit lru_keys_hit)
  show "lru_tracks (po_miss cache_mt_LRU_ops k p) K" using t by (simp add: cache_mt_LRU_ops_def)
  show "lru_tracks (po_invalidate cache_mt_LRU_ops k p) (K - {k})" using t
    by (auto simp: cache_mt_LRU_ops_def lru_tracks_def lru_inv_invalidate lru_keys_invalidate)
  show "lru_tracks (po_clear cache_mt_LRU_ops p) {}"
    by (simp add: cache_mt_LRU_ops_def lru_tracks_def lru_clear_def lru_inv_def lru_keys_def)
  fix p' assume "po_evictEntry cache_mt_LRU_ops p = Some (k, p')"
  then have e: "lru_evictEntry p = Some (k, p')" by (simp add: cache_mt_LRU_ops_def)
  from t have inv: "lru_inv p" by (simp add: lru_tracks_def)
  from lru_evict_Some [OF inv e] distinct_lru_keys [OF inv] t
  show "k \<in> K \<and> lru_tracks p' (K - {k})" by (auto simp: lru_tracks_def)
qed

section \<open>Properties\<close>

text \<open>
  The states of an LRU cache that starts empty, with the keys used so far: written, or read with
  success.
\<close>

inductive lru_reach :: "'k list \<Rightarrow> ('k, 'v, 'k cache_mt_LRU) cache_mt \<Rightarrow> bool" where
  lr_start: "lru_reach [] (cache_init lru_init m)"
| lr_write: "lru_reach us c \<Longrightarrow> cache_write cache_mt_LRU_ops k d dirty c = (True, out, c') \<Longrightarrow> lru_reach (us @ [k]) c'"
| lr_reject: "lru_reach us c \<Longrightarrow> cache_write cache_mt_LRU_ops k d dirty c = (False, out, c') \<Longrightarrow> lru_reach us c'"
| lr_hit: "lru_reach us c \<Longrightarrow> cache_read cache_mt_LRU_ops k c = (Some v, c') \<Longrightarrow> lru_reach (us @ [k]) c'"
| lr_miss: "lru_reach us c \<Longrightarrow> cache_read cache_mt_LRU_ops k c = (None, c') \<Longrightarrow> lru_reach us c'"
| lr_free: "lru_reach us c \<Longrightarrow> lru_reach us (cache_free cache_mt_LRU_ops k c)"
| lr_clear: "lru_reach us c \<Longrightarrow> lru_reach us (cache_clear cache_mt_LRU_ops c)"
| lr_resize: "lru_reach us c \<Longrightarrow> cache_resize cache_mt_LRU_ops m c = Some (b, out, c') \<Longrightarrow> lru_reach us c'"

lemma remdups_snoc: "remdups (us @ [k]) = removeAll k (remdups us) @ [k]"
proof (induction us)
  case (Cons u us)
  then show ?case by (auto simp: removeAll_id)
qed simp

lemmas lru_simps = cache_mt_LRU_ops_def cache_write_def cache_read_def cache_free_def cache_clear_def

lemma lru_reach_inv: "lru_reach us c \<Longrightarrow> cache_inv lru_tracks c"
proof (induction rule: lru_reach.induct)
  case (lr_start m)
  show ?case by (rule lru.inv_init) (simp add: lru_tracks_def lru_init_ok)
next
  case (lr_write us c k d dirty out c')
  then show ?case using lru.inv_write [of c k d dirty] by simp
next
  case (lr_reject us c k d dirty out c')
  then show ?case using lru.inv_write [of c k d dirty] by simp
next
  case (lr_hit us c k v c')
  then show ?case using lru.inv_read [of c k] by simp
next
  case (lr_miss us c k c')
  then show ?case using lru.inv_read [of c k] by simp
next
  case (lr_free us c k)
  then show ?case by (intro lru.inv_free)
next
  case (lr_clear us c)
  then show ?case by (intro lru.inv_clear)
next
  case (lr_resize us c m b out c')
  then show ?case using lru.resize_grows [OF lr_resize.IH, of m] lru.inv_resize [OF lr_resize.IH, of m] by simp
qed

lemma filter_insert_snoc:
  "filter (\<lambda>x. x \<in> insert k C) (removeAll k xs @ [k]) = removeAll k (filter (\<lambda>x. x \<in> C) xs) @ [k]"
  by (induction xs) auto

lemma filter_minus: "filter (\<lambda>x. x \<in> C - {k}) xs = removeAll k (filter (\<lambda>x. x \<in> C) xs)"
  by (induction xs) auto

lemma evict_keys:
  assumes "lru_tracks p K" "po_evictEntry cache_mt_LRU_ops p = Some (ek, p')"
  shows "lru_keys p' = removeAll ek (lru_keys p) \<and> lru_inv p' \<and> hd (lru_keys p) = ek \<and> lru_keys p \<noteq> []"
proof -
  have e: "lru_evictEntry p = Some (ek, p')" and inv: "lru_inv p"
    using assms by (simp_all add: cache_mt_LRU_ops_def lru_tracks_def)
  from lru_evict_Some [OF inv e] distinct_lru_keys [OF inv] show ?thesis by auto
qed

text \<open>The queue lists the cached keys in the order of their last use.\<close>

lemma lru_order:
  "lru_reach us c \<Longrightarrow> lru_keys (policy c) = filter (\<lambda>k. k \<in> cached_keys c) (remdups us)"
proof (induction rule: lru_reach.induct)
  case (lr_start m)
  then show ?case by (simp add: cache_init_def lru_init_ok)
next
  case (lr_write us c k d dirty out c')
  note inv = lru_reach_inv [OF lr_write.hyps(1)]
  then have tr: "lru_tracks (policy c) (cached_keys c)" by (simp add: cache_inv_def)
  from inv show ?case
  proof (cases rule: lru.write_cases [of c k d dirty])
    case stored
    with lr_write.hyps(2) have c': "policy c' = lru_hit k (policy c)" "cached_keys c' = insert k (cached_keys c)"
      by (auto simp: cache_mt_LRU_ops_def cached_keys_def fst_set_delete)
    then show ?thesis using tr lr_write.IH
      by (simp only: lru_keys_hit lru_tracks_def remdups_snoc filter_insert_snoc)
  next
    case (evicted ek p)
    have "c' = c\<lparr>cache_map := (k, d, dirty) # AList.delete ek (cache_map c), policy := lru_hit k p\<rparr>"
      using evicted(7) lr_write.hyps(2) by (simp add: cache_mt_LRU_ops_def)
    then have c': "policy c' = lru_hit k p" "cached_keys c' = insert k (cached_keys c - {ek})"
      by (simp_all add: cached_keys_def fst_set_delete)
    from evict_keys [OF tr evicted(5)] lr_write.IH show ?thesis
      by (simp only: c' lru_keys_hit remdups_snoc filter_insert_snoc filter_minus)
  next
    case rejected
    with lr_write.hyps show ?thesis by simp
  qed
next
  case (lr_reject us c k d dirty out c')
  then show ?case using lru.write_rejected [OF lru_reach_inv [OF lr_reject.hyps(1)] lr_reject.hyps(2)] by simp
next
  case (lr_hit us c k v c')
  have tr: "lru_inv (policy c)" using lru_reach_inv [OF lr_hit.hyps(1)] by (simp add: cache_inv_def lru_tracks_def)
  obtain b where "lookup c k = Some (v, b)" "c' = c\<lparr>policy := lru_hit k (policy c)\<rparr>"
    using lr_hit.hyps(2) by (auto simp: lru_simps lookup_def split: option.splits)
  then have "k \<in> cached_keys c" and c': "policy c' = lru_hit k (policy c)" "cached_keys c' = cached_keys c"
    by (auto simp: cached_keys_lookup) (simp_all add: lookup_def)
  then have c'': "cached_keys c' = insert k (cached_keys c)" by auto
  show ?case using tr lr_hit.IH by (simp only: c'(1) c'' lru_keys_hit remdups_snoc filter_insert_snoc)
next
  case (lr_miss us c k c')
  then show ?case by (auto simp: lru_simps cached_keys_def split: option.splits)
next
  case (lr_free us c k)
  have tr: "lru_inv (policy c)" using lru_reach_inv [OF lr_free.hyps(1)] by (simp add: cache_inv_def lru_tracks_def)
  have c': "policy (cache_free cache_mt_LRU_ops k c) = lru_invalidate k (policy c)"
    "cached_keys (cache_free cache_mt_LRU_ops k c) = cached_keys c - {k}"
    by (auto simp: lru_simps cached_keys_def fst_set_delete)
  then show ?case using tr lr_free.IH by (simp only: lru_keys_invalidate filter_minus)
next
  case (lr_clear us c)
  then show ?case by (simp add: lru_simps cached_keys_def lru_clear_def lru_keys_def)
next
  case (lr_resize us c m b out c')
  then show ?case using lru.resize_grows [OF lru_reach_inv [OF lr_resize.hyps(1)], of m] by (auto simp: cached_keys_def)
qed

text \<open>
  C19: a full LRU cache makes room for a new key by dropping the cached key whose last use is the
  oldest, whatever sequence of operations led to its state; the dropped entry goes to the
  callback if it is dirty, and nothing else changes.
\<close>

theorem evicts_least_recently_used:
  assumes "lru_reach us c" "k \<notin> cached_keys c" "length (cache_map c) = unat (m_size c)" "0 < m_size c"
  shows "\<exists>ek v b c'. hd (filter (\<lambda>x. x \<in> cached_keys c) (remdups us)) = ek \<and> lookup c ek = Some (v, b) \<and>
    cache_write cache_mt_LRU_ops k d dirty c = (True, if b then [(ek, v)] else [], c') \<and>
    lookup c' = (lookup c)(ek := None, k \<mapsto> (d, dirty))"
proof -
  note inv = lru_reach_inv [OF assms(1)]
  then have tr: "lru_tracks (policy c) (cached_keys c)" by (simp add: cache_inv_def)
  have "cache_map c \<noteq> []" using assms(3,4) by (auto simp: word_less_nat_alt)
  then have ne: "cached_keys c \<noteq> {}" by (simp add: cached_keys_def)
  from inv show ?thesis
  proof (cases rule: lru.write_cases [of c k d dirty])
    case stored
    then show ?thesis using assms(2,3) by (simp add: cached_keys_def)
  next
    case (evicted ek p)
    obtain v b where v: "lookup c ek = Some (v, b)" using evicted(2) by (auto simp: cached_keys_lookup)
    have "hd (filter (\<lambda>x. x \<in> cached_keys c) (remdups us)) = ek"
      using evict_keys [OF tr evicted(5)] lru_order [OF assms(1)] by simp
    moreover have "dirty_entry ek (cache_map c) = (if b then [(ek, v)] else [])"
      using v by (auto simp: dirty_entry_def lookup_def)
    ultimately show ?thesis using v evicted by (auto simp: lookup_def map_of_delete_eq)
  next
    case rejected
    then have "lru_keys (policy c) = []" by (simp add: cache_mt_LRU_ops_def lru_evict_None)
    with tr ne show ?thesis by (simp add: lru_tracks_def)
  qed
qed

text \<open>
  under any policy that keeps its contract, a successful write is what a later read of the
  key returns, the capacity is respected, an entry of another key is kept or dropped but never
  changed, and a dirty entry is dropped only into the callback.
\<close>

theorem cache_write_read:
  assumes "cache_policy ops tracks" "cache_inv tracks c" "cache_write ops k d dirty c = (True, out, c')"
  shows "fst (cache_read ops k c') = Some d \<and> length (cache_map c') \<le> unat (m_size c) \<and>
    (\<forall>x v b. x \<noteq> k \<and> lookup c x = Some (v, b) \<longrightarrow>
       fst (cache_read ops x c') = Some v \<or> fst (cache_read ops x c') = None \<and> (b \<longrightarrow> out = [(x, v)])) \<and>
    (\<forall>x. x \<noteq> k \<and> lookup c x = None \<longrightarrow> fst (cache_read ops x c') = None)"
proof -
  have rd: "fst (cache_read ops x c') = map_option fst (lookup c' x)" for x
    by (auto simp: cache_read_def lookup_def split: option.splits)
  have "length (cache_map c') \<le> unat (m_size c')"
    using cache_policy.inv_write [OF assms(1,2), of k d dirty] assms(3) by (simp add: cache_inv_def)
  moreover have "m_size c' = m_size c"
    using assms(3) by (auto simp: cache_write_def Let_def split: if_splits option.splits)
  ultimately show ?thesis using cache_policy.write_lookup [OF assms]
    unfolding rd by (elim disjE exE conjE) (auto simp: fun_upd_def)
qed

text \<open>
  \<open>resize\<close> is documented to evict entries "to match the new maximum size", but it never
  lowers the capacity and evicts nothing.
\<close>

theorem resize_never_shrinks:
  assumes "cache_policy ops tracks" "cache_inv tracks c"
  shows "cache_resize ops msize c = Some (True, [], c\<lparr>m_size := max (m_size c) msize\<rparr>)"
  using cache_policy.resize_grows [OF assms] .

section \<open>Instances\<close>

definition ex_cache1 :: "(nat, string, nat cache_mt_LRU) cache_mt" where
  "ex_cache1 = snd (snd (cache_write cache_mt_LRU_ops 1 ''a'' True (cache_init lru_init 2)))"

definition ex_cache2 :: "(nat, string, nat cache_mt_LRU) cache_mt" where
  "ex_cache2 = snd (snd (cache_write cache_mt_LRU_ops 2 ''b'' True ex_cache1))"

definition ex_cache :: "(nat, string, nat cache_mt_LRU) cache_mt" where
  "ex_cache = snd (cache_read cache_mt_LRU_ops 1 ex_cache2)"

lemmas ex_cache_defs = ex_cache_def ex_cache2_def ex_cache1_def cache_init_def lru_init_def lru_simps
  lru_hit_def lru_invalidate_def lookup_def cached_keys_def

lemma ex_cache_reach: "lru_reach [1, 2, 1] ex_cache"
proof -
  have "cache_write cache_mt_LRU_ops 1 ''a'' True (cache_init lru_init 2) = (True, [], ex_cache1)"
    by (simp add: ex_cache_defs)
  from lr_write [OF lr_start this] have "lru_reach [1] ex_cache1" by simp
  moreover have "cache_write cache_mt_LRU_ops 2 ''b'' True ex_cache1 = (True, [], ex_cache2)"
    by (simp add: ex_cache_defs)
  ultimately have "lru_reach [1, 2] ex_cache2" using lr_write by fastforce
  moreover have "cache_read cache_mt_LRU_ops 1 ex_cache2 = (Some ''a'', ex_cache)"
    by (simp add: ex_cache_defs)
  ultimately show ?thesis using lr_hit by fastforce
qed

lemma ex_cache_state: "lookup ex_cache = [1 \<mapsto> (''a'', True), 2 \<mapsto> (''b'', True)]" "cached_keys ex_cache = {1, 2}"
    "length (cache_map ex_cache) = 2" "m_size ex_cache = 2"
  by (auto simp: ex_cache_defs)

theorem evicts_least_recently_used_witness:
  "\<exists>c'. cache_write cache_mt_LRU_ops 3 ''c'' True ex_cache = (True, [(2, ''b'')], c') \<and>
     lookup c' = [1 \<mapsto> (''a'', True), 3 \<mapsto> (''c'', True)]"
  using evicts_least_recently_used [OF ex_cache_reach, of 3 "''c''" True]
  by (auto simp: ex_cache_state fun_upd_twist split: if_splits)

theorem cache_write_read_witness:
  "\<exists>c'. cache_write cache_mt_LRU_ops 2 ''z'' True ex_cache = (True, [], c') \<and>
     fst (cache_read cache_mt_LRU_ops 2 c') = Some ''z'' \<and> fst (cache_read cache_mt_LRU_ops 1 c') = Some ''a''"
proof -
  obtain c' where c': "cache_write cache_mt_LRU_ops 2 ''z'' True ex_cache = (True, [], c')"
    by (simp add: ex_cache_defs)
  from cache_write_read [OF lru.cache_policy_axioms lru_reach_inv [OF ex_cache_reach] this]
  have r: "fst (cache_read cache_mt_LRU_ops 2 c') = Some ''z''"
      "\<forall>x v b. x \<noteq> 2 \<and> lookup ex_cache x = Some (v, b) \<longrightarrow> fst (cache_read cache_mt_LRU_ops x c') = Some v \<or>
         fst (cache_read cache_mt_LRU_ops x c') = None \<and> (b \<longrightarrow> [] = [(x, v)])" by blast+
  from r(2) [rule_format, of 1 "''a''" True] r(1) c' show ?thesis by (simp add: ex_cache_state)
qed

theorem resize_never_shrinks_witness:
  "cache_resize cache_mt_LRU_ops 1 ex_cache = Some (True, [], ex_cache)"
proof -
  have "max (m_size ex_cache) 1 = m_size ex_cache" unfolding ex_cache_state by (simp add: max_def word_le_nat_alt)
  then show ?thesis
    using resize_never_shrinks [OF lru.cache_policy_axioms lru_reach_inv [OF ex_cache_reach], of 1] by simp
qed

end
