(* ===== verification/Rpc_Client.thy ===== *)
theory Rpc_Client
  imports Rpc_Wire Cache_MT "HOL-Library.Multiset"
begin

text \<open>
  The scheduling of calls in \<open>rpc/rpc_client.hpp\<close>: the request queue, the limit on the number of
  connections, the reuse of a connection for the next call to the same host, and \<open>run\<close>; with
  \<open>common/cached_resolver.hpp\<close>, which resolves host names. What happens on a connection is in
  \<open>Rpc_Wire\<close>; here a transfer is one operation with an outcome.
\<close>

section \<open>The request queue\<close>

text \<open>
  \<open>request_map\<close> and \<open>pending_map\<close> are maps from hosts to maps from identifiers to calls; here
  one association list for each, with host and identifier as the key (an inner map that has become
  empty makes no difference). \<open>sel\<close> says which entry the iteration over the hash table meets
  first.
\<close>

type_synonym requests_t = "((string_pair_t \<times> u32) \<times> rpcinfo_t) list"
type_synonym hash_order = "requests_t \<Rightarrow> nat"

record request_queue_t =
  request_map :: requests_t
  pending_map :: requests_t
  request_id :: u32

definition request_queue_new :: request_queue_t where
  "request_queue_new = \<lparr>request_map = [], pending_map = [], request_id = 0\<rparr>"

definition req_key :: "rpcinfo_t \<Rightarrow> string_pair_t \<times> u32" where
  "req_key rd = (ri_host_id rd, ri_id rd)"

definition req_put :: "rpcinfo_t \<Rightarrow> requests_t \<Rightarrow> requests_t" where
  "req_put rd m = AList.delete (req_key rd) m @ [(req_key rd, rd)]"

definition req_take :: "hash_order \<Rightarrow> requests_t \<Rightarrow> requests_t \<Rightarrow> rpcinfo_t option \<times> requests_t" where
  "req_take sel xs m =
     (if xs = [] then (None, m)
      else case xs ! (sel xs mod length xs) of (k, rd) \<Rightarrow> (Some rd, AList.delete k m))"

definition of_host :: "string_pair_t \<Rightarrow> requests_t \<Rightarrow> requests_t" where
  "of_host h m = filter (\<lambda>e. fst (fst e) = h) m"

definition enqueue :: "rpcinfo_t \<Rightarrow> request_queue_t \<Rightarrow> request_queue_t" where
  "enqueue rd q =
     q\<lparr>request_map := req_put (rd\<lparr>ri_id := request_id q\<rparr>) (request_map q), request_id := request_id q + 1\<rparr>"

definition mark_pending :: "rpcinfo_t \<Rightarrow> request_queue_t \<Rightarrow> request_queue_t" where
  "mark_pending rd q = q\<lparr>pending_map := req_put rd (pending_map q)\<rparr>"

definition dequeue_host :: "hash_order \<Rightarrow> string_pair_t \<Rightarrow> request_queue_t \<Rightarrow> rpcinfo_t option \<times> request_queue_t" where
  "dequeue_host sel h q =
     (case req_take sel (of_host h (request_map q)) (request_map q) of (r, m) \<Rightarrow> (r, q\<lparr>request_map := m\<rparr>))"

definition dequeue_pending :: "rpcinfo_t \<Rightarrow> request_queue_t \<Rightarrow> bool \<times> request_queue_t" where
  "dequeue_pending rd q =
     (map_of (pending_map q) (req_key rd) \<noteq> None, q\<lparr>pending_map := AList.delete (req_key rd) (pending_map q)\<rparr>)"

definition dequeue_pending_host :: "hash_order \<Rightarrow> string_pair_t \<Rightarrow> request_queue_t \<Rightarrow> rpcinfo_t option \<times> request_queue_t" where
  "dequeue_pending_host sel h q =
     (case req_take sel (of_host h (pending_map q)) (pending_map q) of (r, m) \<Rightarrow> (r, q\<lparr>pending_map := m\<rparr>))"

definition dequeue_any :: "hash_order \<Rightarrow> request_queue_t \<Rightarrow> rpcinfo_t option \<times> request_queue_t" where
  "dequeue_any sel q =
     (case req_take sel (request_map q) (request_map q) of (r, m) \<Rightarrow> (r, q\<lparr>request_map := m\<rparr>))"

definition queue_clear :: "request_queue_t \<Rightarrow> request_queue_t" where
  "queue_clear q = q\<lparr>request_map := [], pending_map := []\<rparr>"

section \<open>The client\<close>

text \<open>
  The operations of the \<open>io_service\<close> that have been started: a name is being resolved, a new
  socket is being connected, a call is being transferred over an open socket. \<open>called_back\<close>
  lists the callbacks that ran, with what they got.
\<close>

type_synonym endpoint = string

datatype io_op = Resolving rpcinfo_t | Connecting endpoint rpcinfo_t | Transferring rpcinfo_t

record rpc_client =
  cl_queue :: request_queue_t
  waiting_count :: u32
  host_cache :: "(string_pair_t, endpoint, string_pair_t cache_mt_LRU) cache_mt"
  io_ops :: "io_op list"
  called_back :: "(rpcinfo_t \<times> rpcreturn_t \<times> rpcvector_t) list"

definition RESOLVER_CACHE_SIZE :: u32 where "RESOLVER_CACHE_SIZE = push_bit 16 1"
definition WAIT_LIMIT :: u32 where "WAIT_LIMIT = 128"

definition rpc_client_new :: rpc_client where
  "rpc_client_new = \<lparr>cl_queue = request_queue_new, waiting_count = 0,
     host_cache = cache_init lru_init RESOLVER_CACHE_SIZE, io_ops = [], called_back = []\<rparr>"

text \<open>
  The network and the callbacks of the caller: the outcome of each operation, which of the started
  operations completes next, whether the socket of a call that was answered is still open (the
  watchdog or the peer may have closed it), and the calls a callback dispatches, which may depend
  on all that was called back so far, itself last.
\<close>

record world =
  w_order :: hash_order
  w_resolve :: "rpc_client \<Rightarrow> rpcinfo_t \<Rightarrow> rpcreturn_t \<times> endpoint"
  w_connect :: "rpc_client \<Rightarrow> rpcinfo_t \<Rightarrow> rpcreturn_t"
  w_transfer :: "rpc_client \<Rightarrow> rpcinfo_t \<Rightarrow> rpcreturn_t \<times> rpcreturn_t \<times> rpcvector_t"
  w_next :: "rpc_client \<Rightarrow> nat"
  w_open :: "rpc_client \<Rightarrow> rpcinfo_t \<Rightarrow> bool"
  w_callback :: "(rpcinfo_t \<times> rpcreturn_t \<times> rpcvector_t) list \<Rightarrow> rpcinfo_t list"

definition start_io :: "io_op \<Rightarrow> rpc_client \<Rightarrow> rpc_client" where
  "start_io e c = c\<lparr>io_ops := io_ops c @ [e]\<rparr>"

text \<open>
  \<open>cached_resolver::dispatch\<close> calls \<open>handle_resolve\<close> at once for a name in the cache.
\<close>

definition resolver_dispatch :: "rpcinfo_t \<Rightarrow> rpc_client \<Rightarrow> rpc_client" where
  "resolver_dispatch rd c =
     (case cache_read cache_mt_LRU_ops (ri_host_id rd) (host_cache c) of
        (Some ep, hc) \<Rightarrow> start_io (Connecting ep rd) (c\<lparr>host_cache := hc\<rparr>)
      | (None, hc) \<Rightarrow> start_io (Resolving rd) (c\<lparr>host_cache := hc\<rparr>))"

lemma waiting_resolver_dispatch [simp]: "waiting_count (resolver_dispatch rd c) = waiting_count c"
  by (simp add: resolver_dispatch_def start_io_def split: prod.splits option.splits)

lemma unat_suc_limit: "w < WAIT_LIMIT \<Longrightarrow> unat (w + 1) = Suc (unat w)"
  by (simp add: WAIT_LIMIT_def word_less_nat_alt unat_word_ariths)

text \<open>The loop of \<open>handle_next_request\<close> that starts new connections.\<close>

function start_requests :: "hash_order \<Rightarrow> rpc_client \<Rightarrow> rpc_client" where
  "start_requests sel c =
     (if waiting_count c < WAIT_LIMIT then
        case dequeue_any sel (cl_queue c) of
          (None, q) \<Rightarrow> c\<lparr>cl_queue := q\<rparr>
        | (Some rd, q) \<Rightarrow>
            start_requests sel (resolver_dispatch rd
              (c\<lparr>cl_queue := mark_pending rd q, waiting_count := waiting_count c + 1\<rparr>))
      else c)"
  by auto
termination
proof (relation "measure (\<lambda>(sel, c). 128 - unat (waiting_count c))")
  fix sel q rd and c :: rpc_client
  assume "waiting_count c < WAIT_LIMIT"
  then have "unat (waiting_count c) < 128" by (simp add: WAIT_LIMIT_def word_less_nat_alt)
  moreover have "unat (waiting_count c + 1) = Suc (unat (waiting_count c))"
    using \<open>waiting_count c < WAIT_LIMIT\<close> by (rule unat_suc_limit)
  ultimately show "((sel, resolver_dispatch rd (c\<lparr>cl_queue := mark_pending rd q, waiting_count := waiting_count c + 1\<rparr>)), sel, c)
      \<in> measure (\<lambda>(sel, c). 128 - unat (waiting_count c))" by simp
qed simp

declare start_requests.simps [simp del]

text \<open>
  \<open>handle_connect\<close>: the error \<open>invalid_argument\<close> is the mark of the direct call by which
  \<open>handle_next_request\<close> passes on an open socket. The continuation is \<open>handle_callback\<close>
  for a connection that failed.
\<close>

definition handle_connect ::
  "(rpcinfo_t \<Rightarrow> rpcreturn_t \<Rightarrow> rpc_client \<Rightarrow> rpc_client option) \<Rightarrow> rpcinfo_t \<Rightarrow> rpcreturn_t \<Rightarrow> rpc_client \<Rightarrow> rpc_client option" where
  "handle_connect failed rd err c =
     (case dequeue_pending rd (cl_queue c) of (was_pending, q) \<Rightarrow>
        let c = c\<lparr>cl_queue := q\<rparr>
        in if \<not> was_pending
           then if err \<noteq> asio_invalid_argument then Some c
                else Some (start_io (Transferring rd) c)
           else if err \<noteq> 0 then failed rd err c
           else Some (start_io (Transferring rd) c))"

text \<open>
  \<open>handle_next_request\<close>: the socket is \<open>None\<close> for a null pointer and otherwise what \<open>is_open\<close> says.
  The call it takes is not pending any more, so the failure branch of \<open>handle_connect\<close> is not
  entered.
\<close>

definition handle_next_request :: "hash_order \<Rightarrow> bool option \<Rightarrow> string_pair_t \<Rightarrow> rpc_client \<Rightarrow> rpc_client option" where
  "handle_next_request sel socket h c =
     do {
       c \<leftarrow> (if socket = None \<or> socket = Some False then Some c
          else
            (case dequeue_host sel h (cl_queue c) of
               (Some rd, q) \<Rightarrow>
                 handle_connect (\<lambda>_ _ _. None) rd asio_invalid_argument
                   (c\<lparr>cl_queue := q, waiting_count := waiting_count c + 1\<rparr>)
             | (None, q) \<Rightarrow>
                 (case dequeue_pending_host sel h q of
                    (Some rd, q) \<Rightarrow>
                      handle_connect (\<lambda>_ _ _. None) rd asio_invalid_argument
                        (c\<lparr>cl_queue := q, waiting_count := waiting_count c + 1\<rparr>)
                  | (None, q) \<Rightarrow> Some (c\<lparr>cl_queue := q\<rparr>))));
       Some (start_requests sel c)
     }"

definition cl_dispatch :: "hash_order \<Rightarrow> rpcinfo_t \<Rightarrow> rpc_client \<Rightarrow> rpc_client option" where
  "cl_dispatch sel rd c = handle_next_request sel None (ri_host_id rd) (c\<lparr>cl_queue := enqueue rd (cl_queue c)\<rparr>)"

fun cl_dispatch_all :: "hash_order \<Rightarrow> rpcinfo_t list \<Rightarrow> rpc_client \<Rightarrow> rpc_client option" where
  "cl_dispatch_all sel [] c = Some c"
| "cl_dispatch_all sel (rd # rds) c = do { c \<leftarrow> cl_dispatch sel rd c; cl_dispatch_all sel rds c }"

definition handle_callback ::
  "world \<Rightarrow> rpcreturn_t \<Rightarrow> rpcvector_t \<Rightarrow> rpcinfo_t \<Rightarrow> rpcreturn_t \<Rightarrow> rpc_client \<Rightarrow> rpc_client option" where
  "handle_callback w st res rd err c =
     (let status = (if err \<noteq> 0 then err else st);
          c = c\<lparr>waiting_count := waiting_count c - 1, called_back := called_back c @ [(rd, status, res)]\<rparr>
      in do {
           c \<leftarrow> cl_dispatch_all (w_order w) (w_callback w (called_back c)) c;
           handle_next_request (w_order w) (Some (err = 0 \<and> w_open w c rd)) (ri_host_id rd) c
         })"

text \<open>
  \<open>handle_resolve\<close>. After a failed resolution \<open>handle_callback\<close> closes a socket that does not
  exist.
\<close>

definition handle_resolve :: "world \<Rightarrow> rpcinfo_t \<Rightarrow> rpc_client \<Rightarrow> rpc_client option" where
  "handle_resolve w rd c =
     (case w_resolve w c rd of (err, ep) \<Rightarrow>
        if err \<noteq> 0 then
          (case dequeue_pending rd (cl_queue c) of (was_pending, q) \<Rightarrow>
             if was_pending then None else Some (c\<lparr>cl_queue := q\<rparr>))
        else Some (start_io (Connecting ep rd)
               (c\<lparr>host_cache := snd (snd (cache_write cache_mt_LRU_ops (ri_host_id rd) ep False (host_cache c)))\<rparr>)))"

definition complete_op :: "world \<Rightarrow> io_op \<Rightarrow> rpc_client \<Rightarrow> rpc_client option" where
  "complete_op w e c =
     (case e of
        Resolving rd \<Rightarrow> handle_resolve w rd c
      | Connecting ep rd \<Rightarrow> handle_connect (handle_callback w 0 (ri_result rd)) rd (w_connect w c rd) c
      | Transferring rd \<Rightarrow>
          (case w_transfer w c rd of (err, st, res) \<Rightarrow> handle_callback w st res rd err c))"

text \<open>
  \<open>run\<close>: operations complete until none is left; then the counters and queues are reset. \<open>None\<close> is
  undefined behaviour or a loop that does not end.
\<close>

partial_function (option) run_io :: "world \<Rightarrow> rpc_client \<Rightarrow> rpc_client option" where
  "run_io w c =
     (if io_ops c = [] then Some c
      else
        let n = w_next w c mod length (io_ops c)
        in case complete_op w (io_ops c ! n) (c\<lparr>io_ops := take n (io_ops c) @ drop (Suc n) (io_ops c)\<rparr>) of
             None \<Rightarrow> None
           | Some c' \<Rightarrow> run_io w c')"

definition cl_run :: "world \<Rightarrow> rpc_client \<Rightarrow> (bool \<times> rpc_client) option" where
  "cl_run w c =
     (case run_io w c of
        None \<Rightarrow> None
      | Some c \<Rightarrow> Some (waiting_count c = 0, c\<lparr>waiting_count := 0, cl_queue := queue_clear (cl_queue c)\<rparr>))"

section \<open>The queue as multisets of calls\<close>

definition wf_requests :: "requests_t \<Rightarrow> bool" where
  "wf_requests m \<longleftrightarrow> distinct (map fst m) \<and> (\<forall>e \<in> set m. fst e = req_key (snd e))"


lemma wf_requests_delete [intro]: "wf_requests m \<Longrightarrow> wf_requests (AList.delete k m)"
proof -
  assume "wf_requests m"
  moreover have "set (AList.delete k m) \<subseteq> set m" by (auto simp: AList.delete_eq)
  ultimately show ?thesis by (auto simp: wf_requests_def distinct_fst_delete)
qed







section \<open>The invariant\<close>

















section \<open>Starting calls\<close>

lemma resolver_dispatch_simps [simp]:
  "cl_queue (resolver_dispatch rd c) = cl_queue c" "called_back (resolver_dispatch rd c) = called_back c"
  by (simp_all add: resolver_dispatch_def start_io_def split: prod.splits option.splits)






section \<open>Completing operations\<close>






section \<open>Dispatching\<close>

fun number_calls :: "u32 \<Rightarrow> rpcinfo_t list \<Rightarrow> rpcinfo_t list" where
  "number_calls i [] = []"
| "number_calls i (rd # rds) = rd\<lparr>ri_id := i\<rparr> # number_calls (i + 1) rds"

lemma length_number_calls [simp]: "length (number_calls i rds) = length rds"
  by (induction i rds rule: number_calls.induct) simp_all






section \<open>Callbacks\<close>


text \<open>
  The calls that callbacks dispatched, in order; and a bound on how many there can be: \<open>cost rd\<close>
  bounds the number of calls a call gives rise to, itself included.
\<close>

definition by_callbacks :: "world \<Rightarrow> (rpcinfo_t \<times> rpcreturn_t \<times> rpcvector_t) list \<Rightarrow> rpcinfo_t list" where
  "by_callbacks w cb = concat (map (\<lambda>n. w_callback w (take (Suc n) cb)) [0..<length cb])"


lemma by_callbacks_Nil [simp]: "by_callbacks w [] = []"
  by (simp add: by_callbacks_def)







section \<open>Completing operations while \<open>run\<close> waits\<close>












section \<open>Dispatching and running\<close>









text \<open>
  A call to a host whose name cannot be resolved ends in the use of a socket that does not exist.
\<close>

theorem unresolved_host_undefined:
  assumes "\<And>c rd. fst (w_resolve w c rd) \<noteq> 0"
  shows "\<exists>c'. cl_dispatch (w_order w) rd rpc_client_new = Some c' \<and> cl_run w c' = None"
proof -
  let ?rd = "rd\<lparr>ri_id := 0\<rparr>"
  let ?hc = "snd (cache_read cache_mt_LRU_ops (ri_host_id rd) (host_cache rpc_client_new))"
  let ?c = "\<lparr>cl_queue = \<lparr>request_map = [], pending_map = [(req_key ?rd, ?rd)], request_id = 1\<rparr>, waiting_count = 1,
     host_cache = ?hc, io_ops = [Resolving ?rd], called_back = []\<rparr>"
  have "start_requests (w_order w) (rpc_client_new\<lparr>cl_queue := enqueue rd (cl_queue rpc_client_new)\<rparr>) =
      start_requests (w_order w) ?c"
    by (subst start_requests.simps)
      (simp add: rpc_client_new_def request_queue_new_def enqueue_def req_put_def dequeue_any_def req_take_def WAIT_LIMIT_def
        resolver_dispatch_def cache_read_def cache_init_def start_io_def mark_pending_def)
  also have "\<dots> = ?c"
    by (subst start_requests.simps) (simp add: dequeue_any_def req_take_def WAIT_LIMIT_def)
  finally have "cl_dispatch (w_order w) rd rpc_client_new = Some ?c" by (simp add: cl_dispatch_def handle_next_request_def)
  moreover have "complete_op w (Resolving ?rd) (?c\<lparr>io_ops := []\<rparr>) = None"
    using assms by (simp add: complete_op_def handle_resolve_def dequeue_pending_def split: prod.splits) (metis fst_conv)
  then have "cl_run w ?c = None" by (simp add: cl_run_def run_io.simps)
  ultimately show ?thesis by blast
qed

end
