(* ===== verification/Object_Handler.thy ===== *)
theory Object_Handler
  imports Range_Query Rpc_Client
begin

text \<open>
  \<open>client/object_handler.cpp\<close>: the client library's handle on a blob. It talks to the version
  manager, the provider manager and the providers by RPC and keeps the metadata tree in the DHT.

  Everything outside the client is an environment that may answer as it likes: every answer is a
  function of the call and of the log of all calls answered and all values stored before. The log
  also makes visible what an operation did. Calls that are dispatched together are answered in any
  order. What the callbacks get for an answer is \<open>managed_answer\<close> of \<open>Rpc_Wire\<close>.
\<close>

section \<open>The environment\<close>

text \<open>Only the sizes of the buffers a caller supplies for results matter.\<close>

record rpc_call =
  rc_host :: string
  rc_service :: string
  rc_name :: u32
  rc_params :: rpcvector_t
  rc_buffers :: rpcvector_t

text \<open>
  What an operation has done: a call with its answer, or a put with the error its callback got (zero
  for a value that was stored).
\<close>

datatype oh_event = Called rpc_call "rpcreturn_t \<times> rpcvector_t" | Put dht_put int

abbreviation Stored :: "dht_put \<Rightarrow> oh_event" where
  "Stored p \<equiv> Put p 0"

type_synonym oh_log = "oh_event list"

record env =
  en_answer :: "oh_log \<Rightarrow> rpc_call \<Rightarrow> rpcreturn_t \<times> rpcvector_t"
  en_pick :: "oh_log \<Rightarrow> nat"
  en_dht :: "oh_log \<Rightarrow> dht_values"
  en_dht_pick :: "oh_log \<Rightarrow> read_state \<Rightarrow> nat"
  en_put_error :: "oh_log \<Rightarrow> nat \<Rightarrow> int"
  en_rand :: "oh_log \<Rightarrow> nat \<Rightarrow> random_select \<Rightarrow> nat"
  en_rnd :: "oh_log \<Rightarrow> u32"
  en_assert :: bool

text \<open>
  What an operation of the library does: it returns, it throws an exception, or its behaviour is
  undefined (which includes a metadata operation that never ends).
\<close>

datatype 'a res = Ret 'a | Thr string | Und string

definition plain_call :: "string \<Rightarrow> string \<Rightarrow> u32 \<Rightarrow> rpcvector_t \<Rightarrow> rpc_call" where
  "plain_call h s n ps = \<lparr>rc_host = h, rc_service = s, rc_name = n, rc_params = ps, rc_buffers = []\<rparr>"

text \<open>\<open>dispatch\<close> of one call followed by \<open>run\<close>.\<close>

definition answer_call :: "env \<Rightarrow> rpc_call \<Rightarrow> oh_log \<Rightarrow> (rpcreturn_t \<times> rpcvector_t) \<times> oh_log" where
  "answer_call env c log =
     (let a = managed_answer (rc_buffers c) (en_answer env log c) in (a, log @ [Called c a]))"

text \<open>
  The callback that reads a value; the results are the flag and the value. An empty buffer makes
  \<open>getValue\<close> throw; the exception leaves the callback and is caught in \<open>run\<close>, with the flag
  still set. After a failed deserialisation the value is as before (in the code some of its members
  may have been read).
\<close>

definition rpc_get_serialized :: "archive \<Rightarrow> 'a ser \<Rightarrow> 'a \<Rightarrow> rpcreturn_t \<times> rpcvector_t \<Rightarrow> bool \<times> 'a" where
  "rpc_get_serialized ar s old a =
     (case a of (error, result) \<Rightarrow>
        if error = rpc_ok \<and> length result = 1
        then (case getValue ar s (result ! 0) of
                Got v \<Rightarrow> (True, v)
              | Got_false \<Rightarrow> (False, old)
              | Got_throws \<Rightarrow> (True, old))
        else (False, old))"

definition rpc_result_callback :: "rpcreturn_t \<times> rpcvector_t \<Rightarrow> bool" where
  "rpc_result_callback a \<longleftrightarrow> fst a = rpc_ok"

section \<open>The handler\<close>

record object_handler =
  oh_id :: u32
  latest_root :: root_t
  version_cache :: "(u32, root_t, u32 cache_mt_LRU) cache_mt"
  retry_count :: u32
  publisher_host :: string
  publisher_service :: string
  vmgr_host :: string
  vmgr_service :: string

text \<open>
  The handler after the configuration has been read. (The code leaves the identifier uninitialised.)
\<close>

definition object_handler_new :: "u32 \<Rightarrow> string \<Rightarrow> string \<Rightarrow> string \<Rightarrow> string \<Rightarrow> object_handler" where
  "object_handler_new retry ph ps vh vs =
     \<lparr>oh_id = 0, latest_root = root_t_make 0 0 0 0 0, version_cache = cache_init lru_init (push_bit 20 1),
      retry_count = retry, publisher_host = ph, publisher_service = ps, vmgr_host = vh, vmgr_service = vs\<rparr>"

definition vmgr_call :: "object_handler \<Rightarrow> u32 \<Rightarrow> rpcvector_t \<Rightarrow> rpc_call" where
  "vmgr_call oh n ps = plain_call (vmgr_host oh) (vmgr_service oh) n ps"

definition get_root ::
  "archive \<Rightarrow> env \<Rightarrow> u32 \<Rightarrow> root_t \<Rightarrow> object_handler \<Rightarrow> oh_log \<Rightarrow> bool \<times> root_t \<times> object_handler \<times> oh_log" where
  "get_root ar env version root oh log =
     (let (hit, vc) = (if version = 0 then (None, version_cache oh)
                       else cache_read cache_mt_LRU_ops version (version_cache oh));
          oh = oh\<lparr>version_cache := vc\<rparr>
      in case hit of
           Some r \<Rightarrow> (True, r, oh, log)
         | None \<Rightarrow>
             let (a, log) = answer_call env (vmgr_call oh VMGR_GETROOT
                   [buffer_wrapper ar (ar_u32 ar) (oh_id oh), buffer_wrapper ar (ar_u32 ar) version]) log;
                 (result, root) = rpc_get_serialized ar (ser_root ar) root a;
                 oh = (if result \<and> version \<noteq> 0
                       then oh\<lparr>version_cache := snd (snd (cache_write cache_mt_LRU_ops
                              (q_version (rt_node root)) root False (version_cache oh)))\<rparr>
                       else oh)
             in (result, root, oh, log))"

text \<open>The root a read works on, and the pages it needs, as in \<open>read\<close> and \<open>get_locations\<close>.\<close>

definition query_root_of ::
  "archive \<Rightarrow> env \<Rightarrow> u32 \<Rightarrow> object_handler \<Rightarrow> oh_log \<Rightarrow> bool \<times> root_t \<times> object_handler \<times> oh_log" where
  "query_root_of ar env version oh log =
     (if version = 0 then (True, latest_root oh, oh, log)
      else get_root ar env version (root_t_make 0 0 0 0 0) oh log)"

definition read_new_offset :: "u64 \<Rightarrow> u64 \<Rightarrow> u64" where
  "read_new_offset psize offset = offset div psize * psize"

definition read_nbr_vadv :: "u64 \<Rightarrow> u64 \<Rightarrow> u64 \<Rightarrow> u64" where
  "read_nbr_vadv psize offset sz =
     (sz + offset - read_new_offset psize offset) div psize + (if (offset + sz) mod psize = 0 then 0 else 1)"

definition read_guard :: "root_t \<Rightarrow> u32 \<Rightarrow> u64 \<Rightarrow> u64 \<Rightarrow> string option" where
  "read_guard root version offset sz =
     (if q_version (rt_node root) < version then Some ''version higher than latest available version''
      else if rt_page_size root = 0 then Some ''unallocated/uninitialized object''
      else if q_size (rt_node root) < offset + sz then Some ''beyond maximal size''
      else None)"

definition read_metadata ::
  "archive \<Rightarrow> env \<Rightarrow> root_t \<Rightarrow> u64 \<Rightarrow> u64 \<Rightarrow> oh_log \<Rightarrow> (bool \<times> random_select list) option" where
  "read_metadata ar env root offset sz log =
     (let nbr_vadv = read_nbr_vadv (rt_page_size root) offset sz;
          rng = \<lparr>q_id = q_id (rt_node root), q_version = q_version (rt_node root),
                 q_offset = read_new_offset (rt_page_size root) offset, q_size = nbr_vadv * rt_page_size root\<rparr>
      in readRecordLocations ar (en_dht env log) (en_dht_pick env log)
           (replicate (unat nbr_vadv) random_select_init) rng root)"

section \<open>Locations\<close>

record page_location_t =
  pl_provider :: provider_desc
  pl_offset :: u64
  pl_size :: u64

text \<open>The inner loop: all replicas of a page, in the order \<open>try_next\<close> draws them.\<close>

lemma length_remove_nth: "i < length xs \<Longrightarrow> length (take i xs @ drop (Suc i) xs) = length xs - 1"
  by simp

lemma try_next_left:
  assumes "try_next r rs = (adv, rs')"
  shows "length (rs_providers rs') = length (rs_providers rs) - 1"
proof (cases "rs_providers rs = []")
  case False
  then have "r mod length (rs_providers rs) < length (rs_providers rs)" by simp
  note len = length_remove_nth [OF this]
  show ?thesis using assms False by (auto simp: try_next_def Let_def len simp del: length_append)
qed (use assms in \<open>simp add: try_next_def\<close>)

lemma try_next_empty:
  "try_next r rs = (adv, rs') \<Longrightarrow> \<not> provider_desc_empty adv \<Longrightarrow> 0 < length (rs_providers rs)"
  by (auto simp: try_next_def provider_desc_empty_def provider_desc_default_def)

function drain_replicas :: "(random_select \<Rightarrow> nat) \<Rightarrow> random_select \<Rightarrow> provider_desc list" where
  "drain_replicas rnd rs =
     (case try_next (rnd rs) rs of (adv, rs') \<Rightarrow>
        if provider_desc_empty adv then [] else adv # drain_replicas rnd rs')"
  by auto
termination
  by (relation "measure (\<lambda>(rnd, rs). length (rs_providers rs))")
     (simp, metis in_measure case_prod_conv diff_less try_next_empty try_next_left zero_less_one)

declare drain_replicas.simps [simp del]

definition get_locations ::
  "archive \<Rightarrow> env \<Rightarrow> u64 \<Rightarrow> u64 \<Rightarrow> u32 \<Rightarrow> object_handler \<Rightarrow> oh_log
     \<Rightarrow> (bool \<times> page_location_t list) res \<times> object_handler \<times> oh_log" where
  "get_locations ar env offset sz version oh log =
     (case query_root_of ar env version oh log of (ok, root, oh, log) \<Rightarrow>
        if \<not> ok then (Ret (False, []), oh, log)
        else case read_guard root version offset sz of
          Some e \<Rightarrow> (Thr e, oh, log)
        | None \<Rightarrow>
            (case read_metadata ar env root offset sz log of
               None \<Rightarrow> (Und ''readRecordLocations'', oh, log)
             | Some (False, _) \<Rightarrow> (Ret (False, []), oh, log)
             | Some (True, vadv) \<Rightarrow>
                 (Ret (True, concat (map (\<lambda>i. map (\<lambda>adv. \<lparr>pl_provider = adv,
                                  pl_offset = of_nat i * rt_page_size root, pl_size = rt_page_size root\<rparr>)
                                (drain_replicas (en_rand env log i) (vadv ! i))) [0..<length vadv])), oh, log)))"

section \<open>Reading\<close>

text \<open>
  A call for a page or a part of one that waits for its answer, with the bound arguments of its
  callback: the position in \<open>vadv\<close> whose replicas are left, the kind of the call, the buffer used as
  the key in a retry, and the part of the user's buffer that takes the answer (its length is an
  \<open>unsigned int\<close>).
\<close>

record page_read =
  pr_index :: nat
  pr_type :: u32
  pr_key :: buffer
  pr_pos :: nat
  pr_len :: nat
  pr_call :: rpc_call

record pages_state =
  ps_pending :: "page_read list"
  ps_vadv :: "random_select list"
  ps_result :: bool
  ps_memory :: buffer
  ps_overrun :: bool
  ps_log :: oh_log

definition page_call :: "provider_desc \<Rightarrow> u32 \<Rightarrow> rpcvector_t \<Rightarrow> nat \<Rightarrow> rpc_call" where
  "page_call adv n ps len =
     \<lparr>rc_host = pd_host adv, rc_service = pd_service adv, rc_name = n, rc_params = ps,
      rc_buffers = [replicate len 0]\<rparr>"

definition memory_write :: "nat \<Rightarrow> buffer \<Rightarrow> buffer \<Rightarrow> buffer" where
  "memory_write pos bs mem = take pos mem @ bs @ drop (pos + length bs) mem"

definition next_replica :: "env \<Rightarrow> nat \<Rightarrow> pages_state \<Rightarrow> provider_desc \<times> pages_state" where
  "next_replica env i s =
     (case try_next (en_rand env (ps_log s) i (ps_vadv s ! i)) (ps_vadv s ! i) of (adv, rs) \<Rightarrow>
        (adv, s\<lparr>ps_vadv := (ps_vadv s)[i := rs]\<rparr>))"

text \<open>
  An answer has arrived. A successful one is in the user's buffer; what a failed call left there is
  not modelled (a later success overwrites it, and otherwise the read fails). A retry has the key
  buffer as its only parameter.
\<close>

definition rpc_provider_callback ::
  "env \<Rightarrow> page_read \<Rightarrow> rpcreturn_t \<times> rpcvector_t \<Rightarrow> pages_state \<Rightarrow> pages_state" where
  "rpc_provider_callback env p a s =
     (if fst a = rpc_ok \<and> length (snd a) = 1
      then if pr_len p = 0 then s
           else s\<lparr>ps_memory := memory_write (pr_pos p) (snd a ! 0) (ps_memory s),
                  ps_overrun := ps_overrun s \<or> length (ps_memory s) < pr_pos p + pr_len p\<rparr>
      else case next_replica env (pr_index p) s of (adv, s) \<Rightarrow>
        if provider_desc_empty adv then s\<lparr>ps_result := False\<rparr>
        else s\<lparr>ps_pending := ps_pending s @ [p\<lparr>pr_call := page_call adv (pr_type p) [pr_key p] (pr_len p)\<rparr>]\<rparr>)"

definition answer_page :: "env \<Rightarrow> pages_state \<Rightarrow> pages_state" where
  "answer_page env s =
     (let n = en_pick env (ps_log s) mod length (ps_pending s);
          p = ps_pending s ! n;
          (a, log) = answer_call env (pr_call p) (ps_log s)
      in rpc_provider_callback env p a
           (s\<lparr>ps_pending := take n (ps_pending s) @ drop (Suc n) (ps_pending s), ps_log := log\<rparr>))"

definition replicas_left :: "random_select list \<Rightarrow> nat" where
  "replicas_left vadv = sum_list (map (\<lambda>rs. length (rs_providers rs)) vadv)"

lemma replicas_left_update:
  "i < length vadv \<Longrightarrow>
     replicas_left (vadv[i := rs]) + length (rs_providers (vadv ! i)) = replicas_left vadv + length (rs_providers rs)"
  unfolding replicas_left_def by (induction vadv arbitrary: i) (auto simp: nth_Cons split: nat.splits)

text \<open>\<open>run\<close>, with the reads waiting. \<open>None\<close> would be a run that never ends.\<close>

partial_function (option) run_pages :: "env \<Rightarrow> pages_state \<Rightarrow> pages_state option" where
  "run_pages env s = (if ps_pending s = [] then Some s else run_pages env (answer_page env s))"

text \<open>
  A dispatch of \<open>read\<close>; \<open>None\<close> when the page has no provider, which makes \<open>read\<close> return. If
  calls have been dispatched before, their callbacks will then find neither \<open>vadv\<close> nor \<open>result\<close>.
\<close>

definition dispatch_page ::
  "env \<Rightarrow> nat \<Rightarrow> u32 \<Rightarrow> rpcvector_t \<Rightarrow> u64 \<Rightarrow> u64 \<Rightarrow> pages_state \<Rightarrow> pages_state option" where
  "dispatch_page env i n params pos len s =
     (case next_replica env i s of (adv, s) \<Rightarrow>
        if provider_desc_empty adv then None
        else let len = unat (ucast len :: u32)
             in Some (s\<lparr>ps_pending := ps_pending s @
                  [\<lparr>pr_index = i, pr_type = n, pr_key = last params, pr_pos = unat pos, pr_len = len,
                    pr_call = page_call adv n params len\<rparr>]\<rparr>))"

definition early_return :: "pages_state \<Rightarrow> bool res" where
  "early_return s = (if ps_pending s = [] then Ret False else Und ''callbacks outlive the read'')"

definition left_part :: "u64 \<Rightarrow> u64 \<Rightarrow> u64" where
  "left_part psize offset = (psize - offset mod psize) mod psize"

definition right_part :: "u64 \<Rightarrow> u64 \<Rightarrow> u64 \<Rightarrow> u64" where
  "right_part psize offset sz = (offset + sz) mod psize"

definition page_key_of :: "archive \<Rightarrow> pages_state \<Rightarrow> nat \<Rightarrow> buffer" where
  "page_key_of ar s i = dht_key ar (get_page_key (ps_vadv s ! i))"

definition dispatch_left ::
  "archive \<Rightarrow> env \<Rightarrow> u64 \<Rightarrow> u64 \<Rightarrow> u64 \<Rightarrow> pages_state \<Rightarrow> pages_state option" where
  "dispatch_left ar env psize offset sz s =
     (let lp = left_part psize offset; len = (if lp < sz then lp else sz)
      in dispatch_page env 0 PROVIDER_READ_PARTIAL
           [page_key_of ar s 0, buffer_wrapper ar (ar_u64 ar) (psize - lp), buffer_wrapper ar (ar_u64 ar) len] 0 len s)"

definition dispatch_right ::
  "archive \<Rightarrow> env \<Rightarrow> u64 \<Rightarrow> u64 \<Rightarrow> u64 \<Rightarrow> u32 \<Rightarrow> u32 \<Rightarrow> pages_state \<Rightarrow> pages_state option" where
  "dispatch_right ar env psize offset sz l r s =
     dispatch_page env (unat r) PROVIDER_READ_PARTIAL
       [page_key_of ar s (unat r), buffer_wrapper ar (ar_u64 ar) 0, buffer_wrapper ar (ar_u64 ar) (right_part psize offset sz)]
       (left_part psize offset + ucast (r - l) * psize) (right_part psize offset sz) s"

fun dispatch_aligned ::
  "archive \<Rightarrow> env \<Rightarrow> u64 \<Rightarrow> u64 \<Rightarrow> nat \<Rightarrow> nat list \<Rightarrow> pages_state \<Rightarrow> pages_state + pages_state" where
  "dispatch_aligned ar env psize offset l [] s = Inr s"
| "dispatch_aligned ar env psize offset l (i # is) s =
     (case dispatch_page env i PROVIDER_READ [page_key_of ar s i]
             (left_part psize offset + of_nat (i - l) * psize) psize s of
        None \<Rightarrow> Inl s
      | Some s' \<Rightarrow> dispatch_aligned ar env psize offset l is s')"

definition run_read :: "env \<Rightarrow> pages_state \<Rightarrow> bool res \<times> buffer \<times> oh_log" where
  "run_read env s =
     (case run_pages env s of
        None \<Rightarrow> (Und ''run'', ps_memory s, ps_log s)
      | Some s \<Rightarrow> (if ps_overrun s then Und ''write outside the buffer'' else Ret (ps_result s), ps_memory s, ps_log s))"

definition read_aligned ::
  "archive \<Rightarrow> env \<Rightarrow> u64 \<Rightarrow> u64 \<Rightarrow> u32 \<Rightarrow> u32 \<Rightarrow> pages_state \<Rightarrow> bool res \<times> buffer \<times> oh_log" where
  "read_aligned ar env psize offset l r s =
     (case dispatch_aligned ar env psize offset (unat l) [unat l..<unat r] s of
        Inl s \<Rightarrow> (early_return s, ps_memory s, ps_log s)
      | Inr s \<Rightarrow> run_read env s)"

text \<open>
  The second half of \<open>read\<close>: the left end, the right end, the pages between, and \<open>run\<close>.
  \<open>l\<close> and \<open>r\<close> are \<open>unsigned int\<close>s.
\<close>

definition read_right ::
  "archive \<Rightarrow> env \<Rightarrow> u64 \<Rightarrow> u64 \<Rightarrow> u64 \<Rightarrow> u32 \<Rightarrow> pages_state \<Rightarrow> bool res \<times> buffer \<times> oh_log" where
  "read_right ar env psize offset sz l s =
     (let r = of_nat (length (ps_vadv s)) :: u32 in
      if (offset + sz) mod psize \<noteq> 0 \<and> 1 < r \<or> offset mod psize = 0 \<and> sz < psize
      then let r = r - 1
           in if length (ps_vadv s) \<le> unat r then (Und ''vadv[r]'', ps_memory s, ps_log s)
              else case dispatch_right ar env psize offset sz l r s of
                     None \<Rightarrow> (early_return s, ps_memory s, ps_log s)
                   | Some s \<Rightarrow> read_aligned ar env psize offset l r s
      else read_aligned ar env psize offset l r s)"

definition read_pages ::
  "archive \<Rightarrow> env \<Rightarrow> u64 \<Rightarrow> u64 \<Rightarrow> u64 \<Rightarrow> pages_state \<Rightarrow> bool res \<times> buffer \<times> oh_log" where
  "read_pages ar env psize offset sz s =
     (if offset mod psize \<noteq> 0
      then if ps_vadv s = [] then (Und ''vadv[0]'', ps_memory s, ps_log s)
           else case dispatch_left ar env psize offset sz s of
                  None \<Rightarrow> (early_return s, ps_memory s, ps_log s)
                | Some s \<Rightarrow> read_right ar env psize offset sz 1 s
      else read_right ar env psize offset sz 0 s)"

definition oh_read ::
  "archive \<Rightarrow> env \<Rightarrow> u64 \<Rightarrow> u64 \<Rightarrow> buffer \<Rightarrow> u32 \<Rightarrow> object_handler \<Rightarrow> oh_log
     \<Rightarrow> bool res \<times> buffer \<times> object_handler \<times> oh_log" where
  "oh_read ar env offset sz mem version oh log =
     (case query_root_of ar env version oh log of (ok, root, oh, log) \<Rightarrow>
        if \<not> ok then (Ret False, mem, oh, log)
        else case read_guard root version offset sz of
          Some e \<Rightarrow> (Thr e, mem, oh, log)
        | None \<Rightarrow>
            (case read_metadata ar env root offset sz log of
               None \<Rightarrow> (Und ''readRecordLocations'', mem, oh, log)
             | Some (False, _) \<Rightarrow> (Ret False, mem, oh, log)
             | Some (True, vadv) \<Rightarrow>
                 (case read_pages ar env (rt_page_size root) offset sz
                         \<lparr>ps_pending = [], ps_vadv = vadv, ps_result = True, ps_memory = mem,
                          ps_overrun = False, ps_log = log\<rparr> of
                    (r, mem, log) \<Rightarrow> (r, mem, oh, log))))"

section \<open>Writing\<close>

text \<open>
  The bitset of the answers, and a page that is being written to a provider. \<open>adv[k]\<close> outside the
  list is undefined, as is a page outside the user's buffer. The 64-bit counters of the loop do not
  wrap for a buffer in memory. Positions in the list of providers are \<open>unsigned int\<close>: when the list
  reaches up to \<open>2 ^ 32\<close>, the comparison of \<open>k\<close> with the 64-bit \<open>j + replica_count\<close> always holds, or
  \<open>i += replica_count\<close> wraps around, and the loops need not end; this counts as undefined.
\<close>

record page_write =
  pw_k :: nat
  pw_key :: buffer
  pw_value :: buffer
  pw_retries :: u32
  pw_call :: rpc_call

record writes_state =
  ws_pending :: "page_write list"
  ws_results :: "bool list"
  ws_log :: oh_log

definition write_call :: "provider_desc \<Rightarrow> buffer \<Rightarrow> buffer \<Rightarrow> rpc_call" where
  "write_call adv key val = plain_call (pd_host adv) (pd_service adv) PROVIDER_WRITE [key, val]"

text \<open>The retry goes to the same provider.\<close>

definition rpc_write_callback :: "u32 \<Rightarrow> page_write \<Rightarrow> rpcreturn_t \<times> rpcvector_t \<Rightarrow> writes_state \<Rightarrow> writes_state" where
  "rpc_write_callback retry p a s =
     (let ok = (fst a = rpc_ok); s = s\<lparr>ws_results := (ws_results s)[pw_k p := ok]\<rparr>
      in if ok \<or> pw_retries p = retry then s
         else s\<lparr>ws_pending := ws_pending s @ [p\<lparr>pw_retries := pw_retries p + 1\<rparr>]\<rparr>)"

definition answer_write :: "env \<Rightarrow> u32 \<Rightarrow> writes_state \<Rightarrow> writes_state" where
  "answer_write env retry s =
     (let n = en_pick env (ws_log s) mod length (ws_pending s);
          p = ws_pending s ! n;
          (a, log) = answer_call env (pw_call p) (ws_log s)
      in rpc_write_callback retry p a
           (s\<lparr>ws_pending := take n (ws_pending s) @ drop (Suc n) (ws_pending s), ws_log := log\<rparr>))"

partial_function (option) run_writes :: "env \<Rightarrow> u32 \<Rightarrow> writes_state \<Rightarrow> writes_state option" where
  "run_writes env retry s = (if ws_pending s = [] then Some s else run_writes env retry (answer_write env retry s))"

definition page_count :: "u64 \<Rightarrow> u64 \<Rightarrow> nat" where
  "page_count psize sz = unat sz div unat psize + (if unat sz mod unat psize = 0 then 0 else 1)"

definition write_page_key :: "u32 \<Rightarrow> u32 \<Rightarrow> u64 \<Rightarrow> nat \<Rightarrow> query_t" where
  "write_page_key bid v psize i = \<lparr>q_id = bid, q_version = v, q_offset = of_nat i, q_size = psize\<rparr>"

text \<open>
  A page as \<open>buffer_wrapper\<close> takes it: its size is an \<open>unsigned int\<close>, which truncates the page size.
\<close>

definition page_value :: "u64 \<Rightarrow> buffer \<Rightarrow> nat \<Rightarrow> buffer" where
  "page_value psize buf i = take (unat (ucast psize :: u32)) (drop (i * unat psize) buf)"

definition page_writes ::
  "archive \<Rightarrow> u32 \<Rightarrow> u32 \<Rightarrow> u64 \<Rightarrow> nat \<Rightarrow> replica_list_t \<Rightarrow> buffer \<Rightarrow> nat \<Rightarrow> page_write list" where
  "page_writes ar bid v psize rc adv buf i =
     map (\<lambda>k. let key = dht_key ar (write_page_key bid v psize i);
                  val = page_value psize buf i
              in \<lparr>pw_k = k, pw_key = key, pw_value = val, pw_retries = 0, pw_call = write_call (adv ! k) key val\<rparr>)
       [i * rc..<i * rc + rc]"

text \<open>
  The loop that looks for a page without a replica; \<open>None\<close> is an access outside the bitset.
\<close>

function pages_written :: "nat \<Rightarrow> bool list \<Rightarrow> bool option" where
  "pages_written rc results =
     (if results = [] then Some True
      else if True \<in> set (take rc results) then pages_written rc (drop rc results)
      else if length results < rc then None
      else Some False)"
  by auto
termination
  by (relation "measure (\<lambda>(rc, results). length results)") (simp_all, metis diff_less empty_iff gr0I length_greater_0_conv list.set(1) take_0)

declare pages_written.simps [simp del]

definition put_events :: "(nat \<Rightarrow> int) \<Rightarrow> dht_put list \<Rightarrow> oh_log" where
  "put_events put_error puts = map2 Put puts (map put_error [0..<length puts])"

definition write_metadata ::
  "archive \<Rightarrow> env \<Rightarrow> vmgr_reply \<Rightarrow> query_t list \<Rightarrow> replica_list_t \<Rightarrow> object_handler \<Rightarrow> oh_log
     \<Rightarrow> bool res \<times> object_handler \<times> oh_log" where
  "write_metadata ar env reply node_deque adv oh log =
     (if vr_intervals reply = [] then (Und ''intervals.rbegin()'', oh, log)
      else let rng = fst (last (vr_intervals reply))
           in case writeRecordLocations ar (en_dht env log) (en_put_error env log) reply node_deque adv of
                None \<Rightarrow> (Und ''writeRecordLocations'', oh, log)
              | Some (ok, puts) \<Rightarrow>
                  let log = log @ put_events (en_put_error env log) puts
                  in if \<not> ok then (Ret False, oh, log)
                     else let (a, log) = answer_call env (vmgr_call oh VMGR_PUBLISH [dht_key ar rng]) log
                          in if rpc_result_callback a
                             then (Ret True, oh\<lparr>latest_root := (latest_root oh)\<lparr>rt_node :=
                                     (rt_node (latest_root oh))\<lparr>q_version := q_version rng\<rparr>\<rparr>\<rparr>, log)
                             else (Ret False, oh, log))"

definition vmgr_reply_default :: vmgr_reply where
  "vmgr_reply_default = \<lparr>vr_intervals = [], vr_root_size = 0, vr_stable_root = root_t_make 0 0 0 0 0\<rparr>"

definition write_ticket ::
  "archive \<Rightarrow> env \<Rightarrow> query_t \<Rightarrow> bool \<Rightarrow> query_t list \<Rightarrow> replica_list_t \<Rightarrow> object_handler \<Rightarrow> oh_log
     \<Rightarrow> bool res \<times> object_handler \<times> oh_log" where
  "write_ticket ar env rng is_append node_deque adv oh log =
     (let (a, log) = answer_call env (vmgr_call oh VMGR_GETTICKET
            [dht_key ar rng, buffer_wrapper ar (ar_bool ar) is_append]) log;
          (ok, reply) = rpc_get_serialized ar (ser_vmgr_reply ar) vmgr_reply_default a
      in if \<not> ok then (Ret False, oh, log) else write_metadata ar env reply node_deque adv oh log)"

definition exec_write ::
  "archive \<Rightarrow> env \<Rightarrow> u64 \<Rightarrow> u64 \<Rightarrow> buffer \<Rightarrow> bool \<Rightarrow> object_handler \<Rightarrow> oh_log
     \<Rightarrow> bool res \<times> object_handler \<times> oh_log" where
  "exec_write ar env offset sz buf is_append oh log =
     (let psize = rt_page_size (latest_root oh); rc = rt_replica_count (latest_root oh) in
      if psize = 0 then (Thr ''write attempt on unallocated/uninitialized object'', oh, log)
      else if en_assert env \<and> \<not> (offset mod psize = 0 \<and> sz mod psize = 0) then (Thr ''ASSERT'', oh, log)
      else
        let v = en_rnd env log;
            rng = \<lparr>q_id = oh_id oh, q_version = v, q_offset = offset, q_size = sz\<rparr>;
            wanted = sz div psize * ucast rc;
            (a, log) = answer_call env (plain_call (publisher_host oh) (publisher_service oh) PUBLISHER_GET
               [buffer_wrapper ar (ar_u64 ar) wanted, buffer_wrapper ar (ar_u32 ar) rc]) log;
            (ok, adv) = rpc_get_serialized ar (ser_replica_list ar) [] a
        in if \<not> ok \<or> length adv < unat wanted then (Ret False, oh, log)
           else
             let n = page_count psize sz in
             if n \<noteq> 0 \<and> length buf < (n - 1) * unat psize + unat (ucast psize :: u32) \<or> length adv < n * unat rc
             then (Und ''adv[k], buffer'', oh, log)
             else if 2 ^ 32 \<le> length adv + unat rc then (Und ''unsigned int k'', oh, log)
             else case run_writes env (retry_count oh)
                    \<lparr>ws_pending = concat (map (page_writes ar (oh_id oh) v psize (unat rc) adv buf) [0..<n]),
                     ws_results = replicate (length adv) False, ws_log = log\<rparr> of
                  None \<Rightarrow> (Und ''run'', oh, log)
                | Some s \<Rightarrow>
                    (case pages_written (unat rc) (ws_results s) of
                       None \<Rightarrow> (Und ''page_results[k]'', oh, ws_log s)
                     | Some False \<Rightarrow> (Ret False, oh, ws_log s)
                     | Some True \<Rightarrow>
                         write_ticket ar env rng is_append
                           (map (write_page_key (oh_id oh) v psize) [0..<n]) adv oh (ws_log s)))"

definition oh_append ::
  "archive \<Rightarrow> env \<Rightarrow> u64 \<Rightarrow> buffer \<Rightarrow> object_handler \<Rightarrow> oh_log \<Rightarrow> bool res \<times> object_handler \<times> oh_log" where
  "oh_append ar env sz buf oh log = exec_write ar env 0 sz buf True oh log"

definition oh_write ::
  "archive \<Rightarrow> env \<Rightarrow> u64 \<Rightarrow> u64 \<Rightarrow> buffer \<Rightarrow> object_handler \<Rightarrow> oh_log \<Rightarrow> bool res \<times> object_handler \<times> oh_log" where
  "oh_write ar env offset sz buf oh log = exec_write ar env offset sz buf False oh log"

section \<open>Creation, cloning and queries\<close>

definition oh_create ::
  "archive \<Rightarrow> env \<Rightarrow> u64 \<Rightarrow> u32 \<Rightarrow> object_handler \<Rightarrow> oh_log \<Rightarrow> bool \<times> object_handler \<times> oh_log" where
  "oh_create ar env psize rc oh log =
     (let (a, log) = answer_call env (vmgr_call oh VMGR_CREATE
            [buffer_wrapper ar (ar_u64 ar) psize, buffer_wrapper ar (ar_u32 ar) rc]) log;
          (result, root) = rpc_get_serialized ar (ser_root ar) (latest_root oh) a
      in (result, oh\<lparr>latest_root := root, oh_id := q_id (rt_node root)\<rparr>, log))"

definition oh_get_latest ::
  "archive \<Rightarrow> env \<Rightarrow> u32 \<Rightarrow> object_handler \<Rightarrow> oh_log \<Rightarrow> bool \<times> object_handler \<times> oh_log" where
  "oh_get_latest ar env bid oh log =
     (let oh = (if bid \<noteq> 0 then oh\<lparr>oh_id := bid\<rparr> else oh)
      in case get_root ar env 0 (latest_root oh) oh log of (result, root, oh, log) \<Rightarrow>
           (result, oh\<lparr>latest_root := root\<rparr>, log))"

text \<open>
  The number read is an \<open>int32_t\<close> that the code leaves uninitialised; \<open>junk\<close> is what is there.
\<close>

definition oh_get_objcount ::
  "archive \<Rightarrow> env \<Rightarrow> u32 \<Rightarrow> object_handler \<Rightarrow> oh_log \<Rightarrow> int \<times> oh_log" where
  "oh_get_objcount ar env junk oh log =
     (let (a, log) = answer_call env (vmgr_call oh VMGR_GETOBJNO []) log;
          (result, n) = rpc_get_serialized ar (ar_u32 ar) junk a
      in (if result then sint n else -1, log))"

definition oh_clone ::
  "archive \<Rightarrow> env \<Rightarrow> u32 \<Rightarrow> u32 \<Rightarrow> object_handler \<Rightarrow> oh_log \<Rightarrow> bool \<times> object_handler \<times> oh_log" where
  "oh_clone ar env bid version oh log =
     (let bid = (if bid = 0 then oh_id oh else bid);
          (a, log) = answer_call env (vmgr_call oh VMGR_CLONE
            [buffer_wrapper ar (ar_u32 ar) bid, buffer_wrapper ar (ar_u32 ar) version]) log;
          (result, root) = rpc_get_serialized ar (ser_root ar) (root_t_make 0 0 0 0 0) a
      in if result \<and> \<not> root_empty root
         then (True, oh\<lparr>latest_root := root\<lparr>rt_node := (rt_node root)\<lparr>q_id := oh_id oh\<rparr>\<rparr>,
                        oh_id := q_id (rt_node root)\<rparr>, log)
         else (False, oh, log))"

definition oh_get_size ::
  "archive \<Rightarrow> env \<Rightarrow> u32 \<Rightarrow> object_handler \<Rightarrow> oh_log \<Rightarrow> u64 \<times> object_handler \<times> oh_log" where
  "oh_get_size ar env version oh log =
     (if version = 0 then (rt_current_size (latest_root oh), oh, log)
      else case get_root ar env version (root_t_make 0 0 0 0 0) oh log of (ok, root, oh, log) \<Rightarrow>
        (if ok then rt_current_size root else 0, oh, log))"

definition oh_get_version :: "object_handler \<Rightarrow> u32" where
  "oh_get_version oh = q_version (rt_node (latest_root oh))"

definition oh_get_page_size :: "object_handler \<Rightarrow> u64" where
  "oh_get_page_size oh = rt_page_size (latest_root oh)"

definition oh_get_id :: "object_handler \<Rightarrow> u32" where
  "oh_get_id oh = oh_id oh"

end
