(* ===== verification/Range_Read.thy ===== *)
theory Range_Read
  imports Range_Query
begin

text \<open>
  What a stored tree means, and that a read finds it. \<open>represents\<close> says that the tree below a
  node key describes a partial function from page numbers to pages (page key and providers);
  \<open>readRecordLocations\<close> then returns these pages for a range, whatever the order in which
  the DHT answers.
\<close>

type_synonym page_info = "query_t \<times> replica_list_t"
type_synonym page_map = "nat \<rightharpoonup> page_info"

text \<open>
  A child that was never written is the default key, or, once a writer has copied it from an
  older tree, the key of the node for blob 0 and version 0. No blob has the identifier 0.
\<close>

definition hole :: "u64 \<Rightarrow> nat \<Rightarrow> nat \<Rightarrow> query_t \<Rightarrow> bool" where
  "hole ps k i q \<longleftrightarrow> q = query_t_default \<or> q = nodeq ps 0 0 k i"

definition leaf_info :: "archive \<Rightarrow> dht_values \<Rightarrow> query_t \<Rightarrow> page_info option" where
  "leaf_info ar g q =
     (case read_node ar (g (dht_key ar q)) of
        None \<Rightarrow> None
      | Some node \<Rightarrow>
          if \<not> nd_is_leaf node \<or> g (dht_key ar (nd_left node)) = [] then None
          else case getValue ar (ser_replica_list ar) (g (dht_key ar (nd_left node))) of
                 Got providers \<Rightarrow> Some (nd_left node, providers)
               | _ \<Rightarrow> None)"

fun represents ::
  "archive \<Rightarrow> dht_values \<Rightarrow> u64 \<Rightarrow> nat \<Rightarrow> nat \<Rightarrow> query_t \<Rightarrow> page_map \<Rightarrow> bool" where
  "represents ar g ps 0 i q f \<longleftrightarrow>
     hole ps 0 i q \<and> f i = None \<or>
     at_node ps 0 i q \<and> f i \<noteq> None \<and> leaf_info ar g q = f i"
| "represents ar g ps (Suc k) i q f \<longleftrightarrow>
     hole ps (Suc k) i q \<and> (\<forall>p \<in> {i * 2 ^ Suc k..<Suc i * 2 ^ Suc k}. f p = None) \<or>
     at_node ps (Suc k) i q \<and>
       (\<exists>node. read_node ar (g (dht_key ar q)) = Some node \<and> \<not> nd_is_leaf node \<and>
          represents ar g ps k (2 * i) (nd_left node) f \<and>
          represents ar g ps k (2 * i + 1) (nd_right node) f)"

definition no_zero_keys :: "archive \<Rightarrow> dht_values \<Rightarrow> bool" where
  "no_zero_keys ar g \<longleftrightarrow>
     (\<forall>q. q_id q = 0 \<and> q_version q = 0 \<longrightarrow> read_node ar (g (dht_key ar q)) = None)"

section \<open>General facts\<close>

lemma child_pages:
  "{i * 2 ^ Suc k..<Suc i * 2 ^ Suc k} =
     {2 * i * 2 ^ k..<Suc (2 * i) * 2 ^ k} \<union> {Suc (2 * i) * 2 ^ k..<Suc (Suc (2 * i)) * (2 :: nat) ^ k}"
  by (auto simp: algebra_simps)

lemma represents_cong:
  assumes "represents ar g ps k i q f" and "\<And>p. i * 2 ^ k \<le> p \<Longrightarrow> p < Suc i * 2 ^ k \<Longrightarrow> f p = f' p"
  shows "represents ar g ps k i q f'"
  using assms
proof (induction k arbitrary: i q)
  case (Suc k)
  have "f p = f' p" if "2 * i * 2 ^ k \<le> p" "p < Suc (2 * i) * 2 ^ k" for p
    using Suc.prems(2) [of p] that by (simp add: algebra_simps)
  moreover have "f p = f' p" if "Suc (2 * i) * 2 ^ k \<le> p" "p < Suc (Suc (2 * i)) * 2 ^ k" for p
    using Suc.prems(2) [of p] that by (simp add: algebra_simps)
  ultimately show ?case
    using Suc.prems Suc.IH [of "2 * i"] Suc.IH [of "Suc (2 * i)"] by fastforce
qed force

text \<open>Values in a DHT are never changed, and more keys may be added.\<close>

definition extends :: "dht_values \<Rightarrow> dht_values \<Rightarrow> bool" where
  "extends g g' \<longleftrightarrow> (\<forall>b. g b \<noteq> [] \<longrightarrow> g' b = g b)"

lemma extends_refl [simp]: "extends g g"
  by (simp add: extends_def)

lemma read_node_extends:
  "extends g g' \<Longrightarrow> read_node ar (g b) = Some node \<Longrightarrow> read_node ar (g' b) = Some node"
  by (auto simp: extends_def read_node_def split: if_splits)

lemma leaf_info_extends:
  "extends g g' \<Longrightarrow> leaf_info ar g q = Some x \<Longrightarrow> leaf_info ar g' q = Some x"
  by (auto simp: leaf_info_def extends_def read_node_extends read_node_def
      split: option.splits if_splits got.splits)

lemma represents_extends:
  "represents ar g ps k i q f \<Longrightarrow> extends g g' \<Longrightarrow> represents ar g' ps k i q f"
proof (induction k arbitrary: i q)
  case 0
  then show ?case using leaf_info_extends by fastforce
next
  case (Suc k)
  then show ?case using read_node_extends by fastforce
qed

lemma represents_geometry:
  "represents ar g ps k i q f \<Longrightarrow> q = query_t_default \<or> at_node ps k i q"
  by (cases k) (auto simp: hole_def)

lemma not_intersects_default [simp]: "\<not> intersects query_t_default q"
  by (simp add: intersects_def query_t_default_def)

section \<open>The reader\<close>

declare run_reads.simps [simp del]

text \<open>
  A request is sound when its answer brings the pages of its node into the result; the pages it
  stands for.
\<close>

fun sound_request ::
  "archive \<Rightarrow> dht_values \<Rightarrow> u64 \<Rightarrow> nat \<Rightarrow> nat \<Rightarrow> nat \<Rightarrow> page_map \<Rightarrow> read_request \<Rightarrow> bool" where
  "sound_request ar g ps K a b f (Get_node q off) \<longleftrightarrow>
     (\<exists>k i. at_node ps k i q \<and> represents ar g ps k i q f \<and> off = pw ps (i * 2 ^ k) \<and>
        Suc i * 2 ^ k \<le> 2 ^ K \<and> meets k i a b)"
| "sound_request ar g ps K a b f (Get_leaf key index) \<longleftrightarrow>
     (\<exists>p. a \<le> p \<and> p < b \<and> index = of_nat (p - a) \<and>
        (\<exists>prov. f p = Some (key, prov) \<and> g (dht_key ar key) \<noteq> [] \<and>
           getValue ar (ser_replica_list ar) (g (dht_key ar key)) = Got prov))"

fun covers :: "u64 \<Rightarrow> nat \<Rightarrow> read_request \<Rightarrow> nat \<Rightarrow> bool" where
  "covers ps a (Get_node q off) p \<longleftrightarrow>
     q_offset q \<le> pw ps p \<and> pw ps p < q_offset q + q_size q"
| "covers ps a (Get_leaf key index) p \<longleftrightarrow> a \<le> p \<and> index = of_nat (p - a)"

fun weight :: "u64 \<Rightarrow> read_request \<Rightarrow> nat" where
  "weight ps (Get_node q off) = 4 * (unat (q_size q) div unat ps) - 1"
| "weight ps (Get_leaf key index) = 1"

definition page_result :: "page_info \<Rightarrow> random_select" where
  "page_result x = \<lparr>rs_providers = snd x, rs_page_key = fst x\<rparr>"

definition read_inv ::
  "archive \<Rightarrow> dht_values \<Rightarrow> u64 \<Rightarrow> nat \<Rightarrow> nat \<Rightarrow> nat \<Rightarrow> page_map \<Rightarrow> random_select list \<Rightarrow> read_state \<Rightarrow> bool" where
  "read_inv ar g ps K a b f leaves s \<longleftrightarrow>
     length (rd_leaves s) = length leaves \<and>
     (\<forall>r \<in> set (rd_pending s). sound_request ar g ps K a b f r) \<and>
     (\<not> rd_result s \<longrightarrow> (\<exists>p. a \<le> p \<and> p < b \<and> f p = None)) \<and>
     (rd_result s \<longrightarrow> (\<forall>p x. a \<le> p \<longrightarrow> p < b \<longrightarrow> f p = Some x \<longrightarrow>
        (\<exists>r \<in> set (rd_pending s). covers ps a r p) \<or> rd_leaves s ! (p - a) = page_result x)) \<and>
     (\<forall>p. a \<le> p \<longrightarrow> p < b \<longrightarrow> f p = None \<longrightarrow> rd_leaves s ! (p - a) = leaves ! (p - a))"

lemma unat_node_size:
  "fits ps (2 ^ K) \<Longrightarrow> Suc i * 2 ^ k \<le> 2 ^ K \<Longrightarrow> at_node ps k i q \<Longrightarrow>
     unat (q_size q) div unat ps = 2 ^ k"
  using node_bounds(2) [of i k K] unat_ps_pos [of ps "2 ^ K"] by (simp add: at_node_def unat_pw)

lemma covers_node:
  assumes "fits ps (2 ^ K)" "Suc i * 2 ^ k \<le> 2 ^ K" "at_node ps k i q" "p \<le> 2 ^ K"
  shows "covers ps a (Get_node q off) p \<longleftrightarrow> i * 2 ^ k \<le> p \<and> p < Suc i * 2 ^ k"
proof -
  note b = node_bounds [OF assms(2)]
  have q: "q_offset q = pw ps (i * 2 ^ k)" "q_offset q + q_size q = pw ps (i * 2 ^ k + 2 ^ k)"
    using assms(3) by (simp_all add: at_node_def pw_add)
  show ?thesis unfolding covers.simps q(2) unfolding q(1)
    unfolding pw_order(1) [OF assms(1) b(1) assms(4)] pw_order(2) [OF assms(1) assms(4) b(3)]
    by (simp add: add.commute)
qed

lemma sound_child:
  assumes "represents ar g ps k i q f" and "intersects q rng"
    and "fits ps (2 ^ K)" "q_offset rng = pw ps a" "q_size rng = pw ps (b - a)" "a < b" "b \<le> 2 ^ K"
    and "Suc i * 2 ^ k \<le> 2 ^ K"
  shows "sound_request ar g ps K a b f (Get_node q (q_offset q))" and "at_node ps k i q"
proof -
  show at: "at_node ps k i q"
    using represents_geometry [OF assms(1)] assms(2) by auto
  have "meets k i a b" using intersects_node(1) [OF assms(3) at assms(8) assms(4-7)] assms(2) by simp
  then show "sound_request ar g ps K a b f (Get_node q (q_offset q))"
    using at assms(1,8) by (auto simp: at_node_def)
qed

lemma not_met_child:
  assumes "represents ar g ps k i q f" and "\<not> intersects q rng"
    and "fits ps (2 ^ K)" "q_offset rng = pw ps a" "q_size rng = pw ps (b - a)" "a < b" "b \<le> 2 ^ K"
    and "Suc i * 2 ^ k \<le> 2 ^ K" and "i * 2 ^ k \<le> p" "p < Suc i * 2 ^ k" "a \<le> p" "p < b"
  shows "f p = None"
proof (cases "at_node ps k i q")
  case True
  have "meets k i a b" using assms(9-12) by (simp add: meets_def)
  then show ?thesis
    using intersects_node(1) [OF assms(3) True assms(8) assms(4-7)] assms(2) by simp
next
  case False
  then show ?thesis using assms(1,9,10) by (cases k) (auto simp: less_Suc_eq)
qed

lemma ucast_of_nat_u32: "ucast (of_nat n :: u64) = (of_nat n :: u32)"
  by transfer (simp add: take_bit_of_nat)

text \<open>The answer to a request for a node that was never written, for a leaf, for an inner node.\<close>

lemma deliver_hole:
  assumes "hole ps k i q" "at_node ps k i q" "represents ar g ps k i q f" "meets k i a b" "a < b"
    and "fits ps (2 ^ K)" "Suc i * 2 ^ k \<le> 2 ^ K" and "no_zero_keys ar g" "rd_result s"
  shows "\<exists>p. a \<le> p \<and> p < b \<and> f p = None"
    and "deliver ar g rng ps (Get_node q off) s = Some (s\<lparr>rd_result := False\<rparr>)"
proof -
  have id0: "q_id q = 0" "q_version q = 0"
    using assms(1) by (auto simp: hole_def query_t_default_def)
  then have none: "read_node ar (g (dht_key ar q)) = None" using assms(8) by (simp add: no_zero_keys_def)
  let ?p = "max a (i * 2 ^ k)"
  have "f ?p = None"
    using assms(3,4) none
    by (cases k) (auto simp: meets_def max_def leaf_info_def less_Suc_eq split: if_splits)
  then show "\<exists>p. a \<le> p \<and> p < b \<and> f p = None"
    using assms(4,5) by (intro exI [of _ ?p]) (auto simp: meets_def)
  show "deliver ar g rng ps (Get_node q off) s = Some (s\<lparr>rd_result := False\<rparr>)"
    using none assms(9) by (simp add: deliver_def read_callback_def)
qed

lemma deliver_leaf_node:
  assumes "fits ps (2 ^ K)" "q_offset rng = pw ps a" "a \<le> i" "i < b" "b \<le> 2 ^ K" and ok: "rd_result s"
    and "represents ar g ps 0 i q f" "\<not> hole ps 0 i q"
  obtains key where
    "deliver ar g rng ps (Get_node q (pw ps i)) s =
       Some (s\<lparr>rd_pending := rd_pending s @ [Get_leaf key (of_nat (i - a))]\<rparr>)"
    "sound_request ar g ps K a b f (Get_leaf key (of_nat (i - a)))"
proof -
  have "leaf_info ar g q = f i" "f i \<noteq> None" using assms(7,8) by auto
  then obtain node prov where node: "read_node ar (g (dht_key ar q)) = Some node" "nd_is_leaf node"
    and prov: "g (dht_key ar (nd_left node)) \<noteq> []"
      "getValue ar (ser_replica_list ar) (g (dht_key ar (nd_left node))) = Got prov"
      "f i = Some (nd_left node, prov)"
    by (auto simp: leaf_info_def split: option.splits if_splits got.splits)
  have "(pw ps i - q_offset rng) div ps = of_nat (i - a)"
    using pw_div_ps [OF assms(1), of "i - a"] assms(2-5) by (simp add: pw_diff)
  then have "deliver ar g rng ps (Get_node q (pw ps i)) s =
      Some (s\<lparr>rd_pending := rd_pending s @ [Get_leaf (nd_left node) (of_nat (i - a))]\<rparr>)"
    using ok node assms(1) by (simp add: deliver_def read_callback_def fits_def ucast_of_nat_u32)
  moreover have "sound_request ar g ps K a b f (Get_leaf (nd_left node) (of_nat (i - a)))"
    using prov assms(3,4) by auto
  ultimately show thesis by (rule that)
qed

lemma child_request:
  assumes rngs: "fits ps (2 ^ K)" "q_offset rng = pw ps a" "q_size rng = pw ps (b - a)" "a < b" "b \<le> 2 ^ K"
    and rep: "represents ar g ps k i q f" and bnd: "Suc i * 2 ^ k \<le> 2 ^ K"
    and new: "new = (if intersects q rng then [Get_node q (q_offset q)] else [])"
  shows "\<forall>r \<in> set new. sound_request ar g ps K a b f r"
    and "sum_list (map (weight ps) new) \<le> 4 * 2 ^ k - 1"
    and "a \<le> p \<Longrightarrow> p < b \<Longrightarrow> f p = Some x \<Longrightarrow> i * 2 ^ k \<le> p \<Longrightarrow> p < Suc i * 2 ^ k \<Longrightarrow>
           \<exists>r \<in> set new. covers ps a r p"
proof -
  note s = sound_child [OF rep _ rngs bnd]
  show "\<forall>r \<in> set new. sound_request ar g ps K a b f r"
    using s(1) new by (auto simp del: sound_request.simps split: if_splits)
  show "sum_list (map (weight ps) new) \<le> 4 * 2 ^ k - 1"
    using new unat_node_size [OF rngs(1) bnd s(2)] by (auto split: if_splits)
  assume p: "a \<le> p" "p < b" "f p = Some x" "i * 2 ^ k \<le> p" "p < Suc i * 2 ^ k"
  then have "intersects q rng" using not_met_child [OF rep _ rngs bnd] by fastforce
  then show "\<exists>r \<in> set new. covers ps a r p"
    using covers_node [OF rngs(1) bnd s(2), of p a] p rngs(5) new by (auto simp del: covers.simps)
qed

lemma deliver_inner_node:
  assumes rngs: "fits ps (2 ^ K)" "q_offset rng = pw ps a" "q_size rng = pw ps (b - a)" "a < b" "b \<le> 2 ^ K"
    and ok: "rd_result s" and rep: "represents ar g ps (Suc k) i q f" "\<not> hole ps (Suc k) i q"
    and bnd: "Suc i * 2 ^ Suc k \<le> 2 ^ K"
  obtains new where
    "deliver ar g rng ps (Get_node q off) s = Some (s\<lparr>rd_pending := rd_pending s @ new\<rparr>)"
    "\<forall>r \<in> set new. sound_request ar g ps K a b f r"
    "\<And>p x. a \<le> p \<Longrightarrow> p < b \<Longrightarrow> f p = Some x \<Longrightarrow> i * 2 ^ Suc k \<le> p \<Longrightarrow> p < Suc i * 2 ^ Suc k \<Longrightarrow>
       \<exists>r \<in> set new. covers ps a r p"
    "sum_list (map (weight ps) new) < 4 * 2 ^ Suc k - 1"
proof -
  obtain node where node: "read_node ar (g (dht_key ar q)) = Some node" "\<not> nd_is_leaf node"
    and l: "represents ar g ps k (2 * i) (nd_left node) f"
    and r: "represents ar g ps k (Suc (2 * i)) (nd_right node) f"
    using rep by auto
  have bl: "Suc (2 * i) * 2 ^ k \<le> 2 ^ K" and br: "Suc (Suc (2 * i)) * 2 ^ k \<le> 2 ^ K"
    using bnd by (simp_all add: algebra_simps)
  define L where "L = (if intersects (nd_left node) rng
    then [Get_node (nd_left node) (q_offset (nd_left node))] else [])"
  define R where "R = (if intersects (nd_right node) rng
    then [Get_node (nd_right node) (q_offset (nd_right node))] else [])"
  note left = child_request [OF rngs l bl L_def] and right = child_request [OF rngs r br R_def]
  show thesis
  proof (rule that [of "L @ R"])
    show "deliver ar g rng ps (Get_node q off) s = Some (s\<lparr>rd_pending := rd_pending s @ L @ R\<rparr>)"
      using ok node by (simp add: deliver_def read_callback_def L_def R_def)
    show "\<forall>r \<in> set (L @ R). sound_request ar g ps K a b f r" using left(1) right(1) by auto
    show "sum_list (map (weight ps) (L @ R)) < 4 * 2 ^ Suc k - 1"
      using left(2) right(2) one_le_power [of "2 :: nat" k]
      unfolding map_append sum_list_append power_Suc by linarith
    fix p x assume p: "a \<le> p" "p < b" "f p = Some x" "i * 2 ^ Suc k \<le> p" "p < Suc i * 2 ^ Suc k"
    show "\<exists>r \<in> set (L @ R). covers ps a r p"
    proof (cases "p < Suc (2 * i) * 2 ^ k")
      case True
      then show ?thesis using left(3) [OF p(1-3)] p(4) by (auto simp: algebra_simps)
    next
      case False
      then show ?thesis using right(3) [OF p(1-3)] p(5) by (auto simp: algebra_simps)
    qed
  qed
qed

lemma deliver_node:
  assumes rngs: "fits ps (2 ^ K)" "q_offset rng = pw ps a" "q_size rng = pw ps (b - a)" "a < b" "b \<le> 2 ^ K"
    and zero: "no_zero_keys ar g" and ok: "rd_result s"
    and sound: "sound_request ar g ps K a b f (Get_node q off)"
  obtains "(\<exists>p. a \<le> p \<and> p < b \<and> f p = None)"
      "deliver ar g rng ps (Get_node q off) s = Some (s\<lparr>rd_result := False\<rparr>)"
  | new where "deliver ar g rng ps (Get_node q off) s = Some (s\<lparr>rd_pending := rd_pending s @ new\<rparr>)"
      "\<forall>r \<in> set new. sound_request ar g ps K a b f r"
      "\<And>p x. a \<le> p \<Longrightarrow> p < b \<Longrightarrow> f p = Some x \<Longrightarrow> covers ps a (Get_node q off) p \<Longrightarrow>
         \<exists>r \<in> set new. covers ps a r p"
      "sum_list (map (weight ps) new) < weight ps (Get_node q off)"
proof -
  from sound obtain k i where at: "at_node ps k i q" and rep: "represents ar g ps k i q f"
    and off: "off = pw ps (i * 2 ^ k)" and bnd: "Suc i * 2 ^ k \<le> 2 ^ K" and met: "meets k i a b"
    by auto
  have cov: "i * 2 ^ k \<le> p \<and> p < Suc i * 2 ^ k" if "covers ps a (Get_node q off) p" "p < b" for p
    using covers_node [OF rngs(1) bnd at, of p a off] that rngs(5) by auto
  have wt: "weight ps (Get_node q off) = 4 * 2 ^ k - 1"
    using unat_node_size [OF rngs(1) bnd at] by simp
  show thesis
  proof (cases "hole ps k i q")
    case True
    show thesis
      using deliver_hole [OF True at rep met rngs(4,1) bnd zero ok] by (rule that(1))
  next
    case False
    show thesis
    proof (cases k)
      case 0
      have "a \<le> i" "i < b" using met 0 by (auto simp: meets_def)
      from deliver_leaf_node [OF rngs(1,2) this rngs(5) ok rep [unfolded 0] False [unfolded 0]]
      obtain key where del: "deliver ar g rng ps (Get_node q (pw ps i)) s =
          Some (s\<lparr>rd_pending := rd_pending s @ [Get_leaf key (of_nat (i - a))]\<rparr>)"
        "sound_request ar g ps K a b f (Get_leaf key (of_nat (i - a)))" .
      have "p = i" if "covers ps a (Get_node q off) p" "p < b" for p using cov [OF that] 0 by simp
      moreover have "covers ps a (Get_leaf key (of_nat (i - a))) i" using met 0 by (simp add: meets_def)
      ultimately show thesis
        by (intro that(2) [of "[Get_leaf key (of_nat (i - a))]"])
          (use off 0 del wt in \<open>auto simp del: sound_request.simps covers.simps\<close>)
    next
      case (Suc k')
      from deliver_inner_node [OF rngs ok rep [unfolded Suc] False [unfolded Suc] bnd [unfolded Suc]]
      show thesis using that(2) cov wt unfolding Suc by metis
    qed
  qed
qed

lemma deliver_leaf:
  assumes "b - a \<le> length (rd_leaves s)" "b - a < 2 ^ 32" "rd_result s"
    and sound: "sound_request ar g ps K a b f (Get_leaf key index)"
  obtains p x where "a \<le> p" "p < b" "index = of_nat (p - a)" "f p = Some x"
    "deliver ar g rng ps (Get_leaf key index) s =
       Some (s\<lparr>rd_leaves := (rd_leaves s)[p - a := page_result x]\<rparr>)"
proof -
  from sound obtain p prov where p: "a \<le> p" "p < b" "index = of_nat (p - a)" "f p = Some (key, prov)"
    and val: "g (dht_key ar key) \<noteq> []" "getValue ar (ser_replica_list ar) (g (dht_key ar key)) = Got prov"
    by auto
  have "p - a < 2 ^ 32" using p assms(2) by linarith
  then have idx: "unat index = p - a" unfolding p(3) by (simp only: unat_of_nat) simp
  have upd: "r\<lparr>rs_page_key := key, rs_providers := prov\<rparr> = page_result (key, prov)" for r
    by (cases r) (simp add: page_result_def)
  have res: "s\<lparr>rd_leaves := l, rd_result := True\<rparr> = s\<lparr>rd_leaves := l\<rparr>" for l
    using assms(3) by (cases s) simp
  have "deliver ar g rng ps (Get_leaf key index) s =
      Some (s\<lparr>rd_leaves := (rd_leaves s)[p - a := page_result (key, prov)]\<rparr>)"
    using p(1,2) val assms(1,3)
    by (simp add: deliver_def leaf_callback_def set_providers_def idx upd res)
  with p show thesis by (rule that)
qed

text \<open>How each answer changes the state of a read.\<close>

lemma read_invD:
  assumes "read_inv ar g ps K a b f leaves s"
  shows "length (rd_leaves s) = length leaves"
    and "r \<in> set (rd_pending s) \<Longrightarrow> sound_request ar g ps K a b f r"
    and "\<not> rd_result s \<Longrightarrow> \<exists>p. a \<le> p \<and> p < b \<and> f p = None"
    and "rd_result s \<Longrightarrow> a \<le> p \<Longrightarrow> p < b \<Longrightarrow> f p = Some x \<Longrightarrow>
           (\<exists>r \<in> set (rd_pending s). covers ps a r p) \<or> rd_leaves s ! (p - a) = page_result x"
    and "a \<le> p \<Longrightarrow> p < b \<Longrightarrow> f p = None \<Longrightarrow> rd_leaves s ! (p - a) = leaves ! (p - a)"
  using assms unfolding read_inv_def by blast+

lemma read_invI:
  assumes "length (rd_leaves s) = length leaves"
    and "\<And>r. r \<in> set (rd_pending s) \<Longrightarrow> sound_request ar g ps K a b f r"
    and "\<not> rd_result s \<Longrightarrow> \<exists>p. a \<le> p \<and> p < b \<and> f p = None"
    and "\<And>p x. rd_result s \<Longrightarrow> a \<le> p \<Longrightarrow> p < b \<Longrightarrow> f p = Some x \<Longrightarrow>
           (\<exists>r \<in> set (rd_pending s). covers ps a r p) \<or> rd_leaves s ! (p - a) = page_result x"
    and "\<And>p. a \<le> p \<Longrightarrow> p < b \<Longrightarrow> f p = None \<Longrightarrow> rd_leaves s ! (p - a) = leaves ! (p - a)"
  shows "read_inv ar g ps K a b f leaves s"
  using assms unfolding read_inv_def by blast

lemma read_inv_replace:
  assumes "read_inv ar g ps K a b f leaves s" "rd_pending s = xs @ r # ys"
    and "\<forall>r \<in> set new. sound_request ar g ps K a b f r"
    and "\<And>p x. a \<le> p \<Longrightarrow> p < b \<Longrightarrow> f p = Some x \<Longrightarrow> covers ps a r p \<Longrightarrow> \<exists>r \<in> set new. covers ps a r p"
  shows "read_inv ar g ps K a b f leaves (s\<lparr>rd_pending := xs @ ys @ new\<rparr>)"
proof (rule read_invI)
  fix p x assume p: "rd_result (s\<lparr>rd_pending := xs @ ys @ new\<rparr>)" "a \<le> p" "p < b" "f p = Some x"
  show "(\<exists>r \<in> set (rd_pending (s\<lparr>rd_pending := xs @ ys @ new\<rparr>)). covers ps a r p) \<or>
      rd_leaves (s\<lparr>rd_pending := xs @ ys @ new\<rparr>) ! (p - a) = page_result x"
    using read_invD(4) [OF assms(1) _ p(2-4)] assms(4) [OF p(2-4)] p(1)
    by (simp add: assms(2) del: covers.simps) blast
next
  fix r' assume "r' \<in> set (rd_pending (s\<lparr>rd_pending := xs @ ys @ new\<rparr>))"
  then show "sound_request ar g ps K a b f r'"
    using assms(3) read_invD(2) [OF assms(1), of r'] by (auto simp: assms(2) simp del: sound_request.simps)
qed (use read_invD(1,3,5) [OF assms(1)] in simp_all)

lemma read_inv_fail:
  assumes "read_inv ar g ps K a b f leaves s" "rd_pending s = xs @ r # ys"
    and "\<not> rd_result s \<or> (\<exists>p. a \<le> p \<and> p < b \<and> f p = None)"
  shows "read_inv ar g ps K a b f leaves (s\<lparr>rd_pending := xs @ ys, rd_result := False\<rparr>)"
  using assms by (auto simp: read_inv_def simp del: sound_request.simps)

lemma read_inv_set_page:
  assumes "read_inv ar g ps K a b f leaves s" "rd_pending s = xs @ Get_leaf key (of_nat (p - a)) # ys"
    and "a \<le> p" "p < b" "f p = Some x" "b - a \<le> length leaves" "b - a < 2 ^ 32"
  shows "read_inv ar g ps K a b f leaves
           (s\<lparr>rd_pending := xs @ ys, rd_leaves := (rd_leaves s)[p - a := page_result x]\<rparr>)"
proof -
  have len: "p - a < length (rd_leaves s)" using assms by (simp add: read_inv_def)
  have other: "(rd_leaves s)[p - a := page_result x] ! (p' - a) =
      (if p' = p then page_result x else rd_leaves s ! (p' - a))" if "a \<le> p'" for p'
    using len that assms(3) by (auto simp: nth_list_update)
  have same: "p' = p" if "a \<le> p'" "p' < b" "(of_nat (p - a) :: u32) = of_nat (p' - a)" for p'
  proof -
    have "p - a < 2 ^ 32" "p' - a < 2 ^ 32" using that assms(4,7) by linarith+
    then have "p - a = p' - a"
      using arg_cong [OF that(3), of unat] by (simp only: unat_of_nat) simp
    then show ?thesis using that(1) assms(3) by linarith
  qed
  have "(\<exists>r \<in> set (xs @ ys). covers ps a r p') \<or> (rd_leaves s)[p - a := page_result x] ! (p' - a) = page_result x'"
    if "rd_result s" "a \<le> p'" "p' < b" "f p' = Some x'" for p' x'
  proof (cases "p' = p")
    case False
    then have "\<not> covers ps a (Get_leaf key (of_nat (p - a))) p'" using same that by auto
    then have "(\<exists>r \<in> set (xs @ ys). covers ps a r p') \<or> rd_leaves s ! (p' - a) = page_result x'"
      using read_invD(4) [OF assms(1) that] by (auto simp: assms(2) simp del: covers.simps)
    then show ?thesis using other that False by simp
  qed (use that other assms(5) in simp)
  moreover have "(rd_leaves s)[p - a := page_result x] ! (p' - a) = leaves ! (p' - a)"
    if "a \<le> p'" "p' < b" "f p' = None" for p'
    using read_invD(5) [OF assms(1) that] assms(5) other [OF that(1)] that(3) by auto
  ultimately show ?thesis
    using read_invD(1-3) [OF assms(1)]
    by (intro read_invI) (simp_all add: assms(2) del: sound_request.simps covers.simps)
qed

lemma weight_pos:
  assumes "fits ps (2 ^ K)" and "sound_request ar g ps K a b f r"
  shows "0 < weight ps r"
proof (cases r)
  case (Get_node q off)
  then obtain k i where "at_node ps k i q" "Suc i * 2 ^ k \<le> 2 ^ K" using assms(2) by auto
  then have "weight ps r = 4 * 2 ^ k - 1" using unat_node_size [OF assms(1)] Get_node by simp
  then show ?thesis using one_le_power [of "2 :: nat" k] by linarith
qed simp

lemma read_step:
  assumes rngs: "fits ps (2 ^ K)" "q_offset rng = pw ps a" "q_size rng = pw ps (b - a)" "a < b" "b \<le> 2 ^ K"
    and len: "b - a \<le> length leaves" "b - a < 2 ^ 32" and zero: "no_zero_keys ar g"
    and inv: "read_inv ar g ps K a b f leaves s" and pend: "rd_pending s = xs @ r # ys"
  obtains s' where "deliver ar g rng ps r (s\<lparr>rd_pending := xs @ ys\<rparr>) = Some s'"
    "read_inv ar g ps K a b f leaves s'"
    "sum_list (map (weight ps) (rd_pending s')) < sum_list (map (weight ps) (rd_pending s))"
proof -
  let ?s = "s\<lparr>rd_pending := xs @ ys\<rparr>"
  have sound: "sound_request ar g ps K a b f r" using read_invD(2) [OF inv] pend by simp
  note pos = weight_pos [OF rngs(1) sound]
  have failed: "?s\<lparr>rd_result := False\<rparr> = s\<lparr>rd_pending := xs @ ys, rd_result := False\<rparr>" by simp
  show thesis
  proof (cases "rd_result s")
    case False
    then have "deliver ar g rng ps r ?s = Some (?s\<lparr>rd_result := False\<rparr>)"
      by (cases s) (simp add: deliver_def read_callback_def leaf_callback_def split: read_request.split)
    then show thesis using read_inv_fail [OF inv pend] False pos by (auto intro: that simp: pend)
  next
    case True
    then have ok: "rd_result ?s" by simp
    show thesis
    proof (cases r)
      case (Get_node q off)
      from deliver_node [OF rngs zero ok sound [unfolded Get_node]] show thesis
      proof cases
        case 1
        with read_inv_fail [OF inv pend] pos Get_node show thesis by (auto intro: that simp: pend)
      next
        case (2 new)
        have "read_inv ar g ps K a b f leaves (s\<lparr>rd_pending := xs @ ys @ new\<rparr>)"
          using read_inv_replace [OF inv pend 2(2)] 2(3) unfolding Get_node by blast
        then show thesis using 2(1,4) Get_node
          by (intro that [of "s\<lparr>rd_pending := xs @ ys @ new\<rparr>"]) (simp_all add: pend del: weight.simps)
      qed
    next
      case (Get_leaf key index)
      have "b - a \<le> length (rd_leaves ?s)" using len(1) read_invD(1) [OF inv] by simp
      from deliver_leaf [OF this len(2) ok sound [unfolded Get_leaf], of rng] obtain p x where
        p: "a \<le> p" "p < b" "index = of_nat (p - a)" "f p = Some x" and
        del: "deliver ar g rng ps (Get_leaf key index) ?s =
          Some (?s\<lparr>rd_leaves := (rd_leaves ?s)[p - a := page_result x]\<rparr>)" by metis
      have "read_inv ar g ps K a b f leaves
          (s\<lparr>rd_pending := xs @ ys, rd_leaves := (rd_leaves s)[p - a := page_result x]\<rparr>)"
        using read_inv_set_page [OF inv _ p(1,2,4) len] pend unfolding Get_leaf p(3) by blast
      then show thesis using del Get_leaf
        by (intro that [of "s\<lparr>rd_pending := xs @ ys, rd_leaves := (rd_leaves s)[p - a := page_result x]\<rparr>"])
          (simp_all add: pend)
    qed
  qed
qed

lemma run_reads_total:
  assumes rngs: "fits ps (2 ^ K)" "q_offset rng = pw ps a" "q_size rng = pw ps (b - a)" "a < b" "b \<le> 2 ^ K"
    and len: "b - a \<le> length leaves" "b - a < 2 ^ 32" and zero: "no_zero_keys ar g"
  shows "read_inv ar g ps K a b f leaves s \<Longrightarrow>
    \<exists>s'. run_reads ar g rng ps pick s = Some s' \<and> read_inv ar g ps K a b f leaves s' \<and> rd_pending s' = []"
proof (induction "sum_list (map (weight ps) (rd_pending s))" arbitrary: s rule: less_induct)
  case less
  show ?case
  proof (cases "rd_pending s = []")
    case True
    then show ?thesis using less.prems by (subst run_reads.simps) simp
  next
    case False
    let ?p = "rd_pending s" and ?n = "pick s mod length (rd_pending s)"
    have "?n < length ?p" using False by simp
    from id_take_nth_drop [OF this] obtain s' where
      s': "deliver ar g rng ps (?p ! ?n) (s\<lparr>rd_pending := take ?n ?p @ drop (Suc ?n) ?p\<rparr>) = Some s'"
      "read_inv ar g ps K a b f leaves s'"
      "sum_list (map (weight ps) (rd_pending s')) < sum_list (map (weight ps) ?p)"
      using read_step [OF rngs len zero less.prems] by metis
    from less.hyps [OF s'(3,2)] show ?thesis
      using False s'(1) by (subst run_reads.simps) (simp add: Let_def)
  qed
qed

lemma read_inv_start:
  assumes "represents ar g ps K 0 root f" "at_node ps K 0 root" "a < b" "b \<le> 2 ^ K" "fits ps (2 ^ K)"
  shows "read_inv ar g ps K a b f leaves
           \<lparr>rd_pending = [Get_node root 0], rd_result = True, rd_leaves = leaves\<rparr>"
proof (rule read_invI)
  fix p x assume p: "a \<le> p" "p < b"
  have "covers ps a (Get_node root 0) p"
    using covers_node [OF assms(5) _ assms(2), of p a 0] p assms(4) by simp
  then show "(\<exists>r \<in> set (rd_pending \<lparr>rd_pending = [Get_node root 0], rd_result = True, rd_leaves = leaves\<rparr>).
      covers ps a r p) \<or>
      rd_leaves \<lparr>rd_pending = [Get_node root 0], rd_result = True, rd_leaves = leaves\<rparr> ! (p - a) = page_result x"
    by (simp del: covers.simps)
next
  have "sound_request ar g ps K a b f (Get_node root 0)"
    unfolding sound_request.simps
    by (rule exI [of _ K], rule exI [of _ 0]) (use assms in \<open>simp add: meets_def\<close>)
  then show "sound_request ar g ps K a b f r"
    if "r \<in> set (rd_pending \<lparr>rd_pending = [Get_node root 0], rd_result = True, rd_leaves = leaves\<rparr>)" for r
    using that by (simp del: sound_request.simps)
qed simp_all

lemma read_total:
  assumes "fits ps (2 ^ K)" and "rt_page_size root = ps" and "at_node ps K 0 (rt_node root)"
    and "represents ar g ps K 0 (rt_node root) f" and "no_zero_keys ar g"
    and "q_offset rng = pw ps a" "q_size rng = pw ps (b - a)" "a < b" "b \<le> 2 ^ K"
    and "length leaves = b - a" "b - a < 2 ^ 32"
  shows "\<exists>ok result. readRecordLocations ar g pick leaves rng root = Some (ok, result) \<and>
     length result = b - a \<and>
     ((\<forall>p. a \<le> p \<and> p < b \<longrightarrow> f p \<noteq> None) \<longrightarrow> ok) \<and>
     (ok \<longrightarrow> (\<forall>p x. a \<le> p \<and> p < b \<and> f p = Some x \<longrightarrow> result ! (p - a) = page_result x)) \<and>
     (\<forall>p. a \<le> p \<and> p < b \<and> f p = None \<longrightarrow> result ! (p - a) = leaves ! (p - a))"
proof -
  let ?s = "\<lparr>rd_pending = [Get_node (rt_node root) 0], rd_result = True, rd_leaves = leaves\<rparr>"
  note rngs = assms(1,6-9)
  have "b - a \<le> length leaves" using assms(10) by simp
  from run_reads_total [OF rngs this assms(11,5) read_inv_start [OF assms(4,3,8,9,1)]]
  obtain s where run: "run_reads ar g rng ps pick ?s = Some s"
    and inv: "read_inv ar g ps K a b f leaves s" and fin: "rd_pending s = []" by blast
  have "readRecordLocations ar g pick leaves rng root = Some (rd_result s, rd_leaves s)"
    using run by (simp add: readRecordLocations_def assms(2))
  moreover have "length (rd_leaves s) = b - a" using read_invD(1) [OF inv] assms(10) by simp
  moreover have "rd_result s" if "\<forall>p. a \<le> p \<and> p < b \<longrightarrow> f p \<noteq> None"
    using read_invD(3) [OF inv] that by blast
  moreover have "rd_leaves s ! (p - a) = page_result x"
    if "rd_result s" "a \<le> p \<and> p < b \<and> f p = Some x" for p x
    using read_invD(4) [OF inv that(1), of p x] that(2) fin by simp
  ultimately show ?thesis using read_invD(5) [OF inv] by blast
qed

text \<open>
  Reading the locations of pages \<open>a\<close> to \<open>b\<close> of a version whose stored tree represents
  \<open>f\<close> always ends, whatever the order in which the DHT answers. If every page of the range was
  written, the result is success and each entry holds the page key and the providers of its
  page. Success is never reported with an entry of a written page wrong, and entries of pages
  that were never written keep their initial value.
\<close>

theorem read_finds_pages:
  assumes "fits ps (2 ^ K)" and "rt_page_size root = ps" and "at_node ps K 0 (rt_node root)"
    and "represents ar g ps K 0 (rt_node root) f" and "no_zero_keys ar g"
    and "q_offset rng = pw ps a" "q_size rng = pw ps (b - a)" "a < b" "b \<le> 2 ^ K"
    and "length leaves = b - a" "b - a < 2 ^ 32"
  shows "\<exists>ok result. readRecordLocations ar g pick leaves rng root = Some (ok, result) \<and>
     length result = b - a \<and>
     ((\<forall>p. a \<le> p \<and> p < b \<longrightarrow> f p \<noteq> None) \<longrightarrow> ok) \<and>
     (ok \<longrightarrow> (\<forall>p x. a \<le> p \<and> p < b \<and> f p = Some x \<longrightarrow> result ! (p - a) = page_result x)) \<and>
     (\<forall>p. a \<le> p \<and> p < b \<and> f p = None \<longrightarrow> result ! (p - a) = leaves ! (p - a))"
  by (rule read_total [OF assms])

end
