(* ===== verification/Range_Siblings.thy ===== *)
theory Range_Siblings
  imports Range_Read
begin

text \<open>
  The parts of \<open>writeRecordLocations\<close> that compute the leaves and the siblings: the pages of the
  write, the nodes that writers with earlier tickets are about to put, and the nodes of the
  stable tree. The result is that every sibling lookup gives a good reference.
\<close>

section \<open>The pages of a write\<close>

text \<open>
  The queue a writer passes in: one page key per page of the range, its offset the number of the
  page within the write.
\<close>

definition page_keys :: "u32 \<Rightarrow> u64 \<Rightarrow> query_t list \<Rightarrow> bool" where
  "page_keys d ps pages \<longleftrightarrow>
     (\<forall>t < length pages. q_id (pages ! t) = d \<and> q_offset (pages ! t) = of_nat t \<and> q_size (pages ! t) = ps)"

definition page_providers :: "u32 \<Rightarrow> replica_list_t \<Rightarrow> nat \<Rightarrow> replica_list_t" where
  "page_providers rc provs t = map ((!) provs) [t * unat rc..<Suc t * unat rc]"

definition leaf_node :: "query_t \<Rightarrow> dhtnode_t" where
  "leaf_node page = (dhtnode_make True)\<lparr>nd_left := page\<rparr>"

definition inner_node :: "query_t \<Rightarrow> query_t \<Rightarrow> dhtnode_t" where
  "inner_node l r = (dhtnode_make False)\<lparr>nd_left := l, nd_right := r\<rparr>"

definition page_puts ::
  "archive \<Rightarrow> u64 \<Rightarrow> u32 \<Rightarrow> u32 \<Rightarrow> nat \<Rightarrow> u32 \<Rightarrow> replica_list_t \<Rightarrow> nat \<Rightarrow> query_t \<Rightarrow> dht_put list" where
  "page_puts ar ps d v a rc provs t page =
     [(dht_key ar page, buffer_wrapper ar (ser_replica_list ar) (page_providers rc provs t)),
      (dht_key ar (nodeq ps d v 0 (a + t)), buffer_wrapper ar (ser_dhtnode ar) (leaf_node page))]"

lemma unat_mult_rc:
  assumes "n * unat (rc :: u32) < 2 ^ 32" and "m \<le> n"
  shows "unat (of_nat (m * unat rc) :: u32) = m * unat rc"
proof -
  have "m * unat rc \<le> n * unat rc" using assms(2) by simp
  then have "m * unat rc < 2 ^ 32" using assms(1) by linarith
  then show ?thesis by (simp only: unat_of_nat) simp
qed

lemma take_providers_page:
  assumes "Suc m * unat rc < 2 ^ 32" and "Suc m * unat rc \<le> length provs"
  shows "take_providers provs (of_nat (m * unat rc)) rc = Some (page_providers rc provs m)"
proof -
  have "(of_nat (m * unat rc) + rc :: u32) = of_nat (Suc m * unat rc)" by (simp add: add.commute)
  then show ?thesis
    using assms(2) unat_mult_rc [OF assms(1), of m] unat_mult_rc [OF assms(1), of "Suc m"]
    unfolding take_providers_def page_providers_def by (simp del: mult_Suc of_nat_mult)
qed

lemma leaf_puts_pages:
  assumes "q_version query = v" "q_offset query = pw ps a"
    and "\<forall>t < length pages. q_id (pages ! t) = d \<and> q_offset (pages ! t) = of_nat (m + t) \<and> q_size (pages ! t) = ps"
    and "(m + length pages) * unat rc < 2 ^ 32" "(m + length pages) * unat rc \<le> length provs"
  shows "leaf_puts ar query rc provs (of_nat (m * unat rc)) pages =
    Some (map (nodeq ps d v 0) [a + m..<a + m + length pages],
          concat (map (\<lambda>t. page_puts ar ps d v a rc provs (m + t) (pages ! t)) [0..<length pages]))"
  using assms(3-5)
proof (induction pages arbitrary: m)
  case (Cons page pages)
  have le: "Suc m * unat rc \<le> (m + length (page # pages)) * unat rc" by simp
  have prov: "take_providers provs (of_nat (m * unat rc)) rc = Some (page_providers rc provs m)"
    using Cons.prems le by (intro take_providers_page) linarith+
  have j: "(of_nat (m * unat rc) + rc :: u32) = of_nat (Suc m * unat rc)" by (simp add: add.commute)
  have pages: "\<forall>t < length pages. q_id (pages ! t) = d \<and> q_offset (pages ! t) = of_nat (Suc m + t) \<and>
      q_size (pages ! t) = ps"
    using Cons.prems(1) by (metis add_Suc_right add_Suc Suc_less_eq length_Cons nth_Cons_Suc)
  have IH: "leaf_puts ar query rc provs (of_nat (Suc m * unat rc)) pages =
      Some (map (nodeq ps d v 0) [a + Suc m..<a + Suc m + length pages],
          concat (map (\<lambda>t. page_puts ar ps d v a rc provs (Suc m + t) (pages ! t)) [0..<length pages]))"
    using Cons.prems by (intro Cons.IH [OF pages]) simp_all
  have "q_id page = d" "q_offset page = of_nat m" "q_size page = ps" using Cons.prems(1) by fastforce+
  then have leaf: "page\<lparr>q_version := q_version query,
      q_offset := q_offset query + q_offset page * q_size page\<rparr> = nodeq ps d v 0 (a + m)"
    using assms(1,2) by (cases page) (simp add: nodeq_def pw_def distrib_right)
  have up: "[a + m..<a + m + length (page # pages)] = (a + m) # [a + Suc m..<a + Suc m + length pages]"
    by (simp add: upt_conv_Cons del: upt_Suc)
  have up0: "[0..<length (page # pages)] = 0 # map Suc [0..<length pages]"
    by (simp add: upt_conv_Cons map_Suc_upt del: upt_Suc)
  show ?case
    unfolding leaf_puts.simps prov j IH leaf up up0
    by (simp add: page_puts_def leaf_node_def o_def Let_def)
qed simp

lemma edge_leaves_pages:
  assumes "fits ps (2 ^ K)" "q = \<lparr>q_id = d, q_version = v, q_offset = pw ps a, q_size = pw ps (b - a)\<rparr>"
    and "a < b" "b \<le> 2 ^ K"
  shows "edge_leaves q ps = (nodeq ps d v 0 a, nodeq ps d v 0 (b - 1))"
proof -
  have stop: "pw ps a + pw ps (b - a) = pw ps b" using assms(3) by (simp flip: pw_add)
  have d: "pw ps a div ps * ps = pw ps a" "pw ps b div ps = of_nat b"
    using assms(3,4) pw_div_ps [OF assms(1), of a] pw_div_ps [OF assms(1), of b] by (simp_all add: pw_def)
  have m: "pw ps b mod ps = 0" using assms(4) by (rule pw_mod_ps [OF assms(1)])
  have "(of_nat b - 1) * ps = pw ps (b - 1)" using assms(3) by (simp add: pw_def of_nat_diff)
  then show ?thesis by (simp add: edge_leaves_def assms(2) Let_def stop d m nodeq_def)
qed

section \<open>The siblings of earlier tickets\<close>

definition bro :: "nat \<Rightarrow> nat" where
  "bro i = (if even i then Suc i else i - 1)"

text \<open>The latest of the earlier writers whose range meets a node.\<close>

definition latest :: "interval_list_t \<Rightarrow> query_t \<Rightarrow> interval_entry_t option" where
  "latest pend q = find (\<lambda>e. intersects q (fst e)) (rev pend)"

definition sibling_entry :: "u64 \<Rightarrow> u32 \<Rightarrow> u32 \<Rightarrow> interval_list_t \<Rightarrow> nat \<Rightarrow> nat \<Rightarrow> query_t list" where
  "sibling_entry ps d v pend e l =
     (case latest pend (nodeq ps d v l (bro (e div 2 ^ l))) of
        None \<Rightarrow> []
      | Some x \<Rightarrow> [nodeq ps d (q_version (fst x)) l (bro (e div 2 ^ l))])"

lemma div_Suc_pow: "e div 2 ^ k div 2 = (e :: nat) div 2 ^ Suc k"
  by (metis div_mult2_eq power_Suc2)

lemma div_pow_range: "e div 2 ^ k * 2 ^ k \<le> e" "e < Suc (e div 2 ^ k) * (2 :: nat) ^ k"
  using dividend_less_div_times [of "2 ^ k :: nat" e] by (simp_all add: add.commute)

lemma div_pow_bound:
  assumes "e < 2 ^ K" and "l < K"
  shows "Suc (e div 2 ^ l) * 2 ^ l \<le> (2 :: nat) ^ K" and "Suc (bro (e div 2 ^ l)) * 2 ^ l \<le> (2 :: nat) ^ K"
proof -
  obtain m where m: "K = Suc (l + m)" using assms(2) less_imp_Suc_add by blast
  then have "e < 2 * 2 ^ m * 2 ^ l" using assms(1) by (simp add: power_add ac_simps)
  then have lt: "e div 2 ^ l < 2 * 2 ^ m" by (simp add: div_less_iff_less_mult)
  then have "bro (e div 2 ^ l) < 2 * 2 ^ m" by (auto simp: bro_def elim!: evenE)
  with lt have "Suc (e div 2 ^ l) \<le> 2 * 2 ^ m" "Suc (bro (e div 2 ^ l)) \<le> 2 * 2 ^ m" by simp_all
  from this [THEN mult_le_mono1, of "2 ^ l"]
  show "Suc (e div 2 ^ l) * 2 ^ l \<le> 2 ^ K" and "Suc (bro (e div 2 ^ l)) * 2 ^ l \<le> 2 ^ K"
    unfolding m by (simp_all add: power_add ac_simps)
qed

lemma bro_step:
  assumes "fits ps (2 ^ K)" "Suc i * 2 ^ k \<le> 2 ^ K" "k < K"
  shows "pw ps (i * 2 ^ k) mod (2 * pw ps (2 ^ k)) = 0 \<longleftrightarrow> even i"
    and "2 * pw ps (2 ^ k) \<noteq> 0"
    and "even i \<Longrightarrow> pw ps (i * 2 ^ k) + pw ps (2 ^ k) = pw ps (bro i * 2 ^ k)"
    and "odd i \<Longrightarrow> pw ps (i * 2 ^ k) - pw ps (2 ^ k) = pw ps (bro i * 2 ^ k)"
    and "even i \<Longrightarrow> pw ps (i * 2 ^ k) = pw ps (i div 2 * 2 ^ Suc k)"
    and "odd i \<Longrightarrow> pw ps (bro i * 2 ^ k) = pw ps (i div 2 * 2 ^ Suc k)"
proof -
  have "getParent (nodeq ps 0 0 k i) \<noteq> None" by (simp add: getParent_node [OF assms])
  then show nz: "2 * pw ps (2 ^ k) \<noteq> 0" by (auto simp: getParent_def Let_def)
  show "pw ps (i * 2 ^ k) mod (2 * pw ps (2 ^ k)) = 0 \<longleftrightarrow> even i"
    using getParent_node [OF assms, of 0 0] nz by (auto simp: getParent_def Let_def split: if_splits)
  show "even i \<Longrightarrow> pw ps (i * 2 ^ k) + pw ps (2 ^ k) = pw ps (bro i * 2 ^ k)"
    by (simp add: bro_def add.commute flip: pw_add)
  show "odd i \<Longrightarrow> pw ps (i * 2 ^ k) - pw ps (2 ^ k) = pw ps (bro i * 2 ^ k)"
    by (subst pw_diff) (auto simp: bro_def elim!: oddE)
  show "even i \<Longrightarrow> pw ps (i * 2 ^ k) = pw ps (i div 2 * 2 ^ Suc k)"
    by (elim evenE) (simp add: ac_simps)
  show "odd i \<Longrightarrow> pw ps (bro i * 2 ^ k) = pw ps (i div 2 * 2 ^ Suc k)"
    by (elim oddE) (simp add: ac_simps bro_def)
qed

declare compute_sibling_versions.simps [simp del]

lemma compute_sibling_versions_node:
  assumes "fits ps (2 ^ K)" "e < 2 ^ K" "k \<le> K"
  shows "compute_sibling_versions S (nodeq ps d v k (e div 2 ^ k)) pend (pw ps (2 ^ K)) =
     Some (S @ concat (map (sibling_entry ps d v pend e) [k..<K]))"
  using assms(3)
proof (induction k arbitrary: S rule: inc_induct)
  case base
  show ?case by (subst compute_sibling_versions.simps) simp
next
  case (step k)
  let ?i = "e div 2 ^ k" and ?n = "nodeq ps d v k (e div 2 ^ k)"
  note b = div_pow_bound [OF assms(2) step.hyps(2)]
  note s = bro_step [OF assms(1) b(1) step.hyps(2)]
  have lt: "q_size ?n < pw ps (2 ^ K)"
    using pw_order(2) [OF assms(1) node_bounds(2) [OF b(1)], of "2 ^ K"] step.hyps(2) by simp
  have md: "q_offset ?n mod (2 * q_size ?n) = 0 \<longleftrightarrow> even ?i" and nz: "(2 * q_size ?n = 0) = False"
    using s(1,2) by simp_all
  have up: "?i div 2 = e div 2 ^ Suc k" by (rule div_Suc_pow)
  let ?bro = "nodeq ps d v k (bro ?i)"
  have brother: "(if even ?i then ?n\<lparr>q_offset := q_offset ?n + q_size ?n\<rparr>
      else ?n\<lparr>q_offset := q_offset ?n - q_size ?n\<rparr>) = ?bro"
    using s(3,4) by (simp add: nodeq_def)
  have parent: "(if even ?i then ?n else ?n\<lparr>q_offset := q_offset ?bro\<rparr>)\<lparr>q_size := 2 * q_size ?n\<rparr> =
      nodeq ps d v (Suc k) (e div 2 ^ Suc k)"
    unfolding up [symmetric] using s(5,6)
    by (cases "even ?i") (simp_all add: nodeq_def pw_double del: power_Suc, simp_all)
  have entry: "(case find (\<lambda>x. intersects ?bro (fst x)) (rev pend) of None \<Rightarrow> S
      | Some x \<Rightarrow> S @ [?bro\<lparr>q_version := q_version (fst x)\<rparr>]) = S @ sibling_entry ps d v pend e k"
    by (simp add: sibling_entry_def latest_def nodeq_def split: option.split)
  have "compute_sibling_versions S ?n pend (pw ps (2 ^ K)) =
      compute_sibling_versions (S @ sibling_entry ps d v pend e k) (nodeq ps d v (Suc k) (e div 2 ^ Suc k))
        pend (pw ps (2 ^ K))"
    by (subst compute_sibling_versions.simps)
      (simp only: Let_def lt md nz brother parent entry if_True if_False)
  also have "\<dots> = Some (S @ concat (map (sibling_entry ps d v pend e) [k..<K]))"
    using step.hyps by (simp add: step.IH upt_conv_Cons del: power_Suc)
  finally show ?case .
qed

text \<open>Looking up the entry of a node.\<close>

definition lookup_node :: "u64 \<Rightarrow> query_t list \<Rightarrow> nat \<Rightarrow> nat \<Rightarrow> query_t" where
  "lookup_node ps S l i = search_list S (pw ps (i * 2 ^ l)) (pw ps (2 ^ l))"

lemma lookup_node_append:
  "lookup_node ps (S @ X) l i =
     (if \<exists>q \<in> set S. at_node ps l i q then lookup_node ps S l i else lookup_node ps X l i)"
  unfolding lookup_node_def search_list_append at_node_def by (rule refl)

lemma lookup_node_Nil [simp]: "lookup_node ps [] l i = query_t_default"
  by (simp add: lookup_node_def search_list_def)

lemma lookup_node_single:
  "lookup_node ps [q] l i = (if at_node ps l i q then q else query_t_default)"
  by (simp add: lookup_node_def search_list_def at_node_def)

lemma lookup_node_Cons:
  "lookup_node ps (q # S) l i = (if at_node ps l i q then q else lookup_node ps S l i)"
  by (auto simp: lookup_node_def search_list_def at_node_def)

lemma lookup_node_none: "\<not> (\<exists>q \<in> set S. at_node ps l i q) \<Longrightarrow> lookup_node ps S l i = query_t_default"
  using lookup_node_append [of ps S "[]" l i] by simp

lemma node_size_nonzero:
  "fits ps (2 ^ K) \<Longrightarrow> Suc i * 2 ^ l \<le> 2 ^ K \<Longrightarrow> pw ps (2 ^ l) \<noteq> 0"
  using pw_eq_0_iff [of ps "2 ^ K" "2 ^ l"] node_bounds(2) [of i l K] by simp

lemma lookup_node_found:
  assumes "\<exists>q \<in> set S. at_node ps l i q"
  shows "at_node ps l i (lookup_node ps S l i)" and "lookup_node ps S l i \<in> set S"
proof -
  let ?P = "\<lambda>q. q_offset q = pw ps (i * 2 ^ l) \<and> q_size q = pw ps (2 ^ l)"
  have "find ?P S \<noteq> None" using assms by (auto simp: find_None_iff at_node_def)
  then obtain q where "find ?P S = Some q" by auto
  moreover from this have "q \<in> set S" "at_node ps l i q" by (auto simp: at_node_def find_Some_iff)
  moreover have "lookup_node ps S l i = q"
    using calculation(1) by (simp add: lookup_node_def search_list_def)
  ultimately show "at_node ps l i (lookup_node ps S l i)" and "lookup_node ps S l i \<in> set S" by simp_all
qed

lemma lookup_node_empty_iff:
  assumes "fits ps (2 ^ K)" "Suc i * 2 ^ l \<le> 2 ^ K"
  shows "query_empty (lookup_node ps S l i) \<longleftrightarrow> \<not> (\<exists>q \<in> set S. at_node ps l i q)"
proof (cases "\<exists>q \<in> set S. at_node ps l i q")
  case True
  then have "q_size (lookup_node ps S l i) = pw ps (2 ^ l)"
    using lookup_node_found(1) by (simp add: at_node_def)
  then show ?thesis using True node_size_nonzero [OF assms] by (simp add: query_empty_def)
next
  case False
  then show ?thesis using lookup_node_none [OF False] by simp
qed

lemma lookup_sibling_entry:
  assumes "fits ps (2 ^ K)" "e < 2 ^ K" "l < K"
  shows "lookup_node ps (concat (map (sibling_entry ps d v pend e) [0..<K])) l (bro (e div 2 ^ l)) =
     (case latest pend (nodeq ps d v l (bro (e div 2 ^ l))) of
        None \<Rightarrow> query_t_default
      | Some x \<Rightarrow> nodeq ps d (q_version (fst x)) l (bro (e div 2 ^ l)))"
proof -
  let ?i = "bro (e div 2 ^ l)" and ?F = "sibling_entry ps d v pend e"
  have other: "\<not> (\<exists>q \<in> set (?F m). at_node ps l ?i q)" if "m < K" "m \<noteq> l" for m
  proof
    assume "\<exists>q \<in> set (?F m). at_node ps l ?i q"
    then obtain q where "at_node ps l ?i q" "at_node ps m (bro (e div 2 ^ m)) q"
      by (auto simp: sibling_entry_def split: option.splits)
    from at_node_inject [OF assms(1) this] that div_pow_bound(2) [OF assms(2)] assms(3) show False
      by blast
  qed
  have "lookup_node ps (concat (map ?F ls)) l ?i = (if l \<in> set ls then lookup_node ps (?F l) l ?i else query_t_default)"
    if "set ls \<subseteq> {..<K}" for ls
    using that
  proof (induction ls)
    case (Cons m ls)
    then show ?case
      using other [of m] lookup_node_none [of "?F l" ps l ?i] by (auto simp: lookup_node_append)
  qed simp
  moreover have "set [0..<K] \<subseteq> {..<K}" by auto
  ultimately show ?thesis
    using assms(3) by (simp add: sibling_entry_def lookup_node_single split: option.split)
qed

section \<open>The siblings of the stable tree\<close>

lemma represents_place:
  assumes "represents ar g ps k i q f"
  shows "represents ar g ps k i (q\<lparr>q_size := pw ps (2 ^ k), q_offset := pw ps (i * 2 ^ k)\<rparr>) f"
    and "at_node ps k i (q\<lparr>q_size := pw ps (2 ^ k), q_offset := pw ps (i * 2 ^ k)\<rparr>)"
proof -
  let ?q = "q\<lparr>q_size := pw ps (2 ^ k), q_offset := pw ps (i * 2 ^ k)\<rparr>"
  show "at_node ps k i ?q" by (simp add: at_node_def)
  show "represents ar g ps k i ?q f"
  proof (cases "at_node ps k i q")
    case True
    then have "?q = q" by (cases q) (simp add: at_node_def)
    then show ?thesis using assms by simp
  next
    case False
    then have "q = query_t_default" using represents_geometry [OF assms] by simp
    then have "?q = nodeq ps 0 0 k i" by (simp add: query_t_default_def nodeq_def)
    then show ?thesis using assms False by (cases k) (auto simp: hole_def)
  qed
qed

declare siblings_callback.simps [simp del]

text \<open>
  The siblings a walk towards page \<open>t\<close> looks for: on its left, those of the nodes that are right
  children, and on its right those of the left children.
\<close>

definition wanted :: "bool \<Rightarrow> nat \<Rightarrow> nat \<Rightarrow> bool" where
  "wanted isLeft t l \<longleftrightarrow> (if isLeft then odd (t div 2 ^ l) else even (t div 2 ^ l))"

text \<open>
  What a walk that starts with the list \<open>S\<close> adds: entries for wanted siblings below level
  \<open>k\<close> that are not in \<open>S\<close>, each a node of the tree for its pages (or nothing, where the tree
  has no pages).
\<close>

definition walk_adds ::
  "archive \<Rightarrow> dht_values \<Rightarrow> u64 \<Rightarrow> page_map \<Rightarrow> bool \<Rightarrow> nat \<Rightarrow> nat \<Rightarrow> query_t list \<Rightarrow> query_t list \<Rightarrow> bool" where
  "walk_adds ar g ps f isLeft t k S X \<longleftrightarrow>
     (\<forall>x \<in> set X. \<exists>l < k. at_node ps l (bro (t div 2 ^ l)) x) \<and>
     (\<forall>l < k. wanted isLeft t l \<longrightarrow> \<not> (\<exists>q \<in> set S. at_node ps l (bro (t div 2 ^ l)) q) \<longrightarrow>
        represents ar g ps l (bro (t div 2 ^ l)) (lookup_node ps X l (bro (t div 2 ^ l))) f)"

lemma represents_empty:
  assumes "\<And>p. i * 2 ^ k \<le> p \<Longrightarrow> p < Suc i * 2 ^ k \<Longrightarrow> f p = None"
  shows "represents ar g ps k i query_t_default f"
  using assms by (cases k) (auto simp: hole_def)

lemma sibling_pages:
  assumes "i = t div 2 ^ k" "l < k" "bro (t div 2 ^ l) * 2 ^ l \<le> p" "p < Suc (bro (t div 2 ^ l)) * 2 ^ l"
  shows "i * 2 ^ k \<le> p \<and> p < Suc i * 2 ^ k"
proof -
  obtain m where m: "k = Suc (l + m)" using assms(2) less_imp_Suc_add by blast
  let ?j = "t div 2 ^ l"
  have i: "i = ?j div 2 div 2 ^ m"
    unfolding assms(1) m by (simp add: power_add ac_simps flip: div_mult2_eq)
  have "p div 2 ^ l = bro ?j" using assms(3,4) by (intro div_nat_eqI) (simp_all add: mult.commute)
  moreover have "bro ?j div 2 = ?j div 2" by (auto simp: bro_def elim!: evenE oddE)
  ultimately have "p div 2 ^ l div 2 div 2 ^ m = i" using i by simp
  then have "p div 2 ^ k = i" unfolding m by (simp add: power_add ac_simps flip: div_mult2_eq)
  then show ?thesis using div_pow_range [of p k] by simp
qed

lemma siblings_callback_step:
  assumes fit: "fits ps (2 ^ K)" and bnd: "Suc (t div 2 ^ Suc k) * 2 ^ Suc k \<le> 2 ^ K"
    and target: "q_offset target = pw ps t" "q_size target = ps"
    and rep: "represents ar g ps (Suc k) (t div 2 ^ Suc k) q f" "at_node ps (Suc k) (t div 2 ^ Suc k) q"
      "\<not> hole ps (Suc k) (t div 2 ^ Suc k) q"
  obtains own sib where
    "represents ar g ps k (t div 2 ^ k) own f" "at_node ps k (t div 2 ^ k) own"
    "represents ar g ps k (bro (t div 2 ^ k)) sib f" "at_node ps k (bro (t div 2 ^ k)) sib"
    "siblings_callback ar g isLeft target S q (g (dht_key ar q)) =
       siblings_callback ar g isLeft target
         (if wanted isLeft t k \<and> \<not> (\<exists>q \<in> set S. at_node ps k (bro (t div 2 ^ k)) q) then S @ [sib] else S)
         own (g (dht_key ar own))"
proof -
  let ?i = "t div 2 ^ Suc k"
  obtain node where node: "read_node ar (g (dht_key ar q)) = Some node" "\<not> nd_is_leaf node"
    and l: "represents ar g ps k (2 * ?i) (nd_left node) f"
    and r: "represents ar g ps k (2 * ?i + 1) (nd_right node) f"
    using rep(1,3) by auto
  have bl: "Suc (2 * ?i) * 2 ^ k \<le> 2 ^ K" and br: "Suc (2 * ?i + 1) * 2 ^ k \<le> 2 ^ K"
    using bnd by (simp_all add: algebra_simps)
  let ?l = "(nd_left node)\<lparr>q_size := pw ps (2 ^ k), q_offset := pw ps (2 * ?i * 2 ^ k)\<rparr>"
  let ?r = "(nd_right node)\<lparr>q_size := pw ps (2 ^ k), q_offset := pw ps ((2 * ?i + 1) * 2 ^ k)\<rparr>"
  note L = represents_place [OF l] and R = represents_place [OF r]
  have "2 * (2 :: nat) ^ k \<le> 2 ^ K" using node_bounds(2) [OF bnd] by simp
  then have half: "q_size q div 2 = pw ps (2 ^ k)"
    using rep(2) pw_half [OF fit, of "2 ^ k"] by (simp add: at_node_def)
  have off: "q_offset q = pw ps (2 * ?i * 2 ^ k)" "q_offset q + pw ps (2 ^ k) = pw ps ((2 * ?i + 1) * 2 ^ k)"
    using rep(2) by (simp_all add: at_node_def ac_simps flip: pw_add)
  have c: "t div 2 ^ k = (if even (t div 2 ^ k) then 2 * ?i else 2 * ?i + 1)"
    unfolding div_Suc_pow [symmetric] by (cases "even (t div 2 ^ k)") simp_all
  have tK: "Suc t \<le> 2 ^ K"
  proof -
    show ?thesis using bnd div_pow_range(2) [of t "Suc k"] by linarith
  qed
  have "intersects ?l target \<longleftrightarrow> meets k (2 * ?i) t (Suc t)"
    by (rule intersects_node(1) [OF fit L(2) bl target(1) _ _ tK]) (simp_all add: target(2))
  also have "\<dots> \<longleftrightarrow> even (t div 2 ^ k)" using meets_iff_div [of t "Suc t" k "2 * ?i"] c by auto
  finally have side: "intersects ?l target \<longleftrightarrow> even (t div 2 ^ k)" .
  have none: "query_empty (search_list S (pw ps (j * 2 ^ k)) (pw ps (2 ^ k))) \<longleftrightarrow>
      \<not> (\<exists>q \<in> set S. at_node ps k j q)" if "Suc j * 2 ^ k \<le> 2 ^ K" for j
    using lookup_node_empty_iff [OF fit that, of S] by (simp add: lookup_node_def)
  define lq where "lq = ?l"
  define rq where "rq = ?r"
  have place: "(nd_left node)\<lparr>q_size := q_size q div 2, q_offset := q_offset q\<rparr> = lq"
    "(nd_right node)\<lparr>q_size := q_size q div 2, q_offset := q_offset q + q_size q div 2\<rparr> = rq"
    unfolding half off(2) unfolding off(1) lq_def rq_def by (rule refl)+
  have sel: "q_offset lq = pw ps (2 * ?i * 2 ^ k)" "q_size lq = pw ps (2 ^ k)"
    "q_offset rq = pw ps ((2 * ?i + 1) * 2 ^ k)" "q_size rq = pw ps (2 ^ k)"
    by (simp_all add: lq_def rq_def)
  have step: "siblings_callback ar g isLeft target S q (g (dht_key ar q)) =
      (if even (t div 2 ^ k)
       then siblings_callback ar g isLeft target
         (if \<not> isLeft \<and> \<not> (\<exists>q \<in> set S. at_node ps k (2 * ?i + 1) q) then S @ [rq] else S) lq (g (dht_key ar lq))
       else siblings_callback ar g isLeft target
         (if isLeft \<and> \<not> (\<exists>q \<in> set S. at_node ps k (2 * ?i) q) then S @ [lq] else S) rq (g (dht_key ar rq)))"
    by (subst siblings_callback.simps)
      (simp only: node option.case if_False Let_def place sel none [OF bl] none [OF br] side [folded lq_def])
  note L = L [folded lq_def] and R = R [folded rq_def]
  show thesis
  proof (cases "even (t div 2 ^ k)")
    case True
    then have "bro (t div 2 ^ k) = 2 * ?i + 1" "t div 2 ^ k = 2 * ?i" using c by (simp_all add: bro_def)
    then show thesis using that [of lq rq] L R step True by (simp add: wanted_def del: power_Suc)
  next
    case False
    then have "bro (t div 2 ^ k) = 2 * ?i" "t div 2 ^ k = 2 * ?i + 1" using c by (simp_all add: bro_def)
    then show thesis using that [of rq lq] L R step False by (simp add: wanted_def del: power_Suc)
  qed
qed

lemma walk_adds_step:
  assumes fit: "fits ps (2 ^ K)" and t: "t < 2 ^ K" "k < K"
    and sib: "represents ar g ps k (bro (t div 2 ^ k)) sib f" "at_node ps k (bro (t div 2 ^ k)) sib"
    and new: "new = (if wanted isLeft t k \<and> \<not> (\<exists>q \<in> set S. at_node ps k (bro (t div 2 ^ k)) q) then [sib] else [])"
    and walk: "walk_adds ar g ps f isLeft t k (S @ new) X"
  shows "walk_adds ar g ps f isLeft t (Suc k) S (new @ X)"
proof -
  note b = div_pow_bound(2) [OF t(1)]
  have other: "\<not> at_node ps l (bro (t div 2 ^ l)) x" if "at_node ps m (bro (t div 2 ^ m)) x" "l \<noteq> m" "l < K" "m < K" for l m x
    using at_node_inject [OF fit that(1) _ b b] that by blast
  have "\<exists>l < Suc k. at_node ps l (bro (t div 2 ^ l)) x" if "x \<in> set (new @ X)" for x
    using that sib(2) walk new by (auto simp: walk_adds_def less_Suc_eq split: if_splits)
  moreover have "represents ar g ps l (bro (t div 2 ^ l)) (lookup_node ps (new @ X) l (bro (t div 2 ^ l))) f"
    if l: "l < Suc k" "wanted isLeft t l" "\<not> (\<exists>q \<in> set S. at_node ps l (bro (t div 2 ^ l)) q)" for l
  proof (cases "l = k")
    case True
    then show ?thesis using l new sib by (simp add: lookup_node_Cons)
  next
    case False
    then have "\<not> (\<exists>q \<in> set new. at_node ps l (bro (t div 2 ^ l)) q)"
      using other [OF sib(2)] l t new by (auto split: if_splits)
    moreover have "l < k" using l(1) False by simp
    moreover have "\<not> (\<exists>q \<in> set (S @ new). at_node ps l (bro (t div 2 ^ l)) q)"
      using calculation(1) l(3) by auto
    ultimately show ?thesis using walk l(2) unfolding lookup_node_append walk_adds_def by auto
  qed
  ultimately show ?thesis by (simp add: walk_adds_def)
qed

lemma walk_adds_nothing:
  assumes "\<And>p. t div 2 ^ k * 2 ^ k \<le> p \<Longrightarrow> p < Suc (t div 2 ^ k) * 2 ^ k \<Longrightarrow> f p = None"
  shows "walk_adds ar g ps f isLeft t k S []"
  unfolding walk_adds_def using sibling_pages [of _ t k] assms by (auto intro!: represents_empty)

lemma siblings_callback_walk:
  assumes fit: "fits ps (2 ^ K)" and zero: "no_zero_keys ar g"
    and target: "q_offset target = pw ps t" "q_size target = ps" and t: "t < 2 ^ K"
  shows "represents ar g ps k (t div 2 ^ k) q f \<Longrightarrow> at_node ps k (t div 2 ^ k) q \<Longrightarrow> k \<le> K \<Longrightarrow>
    \<exists>X. siblings_callback ar g isLeft target S q (g (dht_key ar q)) = Some (S @ X) \<and>
        walk_adds ar g ps f isLeft t k S X"
proof (induction k arbitrary: q S)
  case 0
  have "read_node ar (g (dht_key ar q)) = None \<or> (\<exists>n. read_node ar (g (dht_key ar q)) = Some n \<and> nd_is_leaf n)"
  proof (cases "hole ps 0 (t div 2 ^ 0) q")
    case True
    then show ?thesis using zero by (auto simp: hole_def no_zero_keys_def query_t_default_def)
  next
    case False
    then obtain x where "leaf_info ar g q = Some x" using 0(1) by auto
    then show ?thesis by (auto simp: leaf_info_def split: option.splits if_splits)
  qed
  then show ?case by (subst siblings_callback.simps) (auto simp: walk_adds_def)
next
  case (Suc k)
  show ?case
  proof (cases "hole ps (Suc k) (t div 2 ^ Suc k) q")
    case True
    then have none: "read_node ar (g (dht_key ar q)) = None"
      using zero by (auto simp: no_zero_keys_def hole_def query_t_default_def)
    then have "f p = None" if "t div 2 ^ Suc k * 2 ^ Suc k \<le> p" "p < Suc (t div 2 ^ Suc k) * 2 ^ Suc k" for p
      using Suc.prems(1) that by (auto simp del: power_Suc mult_Suc)
    then have "walk_adds ar g ps f isLeft t (Suc k) S []" by (rule walk_adds_nothing)
    then show ?thesis using none by (subst siblings_callback.simps) auto
  next
    case False
    have bnd: "Suc (t div 2 ^ Suc k) * 2 ^ Suc k \<le> 2 ^ K"
      using parent_bound [OF div_pow_bound(1) [OF t], of k] Suc.prems(3) div_Suc_pow [of t k] by simp
    show ?thesis
    proof (rule siblings_callback_step [OF fit bnd target Suc.prems(1,2) False, where isLeft = isLeft and S = S])
      fix own sib :: query_t
      define new where "new = (if wanted isLeft t k \<and> \<not> (\<exists>q \<in> set S. at_node ps k (bro (t div 2 ^ k)) q)
        then [sib] else [])"
      have S: "(if wanted isLeft t k \<and> \<not> (\<exists>q \<in> set S. at_node ps k (bro (t div 2 ^ k)) q) then S @ [sib] else S)
        = S @ new" by (simp add: new_def)
      assume own: "represents ar g ps k (t div 2 ^ k) own f" "at_node ps k (t div 2 ^ k) own"
        and sib: "represents ar g ps k (bro (t div 2 ^ k)) sib f" "at_node ps k (bro (t div 2 ^ k)) sib"
        and step: "siblings_callback ar g isLeft target S q (g (dht_key ar q)) =
          siblings_callback ar g isLeft target
           (if wanted isLeft t k \<and> \<not> (\<exists>q \<in> set S. at_node ps k (bro (t div 2 ^ k)) q) then S @ [sib] else S)
           own (g (dht_key ar own))"
      from Suc.IH [OF own, of "S @ new"] Suc.prems(3) obtain X where
        X: "siblings_callback ar g isLeft target (S @ new) own (g (dht_key ar own)) = Some ((S @ new) @ X)"
          "walk_adds ar g ps f isLeft t k (S @ new) X" by auto
      have "walk_adds ar g ps f isLeft t (Suc k) S (new @ X)"
        using Suc.prems(3) by (intro walk_adds_step [OF fit t _ sib new_def X(2)]) simp
      then show ?thesis
        using step X(1) unfolding S append_assoc by (intro exI [of _ "new @ X"] conjI) simp_all
    qed
  qed
qed

section \<open>Both kinds of siblings\<close>

text \<open>
  The reference a writer stores for a child outside its range: the node of the latest earlier
  ticket that meets the child, or else a node that holds the pages of the stable version.
\<close>

definition good_ref ::
  "archive \<Rightarrow> dht_values \<Rightarrow> u64 \<Rightarrow> u32 \<Rightarrow> interval_list_t \<Rightarrow> page_map \<Rightarrow> nat \<Rightarrow> nat \<Rightarrow> query_t \<Rightarrow> bool" where
  "good_ref ar g ps d pend f l i q =
     (case latest pend (nodeq ps d 0 l i) of
        Some x \<Rightarrow> q = nodeq ps d (q_version (fst x)) l i
      | None \<Rightarrow> represents ar g ps l i q f)"

text \<open>
  The stable root of a reply: of size 0 for a version without pages, and otherwise the root of a
  tree of \<open>2 ^ Ks\<close> pages.
\<close>

definition stable_tree ::
  "archive \<Rightarrow> dht_values \<Rightarrow> u64 \<Rightarrow> nat \<Rightarrow> nat \<Rightarrow> query_t \<Rightarrow> page_map \<Rightarrow> bool" where
  "stable_tree ar g ps K Ks q f \<longleftrightarrow>
     q_offset q = 0 \<and> q_size q = 0 \<and> f = Map.empty \<or>
     Ks \<le> K \<and> at_node ps Ks 0 q \<and> represents ar g ps Ks 0 q f \<and> (\<forall>p \<ge> 2 ^ Ks. f p = None)"

lemma latest_nodeq: "latest pend (nodeq ps d v l i) = latest pend (nodeq ps d' v' l i)"
  by (simp add: latest_def intersects_def)

abbreviation pending_siblings :: "u64 \<Rightarrow> u32 \<Rightarrow> u32 \<Rightarrow> interval_list_t \<Rightarrow> nat \<Rightarrow> nat \<Rightarrow> query_t list" where
  "pending_siblings ps d v pend K e \<equiv> concat (map (sibling_entry ps d v pend e) [0..<K])"

lemma no_pending_entry:
  assumes fit: "fits ps (2 ^ K)" and e: "e < 2 ^ K" "l < K"
    and "latest pend (nodeq ps d v l (bro (e div 2 ^ l))) = None"
  shows "\<not> (\<exists>q \<in> set (pending_siblings ps d v pend K e). at_node ps l (bro (e div 2 ^ l)) q)"
  using lookup_sibling_entry [OF fit e, of d v pend] assms(4)
    lookup_node_empty_iff [OF fit div_pow_bound(2) [OF e], of "pending_siblings ps d v pend K e"] by simp

lemma good_ref_lookup:
  assumes fit: "fits ps (2 ^ K)" and e: "e < 2 ^ K" "l < K"
    and "latest pend (nodeq ps d v l (bro (e div 2 ^ l))) = None \<Longrightarrow>
      represents ar g ps l (bro (e div 2 ^ l)) (lookup_node ps X l (bro (e div 2 ^ l))) f"
  shows "good_ref ar g ps d pend f l (bro (e div 2 ^ l))
     (lookup_node ps (pending_siblings ps d v pend K e @ X) l (bro (e div 2 ^ l)))"
proof (cases "latest pend (nodeq ps d v l (bro (e div 2 ^ l)))")
  case None
  then have "\<not> (\<exists>q \<in> set (pending_siblings ps d v pend K e). at_node ps l (bro (e div 2 ^ l)) q)"
    by (rule no_pending_entry [OF fit e])
  then show ?thesis
    using None assms(4) latest_nodeq [of pend ps d v l "bro (e div 2 ^ l)" d 0]
    unfolding good_ref_def lookup_node_append by simp
next
  case (Some x)
  note found = lookup_sibling_entry [OF fit e, of d v pend]
  have "\<exists>q \<in> set (pending_siblings ps d v pend K e). at_node ps l (bro (e div 2 ^ l)) q"
  proof (rule ccontr)
    assume no: "\<not> ?thesis"
    have "query_t_default = nodeq ps d (q_version (fst x)) l (bro (e div 2 ^ l))"
      using found lookup_node_none [OF no] Some by simp
    then show False
      using node_size_nonzero [OF fit div_pow_bound(2) [OF e]] by (simp add: query_t_default_def nodeq_def)
  qed
  then show ?thesis
    using Some found latest_nodeq [of pend ps d v l "bro (e div 2 ^ l)" d 0]
    unfolding good_ref_def lookup_node_append by simp
qed

lemma stable_intersects:
  assumes "fits ps (2 ^ K)" "Ks \<le> K" "at_node ps Ks 0 q" "t < 2 ^ K"
  shows "intersects q (nodeq ps d v 0 t) \<longleftrightarrow> t < 2 ^ Ks"
  using intersects_node(1) [OF assms(1,3), of "nodeq ps d v 0 t" t "Suc t"] assms(2,4)
  by (simp add: meets_def)

lemma not_intersects_zero: "q_offset q = 0 \<Longrightarrow> q_size q = 0 \<Longrightarrow> \<not> intersects q r"
  by (simp add: intersects_def)

text \<open>
  Pages of a left sibling beyond the stable tree: the stable version has none there, unless the
  sibling is the subtree that starts at page 0.
\<close>

lemma left_sibling_beyond:
  assumes "2 ^ Ks \<le> e" "odd (e div 2 ^ l)" "e div 2 ^ l \<noteq> 1"
  shows "2 ^ Ks \<le> (e div 2 ^ l - 1) * (2 :: nat) ^ l"
proof (cases "Ks \<le> l")
  case True
  have "2 ^ l * 1 \<le> 2 ^ l * (e div 2 ^ l - 1)"
    using assms(2,3) by (intro mult_le_mono2) (auto elim!: oddE)
  moreover have "(2 :: nat) ^ Ks \<le> 2 ^ l" using True by (rule power_increasing) simp
  ultimately have "2 ^ Ks \<le> 2 ^ l * (e div 2 ^ l - 1)" by linarith
  then show ?thesis by (simp only: mult.commute)
next
  case False
  then obtain m where m: "Ks = Suc (l + m)" using less_imp_Suc_add not_le by blast
  have "2 * 2 ^ m * 2 ^ l \<le> e" using assms(1) by (simp add: m power_add ac_simps)
  then have "2 * 2 ^ m \<le> e div 2 ^ l" by (simp add: less_eq_div_iff_mult_less_eq)
  moreover have "e div 2 ^ l \<noteq> 2 * 2 ^ m" using assms(2) by auto
  ultimately have "2 * 2 ^ m \<le> e div 2 ^ l - 1" by linarith
  then have "2 * 2 ^ m * 2 ^ l \<le> (e div 2 ^ l - 1) * 2 ^ l" by (rule mult_le_mono1)
  then show ?thesis by (simp add: m power_add ac_simps)
qed

lemma odd_div_pow: "odd ((e :: nat) div 2 ^ l) \<Longrightarrow> 2 ^ l \<le> e"
  by (metis div_less not_le even_zero)

lemma stable_cases:
  assumes "fits ps (2 ^ K)" "e < 2 ^ K" "stable_tree ar g ps K Ks q f"
  obtains (empty) "q_size q = 0" "f = Map.empty" "\<not> intersects q (nodeq ps d v 0 e)"
  | (inside) "Ks \<le> K" "at_node ps Ks 0 q" "represents ar g ps Ks 0 q f" "\<And>p. 2 ^ Ks \<le> p \<Longrightarrow> f p = None"
      "e < 2 ^ Ks" "intersects q (nodeq ps d v 0 e)"
  | (beyond) "Ks \<le> K" "at_node ps Ks 0 q" "represents ar g ps Ks 0 q f" "\<And>p. 2 ^ Ks \<le> p \<Longrightarrow> f p = None"
      "2 ^ Ks \<le> e" "\<not> intersects q (nodeq ps d v 0 e)"
  using assms(3) stable_intersects [OF assms(1) _ _ assms(2), of Ks q d v] not_intersects_zero [of q]
  unfolding stable_tree_def by (metis not_less)

lemma lookup_size_zero:
  assumes "fits ps (2 ^ K)" "Suc i * 2 ^ l \<le> 2 ^ K" "set X \<subseteq> {q}" "q_size q = 0"
  shows "lookup_node ps X l i = query_t_default"
  using assms(3,4) node_size_nonzero [OF assms(1,2)] by (intro lookup_node_none) (auto simp: at_node_def)

text \<open>The siblings on the left.\<close>

lemma left_siblings_beyond:
  assumes fit: "fits ps (2 ^ K)" and e: "e < 2 ^ K" "l < K" and odd: "odd (e div 2 ^ l)"
    and st: "Ks \<le> K" "at_node ps Ks 0 q" "represents ar g ps Ks 0 q f" "\<And>p. 2 ^ Ks \<le> p \<Longrightarrow> f p = None" "2 ^ Ks \<le> e"
    and gap: "Ks < l \<Longrightarrow> e div 2 ^ l \<noteq> 1"
    and X: "set X \<subseteq> {q}" "l = Ks \<Longrightarrow> bro (e div 2 ^ l) = 0 \<Longrightarrow> q \<in> set X"
  shows "represents ar g ps l (bro (e div 2 ^ l)) (lookup_node ps X l (bro (e div 2 ^ l))) f"
proof (cases "e div 2 ^ l = 1")
  case True
  then have "e < 2 * 2 ^ l" using div_pow_range(2) [of e l] by simp
  then have "(2 :: nat) ^ Ks < 2 ^ Suc l" using st(5) by simp
  then have "Ks \<le> l" by (metis less_Suc_eq_le one_less_numeral_iff power_less_imp_less_exp semiring_norm(76))
  then have l: "l = Ks" using gap True by linarith
  have "bro (e div 2 ^ l) = 0" using True by (simp add: bro_def)
  then have "lookup_node ps X l (bro (e div 2 ^ l)) = q"
    using lookup_node_found(2) [of X ps l 0] X st(2) l by auto
  then show ?thesis using st(3) l \<open>bro (e div 2 ^ l) = 0\<close> by simp
next
  case False
  note beyond = left_sibling_beyond [OF st(5) odd False]
  have b: "bro (e div 2 ^ l) = e div 2 ^ l - 1" "bro (e div 2 ^ l) \<noteq> 0"
    using odd False by (auto simp: bro_def elim!: oddE)
  have "\<not> at_node ps l (bro (e div 2 ^ l)) q"
  proof
    assume at: "at_node ps l (bro (e div 2 ^ l)) q"
    have "(2 :: nat) ^ Ks \<le> 2 ^ K" using st(1) by (rule power_increasing) simp
    then have "Suc 0 * 2 ^ Ks \<le> (2 :: nat) ^ K" by simp
    from at_node_inject [OF fit at st(2) div_pow_bound(2) [OF e] this] b(2) show False by simp
  qed
  then have "lookup_node ps X l (bro (e div 2 ^ l)) = query_t_default"
    using X(1) by (intro lookup_node_none) auto
  moreover have "f p = None" if "bro (e div 2 ^ l) * 2 ^ l \<le> p" for p
    using st(4) [of p] beyond that b(1) by simp
  ultimately show ?thesis by (simp add: represents_empty)
qed

lemma left_siblings_good:
  assumes fit: "fits ps (2 ^ K)" and zero: "no_zero_keys ar g" and e: "e < 2 ^ K"
    and stable: "stable_tree ar g ps K Ks q f"
    and gap: "\<And>l. q_size q \<noteq> 0 \<Longrightarrow> Ks < l \<Longrightarrow> l < K \<Longrightarrow> e div 2 ^ l = 1 \<Longrightarrow>
      latest pend (nodeq ps d v l 0) \<noteq> None"
    and S: "S = pending_siblings ps d v pend K e"
  shows "\<exists>X. (if intersects q (nodeq ps d v 0 e)
       then siblings_callback ar g True (nodeq ps d v 0 e) S q (g (dht_key ar q))
       else if query_empty (search_list S (q_offset q) (q_size q)) then Some (S @ [q]) else Some S) = Some (S @ X) \<and>
     (\<forall>l < K. odd (e div 2 ^ l) \<longrightarrow> latest pend (nodeq ps d v l (bro (e div 2 ^ l))) = None \<longrightarrow>
        represents ar g ps l (bro (e div 2 ^ l)) (lookup_node ps X l (bro (e div 2 ^ l))) f)"
  using fit e stable
proof (cases rule: stable_cases [where d = d and v = v])
  case empty
  define X where "X = (if query_empty (search_list S (q_offset q) (q_size q)) then [q] else [])"
  have "set X \<subseteq> {q}" by (auto simp: X_def)
  then have "represents ar g ps l (bro (e div 2 ^ l)) (lookup_node ps X l (bro (e div 2 ^ l))) f" if "l < K" for l
    using lookup_size_zero [OF fit div_pow_bound(2) [OF e that] _ empty(1), of X] empty(2)
    by (simp add: represents_empty)
  then show ?thesis using empty(3) by (intro exI [of _ X]) (simp add: X_def)
next
  case inside
  have "e div 2 ^ Ks = 0" using inside(5) by simp
  with siblings_callback_walk [OF fit zero _ _ e, of "nodeq ps d v 0 e" Ks q f True S] inside obtain X where
    run: "siblings_callback ar g True (nodeq ps d v 0 e) S q (g (dht_key ar q)) = Some (S @ X)"
    and walk: "walk_adds ar g ps f True e Ks S X" by auto
  have "represents ar g ps l (bro (e div 2 ^ l)) (lookup_node ps X l (bro (e div 2 ^ l))) f"
    if l: "l < K" "odd (e div 2 ^ l)" "latest pend (nodeq ps d v l (bro (e div 2 ^ l))) = None" for l
  proof -
    have "l < Ks" using odd_div_pow [OF l(2)] inside(5) power_increasing [of Ks l "2 :: nat"] by (meson le_less_trans not_le not_less one_le_numeral)
    then show ?thesis
      using walk l(2) no_pending_entry [OF fit e l(1,3)] unfolding walk_adds_def wanted_def S by simp
  qed
  then show ?thesis using run inside(6) by auto
next
  case beyond
  define X where "X = (if query_empty (search_list S (q_offset q) (q_size q)) then [q] else [])"
  have nz: "q_size q \<noteq> 0"
    using beyond(1,2) node_size_nonzero [OF fit, of 0 Ks] by (simp add: at_node_def)
  have "represents ar g ps l (bro (e div 2 ^ l)) (lookup_node ps X l (bro (e div 2 ^ l))) f"
    if l: "l < K" "odd (e div 2 ^ l)" "latest pend (nodeq ps d v l (bro (e div 2 ^ l))) = None" for l
  proof (rule left_siblings_beyond [OF fit e l(1,2) beyond(1-5)])
    show "e div 2 ^ l \<noteq> 1" if "Ks < l" using gap [OF nz that l(1)] l(3) by (auto simp: bro_def)
    show "q \<in> set X" if "l = Ks" "bro (e div 2 ^ l) = 0"
      using lookup_node_none [OF no_pending_entry [OF fit e l(1,3)]] that beyond(2)
      by (simp add: X_def S at_node_def lookup_node_def)
  qed (auto simp: X_def)
  then show ?thesis using beyond(6) by (intro exI [of _ X]) (simp add: X_def)
qed

text \<open>The siblings on the right.\<close>

lemma right_siblings_good:
  assumes fit: "fits ps (2 ^ K)" and zero: "no_zero_keys ar g" and e: "e < 2 ^ K"
    and stable: "stable_tree ar g ps K Ks q f"
    and S: "S = pending_siblings ps d v pend K e"
  shows "\<exists>X. (if intersects q (nodeq ps d v 0 e)
       then siblings_callback ar g False (nodeq ps d v 0 e) S q (g (dht_key ar q)) else Some S) = Some (S @ X) \<and>
     (\<forall>l < K. even (e div 2 ^ l) \<longrightarrow> latest pend (nodeq ps d v l (bro (e div 2 ^ l))) = None \<longrightarrow>
        represents ar g ps l (bro (e div 2 ^ l)) (lookup_node ps X l (bro (e div 2 ^ l))) f)"
  using fit e stable
proof (cases rule: stable_cases [where d = d and v = v])
  case empty
  then show ?thesis by (intro exI [of _ "[]"]) (simp add: represents_empty)
next
  case inside
  have "e div 2 ^ Ks = 0" using inside(5) by simp
  with siblings_callback_walk [OF fit zero _ _ e, of "nodeq ps d v 0 e" Ks q f False S] inside obtain X where
    run: "siblings_callback ar g False (nodeq ps d v 0 e) S q (g (dht_key ar q)) = Some (S @ X)"
    and walk: "walk_adds ar g ps f False e Ks S X" by auto
  have "represents ar g ps l (bro (e div 2 ^ l)) (lookup_node ps X l (bro (e div 2 ^ l))) f"
    if l: "l < K" "even (e div 2 ^ l)" "latest pend (nodeq ps d v l (bro (e div 2 ^ l))) = None" for l
  proof (cases "l < Ks")
    case True
    then show ?thesis
      using walk l(2) no_pending_entry [OF fit e l(1,3)] unfolding walk_adds_def wanted_def S by simp
  next
    case False
    have b: "Suc 0 * 2 ^ Ks \<le> (2 :: nat) ^ K" using inside(1) by simp
    have "\<not> (\<exists>x \<in> set X. at_node ps l (bro (e div 2 ^ l)) x)"
    proof
      assume "\<exists>x \<in> set X. at_node ps l (bro (e div 2 ^ l)) x"
      then obtain x m where at: "at_node ps l (bro (e div 2 ^ l)) x" "m < Ks" "at_node ps m (bro (e div 2 ^ m)) x"
        using walk by (auto simp: walk_adds_def)
      from at_node_inject [OF fit at(1,3) div_pow_bound(2) [OF e l(1)] div_pow_bound(2) [OF e, of m]] at(2) inside(1) False
      show False by simp
    qed
    moreover have "f p = None" if "bro (e div 2 ^ l) * 2 ^ l \<le> p" for p
    proof -
      have "(2 :: nat) ^ Ks \<le> 1 * 2 ^ l" using False by simp
      also have "\<dots> \<le> bro (e div 2 ^ l) * 2 ^ l" using l(2) by (intro mult_le_mono1) (simp add: bro_def)
      finally show ?thesis using inside(4) [of p] that by linarith
    qed
    ultimately show ?thesis using lookup_node_none represents_empty by metis
  qed
  then show ?thesis using run inside(6) by auto
next
  case beyond
  have "f p = None" if "even (e div 2 ^ l)" "bro (e div 2 ^ l) * 2 ^ l \<le> p" for p l
    using beyond(4,5) div_pow_range(2) [of e l] that by (simp add: bro_def)
  then show ?thesis using beyond(6) by (intro exI [of _ "[]"]) (simp add: represents_empty)
qed

text \<open>All siblings a writer needs.\<close>

lemma stable_siblings_good:
  assumes fit: "fits ps (2 ^ K)" and zero: "no_zero_keys ar g" and ab: "a < b" "b \<le> 2 ^ K"
    and stable: "stable_tree ar g ps K Ks q f"
    and gap: "\<And>l. q_size q \<noteq> 0 \<Longrightarrow> Ks < l \<Longrightarrow> l < K \<Longrightarrow> a div 2 ^ l = 1 \<Longrightarrow>
      latest pend (nodeq ps d v l 0) \<noteq> None"
  obtains L R where
    "stable_siblings ar g q (nodeq ps d v 0 a) (nodeq ps d v 0 (b - 1))
       (pending_siblings ps d v pend K a) (pending_siblings ps d v pend K (b - 1)) = Some (L, R)"
    "\<And>l. l < K \<Longrightarrow> odd (a div 2 ^ l) \<Longrightarrow>
       good_ref ar g ps d pend f l (a div 2 ^ l - 1) (lookup_node ps L l (a div 2 ^ l - 1))"
    "\<And>l. l < K \<Longrightarrow> even ((b - 1) div 2 ^ l) \<Longrightarrow>
       good_ref ar g ps d pend f l (Suc ((b - 1) div 2 ^ l)) (lookup_node ps R l (Suc ((b - 1) div 2 ^ l)))"
proof -
  have a: "a < 2 ^ K" and b: "b - 1 < 2 ^ K" using ab by simp_all
  let ?SL = "pending_siblings ps d v pend K a" and ?SR = "pending_siblings ps d v pend K (b - 1)"
  from left_siblings_good [OF fit zero a stable gap refl] obtain X where
    X: "(if intersects q (nodeq ps d v 0 a) then siblings_callback ar g True (nodeq ps d v 0 a) ?SL q (g (dht_key ar q))
       else if query_empty (search_list ?SL (q_offset q) (q_size q)) then Some (?SL @ [q]) else Some ?SL) = Some (?SL @ X)"
    "\<And>l. l < K \<Longrightarrow> odd (a div 2 ^ l) \<Longrightarrow> latest pend (nodeq ps d v l (bro (a div 2 ^ l))) = None \<Longrightarrow>
       represents ar g ps l (bro (a div 2 ^ l)) (lookup_node ps X l (bro (a div 2 ^ l))) f"
    by blast
  from right_siblings_good [OF fit zero b stable refl] obtain Y where
    Y: "(if intersects q (nodeq ps d v 0 (b - 1))
       then siblings_callback ar g False (nodeq ps d v 0 (b - 1)) ?SR q (g (dht_key ar q)) else Some ?SR) = Some (?SR @ Y)"
    "\<And>l. l < K \<Longrightarrow> even ((b - 1) div 2 ^ l) \<Longrightarrow> latest pend (nodeq ps d v l (bro ((b - 1) div 2 ^ l))) = None \<Longrightarrow>
       represents ar g ps l (bro ((b - 1) div 2 ^ l)) (lookup_node ps Y l (bro ((b - 1) div 2 ^ l))) f"
    by blast
  show thesis
  proof (rule that [of "?SL @ X" "?SR @ Y"])
    show "stable_siblings ar g q (nodeq ps d v 0 a) (nodeq ps d v 0 (b - 1)) ?SL ?SR = Some (?SL @ X, ?SR @ Y)"
      unfolding stable_siblings_def X(1) Y(1) by simp
    show "good_ref ar g ps d pend f l (a div 2 ^ l - 1) (lookup_node ps (?SL @ X) l (a div 2 ^ l - 1))"
      if "l < K" "odd (a div 2 ^ l)" for l
      using good_ref_lookup [OF fit a that(1), of pend d v ar g X f] X(2) [OF that] that(2) by (simp add: bro_def)
    show "good_ref ar g ps d pend f l (Suc ((b - 1) div 2 ^ l)) (lookup_node ps (?SR @ Y) l (Suc ((b - 1) div 2 ^ l)))"
      if "l < K" "even ((b - 1) div 2 ^ l)" for l
      using good_ref_lookup [OF fit b that(1), of pend d v ar g Y f] Y(2) [OF that] that(2) by (simp add: bro_def)
  qed
qed

end
