(* ===== verification/Range_Write.thy ===== *)
theory Range_Write
  imports Range_Siblings
begin

text \<open>
  What \<open>writeRecordLocations\<close> puts into the DHT: the leaves of the written pages and every inner
  node above them, each with its own children where they meet the written range and otherwise
  with a good reference (the node of the latest earlier ticket that meets the child, or a node of
  the stable tree).
\<close>

section \<open>The inner nodes\<close>

declare build_tree.simps [simp del]

text \<open>
  The node stored for parent \<open>j\<close> of the nodes \<open>lo\<close> to \<open>hi\<close> of level \<open>k\<close>.
\<close>

definition parent_put ::
  "archive \<Rightarrow> u64 \<Rightarrow> u32 \<Rightarrow> u32 \<Rightarrow> query_t list \<Rightarrow> query_t list \<Rightarrow> nat \<Rightarrow> nat \<Rightarrow> nat \<Rightarrow> nat \<Rightarrow> dht_put" where
  "parent_put ar ps d v L R k lo hi j =
     (dht_key ar (nodeq ps d v (Suc k) j),
      buffer_wrapper ar (ser_dhtnode ar)
        (inner_node (if 2 * j < lo then lookup_node ps L k (2 * j) else nodeq ps d v k (2 * j))
                    (if hi < 2 * j + 1 then lookup_node ps R k (2 * j + 1) else nodeq ps d v k (2 * j + 1))))"

text \<open>One round of the loop: a node, or two brothers, leave the queue.\<close>

lemma nodeq_eq_iff:
  assumes "fits ps (2 ^ K)" "Suc i * 2 ^ k \<le> 2 ^ K" "Suc j * 2 ^ l \<le> 2 ^ K"
  shows "nodeq ps d v k i = nodeq ps d v l j \<longleftrightarrow> k = l \<and> i = j"
  using at_node_inject [OF assms(1) at_node_nodeq _ assms(2,3)] at_node_nodeq by metis

lemma node_not_root:
  assumes "fits ps (2 ^ K)" "k < K"
  shows "pw ps (2 ^ k) \<noteq> pw ps (2 ^ K)"
  using pw_order(3) [OF assms(1), of "2 ^ k" "2 ^ K"] assms(2) by simp

lemma take_brother_merge:
  assumes fit: "fits ps (2 ^ K)" and "k < K" "Suc i * 2 ^ k \<le> 2 ^ K" "odd i"
  shows "take_brother (pw ps (2 ^ K)) position (nodeq ps d v (Suc k) (i div 2)) (nodeq ps d v k i # rest) =
     Some (ROOT, nodeq ps d v k i, rest)"
  using getParent_node [OF fit assms(3,2), of d v] node_not_root [OF fit assms(2)] assms(4)
  by (simp add: take_brother_def)

lemma take_brother_keep:
  assumes fit: "fits ps (2 ^ K)" and parent: "Suc i * 2 ^ Suc k \<le> 2 ^ K"
    and first: "\<forall>q \<in> set (take 1 rest). \<exists>m j. q = nodeq ps d v m j \<and> Suc j * 2 ^ m \<le> 2 ^ K \<and>
      m \<le> K \<and> (m = k \<longrightarrow> even j)"
  shows "\<exists>next. take_brother (pw ps (2 ^ K)) position (nodeq ps d v (Suc k) i) rest = Some (position, next, rest)"
proof (cases rest)
  case (Cons q rest')
  with first obtain m j where q: "q = nodeq ps d v m j" "Suc j * 2 ^ m \<le> 2 ^ K" "m \<le> K" "m = k \<Longrightarrow> even j"
    by auto
  show ?thesis
  proof (cases "m = K")
    case False
    then have m: "m < K" using q(3) by simp
    have "m = k \<and> j div 2 = i" if "nodeq ps d v (Suc k) i = nodeq ps d v (Suc m) (j div 2)"
      using nodeq_eq_iff [OF fit parent parent_bound [OF q(2) m]] that by blast
    then show ?thesis
      using getParent_node [OF fit q(2) m, of d v] node_not_root [OF fit m] q(1,4) Cons
      by (auto simp: take_brother_def)
  qed (simp add: take_brother_def Cons q(1))
qed (simp add: take_brother_def)

lemma build_tree_first:
  assumes fit: "fits ps (2 ^ K)" and k: "k < K" "Suc i * 2 ^ k \<le> 2 ^ K"
    and "take_brother (pw ps (2 ^ K)) (if even i then LEFT_CHILD else RIGHT_CHILD)
      (nodeq ps d v (Suc k) (i div 2)) rest = Some (position, next, rest')"
    and "left = (if position = RIGHT_CHILD then lookup_node ps L k (i - 1) else nodeq ps d v k i)"
    and "right = (if position = LEFT_CHILD then lookup_node ps R k (Suc i)
      else if position = RIGHT_CHILD then nodeq ps d v k i else next)"
  shows "build_tree ar (pw ps (2 ^ K)) L R (nodeq ps d v k i # rest) puts =
    build_tree ar (pw ps (2 ^ K)) L R (rest' @ [nodeq ps d v (Suc k) (i div 2)])
      (puts @ [(dht_key ar (nodeq ps d v (Suc k) (i div 2)),
                buffer_wrapper ar (ser_dhtnode ar) (inner_node left right))])"
proof -
  have pos: "position = RIGHT_CHILD \<Longrightarrow> odd i"
    using assms(4) by (auto simp: take_brother_def split: list.splits if_splits bind_splits)
  have "pw ps (i * 2 ^ k) + pw ps (2 ^ k) = pw ps (Suc i * 2 ^ k)"
    by (simp add: add.commute flip: pw_add)
  moreover have "pw ps (i * 2 ^ k) - pw ps (2 ^ k) = pw ps ((i - 1) * 2 ^ k)" if "position = RIGHT_CHILD"
    using pos [OF that] by (subst pw_diff) (auto elim!: oddE)
  ultimately show ?thesis
    using getParent_node [OF fit k(2,1), of d v] node_not_root [OF fit k(1)] assms(4-6)
    by (subst build_tree.simps) (cases position; simp add: lookup_node_def inner_node_def del: mult_Suc)
qed

definition next_level :: "u64 \<Rightarrow> u32 \<Rightarrow> u32 \<Rightarrow> nat \<Rightarrow> nat \<Rightarrow> query_t list \<Rightarrow> bool" where
  "next_level ps d v K k ups \<longleftrightarrow>
     (\<forall>q \<in> set ups. \<exists>j. q = nodeq ps d v (Suc k) j \<and> Suc j * 2 ^ Suc k \<le> 2 ^ K)"

lemma build_tree_round:
  assumes fit: "fits ps (2 ^ K)" and k: "k < K" "Suc hi * 2 ^ k \<le> 2 ^ K" and lo: "lo \<le> hi"
    and up: "next_level ps d v K k ups"
  shows "build_tree ar (pw ps (2 ^ K)) L R (map (nodeq ps d v k) [lo..<Suc hi] @ ups) puts =
    build_tree ar (pw ps (2 ^ K)) L R
      (map (nodeq ps d v k) [2 * (lo div 2) + 2..<Suc hi] @ ups @ [nodeq ps d v (Suc k) (lo div 2)])
      (puts @ [parent_put ar ps d v L R k lo hi (lo div 2)])"
proof -
  have bnd: "Suc i * 2 ^ k \<le> 2 ^ K" if "i \<le> hi" for i
  proof -
    have "Suc i * 2 ^ k \<le> Suc hi * 2 ^ k" using that by (intro mult_le_mono1) simp
    then show ?thesis using k(2) by linarith
  qed
  note lob = bnd [OF lo]
  have split: "map (nodeq ps d v k) [lo..<Suc hi] @ ups =
      nodeq ps d v k lo # (map (nodeq ps d v k) [Suc lo..<Suc hi] @ ups)"
    using lo by (simp add: upt_conv_Cons del: upt_Suc)
  show ?thesis
  proof (cases "even lo \<and> lo < hi")
    case True
    then have hi: "Suc lo \<le> hi" and lo2: "2 * (lo div 2) = lo" "Suc lo div 2 = lo div 2" by auto
    have rest: "map (nodeq ps d v k) [Suc lo..<Suc hi] @ ups =
        nodeq ps d v k (Suc lo) # (map (nodeq ps d v k) [lo + 2..<Suc hi] @ ups)"
      using hi by (simp add: upt_conv_Cons del: upt_Suc)
    from build_tree_first [OF fit k(1) lob take_brother_merge [OF fit k(1) bnd [OF hi], unfolded lo2] refl refl]
    show ?thesis
      using True hi unfolding split rest parent_put_def lo2 by simp
  next
    case False
    let ?rest = "map (nodeq ps d v k) [Suc lo..<Suc hi] @ ups"
    have "\<exists>m j. q = nodeq ps d v m j \<and> Suc j * 2 ^ m \<le> 2 ^ K \<and> m \<le> K \<and> (m = k \<longrightarrow> even j)"
      if "q \<in> set (take 1 ?rest)" for q
    proof (cases "lo < hi")
      case True
      then have "q = nodeq ps d v k (Suc lo)" using that by (simp add: upt_conv_Cons del: upt_Suc)
      then show ?thesis using True False bnd [of "Suc lo"] k(1) by (intro exI [of _ k] exI [of _ "Suc lo"]) auto
    next
      case False
      then have "q \<in> set ups" using that lo by (auto dest: in_set_takeD)
      with up obtain j where "q = nodeq ps d v (Suc k) j" "Suc j * 2 ^ Suc k \<le> 2 ^ K"
        unfolding next_level_def by blast
      then show ?thesis using k(1) by (intro exI [of _ "Suc k"] exI [of _ j]) auto
    qed
    then obtain nx where keep: "take_brother (pw ps (2 ^ K)) (if even lo then LEFT_CHILD else RIGHT_CHILD)
        (nodeq ps d v (Suc k) (lo div 2)) ?rest = Some (if even lo then LEFT_CHILD else RIGHT_CHILD, nx, ?rest)"
      using take_brother_keep [OF fit parent_bound [OF lob k(1)]] by blast
    have later: "map (nodeq ps d v k) [Suc lo..<Suc hi] = map (nodeq ps d v k) [2 * (lo div 2) + 2..<Suc hi]"
      using False lo by (cases "even lo") (auto elim!: oddE)
    show ?thesis
      unfolding split build_tree_first [OF fit k(1) lob keep refl refl] unfolding later parent_put_def
      using False lo by (cases "even lo") (auto elim!: oddE)
  qed
qed

lemma build_tree_level:
  assumes fit: "fits ps (2 ^ K)" and k: "k < K" "Suc hi * 2 ^ k \<le> 2 ^ K"
  shows "lo \<le> hi \<Longrightarrow> next_level ps d v K k ups \<Longrightarrow>
    build_tree ar (pw ps (2 ^ K)) L R (map (nodeq ps d v k) [lo..<Suc hi] @ ups) puts =
    build_tree ar (pw ps (2 ^ K)) L R (ups @ map (nodeq ps d v (Suc k)) [lo div 2..<Suc (hi div 2)])
      (puts @ map (parent_put ar ps d v L R k lo hi) [lo div 2..<Suc (hi div 2)])"
proof (induction "hi - lo" arbitrary: lo ups puts rule: less_induct)
  case less
  let ?lo = "2 * (lo div 2) + 2" and ?up = "nodeq ps d v (Suc k) (lo div 2)"
  note round = build_tree_round [OF fit k less.prems, of ar L R puts]
  show ?case
  proof (cases "?lo \<le> hi")
    case False
    then have "hi div 2 = lo div 2" using less.prems(1) by linarith
    with False show ?thesis unfolding round by simp
  next
    case True
    have "Suc lo * 2 ^ k \<le> Suc hi * 2 ^ k" using less.prems(1) by (intro mult_le_mono1) simp
    then have "Suc lo * 2 ^ k \<le> 2 ^ K" using k(2) by linarith
    from parent_bound [OF this k(1)] have up: "next_level ps d v K k (ups @ [?up])"
      using less.prems(2) unfolding next_level_def by auto
    have "hi - ?lo < hi - lo" using True by linarith
    note IH = less.hyps [OF this True up, of "puts @ [parent_put ar ps d v L R k lo hi (lo div 2)]"]
    have same: "parent_put ar ps d v L R k ?lo hi j = parent_put ar ps d v L R k lo hi j" if "Suc (lo div 2) \<le> j" for j
      using that by (auto simp: parent_put_def)
    have list: "[lo div 2..<Suc (hi div 2)] = lo div 2 # [Suc (lo div 2)..<Suc (hi div 2)]"
      using less.prems(1) by (simp add: upt_conv_Cons div_le_mono del: upt_Suc)
    have maps: "map (parent_put ar ps d v L R k ?lo hi) [Suc (lo div 2)..<Suc (hi div 2)] =
        map (parent_put ar ps d v L R k lo hi) [Suc (lo div 2)..<Suc (hi div 2)]"
      by (intro map_cong refl same) auto
    have lodiv: "?lo div 2 = Suc (lo div 2)" by simp
    show ?thesis using IH unfolding lodiv maps list round by (simp del: upt_Suc)
  qed
qed

text \<open>All levels, from the leaves of pages \<open>a\<close> to \<open>z\<close> to the root.\<close>

definition level_puts ::
  "archive \<Rightarrow> u64 \<Rightarrow> u32 \<Rightarrow> u32 \<Rightarrow> query_t list \<Rightarrow> query_t list \<Rightarrow> nat \<Rightarrow> nat \<Rightarrow> nat \<Rightarrow> dht_put list" where
  "level_puts ar ps d v L R a z k =
     map (parent_put ar ps d v L R k (a div 2 ^ k) (z div 2 ^ k)) [a div 2 ^ Suc k..<Suc (z div 2 ^ Suc k)]"

lemma build_tree_all:
  assumes fit: "fits ps (2 ^ K)" and z: "a \<le> z" "z < 2 ^ K" and "k \<le> K"
  shows "build_tree ar (pw ps (2 ^ K)) L R (map (nodeq ps d v k) [a div 2 ^ k..<Suc (z div 2 ^ k)]) puts =
    Some (puts @ concat (map (level_puts ar ps d v L R a z) [k..<K]))"
  using assms(4)
proof (induction k arbitrary: puts rule: inc_induct)
  case base
  have "map (nodeq ps d v K) [a div 2 ^ K..<Suc (z div 2 ^ K)] = [nodeq ps d v K 0]" using z by simp
  then show ?case by (subst build_tree.simps, simp, subst build_tree.simps, simp)
next
  case (step k)
  have le: "a div 2 ^ k \<le> z div 2 ^ k" using z(1) by (rule div_le_mono)
  have "next_level ps d v K k []" by (simp add: next_level_def)
  from build_tree_level [OF fit step.hyps(2) div_pow_bound(1) [OF z(2) step.hyps(2)] le this, of ar L R puts]
  have "build_tree ar (pw ps (2 ^ K)) L R (map (nodeq ps d v k) [a div 2 ^ k..<Suc (z div 2 ^ k)]) puts =
      build_tree ar (pw ps (2 ^ K)) L R (map (nodeq ps d v (Suc k)) [a div 2 ^ Suc k..<Suc (z div 2 ^ Suc k)])
       (puts @ level_puts ar ps d v L R a z k)"
    unfolding level_puts_def div_Suc_pow by simp
  then show ?case using step.hyps by (simp add: step.IH upt_conv_Cons del: power_Suc upt_Suc)
qed

section \<open>A write as a whole\<close>

text \<open>
  What the version manager's reply and the writer's queue look like for a write of the pages
  \<open>a\<close> to \<open>b\<close> as version \<open>v\<close> of blob \<open>d\<close> in a tree of \<open>2 ^ K\<close> pages, with earlier tickets
  \<open>pend\<close>.
\<close>

definition write_request ::
  "u64 \<Rightarrow> u32 \<Rightarrow> u32 \<Rightarrow> nat \<Rightarrow> nat \<Rightarrow> nat \<Rightarrow> interval_list_t \<Rightarrow> vmgr_reply \<Rightarrow> query_t list \<Rightarrow> replica_list_t \<Rightarrow> bool" where
  "write_request ps d v a b K pend reply pages provs \<longleftrightarrow>
     (\<exists>entry. vr_intervals reply = pend @ [entry] \<and>
        fst entry = \<lparr>q_id = d, q_version = v, q_offset = pw ps a, q_size = pw ps (b - a)\<rparr>) \<and>
     (\<forall>e \<in> set pend. q_version (fst e) < v) \<and>
     vr_root_size reply = pw ps (2 ^ K) \<and> rt_page_size (vr_stable_root reply) = ps \<and>
     a < b \<and> b \<le> 2 ^ K \<and> length pages = b - a \<and> page_keys d ps pages \<and>
     (b - a) * unat (rt_replica_count (vr_stable_root reply)) < 2 ^ 32 \<and>
     (b - a) * unat (rt_replica_count (vr_stable_root reply)) \<le> length provs"

definition write_puts ::
  "archive \<Rightarrow> u64 \<Rightarrow> u32 \<Rightarrow> u32 \<Rightarrow> nat \<Rightarrow> nat \<Rightarrow> nat \<Rightarrow> u32 \<Rightarrow> query_t list \<Rightarrow> replica_list_t
     \<Rightarrow> query_t list \<Rightarrow> query_t list \<Rightarrow> dht_put list" where
  "write_puts ar ps d v a b K rc pages provs L R =
     concat (map (\<lambda>t. page_puts ar ps d v a rc provs t (pages ! t)) [0..<length pages]) @
     concat (map (level_puts ar ps d v L R a (b - 1)) [0..<K])"

lemma im_erase_own:
  assumes "\<forall>e \<in> set pend. q_version (fst e) < q_version (fst x)"
  shows "im_erase (fst x) (pend @ [x]) = pend"
  using assms by (intro im_erase_last) (auto simp: versions_def word_less_nat_alt)

lemma writeRecordLocations_siblings:
  assumes fit: "fits ps (2 ^ K)" and req: "write_request ps d v a b K pend reply pages provs"
    and sib: "stable_siblings ar g (rt_node (vr_stable_root reply)) (nodeq ps d v 0 a) (nodeq ps d v 0 (b - 1))
       (pending_siblings ps d v pend K a) (pending_siblings ps d v pend K (b - 1)) = Some (L, R)"
    and ok: "\<forall>n. put_error n = 0"
  shows "writeRecordLocations ar g put_error reply pages provs =
    Some (True, write_puts ar ps d v a b K (rt_replica_count (vr_stable_root reply)) pages provs L R)"
proof -
  let ?q = "\<lparr>q_id = d, q_version = v, q_offset = pw ps a, q_size = pw ps (b - a)\<rparr>"
  let ?rc = "rt_replica_count (vr_stable_root reply)"
  from req obtain entry where ints: "vr_intervals reply = pend @ [entry]" "fst entry = ?q"
    and old: "\<forall>e \<in> set pend. q_version (fst e) < v"
    and root: "vr_root_size reply = pw ps (2 ^ K)" "rt_page_size (vr_stable_root reply) = ps"
    and ab: "a < b" "b \<le> 2 ^ K" and len: "length pages = b - a" and keys: "page_keys d ps pages"
    and provs: "(b - a) * unat ?rc < 2 ^ 32" "(b - a) * unat ?rc \<le> length provs"
    unfolding write_request_def by blast
  define pp where "pp = concat (map (\<lambda>t. page_puts ar ps d v a ?rc provs t (pages ! t)) [0..<length pages])"
  have leaves: "leaf_puts ar ?q ?rc provs 0 pages = Some (map (nodeq ps d v 0) [a..<b], pp)"
    using leaf_puts_pages [of ?q v ps a pages d 0 ?rc provs ar] keys len provs ab
    by (simp add: page_keys_def pp_def)
  have ends: "hd (map (nodeq ps d v 0) [a..<b]) = nodeq ps d v 0 a"
    "last (map (nodeq ps d v 0) [a..<b]) = nodeq ps d v 0 (b - 1)"
    using ab(1) by (simp_all add: hd_map last_map)
  have edges: "edge_leaves ?q ps = (nodeq ps d v 0 a, nodeq ps d v 0 (b - 1))"
    by (rule edge_leaves_pages [OF fit refl ab])
  have csv: "compute_sibling_versions [] (nodeq ps d v 0 e) pend (pw ps (2 ^ K)) = Some (pending_siblings ps d v pend K e)"
    if "e < 2 ^ K" for e
    using compute_sibling_versions_node [OF fit that, of 0 "[]" d v pend] by simp
  have erase: "im_erase ?q (pend @ [entry]) = pend"
    using im_erase_own [of pend entry] old ints(2) by simp
  have upb: "[a..<b] = [a div 2 ^ 0..<Suc ((b - 1) div 2 ^ 0)]" using ab(1) by simp
  have build: "build_tree ar (pw ps (2 ^ K)) L R (map (nodeq ps d v 0) [a..<b]) pp =
      Some (write_puts ar ps d v a b K ?rc pages provs L R)"
    unfolding upb using build_tree_all [OF fit, of a "b - 1" 0] ab by (simp add: write_puts_def pp_def)
  have "pages \<noteq> []" "ps \<noteq> 0" using len ab(1) fit by (auto simp: fits_def)
  moreover have "a < 2 ^ K" "b - 1 < 2 ^ K" using ab by simp_all
  ultimately show ?thesis
    using ok by (simp add: writeRecordLocations_def ints root leaves edges erase csv ends
        sib [unfolded One_nat_def] build no_error_def del: pw_1)
qed

lemma writeRecordLocations_eval:
  assumes fit: "fits ps (2 ^ K)" and zero: "no_zero_keys ar g"
    and req: "write_request ps d v a b K pend reply pages provs"
    and stable: "stable_tree ar g ps K Ks (rt_node (vr_stable_root reply)) f"
    and gap: "\<And>l. q_size (rt_node (vr_stable_root reply)) \<noteq> 0 \<Longrightarrow> Ks < l \<Longrightarrow> l < K \<Longrightarrow> a div 2 ^ l = 1 \<Longrightarrow>
      latest pend (nodeq ps d v l 0) \<noteq> None"
    and ok: "\<forall>n. put_error n = 0"
  obtains L R where
    "writeRecordLocations ar g put_error reply pages provs =
       Some (True, write_puts ar ps d v a b K (rt_replica_count (vr_stable_root reply)) pages provs L R)"
    "\<And>l. l < K \<Longrightarrow> odd (a div 2 ^ l) \<Longrightarrow>
       good_ref ar g ps d pend f l (a div 2 ^ l - 1) (lookup_node ps L l (a div 2 ^ l - 1))"
    "\<And>l. l < K \<Longrightarrow> even ((b - 1) div 2 ^ l) \<Longrightarrow>
       good_ref ar g ps d pend f l (Suc ((b - 1) div 2 ^ l)) (lookup_node ps R l (Suc ((b - 1) div 2 ^ l)))"
proof -
  have ab: "a < b" "b \<le> 2 ^ K" using req by (simp_all add: write_request_def)
  show thesis
    by (rule stable_siblings_good [OF fit zero ab stable gap])
      (assumption+, rule that [OF writeRecordLocations_siblings [OF fit req _ ok]])
qed

text \<open>
  What a store holds once it holds the puts of a write: page entries, leaves, and inner nodes
  whose children are the write's own where they meet its range.
\<close>

definition good_child ::
  "archive \<Rightarrow> dht_values \<Rightarrow> u64 \<Rightarrow> u32 \<Rightarrow> u32 \<Rightarrow> nat \<Rightarrow> nat \<Rightarrow> interval_list_t \<Rightarrow> page_map \<Rightarrow> nat \<Rightarrow> nat \<Rightarrow> query_t \<Rightarrow> bool" where
  "good_child ar g ps d v a b pend f l i q \<longleftrightarrow>
     (if meets l i a b then q = nodeq ps d v l i else good_ref ar g ps d pend f l i q)"

definition holds_puts :: "dht_values \<Rightarrow> dht_put list \<Rightarrow> bool" where
  "holds_puts G puts \<longleftrightarrow> (\<forall>(key, val) \<in> set puts. G key = val)"

lemma holds_putsD: "holds_puts G puts \<Longrightarrow> (key, val) \<in> set puts \<Longrightarrow> G key = val"
  by (auto simp: holds_puts_def)

lemma good_children:
  assumes "a < b" "a div 2 ^ Suc l \<le> j" "j \<le> (b - 1) div 2 ^ Suc l"
    and "odd (a div 2 ^ l) \<Longrightarrow>
       good_ref ar g ps d pend f l (a div 2 ^ l - 1) (lookup_node ps L l (a div 2 ^ l - 1))"
    and "even ((b - 1) div 2 ^ l) \<Longrightarrow>
       good_ref ar g ps d pend f l (Suc ((b - 1) div 2 ^ l)) (lookup_node ps R l (Suc ((b - 1) div 2 ^ l)))"
  shows "good_child ar g ps d v a b pend f l (2 * j)
      (if 2 * j < a div 2 ^ l then lookup_node ps L l (2 * j) else nodeq ps d v l (2 * j))"
    and "good_child ar g ps d v a b pend f l (2 * j + 1)
      (if (b - 1) div 2 ^ l < 2 * j + 1 then lookup_node ps R l (2 * j + 1) else nodeq ps d v l (2 * j + 1))"
proof -
  have lo: "a div 2 ^ l div 2 \<le> j" and hi: "j \<le> (b - 1) div 2 ^ l div 2"
    using assms(2,3) by (simp_all only: div_Suc_pow)
  note met = meets_iff_div [OF assms(1), of l]
  show "good_child ar g ps d v a b pend f l (2 * j)
      (if 2 * j < a div 2 ^ l then lookup_node ps L l (2 * j) else nodeq ps d v l (2 * j))"
  proof (cases "2 * j < a div 2 ^ l")
    case True
    then have "a div 2 ^ l = Suc (2 * j)" using lo by linarith
    then show ?thesis using True assms(4) met [of "2 * j"] by (simp add: good_child_def)
  next
    case False
    then show ?thesis using met [of "2 * j"] hi by (auto simp: good_child_def)
  qed
  show "good_child ar g ps d v a b pend f l (2 * j + 1)
      (if (b - 1) div 2 ^ l < 2 * j + 1 then lookup_node ps R l (2 * j + 1) else nodeq ps d v l (2 * j + 1))"
  proof (cases "(b - 1) div 2 ^ l < 2 * j + 1")
    case True
    then have "(b - 1) div 2 ^ l = 2 * j" using hi by linarith
    then show ?thesis using True assms(5) met [of "2 * j + 1"] by (simp add: good_child_def)
  next
    case False
    then show ?thesis using met [of "2 * j + 1"] lo by (auto simp: good_child_def)
  qed
qed

lemma holds_write_puts:
  assumes "holds_puts G (write_puts ar ps d v a b K rc pages provs L R)" "length pages = b - a" "a < b"
    and good: "\<And>l. l < K \<Longrightarrow> odd (a div 2 ^ l) \<Longrightarrow>
       good_ref ar g ps d pend f l (a div 2 ^ l - 1) (lookup_node ps L l (a div 2 ^ l - 1))"
    "\<And>l. l < K \<Longrightarrow> even ((b - 1) div 2 ^ l) \<Longrightarrow>
       good_ref ar g ps d pend f l (Suc ((b - 1) div 2 ^ l)) (lookup_node ps R l (Suc ((b - 1) div 2 ^ l)))"
  shows "t < b - a \<Longrightarrow> G (dht_key ar (pages ! t)) = buffer_wrapper ar (ser_replica_list ar) (page_providers rc provs t)"
    and "t < b - a \<Longrightarrow> G (dht_key ar (nodeq ps d v 0 (a + t))) = buffer_wrapper ar (ser_dhtnode ar) (leaf_node (pages ! t))"
    and "l < K \<Longrightarrow> meets (Suc l) j a b \<Longrightarrow> \<exists>x y.
       G (dht_key ar (nodeq ps d v (Suc l) j)) = buffer_wrapper ar (ser_dhtnode ar) (inner_node x y) \<and>
       good_child ar g ps d v a b pend f l (2 * j) x \<and> good_child ar g ps d v a b pend f l (2 * j + 1) y"
proof -
  have pages: "G key = val" if "(key, val) \<in> set (page_puts ar ps d v a rc provs t (pages ! t))" "t < b - a" for key val t
  proof -
    have "t \<in> set [0..<length pages]" using that(2) assms(2) by simp
    then have "(key, val) \<in> set (write_puts ar ps d v a b K rc pages provs L R)"
      using that(1) unfolding write_puts_def set_append set_concat set_map by blast
    then show ?thesis by (rule holds_putsD [OF assms(1)])
  qed
  show "G (dht_key ar (pages ! t)) = buffer_wrapper ar (ser_replica_list ar) (page_providers rc provs t)" if "t < b - a"
    using that by (intro pages [of _ _ t]) (simp_all add: page_puts_def)
  show "G (dht_key ar (nodeq ps d v 0 (a + t))) = buffer_wrapper ar (ser_dhtnode ar) (leaf_node (pages ! t))" if "t < b - a"
    using that by (intro pages [of _ _ t]) (simp_all add: page_puts_def)
  assume l: "l < K" and m: "meets (Suc l) j a b"
  have j: "a div 2 ^ Suc l \<le> j" "j \<le> (b - 1) div 2 ^ Suc l"
    using m unfolding meets_iff_div [OF assms(3)] by simp_all
  then have "parent_put ar ps d v L R l (a div 2 ^ l) ((b - 1) div 2 ^ l) j \<in> set (level_puts ar ps d v L R a (b - 1) l)"
    unfolding level_puts_def by (simp del: upt_Suc power_Suc)
  then have "parent_put ar ps d v L R l (a div 2 ^ l) ((b - 1) div 2 ^ l) j
      \<in> set (write_puts ar ps d v a b K rc pages provs L R)"
    using l unfolding write_puts_def by auto
  then show "\<exists>x y. G (dht_key ar (nodeq ps d v (Suc l) j)) = buffer_wrapper ar (ser_dhtnode ar) (inner_node x y) \<and>
       good_child ar g ps d v a b pend f l (2 * j) x \<and> good_child ar g ps d v a b pend f l (2 * j + 1) y"
    using holds_putsD [OF assms(1)] good_children [OF assms(3) j good(1) [OF l] good(2) [OF l]]
    unfolding parent_put_def by blast
qed

section \<open>A write far beyond the end\<close>

text \<open>
  The left siblings of a write whose left end lies at least twice the size of the stable tree
  away from page 0, with no earlier ticket in between: there is no entry for the subtree that
  holds the stable tree.
\<close>

lemma left_sibling_dropped:
  assumes fit: "fits ps (2 ^ K)" and e: "e < 2 ^ K" "l < K" "e div 2 ^ l = 1"
    and stable: "at_node ps Ks 0 q" "Ks < l" and none: "latest pend (nodeq ps d v l 0) = None"
    and X: "set X \<subseteq> {q}"
  shows "lookup_node ps (pending_siblings ps d v pend K e @ X) l 0 = query_t_default"
proof (rule lookup_node_none)
  have "(2 :: nat) ^ Ks \<le> 2 ^ K" using stable(2) e(2) by (intro power_increasing) simp_all
  then have "Suc 0 * 2 ^ Ks \<le> (2 :: nat) ^ K" "Suc 0 * 2 ^ l \<le> (2 :: nat) ^ K" using e(2) by simp_all
  then have "\<not> at_node ps l 0 q" using at_node_inject [OF fit stable(1)] stable(2) by blast
  moreover have "bro (e div 2 ^ l) = 0" using e(3) by (simp add: bro_def)
  ultimately show "\<not> (\<exists>x \<in> set (pending_siblings ps d v pend K e @ X). at_node ps l 0 x)"
    using no_pending_entry [OF fit e(1,2), of pend d v] none X by auto
qed

text \<open>
  C23: a write that begins at or beyond twice the size of the stable tree, with no ticket in
  between, succeeds, but the inner node it stores above page 0 has no left child: the whole
  content of the blob before the write is missing from the new version.
\<close>

theorem write_gap_drops_content:
  assumes "fits ps (2 ^ K)" and "no_zero_keys ar g"
    and "write_request ps d v a b K [] reply pages provs"
    and "stable_tree ar g ps K Ks (rt_node (vr_stable_root reply)) f"
    and "q_size (rt_node (vr_stable_root reply)) \<noteq> 0"
    and "Ks < l" "l < K" "a div 2 ^ l = 1"
  shows "\<exists>puts right. writeRecordLocations ar g (\<lambda>_. 0) reply pages provs = Some (True, puts) \<and>
     (dht_key ar (nodeq ps d v (Suc l) 0),
      buffer_wrapper ar (ser_dhtnode ar) (inner_node query_t_default right)) \<in> set puts"
proof -
  let ?q = "rt_node (vr_stable_root reply)"
  have ab: "a < b" "b \<le> 2 ^ K" using assms(3) by (simp_all add: write_request_def)
  then have e: "a < 2 ^ K" "b - 1 < 2 ^ K" by simp_all
  have q: "Ks \<le> K" "at_node ps Ks 0 ?q" using assms(4,5) by (auto simp: stable_tree_def)
  have la: "2 ^ l \<le> a" using assms(8) by (metis div_less not_le zero_neq_one)
  moreover have "(2 :: nat) ^ Ks \<le> 2 ^ l" using assms(6) by (intro power_increasing) simp_all
  ultimately have "2 ^ Ks \<le> a" by linarith
  then have far: "\<not> intersects ?q (nodeq ps d v 0 a)"
    using stable_intersects [OF assms(1) q e(1), of d v] by simp
  let ?S = "pending_siblings ps d v [] K a" and ?SR = "pending_siblings ps d v [] K (b - 1)"
  define X where "X = (if query_empty (search_list ?S (q_offset ?q) (q_size ?q)) then [?q] else [])"
  from right_siblings_good [OF assms(1,2) e(2) assms(4) refl] obtain R where
    "(if intersects ?q (nodeq ps d v 0 (b - 1))
      then siblings_callback ar g False (nodeq ps d v 0 (b - 1)) ?SR ?q (g (dht_key ar ?q)) else Some ?SR) = Some R"
    by metis
  then have sib: "stable_siblings ar g ?q (nodeq ps d v 0 a) (nodeq ps d v 0 (b - 1)) ?S ?SR = Some (?S @ X, R)"
    using far unfolding stable_siblings_def by (simp only: X_def if_False) simp
  have "set X \<subseteq> {?q}" by (auto simp: X_def)
  then have dropped: "lookup_node ps (?S @ X) l 0 = query_t_default"
    using assms(7) by (intro left_sibling_dropped [OF assms(1) e(1) assms(7,8) q(2) assms(6)]) (simp_all add: latest_def)
  have "a div 2 ^ Suc l = 0" using assms(8) by (simp only: div_Suc_pow [symmetric])
  then have "parent_put ar ps d v (?S @ X) R l 1 ((b - 1) div 2 ^ l) 0 \<in> set (level_puts ar ps d v (?S @ X) R a (b - 1) l)"
    unfolding level_puts_def assms(8) by (simp del: power_Suc upt_Suc)
  then have "parent_put ar ps d v (?S @ X) R l 1 ((b - 1) div 2 ^ l) 0 \<in>
      set (write_puts ar ps d v a b K (rt_replica_count (vr_stable_root reply)) pages provs (?S @ X) R)"
    using assms(7) unfolding write_puts_def by auto
  then show ?thesis
    using writeRecordLocations_siblings [OF assms(1,3) sib, of "\<lambda>_. 0"] dropped
    unfolding parent_put_def by auto
qed

end
