(* ===== verification/Snapshots.thy ===== *)
theory Snapshots
  imports Range_Write
begin

text \<open>
  Versions as snapshots: when writers with tickets 1, 2, \<dots> put their metadata into the DHT, each
  from the reply it got and from what the DHT held for it at that time, the tree of version
  \<open>v\<close> describes the pages of version 0 overwritten by writes 1 to \<open>v\<close> in ticket order, in
  whatever order the writers finished.
\<close>

section \<open>Histories of writes\<close>

text \<open>
  One write: its pages, the level of its tree, the number of the stable version in its reply, the
  DHT as it saw it, the reply, its page keys and providers, and what it put.
\<close>

record write_rec =
  wr_first :: nat
  wr_stop :: nat
  wr_level :: nat
  wr_seen :: nat
  wr_view :: dht_values
  wr_reply :: vmgr_reply
  wr_pages :: "query_t list"
  wr_provs :: replica_list_t
  wr_puts :: "dht_put list"

text \<open>Version \<open>u\<close> is written by the record at position \<open>u - 1\<close>; version 0 is given.\<close>

definition level_of :: "nat \<Rightarrow> write_rec list \<Rightarrow> nat \<Rightarrow> nat" where
  "level_of K0 ws u = (case u of 0 \<Rightarrow> K0 | Suc n \<Rightarrow> wr_level (ws ! n))"

definition root_of :: "u64 \<Rightarrow> u32 \<Rightarrow> query_t \<Rightarrow> write_rec list \<Rightarrow> nat \<Rightarrow> query_t" where
  "root_of ps d q0 ws u =
     (case u of 0 \<Rightarrow> q0 | Suc n \<Rightarrow> nodeq ps d (of_nat (Suc n)) (wr_level (ws ! n)) 0)"

definition written_page :: "u32 \<Rightarrow> write_rec \<Rightarrow> nat \<Rightarrow> page_info" where
  "written_page rc w p =
     (wr_pages w ! (p - wr_first w), page_providers rc (wr_provs w) (p - wr_first w))"

fun content :: "u32 \<Rightarrow> page_map \<Rightarrow> write_rec list \<Rightarrow> nat \<Rightarrow> page_map" where
  "content rc f0 ws 0 = f0"
| "content rc f0 ws (Suc n) =
     (\<lambda>p. if wr_first (ws ! n) \<le> p \<and> p < wr_stop (ws ! n) then Some (written_page rc (ws ! n) p)
          else content rc f0 ws n p)"

text \<open>A store that holds version 0 and the puts of versions 1 to \<open>v\<close>.\<close>

definition store_has ::
  "archive \<Rightarrow> u64 \<Rightarrow> nat \<Rightarrow> query_t \<Rightarrow> page_map \<Rightarrow> write_rec list \<Rightarrow> nat \<Rightarrow> dht_values \<Rightarrow> bool" where
  "store_has ar ps K0 q0 f0 ws v g \<longleftrightarrow>
     no_zero_keys ar g \<and> stable_tree ar g ps K0 K0 q0 f0 \<and>
     (\<forall>n < v. holds_puts g (wr_puts (ws ! n)) \<and> extends (wr_view (ws ! n)) g)"

definition interval_of :: "u64 \<Rightarrow> u32 \<Rightarrow> nat \<Rightarrow> write_rec \<Rightarrow> query_t" where
  "interval_of ps d n w =
     \<lparr>q_id = d, q_version = of_nat (Suc n), q_offset = pw ps (wr_first w),
      q_size = pw ps (wr_stop w - wr_first w)\<rparr>"

text \<open>
  What a writer relies on: its reply lists the writes after the stable version with the ranges
  they got, in ticket order; trees only grow, and a write begins no further than twice the size
  of the tree before it (unless there was none); when it looked, the DHT held the metadata of
  all versions up to the stable one; all its puts succeeded.
\<close>

definition write_ok ::
  "archive \<Rightarrow> u64 \<Rightarrow> u32 \<Rightarrow> u32 \<Rightarrow> nat \<Rightarrow> query_t \<Rightarrow> page_map \<Rightarrow> write_rec list \<Rightarrow> nat \<Rightarrow> write_rec \<Rightarrow> bool" where
  "write_ok ar ps d rc K0 q0 f0 ws n w \<longleftrightarrow>
     fits ps (2 ^ wr_level w) \<and> wr_seen w \<le> n \<and> level_of K0 ws n \<le> wr_level w \<and>
     (n = 0 \<and> q_size q0 = 0 \<or> wr_first w < 2 * 2 ^ level_of K0 ws n) \<and>
     (\<exists>pend. write_request ps d (of_nat (Suc n)) (wr_first w) (wr_stop w) (wr_level w) pend
               (wr_reply w) (wr_pages w) (wr_provs w) \<and>
        map fst pend = map (\<lambda>j. interval_of ps d j (ws ! j)) [wr_seen w..<n]) \<and>
     rt_node (vr_stable_root (wr_reply w)) = root_of ps d q0 ws (wr_seen w) \<and>
     rt_replica_count (vr_stable_root (wr_reply w)) = rc \<and>
     store_has ar ps K0 q0 f0 ws (wr_seen w) (wr_view w) \<and>
     writeRecordLocations ar (wr_view w) (\<lambda>_. 0) (wr_reply w) (wr_pages w) (wr_provs w)
       = Some (True, wr_puts w)"

definition history ::
  "archive \<Rightarrow> u64 \<Rightarrow> u32 \<Rightarrow> u32 \<Rightarrow> nat \<Rightarrow> query_t \<Rightarrow> page_map \<Rightarrow> write_rec list \<Rightarrow> bool" where
  "history ar ps d rc K0 q0 f0 ws \<longleftrightarrow>
     length ws < 2 ^ 32 \<and> (\<forall>n < length ws. write_ok ar ps d rc K0 q0 f0 ws n (ws ! n))"

section \<open>Trees grow\<close>

lemma historyD: "history ar ps d rc K0 q0 f0 ws \<Longrightarrow> n < length ws \<Longrightarrow> write_ok ar ps d rc K0 q0 f0 ws n (ws ! n)"
  by (simp add: history_def)

lemma write_okD:
  assumes "write_ok ar ps d rc K0 q0 f0 ws n w"
  shows "fits ps (2 ^ wr_level w)" "wr_seen w \<le> n" "level_of K0 ws n \<le> wr_level w"
    "n = 0 \<and> q_size q0 = 0 \<or> wr_first w < 2 * 2 ^ level_of K0 ws n"
    "wr_first w < wr_stop w" "wr_stop w \<le> 2 ^ wr_level w" "length (wr_pages w) = wr_stop w - wr_first w"
  using assms by (auto simp: write_ok_def write_request_def)

lemma level_mono:
  assumes "history ar ps d rc K0 q0 f0 ws" "u \<le> v" "v \<le> length ws"
  shows "level_of K0 ws u \<le> level_of K0 ws v"
  using assms(2,3)
proof (induction v rule: dec_induct)
  case (step v)
  then show ?case using write_okD(3) [OF historyD [OF assms(1), of v]] by (simp add: level_of_def)
qed simp

text \<open>A write that makes the tree reach level \<open>k\<close> meets the subtree of level \<open>k\<close> at page 0.\<close>

lemma growth_meets:
  assumes hist: "history ar ps d rc K0 q0 f0 ws" and "u \<le> v" "v \<le> length ws"
    and "level_of K0 ws u < k" "k \<le> level_of K0 ws v" and "u = 0 \<Longrightarrow> q_size q0 \<noteq> 0"
  shows "\<exists>n. u \<le> n \<and> n < v \<and> meets k 0 (wr_first (ws ! n)) (wr_stop (ws ! n))"
  using assms(2-5)
proof (induction v rule: dec_induct)
  case (step v)
  show ?case
  proof (cases "k \<le> level_of K0 ws v")
    case True
    then show ?thesis using step by (meson Suc_leD less_Suc_eq)
  next
    case False
    have w: "write_ok ar ps d rc K0 q0 f0 ws v (ws ! v)" using historyD [OF hist] step.prems by simp
    have "(2 :: nat) * 2 ^ level_of K0 ws v \<le> 2 ^ k"
      using False power_increasing [of "Suc (level_of K0 ws v)" k "2 :: nat"] by simp
    moreover have "wr_first (ws ! v) < 2 * 2 ^ level_of K0 ws v"
      using write_okD(4) [OF w] assms(6) step.hyps by auto
    ultimately have "meets k 0 (wr_first (ws ! v)) (wr_stop (ws ! v))"
      using write_okD(5) [OF w] by (simp add: meets_def)
    then show ?thesis using step.hyps by auto
  qed
qed simp

lemma content_unchanged:
  "u \<le> v \<Longrightarrow> (\<And>n. u \<le> n \<Longrightarrow> n < v \<Longrightarrow> \<not> (wr_first (ws ! n) \<le> p \<and> p < wr_stop (ws ! n))) \<Longrightarrow>
     content rc f0 ws v p = content rc f0 ws u p"
  by (induction v rule: dec_induct) auto

lemma content_beyond:
  assumes "history ar ps d rc K0 q0 f0 ws" "v \<le> length ws" "\<And>p. 2 ^ K0 \<le> p \<Longrightarrow> f0 p = None"
    and "2 ^ level_of K0 ws v \<le> p"
  shows "content rc f0 ws v p = None"
  using assms(2,4)
proof (induction v)
  case 0
  then show ?case using assms(3) by (simp add: level_of_def)
next
  case (Suc v)
  have w: "write_ok ar ps d rc K0 q0 f0 ws v (ws ! v)" using historyD [OF assms(1)] Suc.prems by simp
  have "(2 :: nat) ^ level_of K0 ws v \<le> 2 ^ wr_level (ws ! v)"
    using write_okD(3) [OF w] by (intro power_increasing) simp_all
  moreover have p: "2 ^ wr_level (ws ! v) \<le> p" using Suc.prems(2) by (simp add: level_of_def)
  ultimately have "2 ^ level_of K0 ws v \<le> p" by linarith
  then show ?case using Suc.IH Suc.prems(1) write_okD(6) [OF w] p by simp
qed

section \<open>The latest earlier write that meets a node\<close>

lemma find_rev_None: "find P (rev xs) = None \<longleftrightarrow> (\<forall>x \<in> set xs. \<not> P x)"
  by (auto simp: find_None_iff)

lemma find_rev_Some:
  assumes "find P (rev xs) = Some x"
  obtains j where "j < length xs" "xs ! j = x" "P x" "\<forall>m. j < m \<and> m < length xs \<longrightarrow> \<not> P (xs ! m)"
proof -
  from assms obtain i where i: "i < length xs" "P (rev xs ! i)" "x = rev xs ! i" "\<forall>j < i. \<not> P (rev xs ! j)"
    by (auto simp: find_Some_iff)
  show thesis
  proof (rule that [of "length xs - Suc i"])
    show "\<forall>m. length xs - Suc i < m \<and> m < length xs \<longrightarrow> \<not> P (xs ! m)"
    proof (intro allI impI)
      fix m assume m: "length xs - Suc i < m \<and> m < length xs"
      then have "rev xs ! (length xs - Suc m) = xs ! m" by (subst rev_nth) auto
      moreover have "length xs - Suc m < i" using m i(1) by linarith
      ultimately show "\<not> P (xs ! m)" using i(4) by metis
    qed
  qed (use i in \<open>simp_all add: rev_nth\<close>)
qed

lemma interval_meets:
  assumes hist: "history ar ps d rc K0 q0 f0 ws" and n: "n < length ws" "j < n"
    and node: "Suc i * 2 ^ k \<le> 2 ^ wr_level (ws ! n)"
  shows "intersects (nodeq ps d v k i) (interval_of ps d j (ws ! j)) \<longleftrightarrow>
     meets k i (wr_first (ws ! j)) (wr_stop (ws ! j))"
proof -
  note w = historyD [OF hist n(1)] and wj = historyD [OF hist, of j]
  have jl: "j < length ws" using n by simp
  have "level_of K0 ws (Suc j) \<le> level_of K0 ws n"
    using n by (intro level_mono [OF hist]) simp_all
  then have "(2 :: nat) ^ wr_level (ws ! j) \<le> 2 ^ wr_level (ws ! n)"
    using write_okD(3) [OF w] by (intro power_increasing) (simp_all add: level_of_def)
  then have "wr_stop (ws ! j) \<le> 2 ^ wr_level (ws ! n)" using write_okD(6) [OF wj [OF jl]] by linarith
  then show ?thesis
    using write_okD(5) [OF wj [OF jl]]
    by (intro intersects_node(1) [OF write_okD(1) [OF w] at_node_nodeq node]) (simp_all add: interval_of_def)
qed

lemma latest_write:
  assumes hist: "history ar ps d rc K0 q0 f0 ws" and n: "n < length ws" "s \<le> n"
    and pend: "map fst pend = map (\<lambda>j. interval_of ps d j (ws ! j)) [s..<n]"
    and node: "Suc i * 2 ^ k \<le> 2 ^ wr_level (ws ! n)"
  obtains (none) "latest pend (nodeq ps d v k i) = None"
      "\<And>j. s \<le> j \<Longrightarrow> j < n \<Longrightarrow> \<not> meets k i (wr_first (ws ! j)) (wr_stop (ws ! j))"
  | (some) x j where "latest pend (nodeq ps d v k i) = Some x" "s \<le> j" "j < n"
      "q_version (fst x) = of_nat (Suc j)" "meets k i (wr_first (ws ! j)) (wr_stop (ws ! j))"
      "\<And>m. j < m \<Longrightarrow> m < n \<Longrightarrow> \<not> meets k i (wr_first (ws ! m)) (wr_stop (ws ! m))"
proof -
  have len: "length pend = n - s" using arg_cong [OF pend, of length] by simp
  have nth: "fst (pend ! t) = interval_of ps d (s + t) (ws ! (s + t))" if "t < n - s" for t
    using arg_cong [OF pend, of "\<lambda>xs. xs ! t"] that len by simp
  have meet: "intersects (nodeq ps d v k i) (fst (pend ! t)) \<longleftrightarrow>
      meets k i (wr_first (ws ! (s + t))) (wr_stop (ws ! (s + t)))" if "t < n - s" for t
    using interval_meets [OF hist n(1) _ node, of "s + t" v] nth [OF that] that by simp
  show thesis
  proof (cases "latest pend (nodeq ps d v k i)")
    case None
    show thesis
    proof (rule none [OF None])
      fix j assume j: "s \<le> j" "j < n"
      then have "pend ! (j - s) \<in> set pend" using len by simp
      then show "\<not> meets k i (wr_first (ws ! j)) (wr_stop (ws ! j))"
        using None meet [of "j - s"] j unfolding latest_def find_rev_None by auto
    qed
  next
    case (Some x)
    from find_rev_Some [OF Some [unfolded latest_def]] obtain t where
      t: "t < length pend" "pend ! t = x" "intersects (nodeq ps d v k i) (fst x)"
        "\<forall>m. t < m \<and> m < length pend \<longrightarrow> \<not> intersects (nodeq ps d v k i) (fst (pend ! m))" .
    show thesis
    proof (rule some [OF Some, of "s + t"])
      show "q_version (fst x) = of_nat (Suc (s + t))" using nth [of t] t len by (simp add: interval_of_def)
      show "meets k i (wr_first (ws ! (s + t))) (wr_stop (ws ! (s + t)))" using meet [of t] t len by simp
      fix m assume m: "s + t < m" "m < n"
      then have "t < m - s" "m - s < length pend" using len by linarith+
      then have "\<not> intersects (nodeq ps d v k i) (fst (pend ! (m - s)))" using t(4) by blast
      then show "\<not> meets k i (wr_first (ws ! m)) (wr_stop (ws ! m))" using meet [of "m - s"] m by simp
    qed (use t len n in simp_all)
  qed
qed

section \<open>The tree of a version\<close>

lemma stable_tree_mono: "stable_tree ar g ps K Ks q f \<Longrightarrow> K \<le> K' \<Longrightarrow> stable_tree ar g ps K' Ks q f"
  by (auto simp: stable_tree_def)

lemma store_hasD:
  assumes "store_has ar ps K0 q0 f0 ws v g"
  shows "no_zero_keys ar g" "stable_tree ar g ps K0 K0 q0 f0"
    "n < v \<Longrightarrow> holds_puts g (wr_puts (ws ! n))" "n < v \<Longrightarrow> extends (wr_view (ws ! n)) g"
    "u \<le> v \<Longrightarrow> store_has ar ps K0 q0 f0 ws u g" "2 ^ K0 \<le> p \<Longrightarrow> f0 p = None"
  using assms by (auto simp: store_has_def stable_tree_def)

lemma node_inside:
  assumes "i * 2 ^ k < (2 :: nat) ^ K" "k \<le> K"
  shows "Suc i * 2 ^ k \<le> 2 ^ K"
proof -
  obtain m where m: "K = k + m" using assms(2) le_Suc_ex by blast
  then have "i * 2 ^ k < 2 ^ m * 2 ^ k" using assms(1) by (simp add: power_add mult.commute)
  then have "i < 2 ^ m" by simp
  then have "Suc i * 2 ^ k \<le> 2 ^ m * 2 ^ k" by (intro mult_le_mono1) simp
  then show ?thesis by (simp add: m power_add mult.commute)
qed

text \<open>A write's left end is below twice the size of the tree before it.\<close>

lemma first_level:
  assumes "write_ok ar ps d rc K0 q0 f0 ws n w" "2 ^ l \<le> wr_first w" "\<not> (n = 0 \<and> q_size q0 = 0)"
  shows "l \<le> level_of K0 ws n"
proof -
  have "(2 :: nat) ^ l < 2 ^ Suc (level_of K0 ws n)" using write_okD(4) [OF assms(1)] assms(2,3) by simp
  then show ?thesis by (metis less_Suc_eq_le one_less_numeral_iff power_less_imp_less_exp semiring_norm(76))
qed

text \<open>The node of the latest earlier write that meets a node exists in that write's tree.\<close>

lemma latest_node_exists:
  assumes hist: "history ar ps d rc K0 q0 f0 ws" and n: "n < length ws" "j < n"
    and met: "meets l i (wr_first (ws ! j)) (wr_stop (ws ! j))"
    and own: "\<not> meets l i (wr_first (ws ! n)) (wr_stop (ws ! n))"
    and later: "\<And>m. j < m \<Longrightarrow> m < n \<Longrightarrow> \<not> meets l i (wr_first (ws ! m)) (wr_stop (ws ! m))"
  shows "l \<le> wr_level (ws ! j) \<and> Suc i * 2 ^ l \<le> 2 ^ wr_level (ws ! j)"
proof -
  have wj: "write_ok ar ps d rc K0 q0 f0 ws j (ws ! j)" and wn: "write_ok ar ps d rc K0 q0 f0 ws n (ws ! n)"
    using historyD [OF hist] n by simp_all
  have below: "i * 2 ^ l < 2 ^ wr_level (ws ! j)" using met write_okD(6) [OF wj] by (simp add: meets_def)
  have "l \<le> wr_level (ws ! j)"
  proof (rule ccontr)
    assume "\<not> l \<le> wr_level (ws ! j)"
    then have gt: "wr_level (ws ! j) < l" by simp
    then have "(2 :: nat) ^ wr_level (ws ! j) \<le> 2 ^ l" by (intro power_increasing) simp_all
    then have "i * 2 ^ l < 1 * 2 ^ l" using below by linarith
    then have i0: "i = 0" unfolding mult_less_cancel2 by simp
    then have "2 ^ l \<le> wr_first (ws ! n)" using own write_okD(5) [OF wn] by (simp add: meets_def not_less)
    then have "l \<le> level_of K0 ws n" using first_level [OF wn] n by blast
    with growth_meets [OF hist, of "Suc j" n l] gt n obtain m where
      "Suc j \<le> m" "m < n" "meets l 0 (wr_first (ws ! m)) (wr_stop (ws ! m))" by (auto simp: level_of_def)
    with later i0 show False by auto
  qed
  with node_inside [OF below this] show ?thesis by simp
qed

text \<open>What a store that holds the puts of write \<open>n\<close> holds for its tree.\<close>

lemma version_puts:
  assumes hist: "history ar ps d rc K0 q0 f0 ws" and n: "n < length ws"
    and stable: "stable_tree ar (wr_view (ws ! n)) ps (wr_level (ws ! n)) (level_of K0 ws (wr_seen (ws ! n)))
      (root_of ps d q0 ws (wr_seen (ws ! n))) f"
    and holds: "holds_puts G (wr_puts (ws ! n))"
  obtains pend where "map fst pend = map (\<lambda>j. interval_of ps d j (ws ! j)) [wr_seen (ws ! n)..<n]"
    "\<And>t. t < wr_stop (ws ! n) - wr_first (ws ! n) \<Longrightarrow>
       G (dht_key ar (wr_pages (ws ! n) ! t)) =
         buffer_wrapper ar (ser_replica_list ar) (page_providers rc (wr_provs (ws ! n)) t)"
    "\<And>t. t < wr_stop (ws ! n) - wr_first (ws ! n) \<Longrightarrow>
       G (dht_key ar (nodeq ps d (of_nat (Suc n)) 0 (wr_first (ws ! n) + t))) =
         buffer_wrapper ar (ser_dhtnode ar) (leaf_node (wr_pages (ws ! n) ! t))"
    "\<And>l j. l < wr_level (ws ! n) \<Longrightarrow> meets (Suc l) j (wr_first (ws ! n)) (wr_stop (ws ! n)) \<Longrightarrow> \<exists>x y.
       G (dht_key ar (nodeq ps d (of_nat (Suc n)) (Suc l) j)) = buffer_wrapper ar (ser_dhtnode ar) (inner_node x y) \<and>
       good_child ar (wr_view (ws ! n)) ps d (of_nat (Suc n)) (wr_first (ws ! n)) (wr_stop (ws ! n)) pend f l (2 * j) x \<and>
       good_child ar (wr_view (ws ! n)) ps d (of_nat (Suc n)) (wr_first (ws ! n)) (wr_stop (ws ! n)) pend f l (2 * j + 1) y"
proof -
  let ?w = "ws ! n" and ?v = "of_nat (Suc n) :: u32" and ?s = "wr_seen (ws ! n)"
  have w: "write_ok ar ps d rc K0 q0 f0 ws n ?w" using historyD [OF hist n] .
  then obtain pend where req: "write_request ps d ?v (wr_first ?w) (wr_stop ?w) (wr_level ?w) pend
      (wr_reply ?w) (wr_pages ?w) (wr_provs ?w)"
    and pend: "map fst pend = map (\<lambda>j. interval_of ps d j (ws ! j)) [?s..<n]"
    and root: "rt_node (vr_stable_root (wr_reply ?w)) = root_of ps d q0 ws ?s"
    and rc: "rt_replica_count (vr_stable_root (wr_reply ?w)) = rc"
    and has: "store_has ar ps K0 q0 f0 ws ?s (wr_view ?w)"
    and run: "writeRecordLocations ar (wr_view ?w) (\<lambda>_. 0) (wr_reply ?w) (wr_pages ?w) (wr_provs ?w)
       = Some (True, wr_puts ?w)"
    unfolding write_ok_def by blast
  have gap: "latest pend (nodeq ps d ?v l 0) \<noteq> None"
    if l: "q_size (rt_node (vr_stable_root (wr_reply ?w))) \<noteq> 0" "level_of K0 ws ?s < l" "l < wr_level ?w"
      "wr_first ?w div 2 ^ l = 1" for l
  proof -
    have size: "?s = 0 \<Longrightarrow> q_size q0 \<noteq> 0" using l(1) root by (simp add: root_of_def)
    have "2 ^ l \<le> wr_first ?w" using l(4) by (metis div_less not_le zero_neq_one)
    then have "l \<le> level_of K0 ws n" using first_level [OF w] size write_okD(2) [OF w] by fastforce
    with growth_meets [OF hist write_okD(2) [OF w] _ l(2) _ size] n obtain m where
      m: "?s \<le> m" "m < n" "meets l 0 (wr_first (ws ! m)) (wr_stop (ws ! m))" by auto
    have "Suc 0 * 2 ^ l \<le> (2 :: nat) ^ wr_level ?w" using l(3) by simp
    from latest_write [OF hist n write_okD(2) [OF w] pend this, of ?v] m show ?thesis by (metis option.distinct(1))
  qed
  show thesis
  proof (rule writeRecordLocations_eval [OF write_okD(1) [OF w] store_hasD(1) [OF has] req
        stable [folded root] gap, of "\<lambda>_. 0"])
    fix L R
    assume eval: "writeRecordLocations ar (wr_view ?w) (\<lambda>_. 0) (wr_reply ?w) (wr_pages ?w) (wr_provs ?w) =
        Some (True, write_puts ar ps d ?v (wr_first ?w) (wr_stop ?w) (wr_level ?w)
          (rt_replica_count (vr_stable_root (wr_reply ?w))) (wr_pages ?w) (wr_provs ?w) L R)"
      and good: "\<And>l. l < wr_level ?w \<Longrightarrow> odd (wr_first ?w div 2 ^ l) \<Longrightarrow>
        good_ref ar (wr_view ?w) ps d pend f l (wr_first ?w div 2 ^ l - 1) (lookup_node ps L l (wr_first ?w div 2 ^ l - 1))"
      "\<And>l. l < wr_level ?w \<Longrightarrow> even ((wr_stop ?w - 1) div 2 ^ l) \<Longrightarrow>
        good_ref ar (wr_view ?w) ps d pend f l (Suc ((wr_stop ?w - 1) div 2 ^ l)) (lookup_node ps R l (Suc ((wr_stop ?w - 1) div 2 ^ l)))"
    have "wr_puts ?w = write_puts ar ps d ?v (wr_first ?w) (wr_stop ?w) (wr_level ?w) rc (wr_pages ?w) (wr_provs ?w) L R"
      using run eval rc by simp
    note h = holds_write_puts [OF holds [unfolded this] write_okD(7,5) [OF w] good]
    show thesis by (rule that [OF pend]) (use h in blast)+
  qed simp_all
qed

text \<open>A child reference of write \<open>n\<close> leads to the pages of its version.\<close>

lemma child_represents:
  assumes hist: "history ar ps d rc K0 q0 f0 ws" and n: "n < length ws"
    and pend: "map fst pend = map (\<lambda>j. interval_of ps d j (ws ! j)) [wr_seen (ws ! n)..<n]"
    and view: "extends (wr_view (ws ! n)) G"
    and child: "good_child ar (wr_view (ws ! n)) ps d (of_nat (Suc n)) (wr_first (ws ! n)) (wr_stop (ws ! n)) pend
      (content rc f0 ws (wr_seen (ws ! n))) l i q"
    and bnd: "Suc i * 2 ^ l \<le> 2 ^ wr_level (ws ! n)"
    and own: "meets l i (wr_first (ws ! n)) (wr_stop (ws ! n)) \<Longrightarrow>
      represents ar G ps l i (nodeq ps d (of_nat (Suc n)) l i) (content rc f0 ws (Suc n))"
    and older: "\<And>j. j < n \<Longrightarrow> l \<le> wr_level (ws ! j) \<Longrightarrow> Suc i * 2 ^ l \<le> 2 ^ wr_level (ws ! j) \<Longrightarrow>
      meets l i (wr_first (ws ! j)) (wr_stop (ws ! j)) \<Longrightarrow>
      represents ar G ps l i (nodeq ps d (of_nat (Suc j)) l i) (content rc f0 ws (Suc j))"
  shows "represents ar G ps l i q (content rc f0 ws (Suc n))"
proof (cases "meets l i (wr_first (ws ! n)) (wr_stop (ws ! n))")
  case True
  then show ?thesis using child own by (simp add: good_child_def)
next
  case False
  then have ref: "good_ref ar (wr_view (ws ! n)) ps d pend (content rc f0 ws (wr_seen (ws ! n))) l i q"
    using child by (simp add: good_child_def)
  have same: "content rc f0 ws (Suc n) p = content rc f0 ws u p"
    if "\<And>m. u \<le> m \<Longrightarrow> m < n \<Longrightarrow> \<not> meets l i (wr_first (ws ! m)) (wr_stop (ws ! m))" "u \<le> n"
      "i * 2 ^ l \<le> p" "p < Suc i * 2 ^ l" for u p
  proof (rule content_unchanged)
    fix m assume m: "u \<le> m" "m < Suc n"
    then have "\<not> meets l i (wr_first (ws ! m)) (wr_stop (ws ! m))" using that(1) False by (cases "m = n") auto
    then show "\<not> (wr_first (ws ! m) \<le> p \<and> p < wr_stop (ws ! m))" using that(3,4) unfolding meets_def by linarith
  qed (use that in simp)
  have seen: "wr_seen (ws ! n) \<le> n" using write_okD(2) [OF historyD [OF hist n]] .
  from hist n seen pend bnd show ?thesis
  proof (cases rule: latest_write [where v = 0])
    case none
    then have "represents ar G ps l i q (content rc f0 ws (wr_seen (ws ! n)))"
      using ref view by (auto simp: good_ref_def intro: represents_extends)
    then show ?thesis by (rule represents_cong) (rule same [OF none(2) seen, symmetric])
  next
    case (some x j)
    then have q: "q = nodeq ps d (of_nat (Suc j)) l i" using ref by (simp add: good_ref_def)
    from latest_node_exists [OF hist n some(3,5) False some(6)] some(3,5)
    have "represents ar G ps l i q (content rc f0 ws (Suc j))" unfolding q by (intro older) auto
    moreover have "\<not> meets l i (wr_first (ws ! m)) (wr_stop (ws ! m))" if "Suc j \<le> m" "m < n" for m
      using some(6) that by simp
    note same [OF this, of "Suc j"]
    ultimately show ?thesis using some(3) by (elim represents_cong) simp
  qed
qed

lemma seen_tree:
  assumes hist: "history ar ps d rc K0 q0 f0 ws" and n: "n < length ws"
    and older: "\<And>m. m < n \<Longrightarrow> wr_seen (ws ! n) = Suc m \<Longrightarrow>
      represents ar (wr_view (ws ! n)) ps (wr_level (ws ! m)) 0
        (nodeq ps d (of_nat (Suc m)) (wr_level (ws ! m)) 0) (content rc f0 ws (Suc m))"
  shows "stable_tree ar (wr_view (ws ! n)) ps (wr_level (ws ! n)) (level_of K0 ws (wr_seen (ws ! n)))
    (root_of ps d q0 ws (wr_seen (ws ! n))) (content rc f0 ws (wr_seen (ws ! n)))"
proof -
  let ?w = "ws ! n" and ?s = "wr_seen (ws ! n)"
  have w: "write_ok ar ps d rc K0 q0 f0 ws n ?w" using historyD [OF hist n] .
  have has: "store_has ar ps K0 q0 f0 ws ?s (wr_view ?w)" using w by (simp add: write_ok_def)
  have "level_of K0 ws ?s \<le> level_of K0 ws n"
    using level_mono [OF hist write_okD(2) [OF w]] n by simp
  then have lev: "level_of K0 ws ?s \<le> wr_level ?w" using write_okD(3) [OF w] by simp
  show ?thesis
  proof (cases ?s)
    case 0
    then show ?thesis
      using stable_tree_mono [OF store_hasD(2) [OF has]] lev by (simp add: level_of_def root_of_def)
  next
    case (Suc m)
    have m: "m < n" "Suc m \<le> length ws" using write_okD(2) [OF w] Suc n by simp_all
    have "content rc f0 ws (Suc m) p = None" if "2 ^ wr_level (ws ! m) \<le> p" for p
      using content_beyond [OF hist m(2) store_hasD(6) [OF has], of p] that by (simp add: level_of_def)
    then show ?thesis
      using older [OF m(1) Suc] lev Suc by (auto simp: stable_tree_def level_of_def root_of_def)
  qed
qed

lemma tree_above_leaves:
  assumes ar: "archive_ok ar" and hist: "history ar ps d rc K0 q0 f0 ws" and n: "n < length ws"
    and has: "store_has ar ps K0 q0 f0 ws (Suc n) G"
    and stable: "stable_tree ar (wr_view (ws ! n)) ps (wr_level (ws ! n)) (level_of K0 ws (wr_seen (ws ! n)))
      (root_of ps d q0 ws (wr_seen (ws ! n))) (content rc f0 ws (wr_seen (ws ! n)))"
    and older: "\<And>j l i. j < n \<Longrightarrow> l \<le> wr_level (ws ! j) \<Longrightarrow> Suc i * 2 ^ l \<le> 2 ^ wr_level (ws ! j) \<Longrightarrow>
      meets l i (wr_first (ws ! j)) (wr_stop (ws ! j)) \<Longrightarrow>
      represents ar G ps l i (nodeq ps d (of_nat (Suc j)) l i) (content rc f0 ws (Suc j))"
  shows "k \<le> wr_level (ws ! n) \<Longrightarrow> meets k i (wr_first (ws ! n)) (wr_stop (ws ! n)) \<Longrightarrow>
    Suc i * 2 ^ k \<le> 2 ^ wr_level (ws ! n) \<Longrightarrow>
    represents ar G ps k i (nodeq ps d (of_nat (Suc n)) k i) (content rc f0 ws (Suc n))"
proof -
  let ?w = "ws ! n" and ?f = "content rc f0 ws (wr_seen (ws ! n))"
  let ?good = "\<lambda>pend. good_child ar (wr_view ?w) ps d (of_nat (Suc n)) (wr_first ?w) (wr_stop ?w) pend ?f"
  from version_puts [OF hist n stable store_hasD(3) [OF has]] obtain pend where
    pend: "map fst pend = map (\<lambda>j. interval_of ps d j (ws ! j)) [wr_seen ?w..<n]"
    and page: "\<And>t. t < wr_stop ?w - wr_first ?w \<Longrightarrow> G (dht_key ar (wr_pages ?w ! t)) =
         buffer_wrapper ar (ser_replica_list ar) (page_providers rc (wr_provs ?w) t)"
    and leaf: "\<And>t. t < wr_stop ?w - wr_first ?w \<Longrightarrow>
       G (dht_key ar (nodeq ps d (of_nat (Suc n)) 0 (wr_first ?w + t))) =
         buffer_wrapper ar (ser_dhtnode ar) (leaf_node (wr_pages ?w ! t))"
    and inner: "\<And>l j. l < wr_level ?w \<Longrightarrow> meets (Suc l) j (wr_first ?w) (wr_stop ?w) \<Longrightarrow> \<exists>x y.
       G (dht_key ar (nodeq ps d (of_nat (Suc n)) (Suc l) j)) = buffer_wrapper ar (ser_dhtnode ar) (inner_node x y) \<and>
       ?good pend l (2 * j) x \<and> ?good pend l (2 * j + 1) y"
    by blast
  have node: "read_node ar (buffer_wrapper ar (ser_dhtnode ar) x) = Some x" for x
    using ar by (simp add: read_node_def)
  have view: "extends (wr_view ?w) G" using store_hasD(4) [OF has, of n] by simp
  show "k \<le> wr_level ?w \<Longrightarrow> meets k i (wr_first ?w) (wr_stop ?w) \<Longrightarrow> Suc i * 2 ^ k \<le> 2 ^ wr_level ?w \<Longrightarrow>
    represents ar G ps k i (nodeq ps d (of_nat (Suc n)) k i) (content rc f0 ws (Suc n))"
  proof (induction k arbitrary: i)
    case 0
    then have i: "wr_first ?w \<le> i" "i < wr_stop ?w" by (simp_all add: meets_def)
    then have "leaf_info ar G (nodeq ps d (of_nat (Suc n)) 0 i) = Some (written_page rc ?w i)"
      using page [of "i - wr_first ?w"] leaf [of "i - wr_first ?w"] ar
      by (simp add: leaf_info_def node leaf_node_def dhtnode_make_def written_page_def)
    then show ?case using i by simp
  next
    case (Suc k)
    then have k: "k < wr_level ?w" by simp
    have child: "represents ar G ps k j q (content rc f0 ws (Suc n))"
      if "?good pend k j q" "Suc j * 2 ^ k \<le> 2 ^ wr_level ?w" for j q
      by (rule child_represents [OF hist n pend view that])
        (use Suc.IH k that(2) older in \<open>simp_all del: content.simps\<close>)
    have "Suc (2 * i) * 2 ^ k \<le> 2 ^ wr_level ?w" "Suc (2 * i + 1) * 2 ^ k \<le> 2 ^ wr_level ?w"
      using Suc.prems(3) by (simp_all add: algebra_simps)
    with inner [OF k Suc.prems(2)] child obtain x y where
      "G (dht_key ar (nodeq ps d (of_nat (Suc n)) (Suc k) i)) = buffer_wrapper ar (ser_dhtnode ar) (inner_node x y)"
      "represents ar G ps k (2 * i) x (content rc f0 ws (Suc n))"
      "represents ar G ps k (2 * i + 1) y (content rc f0 ws (Suc n))" by blast
    then show ?case using node by (simp add: inner_node_def dhtnode_make_def del: content.simps)
  qed
qed

lemma version_tree:
  assumes ar: "archive_ok ar" and hist: "history ar ps d rc K0 q0 f0 ws"
  shows "n < length ws \<Longrightarrow> store_has ar ps K0 q0 f0 ws (Suc n) G \<Longrightarrow> k \<le> wr_level (ws ! n) \<Longrightarrow>
    meets k i (wr_first (ws ! n)) (wr_stop (ws ! n)) \<Longrightarrow> Suc i * 2 ^ k \<le> 2 ^ wr_level (ws ! n) \<Longrightarrow>
    represents ar G ps k i (nodeq ps d (of_nat (Suc n)) k i) (content rc f0 ws (Suc n))"
proof (induction n arbitrary: G k i rule: less_induct)
  case (less n)
  have has: "store_has ar ps K0 q0 f0 ws (wr_seen (ws ! n)) (wr_view (ws ! n))"
    using historyD [OF hist less.prems(1)] by (simp add: write_ok_def)
  have "represents ar (wr_view (ws ! n)) ps (wr_level (ws ! m)) 0
      (nodeq ps d (of_nat (Suc m)) (wr_level (ws ! m)) 0) (content rc f0 ws (Suc m))"
    if m: "m < n" "wr_seen (ws ! n) = Suc m" for m
  proof (rule less.IH [OF m(1)])
    show "m < length ws" using m(1) less.prems(1) by simp
    from write_okD(5,6) [OF historyD [OF hist this]]
    show "meets (wr_level (ws ! m)) 0 (wr_first (ws ! m)) (wr_stop (ws ! m))" by (simp add: meets_def)
  qed (use has m in simp_all)
  note stable = seen_tree [OF hist less.prems(1) this]
  have "represents ar G ps l i (nodeq ps d (of_nat (Suc j)) l i) (content rc f0 ws (Suc j))"
    if "j < n" "l \<le> wr_level (ws ! j)" "Suc i * 2 ^ l \<le> 2 ^ wr_level (ws ! j)"
      "meets l i (wr_first (ws ! j)) (wr_stop (ws ! j))" for j l i
    using that less.prems(1) store_hasD(5) [OF less.prems(2), of "Suc j"] by (intro less.IH) simp_all
  then show ?case by (intro tree_above_leaves [OF ar hist less.prems(1,2) stable] less.prems(3-5)) blast+
qed

lemma version_represents:
  assumes "archive_ok ar" and "history ar ps d rc K0 q0 f0 ws" and "n < length ws"
    and "store_has ar ps K0 q0 f0 ws (Suc n) G" and "rt_node root = root_of ps d q0 ws (Suc n)"
  shows "represents ar G ps (wr_level (ws ! n)) 0 (rt_node root) (content rc f0 ws (Suc n))"
    "at_node ps (wr_level (ws ! n)) 0 (rt_node root)" "fits ps (2 ^ wr_level (ws ! n))" "no_zero_keys ar G"
proof -
  have w: "write_ok ar ps d rc K0 q0 f0 ws n (ws ! n)" using historyD [OF assms(2,3)] .
  have "meets (wr_level (ws ! n)) 0 (wr_first (ws ! n)) (wr_stop (ws ! n))"
    using write_okD(5,6) [OF w] by (simp add: meets_def)
  then show "represents ar G ps (wr_level (ws ! n)) 0 (rt_node root) (content rc f0 ws (Suc n))"
    using version_tree [OF assms(1-4), of "wr_level (ws ! n)" 0] by (simp add: assms(5) root_of_def del: content.simps)
  show "at_node ps (wr_level (ws ! n)) 0 (rt_node root)" by (simp add: assms(5) root_of_def)
  show "fits ps (2 ^ wr_level (ws ! n))" using write_okD(1) [OF w] .
  show "no_zero_keys ar G" using store_hasD(1) [OF assms(4)] .
qed

section \<open>Snapshots\<close>

text \<open>
  C4: snapshot isolation with lock-free concurrent writers. Reading any pages of version \<open>v\<close>
  from a DHT that holds the metadata of versions up to \<open>v\<close> (and anything else that other
  writers put) gives for each page the last write with a ticket up to \<open>v\<close> that covers it,
  whatever the order in which the writers ran and the DHT answers. If each page of the range was
  written the read succeeds; it always ends.
\<close>

theorem read_version:
  assumes "archive_ok ar" and "history ar ps d rc K0 q0 f0 ws" and "n < length ws"
    and "store_has ar ps K0 q0 f0 ws (Suc n) G"
    and "rt_node root = root_of ps d q0 ws (Suc n)" and "rt_page_size root = ps"
    and "q_offset rng = pw ps a" "q_size rng = pw ps (b - a)" "a < b" "b \<le> 2 ^ wr_level (ws ! n)"
    and "length leaves = b - a" "b - a < 2 ^ 32"
  shows "\<exists>ok result. readRecordLocations ar G pick leaves rng root = Some (ok, result) \<and>
     length result = b - a \<and>
     ((\<forall>p. a \<le> p \<and> p < b \<longrightarrow> content rc f0 ws (Suc n) p \<noteq> None) \<longrightarrow> ok) \<and>
     (ok \<longrightarrow> (\<forall>p x. a \<le> p \<and> p < b \<and> content rc f0 ws (Suc n) p = Some x \<longrightarrow>
        result ! (p - a) = page_result x))"
  using read_total [OF version_represents(3) [OF assms(1-5)] assms(6) version_represents(2,1,4) [OF assms(1-5)] assms(7-12)]
  by blast

section \<open>Instances\<close>

text \<open>
  A new blob with 8-byte pages and one replica, and a first write of two pages, on an empty DHT.
\<close>

definition ex_pages :: "query_t list" where
  "ex_pages = [\<lparr>q_id = 1, q_version = 77, q_offset = 0, q_size = 8\<rparr>,
               \<lparr>q_id = 1, q_version = 77, q_offset = 1, q_size = 8\<rparr>]"

definition ex_provs :: replica_list_t where
  "ex_provs = [\<lparr>pd_host = ''a'', pd_service = ''1''\<rparr>, \<lparr>pd_host = ''b'', pd_service = ''1''\<rparr>]"

definition ex_reply :: vmgr_reply where
  "ex_reply = \<lparr>vr_intervals = [(\<lparr>q_id = 1, q_version = 1, q_offset = 0, q_size = 16\<rparr>,
                                 (root_t_make 1 1 8 16 1, False))],
               vr_root_size = 16, vr_stable_root = root_t_make 1 0 8 0 1\<rparr>"

definition ex_puts :: "dht_put list" where
  "ex_puts = write_puts plain_archive 8 1 1 0 2 1 1 ex_pages ex_provs [] []"

definition ex_write :: write_rec where
  "ex_write = \<lparr>wr_first = 0, wr_stop = 2, wr_level = 1, wr_seen = 0, wr_view = (\<lambda>_. []),
     wr_reply = ex_reply, wr_pages = ex_pages, wr_provs = ex_provs, wr_puts = ex_puts\<rparr>"

definition ex_store :: dht_values where
  "ex_store b = (case map_of ex_puts b of Some v \<Rightarrow> v | None \<Rightarrow> [])"

definition ex_base :: query_t where
  "ex_base = rt_node (root_t_make 1 0 8 0 1)"

lemma dht_key_eq_iff: "archive_ok ar \<Longrightarrow> dht_key ar p = dht_key ar q \<longleftrightarrow> p = q"
  by (simp add: dht_key_def buffer_wrapper_inject)

lemma ex_puts_eq:
  "ex_puts =
     [(dht_key plain_archive (ex_pages ! 0), buffer_wrapper plain_archive (ser_replica_list plain_archive) [ex_provs ! 0]),
      (dht_key plain_archive (nodeq 8 1 1 0 0), buffer_wrapper plain_archive (ser_dhtnode plain_archive) (leaf_node (ex_pages ! 0))),
      (dht_key plain_archive (ex_pages ! 1), buffer_wrapper plain_archive (ser_replica_list plain_archive) [ex_provs ! 1]),
      (dht_key plain_archive (nodeq 8 1 1 0 1), buffer_wrapper plain_archive (ser_dhtnode plain_archive) (leaf_node (ex_pages ! 1))),
      (dht_key plain_archive (nodeq 8 1 1 1 0), buffer_wrapper plain_archive (ser_dhtnode plain_archive)
         (inner_node (nodeq 8 1 1 0 0) (nodeq 8 1 1 0 1)))]"
  by (simp add: ex_puts_def write_puts_def page_puts_def level_puts_def parent_put_def page_providers_def
      ex_pages_def upt_rec)

lemma ex_keys_distinct: "distinct (map fst ex_puts)"
  by (simp add: ex_puts_eq dht_key_eq_iff [OF plain_archive_ok] ex_pages_def nodeq_def pw_def)

lemma ex_store_holds: "holds_puts ex_store ex_puts"
  unfolding holds_puts_def ex_store_def using ex_keys_distinct by (auto simp: map_of_eq_Some_iff split: option.split)

lemma ex_no_zero: "no_zero_keys plain_archive ex_store" "no_zero_keys plain_archive (\<lambda>_. [])"
proof -
  have "map_of ex_puts (dht_key plain_archive q) = None" if "q_id q = 0" for q
    using that by (auto simp: ex_puts_eq dht_key_eq_iff [OF plain_archive_ok] ex_pages_def nodeq_def)
  then show "no_zero_keys plain_archive ex_store" by (simp add: no_zero_keys_def ex_store_def read_node_def)
  show "no_zero_keys plain_archive (\<lambda>_. [])" by (simp add: no_zero_keys_def read_node_def)
qed

lemma ex_fits: "fits 8 (2 ^ 1)"
  by (simp add: fits_def)

lemma ex_stable: "stable_tree ar g 8 K Ks ex_base Map.empty"
  by (simp add: stable_tree_def ex_base_def root_t_make_def)

lemma ex_request: "write_request 8 1 1 0 2 1 [] ex_reply ex_pages ex_provs"
proof -
  have "page_keys 1 8 ex_pages" by (auto simp: page_keys_def ex_pages_def less_Suc_eq)
  then show ?thesis
    by (simp add: write_request_def ex_reply_def root_t_make_def ex_pages_def ex_provs_def pw_def)
qed

lemma ex_run:
  "writeRecordLocations plain_archive (\<lambda>_. []) (\<lambda>_. 0) ex_reply ex_pages ex_provs = Some (True, ex_puts)"
proof (rule writeRecordLocations_eval [OF ex_fits ex_no_zero(2) ex_request, of 0 Map.empty "\<lambda>_. 0"])
  show "stable_tree plain_archive (\<lambda>_. []) 8 1 0 (rt_node (vr_stable_root ex_reply)) Map.empty"
    using ex_stable by (simp add: ex_base_def ex_reply_def)
  fix L R
  assume "writeRecordLocations plain_archive (\<lambda>_. []) (\<lambda>_. 0) ex_reply ex_pages ex_provs =
    Some (True, write_puts plain_archive 8 1 1 0 2 1 (rt_replica_count (vr_stable_root ex_reply)) ex_pages ex_provs L R)"
  then show ?thesis
    by (simp add: ex_puts_def ex_reply_def root_t_make_def write_puts_def level_puts_def parent_put_def)
qed (simp_all add: ex_reply_def root_t_make_def)

lemma ex_history: "history plain_archive 8 1 1 0 ex_base Map.empty [ex_write]"
  using ex_fits ex_no_zero ex_stable ex_run ex_request
  by (auto simp: history_def write_ok_def ex_write_def level_of_def root_of_def ex_base_def ex_reply_def
      root_t_make_def store_has_def)

lemma ex_has: "store_has plain_archive 8 0 ex_base Map.empty [ex_write] (Suc 0) ex_store"
  using ex_no_zero ex_stable ex_store_holds by (simp add: store_has_def ex_write_def extends_def)

theorem read_version_witness:
  "\<exists>result. readRecordLocations plain_archive ex_store (\<lambda>_. 0) (replicate 2 random_select_init)
      \<lparr>q_id = 1, q_version = 1, q_offset = 0, q_size = 16\<rparr> (root_t_make 1 1 8 16 1) = Some (True, result) \<and>
    result ! 1 = page_result (ex_pages ! 1, [ex_provs ! 1])"
proof -
  have eqs: "rt_node (root_t_make 1 1 8 16 1) = root_of 8 1 ex_base [ex_write] (Suc 0)"
    "rt_page_size (root_t_make 1 1 8 16 1) = 8" "0 < length [ex_write]" "ex_write = [ex_write] ! 0"
    by (simp_all add: root_t_make_def root_of_def ex_write_def nodeq_def pw_def)
  from read_version [OF plain_archive_ok ex_history eqs(3) ex_has eqs(1,2),
      of "\<lparr>q_id = 1, q_version = 1, q_offset = 0, q_size = 16\<rparr>" 0 2 "replicate 2 random_select_init" "\<lambda>_. 0"]
  obtain ok result where
    run: "readRecordLocations plain_archive ex_store (\<lambda>_. 0) (replicate 2 random_select_init)
      \<lparr>q_id = 1, q_version = 1, q_offset = 0, q_size = 16\<rparr> (root_t_make 1 1 8 16 1) = Some (ok, result)"
    and all: "(\<forall>p. 0 \<le> p \<and> p < 2 \<longrightarrow> content 1 Map.empty [ex_write] (Suc 0) p \<noteq> None) \<longrightarrow> ok"
    and each: "ok \<longrightarrow> (\<forall>p x. 0 \<le> p \<and> p < 2 \<and> content 1 Map.empty [ex_write] (Suc 0) p = Some x \<longrightarrow>
       result ! (p - 0) = page_result x)"
    by (auto simp: pw_def ex_write_def)
  have "ok" using all by (simp add: ex_write_def)
  moreover have "content 1 Map.empty [ex_write] (Suc 0) 1 = Some (ex_pages ! 1, [ex_provs ! 1])"
    by (simp add: ex_write_def written_page_def page_providers_def upt_rec)
  ultimately show ?thesis using run each by fastforce
qed

theorem read_finds_pages_witness:
  "\<exists>result. readRecordLocations plain_archive ex_store (\<lambda>s. length (rd_pending s) - 1)
      [random_select_init] \<lparr>q_id = 1, q_version = 1, q_offset = 8, q_size = 8\<rparr> (root_t_make 1 1 8 16 1)
        = Some (True, result) \<and> result ! 0 = page_result (ex_pages ! 1, [ex_provs ! 1])"
proof -
  let ?rng = "\<lparr>q_id = 1, q_version = 1, q_offset = 8, q_size = 8\<rparr>"
  let ?f = "content 1 Map.empty [ex_write] (Suc 0)"
  have root: "rt_node (root_t_make 1 1 8 16 1) = nodeq 8 1 1 1 0" "rt_page_size (root_t_make 1 1 8 16 1) = 8"
    by (simp_all add: root_t_make_def nodeq_def pw_def)
  have rep: "represents plain_archive ex_store 8 1 0 (rt_node (root_t_make 1 1 8 16 1)) ?f"
    using version_tree [OF plain_archive_ok ex_history _ ex_has, of 1 0]
    unfolding root by (simp add: ex_write_def meets_def del: content.simps)
  have at: "at_node 8 1 0 (rt_node (root_t_make 1 1 8 16 1))" unfolding root by simp
  have f1: "?f 1 = Some (ex_pages ! 1, [ex_provs ! 1])" "\<forall>p. 1 \<le> p \<and> p < 2 \<longrightarrow> ?f p \<noteq> None"
    by (simp_all add: ex_write_def written_page_def page_providers_def upt_rec)
  have geo: "q_offset ?rng = pw 8 1" "q_size ?rng = pw 8 (2 - 1)" by (simp_all add: pw_def)
  from read_finds_pages [OF ex_fits root(2) at rep ex_no_zero(1) geo,
      where pick = "\<lambda>s. length (rd_pending s) - 1" and leaves = "[random_select_init]"]
  obtain ok result where
    run: "readRecordLocations plain_archive ex_store (\<lambda>s. length (rd_pending s) - 1) [random_select_init] ?rng
      (root_t_make 1 1 8 16 1) = Some (ok, result)"
    and "ok" and "\<forall>p x. 1 \<le> p \<and> p < 2 \<and> ?f p = Some x \<longrightarrow> result ! (p - 1) = page_result x"
    using f1(2) by auto
  then have "result ! (1 - 1) = page_result (ex_pages ! 1, [ex_provs ! 1])" using f1(1) by (metis le_refl one_less_numeral_iff semiring_norm(76))
  with run \<open>ok\<close> show ?thesis by auto
qed

text \<open>Then a write of page 4, far beyond the two pages there are.\<close>

definition gap_reply :: vmgr_reply where
  "gap_reply = \<lparr>vr_intervals = [(\<lparr>q_id = 1, q_version = 2, q_offset = 32, q_size = 8\<rparr>,
                                  (root_t_make 1 2 8 64 1, False))],
                vr_root_size = 64, vr_stable_root = root_t_make 1 1 8 16 1\<rparr>"

lemma ex_tree: "represents plain_archive ex_store 8 1 0 (nodeq 8 1 1 1 0) (content 1 Map.empty [ex_write] (Suc 0))"
  using version_tree [OF plain_archive_ok ex_history _ ex_has, of 1 0]
  by (simp add: ex_write_def meets_def del: content.simps)

theorem write_gap_drops_content_witness:
  "\<exists>puts right. writeRecordLocations plain_archive ex_store (\<lambda>_. 0) gap_reply
       [\<lparr>q_id = 1, q_version = 99, q_offset = 0, q_size = 8\<rparr>] [ex_provs ! 0] = Some (True, puts) \<and>
     (dht_key plain_archive (nodeq 8 1 2 3 0),
      buffer_wrapper plain_archive (ser_dhtnode plain_archive) (inner_node query_t_default right)) \<in> set puts"
proof -
  have fit: "fits 8 (2 ^ 3)" by (simp add: fits_def)
  have req: "write_request 8 1 2 4 5 3 [] gap_reply [\<lparr>q_id = 1, q_version = 99, q_offset = 0, q_size = 8\<rparr>] [ex_provs ! 0]"
    by (simp add: write_request_def gap_reply_def root_t_make_def page_keys_def pw_def)
  have root: "rt_node (vr_stable_root gap_reply) = nodeq 8 1 1 1 0"
    by (simp add: gap_reply_def root_t_make_def nodeq_def pw_def)
  have st: "stable_tree plain_archive ex_store 8 3 1 (rt_node (vr_stable_root gap_reply)) (content 1 Map.empty [ex_write] (Suc 0))"
    using ex_tree by (auto simp: root stable_tree_def ex_write_def)
  have "q_size (rt_node (vr_stable_root gap_reply)) \<noteq> 0" by (simp add: root pw_def)
  from write_gap_drops_content [OF fit ex_no_zero(1) req st this, of 2] show ?thesis
    by (simp add: numeral_3_eq_3)
qed

end
