(* ===== verification/Object_Write.thy ===== *)
theory Object_Write
  imports Object_Handler Snapshots
begin

text \<open>
  The protocol of a write (\<open>exec_write\<close>): pages, then ticket, then metadata, then publication, and
  the termination of the loop over the retries.
\<close>

section \<open>Writing the pages\<close>

definition retries_left :: "u32 \<Rightarrow> writes_state \<Rightarrow> nat" where
  "retries_left retry s = sum_list (map (\<lambda>p. Suc (unat (retry - pw_retries p))) (ws_pending s))"

lemma retry_decreases:
  assumes "pw_retries p \<noteq> (retry :: u32)"
  shows "unat (retry - (pw_retries p + 1)) < unat (retry - pw_retries p)"
proof -
  have eq: "retry - (pw_retries p + 1) = (retry - pw_retries p) - 1" by simp
  have "0 < unat (retry - pw_retries p)" using assms by (simp add: unat_gt_0)
  then show ?thesis unfolding eq by (simp add: unat_sub_if')
qed

lemma sum_list_remove_nth:
  fixes f :: "'a \<Rightarrow> nat"
  assumes "n < length xs"
  shows "sum_list (map f xs) = sum_list (map f (take n xs @ drop (Suc n) xs)) + f (xs ! n)"
  by (subst id_take_nth_drop [OF assms]) simp

lemma answer_write_decreases:
  assumes "ws_pending s \<noteq> []"
  shows "retries_left retry (answer_write env retry s) < retries_left retry s"
proof -
  let ?n = "en_pick env (ws_log s) mod length (ws_pending s)"
  have "?n < length (ws_pending s)" using assms by simp
  from sum_list_remove_nth [OF this, of "\<lambda>p. Suc (unat (retry - pw_retries p))"] have
    "retries_left retry s = sum_list (map (\<lambda>p. Suc (unat (retry - pw_retries p))) (take ?n (ws_pending s) @ drop (Suc ?n) (ws_pending s)))
      + Suc (unat (retry - pw_retries (ws_pending s ! ?n)))"
    by (simp only: retries_left_def)
  then show ?thesis using retry_decreases [of "ws_pending s ! ?n" retry]
    by (auto simp: answer_write_def rpc_write_callback_def retries_left_def Let_def split: prod.splits)
qed

lemma run_writes_rule:
  assumes "I s" and "\<And>s. I s \<Longrightarrow> ws_pending s \<noteq> [] \<Longrightarrow> I (answer_write env retry s)"
  shows "\<exists>s'. run_writes env retry s = Some s' \<and> I s' \<and> ws_pending s' = []"
  using assms(1)
proof (induction "retries_left retry s" arbitrary: s rule: less_induct)
  case less
  show ?case
  proof (cases "ws_pending s = []")
    case True
    with less.prems show ?thesis by (simp add: run_writes.simps)
  next
    case False
    from less.hyps [OF answer_write_decreases [OF False] assms(2) [OF less.prems False]] show ?thesis
      by (subst run_writes.simps) (simp add: False)
  qed
qed

text \<open>
  \<open>C k\<close> is the call for the \<open>k\<close>-th of \<open>N\<close> replicas. A set bit stands for a call that was answered.
\<close>

definition writes_inv :: "(nat \<Rightarrow> rpc_call) \<Rightarrow> nat \<Rightarrow> nat \<Rightarrow> oh_log \<Rightarrow> writes_state \<Rightarrow> bool" where
  "writes_inv C N n log s \<longleftrightarrow>
     (\<forall>p \<in> set (ws_pending s). pw_call p = C (pw_k p) \<and> pw_k p < N) \<and> N \<le> n \<and> length (ws_results s) = n \<and>
     (\<exists>W. ws_log s = log @ W \<and> (\<forall>e \<in> set W. \<exists>k < N. \<exists>a. e = Called (C k) a) \<and>
        (\<forall>k < n. ws_results s ! k \<longrightarrow> (\<exists>b. Called (C k) (rpc_ok, b) \<in> set W)))"

lemma answer_write_inv:
  assumes "writes_inv C N n log s" "ws_pending s \<noteq> []"
  shows "writes_inv C N n log (answer_write env retry s)"
proof -
  let ?n = "en_pick env (ws_log s) mod length (ws_pending s)"
  let ?p = "ws_pending s ! ?n"
  have "?p \<in> set (ws_pending s)" using assms(2) by simp
  then have p: "pw_call ?p = C (pw_k ?p)" "pw_k ?p < N" using assms(1) by (simp_all add: writes_inv_def)
  obtain st b where a: "managed_answer (rc_buffers (pw_call ?p)) (en_answer env (ws_log s) (pw_call ?p)) = (st, b)"
    by (metis surj_pair)
  let ?s = "s\<lparr>ws_pending := take ?n (ws_pending s) @ drop (Suc ?n) (ws_pending s), ws_log := ws_log s @ [Called (C (pw_k ?p)) (st, b)]\<rparr>"
  have step: "answer_write env retry s = rpc_write_callback retry ?p (st, b) ?s"
    using a by (simp add: answer_write_def answer_call_def Let_def p(1))
  have sub: "set (ws_pending ?s) \<subseteq> set (ws_pending s)" by (auto dest: in_set_takeD in_set_dropD)
  obtain W where W: "ws_log s = log @ W" "\<forall>e \<in> set W. \<exists>k < N. \<exists>a. e = Called (C k) a"
    "\<forall>k < n. ws_results s ! k \<longrightarrow> (\<exists>b. Called (C k) (rpc_ok, b) \<in> set W)"
    using assms(1) by (auto simp: writes_inv_def)
  have len: "length (ws_results s) = n" "N \<le> n" and pend: "\<forall>p \<in> set (ws_pending s). pw_call p = C (pw_k p) \<and> pw_k p < N"
    using assms(1) by (simp_all add: writes_inv_def)
  let ?W = "W @ [Called (C (pw_k ?p)) (st, b)]"
  have "\<forall>k < n. (ws_results s)[pw_k ?p := (st = rpc_ok)] ! k \<longrightarrow> (\<exists>b. Called (C k) (rpc_ok, b) \<in> set ?W)"
    using W(3) len p(2) by (auto simp: nth_list_update)
  then have ex: "\<exists>W. log @ ?W = log @ W \<and> (\<forall>e \<in> set W. \<exists>k < N. \<exists>a. e = Called (C k) a) \<and>
      (\<forall>k < n. (ws_results s)[pw_k ?p := (st = rpc_ok)] ! k \<longrightarrow> (\<exists>b. Called (C k) (rpc_ok, b) \<in> set W))"
    using W(2) p(2) by (intro exI [of _ ?W]) auto
  show ?thesis
    unfolding step writes_inv_def using sub pend ex len p W(1)
    by (auto simp: rpc_write_callback_def Let_def)
qed

lemma pages_written_True:
  assumes "pages_written rc results = Some True" "0 < rc" "Suc i * rc \<le> length results"
  shows "\<exists>k \<in> {i * rc..<Suc i * rc}. results ! k"
  using assms
proof (induction rc results arbitrary: i rule: pages_written.induct)
  case (1 rc results)
  then have ne: "results \<noteq> []" by auto
  with 1(2) have found: "True \<in> set (take rc results)" and rest: "pages_written rc (drop rc results) = Some True"
    by (auto simp: pages_written.simps [of rc results] split: if_splits)
  show ?case
  proof (cases i)
    case 0
    from found obtain k where "k < rc" "k < length results" "results ! k" by (auto simp: in_set_conv_nth)
    with 0 show ?thesis by auto
  next
    case (Suc j)
    have "Suc j * rc \<le> length (drop rc results)" using 1(4) Suc by simp
    from 1(1) [OF ne found rest 1(3) this] obtain k where "k \<in> {j * rc..<Suc j * rc}" "drop rc results ! k" by blast
    moreover have "rc \<le> length results" using 1(4) by simp
    ultimately show ?thesis using Suc by (intro bexI [of _ "rc + k"]) auto
  qed
qed

section \<open>The protocol\<close>

definition replica_call ::
  "archive \<Rightarrow> u32 \<Rightarrow> u32 \<Rightarrow> u64 \<Rightarrow> nat \<Rightarrow> replica_list_t \<Rightarrow> buffer \<Rightarrow> nat \<Rightarrow> rpc_call" where
  "replica_call ar bid v psize rc adv buf k =
     write_call (adv ! k) (dht_key ar (write_page_key bid v psize (k div rc)))
       (page_value psize buf (k div rc))"

lemma page_writes_calls:
  assumes "p \<in> set (concat (map (page_writes ar bid v psize rc adv buf) [0..<n]))"
  shows "pw_call p = replica_call ar bid v psize rc adv buf (pw_k p) \<and> pw_k p < n * rc"
proof -
  obtain i k where i: "i < n" "i * rc \<le> k" "k < i * rc + rc" and p: "pw_k p = k"
    "pw_call p = write_call (adv ! k) (dht_key ar (write_page_key bid v psize i)) (page_value psize buf i)"
    using assms by (auto simp: page_writes_def Let_def)
  have "k div rc = i" using i by (intro div_nat_eqI) (auto simp: mult.commute)
  moreover have "k < Suc i * rc" using i by simp
  then have "k < n * rc" using i(1) by (meson Suc_leI less_le_trans mult_le_mono1)
  ultimately show ?thesis using p by (simp add: replica_call_def)
qed

text \<open>A successful \<open>writeRecordLocations\<close> has stored all it has put.\<close>

lemma written_no_error:
  assumes "writeRecordLocations ar g put_error reply keys adv = Some (True, puts)"
  shows "put_events put_error puts = map Stored puts"
proof -
  have "no_error put_error (length puts)"
    using assms by (auto simp: writeRecordLocations_def Let_def split: if_splits prod.splits Option.bind_splits)
  then show ?thesis by (auto simp: no_error_def put_events_def intro!: nth_equalityI)
qed

lemma put_events_puts: "Called c a \<notin> set (put_events put_error puts)"
  by (auto simp: put_events_def dest: set_zip_leftD)

lemma write_metadata_publishes:
  assumes "write_metadata ar env reply keys adv oh log = (r, oh', log')"
  shows "\<exists>puts. log' = log @ put_events (en_put_error env log) puts \<and> r \<noteq> Ret True \<or>
    (\<exists>a. log' = log @ map Stored puts @ [Called (vmgr_call oh VMGR_PUBLISH [dht_key ar (fst (last (vr_intervals reply)))]) a] \<and>
       writeRecordLocations ar (en_dht env log) (en_put_error env log) reply keys adv = Some (True, puts) \<and>
       r = Ret (fst a = rpc_ok))"
proof (cases "vr_intervals reply = [] \<or> writeRecordLocations ar (en_dht env log) (en_put_error env log) reply keys adv = None")
  case True
  then have "log' = log @ put_events (en_put_error env log) []" "r \<noteq> Ret True"
    using assms by (auto simp: write_metadata_def Let_def put_events_def split: if_splits)
  then show ?thesis by blast
next
  case False
  let ?puts = "put_events (en_put_error env log)"
  obtain ok puts where w: "writeRecordLocations ar (en_dht env log) (en_put_error env log) reply keys adv = Some (ok, puts)"
    using False by auto
  obtain a log1 where a: "answer_call env (vmgr_call oh VMGR_PUBLISH [dht_key ar (fst (last (vr_intervals reply)))]) (log @ ?puts puts) = (a, log1)"
    "log1 = (log @ ?puts puts) @ [Called (vmgr_call oh VMGR_PUBLISH [dht_key ar (fst (last (vr_intervals reply)))]) a]"
    by (simp add: answer_call_def Let_def)
  have r: "(r, log') = (if ok then (Ret (fst a = rpc_ok), log1) else (Ret False, log @ ?puts puts))"
    using assms False w a(1) by (cases ok) (auto simp: write_metadata_def Let_def rpc_result_callback_def split: if_splits)
  show ?thesis
  proof (cases ok)
    case True
    with r have "r = Ret (fst a = rpc_ok)" "log' = log1" by simp_all
    with True w a(2) written_no_error [of ar _ _ reply keys adv puts] show ?thesis
      by (intro exI [of _ puts] disjI2 exI [of _ a]) simp
  next
    case False
    with r show ?thesis by (intro exI [of _ puts] disjI1) simp
  qed
qed

lemma write_ticket_publishes:
  assumes "write_ticket ar env rng ap keys adv oh log = (r, oh', log')"
  obtains (refused) a e puts where "log' = log @ [Called (vmgr_call oh VMGR_GETTICKET [dht_key ar rng, buffer_wrapper ar (ar_bool ar) ap]) a] @ put_events e puts"
      "r \<noteq> Ret True"
  | (published) a reply puts b where
      "log' = log @ [Called (vmgr_call oh VMGR_GETTICKET [dht_key ar rng, buffer_wrapper ar (ar_bool ar) ap]) a] @ map Stored puts @
         [Called (vmgr_call oh VMGR_PUBLISH [dht_key ar (fst (last (vr_intervals reply)))]) b]"
      "rpc_get_serialized ar (ser_vmgr_reply ar) vmgr_reply_default a = (True, reply)"
      "\<And>log1. log1 = log @ [Called (vmgr_call oh VMGR_GETTICKET [dht_key ar rng, buffer_wrapper ar (ar_bool ar) ap]) a] \<Longrightarrow>
         writeRecordLocations ar (en_dht env log1) (en_put_error env log1) reply keys adv = Some (True, puts)"
      "r = Ret (fst b = rpc_ok)"
proof -
  let ?c = "vmgr_call oh VMGR_GETTICKET [dht_key ar rng, buffer_wrapper ar (ar_bool ar) ap]"
  obtain a log1 where a: "answer_call env ?c log = (a, log1)" "log1 = log @ [Called ?c a]" by (simp add: answer_call_def Let_def)
  obtain ok reply where g: "rpc_get_serialized ar (ser_vmgr_reply ar) vmgr_reply_default a = (ok, reply)" by (metis surj_pair)
  show thesis
  proof (cases ok)
    case False
    then have "r = Ret False" "log' = log1" using assms a(1) g by (auto simp: write_ticket_def)
    then show thesis using a(2) by (intro refused [of a _ "[]"]) (simp_all add: put_events_def)
  next
    case True
    then have "write_metadata ar env reply keys adv oh log1 = (r, oh', log')" using assms a(1) g by (simp add: write_ticket_def)
    from write_metadata_publishes [OF this] show thesis
    proof (elim exE disjE conjE)
      fix puts assume "log' = log1 @ put_events (en_put_error env log1) puts" "r \<noteq> Ret True"
      then show thesis using a(2) by (intro refused [of a _ puts]) simp_all
    next
      fix puts b
      assume "log' = log1 @ map Stored puts @ [Called (vmgr_call oh VMGR_PUBLISH [dht_key ar (fst (last (vr_intervals reply)))]) b]"
        "writeRecordLocations ar (en_dht env log1) (en_put_error env log1) reply keys adv = Some (True, puts)" "r = Ret (fst b = rpc_ok)"
      then show thesis using a(2) g True by (intro published [of a puts reply b]) auto
    qed
  qed
qed

lemma exec_write_stages:
  assumes "exec_write ar env offset sz buf ap oh log = (r, oh', log')"
    and "psize = rt_page_size (latest_root oh)" "rc = unat (rt_replica_count (latest_root oh))" "0 < rc"
    and "v = en_rnd env log" "n = page_count psize sz"
  obtains (stopped) es where "log' = log @ es" "\<forall>e \<in> set es. \<exists>c a. e = Called c a \<and> rc_name c \<noteq> VMGR_PUBLISH" "r \<noteq> Ret True"
  | (written) get W adv where
      "\<exists>c a. get = Called c a \<and> rc_name c = PUBLISHER_GET \<and> rpc_get_serialized ar (ser_replica_list ar) [] a = (True, adv)"
      "\<forall>e \<in> set W. \<exists>k < n * rc. \<exists>a. e = Called (replica_call ar (oh_id oh) v psize rc adv buf k) a"
      "\<forall>i < n. \<exists>k \<in> {i * rc..<Suc i * rc}. \<exists>b. Called (replica_call ar (oh_id oh) v psize rc adv buf k) (rpc_ok, b) \<in> set W"
      "write_ticket ar env \<lparr>q_id = oh_id oh, q_version = v, q_offset = offset, q_size = sz\<rparr> ap
         (map (write_page_key (oh_id oh) v psize) [0..<n]) adv oh (log @ [get] @ W) = (r, oh', log')"
proof (cases "psize = 0 \<or> en_assert env \<and> \<not> (offset mod psize = 0 \<and> sz mod psize = 0)")
  case True
  then have "log' = log" "r \<noteq> Ret True" using assms(1) by (auto simp: exec_write_def Let_def assms(2) split: if_splits)
  then show thesis by (intro stopped [of "[]"]) simp_all
next
  case go: False
  let ?rc = "rt_replica_count (latest_root oh)"
  let ?wanted = "sz div psize * ucast ?rc"
  let ?c = "plain_call (publisher_host oh) (publisher_service oh) PUBLISHER_GET
     [buffer_wrapper ar (ar_u64 ar) ?wanted, buffer_wrapper ar (ar_u32 ar) ?rc]"
  let ?rng = "\<lparr>q_id = oh_id oh, q_version = v, q_offset = offset, q_size = sz\<rparr>"
  let ?keys = "map (write_page_key (oh_id oh) v psize) [0..<n]"
  obtain a log1 where a: "answer_call env ?c log = (a, log1)" "log1 = log @ [Called ?c a]" by (simp add: answer_call_def Let_def)
  obtain ok adv where g: "rpc_get_serialized ar (ser_replica_list ar) [] a = (ok, adv)" by (metis surj_pair)
  have get: "rc_name ?c = PUBLISHER_GET" and name: "rc_name ?c \<noteq> VMGR_PUBLISH" by (simp_all add: plain_call_def rpc_names)
  define short where "short \<longleftrightarrow> n \<noteq> 0 \<and> length buf < (n - 1) * unat psize + unat (ucast psize :: u32)"
  have eq: "exec_write ar env offset sz buf ap oh log =
    (if \<not> ok \<or> length adv < unat ?wanted then (Ret False, oh, log1)
     else if short \<or> length adv < n * rc then (Und ''adv[k], buffer'', oh, log1)
     else if 2 ^ 32 \<le> length adv + rc then (Und ''unsigned int k'', oh, log1)
     else case run_writes env (retry_count oh)
            \<lparr>ws_pending = concat (map (page_writes ar (oh_id oh) v psize rc adv buf) [0..<n]),
             ws_results = replicate (length adv) False, ws_log = log1\<rparr> of
          None \<Rightarrow> (Und ''run'', oh, log1)
        | Some s \<Rightarrow>
            (case pages_written rc (ws_results s) of
               None \<Rightarrow> (Und ''page_results[k]'', oh, ws_log s)
             | Some False \<Rightarrow> (Ret False, oh, ws_log s)
             | Some True \<Rightarrow> write_ticket ar env ?rng ap ?keys adv oh (ws_log s)))"
    using go a(1) g unfolding short_def assms(2,3,5,6) by (cases "en_assert env") (simp_all add: exec_write_def Let_def)
  show thesis
  proof (cases "\<not> ok \<or> length adv < unat ?wanted \<or> short \<or> length adv < n * rc \<or> 2 ^ 32 \<le> length adv + rc")
    case True
    then have "log' = log1" "r \<noteq> Ret True" using assms(1) unfolding eq by (auto split: if_splits)
    then show thesis using a(2) name by (intro stopped [of "[Called ?c a]"]) auto
  next
    case False
    let ?C = "replica_call ar (oh_id oh) v psize rc adv buf"
    let ?s = "\<lparr>ws_pending = concat (map (page_writes ar (oh_id oh) v psize rc adv buf) [0..<n]),
             ws_results = replicate (length adv) False, ws_log = log1\<rparr>"
    have "writes_inv ?C (n * rc) (length adv) log1 ?s"
      using False page_writes_calls [of _ ar "oh_id oh" v psize rc adv buf n] by (fastforce simp: writes_inv_def)
    from run_writes_rule [of "writes_inv ?C (n * rc) (length adv) log1", OF this answer_write_inv]
    obtain s where s: "run_writes env (retry_count oh) ?s = Some s" "writes_inv ?C (n * rc) (length adv) log1 s" by blast
    from s(2) obtain W where W: "ws_log s = log1 @ W" "\<forall>e \<in> set W. \<exists>k < n * rc. \<exists>a. e = Called (?C k) a"
      "\<forall>k < length adv. ws_results s ! k \<longrightarrow> (\<exists>b. Called (?C k) (rpc_ok, b) \<in> set W)" "length (ws_results s) = length adv"
      by (auto simp: writes_inv_def)
    have Wn: "\<forall>e \<in> set W. \<exists>c a. e = Called c a \<and> rc_name c \<noteq> VMGR_PUBLISH"
      using W(2) by (fastforce simp: replica_call_def write_call_def plain_call_def rpc_names)
    show thesis
    proof (cases "pages_written rc (ws_results s) = Some True")
      case False': False
      then have "log' = ws_log s" "r \<noteq> Ret True"
        using assms(1) False s(1) unfolding eq by (auto split: option.splits bool.splits)
      then show thesis using a(2) name W(1) Wn by (intro stopped [of "Called ?c a # W"]) auto
    next
      case True
      have acks: "\<exists>k \<in> {i * rc..<Suc i * rc}. \<exists>b. Called (?C k) (rpc_ok, b) \<in> set W" if "i < n" for i
      proof -
        have "Suc i * rc \<le> n * rc" using that by (intro mult_le_mono1) simp
        then have le: "Suc i * rc \<le> length adv" using False by simp
        from pages_written_True [OF True assms(4), of i] obtain k where k: "k \<in> {i * rc..<Suc i * rc}" "ws_results s ! k"
          using le W(4) by auto
        then have "k < length adv" using le by auto
        with W(3) k show ?thesis by blast
      qed
      have "write_ticket ar env ?rng ap ?keys adv oh (ws_log s) = (r, oh', log')"
        using assms(1) False s(1) True unfolding eq by simp
      then show thesis using a(2) g False get W(1,2) acks by (intro written [of "Called ?c a" adv W]) auto
    qed
  qed
qed

text \<open>
  C8: A client asks the version manager to publish a write only after every page of the write was
  acknowledged by at least one of its providers, after it got a ticket, and after the DHT stored
  the whole metadata of the ticket's version, every put of \<open>writeRecordLocations\<close> without an error; the calls and stores happen in this order, the
  publication is the last of them, and the write reports success exactly if the version manager
  accepted it.
\<close>

theorem publish_comes_last:
  assumes "exec_write ar env offset sz buf is_append oh log = (r, oh', log')"
    and "psize = rt_page_size (latest_root oh)" "rc = unat (rt_replica_count (latest_root oh))" "0 < rc"
    and "Called c a \<in> set (drop (length log) log')" "rc_name c = VMGR_PUBLISH"
  shows "\<exists>v get W adv ticket reply puts.
    log' = log @ [get] @ W @ [ticket] @ map Stored puts @ [Called c a] \<and>
    (\<forall>i < page_count psize sz. \<exists>k \<in> {i * rc..<Suc i * rc}. \<exists>b.
       Called (write_call (adv ! k) (dht_key ar (write_page_key (oh_id oh) v psize i))
         (page_value psize buf i)) (rpc_ok, b) \<in> set W) \<and>
    (\<exists>answer. ticket = Called (vmgr_call oh VMGR_GETTICKET
         [dht_key ar \<lparr>q_id = oh_id oh, q_version = v, q_offset = offset, q_size = sz\<rparr>,
          buffer_wrapper ar (ar_bool ar) is_append]) answer \<and>
       rpc_get_serialized ar (ser_vmgr_reply ar) vmgr_reply_default answer = (True, reply)) \<and>
    writeRecordLocations ar (en_dht env (log @ [get] @ W @ [ticket])) (en_put_error env (log @ [get] @ W @ [ticket])) reply
      (map (write_page_key (oh_id oh) v psize) [0..<page_count psize sz]) adv = Some (True, puts) \<and>
    c = vmgr_call oh VMGR_PUBLISH [dht_key ar (fst (last (vr_intervals reply)))] \<and>
    r = Ret (fst a = rpc_ok)"
  using assms(1-4) refl refl
proof (cases rule: exec_write_stages)
  case (stopped es)
  with assms(5,6) show ?thesis by fastforce
next
  case (written get W adv)
  let ?v = "en_rnd env log"
  have page: "k div rc = i" if "k \<in> {i * rc..<Suc i * rc}" for i k
    using that by (intro div_nat_eqI) (auto simp: mult.commute)
  have acks: "\<forall>i < page_count psize sz. \<exists>k \<in> {i * rc..<Suc i * rc}. \<exists>b.
       Called (write_call (adv ! k) (dht_key ar (write_page_key (oh_id oh) ?v psize i))
         (page_value psize buf i)) (rpc_ok, b) \<in> set W"
    using written(3) page unfolding replica_call_def by metis
  have W: "Called c a \<notin> set (get # W)"
    using written(1,2) assms(6) by (auto simp: replica_call_def write_call_def plain_call_def rpc_names)
  have tick: "rc_name (vmgr_call oh VMGR_GETTICKET ps) \<noteq> VMGR_PUBLISH" for ps by (simp add: vmgr_call_def plain_call_def rpc_names)
  from written(4) show ?thesis
  proof (cases rule: write_ticket_publishes)
    case (refused b e puts)
    with assms(5,6) W tick put_events_puts [of c a e puts] show ?thesis by auto
  next
    case (published b reply puts b')
    with assms(5,6) W tick have eq: "Called c a = Called (vmgr_call oh VMGR_PUBLISH [dht_key ar (fst (last (vr_intervals reply)))]) b'"
      by auto
    let ?t = "Called (vmgr_call oh VMGR_GETTICKET [dht_key ar \<lparr>q_id = oh_id oh, q_version = ?v, q_offset = offset, q_size = sz\<rparr>,
          buffer_wrapper ar (ar_bool ar) is_append]) b"
    from eq published acks show ?thesis
      by - (rule exI [of _ ?v], rule exI [of _ get], rule exI [of _ W], rule exI [of _ adv], rule exI [of _ ?t],
          rule exI [of _ reply], rule exI [of _ puts], cases b, auto)
  qed
qed

section \<open>Instances\<close>

text \<open>
  A write of two pages on an empty blob; \<open>st\<close> is what the version manager answers to the publication.
\<close>

definition ex_env :: "rpcreturn_t \<Rightarrow> env" where
  "ex_env st = \<lparr>en_answer = (\<lambda>log c.
       if rc_name c = VMGR_PUBLISH then (st, [])
       else if rc_host c = ''pm'' then (rpc_ok, [buffer_wrapper plain_archive (ser_replica_list plain_archive) ex_provs])
       else if rc_host c = ''vm'' then (rpc_ok, [buffer_wrapper plain_archive (ser_vmgr_reply plain_archive) ex_reply])
       else (rpc_ok, [])),
     en_pick = (\<lambda>log. 0), en_dht = (\<lambda>log b. []), en_dht_pick = (\<lambda>log s. 0), en_put_error = (\<lambda>log n. 0),
     en_rand = (\<lambda>log i rs. 0), en_rnd = (\<lambda>log. 77), en_assert = False\<rparr>"

definition ex_handler :: object_handler where
  "ex_handler = (object_handler_new 3 ''pm'' ''1'' ''vm'' ''1'')\<lparr>oh_id := 1, latest_root := root_t_make 1 0 8 0 1\<rparr>"

lemma managed_answer_plain [simp]: "managed_answer [] a = a"
proof -
  have "find (bad_result [] (snd a)) [0..<length (snd a)] = None" by (simp add: find_None_iff bad_result_def)
  then show ?thesis by (cases a) (simp add: managed_answer_def)
qed

lemma ex_reply_intervals: "vr_intervals ex_reply \<noteq> []"
  by (simp add: ex_reply_def)

lemma ex_write_metadata:
  "\<exists>oh'. write_metadata plain_archive (ex_env st) ex_reply ex_pages ex_provs ex_handler log = (Ret (st = rpc_ok), oh',
     log @ map Stored ex_puts @ [Called (vmgr_call ex_handler VMGR_PUBLISH [dht_key plain_archive (fst (last (vr_intervals ex_reply)))]) (st, [])])"
proof -
  have "writeRecordLocations plain_archive (en_dht (ex_env st) log) (en_put_error (ex_env st) log) ex_reply ex_pages ex_provs = Some (True, ex_puts)"
    using ex_run by (simp add: ex_env_def)
  from this written_no_error [OF this] show ?thesis
    by (simp add: write_metadata_def ex_reply_intervals Let_def answer_call_def rpc_result_callback_def vmgr_call_def plain_call_def ex_env_def)
qed

lemma run_writes_acked:
  assumes "ws_pending s = p # ps" "en_pick env (ws_log s) = 0" "en_answer env (ws_log s) (pw_call p) = (rpc_ok, b)"
    and "rc_buffers (pw_call p) = []"
  shows "run_writes env retry s =
    run_writes env retry (s\<lparr>ws_pending := ps, ws_results := (ws_results s)[pw_k p := True], ws_log := ws_log s @ [Called (pw_call p) (rpc_ok, b)]\<rparr>)"
  by (subst run_writes.simps) (cases s, use assms in \<open>simp add: answer_write_def answer_call_def Let_def rpc_write_callback_def\<close>)

lemma ex_answer_write: "en_answer (ex_env st) log (write_call (ex_provs ! k) key val) = (rpc_ok, [])" if "k < 2"
  using that by (cases k) (auto simp: ex_env_def write_call_def plain_call_def ex_provs_def rpc_names less_Suc_eq)

lemma ex_run_writes:
  assumes "pw_call p = write_call (ex_provs ! 0) k v" "pw_call p' = write_call (ex_provs ! 1) k' v'" "pw_k p = 0" "pw_k p' = 1"
  shows "run_writes (ex_env st) retry \<lparr>ws_pending = [p, p'], ws_results = [False, False], ws_log = log\<rparr> =
    Some \<lparr>ws_pending = [], ws_results = [True, True], ws_log = log @ [Called (pw_call p) (rpc_ok, []), Called (pw_call p') (rpc_ok, [])]\<rparr>"
proof -
  have pick: "en_pick (ex_env st) log = 0" for log by (simp add: ex_env_def)
  have b: "rc_buffers (write_call a k v) = []" for a k v by (simp add: write_call_def plain_call_def)
  have "run_writes (ex_env st) retry \<lparr>ws_pending = [p, p'], ws_results = [False, False], ws_log = log\<rparr> =
      run_writes (ex_env st) retry \<lparr>ws_pending = [p'], ws_results = [True, False], ws_log = log @ [Called (pw_call p) (rpc_ok, [])]\<rparr>"
    by (subst run_writes_acked [where p = p and b = "[]"]) (simp_all add: assms pick b ex_answer_write)
  also have "\<dots> = run_writes (ex_env st) retry \<lparr>ws_pending = [], ws_results = [True, True],
      ws_log = log @ [Called (pw_call p) (rpc_ok, [])] @ [Called (pw_call p') (rpc_ok, [])]\<rparr>"
    by (subst run_writes_acked [where p = p' and b = "[]"]) (simp_all add: assms pick b ex_answer_write [of 1, simplified])
  finally show ?thesis by (simp add: run_writes.simps)
qed

text \<open>The calls and stores of the write of \<open>buf\<close>, in their order.\<close>

definition ex_page_write :: "buffer \<Rightarrow> nat \<Rightarrow> rpc_call" where
  "ex_page_write buf i = write_call (ex_provs ! i) (dht_key plain_archive (ex_pages ! i)) (take 8 (drop (i * 8) buf))"

definition ex_log :: "rpcreturn_t \<Rightarrow> buffer \<Rightarrow> oh_log" where
  "ex_log st buf =
     [Called (plain_call ''pm'' ''1'' PUBLISHER_GET [buffer_wrapper plain_archive (ar_u64 plain_archive) 2, buffer_wrapper plain_archive (ar_u32 plain_archive) 1])
        (rpc_ok, [buffer_wrapper plain_archive (ser_replica_list plain_archive) ex_provs]),
      Called (ex_page_write buf 0) (rpc_ok, []), Called (ex_page_write buf 1) (rpc_ok, []),
      Called (vmgr_call ex_handler VMGR_GETTICKET [dht_key plain_archive \<lparr>q_id = 1, q_version = 77, q_offset = 0, q_size = 16\<rparr>,
          buffer_wrapper plain_archive (ar_bool plain_archive) False])
        (rpc_ok, [buffer_wrapper plain_archive (ser_vmgr_reply plain_archive) ex_reply])] @
     map Stored ex_puts @
     [Called (vmgr_call ex_handler VMGR_PUBLISH [dht_key plain_archive (fst (last (vr_intervals ex_reply)))]) (st, [])]"

lemma ex_exec_write:
  assumes "length buf = 16"
  shows "\<exists>oh'. exec_write plain_archive (ex_env st) 0 16 buf False ex_handler [] = (Ret (st = rpc_ok), oh', ex_log st buf)"
proof -
  let ?log = "[Called (plain_call ''pm'' ''1'' PUBLISHER_GET [buffer_wrapper plain_archive (ar_u64 plain_archive) 2, buffer_wrapper plain_archive (ar_u32 plain_archive) 1])
    (rpc_ok, [buffer_wrapper plain_archive (ser_replica_list plain_archive) ex_provs])]"
  let ?p = "\<lambda>i. page_writes plain_archive 1 77 8 1 ex_provs buf i ! 0"
  let ?W = "[Called (pw_call (?p 0)) (rpc_ok, []), Called (pw_call (?p 1)) (rpc_ok, [])]"
  have keys: "map (write_page_key 1 77 8) [0..<2] = ex_pages"
    by (simp add: upt_rec write_page_key_def ex_pages_def)
  have pend: "concat (map (page_writes plain_archive 1 77 8 1 ex_provs buf) [0..<2]) = [?p 0, ?p 1]"
    by (simp add: upt_rec page_writes_def)
  have pw: "pw_call (?p 0) = ex_page_write buf 0" "pw_call (?p 1) = ex_page_write buf 1" "pw_k (?p 0) = 0" "pw_k (?p 1) = 1"
    by (simp_all add: page_writes_def page_value_def ex_page_write_def ex_pages_def write_page_key_def Let_def)
  have W: "run_writes (ex_env st) 3 \<lparr>ws_pending = [?p 0, ?p 1], ws_results = [False, False], ws_log = ?log\<rparr> =
      Some \<lparr>ws_pending = [], ws_results = [True, True], ws_log = ?log @ ?W\<rparr>"
    by (rule ex_run_writes) (simp_all only: pw ex_page_write_def)
  have r2: "replicate 2 False = [False, False]" by (simp add: numeral_2_eq_2)
  have written: "pages_written 1 [True, True] = Some True" by (simp add: pages_written.simps)
  let ?t = "vmgr_call ex_handler VMGR_GETTICKET [dht_key plain_archive \<lparr>q_id = 1, q_version = 77, q_offset = 0, q_size = 16\<rparr>,
     buffer_wrapper plain_archive (ar_bool plain_archive) False]"
  let ?log2 = "(?log @ ?W) @ [Called ?t (rpc_ok, [buffer_wrapper plain_archive (ser_vmgr_reply plain_archive) ex_reply])]"
  have h: "rt_page_size (latest_root ex_handler) = 8" "rt_replica_count (latest_root ex_handler) = 1" "oh_id ex_handler = 1"
    "retry_count ex_handler = 3" "publisher_host ex_handler = ''pm''" "publisher_service ex_handler = ''1''"
    "en_rnd (ex_env st) log = 77" "\<not> en_assert (ex_env st)" for log
    by (simp_all add: ex_handler_def root_t_make_def object_handler_new_def ex_env_def)
  have get: "answer_call (ex_env st) (plain_call ''pm'' ''1'' PUBLISHER_GET [buffer_wrapper plain_archive (ar_u64 plain_archive) 2,
      buffer_wrapper plain_archive (ar_u32 plain_archive) 1]) [] = ((rpc_ok, [buffer_wrapper plain_archive (ser_replica_list plain_archive) ex_provs]), ?log)"
    by (simp add: answer_call_def Let_def ex_env_def plain_call_def rpc_names)
  have tick: "answer_call (ex_env st) ?t log = ((rpc_ok, [buffer_wrapper plain_archive (ser_vmgr_reply plain_archive) ex_reply]),
      log @ [Called ?t (rpc_ok, [buffer_wrapper plain_archive (ser_vmgr_reply plain_archive) ex_reply])])" for log
    by (simp add: answer_call_def Let_def ex_env_def plain_call_def vmgr_call_def rpc_names ex_handler_def object_handler_new_def)
  have "exec_write plain_archive (ex_env st) 0 16 buf False ex_handler [] =
      write_ticket plain_archive (ex_env st) \<lparr>q_id = 1, q_version = 77, q_offset = 0, q_size = 16\<rparr> False ex_pages ex_provs ex_handler (?log @ ?W)"
    by (simp add: exec_write_def h get rpc_get_serialized_def plain_archive_ok page_count_def ex_provs_def [THEN arg_cong [of _ _ length]]
        pend [simplified] keys [simplified] W [simplified] r2 written [simplified] assms Let_def numeral_2_eq_2 [symmetric])
  also have "\<dots> = write_metadata plain_archive (ex_env st) ex_reply ex_pages ex_provs ex_handler ?log2"
    by (simp add: write_ticket_def tick rpc_get_serialized_def plain_archive_ok)
  finally show ?thesis using ex_write_metadata [of st ?log2] unfolding pw ex_log_def by simp
qed

theorem publish_comes_last_witness:
  "\<exists>oh' log' c get W ticket puts. exec_write plain_archive (ex_env rpc_ok) 0 16 (replicate 16 7) False ex_handler [] = (Ret True, oh', log') \<and>
     log' = [get] @ W @ [ticket] @ map Stored puts @ [Called c (rpc_ok, [])] \<and> rc_name c = VMGR_PUBLISH"
proof -
  obtain oh' where x: "exec_write plain_archive (ex_env rpc_ok) 0 16 (replicate 16 7) False ex_handler [] = (Ret True, oh', ex_log rpc_ok (replicate 16 7))"
    using ex_exec_write [of "replicate 16 7" rpc_ok] by auto
  let ?c = "vmgr_call ex_handler VMGR_PUBLISH [dht_key plain_archive (fst (last (vr_intervals ex_reply)))]"
  have c: "rc_name ?c = VMGR_PUBLISH" "Called ?c (rpc_ok, []) \<in> set (ex_log rpc_ok (replicate 16 7))"
    by (simp_all add: vmgr_call_def plain_call_def ex_log_def)
  have "0 < unat (rt_replica_count (latest_root ex_handler))" by (simp add: ex_handler_def root_t_make_def)
  from publish_comes_last [OF x refl refl this, of ?c "(rpc_ok, [])"] c
  obtain get W ticket puts where "ex_log rpc_ok (replicate 16 7) = [get] @ W @ [ticket] @ map Stored puts @ [Called ?c (rpc_ok, [])]" by auto
  with x c show ?thesis by blast
qed

end
