(* ===== verification/Page_Manager.thy ===== *)
theory Page_Manager
  imports Buffer_Wrapper Rpc_Meta
begin

text \<open>
  \<open>provider/page_manager.hpp\<close>: the page server, which also serves as the node of the metadata
  DHT. The persistency layer is a template parameter of the C++ class; here it is a record of
  operations. Its contract is the locale \<open>persistency\<close>, which the memory map and the
  database map satisfy in their own theories.
\<close>

section \<open>The persistency layer\<close>

record 'p persist_ops =
  pe_read :: "buffer \<Rightarrow> 'p \<Rightarrow> buffer option \<times> 'p"
  pe_write :: "buffer \<Rightarrow> buffer \<Rightarrow> 'p \<Rightarrow> bool \<times> 'p"
  pe_get_free :: "'p \<Rightarrow> u64"

section \<open>The page manager\<close>

text \<open>Free space, page identifier, page size and sender.\<close>

type_synonym monitored_params_t = "u64 \<times> buffer \<times> u64 \<times> string"
type_synonym 'l update_hook_t = "u32 \<Rightarrow> monitored_params_t \<Rightarrow> 'l \<Rightarrow> 'l"

text \<open>\<open>listeners\<close> is the state the hooks act on.\<close>

record ('p, 'l) page_manager =
  page_cache :: 'p
  update_hooks :: "'l update_hook_t list"
  compression :: bool
  listeners :: 'l

definition page_manager_new :: "'p \<Rightarrow> bool \<Rightarrow> 'l \<Rightarrow> ('p, 'l) page_manager" where
  "page_manager_new pc c l = \<lparr>page_cache = pc, update_hooks = [], compression = c, listeners = l\<rparr>"

definition add_listener :: "'l update_hook_t \<Rightarrow> ('p, 'l) page_manager \<Rightarrow> ('p, 'l) page_manager" where
  "add_listener hook pm = pm\<lparr>update_hooks := update_hooks pm @ [hook]\<rparr>"

definition exec_hooks ::
  "'p persist_ops \<Rightarrow> u32 \<Rightarrow> buffer \<Rightarrow> u64 \<Rightarrow> string \<Rightarrow> ('p, 'l) page_manager \<Rightarrow> ('p, 'l) page_manager" where
  "exec_hooks ops rpc_name page_id ps sender pm =
     pm\<lparr>listeners := fold (\<lambda>hook. hook rpc_name (pe_get_free ops (page_cache pm), page_id, ps, sender))
                      (update_hooks pm) (listeners pm)\<rparr>"

text \<open>
  The message about a missing page prints its key; printing an empty buffer reads
  \<open>content[buf.len - 1]\<close>.
\<close>

definition print_buffer :: "buffer \<Rightarrow> 's outcome \<Rightarrow> 's outcome" where
  "print_buffer b k = (if b = [] then Undefined ''buffer_wrapper operator<< on an empty buffer'' else k)"

fun write_loop ::
  "'p persist_ops \<Rightarrow> string \<Rightarrow> rpcvector_t \<Rightarrow> ('p, 'l) page_manager \<Rightarrow> ('p, 'l) page_manager outcome" where
  "write_loop ops sender [] pm = Returns rpc_ok [] pm"
| "write_loop ops sender [k] pm = Undefined ''params[i + 1]''"
| "write_loop ops sender (k # v # params) pm =
     (case pe_write ops k v (page_cache pm) of
        (False, p) \<Rightarrow> Returns rpc_eres [] (pm\<lparr>page_cache := p\<rparr>)
      | (True, p) \<Rightarrow>
          write_loop ops sender params
            (exec_hooks ops PROVIDER_WRITE k (ucast (bw_size v)) sender (pm\<lparr>page_cache := p\<rparr>)))"

definition write_page ::
  "'p persist_ops \<Rightarrow> string \<Rightarrow> rpcvector_t \<Rightarrow> ('p, 'l) page_manager \<Rightarrow> ('p, 'l) page_manager outcome" where
  "write_page ops sender params pm =
     (if length params mod 2 \<noteq> 0 \<or> length params < 2 then Returns rpc_ok [] pm
      else write_loop ops sender params pm)"

fun read_loop ::
  "'p persist_ops \<Rightarrow> string \<Rightarrow> nat \<Rightarrow> rpcvector_t \<Rightarrow> rpcvector_t \<Rightarrow> nat \<Rightarrow> ('p, 'l) page_manager
     \<Rightarrow> ('p, 'l) page_manager outcome" where
  "read_loop ops sender n [] result ok pm = Returns (if ok = n then rpc_ok else rpc_eobj) result pm"
| "read_loop ops sender n (k # params) result ok pm =
     (case pe_read ops k (page_cache pm) of
        (None, p) \<Rightarrow> print_buffer k (read_loop ops sender n params (result @ [[]]) ok (pm\<lparr>page_cache := p\<rparr>))
      | (Some data, p) \<Rightarrow>
          read_loop ops sender n params (result @ [data]) (Suc ok)
            (exec_hooks ops PROVIDER_READ k (ucast (bw_size data)) sender (pm\<lparr>page_cache := p\<rparr>)))"

definition read_page ::
  "'p persist_ops \<Rightarrow> string \<Rightarrow> rpcvector_t \<Rightarrow> ('p, 'l) page_manager \<Rightarrow> ('p, 'l) page_manager outcome" where
  "read_page ops sender params pm =
     (if length params < 1 then Returns rpc_earg [] pm
      else read_loop ops sender (length params) params [] 0 pm)"

text \<open>
  \<open>data.size() < offset + size\<close> is computed in 64 bits. The length of the result is the
  \<open>unsigned int\<close> parameter of the buffer constructor; a range outside the page is undefined.
\<close>

definition read_partial_page ::
  "archive \<Rightarrow> 'p persist_ops \<Rightarrow> string \<Rightarrow> rpcvector_t \<Rightarrow> ('p, 'l) page_manager \<Rightarrow> ('p, 'l) page_manager outcome" where
  "read_partial_page ar ops sender params pm =
     (if length params \<noteq> 3 then Returns rpc_earg [] pm
      else read_param ar (ar_u64 ar) (params ! 1) (Returns rpc_earg [] pm) (\<lambda>off.
           read_param ar (ar_u64 ar) (params ! 2) (Returns rpc_earg [] pm) (\<lambda>sz.
             case pe_read ops (params ! 0) (page_cache pm) of
               (None, p) \<Rightarrow> print_buffer (params ! 0) (Returns rpc_eobj [] (pm\<lparr>page_cache := p\<rparr>))
             | (Some data, p) \<Rightarrow>
                 let pm = pm\<lparr>page_cache := p\<rparr>; len = ucast sz :: u32 in
                 if ucast (bw_size data) < off + sz
                 then print_buffer (params ! 0) (Returns rpc_eobj [] pm)
                 else if length data < unat off + unat len
                 then Undefined ''read outside the page''
                 else Returns rpc_ok [take (unat len) (drop (unat off) data)]
                        (exec_hooks ops PROVIDER_READ (params ! 0) sz sender pm))))"

section \<open>A provider at work\<close>

text \<open>
  The states of a provider, for writers that give each page key one content \<open>M\<close> (a key has the
  random number of its write in it and is never reused). \<open>internal\<close> are the steps the layer takes
  on its own. The second argument has the keys of the pages whose write was acknowledged.
\<close>

fun page_pairs :: "rpcvector_t \<Rightarrow> (buffer \<times> buffer) list" where
  "page_pairs (k # v # params) = (k, v) # page_pairs params"
| "page_pairs _ = []"

inductive provider_reach ::
  "archive \<Rightarrow> 'p persist_ops \<Rightarrow> ('p \<Rightarrow> 'p \<Rightarrow> bool) \<Rightarrow> 'p \<Rightarrow> (buffer \<rightharpoonup> buffer) \<Rightarrow> buffer set \<Rightarrow> ('p, 'l) page_manager \<Rightarrow> bool"
  for ar ops internal p0 M where
  pr_start: "page_cache pm = p0 \<Longrightarrow> provider_reach ar ops internal p0 M {} pm"
| pr_write: "provider_reach ar ops internal p0 M W pm \<Longrightarrow> write_page ops sender params pm = Returns st result pm' \<Longrightarrow>
     2 \<le> length params \<Longrightarrow> even (length params) \<Longrightarrow> \<forall>(k, v) \<in> set (page_pairs params). M k = Some v \<Longrightarrow>
     provider_reach ar ops internal p0 M (if st = rpc_ok then W \<union> fst ` set (page_pairs params) else W) pm'"
| pr_read: "provider_reach ar ops internal p0 M W pm \<Longrightarrow> read_page ops sender params pm = Returns st result pm' \<Longrightarrow>
     provider_reach ar ops internal p0 M W pm'"
| pr_partial: "provider_reach ar ops internal p0 M W pm \<Longrightarrow> read_partial_page ar ops sender params pm = Returns st result pm' \<Longrightarrow>
     provider_reach ar ops internal p0 M W pm'"
| pr_internal: "provider_reach ar ops internal p0 M W pm \<Longrightarrow> internal (page_cache pm) p \<Longrightarrow>
     provider_reach ar ops internal p0 M W (pm\<lparr>page_cache := p\<rparr>)"

lemma map_le_Some: "m \<subseteq>\<^sub>m n \<Longrightarrow> m k = Some v \<Longrightarrow> n k = Some v"
  by (auto simp: map_le_def dom_def)

section \<open>The contract of the persistency layer\<close>

text \<open>
  \<open>contents\<close> is the abstract view of the layer as a map from keys to pages. A key is written with
  one content only, and there are fewer than $2^{32} - 1$ pages. A read may miss a stored page but never
  returns a wrong one.
\<close>

locale persistency =
  fixes ops :: "'p persist_ops"
    and internal :: "'p \<Rightarrow> 'p \<Rightarrow> bool"
    and inv :: "'p \<Rightarrow> bool"
    and contents :: "'p \<Rightarrow> buffer \<rightharpoonup> buffer"
  assumes read_keeps: "inv p \<Longrightarrow> pe_read ops k p = (r, p') \<Longrightarrow> inv p' \<and> contents p' = contents p"
    and read_sound: "inv p \<Longrightarrow> pe_read ops k p = (Some v, p') \<Longrightarrow> contents p k = Some v"
    and write_stores: "inv p \<Longrightarrow> pe_write ops k v p = (True, p') \<Longrightarrow> contents p k \<in> {None, Some v} \<Longrightarrow>
      finite (dom (contents p)) \<Longrightarrow> card (dom (contents p)) < 2 ^ 32 - 1 \<or> contents p k \<noteq> None \<Longrightarrow>
      inv p' \<and> contents p' = (contents p)(k \<mapsto> v)"
    and write_refuses: "inv p \<Longrightarrow> pe_write ops k v p = (False, p') \<Longrightarrow> inv p' \<and> contents p' = contents p"
    and internal_keeps: "inv p \<Longrightarrow> internal p p' \<Longrightarrow> inv p' \<and> contents p' = contents p"
begin

lemma exec_hooks_cache [simp]: "page_cache (exec_hooks ops n k s x pm) = page_cache pm"
  by (simp add: exec_hooks_def)

lemma write_one:
  assumes "inv p" "pe_write ops k v p = (True, p')" "contents p \<subseteq>\<^sub>m M" "M k = Some v"
    and "finite (dom M)" "card (dom M) < 2 ^ 32"
  shows "inv p' \<and> contents p' = (contents p)(k \<mapsto> v) \<and> contents p' \<subseteq>\<^sub>m M"
proof -
  have sub: "dom (contents p) \<subseteq> dom M" using assms(3) by (rule map_le_implies_dom_le)
  have kv: "contents p k \<in> {None, Some v}" using assms(3,4) by (auto simp: map_le_def dom_def)
  have "card (dom (contents p)) < card (dom M)" if "contents p k = None"
    using sub assms(4,5) that by (intro psubset_card_mono) auto
  then have "card (dom (contents p)) < 2 ^ 32 - 1 \<or> contents p k \<noteq> None" using assms(6) by fastforce
  from write_stores [OF assms(1,2) kv finite_subset [OF sub assms(5)] this] assms(3,4) show ?thesis
    by (auto simp: map_le_def)
qed

lemma write_loop_stores:
  assumes "finite (dom M)" "card (dom M) < 2 ^ 32"
  shows "write_loop ops sender params pm = Returns st result pm' \<Longrightarrow> inv (page_cache pm) \<Longrightarrow>
    contents (page_cache pm) \<subseteq>\<^sub>m M \<Longrightarrow> \<forall>(k, v) \<in> set (page_pairs params). M k = Some v \<Longrightarrow>
    inv (page_cache pm') \<and> contents (page_cache pm') \<subseteq>\<^sub>m M \<and> contents (page_cache pm) \<subseteq>\<^sub>m contents (page_cache pm') \<and>
    (st = rpc_ok \<longrightarrow> fst ` set (page_pairs params) \<subseteq> dom (contents (page_cache pm')))"
proof (induction params arbitrary: pm rule: page_pairs.induct)
  case (1 k v params)
  obtain b p where w: "pe_write ops k v (page_cache pm) = (b, p)" by fastforce
  show ?case
  proof (cases b)
    case True
    let ?pm = "exec_hooks ops PROVIDER_WRITE k (ucast (bw_size v)) sender (pm\<lparr>page_cache := p\<rparr>)"
    have Mk: "M k = Some v" using 1(5) by simp
    have w': "pe_write ops k v (page_cache pm) = (True, p)" using w True by simp
    note one = write_one [OF 1(3) w' 1(4) Mk assms]
    have run: "write_loop ops sender params ?pm = Returns st result pm'" using 1(2) w True by simp
    have pre: "inv (page_cache ?pm)" "contents (page_cache ?pm) \<subseteq>\<^sub>m M"
        "\<forall>(k, v) \<in> set (page_pairs params). M k = Some v" using conjunct1 [OF one] conjunct2 [OF conjunct2 [OF one]] 1(5) by simp_all
    from 1(1) [OF run pre] have *: "inv (page_cache pm') \<and> contents (page_cache pm') \<subseteq>\<^sub>m M \<and>
        contents p \<subseteq>\<^sub>m contents (page_cache pm') \<and>
        (st = rpc_ok \<longrightarrow> fst ` set (page_pairs params) \<subseteq> dom (contents (page_cache pm')))" by simp
    have "contents (page_cache pm) \<subseteq>\<^sub>m contents p" using one 1(4) Mk by (auto simp: map_le_def)
    then have "contents (page_cache pm) \<subseteq>\<^sub>m contents (page_cache pm')" using * by (elim conjE) (rule map_le_trans)
    moreover have "k \<in> dom (contents (page_cache pm'))"
    proof -
      have "contents p k = Some v" using one by (simp only: fun_upd_same)
      then have "contents (page_cache pm') k = Some v" using * by (elim conjE) (rule map_le_Some)
      then show ?thesis by (rule domI)
    qed
    ultimately show ?thesis using * by simp
  next
    case False
    then show ?thesis using 1 w write_refuses [OF 1(3)] by (auto simp: rpc_eres_def rpc_ok_def)
  qed
qed (auto simp: map_le_def)

lemma read_loop_keeps:
  "read_loop ops sender n params result ok pm = Returns st res pm' \<Longrightarrow> inv (page_cache pm) \<Longrightarrow>
   inv (page_cache pm') \<and> contents (page_cache pm') = contents (page_cache pm)"
proof (induction params arbitrary: result ok pm)
  case (Cons k params)
  obtain r p where r: "pe_read ops k (page_cache pm) = (r, p)" by fastforce
  from read_keeps [OF Cons.prems(2) this] Cons r show ?case
    by (auto simp: print_buffer_def split: option.splits if_splits)
qed simp

text \<open>What was acknowledged stays stored.\<close>

lemma acknowledged_stored:
  assumes "provider_reach ar ops internal p0 M W pm" "inv p0" "contents p0 = Map.empty"
    and "finite (dom M)" "card (dom M) < 2 ^ 32"
  shows "inv (page_cache pm) \<and> contents (page_cache pm) \<subseteq>\<^sub>m M \<and> W \<subseteq> dom (contents (page_cache pm))"
  using assms(1)
proof (induction rule: provider_reach.induct)
  case (pr_write W pm sender params st result pm')
  then have "write_loop ops sender params pm = Returns st result pm'" by (auto simp: write_page_def)
  from write_loop_stores [OF assms(4,5) this _ _ pr_write.hyps(5)] pr_write.IH
  have *: "inv (page_cache pm')" "contents (page_cache pm') \<subseteq>\<^sub>m M"
      "contents (page_cache pm) \<subseteq>\<^sub>m contents (page_cache pm')"
      "st = rpc_ok \<longrightarrow> fst ` set (page_pairs params) \<subseteq> dom (contents (page_cache pm'))" by auto
  from pr_write.IH map_le_implies_dom_le [OF *(3)] have "W \<subseteq> dom (contents (page_cache pm'))" by blast
  with * show ?case by simp
next
  case (pr_read W pm sender params st result pm')
  then show ?case using read_loop_keeps by (fastforce simp: read_page_def split: if_splits)
next
  case (pr_partial W pm sender params st result pm')
  then have "inv (page_cache pm') \<and> contents (page_cache pm') = contents (page_cache pm)"
    using read_keeps [of "page_cache pm" "params ! 0"]
    by (auto simp: read_partial_page_def read_param_def print_buffer_def Let_def
        split: if_splits got.splits option.splits prod.splits)
  then show ?case using pr_partial.IH by simp
next
  case (pr_internal W pm p)
  then show ?case using internal_keeps [of "page_cache pm" p] by simp
qed (use assms in simp)

text \<open>A read that is answered with success has the pages asked for.\<close>

lemma read_loop_sound:
  "read_loop ops sender n params result ok pm = Returns rpc_ok res pm' \<Longrightarrow> inv (page_cache pm) \<Longrightarrow>
   ok + length params \<le> n \<Longrightarrow>
   ok + length params = n \<and> (\<exists>pages. res = result @ pages \<and> map (contents (page_cache pm)) params = map Some pages)"
proof (induction params arbitrary: result ok pm)
  case (Cons k params)
  obtain r p where r: "pe_read ops k (page_cache pm) = (r, p)" by fastforce
  note keeps = read_keeps [OF Cons.prems(2) r]
  show ?case
  proof (cases r)
    case None
    then have "read_loop ops sender n params (result @ [[]]) ok (pm\<lparr>page_cache := p\<rparr>) = Returns rpc_ok res pm'"
      using Cons.prems(1) r by (auto simp: print_buffer_def split: if_splits)
    from Cons.IH [OF this] keeps Cons.prems(3) show ?thesis by simp
  next
    case (Some v)
    then have "contents (page_cache pm) k = Some v" using read_sound [OF Cons.prems(2)] r by simp
    moreover have "read_loop ops sender n params (result @ [v]) (Suc ok)
        (exec_hooks ops PROVIDER_READ k (ucast (bw_size v)) sender (pm\<lparr>page_cache := p\<rparr>)) = Returns rpc_ok res pm'"
      using Cons.prems(1) r Some by simp
    from Cons.IH [OF this] keeps Cons.prems(3) have "Suc ok + length params = n"
      "\<exists>pages. res = (result @ [v]) @ pages \<and> map (contents (page_cache pm)) params = map Some pages" by auto
    ultimately show ?thesis by auto
  qed
qed (auto simp: rpc_ok_def rpc_eobj_def split: if_splits)

text \<open>The answer of a provider to a read request.\<close>

lemma read_page_sound:
  assumes "provider_reach ar ops internal p0 M W pm" "inv p0" "contents p0 = Map.empty"
    and "finite (dom M)" "card (dom M) < 2 ^ 32"
    and "read_page ops sender params pm = Returns rpc_ok result pm'"
  shows "map M params = map Some result"
proof -
  note st = acknowledged_stored [OF assms(1-5)]
  have "read_loop ops sender (length params) params [] 0 pm = Returns rpc_ok result pm'"
    using assms(6) by (auto simp: read_page_def rpc_earg_def rpc_ok_def split: if_splits)
  from read_loop_sound [OF this] st obtain pages where
    "result = pages" and pages: "map (contents (page_cache pm)) params = map Some pages" by auto
  moreover have "M k = Some v" if "contents (page_cache pm) k = Some v" for k v
    using st that by (elim conjE) (rule map_le_Some)
  then have "map M ps = map Some vs" if "map (contents (page_cache pm)) ps = map Some vs" for ps vs
    using that by (induction ps arbitrary: vs) auto
  ultimately show ?thesis by simp
qed

end

text \<open>A layer that finds every page it stores.\<close>

locale exact_persistency = persistency +
  assumes read_complete: "inv p \<Longrightarrow> contents p k = Some v \<Longrightarrow> fst (pe_read ops k p) = Some v"
begin

lemma read_loop_complete:
  "map (contents (page_cache pm)) params = map Some pages \<Longrightarrow> inv (page_cache pm) \<Longrightarrow> ok + length params = n \<Longrightarrow>
   \<exists>pm'. read_loop ops sender n params result ok pm = Returns rpc_ok (result @ pages) pm'"
proof (induction params arbitrary: pages result ok pm)
  case (Cons k params)
  then obtain v vs where v: "pages = v # vs" "contents (page_cache pm) k = Some v"
      "map (contents (page_cache pm)) params = map Some vs" by (cases pages) auto
  obtain r p where r: "pe_read ops k (page_cache pm) = (r, p)" by fastforce
  have "r = Some v" using read_complete [OF Cons.prems(2) v(2)] r by simp
  with r have r': "pe_read ops k (page_cache pm) = (Some v, p)" by simp
  note keeps = read_keeps [OF Cons.prems(2) r']
  let ?pm = "exec_hooks ops PROVIDER_READ k (ucast (bw_size v)) sender (pm\<lparr>page_cache := p\<rparr>)"
  have "\<exists>pm'. read_loop ops sender n params (result @ [v]) (Suc ok) ?pm = Returns rpc_ok ((result @ [v]) @ vs) pm'"
    using keeps v(3) Cons.prems(3) by (intro Cons.IH) simp_all
  then show ?case using r' v(1) by simp
qed simp

lemma acknowledged_readable:
  assumes "provider_reach ar ops internal p0 M W pm" "inv p0" "contents p0 = Map.empty"
    and "finite (dom M)" "card (dom M) < 2 ^ 32" "set params \<subseteq> W" "params \<noteq> []"
  shows "\<exists>pages pm'. read_page ops sender params pm = Returns rpc_ok pages pm' \<and> map M params = map Some pages"
proof -
  note st = acknowledged_stored [OF assms(1-5)]
  let ?pages = "map (\<lambda>k. the (contents (page_cache pm) k)) params"
  have in_dom: "k \<in> dom (contents (page_cache pm))" if "k \<in> set params" for k using that st assms(6) by blast
  then have "map (contents (page_cache pm)) params = map Some ?pages" by force
  from read_loop_complete [OF this, of 0 "length params" sender "[]"] st obtain pm' where
    run: "read_page ops sender params pm = Returns rpc_ok ?pages pm'"
    using assms(7) by (auto simp: read_page_def Suc_le_eq)
  with read_page_sound [OF assms(1-5) run] show ?thesis by blast
qed

end

section \<open>Partial reads\<close>

lemma wrapped_range_outside:
  fixes off sz :: u64
  assumes "2 ^ 64 \<le> unat off + unat sz" "unat off + unat sz \<le> 2 ^ 64 + n" "n < 2 ^ 32"
  shows "n < unat off + unat (ucast sz :: u32)"
proof (cases "unat off < 2 ^ 32")
  case False
  then show ?thesis using assms(3) by simp
next
  case True
  have sz: "unat sz < 2 ^ 64" by (rule unat_u64_bound)
  have len: "unat (ucast sz :: u32) = unat sz mod 2 ^ 32" by (simp add: unsigned_ucast_eq take_bit_eq_mod)
  define d where "d = 2 ^ 64 - unat sz"
  have d: "unat sz = 2 ^ 64 - d" "0 < d" "d \<le> unat off" using sz assms(1) by (auto simp: d_def)
  have "unat sz = (2 ^ 32 - d) + 2 ^ 32 * (2 ^ 32 - 1)" using d True by simp
  then have "unat sz mod 2 ^ 32 = (2 ^ 32 - d) mod 2 ^ 32" by (metis mod_mult_self2)
  also have "\<dots> = 2 ^ 32 - d" using d by (intro mod_less) simp
  finally show ?thesis using d True assms by (simp add: len)
qed

lemma partial_read_eval:
  assumes "archive_ok ar" "pe_read ops k (page_cache pm) = (Some data, p)" "length data < 2 ^ 32" "k \<noteq> []"
  shows "read_partial_page ar ops sender [k, buffer_wrapper ar (ar_u64 ar) off, buffer_wrapper ar (ar_u64 ar) sz] pm =
     (if length data < (unat off + unat sz) mod 2 ^ 64 then Returns rpc_eobj [] (pm\<lparr>page_cache := p\<rparr>)
      else if length data < unat off + unat (ucast sz :: u32) then Undefined ''read outside the page''
      else Returns rpc_ok [take (unat (ucast sz :: u32)) (drop (unat off) data)]
             (exec_hooks ops PROVIDER_READ k sz sender (pm\<lparr>page_cache := p\<rparr>)))"
proof -
  have size: "unat (ucast (bw_size data) :: u64) = length data"
    using assms(3) by (simp add: unat_ucast_u32 bw_size_def unat_of_nat)
  have sum: "unat (off + sz) = (unat off + unat sz) mod 2 ^ 64" by (simp add: unat_word_ariths)
  show ?thesis using assms(1,2,4) archive_okD [OF assms(1)] unfolding read_partial_page_def
    by (simp add: Let_def print_buffer_def word_less_nat_alt size sum)
qed

lemma partial_read_inside:
  assumes "archive_ok ar" "pe_read ops k (page_cache pm) = (Some data, p)" "length data < 2 ^ 32" "k \<noteq> []"
    and "unat off + unat sz \<le> length data"
  shows "\<exists>pm'. read_partial_page ar ops sender [k, buffer_wrapper ar (ar_u64 ar) off, buffer_wrapper ar (ar_u64 ar) sz] pm =
      Returns rpc_ok [take (unat sz) (drop (unat off) data)] pm' \<and> page_cache pm' = p"
proof -
  have "unat (ucast sz :: u32) = unat sz"
    using assms(3,5) by (simp add: unsigned_ucast_eq take_bit_eq_mod)
  then show ?thesis using assms(3,5) by (simp add: partial_read_eval [OF assms(1-4)] exec_hooks_def)
qed

text \<open>
  C28: a partial read of a stored page returns exactly the requested bytes if the range lies in the
  page and is refused if it does not; but if the end of the range wraps around 64 bits to a position
  inside the page, the check passes and memory outside the page is read.
\<close>

theorem partial_read_bounds:
  assumes "archive_ok ar" "pe_read ops k (page_cache pm) = (Some data, p)" "length data < 2 ^ 32" "k \<noteq> []"
    and "r = read_partial_page ar ops sender [k, buffer_wrapper ar (ar_u64 ar) off, buffer_wrapper ar (ar_u64 ar) sz] pm"
  shows "(unat off + unat sz \<le> length data \<longrightarrow>
            (\<exists>pm'. r = Returns rpc_ok [take (unat sz) (drop (unat off) data)] pm' \<and> page_cache pm' = p)) \<and>
    (length data < unat off + unat sz \<and> unat off + unat sz < 2 ^ 64 \<longrightarrow>
            r = Returns rpc_eobj [] (pm\<lparr>page_cache := p\<rparr>)) \<and>
    (2 ^ 64 \<le> unat off + unat sz \<and> unat off + unat sz \<le> 2 ^ 64 + length data \<longrightarrow>
            r = Undefined ''read outside the page'')"
proof -
  note eval = partial_read_eval [OF assms(1-4), of sender off sz, folded assms(5)]
  show ?thesis
  proof (intro conjI impI)
    assume le: "unat off + unat sz \<le> length data"
    then show "\<exists>pm'. r = Returns rpc_ok [take (unat sz) (drop (unat off) data)] pm' \<and> page_cache pm' = p"
      unfolding assms(5) by (rule partial_read_inside [OF assms(1-4)])
  next
    assume "length data < unat off + unat sz \<and> unat off + unat sz < 2 ^ 64"
    then show "r = Returns rpc_eobj [] (pm\<lparr>page_cache := p\<rparr>)" by (simp add: eval)
  next
    assume w: "2 ^ 64 \<le> unat off + unat sz \<and> unat off + unat sz \<le> 2 ^ 64 + length data"
    have "(unat off + unat sz) mod 2 ^ 64 = unat off + unat sz - 2 ^ 64"
      using w unat_u64_bound [of off] unat_u64_bound [of sz] by (subst mod_if) simp
    then have "\<not> length data < (unat off + unat sz) mod 2 ^ 64" using w by linarith
    then show "r = Undefined ''read outside the page''"
      using wrapped_range_outside [of off sz "length data"] w assms(3) by (simp add: eval)
  qed
qed

definition ex_ops :: "unit persist_ops" where
  "ex_ops = \<lparr>pe_read = (\<lambda>k p. (Some [1, 2, 3], p)), pe_write = (\<lambda>k v p. (True, p)), pe_get_free = (\<lambda>p. 0)\<rparr>"

theorem partial_read_bounds_witness:
  "read_partial_page plain_archive ex_ops ''x'' [[1], buffer_wrapper plain_archive (ar_u64 plain_archive) (2 ^ 64 - 4),
       buffer_wrapper plain_archive (ar_u64 plain_archive) 6] (page_manager_new () False ())
     = Undefined ''read outside the page''"
proof -
  have "unat (2 ^ 64 - 4 :: u64) = 2 ^ 64 - 4" by simp
  then show ?thesis
    using partial_read_bounds [OF plain_archive_ok, of ex_ops "[1]" "page_manager_new () False ()" "[1, 2, 3]" "()" _ "''x''" "2 ^ 64 - 4" 6]
    by (simp add: ex_ops_def)
qed

end
