(* ===== verification/Null_Bw_Map.thy ===== *)
theory Null_Bw_Map
  imports Page_Manager Cache_MT
begin

text \<open>
  \<open>provider/null_bw_map.cpp\<close>: pages kept in memory only, in a cache that grows as needed and so
  never evicts, with an account of the space left.
\<close>

record null_bw_map =
  nb_cache :: "(buffer, buffer, unit) cache_mt"
  nb_space_left :: u64

definition null_bw_map_new :: "u64 \<Rightarrow> u64 \<Rightarrow> null_bw_map" where
  "null_bw_map_new cs m = \<lparr>nb_cache = cache_init () (ucast cs), nb_space_left = m\<rparr>"

definition null_get_free :: "null_bw_map \<Rightarrow> u64" where
  "null_get_free p = nb_space_left p"

definition null_read :: "buffer \<Rightarrow> null_bw_map \<Rightarrow> buffer option \<times> null_bw_map" where
  "null_read key p = (case cache_read cache_mt_none key (nb_cache p) of (v, c) \<Rightarrow> (v, p\<lparr>nb_cache := c\<rparr>))"

text \<open>
  \<open>resize\<close> always returns under this policy (lemma \<open>none_resize_returns\<close>). The results of
  \<open>resize\<close> and \<open>write\<close> are ignored.
\<close>

definition null_write :: "buffer \<Rightarrow> buffer \<Rightarrow> null_bw_map \<Rightarrow> bool \<times> null_bw_map" where
  "null_write key v p =
     (if nb_space_left p < ucast (bw_size v) then (False, p)
      else let c = nb_cache p;
               c = (if cache_max_size c = cache_size c
                    then case cache_resize cache_mt_none (cache_size c + 1) c of
                           Some (_, _, c) \<Rightarrow> c
                         | None \<Rightarrow> c
                    else c);
               c = snd (snd (cache_write cache_mt_none key v True c))
           in (True, p\<lparr>nb_cache := c, nb_space_left := nb_space_left p - ucast (bw_size v)\<rparr>))"

definition null_ops :: "null_bw_map persist_ops" where
  "null_ops = \<lparr>pe_read = null_read, pe_write = null_write, pe_get_free = null_get_free\<rparr>"

lemma none_resize_returns: "cache_resize cache_mt_none m c \<noteq> None"
  by (auto simp: cache_resize_def resize_loop.simps cache_mt_none_def)

section \<open>Contract\<close>

definition null_inv :: "null_bw_map \<Rightarrow> bool" where
  "null_inv p \<longleftrightarrow> cache_inv (\<lambda>_ _. True) (nb_cache p)"

definition null_contents :: "null_bw_map \<Rightarrow> buffer \<rightharpoonup> buffer" where
  "null_contents p = map_option fst \<circ> lookup (nb_cache p)"

lemma null_contents_finite: "finite (dom (null_contents p))"
proof -
  have "dom (null_contents p) = cached_keys (nb_cache p)" by (auto simp: null_contents_def cached_keys_lookup dom_def)
  then show ?thesis by (simp add: cached_keys_def)
qed

lemma null_contents_card:
  assumes "null_inv p"
  shows "card (dom (null_contents p)) = length (cache_map (nb_cache p))"
proof -
  have "dom (null_contents p) = cached_keys (nb_cache p)" by (auto simp: null_contents_def cached_keys_lookup dom_def)
  then show ?thesis using assms distinct_card [of "map fst (cache_map (nb_cache p))"]
    by (simp add: null_inv_def cache_inv_def cached_keys_def)
qed

text \<open>The cache that is written to has room for one more entry.\<close>

lemma none_write:
  assumes "cache_inv (\<lambda>_ _. True) c" "length (cache_map c) < unat (m_size c) \<or> k \<in> cached_keys c"
  shows "cache_inv (\<lambda>_ _. True) (snd (snd (cache_write cache_mt_none k v d c))) \<and>
    lookup (snd (snd (cache_write cache_mt_none k v d c))) = (lookup c)(k \<mapsto> (v, d))"
proof -
  have "lookup (snd (snd (cache_write cache_mt_none k v d c))) = (lookup c)(k \<mapsto> (v, d))"
    using assms(1)
  proof (cases rule: none.write_cases [of c k v d])
    case (evicted ek p)
    then show ?thesis by (simp add: cache_mt_none_def)
  qed (use assms(2) in \<open>auto simp: lookup_def map_of_delete_eq\<close>)
  with none.inv_write [OF assms(1), of k v d] show ?thesis by simp
qed

lemma grown_cache:
  assumes "cache_inv (\<lambda>_ _. True) c" "length (cache_map c) < 2 ^ 32 - 1 \<or> k \<in> cached_keys c"
    and "c' = (if cache_max_size c = cache_size c
               then case cache_resize cache_mt_none (cache_size c + 1) c of Some (_, _, c) \<Rightarrow> c | None \<Rightarrow> c
               else c)"
  shows "cache_inv (\<lambda>_ _. True) c' \<and> lookup c' = lookup c \<and> (length (cache_map c') < unat (m_size c') \<or> k \<in> cached_keys c')"
proof (cases "cache_max_size c = cache_size c")
  case True
  then have c': "c' = c\<lparr>m_size := max (m_size c) (cache_size c + 1)\<rparr>"
    using none.resize_grows [OF assms(1)] assms(3) by simp
  have "length (cache_map c) < unat (max (m_size c) (cache_size c + 1))" if "length (cache_map c) < 2 ^ 32 - 1"
  proof -
    have "unat (cache_size c + 1) = Suc (length (cache_map c))"
      using that by (simp add: cache_size_def unat_of_nat unat_word_ariths)
    then show ?thesis by (simp add: max_def word_le_nat_alt)
  qed
  then show ?thesis using none.inv_resize [OF assms(1)] assms(2)
    unfolding c' by (auto simp: lookup_def cached_keys_def)
next
  case False
  have "length (cache_map c) \<le> unat (m_size c)" using assms(1) by (simp add: cache_inv_def)
  moreover have "length (cache_map c) \<noteq> unat (m_size c)"
    using False by (auto simp: cache_max_size_def cache_size_def)
  ultimately show ?thesis using False assms by simp
qed

lemma null_write_effect:
  assumes "null_inv p" "length (cache_map (nb_cache p)) < 2 ^ 32 - 1 \<or> null_contents p k \<noteq> None"
    and "null_write k v p = (True, p')"
  shows "null_inv p' \<and> null_contents p' = (null_contents p)(k \<mapsto> v) \<and> ucast (bw_size v) \<le> nb_space_left p \<and>
     nb_space_left p' = nb_space_left p - ucast (bw_size v)"
proof -
  define c where "c = (if cache_max_size (nb_cache p) = cache_size (nb_cache p)
     then case cache_resize cache_mt_none (cache_size (nb_cache p) + 1) (nb_cache p) of Some (_, _, c) \<Rightarrow> c | None \<Rightarrow> nb_cache p
     else nb_cache p)"
  have p': "\<not> nb_space_left p < ucast (bw_size v)"
    "p' = p\<lparr>nb_cache := snd (snd (cache_write cache_mt_none k v True c)), nb_space_left := nb_space_left p - ucast (bw_size v)\<rparr>"
    using assms(3) by (auto simp: null_write_def Let_def c_def split: if_splits)
  have "k \<in> cached_keys (nb_cache p) \<longleftrightarrow> null_contents p k \<noteq> None"
    by (auto simp: null_contents_def cached_keys_lookup)
  then have "length (cache_map (nb_cache p)) < 2 ^ 32 - 1 \<or> k \<in> cached_keys (nb_cache p)" using assms(2) by blast
  from grown_cache [OF assms(1) [unfolded null_inv_def] this c_def]
  have c: "cache_inv (\<lambda>_ _. True) c" "lookup c = lookup (nb_cache p)"
    "length (cache_map c) < unat (m_size c) \<or> k \<in> cached_keys c" by blast+
  from none_write [OF c(1,3), of v True] c(2) show ?thesis
    unfolding p'(2) null_inv_def null_contents_def using p'(1) by (auto simp: fun_eq_iff)
qed

interpretation null_map: exact_persistency null_ops "\<lambda>_ _. False" null_inv null_contents
proof unfold_locales
  fix p k r p' assume inv: "null_inv p" and run: "pe_read null_ops k p = (r, p')"
  obtain c where c: "cache_read cache_mt_none k (nb_cache p) = (r, c)" "p' = p\<lparr>nb_cache := c\<rparr>"
    using run by (auto simp: null_ops_def null_read_def split: prod.splits)
  from none.inv_read [OF inv [unfolded null_inv_def], of k] none.read_result [OF c(1)] c
  show "null_inv p' \<and> null_contents p' = null_contents p" by (simp add: null_inv_def null_contents_def)
next
  fix p k v p' assume "null_inv p" "pe_read null_ops k p = (Some v, p')"
  then show "null_contents p k = Some v" using none.read_result [of k "nb_cache p"]
    by (auto simp: null_ops_def null_read_def null_contents_def split: prod.splits)
next
  fix p k v p'
  assume inv: "null_inv p" and run: "pe_write null_ops k v p = (True, p')"
    and "null_contents p k \<in> {None, Some v}" "finite (dom (null_contents p))"
    and room: "card (dom (null_contents p)) < 2 ^ 32 - 1 \<or> null_contents p k \<noteq> None"
  from null_write_effect [OF inv room [unfolded null_contents_card [OF inv]]] run
  show "null_inv p' \<and> null_contents p' = (null_contents p)(k \<mapsto> v)" by (simp add: null_ops_def)
next
  fix p k v p' assume "null_inv p" "pe_write null_ops k v p = (False, p')"
  then show "null_inv p' \<and> null_contents p' = null_contents p"
    by (auto simp: null_ops_def null_write_def Let_def split: if_splits)
next
  fix p k v assume "null_contents p k = Some v"
  then show "fst (pe_read null_ops k p) = Some v"
    by (auto simp: null_ops_def null_read_def null_contents_def cache_read_def lookup_def split: option.splits)
qed simp_all

lemma null_new_ok: "null_inv (null_bw_map_new cs m) \<and> null_contents (null_bw_map_new cs m) = Map.empty"
  by (auto simp: null_inv_def null_bw_map_new_def null_contents_def lookup_def cache_init_def cache_inv_def cached_keys_def)

section \<open>Properties\<close>

text \<open>
  C17: the memory-backed provider loses no page. Whatever requests it has served, a read request
  for pages whose writes were acknowledged succeeds and returns their contents.
\<close>

theorem null_provider_keeps_pages:
  assumes "provider_reach ar null_ops (\<lambda>_ _. False) (null_bw_map_new cs m) M W pm"
    and "finite (dom M)" "card (dom M) < 2 ^ 32" "set params \<subseteq> W" "params \<noteq> []"
  shows "\<exists>pages pm'. read_page null_ops sender params pm = Returns rpc_ok pages pm' \<and> map M params = map Some pages"
  using null_map.acknowledged_readable [OF assms(1) _ _ assms(2-5)] null_new_ok by blast

text \<open>
  A write is refused exactly if the page is larger than the space left, and the account never
  wraps around.
\<close>

theorem null_write_space:
  assumes "null_write k v p = (b, p')"
  shows "(b \<longleftrightarrow> unat (bw_size v) \<le> unat (null_get_free p)) \<and>
    unat (null_get_free p') = (if b then unat (null_get_free p) - unat (bw_size v) else unat (null_get_free p))"
proof -
  have u: "unat (ucast (bw_size v) :: u64) = unat (bw_size v)" by (rule unat_ucast_u32)
  show ?thesis using assms
    by (auto simp: null_write_def null_get_free_def Let_def word_less_nat_alt u unat_sub_if' split: if_splits)
qed

section \<open>Instances\<close>

definition ex_provider :: "(null_bw_map, unit) page_manager" where
  "ex_provider = page_manager_new (null_bw_map_new 1 100) False ()"

lemma ex_provider_write:
  "\<exists>pm. write_page null_ops ''x'' [[1], [7, 8], [2], [9]] ex_provider = Returns rpc_ok [] pm"
  by (simp add: ex_provider_def page_manager_new_def write_page_def null_ops_def null_write_def null_bw_map_new_def
      cache_init_def bw_size_def Let_def cache_max_size_def cache_size_def cache_write_def cache_mt_none_def
      cache_resize_def resize_loop.simps exec_hooks_def unat_sub_if')

theorem null_provider_keeps_pages_witness:
  "\<exists>pm pm'. write_page null_ops ''x'' [[1], [7, 8], [2], [9]] ex_provider = Returns rpc_ok [] pm \<and>
     read_page null_ops ''y'' [[2], [1]] pm = Returns rpc_ok [[9], [7, 8]] pm'"
proof -
  let ?M = "[[1] \<mapsto> [7, 8], [2] \<mapsto> [9]] :: buffer \<rightharpoonup> buffer"
  obtain pm where pm: "write_page null_ops ''x'' [[1], [7, 8], [2], [9]] ex_provider = Returns rpc_ok [] pm"
    using ex_provider_write by blast
  have "page_cache ex_provider = null_bw_map_new 1 100" by (simp add: ex_provider_def page_manager_new_def)
  from pr_write [OF pr_start [OF this] pm, of ?M plain_archive]
  have "provider_reach plain_archive null_ops (\<lambda>_ _. False) (null_bw_map_new 1 100) ?M {[1], [2]} pm" by simp
  from null_provider_keeps_pages [OF this, of "[[2], [1]]" "''y''"] pm show ?thesis by auto
qed

theorem null_write_space_witness:
  "\<exists>p'. null_write [1] [7, 8] (null_bw_map_new 1 1) = (False, p') \<and> unat (null_get_free p') = 1"
proof -
  obtain b p' where run: "null_write [1] [7, 8] (null_bw_map_new 1 1) = (b, p')" by fastforce
  from null_write_space [OF this] run show ?thesis
    by (auto simp: null_get_free_def null_bw_map_new_def bw_size_def)
qed

end
