(* ===== verification/Bdb_Bw_Map.thy ===== *)
theory Bdb_Bw_Map
  imports Page_Manager Cache_MT
begin

text \<open>
  \<open>provider/bdb_bw_map.cpp\<close>: pages cached in memory under the LRU policy; dirty pages that are
  evicted go to a queue, from which a thread of its own writes them to a Berkeley DB database.

  The database is not part of the repository. It is the parameter \<open>db_ops\<close>: \<open>db_put\<close> gives
  \<open>None\<close> where \<open>Db::put\<close> throws, \<open>db_get\<close> gives \<open>None\<close> where \<open>Db::get\<close> does not
  find the key or throws. What is relied on is \<open>db_ok\<close>: after a put, a get returns what
  was put, and other keys are as before.
\<close>

record 'd db_ops =
  db_put :: "buffer \<Rightarrow> buffer \<Rightarrow> 'd \<Rightarrow> 'd option"
  db_get :: "buffer \<Rightarrow> 'd \<Rightarrow> buffer option"

definition db_ok :: "'d db_ops \<Rightarrow> bool" where
  "db_ok db \<longleftrightarrow> (\<forall>k v d d' x. db_put db k v d = Some d' \<longrightarrow> db_get db x d' = (if x = k then Some v else db_get db x d))"

text \<open>
  The writer thread (\<open>write_exec\<close>) is at the top of its loop, in \<open>write_queue_cond.wait\<close>, or
  behind the block that holds \<open>write_queue_lock\<close>, with the entry it has taken from the queue.
\<close>

datatype writer_point = Looping | Waiting | Putting "buffer \<times> buffer"

record 'd bdb_bw_map =
  bb_cache :: "(buffer, buffer, buffer cache_mt_LRU) cache_mt"
  bb_db :: 'd
  bb_space_left :: u64
  write_queue :: "(buffer \<times> buffer) list"
  writer :: writer_point

definition bdb_bw_map_new :: "'d \<Rightarrow> u64 \<Rightarrow> u64 \<Rightarrow> 'd bdb_bw_map" where
  "bdb_bw_map_new d cs m = \<lparr>bb_cache = cache_init lru_init (ucast cs), bb_db = d, bb_space_left = m, write_queue = [],
     writer = Looping\<rparr>"

definition bdb_get_free :: "'d bdb_bw_map \<Rightarrow> u64" where
  "bdb_get_free p = bb_space_left p"

definition bdb_evict :: "buffer \<times> buffer \<Rightarrow> 'd bdb_bw_map \<Rightarrow> 'd bdb_bw_map" where
  "bdb_evict e p = p\<lparr>write_queue := write_queue p @ [e]\<rparr>"

text \<open>
  A step of the writer thread: a block under the lock, or the put that follows after the lock was
  released. A failed put drops the page. The wait is not in a loop: a thread that wakes up with
  nothing in the queue takes the front of an empty deque, which is undefined, \<open>None\<close>.
\<close>

definition bdb_pop :: "'d bdb_bw_map \<Rightarrow> 'd bdb_bw_map option" where
  "bdb_pop p = (case write_queue p of [] \<Rightarrow> None | e # q \<Rightarrow> Some (p\<lparr>write_queue := q, writer := Putting e\<rparr>))"

definition bdb_write_exec :: "'d db_ops \<Rightarrow> 'd bdb_bw_map \<Rightarrow> 'd bdb_bw_map option" where
  "bdb_write_exec db p =
     (case writer p of
        Looping \<Rightarrow> if write_queue p = [] then Some (p\<lparr>writer := Waiting\<rparr>) else bdb_pop p
      | Waiting \<Rightarrow> bdb_pop p
      | Putting (k, v) \<Rightarrow>
          Some (case db_put db k v (bb_db p) of
                  None \<Rightarrow> p\<lparr>writer := Looping\<rparr>
                | Some d \<Rightarrow> p\<lparr>bb_db := d, writer := Looping\<rparr>))"

definition bdb_read :: "'d db_ops \<Rightarrow> buffer \<Rightarrow> 'd bdb_bw_map \<Rightarrow> buffer option \<times> 'd bdb_bw_map" where
  "bdb_read db key p =
     (case cache_read cache_mt_LRU_ops key (bb_cache p) of
        (Some v, c) \<Rightarrow> (Some v, p\<lparr>bb_cache := c\<rparr>)
      | (None, c) \<Rightarrow>
          (case db_get db key (bb_db p) of
             None \<Rightarrow> (None, p\<lparr>bb_cache := c\<rparr>)
           | Some v \<Rightarrow>
               (case cache_write cache_mt_LRU_ops key v False c of
                  (b, out, c) \<Rightarrow> (if b then Some v else None, fold bdb_evict out (p\<lparr>bb_cache := c\<rparr>)))))"

definition bdb_write :: "buffer \<Rightarrow> buffer \<Rightarrow> 'd bdb_bw_map \<Rightarrow> bool \<times> 'd bdb_bw_map" where
  "bdb_write key v p =
     (if bb_space_left p < ucast (bw_size v) then (False, p)
      else case cache_write cache_mt_LRU_ops key v True (bb_cache p) of
             (result, out, c) \<Rightarrow>
               let p = fold bdb_evict out (p\<lparr>bb_cache := c\<rparr>) in
               (result, if result then p\<lparr>bb_space_left := bb_space_left p - ucast (bw_size v)\<rparr> else p))"

definition bdb_ops :: "'d db_ops \<Rightarrow> 'd bdb_bw_map persist_ops" where
  "bdb_ops db = \<lparr>pe_read = bdb_read db, pe_write = bdb_write, pe_get_free = bdb_get_free\<rparr>"

section \<open>Where a page is\<close>

text \<open>The pages on their way to the database: the one in the hands of the writer thread and the queue.\<close>

definition in_hand :: "writer_point \<Rightarrow> (buffer \<times> buffer) list" where
  "in_hand w = (case w of Putting e \<Rightarrow> [e] | _ \<Rightarrow> [])"

definition pending :: "'d bdb_bw_map \<Rightarrow> (buffer \<times> buffer) list" where
  "pending p = in_hand (writer p) @ write_queue p"

lemma in_hand_simps [simp]: "in_hand Looping = []" "in_hand Waiting = []" "in_hand (Putting e) = [e]"
  by (simp_all add: in_hand_def)

definition holds :: "'d db_ops \<Rightarrow> 'd bdb_bw_map \<Rightarrow> buffer \<Rightarrow> buffer \<Rightarrow> bool" where
  "holds db p k v \<longleftrightarrow> (\<exists>b. lookup (bb_cache p) k = Some (v, b)) \<or> (k, v) \<in> set (pending p) \<or> db_get db k (bb_db p) = Some v"

text \<open>
  All places agree on the contents of a page, and a page that is in the cache but not dirty is in
  the database.
\<close>

definition bdb_inv :: "'d db_ops \<Rightarrow> 'd bdb_bw_map \<Rightarrow> bool" where
  "bdb_inv db p \<longleftrightarrow> cache_inv lru_tracks (bb_cache p) \<and>
     (\<forall>k v v'. holds db p k v \<and> holds db p k v' \<longrightarrow> v = v') \<and>
     (\<forall>k v. lookup (bb_cache p) k = Some (v, False) \<longrightarrow> db_get db k (bb_db p) = Some v)"

definition bdb_contents :: "'d db_ops \<Rightarrow> 'd bdb_bw_map \<Rightarrow> buffer \<rightharpoonup> buffer" where
  "bdb_contents db p k =
     (case lookup (bb_cache p) k of
        Some (v, _) \<Rightarrow> Some v
      | None \<Rightarrow> case map_of (pending p) k of Some v \<Rightarrow> Some v | None \<Rightarrow> db_get db k (bb_db p))"

text \<open>The writer thread at work, while the database accepts the pages.\<close>

definition bdb_flush :: "'d db_ops \<Rightarrow> 'd bdb_bw_map \<Rightarrow> 'd bdb_bw_map \<Rightarrow> bool" where
  "bdb_flush db p p' \<longleftrightarrow>
     (\<forall>k v. writer p = Putting (k, v) \<longrightarrow> db_put db k v (bb_db p) \<noteq> None) \<and> bdb_write_exec db p = Some p'"

text \<open>Nothing is on its way.\<close>

definition bdb_idle :: "'d bdb_bw_map \<Rightarrow> bool" where
  "bdb_idle p \<longleftrightarrow> write_queue p = [] \<and> writer p \<in> {Looping, Waiting}"

lemma bdb_idle_pending: "bdb_idle p \<longleftrightarrow> pending p = []"
  by (cases "writer p") (auto simp: bdb_idle_def pending_def)

lemma bdb_contents_holds:
  assumes "bdb_inv db p"
  shows "bdb_contents db p k = Some v \<longleftrightarrow> holds db p k v"
proof -
  have fn: "holds db p k v \<Longrightarrow> holds db p k v' \<Longrightarrow> v = v'" for v v' using assms by (auto simp: bdb_inv_def)
  have "holds db p k w" if "bdb_contents db p k = Some w" for w
    using that by (auto simp: bdb_contents_def holds_def split: option.splits dest: map_of_SomeD)
  moreover have "bdb_contents db p k \<noteq> None" if "holds db p k w" for w
    using that by (auto simp: bdb_contents_def holds_def split: option.splits prod.splits dest: weak_map_of_SomeI)
  ultimately show ?thesis using fn by (metis option.exhaust)
qed

lemma contents_eqI:
  assumes "bdb_inv db p" "bdb_inv db p'" "\<And>k v. holds db p' k v \<longleftrightarrow> holds db p k v"
  shows "bdb_contents db p' = bdb_contents db p"
proof
  fix k
  have "bdb_contents db p' k = Some v \<longleftrightarrow> bdb_contents db p k = Some v" for v
    by (simp add: bdb_contents_holds assms)
  then show "bdb_contents db p' k = bdb_contents db p k" by (metis option.exhaust)
qed

lemma fold_evict [simp]:
  "write_queue (fold bdb_evict out p) = write_queue p @ out"
  "bb_cache (fold bdb_evict out p) = bb_cache p"
  "bb_db (fold bdb_evict out p) = bb_db p"
  "bb_space_left (fold bdb_evict out p) = bb_space_left p"
  "writer (fold bdb_evict out p) = writer p"
  by (induction out arbitrary: p) (simp_all add: bdb_evict_def)

text \<open>A write into the cache adds its page to what is held and loses nothing.\<close>

lemma cache_write_holds:
  assumes "bdb_inv db p" "cache_write cache_mt_LRU_ops k v b (bb_cache p) = (True, out, c)"
    and "\<And>w. holds db p k w \<Longrightarrow> w = v" "b \<or> db_get db k (bb_db p) = Some v"
    and "p' = fold bdb_evict out (p\<lparr>bb_cache := c\<rparr>)"
  shows "(\<forall>x w. holds db p' x w \<longleftrightarrow> holds db p x w \<or> x = k \<and> w = v) \<and> bdb_inv db p'"
proof -
  have inv: "cache_inv lru_tracks (bb_cache p)" using assms(1) by (simp add: bdb_inv_def)
  have dirty: "lookup (bb_cache p) x = Some (w, False) \<Longrightarrow> db_get db x (bb_db p) = Some w" for x w
    using assms(1) by (auto simp: bdb_inv_def)
  have q: "pending p' = pending p @ out" "bb_cache p' = c" "bb_db p' = bb_db p" by (simp_all add: assms(5) pending_def)
  have kp: "lookup (bb_cache p) k = Some (w, d) \<Longrightarrow> w = v" for w d using assms(3) by (auto simp: holds_def)
  from lru.write_lookup [OF inv assms(2)] have h: "holds db p' x w \<longleftrightarrow> holds db p x w \<or> x = k \<and> w = v" for x w
  proof (elim disjE conjE exE)
    assume "lookup c = (lookup (bb_cache p))(k \<mapsto> (v, b))" "out = []"
    then show ?thesis using kp by (auto simp: holds_def q)
  next
    fix ek e assume e: "ek \<noteq> k" "lookup (bb_cache p) ek = Some e"
      "lookup c = (lookup (bb_cache p))(ek := None, k \<mapsto> (v, b))" "out = (if snd e then [(ek, fst e)] else [])"
    obtain ev ed where ev: "e = (ev, ed)" by (cases e)
    consider "x = k" | "x = ek" | "x \<noteq> k" "x \<noteq> ek" by blast
    then show ?thesis
    proof cases
      case 1
      then show ?thesis using e(1,3,4) assms(3) [of w] by (auto simp: holds_def q)
    next
      case 2
      then show ?thesis using e ev dirty [of ek ev] by (cases ed) (auto simp: holds_def q)
    next
      case 3
      then show ?thesis using e(3,4) by (simp add: holds_def q)
    qed
  qed
  have a1: "\<forall>x w w'. holds db p' x w \<and> holds db p' x w' \<longrightarrow> w = w'"
  proof -
    have fn: "holds db p x w \<Longrightarrow> holds db p x w' \<Longrightarrow> w = w'" for x w w'
      using assms(1) unfolding bdb_inv_def by blast
    have "w = w'" if "holds db p x w \<or> x = k \<and> w = v" "holds db p x w' \<or> x = k \<and> w' = v" for x w w'
      using that fn [of x w w'] assms(3) [of w] assms(3) [of w'] by metis
    then show ?thesis unfolding h by (intro allI impI) (elim conjE)
  qed
  have a2: "cache_inv lru_tracks c" using lru.inv_write [OF inv, of k v b] assms(2) by simp
  have a3: "db_get db x (bb_db p') = Some w" if "lookup c x = Some (w, False)" for x w
    using lru.write_lookup [OF inv assms(2)] that dirty [of x w] assms(4)
    by (cases "x = k") (auto simp: q split: if_splits)
  have "bdb_inv db p'" unfolding bdb_inv_def using a1 a2 a3 by (intro conjI allI impI) (simp_all only: q)
  with h show ?thesis by (intro conjI allI)
qed

lemma bdb_inv_fn: "bdb_inv db p \<Longrightarrow> holds db p k v \<Longrightarrow> holds db p k w \<Longrightarrow> v = w"
  unfolding bdb_inv_def by blast

lemma cache_read_holds:
  assumes "bdb_inv db p" "cache_read cache_mt_LRU_ops k (bb_cache p) = (r, c)"
  shows "bdb_inv db (p\<lparr>bb_cache := c\<rparr>) \<and> (\<forall>x w. holds db (p\<lparr>bb_cache := c\<rparr>) x w \<longleftrightarrow> holds db p x w) \<and>
    r = map_option fst (lookup (bb_cache p) k) \<and> lookup c = lookup (bb_cache p) \<and> cache_inv lru_tracks c"
proof -
  note r = lru.read_result [OF assms(2)]
  have inv: "cache_inv lru_tracks c"
    using lru.inv_read [of "bb_cache p" k] assms by (simp add: bdb_inv_def)
  have "holds db (p\<lparr>bb_cache := c\<rparr>) x w \<longleftrightarrow> holds db p x w" for x w using r by (simp add: holds_def pending_def)
  then show ?thesis using assms(1) r inv by (simp add: bdb_inv_def)
qed

lemma bdb_read_result:
  assumes "bdb_inv db p" "bdb_read db k p = (r, p')"
  shows "bdb_inv db p' \<and> (\<forall>x w. holds db p' x w \<longleftrightarrow> holds db p x w) \<and> (\<forall>v. r = Some v \<longrightarrow> holds db p k v)"
proof -
  obtain r1 c where c: "cache_read cache_mt_LRU_ops k (bb_cache p) = (r1, c)" by fastforce
  note rd = cache_read_holds [OF assms(1) c]
  show ?thesis
  proof (cases r1)
    case (Some v)
    then have "lookup (bb_cache p) k \<noteq> None" and v: "holds db p k v" using rd by (auto simp: holds_def)
    moreover have "r = Some v" "p' = p\<lparr>bb_cache := c\<rparr>" using assms(2) c Some by (auto simp: bdb_read_def)
    ultimately show ?thesis using rd by simp
  next
    case None
    show ?thesis
    proof (cases "db_get db k (bb_db p)")
      case None
      then have "r = None" "p' = p\<lparr>bb_cache := c\<rparr>" using assms(2) c \<open>r1 = None\<close> by (auto simp: bdb_read_def)
      then show ?thesis using rd by simp
    next
      case (Some v)
      obtain b out c' where w: "cache_write cache_mt_LRU_ops k v False c = (b, out, c')" by (metis prod_cases3)
      have res: "r = (if b then Some v else None)" "p' = fold bdb_evict out (p\<lparr>bb_cache := c'\<rparr>)"
        using assms(2) c w Some None by (auto simp: bdb_read_def)
      have hk: "holds db p k v" using Some by (simp add: holds_def)
      show ?thesis
      proof (cases b)
        case True
        have "(\<forall>x w. holds db p' x w \<longleftrightarrow> holds db (p\<lparr>bb_cache := c\<rparr>) x w \<or> x = k \<and> w = v) \<and> bdb_inv db p'"
        proof (rule cache_write_holds)
          show "bdb_inv db (p\<lparr>bb_cache := c\<rparr>)" using rd by simp
          show "cache_write cache_mt_LRU_ops k v False (bb_cache (p\<lparr>bb_cache := c\<rparr>)) = (True, out, c')" using w True by simp
          show "w = v" if "holds db (p\<lparr>bb_cache := c\<rparr>) k w" for w using that rd bdb_inv_fn [OF assms(1) _ hk] by simp
        qed (use Some res in simp_all)
        then show ?thesis using rd hk res True by auto
      next
        case False
        then have "out = []" "c' = c" using lru.write_rejected [of c k v False out c'] w rd by auto
        then show ?thesis using rd res False by simp
      qed
    qed
  qed
qed

lemma holds_space [simp]: "holds db (p\<lparr>bb_space_left := m\<rparr>) k v \<longleftrightarrow> holds db p k v"
  by (simp add: holds_def pending_def)

lemma bdb_inv_space [simp]: "bdb_inv db (p\<lparr>bb_space_left := m\<rparr>) \<longleftrightarrow> bdb_inv db p"
  by (simp add: bdb_inv_def)

lemma bdb_write_result:
  assumes "bdb_inv db p" "bdb_write k v p = (True, p')" "\<And>w. holds db p k w \<Longrightarrow> w = v"
  shows "bdb_inv db p' \<and> (\<forall>x w. holds db p' x w \<longleftrightarrow> holds db p x w \<or> x = k \<and> w = v)"
proof -
  obtain b out c where w: "cache_write cache_mt_LRU_ops k v True (bb_cache p) = (b, out, c)" by (metis prod_cases3)
  let ?p = "fold bdb_evict out (p\<lparr>bb_cache := c\<rparr>)"
  have b: b and p': "p' = ?p\<lparr>bb_space_left := bb_space_left p - ucast (bw_size v)\<rparr>"
    using assms(2) w by (auto simp: bdb_write_def Let_def split: if_splits)
  have "(\<forall>x w. holds db ?p x w \<longleftrightarrow> holds db p x w \<or> x = k \<and> w = v) \<and> bdb_inv db ?p"
    by (rule cache_write_holds [OF assms(1) _ assms(3), where b = True]) (use w b in simp_all)
  then show ?thesis unfolding p' by (simp only: holds_space bdb_inv_space) blast
qed

text \<open>
  The block under the lock moves an entry from the queue into the hands of the thread, the put
  moves it from there into the database.
\<close>

lemma bdb_flush_cases:
  assumes "bdb_flush db p p'"
  obtains (wait) "write_queue p = []" "p' = p\<lparr>writer := Waiting\<rparr>" "in_hand (writer p) = []"
  | (pop) e q where "write_queue p = e # q" "in_hand (writer p) = []" "p' = p\<lparr>write_queue := q, writer := Putting e\<rparr>"
  | (put) k v d where "writer p = Putting (k, v)" "db_put db k v (bb_db p) = Some d" "p' = p\<lparr>bb_db := d, writer := Looping\<rparr>"
  using assms
  by (cases "writer p"; cases "write_queue p") (auto simp: bdb_flush_def bdb_write_exec_def bdb_pop_def)

lemma bdb_put_result:
  assumes "db_ok db" "bdb_inv db p" "writer p = Putting (k, v)" "db_put db k v (bb_db p) = Some d"
    and "p' = p\<lparr>bb_db := d, writer := Looping\<rparr>"
  shows "bdb_inv db p' \<and> (\<forall>x w. holds db p' x w \<longleftrightarrow> holds db p x w)"
proof -
  note q = assms(3-5)
  have get: "db_get db x d = (if x = k then Some v else db_get db x (bb_db p))" for x
    using assms(1) q(2) unfolding db_ok_def by blast
  have hk: "holds db p k v" using q(1) by (simp add: holds_def pending_def)
  have old: "db_get db k (bb_db p) = Some w \<Longrightarrow> w = v" for w
    using bdb_inv_fn [OF assms(2) _ hk] by (simp add: holds_def)
  have h: "holds db p' x w \<longleftrightarrow> holds db p x w" for x w
    using old by (cases "x = k") (auto simp: holds_def pending_def q get)
  have clean: "db_get db x d = Some w" if "lookup (bb_cache p) x = Some (w, False)" for x w
  proof -
    have "holds db p x w" using that by (auto simp: holds_def)
    then show ?thesis using assms(2) that bdb_inv_fn [OF assms(2) _ hk, of w] by (auto simp: get bdb_inv_def)
  qed
  have "bdb_inv db p'"
    unfolding bdb_inv_def h using assms(2) clean by (simp add: bdb_inv_def q(3))
  with h show ?thesis by (intro conjI allI)
qed

lemma bdb_flush_result:
  assumes "db_ok db" "bdb_inv db p" "bdb_flush db p p'"
  shows "bdb_inv db p' \<and> (\<forall>x w. holds db p' x w \<longleftrightarrow> holds db p x w)"
  using assms(3)
proof (cases rule: bdb_flush_cases)
  case (put k v d)
  then show ?thesis by (rule bdb_put_result [OF assms(1,2)])
next
  case wait
  then have "holds db p' x w \<longleftrightarrow> holds db p x w" for x w by (simp add: holds_def pending_def)
  then show ?thesis using assms(2) wait(2) by (simp add: bdb_inv_def)
next
  case (pop e q)
  then have "holds db p' x w \<longleftrightarrow> holds db p x w" for x w by (auto simp: holds_def pending_def)
  then show ?thesis using assms(2) pop(3) by (simp add: bdb_inv_def)
qed

text \<open>The only undefined step is a wake-up of the waiting thread with nothing in the queue.\<close>

lemma bdb_write_exec_undefined: "bdb_write_exec db p = None \<longleftrightarrow> writer p = Waiting \<and> write_queue p = []"
  by (auto simp: bdb_write_exec_def bdb_pop_def split: writer_point.splits list.splits)

text \<open>While the database accepts the pages, the writer thread brings all of them there by itself.\<close>

lemma bdb_drains:
  assumes "\<And>k v d. db_put db k v d \<noteq> None"
  shows "\<exists>p'. (bdb_flush db)\<^sup>*\<^sup>* p p' \<and> bdb_idle p' \<and> bb_cache p' = bb_cache p"
proof (induction "2 * length (write_queue p) + length (in_hand (writer p))" arbitrary: p rule: less_induct)
  case less
  show ?case
  proof (cases "bdb_idle p")
    case False
    then obtain p' where p': "bdb_flush db p p'" "bb_cache p' = bb_cache p"
        "2 * length (write_queue p') + length (in_hand (writer p')) < 2 * length (write_queue p) + length (in_hand (writer p))"
      using assms
      by (cases "writer p"; cases "write_queue p")
        (auto simp: bdb_flush_def bdb_write_exec_def bdb_pop_def bdb_idle_def split: option.splits)
    from less [OF p'(3)] p' show ?thesis by (metis converse_rtranclp_into_rtranclp)
  qed blast
qed

lemma bdb_flushes_cache: "(bdb_flush db)\<^sup>*\<^sup>* p p' \<Longrightarrow> bb_cache p' = bb_cache p"
  by (induction rule: rtranclp_induct) (auto elim: bdb_flush_cases)

lemma bdb_reach_flush:
  assumes "provider_reach ar (bdb_ops db) (bdb_flush db) st M W pm" "(bdb_flush db)\<^sup>*\<^sup>* (page_cache pm) p'"
  shows "provider_reach ar (bdb_ops db) (bdb_flush db) st M W (pm\<lparr>page_cache := p'\<rparr>)"
  using assms(2)
proof (induction rule: rtranclp_induct)
  case (step y z)
  from pr_internal [OF step.IH, of z] step.hyps show ?case by simp
qed (use assms(1) in simp)

lemma bdb_persistency:
  assumes "db_ok db"
  shows "persistency (bdb_ops db) (bdb_flush db) (bdb_inv db) (bdb_contents db)"
proof unfold_locales
  fix p k r p' assume inv: "bdb_inv db p" and "pe_read (bdb_ops db) k p = (r, p')"
  then have "bdb_read db k p = (r, p')" by (simp add: bdb_ops_def)
  note res = bdb_read_result [OF inv this]
  then show "bdb_inv db p' \<and> bdb_contents db p' = bdb_contents db p" using contents_eqI [OF inv] by blast
next
  fix p k v p' assume inv: "bdb_inv db p" and "pe_read (bdb_ops db) k p = (Some v, p')"
  then have "bdb_read db k p = (Some v, p')" by (simp add: bdb_ops_def)
  from bdb_read_result [OF inv this] show "bdb_contents db p k = Some v" by (simp add: bdb_contents_holds [OF inv])
next
  fix p k v p'
  assume inv: "bdb_inv db p" and run: "pe_write (bdb_ops db) k v p = (True, p')"
    and kv: "bdb_contents db p k \<in> {None, Some v}"
  from run have run': "bdb_write k v p = (True, p')" by (simp add: bdb_ops_def)
  have "w = v" if "holds db p k w" for w using kv that bdb_contents_holds [OF inv, of k w] by auto
  note res = bdb_write_result [OF inv run' this]
  have "bdb_contents db p' x = ((bdb_contents db p)(k \<mapsto> v)) x" for x
  proof -
    have "bdb_contents db p' x = Some w \<longleftrightarrow> ((bdb_contents db p)(k \<mapsto> v)) x = Some w" for w
      using res bdb_contents_holds [of db p' x w] bdb_contents_holds [OF inv, of x w] kv by auto
    then show ?thesis by (metis option.exhaust)
  qed
  then show "bdb_inv db p' \<and> bdb_contents db p' = (bdb_contents db p)(k \<mapsto> v)" using res by (intro conjI ext) auto
next
  fix p k v p' assume inv: "bdb_inv db p" and "pe_write (bdb_ops db) k v p = (False, p')"
  then have run: "bdb_write k v p = (False, p')" by (simp add: bdb_ops_def)
  have "p' = p"
  proof (cases "bb_space_left p < ucast (bw_size v)")
    case True
    then show ?thesis using run by (simp add: bdb_write_def)
  next
    case False
    obtain b out c where w: "cache_write cache_mt_LRU_ops k v True (bb_cache p) = (b, out, c)" by (metis prod_cases3)
    with run False have "\<not> b" "p' = fold bdb_evict out (p\<lparr>bb_cache := c\<rparr>)" by (auto simp: bdb_write_def Let_def)
    moreover have "cache_inv lru_tracks (bb_cache p)" using inv by (simp add: bdb_inv_def)
    ultimately show ?thesis using w lru.write_rejected [of "bb_cache p" k v True out c] by simp
  qed
  then show "bdb_inv db p' \<and> bdb_contents db p' = bdb_contents db p" using inv by simp
next
  fix p p' assume inv: "bdb_inv db p" and "bdb_flush db p p'"
  from bdb_flush_result [OF assms this] show "bdb_inv db p' \<and> bdb_contents db p' = bdb_contents db p"
    using contents_eqI [OF inv] by blast
qed

lemma bdb_new_ok:
  assumes "\<forall>k. db_get db k d = None"
  shows "bdb_inv db (bdb_bw_map_new d cs m) \<and> bdb_contents db (bdb_bw_map_new d cs m) = Map.empty"
  using assms lru.inv_init [of lru_init "ucast cs"]
  by (auto simp: bdb_inv_def bdb_bw_map_new_def bdb_contents_def holds_def pending_def lookup_def cache_init_def lru_tracks_def lru_init_ok)

lemma bdb_idle_read:
  assumes "bdb_inv db p" "bdb_idle p" "bdb_contents db p k = Some v" "0 < m_size (bb_cache p)"
  shows "\<exists>p'. bdb_read db k p = (Some v, p')"
proof -
  have inv: "cache_inv lru_tracks (bb_cache p)" using assms(1) by (simp add: bdb_inv_def)
  obtain r p' where run: "bdb_read db k p = (r, p')" by fastforce
  have "r \<noteq> None"
  proof (cases "lookup (bb_cache p) k")
    case (Some e)
    then show ?thesis using run by (auto simp: bdb_read_def cache_read_def lookup_def split: option.splits prod.splits)
  next
    case None
    then have db: "db_get db k (bb_db p) = Some v" using assms(2,3) by (simp add: bdb_contents_def bdb_idle_pending)
    obtain c where c: "cache_read cache_mt_LRU_ops k (bb_cache p) = (None, c)" "m_size c = m_size (bb_cache p)"
      using None by (auto simp: cache_read_def lookup_def)
    have ci: "cache_inv lru_tracks c" using lru.inv_read [OF inv, of k] c by simp
    have "fst (cache_write cache_mt_LRU_ops k v False c)"
      using ci
    proof (cases rule: lru.write_cases [of c k v False])
      case rejected
      then have "cached_keys c = {}" using ci
        by (auto simp: cache_inv_def lru_tracks_def cache_mt_LRU_ops_def lru_evict_None)
      then have "length (cache_map c) = 0" by (simp add: cached_keys_def)
      with rejected(2) c(2) assms(4) show ?thesis by (simp add: word_less_nat_alt)
    qed simp_all
    then obtain out c' where "cache_write cache_mt_LRU_ops k v False c = (True, out, c')"
      by (cases "cache_write cache_mt_LRU_ops k v False c") auto
    then show ?thesis using run unfolding bdb_read_def c(1) db by auto
  qed
  then obtain w where w: "r = Some w" by auto
  with bdb_read_result [OF assms(1) run] have "bdb_contents db p k = Some w" by (simp add: bdb_contents_holds [OF assms(1)])
  with assms(3) run w show ?thesis by simp
qed

text \<open>In a reachable idle state of the provider the request for an acknowledged page is answered with it.\<close>

lemma bdb_idle_read_page:
  assumes "db_ok db" "\<forall>k. db_get db k d = None"
    and "provider_reach ar (bdb_ops db) (bdb_flush db) (bdb_bw_map_new d cs m) M W pm"
    and "finite (dom M)" "card (dom M) < 2 ^ 32"
    and "k \<in> W" "bdb_idle (page_cache pm)" "0 < m_size (bb_cache (page_cache pm))"
  shows "\<exists>v pm'. read_page (bdb_ops db) sender [k] pm = Returns rpc_ok [v] pm' \<and> M k = Some v"
proof -
  let ?p = "page_cache pm"
  have st: "bdb_inv db ?p" "bdb_contents db ?p \<subseteq>\<^sub>m M" "W \<subseteq> dom (bdb_contents db ?p)"
    using persistency.acknowledged_stored [OF bdb_persistency [OF assms(1)] assms(3) _ _ assms(4,5)] bdb_new_ok [OF assms(2)]
    by blast+
  then obtain v where v: "bdb_contents db ?p k = Some v" using assms(6) by auto
  from bdb_idle_read [OF st(1) assms(7) v assms(8)] obtain p' where "bdb_read db k ?p = (Some v, p')" ..
  then have "read_page (bdb_ops db) sender [k] pm =
      Returns rpc_ok [v] (exec_hooks (bdb_ops db) PROVIDER_READ k (ucast (bw_size v)) sender (pm\<lparr>page_cache := p'\<rparr>))"
    by (simp add: read_page_def bdb_ops_def)
  moreover have "M k = Some v" using st(2) v by (rule map_le_Some)
  ultimately show ?thesis by blast
qed

section \<open>Properties\<close>

text \<open>
  C18: the database-backed provider never returns a wrong page, however reads, writes, evictions
  and the writer thread interleave, as long as the database accepts the pages.
\<close>

theorem bdb_provider_reads_right:
  assumes "db_ok db" "\<forall>k. db_get db k d = None"
    and "provider_reach ar (bdb_ops db) (bdb_flush db) (bdb_bw_map_new d cs m) M W pm"
    and "finite (dom M)" "card (dom M) < 2 ^ 32"
    and "read_page (bdb_ops db) sender params pm = Returns rpc_ok pages pm'"
  shows "map M params = map Some pages"
  using persistency.read_page_sound [OF bdb_persistency [OF assms(1)] assms(3) _ _ assms(4-6)] bdb_new_ok [OF assms(2)]
  by blast

text \<open>
  C26: every acknowledged page is found again once the writer thread has nothing left to do, that is
  with an empty queue and no page in its hands: from every reachable state, while the database
  accepts the pages, the steps of the writer thread alone lead to such a state, and there the read
  of any acknowledged page succeeds and gives this page (for a cache with at least one slot). An
  empty queue is not enough (\<open>page_in_hand_unreadable\<close>).
\<close>

theorem bdb_provider_quiescent:
  assumes "db_ok db" "\<forall>k. db_get db k d = None" "\<And>k v d. db_put db k v d \<noteq> None"
    and "provider_reach ar (bdb_ops db) (bdb_flush db) (bdb_bw_map_new d cs m) M W pm"
    and "finite (dom M)" "card (dom M) < 2 ^ 32" "0 < m_size (bb_cache (page_cache pm))"
  shows "(\<exists>p. (bdb_flush db)\<^sup>*\<^sup>* (page_cache pm) p \<and> bdb_idle p) \<and>
    (\<forall>p k. (bdb_flush db)\<^sup>*\<^sup>* (page_cache pm) p \<and> bdb_idle p \<and> k \<in> W \<longrightarrow>
      (\<exists>v pm'. read_page (bdb_ops db) sender [k] (pm\<lparr>page_cache := p\<rparr>) = Returns rpc_ok [v] pm' \<and> M k = Some v))"
proof (intro conjI allI impI; (elim conjE)?)
  show "\<exists>p. (bdb_flush db)\<^sup>*\<^sup>* (page_cache pm) p \<and> bdb_idle p" using bdb_drains [of db "page_cache pm"] assms(3) by blast
next
  fix p k assume fl: "(bdb_flush db)\<^sup>*\<^sup>* (page_cache pm) p" and p: "bdb_idle p" "k \<in> W"
  have "m_size (bb_cache p) = m_size (bb_cache (page_cache pm))" using fl by (simp add: bdb_flushes_cache)
  then show "\<exists>v pm'. read_page (bdb_ops db) sender [k] (pm\<lparr>page_cache := p\<rparr>) = Returns rpc_ok [v] pm' \<and> M k = Some v"
    using bdb_idle_read_page [OF assms(1,2) bdb_reach_flush [OF assms(4) fl] assms(5,6) p(2), of sender] p assms(7) by simp
qed

text \<open>
  C27: a page that was evicted from the cache cannot be read until the writer thread has stored it.
  A full cache hands its least recently used page to the queue, which \<open>read\<close> does not search.
\<close>

theorem evicted_page_unreadable:
  assumes "bdb_inv db p" "length (cache_map (bb_cache p)) = unat (m_size (bb_cache p))"
    and "lru_keys (policy (bb_cache p)) = ek # ks" "lookup (bb_cache p) ek = Some (w, True)"
    and "db_get db ek (bb_db p) = None" "lookup (bb_cache p) k = None" "ucast (bw_size v) \<le> bb_space_left p"
  shows "\<exists>p'. bdb_write k v p = (True, p') \<and> write_queue p' = write_queue p @ [(ek, w)] \<and> fst (bdb_read db ek p') = None"
proof -
  have inv: "cache_inv lru_tracks (bb_cache p)" using assms(1) by (simp add: bdb_inv_def)
  then have tr: "lru_tracks (policy (bb_cache p)) (cached_keys (bb_cache p))" by (simp add: cache_inv_def)
  have nk: "k \<notin> cached_keys (bb_cache p)" using assms(6) by (auto simp: cached_keys_lookup)
  obtain c where w: "cache_write cache_mt_LRU_ops k v True (bb_cache p) = (True, [(ek, w)], c)" "lookup c ek = None"
    using inv
  proof (cases rule: lru.write_cases [of "bb_cache p" k v True])
    case stored
    then show ?thesis using assms(2) nk by (simp add: cached_keys_def)
  next
    case (evicted e pol)
    have "e = ek" using evict_keys [OF tr evicted(5)] assms(3) by simp
    then show ?thesis using evicted(1,7) nk assms(4) that evicted(3)
      by (simp add: dirty_entry_def lookup_def map_of_delete_eq)
  next
    case rejected
    then show ?thesis using assms(3) by (simp add: cache_mt_LRU_ops_def lru_evict_None)
  qed
  have "\<not> bb_space_left p < ucast (bw_size v)" using assms(7) by simp
  with w show ?thesis using assms(5)
    by (auto simp: bdb_write_def Let_def bdb_read_def cache_read_def lookup_def bdb_evict_def split: option.splits)
qed

section \<open>Instances\<close>

definition mem_db :: "(buffer \<rightharpoonup> buffer) db_ops" where
  "mem_db = \<lparr>db_put = (\<lambda>k v d. Some (d(k \<mapsto> v))), db_get = (\<lambda>k d. d k)\<rparr>"

lemma mem_db_ok: "db_ok mem_db"
  by (simp add: db_ok_def mem_db_def)

interpretation mem: persistency "bdb_ops mem_db" "bdb_flush mem_db" "bdb_inv mem_db" "bdb_contents mem_db"
  by (rule bdb_persistency [OF mem_db_ok])

text \<open>A provider with a cache of one slot: the second page pushes the first one out.\<close>

definition ex_bdb :: "(buffer \<rightharpoonup> buffer) bdb_bw_map" where
  "ex_bdb = bdb_bw_map_new Map.empty 1 100"

definition ex_bdb_pages :: "buffer \<rightharpoonup> buffer" where
  "ex_bdb_pages = [[1] \<mapsto> [7], [2] \<mapsto> [8]]"

definition ex_bdb1 :: "(buffer \<rightharpoonup> buffer) bdb_bw_map" where
  "ex_bdb1 = snd (bdb_write [1] [7] ex_bdb)"

definition ex_bdb2 :: "(buffer \<rightharpoonup> buffer) bdb_bw_map" where
  "ex_bdb2 = snd (bdb_write [2] [8] ex_bdb1)"

lemmas ex_bdb_defs = ex_bdb_def ex_bdb1_def ex_bdb2_def bdb_bw_map_new_def cache_init_def lru_init_def bdb_write_def
  lru_simps lru_hit_def lru_invalidate_def lru_evictEntry_def bdb_evict_def bw_size_def dirty_entry_def lookup_def

lemma ex_bdb1_eq: "bdb_write [1] [7] ex_bdb = (True, ex_bdb1)"
  by (simp add: ex_bdb_defs)

lemma ex_bdb1_state:
  "ex_bdb1 = \<lparr>bb_cache = \<lparr>policy = \<lparr>access_count = [[1] \<mapsto> 0], queue = [(0, [1])], fresh_node = 1\<rparr>,
     cache_map = [([1], [7], True)], m_size = 1\<rparr>, bb_db = Map.empty, bb_space_left = 99, write_queue = [],
     writer = Looping\<rparr>"
  by (simp add: ex_bdb_defs)

lemma ex_bdb2_state:
  "bdb_write [2] [8] ex_bdb1 = (True, \<lparr>bb_cache = \<lparr>policy = \<lparr>access_count = [[2] \<mapsto> 1], queue = [(1, [2])], fresh_node = 2\<rparr>,
     cache_map = [([2], [8], True)], m_size = 1\<rparr>, bb_db = Map.empty, bb_space_left = 98, write_queue = [([1], [7])],
     writer = Looping\<rparr>)"
  unfolding ex_bdb1_state by (simp add: bdb_write_def lru_simps lru_hit_def lru_invalidate_def lru_evictEntry_def bdb_evict_def
      bw_size_def dirty_entry_def)

definition ex_pm :: "((buffer \<rightharpoonup> buffer) bdb_bw_map, unit) page_manager" where
  "ex_pm = page_manager_new ex_bdb False ()"

definition ex_popped :: "(buffer \<rightharpoonup> buffer) bdb_bw_map" where
  "ex_popped = \<lparr>bb_cache = \<lparr>policy = \<lparr>access_count = [[2] \<mapsto> 1], queue = [(1, [2])], fresh_node = 2\<rparr>,
     cache_map = [([2], [8], True)], m_size = 1\<rparr>, bb_db = Map.empty, bb_space_left = 98, write_queue = [],
     writer = Putting ([1], [7])\<rparr>"

definition ex_flushed :: "(buffer \<rightharpoonup> buffer) bdb_bw_map" where
  "ex_flushed = ex_popped\<lparr>bb_db := [[1] \<mapsto> [7]], writer := Looping\<rparr>"

text \<open>The entry the writer thread has taken from the queue is in no place that \<open>read\<close> searches.\<close>

lemma page_in_hand_unreadable:
  "write_queue ex_popped = []" "bdb_contents mem_db ex_popped [1] = Some [7]" "fst (bdb_read mem_db [1] ex_popped) = None"
  by (simp_all add: ex_popped_def bdb_contents_def lookup_def pending_def bdb_read_def cache_read_def mem_db_def)

lemma ex_flushes: "bdb_flush mem_db ex_bdb2 ex_popped" "bdb_flush mem_db ex_popped ex_flushed"
  using ex_bdb2_state
  by (simp_all add: bdb_flush_def bdb_write_exec_def bdb_pop_def ex_bdb2_def mem_db_def ex_flushed_def ex_popped_def)

lemma ex_pm_reach:
  "provider_reach plain_archive (bdb_ops mem_db) (bdb_flush mem_db) (bdb_bw_map_new Map.empty 1 100) ex_bdb_pages {[1], [2]}
     (ex_pm\<lparr>page_cache := ex_popped\<rparr>)"
proof -
  have start: "page_cache ex_pm = bdb_bw_map_new Map.empty 1 100"
    by (simp add: ex_pm_def page_manager_new_def ex_bdb_def)
  let ?pm = "ex_pm\<lparr>page_cache := ex_bdb2\<rparr>"
  have "write_page (bdb_ops mem_db) ''x'' [[1], [7], [2], [8]] ex_pm = Returns rpc_ok [] ?pm"
    using ex_bdb1_eq ex_bdb2_state
    by (simp add: write_page_def ex_pm_def page_manager_new_def bdb_ops_def exec_hooks_def ex_bdb2_def)
  from pr_write [OF pr_start [OF start] this, of ex_bdb_pages plain_archive "bdb_flush mem_db"]
  have w: "provider_reach plain_archive (bdb_ops mem_db) (bdb_flush mem_db) (bdb_bw_map_new Map.empty 1 100) ex_bdb_pages {[1], [2]} ?pm"
    by (simp add: ex_bdb_pages_def)
  from pr_internal [OF w, of ex_popped] ex_flushes(1) show ?thesis by simp
qed

lemma ex_flushed_reach:
  "provider_reach plain_archive (bdb_ops mem_db) (bdb_flush mem_db) (bdb_bw_map_new Map.empty 1 100) ex_bdb_pages {[1], [2]}
     (ex_pm\<lparr>page_cache := ex_flushed\<rparr>)"
  using pr_internal [OF ex_pm_reach, of ex_flushed] ex_flushes(2) by simp

lemma ex_pages_small: "finite (dom ex_bdb_pages)" "card (dom ex_bdb_pages) < 2 ^ 32"
  by (simp_all add: ex_bdb_pages_def)

theorem bdb_provider_quiescent_witness:
  "fst (bdb_read mem_db [1] ex_popped) = None \<and>
   (\<exists>pm'. read_page (bdb_ops mem_db) ''y'' [[1]] (ex_pm\<lparr>page_cache := ex_flushed\<rparr>) = Returns rpc_ok [[7]] pm')"
proof -
  have fl: "(bdb_flush mem_db)\<^sup>*\<^sup>* (page_cache (ex_pm\<lparr>page_cache := ex_popped\<rparr>)) ex_flushed"
    using ex_flushes(2) by simp
  have "bdb_idle ex_flushed" "0 < m_size (bb_cache (page_cache (ex_pm\<lparr>page_cache := ex_popped\<rparr>)))"
    by (simp_all add: ex_flushed_def ex_popped_def bdb_idle_def)
  with bdb_provider_quiescent [OF mem_db_ok _ _ ex_pm_reach ex_pages_small, of "''y''"] fl
  have "\<exists>v pm'. read_page (bdb_ops mem_db) ''y'' [[1]] (ex_pm\<lparr>page_cache := ex_flushed\<rparr>) = Returns rpc_ok [v] pm' \<and>
      ex_bdb_pages [1] = Some v"
    by (simp add: mem_db_def)
  then show ?thesis using page_in_hand_unreadable(3) by (simp add: ex_bdb_pages_def)
qed

theorem bdb_provider_reads_right_witness:
  "\<exists>pages pm'. read_page (bdb_ops mem_db) ''y'' [[2]] (ex_pm\<lparr>page_cache := ex_flushed\<rparr>) = Returns rpc_ok pages pm' \<and>
     map ex_bdb_pages [[2]] = map Some pages"
proof -
  have "\<exists>pages pm'. read_page (bdb_ops mem_db) ''y'' [[2]] (ex_pm\<lparr>page_cache := ex_flushed\<rparr>) = Returns rpc_ok pages pm'"
    by (simp add: read_page_def bdb_ops_def bdb_read_def ex_flushed_def ex_popped_def cache_read_def)
  then obtain pages pm' where run: "read_page (bdb_ops mem_db) ''y'' [[2]] (ex_pm\<lparr>page_cache := ex_flushed\<rparr>) = Returns rpc_ok pages pm'"
    by blast
  have "\<forall>k. db_get mem_db k Map.empty = None" by (simp add: mem_db_def)
  from bdb_provider_reads_right [OF mem_db_ok this ex_flushed_reach ex_pages_small run] run show ?thesis by blast
qed

theorem evicted_page_unreadable_witness:
  "\<exists>p'. bdb_write [2] [8] ex_bdb1 = (True, p') \<and> write_queue p' = [([1], [7])] \<and> fst (bdb_read mem_db [1] p') = None"
proof -
  have "bdb_inv mem_db ex_bdb"
    using bdb_new_ok [of mem_db Map.empty 1 100] by (simp add: ex_bdb_def mem_db_def)
  moreover have "w = [7]" if "holds mem_db ex_bdb [1] w" for w
    using that by (simp add: holds_def pending_def ex_bdb_def bdb_bw_map_new_def lookup_def cache_init_def mem_db_def)
  ultimately have "bdb_inv mem_db ex_bdb1" using bdb_write_result [OF _ ex_bdb1_eq] by blast
  from evicted_page_unreadable [OF this, of "[1]" "[]" "[7]" "[2]" "[8]"] show ?thesis
    by (simp add: ex_bdb1_state lookup_def lru_keys_def mem_db_def bw_size_def word_le_nat_alt)
qed

end
