(* ===== verification/Adv_Manager.thy ===== *)
theory Adv_Manager
  imports Structures Rpc_Meta "HOL-Library.Multiset"
begin

text \<open>
  \<open>pmanager/adv_manager.hpp\<close>, \<open>pmanager/adv_manager.cpp\<close> and the handler table of
  \<open>pmanager/publisher.cpp\<close>: the provider manager. Providers report their free space, clients ask
  for providers to store pages on, and a watchdog drops providers that stop reporting.

  The table is a \<open>boost::multi_index_container\<close>: its entries have distinct identifiers, and
  two further indices list them in the order of their \<open>info\<close> and of their time stamp. The
  order in which an index lists the entries is a parameter; what is used of it is that it lists
  exactly the entries (locale \<open>entry_index\<close>), and for the time index that it is sorted.
\<close>

record score_entry =
  se_score :: u64
  se_free :: u64
  se_read_pages :: u64
  se_read_total :: u64

definition score_less :: "score_entry \<Rightarrow> score_entry \<Rightarrow> bool" where
  "score_less a s =
     (if se_free a = 0 \<and> se_free s = 0 then se_score a < se_score s
      else if se_free a = 0 \<or> se_score s < se_score a then False
      else if se_free s = 0 \<or> se_score a < se_score s then True
      else se_free s < se_free a)"

record table_entry =
  te_id :: string_pair_t
  te_info :: score_entry
  te_time :: int

text \<open>Time stamps are in microseconds.\<close>

definition table_entry_new :: "int \<Rightarrow> string_pair_t \<Rightarrow> table_entry" where
  "table_entry_new now a =
     \<lparr>te_id = a, te_info = \<lparr>se_score = 0, se_free = 0, se_read_pages = 0, se_read_total = 0\<rparr>, te_time = now\<rparr>"

definition WATCHDOG_TIMEOUT :: int where "WATCHDOG_TIMEOUT = 30"

type_synonym adv_table_t = "table_entry list"

section \<open>Operations on the table\<close>

text \<open>\<open>insert\<close> by identifier keeps an entry that is already there; \<open>replace\<close>.\<close>

definition id_insert :: "table_entry \<Rightarrow> adv_table_t \<Rightarrow> adv_table_t" where
  "id_insert e t = (if te_id e \<in> te_id ` set t then t else t @ [e])"

definition id_find :: "string_pair_t \<Rightarrow> adv_table_t \<Rightarrow> table_entry option" where
  "id_find a t = find (\<lambda>e. te_id e = a) t"

definition id_replace :: "table_entry \<Rightarrow> adv_table_t \<Rightarrow> adv_table_t" where
  "id_replace e t = map (\<lambda>x. if te_id x = te_id e then e else x) t"

text \<open>One pass of the watchdog: entries leave at the front of the time index.\<close>

fun expire :: "int \<Rightarrow> table_entry list \<Rightarrow> table_entry list" where
  "expire now [] = []"
| "expire now (e # es) = (if te_time e < now then expire now es else e # es)"

definition watchdog_pass :: "(adv_table_t \<Rightarrow> table_entry list) \<Rightarrow> int \<Rightarrow> adv_table_t \<Rightarrow> adv_table_t" where
  "watchdog_pass by_time now t = filter (\<lambda>e. e \<in> set (expire now (by_time t))) t"

text \<open>\<open>id.substr(0, id.find(":"))\<close>.\<close>

definition host_of :: "string \<Rightarrow> string" where
  "host_of sender = takeWhile (\<lambda>c. c \<noteq> CHR '':'') sender"

definition adv_update ::
  "archive \<Rightarrow> int \<Rightarrow> string \<Rightarrow> rpcvector_t \<Rightarrow> adv_table_t \<Rightarrow> adv_table_t outcome" where
  "adv_update ar now sender params t =
     (if length params \<noteq> 4 then Returns rpc_earg [] t
      else read_param ar (ar_u64 ar) (params ! 0) (Returns rpc_earg [] t) (\<lambda>free_space.
           read_param ar (ar_u64 ar) (params ! 1) (Returns rpc_earg [] t) (\<lambda>nr_read_pages.
           read_param ar (ar_u64 ar) (params ! 2) (Returns rpc_earg [] t) (\<lambda>total_read_size.
           read_param ar (ar_string ar) (params ! 3) (Returns rpc_earg [] t) (\<lambda>service.
             let a = (host_of sender, service);
                 t = id_insert (table_entry_new now a) t
             in case id_find a t of
                  None \<Rightarrow> Undefined ''the entry just inserted''
                | Some e \<Rightarrow>
                    let info = (te_info e)\<lparr>se_read_pages := nr_read_pages, se_read_total := total_read_size\<rparr>;
                        info = (if se_free info \<noteq> free_space then info\<lparr>se_free := free_space\<rparr> else info);
                        e = e\<lparr>te_time := now + WATCHDOG_TIMEOUT * 1000000, te_info := info\<rparr>
                    in Returns rpc_ok [] (id_replace e t))))))"

section \<open>Allocation\<close>

definition desc_of :: "table_entry \<Rightarrow> provider_desc" where
  "desc_of e = \<lparr>pd_host = fst (te_id e), pd_service = snd (te_id e)\<rparr>"

text \<open>
  The walk through the info index for one replica: it stops at the first entry without free
  space, and skips the providers that already have a replica of the group.
\<close>

fun pick_entry :: "provider_desc list \<Rightarrow> table_entry list \<Rightarrow> table_entry option" where
  "pick_entry grp [] = None"
| "pick_entry grp (e # es) =
     (if se_free (te_info e) = 0 then None
      else if desc_of e \<in> set grp then pick_entry grp es
      else Some e)"

definition bump :: "table_entry \<Rightarrow> table_entry" where
  "bump e = e\<lparr>te_info := (te_info e)\<lparr>se_score := se_score (te_info e) + 1\<rparr>\<rparr>"

definition last_n :: "nat \<Rightarrow> 'a list \<Rightarrow> 'a list" where
  "last_n n xs = drop (length xs - n) xs"

text \<open>
  One group: \<open>k\<close> replicas are still to be placed after \<open>i\<close> of them, which are the last
  \<open>i\<close> elements of the list. The first result is \<open>found\<close>.
\<close>

fun alloc_group ::
  "(adv_table_t \<Rightarrow> table_entry list) \<Rightarrow> nat \<Rightarrow> nat \<Rightarrow> adv_table_t \<Rightarrow> provider_desc list
     \<Rightarrow> bool \<times> adv_table_t \<times> provider_desc list" where
  "alloc_group by_info 0 i t l = (True, t, l)"
| "alloc_group by_info (Suc k) i t l =
     (case pick_entry (last_n i l) (by_info t) of
        None \<Rightarrow> (False, t, l)
      | Some e \<Rightarrow> alloc_group by_info k (Suc i) (id_replace (bump e) t) (l @ [desc_of e]))"

text \<open>
  The outer loop; \<open>replica_no\<close> is converted to a signed integer. A loop that never ends is
  \<open>None\<close>.
\<close>

partial_function (option) alloc ::
  "(adv_table_t \<Rightarrow> table_entry list) \<Rightarrow> nat \<Rightarrow> u32 \<Rightarrow> bool \<Rightarrow> adv_table_t \<Rightarrow> provider_desc list
     \<Rightarrow> (adv_table_t \<times> provider_desc list) option" where
  "alloc by_info no_providers replica_no found t l =
     (if length l < no_providers \<and> found
      then case alloc_group by_info (nat (sint replica_no)) 0 t l of
             (found, t, l) \<Rightarrow> alloc by_info no_providers replica_no found t l
      else Some (t, l))"

definition adv_get ::
  "archive \<Rightarrow> (adv_table_t \<Rightarrow> table_entry list) \<Rightarrow> rpcvector_t \<Rightarrow> adv_table_t \<Rightarrow> adv_table_t outcome" where
  "adv_get ar by_info params t =
     (if length params \<noteq> 2 then Returns rpc_earg [] t
      else read_param ar (ar_u32 ar) (params ! 0) (Returns rpc_earg [] t) (\<lambda>no_providers.
           read_param ar (ar_u32 ar) (params ! 1) (Returns rpc_earg [] t) (\<lambda>replica_no.
             if no_providers = 0 then Returns rpc_earg [] t
             else case alloc by_info (unat no_providers) replica_no True t [] of
                    None \<Rightarrow> Hangs
                  | Some (t, adv_list) \<Rightarrow>
                      if length adv_list \<noteq> unat no_providers then Returns rpc_eres [] t
                      else Returns rpc_ok [buffer_wrapper ar (ser_replica_list ar) adv_list] t)))"

text \<open>\<open>publisher.cpp\<close>: which handler serves which RPC.\<close>

definition pm_lookup ::
  "archive \<Rightarrow> (adv_table_t \<Rightarrow> table_entry list) \<Rightarrow> int \<Rightarrow> string \<Rightarrow> u32
     \<Rightarrow> (rpcvector_t \<Rightarrow> adv_table_t \<Rightarrow> adv_table_t outcome) option" where
  "pm_lookup ar by_info now sender name =
     (if name = PUBLISHER_UPDATE then Some (adv_update ar now sender)
      else if name = PUBLISHER_GET then Some (adv_get ar by_info)
      else None)"

inductive pm_reach ::
  "archive \<Rightarrow> (adv_table_t \<Rightarrow> table_entry list) \<Rightarrow> (adv_table_t \<Rightarrow> table_entry list) \<Rightarrow> adv_table_t \<Rightarrow> bool"
  for ar by_info by_time where
  pm_start: "pm_reach ar by_info by_time []"
| pm_call: "pm_reach ar by_info by_time t \<Longrightarrow> pm_lookup ar by_info now sender name = Some h \<Longrightarrow>
     h params t = Returns status result t' \<Longrightarrow> pm_reach ar by_info by_time t'"
| pm_watchdog: "pm_reach ar by_info by_time t \<Longrightarrow> pm_reach ar by_info by_time (watchdog_pass by_time now t)"

section \<open>The order of the info index\<close>

lemma score_less_irrefl: "\<not> score_less a a"
  by (simp add: score_less_def)

lemma score_less_trans: "score_less a b \<Longrightarrow> score_less b c \<Longrightarrow> score_less a c"
  by (auto simp: score_less_def split: if_splits)

section \<open>The table keeps one entry per provider\<close>

lemma te_id_replace [simp]: "map te_id (id_replace e t) = map te_id t"
  by (induction t) (auto simp: id_replace_def)

lemma distinct_id_insert: "distinct (map te_id t) \<Longrightarrow> distinct (map te_id (id_insert e t))"
  by (auto simp: id_insert_def)

lemma id_find_insert: "id_find (te_id e) (id_insert e t) \<noteq> None"
  by (auto simp: id_find_def id_insert_def find_None_iff)

lemma id_find_SomeD: "id_find a t = Some e \<Longrightarrow> te_id e = a \<and> e \<in> set t"
  by (auto simp: id_find_def find_Some_iff)

lemma id_find_distinct:
  "distinct (map te_id t) \<Longrightarrow> e \<in> set t \<Longrightarrow> id_find (te_id e) t = Some e"
  by (induction t) (auto simp: id_find_def)

lemma same_id: "distinct (map te_id t) \<Longrightarrow> x \<in> set t \<Longrightarrow> y \<in> set t \<Longrightarrow> te_id x = te_id y \<Longrightarrow> x = y"
  by (auto simp: distinct_map dest: inj_onD)

lemma set_id_replace:
  assumes "distinct (map te_id t)" "x \<in> set t" "te_id x = te_id e"
  shows "set (id_replace e t) = insert e (set t - {x})"
proof -
  have "te_id y = te_id e \<longleftrightarrow> y = x" if "y \<in> set t" for y
    using same_id [OF assms(1) that assms(2)] assms(3) by auto
  then have "set (id_replace e t) = (\<lambda>y. if y = x then e else y) ` set t"
    unfolding id_replace_def set_map by (intro image_cong refl) simp
  then show ?thesis using assms(2) by auto
qed

text \<open>Allocation changes scores only.\<close>

definition space :: "adv_table_t \<Rightarrow> (string_pair_t \<times> u64) list" where
  "space t = map (\<lambda>e. (te_id e, se_free (te_info e))) t"

lemma space_bump:
  assumes "distinct (map te_id t)" "e \<in> set t"
  shows "space (id_replace (bump e) t) = space t"
proof -
  have "x = e" if "x \<in> set t" "te_id x = te_id e" for x using same_id [OF assms(1) that(1) assms(2) that(2)] .
  then show ?thesis by (auto simp: space_def id_replace_def bump_def)
qed

text \<open>
  What allocation does to a table entry: its score grows by the number of times the provider was
  chosen, and every other field stays.
\<close>

definition scored :: "provider_desc list \<Rightarrow> table_entry \<Rightarrow> table_entry" where
  "scored l e = e\<lparr>te_info := (te_info e)\<lparr>se_score := se_score (te_info e) + of_nat (count_list l (desc_of e))\<rparr>\<rparr>"

lemma scored_id [simp]: "te_id (scored l e) = te_id e"
  by (simp add: scored_def)

lemma scored_Nil [simp]: "map (scored []) t = t"
  by (simp add: scored_def cong: map_cong)

lemma scored_append: "scored g (scored l e) = scored (l @ g) e"
  by (simp add: scored_def desc_of_def algebra_simps)

lemma bump_scored:
  assumes "distinct (map te_id t)" "e \<in> set t"
  shows "id_replace (bump e) t = map (scored [desc_of e]) t"
proof -
  have "(if te_id x = te_id (bump e) then bump e else x) = scored [desc_of e] x" if "x \<in> set t" for x
    using same_id [OF assms(1) that assms(2)]
    by (auto simp: scored_def bump_def desc_of_def prod_eq_iff)
  then show ?thesis unfolding id_replace_def by (intro map_cong refl)
qed

definition all_free :: "adv_table_t \<Rightarrow> bool" where
  "all_free t \<longleftrightarrow> (\<forall>x \<in> set (space t). 0 < snd x)"

text \<open>What the multi-index promises of one of its orders.\<close>

locale entry_index =
  fixes index :: "adv_table_t \<Rightarrow> table_entry list"
  assumes index_lists: "mset (index t) = mset t"
begin

lemma set_index [simp]: "set (index t) = set t"
  using mset_eq_setD [OF index_lists] .

lemma pick_SomeD:
  assumes "pick_entry grp (index t) = Some e"
  shows "e \<in> set t \<and> 0 < se_free (te_info e) \<and> desc_of e \<notin> set grp"
proof -
  have "e \<in> set es \<and> 0 < se_free (te_info e) \<and> desc_of e \<notin> set grp" if "pick_entry grp es = Some e" for es
    using that by (induction es) (auto split: if_splits simp: word_neq_0_conv)
  from this [OF assms] show ?thesis by simp
qed

lemma alloc_group_result:
  assumes "alloc_group index k i t l = (found, t', l')" "distinct (map te_id t)"
    and "distinct (last_n i l)" "i \<le> length l"
  shows "\<exists>g. l' = l @ g \<and> length g \<le> k \<and> (found \<longrightarrow> length g = k) \<and> distinct (last_n i l @ g) \<and>
     (\<forall>p \<in> set g. \<exists>a f. (a, f) \<in> set (space t) \<and> 0 < f \<and> p = \<lparr>pd_host = fst a, pd_service = snd a\<rparr>) \<and>
     space t' = space t \<and> map te_id t' = map te_id t"
  using assms
proof (induction k arbitrary: i t l)
  case (Suc k)
  show ?case
  proof (cases "pick_entry (last_n i l) (index t)")
    case (Some e)
    note e = pick_SomeD [OF Some]
    have ln: "last_n (Suc i) (l @ [desc_of e]) = last_n i l @ [desc_of e]"
      using Suc.prems(4) by (simp add: last_n_def)
    have "alloc_group index k (Suc i) (id_replace (bump e) t) (l @ [desc_of e]) = (found, t', l')"
      using Suc.prems(1) Some by simp
    from Suc.IH [OF this] Suc.prems(2-4) e obtain g where
      g: "l' = (l @ [desc_of e]) @ g" "length g \<le> k" "found \<longrightarrow> length g = k"
        "distinct ((last_n i l @ [desc_of e]) @ g)"
        "\<forall>p \<in> set g. \<exists>a f. (a, f) \<in> set (space t) \<and> 0 < f \<and> p = \<lparr>pd_host = fst a, pd_service = snd a\<rparr>"
        "space t' = space t" "map te_id t' = map te_id t"
      by (auto simp: ln space_bump)
    have "\<exists>a f. (a, f) \<in> set (space t) \<and> 0 < f \<and> desc_of e = \<lparr>pd_host = fst a, pd_service = snd a\<rparr>"
      using e by (auto simp: space_def desc_of_def intro!: exI [of _ "te_id e"] exI [of _ "se_free (te_info e)"] image_eqI [of _ _ e])
    with g show ?thesis by (intro exI [of _ "desc_of e # g"]) auto
  qed (use Suc.prems in simp)
qed auto

lemma alloc_group_table:
  "alloc_group index k i t l = (found, t', l') \<Longrightarrow> distinct (map te_id t) \<Longrightarrow>
    \<exists>g. l' = l @ g \<and> t' = map (scored g) t"
proof (induction k arbitrary: i t l)
  case (Suc k)
  show ?case
  proof (cases "pick_entry (last_n i l) (index t)")
    case (Some e)
    have b: "id_replace (bump e) t = map (scored [desc_of e]) t"
      using bump_scored [OF Suc.prems(2)] pick_SomeD [OF Some] by blast
    have "alloc_group index k (Suc i) (map (scored [desc_of e]) t) (l @ [desc_of e]) = (found, t', l')"
      using Suc.prems(1) Some b by simp
    from Suc.IH [OF this] Suc.prems(2) obtain g where
      "l' = (l @ [desc_of e]) @ g" "t' = map (scored g) (map (scored [desc_of e]) t)"
      by (auto simp: comp_def)
    then show ?thesis by (intro exI [of _ "desc_of e # g"]) (simp add: scored_append)
  qed (use Suc.prems in simp)
qed simp

lemma alloc_total:
  assumes "0 < r" "r = nat (sint replica_no)"
  shows "distinct (map te_id t) \<Longrightarrow> r dvd length l \<Longrightarrow>
    (\<And>m. distinct (take r (drop (m * r) l))) \<Longrightarrow>
    (\<forall>p \<in> set l. \<exists>a f. (a, f) \<in> set (space t) \<and> 0 < f \<and> p = \<lparr>pd_host = fst a, pd_service = snd a\<rparr>) \<Longrightarrow>
    \<exists>t' l'. alloc index no replica_no True t l = Some (t', l') \<and> space t' = space t \<and> map te_id t' = map te_id t \<and>
      (\<forall>m. distinct (take r (drop (m * r) l'))) \<and>
      (\<forall>p \<in> set l'. \<exists>a f. (a, f) \<in> set (space t) \<and> 0 < f \<and> p = \<lparr>pd_host = fst a, pd_service = snd a\<rparr>)"
proof (induction "no - length l" arbitrary: t l rule: less_induct)
  case less
  show ?case
  proof (cases "length l < no")
    case False
    then show ?thesis using less.prems by (subst alloc.simps) auto
  next
    case True
    obtain found t' l' where run: "alloc_group index r 0 t l = (found, t', l')" by (metis prod_cases3)
    from alloc_group_result [OF this less.prems(1)] obtain g where
      g: "l' = l @ g" "length g \<le> r" "found \<longrightarrow> length g = r" "distinct g"
        "\<forall>p \<in> set g. \<exists>a f. (a, f) \<in> set (space t) \<and> 0 < f \<and> p = \<lparr>pd_host = fst a, pd_service = snd a\<rparr>"
        "space t' = space t" "map te_id t' = map te_id t"
      by (auto simp: last_n_def)
    obtain c where c: "length l = c * r" using less.prems(2) by (metis dvd_def mult.commute)
    have groups: "distinct (take r (drop (m * r) l'))" for m
    proof (cases "m < c")
      case True
      then have "Suc m * r \<le> length l" unfolding c by (intro mult_le_mono1) simp
      then have "take r (drop (m * r) l') = take r (drop (m * r) l)" by (simp add: g(1))
      then show ?thesis using less.prems(3) by simp
    next
      case False
      then have "length l \<le> m * r" unfolding c by (intro mult_le_mono1) simp
      then show ?thesis using g(4) by (simp add: g(1) distinct_drop)
    qed
    have step: "alloc index no replica_no True t l = alloc index no replica_no found t' l'"
      using True run assms(2) by (subst alloc.simps) simp
    show ?thesis
    proof (cases found)
      case False
      have "alloc index no replica_no False t' l' = Some (t', l')" by (subst alloc.simps) simp
      then show ?thesis using step False groups g less.prems(4) by auto
    next
      case True
      then have len: "length l' = length l + r" using g by simp
      have "no - length l' < no - length l" using len assms(1) \<open>length l < no\<close> by linarith
      from less.hyps [OF this, of t'] obtain t'' l'' where
        "alloc index no replica_no True t' l' = Some (t'', l'')" "space t'' = space t'" "map te_id t'' = map te_id t'"
        "\<forall>m. distinct (take r (drop (m * r) l''))"
        "\<forall>p \<in> set l''. \<exists>a f. (a, f) \<in> set (space t') \<and> 0 < f \<and> p = \<lparr>pd_host = fst a, pd_service = snd a\<rparr>"
        using less.prems(1,2,4) groups g len by fastforce
      then show ?thesis using step True g by auto
    qed
  qed
qed

text \<open>While every provider has space, a walk ends without a provider only if all are taken.\<close>

lemma pick_finds:
  assumes "distinct (map te_id t)" "all_free t" "length grp < length t"
  shows "pick_entry grp (index t) \<noteq> None"
proof -
  have inj: "inj_on desc_of (set t)"
    using same_id [OF assms(1)] by (auto simp: inj_on_def desc_of_def prod_eq_iff)
  have "card (set grp) \<le> length grp" by (rule card_length)
  also have "\<dots> < length t" by (rule assms(3))
  also have "\<dots> = card (set t)" using assms(1) by (simp add: distinct_card distinct_map)
  also have "\<dots> = card (desc_of ` set t)" using inj by (rule card_image [symmetric])
  finally have "\<not> desc_of ` set t \<subseteq> set grp"
    using card_mono [of "set grp" "desc_of ` set t"] by auto
  then obtain e where "e \<in> set (index t)" "desc_of e \<notin> set grp" by auto
  moreover have "\<forall>x \<in> set (index t). se_free (te_info x) \<noteq> 0"
    using assms(2) by (auto simp: all_free_def space_def word_neq_0_conv)
  moreover have "pick_entry grp es \<noteq> None"
    if "e \<in> set es" "desc_of e \<notin> set grp" "\<forall>x \<in> set es. se_free (te_info x) \<noteq> 0" for es
    using that by (induction es) auto
  ultimately show ?thesis by blast
qed

lemma alloc_group_found:
  assumes "distinct (map te_id t)" "all_free t" "i + k \<le> length t" "i \<le> length l"
  shows "fst (alloc_group index k i t l)"
  using assms
proof (induction k arbitrary: i t l)
  case (Suc k)
  have "length (last_n i l) = i" using Suc.prems(4) by (simp add: last_n_def)
  then obtain e where e: "pick_entry (last_n i l) (index t) = Some e"
    using pick_finds [OF Suc.prems(1,2), of "last_n i l"] Suc.prems(3) by fastforce
  have "space (id_replace (bump e) t) = space t" using space_bump [OF Suc.prems(1)] pick_SomeD [OF e] by simp
  moreover have "length (id_replace (bump e) t) = length t" by (simp add: id_replace_def)
  ultimately have "fst (alloc_group index k (Suc i) (id_replace (bump e) t) (l @ [desc_of e]))"
    using Suc.prems by (intro Suc.IH) (simp_all add: all_free_def)
  then show ?case using e by simp
qed simp

lemma alloc_exact:
  assumes "0 < r" "r = nat (sint replica_no)" "r dvd no"
  shows "distinct (map te_id t) \<Longrightarrow> all_free t \<Longrightarrow> r \<le> length t \<Longrightarrow> r dvd length l \<Longrightarrow> length l \<le> no \<Longrightarrow>
    alloc index no replica_no True t l = Some (t', l') \<Longrightarrow> length l' = no"
proof (induction "no - length l" arbitrary: t l rule: less_induct)
  case less
  show ?case
  proof (cases "length l < no")
    case False
    then show ?thesis using less.prems by (subst (asm) alloc.simps) auto
  next
    case True
    obtain found t1 l1 where run: "alloc_group index r 0 t l = (found, t1, l1)" by (metis prod_cases3)
    have found using alloc_group_found [of t 0 r l] less.prems(1-3) run by simp
    from alloc_group_result [OF run less.prems(1)] this obtain g where
      g: "l1 = l @ g" "length g = r" "space t1 = space t" "map te_id t1 = map te_id t"
      by (auto simp: last_n_def)
    have "r dvd no - length l" using assms(3) less.prems(4) True by (intro dvd_diff_nat) simp_all
    then have "length l + r \<le> no" using True dvd_imp_le [of r "no - length l"] by linarith
    moreover have "alloc index no replica_no True t1 l1 = Some (t', l')"
      using less.prems(6) True run assms(2) \<open>found\<close> by (subst (asm) alloc.simps) simp
    moreover have "no - length l1 < no - length l" using g True assms(1) by simp
    moreover have "length t1 = length t" using arg_cong [OF g(4), of length] by simp
    ultimately show ?thesis
      using less.hyps [of l1 t1] less.prems g by (simp add: all_free_def)
  qed
qed

end

lemma alloc_table:
  assumes "alloc by_info no rn True t [] = Some (t', l)" "entry_index by_info" "distinct (map te_id t)"
  shows "t' = map (scored l) t"
proof -
  define P where "P = (\<lambda>by_info (no :: nat) (rn :: u32) (found :: bool) t (l :: provider_desc list) x.
    entry_index by_info \<longrightarrow> distinct (map te_id t) \<longrightarrow> (\<exists>g. snd x = l @ g \<and> fst x = map (scored g) t))"
  from assms(1) have "P by_info no rn True t [] (t', l)"
  proof (rule alloc.raw_induct [where P = P, rotated])
    fix f :: "(adv_table_t \<Rightarrow> table_entry list) \<Rightarrow> nat \<Rightarrow> u32 \<Rightarrow> bool \<Rightarrow> adv_table_t \<Rightarrow> provider_desc list
        \<Rightarrow> (adv_table_t \<times> provider_desc list) option"
      and bi no rn found t l x
    assume IH: "\<And>bi no rn found t l x. f bi no rn found t l = Some x \<Longrightarrow> P bi no rn found t l x"
      and eq: "(if length l < no \<and> found
        then case alloc_group bi (nat (sint rn)) 0 t l of (found, t, l) \<Rightarrow> f bi no rn found t l
        else Some (t, l)) = Some x"
    show "P bi no rn found t l x"
      unfolding P_def
    proof (intro impI)
      assume ix: "entry_index bi" and d: "distinct (map te_id t)"
      obtain found1 t1 l1 where run: "alloc_group bi (nat (sint rn)) 0 t l = (found1, t1, l1)" by (metis prod_cases3)
      from entry_index.alloc_group_table [OF ix run d] obtain g1 where
        g1: "l1 = l @ g1" "t1 = map (scored g1) t" by blast
      show "\<exists>g. snd x = l @ g \<and> fst x = map (scored g) t"
      proof (cases "length l < no \<and> found")
        case True
        then have "f bi no rn found1 t1 l1 = Some x" using eq run by simp
        from IH [OF this] ix d g1 obtain g where "snd x = l1 @ g" "fst x = map (scored g) t1"
          by (auto simp: P_def comp_def)
        then show ?thesis using g1 by (intro exI [of _ "g1 @ g"]) (simp add: scored_append)
      qed (use eq in auto)
    qed
  qed
  then show ?thesis using assms(2,3) by (simp add: P_def)
qed

section \<open>Allocation that never ends\<close>

lemma alloc_hangs:
  assumes "sint replica_no \<le> 0" "length l < no"
  shows "alloc by_info no replica_no True t l = None"
proof (rule ccontr)
  assume "alloc by_info no replica_no True t l \<noteq> None"
  then obtain x where "alloc by_info no replica_no True t l = Some x" by auto
  then have "\<not> (sint replica_no \<le> 0 \<and> length l < no \<and> True)"
  proof (rule alloc.raw_induct [where P = "\<lambda>bi no rn found t l x. \<not> (sint rn \<le> 0 \<and> length l < no \<and> found)", rotated])
    fix f :: "(adv_table_t \<Rightarrow> table_entry list) \<Rightarrow> nat \<Rightarrow> u32 \<Rightarrow> bool \<Rightarrow> adv_table_t \<Rightarrow> provider_desc list
        \<Rightarrow> (adv_table_t \<times> provider_desc list) option"
      and bi no rn found t l x
    assume IH: "\<And>bi no rn found t l x. f bi no rn found t l = Some x \<Longrightarrow> \<not> (sint rn \<le> 0 \<and> length l < no \<and> found)"
      and eq: "(if length l < no \<and> found
        then case alloc_group bi (nat (sint rn)) 0 t l of (found, t, l) \<Rightarrow> f bi no rn found t l
        else Some (t, l)) = Some x"
    show "\<not> (sint rn \<le> 0 \<and> length l < no \<and> found)"
    proof
      assume a: "sint rn \<le> 0 \<and> length l < no \<and> found"
      then have "f bi no rn True t l = Some x" using eq by simp
      from IH [OF this] a show False by simp
    qed
  qed
  with assms show False by simp
qed

section \<open>The orders of the indices\<close>

text \<open>
  How an ordered index comes to list the entries: each is inserted before the first that is
  greater.
\<close>

fun index_insert :: "(table_entry \<Rightarrow> table_entry \<Rightarrow> bool) \<Rightarrow> table_entry \<Rightarrow> table_entry list \<Rightarrow> table_entry list" where
  "index_insert lt e [] = [e]"
| "index_insert lt e (x # xs) = (if lt e x then e # x # xs else x # index_insert lt e xs)"

definition index_order :: "(table_entry \<Rightarrow> table_entry \<Rightarrow> bool) \<Rightarrow> adv_table_t \<Rightarrow> table_entry list" where
  "index_order lt t = fold (index_insert lt) t []"

definition info_order :: "adv_table_t \<Rightarrow> table_entry list" where
  "info_order = index_order (\<lambda>a b. score_less (te_info a) (te_info b))"

definition time_order :: "adv_table_t \<Rightarrow> table_entry list" where
  "time_order = index_order (\<lambda>a b. te_time a < te_time b)"

lemma mset_index_insert: "mset (index_insert lt e xs) = add_mset e (mset xs)"
  by (induction xs) auto

lemma mset_index_order: "mset (index_order lt t) = mset t"
proof -
  have "mset (fold (index_insert lt) t xs) = mset t + mset xs" for xs
    by (induction t arbitrary: xs) (simp_all add: mset_index_insert)
  then show ?thesis by (simp add: index_order_def)
qed

interpretation info_ix: entry_index info_order
  by unfold_locales (simp add: info_order_def mset_index_order)

text \<open>The index by time is sorted as well.\<close>

locale time_index = entry_index +
  assumes sorted_times: "sorted (map te_time (index t))"
begin

lemma expire_filter: "sorted (map te_time es) \<Longrightarrow> expire now es = filter (\<lambda>e. now \<le> te_time e) es"
  by (induction es) (auto intro!: filter_id_conv [THEN iffD2, symmetric])

lemma watchdog_removes_stale: "watchdog_pass index now t = filter (\<lambda>e. now \<le> te_time e) t"
  unfolding watchdog_pass_def expire_filter [OF sorted_times]
  by (intro filter_cong refl) auto

end

lemma sorted_index_insert:
  "sorted (map te_time xs) \<Longrightarrow> sorted (map te_time (index_insert (\<lambda>a b. te_time a < te_time b) e xs))"
proof (induction xs)
  case (Cons x xs)
  have "set (index_insert (\<lambda>a b. te_time a < te_time b) e xs) = insert e (set xs)"
    using arg_cong [OF mset_index_insert, of set_mset] by simp
  with Cons show ?case by auto
qed simp

interpretation time_ix: time_index time_order
proof unfold_locales
  show "mset (time_order t) = mset t" for t by (simp add: time_order_def mset_index_order)
  have "sorted (map te_time xs) \<Longrightarrow> sorted (map te_time (fold (index_insert (\<lambda>a b. te_time a < te_time b)) t xs))" for t xs
    by (induction t arbitrary: xs) (simp_all add: sorted_index_insert)
  then show "sorted (map te_time (time_order t))" for t by (simp add: time_order_def index_order_def)
qed

section \<open>Properties\<close>

lemma adv_get_eval:
  assumes "archive_ok ar" "no \<noteq> 0"
  shows "adv_get ar by_info [buffer_wrapper ar (ar_u32 ar) no, buffer_wrapper ar (ar_u32 ar) rn] t =
    (case alloc by_info (unat no) rn True t [] of
       None \<Rightarrow> Hangs
     | Some (t, adv_list) \<Rightarrow>
         if length adv_list \<noteq> unat no then Returns rpc_eres [] t
         else Returns rpc_ok [buffer_wrapper ar (ser_replica_list ar) adv_list] t)"
  using assms by (simp add: adv_get_def)

lemma nat_sint:
  assumes "0 < sint (w :: u32)"
  shows "nat (sint w) = unat w"
proof -
  have w: "take_bit 32 (uint w) = uint w"
    using uint_bounded [of w] by (simp add: take_bit_int_eq_self)
  have "sint w = uint w - 2 ^ 32 * of_bool (bit (uint w) 31)"
    using w by (simp add: sint_uint signed_take_bit_eq_take_bit_minus)
  moreover have "uint w < 2 ^ 32" using uint_bounded [of w] by simp
  ultimately have "sint w = uint w" using assms by (cases "bit (uint w) 31") auto
  then show ?thesis by simp
qed

lemma adv_get_result:
  assumes "archive_ok ar" "entry_index by_info" "distinct (map te_id t)" "no \<noteq> 0" "0 < sint rn"
  shows "\<exists>l t'. space t' = space t \<and> map te_id t' = map te_id t \<and>
     (\<forall>m. distinct (take (unat rn) (drop (m * unat rn) l))) \<and>
     (\<forall>p \<in> set l. \<exists>e \<in> set t. desc_of e = p \<and> 0 < se_free (te_info e)) \<and>
     alloc by_info (unat no) rn True t [] = Some (t', l) \<and>
     adv_get ar by_info [buffer_wrapper ar (ar_u32 ar) no, buffer_wrapper ar (ar_u32 ar) rn] t =
       (if length l \<noteq> unat no then Returns rpc_eres [] t'
        else Returns rpc_ok [buffer_wrapper ar (ser_replica_list ar) l] t')"
proof -
  have r: "0 < unat rn" "unat rn = nat (sint rn)" using nat_sint [OF assms(5)] assms(5) by auto
  obtain t' l where a: "alloc by_info (unat no) rn True t [] = Some (t', l)" "space t' = space t"
      "map te_id t' = map te_id t" "\<forall>m. distinct (take (unat rn) (drop (m * unat rn) l))"
      "\<forall>p \<in> set l. \<exists>a f. (a, f) \<in> set (space t) \<and> 0 < f \<and> p = \<lparr>pd_host = fst a, pd_service = snd a\<rparr>"
    using entry_index.alloc_total [OF assms(2) r assms(3), of "[]" "unat no"] by auto
  have "\<forall>p \<in> set l. \<exists>e \<in> set t. desc_of e = p \<and> 0 < se_free (te_info e)"
  proof
    fix p assume "p \<in> set l"
    then obtain x f where "(x, f) \<in> set (space t)" "0 < f" "p = \<lparr>pd_host = fst x, pd_service = snd x\<rparr>"
      using a(5) by blast
    then show "\<exists>e \<in> set t. desc_of e = p \<and> 0 < se_free (te_info e)"
      by (auto simp: space_def desc_of_def)
  qed
  with a show ?thesis
    by (intro exI [of _ l] exI [of _ t']) (simp add: adv_get_eval [OF assms(1,4)])
qed

text \<open>
  C16: the replicas of a page go to different providers. When the provider manager answers a
  request for \<open>no\<close> providers in groups of \<open>rn\<close>, the answer has \<open>no\<close> providers, no provider
  occurs twice in a group, and each is registered with free space; the score of a provider grows
  by the number of times it is in the answer (modulo \<open>2 ^ 64\<close>) and nothing else in the table
  changes.
\<close>

theorem replicas_on_distinct_providers:
  assumes "archive_ok ar" "entry_index by_info" "distinct (map te_id t)" "no \<noteq> 0"
    and "adv_get ar by_info [buffer_wrapper ar (ar_u32 ar) no, buffer_wrapper ar (ar_u32 ar) rn] t
           = Returns rpc_ok result t'"
  shows "\<exists>l. result = [buffer_wrapper ar (ser_replica_list ar) l] \<and> length l = unat no \<and>
     (\<forall>m. distinct (take (unat rn) (drop (m * unat rn) l))) \<and>
     (\<forall>p \<in> set l. \<exists>e \<in> set t. desc_of e = p \<and> 0 < se_free (te_info e)) \<and>
     t' = map (\<lambda>e. e\<lparr>te_info := (te_info e)
                       \<lparr>se_score := se_score (te_info e) + of_nat (count_list l (desc_of e))\<rparr>\<rparr>) t"
proof (cases "0 < sint rn")
  case True
  have ne: "rpc_eres \<noteq> rpc_ok" by (simp add: rpc_eres_def rpc_ok_def)
  from adv_get_result [OF assms(1-4) True] obtain l t1 where
    l: "\<forall>m. distinct (take (unat rn) (drop (m * unat rn) l))"
      "\<forall>p \<in> set l. \<exists>e \<in> set t. desc_of e = p \<and> 0 < se_free (te_info e)"
      "alloc by_info (unat no) rn True t [] = Some (t1, l)"
    and run: "adv_get ar by_info [buffer_wrapper ar (ar_u32 ar) no, buffer_wrapper ar (ar_u32 ar) rn] t =
       (if length l \<noteq> unat no then Returns rpc_eres [] t1
        else Returns rpc_ok [buffer_wrapper ar (ser_replica_list ar) l] t1)"
    by blast
  have "length l = unat no" "t' = t1" "result = [buffer_wrapper ar (ser_replica_list ar) l]"
    using run assms(5) ne by (auto split: if_splits)
  with l alloc_table [OF l(3) assms(2,3)] show ?thesis by (auto simp: scored_def)
next
  case False
  have "0 < unat no" using assms(4) by (simp add: unat_gt_0)
  then have "alloc by_info (unat no) rn True t [] = None" using False by (intro alloc_hangs) auto
  then show ?thesis using assms(5) by (simp add: adv_get_eval [OF assms(1,4)])
qed

text \<open>
  A request for providers is answered exactly if the number of replicas, as a signed integer,
  is positive. The request of a client for \<open>0\<close> replicas keeps the provider manager in its loop
  forever.
\<close>

theorem get_returns_iff_replicas:
  assumes "archive_ok ar" "entry_index by_info" "distinct (map te_id t)" "no \<noteq> 0"
  shows "adv_get ar by_info [buffer_wrapper ar (ar_u32 ar) no, buffer_wrapper ar (ar_u32 ar) rn] t = Hangs
    \<longleftrightarrow> sint rn \<le> 0"
proof (cases "0 < sint rn")
  case True
  then show ?thesis using adv_get_result [OF assms True] by (auto split: if_splits)
next
  case False
  have "0 < unat no" using assms(4) by (simp add: unat_gt_0)
  then have "alloc by_info (unat no) rn True t [] = None" using False by (intro alloc_hangs) auto
  then show ?thesis using False by (simp add: adv_get_eval [OF assms(1,4)])
qed

lemma adv_get_exact:
  assumes "archive_ok ar" "entry_index by_info" "distinct (map te_id t)" "no \<noteq> 0"
    and "0 < sint rn" "unat rn dvd unat no" "unat rn \<le> length t"
    and "\<forall>e \<in> set t. 0 < se_free (te_info e)"
  shows "\<exists>l t'. adv_get ar by_info [buffer_wrapper ar (ar_u32 ar) no, buffer_wrapper ar (ar_u32 ar) rn] t
    = Returns rpc_ok [buffer_wrapper ar (ser_replica_list ar) l] t' \<and> length l = unat no"
proof -
  from adv_get_result [OF assms(1-5)] obtain l t' where
    a: "alloc by_info (unat no) rn True t [] = Some (t', l)"
      "adv_get ar by_info [buffer_wrapper ar (ar_u32 ar) no, buffer_wrapper ar (ar_u32 ar) rn] t =
       (if length l \<noteq> unat no then Returns rpc_eres [] t'
        else Returns rpc_ok [buffer_wrapper ar (ser_replica_list ar) l] t')"
    by blast
  have "0 < unat rn" "unat rn = nat (sint rn)" using nat_sint [OF assms(5)] assms(5) by auto
  moreover have "all_free t" using assms(8) by (auto simp: all_free_def space_def)
  ultimately have "length l = unat no"
    using entry_index.alloc_exact [OF assms(2), of "unat rn" rn "unat no" t "[]" t' l] assms(3,6,7) a(1) by simp
  with a(2) show ?thesis by auto
qed

text \<open>
  C24: while all registered providers have free space and there are at least as many of them as
  replicas, a request for whole groups is satisfied.
\<close>

theorem get_succeeds_with_space:
  assumes "archive_ok ar" "entry_index by_info" "distinct (map te_id t)" "no \<noteq> 0"
    and "0 < sint rn" "unat rn dvd unat no" "unat rn \<le> length t"
    and "\<forall>e \<in> set t. 0 < se_free (te_info e)"
  shows "\<exists>l t'. adv_get ar by_info [buffer_wrapper ar (ar_u32 ar) no, buffer_wrapper ar (ar_u32 ar) rn] t
    = Returns rpc_ok [buffer_wrapper ar (ser_replica_list ar) l] t' \<and> length l = unat no"
  using assms by (rule adv_get_exact)

text \<open>What a report of a provider does to the table, entry by entry.\<close>

definition reported :: "int \<Rightarrow> u64 \<Rightarrow> u64 \<Rightarrow> u64 \<Rightarrow> string_pair_t \<Rightarrow> adv_table_t \<Rightarrow> table_entry" where
  "reported now fs rp rt a t =
     \<lparr>te_id = a,
      te_info = \<lparr>se_score = (case id_find a t of None \<Rightarrow> 0 | Some e \<Rightarrow> se_score (te_info e)),
                 se_free = fs, se_read_pages = rp, se_read_total = rt\<rparr>,
      te_time = now + 30000000\<rparr>"

lemma id_find_replace:
  "id_find a (id_replace e t) = (if a = te_id e \<and> id_find a t \<noteq> None then Some e else id_find a t)"
  by (induction t) (auto simp: id_find_def id_replace_def)

lemma id_find_None: "id_find a t = None \<longleftrightarrow> a \<notin> te_id ` set t"
  by (auto simp: id_find_def find_None_iff)

lemma id_find_id_insert:
  "id_find a (id_insert e t) = (if a = te_id e \<and> id_find a t = None then Some e else id_find a t)"
proof (cases "te_id e \<in> te_id ` set t")
  case True
  then show ?thesis by (auto simp: id_insert_def id_find_None)
next
  case False
  then have "id_find (te_id e) t = None" by (simp add: id_find_None)
  with False show ?thesis
    by (auto simp: id_insert_def id_find_def find_None_append split: option.splits)
qed

lemma adv_update_eval:
  assumes "archive_ok ar" "distinct (map te_id t)"
  shows "\<exists>t'. adv_update ar now sender [buffer_wrapper ar (ar_u64 ar) fs, buffer_wrapper ar (ar_u64 ar) rp,
      buffer_wrapper ar (ar_u64 ar) rt, buffer_wrapper ar (ar_string ar) service] t = Returns rpc_ok [] t' \<and>
    distinct (map te_id t') \<and>
    (\<forall>b. id_find b t' = (if b = (host_of sender, service)
                         then Some (reported now fs rp rt (host_of sender, service) t) else id_find b t))"
proof -
  let ?a = "(host_of sender, service)"
  let ?t = "id_insert (table_entry_new now ?a) t"
  obtain e where e: "id_find ?a ?t = Some e"
    using id_find_insert [of "table_entry_new now ?a" t] by (auto simp: table_entry_new_def)
  define e' where "e' = e\<lparr>te_time := now + WATCHDOG_TIMEOUT * 1000000,
    te_info := (te_info e)\<lparr>se_read_pages := rp, se_read_total := rt, se_free := fs\<rparr>\<rparr>"
  have run: "adv_update ar now sender [buffer_wrapper ar (ar_u64 ar) fs, buffer_wrapper ar (ar_u64 ar) rp,
      buffer_wrapper ar (ar_u64 ar) rt, buffer_wrapper ar (ar_string ar) service] t = Returns rpc_ok [] (id_replace e' ?t)"
    using assms(1) e by (auto simp: adv_update_def Let_def e'_def eval_nat_numeral)
  have "te_id e' = ?a" using id_find_SomeD [OF e] by (simp add: e'_def)
  moreover have "e' = reported now fs rp rt ?a t"
    using e id_find_SomeD [OF e]
    by (auto simp: e'_def reported_def id_find_id_insert table_entry_new_def WATCHDOG_TIMEOUT_def split: if_splits)
  ultimately have "id_find b (id_replace e' ?t) = (if b = ?a then Some (reported now fs rp rt ?a t) else id_find b t)" for b
    using e by (auto simp: id_find_replace id_find_id_insert table_entry_new_def)
  moreover have "distinct (map te_id (id_replace e' ?t))" using assms(2) by (simp add: distinct_id_insert)
  ultimately show ?thesis using run by blast
qed

text \<open>
  C25: a provider that reports is registered with what it reports and keeps its score (a new one
  starts with score 0), and the other providers stay as they are. A watchdog pass at a later time
  keeps exactly the providers whose last report is at most 30 seconds old.
\<close>

theorem reporting_provider_kept:
  assumes "archive_ok ar" "time_index by_time" "distinct (map te_id t)"
  shows "\<exists>t'. adv_update ar now sender [buffer_wrapper ar (ar_u64 ar) fs, buffer_wrapper ar (ar_u64 ar) rp,
      buffer_wrapper ar (ar_u64 ar) rt, buffer_wrapper ar (ar_string ar) service] t = Returns rpc_ok [] t' \<and>
    id_find (host_of sender, service) t' = Some (reported now fs rp rt (host_of sender, service) t) \<and>
    (\<forall>b. b \<noteq> (host_of sender, service) \<longrightarrow> id_find b t' = id_find b t) \<and>
    (\<forall>later b. id_find b (watchdog_pass by_time later t') =
       (case id_find b t' of None \<Rightarrow> None | Some e \<Rightarrow> if later \<le> te_time e then Some e else None)) \<and>
    (\<forall>later. later \<le> now + 30000000 \<longleftrightarrow> id_find (host_of sender, service) (watchdog_pass by_time later t') \<noteq> None)"
proof -
  have filt: "id_find b (filter (\<lambda>e. l \<le> te_time e) t') =
      (case id_find b t' of None \<Rightarrow> None | Some e \<Rightarrow> if l \<le> te_time e then Some e else None)"
    if "distinct (map te_id t')" for b l t'
    using that
  proof (induction t')
    case (Cons x t')
    then have "id_find (te_id x) t' = None" by (simp add: id_find_None)
    with Cons show ?case by (auto simp: id_find_def)
  qed (simp add: id_find_def)
  from adv_update_eval [OF assms(1,3), of now sender fs rp rt service] obtain t' where
    t': "adv_update ar now sender [buffer_wrapper ar (ar_u64 ar) fs, buffer_wrapper ar (ar_u64 ar) rp,
      buffer_wrapper ar (ar_u64 ar) rt, buffer_wrapper ar (ar_string ar) service] t = Returns rpc_ok [] t'"
      "distinct (map te_id t')"
      "\<forall>b. id_find b t' = (if b = (host_of sender, service)
         then Some (reported now fs rp rt (host_of sender, service) t) else id_find b t)" by blast
  show ?thesis using t'(1,3)
    by (intro exI [of _ t'] conjI)
      (simp_all add: time_index.watchdog_removes_stale [OF assms(2)] filt [OF t'(2)] reported_def)
qed

text \<open>Whatever the parameters of a request, it changes nothing but scores.\<close>

lemma adv_get_ids:
  assumes "entry_index by_info" "distinct (map te_id t)" "adv_get ar by_info params t = Returns st res t'"
  shows "map te_id t' = map te_id t"
proof -
  have alloc: "map te_id t1 = map te_id t" if "alloc by_info (unat no) rn True t [] = Some (t1, l)" "no \<noteq> 0" for no rn t1 l
  proof (cases "0 < sint rn")
    case True
    then have "0 < unat rn" "unat rn = nat (sint rn)" using nat_sint [OF True] by auto
    then show ?thesis using entry_index.alloc_total [OF assms(1) _ _ assms(2), of "unat rn" rn "[]" "unat no"] that by auto
  next
    case False
    have "0 < unat no" using that(2) by (simp add: unat_gt_0)
    then have "alloc by_info (unat no) rn True t [] = None" using False by (intro alloc_hangs) auto
    then show ?thesis using that by simp
  qed
  show ?thesis using assms(3) alloc
    by (auto simp: adv_get_def read_param_def split: if_splits got.splits option.splits)
qed

text \<open>
  whatever calls it serves and whenever the watchdog runs, the provider manager keeps one
  entry per provider, so the hypotheses of the properties above hold in every state it reaches.
\<close>

theorem providers_distinct:
  assumes "entry_index by_info" "pm_reach ar by_info by_time t"
  shows "distinct (map te_id t)"
  using assms(2)
proof (induction rule: pm_reach.induct)
  case (pm_call t now sender name h params st result t')
  have "distinct (map te_id t')" if "adv_update ar now sender params t = Returns st result t'"
    using that pm_call.IH
    by (auto simp: adv_update_def read_param_def Let_def distinct_id_insert
        split: if_splits got.splits option.splits)
  moreover have "distinct (map te_id t')" if "adv_get ar by_info params t = Returns st result t'"
    using adv_get_ids [OF assms(1) pm_call.IH that] pm_call.IH by simp
  ultimately show ?case using pm_call.hyps by (auto simp: pm_lookup_def split: if_splits)
next
  case (pm_watchdog t now)
  then show ?case by (simp add: watchdog_pass_def distinct_map_filter)
qed simp

section \<open>An order that is not one\<close>

text \<open>
  \<open>operator<\<close> promises the provider with the lowest score "but only if free space is still
  available on it", yet two entries, one full and with a lower score, one with free space, are
  incomparable. If the full provider was registered first, it stays in front of the index, where the walk
  stops: the request fails although a provider has space.
\<close>

theorem full_provider_hides_free_one:
  assumes "archive_ok ar" "se_free (te_info a) = 0" "0 < se_free (te_info b)"
    and "se_score (te_info a) < se_score (te_info b)"
  shows "\<not> score_less (te_info a) (te_info b) \<and> \<not> score_less (te_info b) (te_info a) \<and>
    adv_get ar info_order [buffer_wrapper ar (ar_u32 ar) 1, buffer_wrapper ar (ar_u32 ar) 1] [a, b]
       = Returns rpc_eres [] [a, b]"
proof (intro conjI)
  have na: "se_free (te_info b) \<noteq> 0" using assms(3) by (simp add: word_neq_0_conv)
  show "\<not> score_less (te_info a) (te_info b)" using assms(2) na by (simp add: score_less_def)
  show nb: "\<not> score_less (te_info b) (te_info a)" using assms(2,4) na by (simp add: score_less_def)
  have order: "info_order [a, b] = [a, b]" using nb by (simp add: info_order_def index_order_def)
  have "sint (1 :: u32) = 1" by simp
  then have "alloc info_order 1 1 True [a, b] [] = alloc info_order 1 1 False [a, b] []"
    using assms(2) by (subst alloc.simps) (simp add: order)
  also have "\<dots> = Some ([a, b], [])" by (subst alloc.simps) simp
  finally show "adv_get ar info_order [buffer_wrapper ar (ar_u32 ar) 1, buffer_wrapper ar (ar_u32 ar) 1] [a, b]
       = Returns rpc_eres [] [a, b]"
    by (simp add: adv_get_eval [OF assms(1)])
qed

section \<open>Instances\<close>

definition ex_entry :: "string \<Rightarrow> u64 \<Rightarrow> u64 \<Rightarrow> table_entry" where
  "ex_entry h score free_space = \<lparr>te_id = (h, ''1110''),
     te_info = \<lparr>se_score = score, se_free = free_space, se_read_pages = 0, se_read_total = 0\<rparr>, te_time = 0\<rparr>"

definition ex_table :: adv_table_t where
  "ex_table = [ex_entry ''a'' 0 100, ex_entry ''b'' 0 50, ex_entry ''c'' 1 70]"

lemma ex_table_ok: "distinct (map te_id ex_table)" "\<forall>e \<in> set ex_table. 0 < se_free (te_info e)" "length ex_table = 3"
  by (auto simp: ex_table_def ex_entry_def)

theorem get_succeeds_with_space_witness:
  "\<exists>l t'. adv_get plain_archive info_order [buffer_wrapper plain_archive (ar_u32 plain_archive) 4,
      buffer_wrapper plain_archive (ar_u32 plain_archive) 2] ex_table
    = Returns rpc_ok [buffer_wrapper plain_archive (ser_replica_list plain_archive) l] t' \<and> length l = 4"
proof -
  have "unat (2::u32) dvd unat (4::u32)" by simp
  from get_succeeds_with_space [OF plain_archive_ok info_ix.entry_index_axioms ex_table_ok(1), of 4 2] this ex_table_ok
  show ?thesis by simp
qed

lemma ex_get_ok: "\<exists>result t'. adv_get plain_archive info_order [buffer_wrapper plain_archive (ar_u32 plain_archive) 4,
      buffer_wrapper plain_archive (ar_u32 plain_archive) 2] ex_table = Returns rpc_ok result t'"
proof -
  have "unat (2::u32) dvd unat (4::u32)" by simp
  from adv_get_exact [OF plain_archive_ok info_ix.entry_index_axioms ex_table_ok(1), of 4 2] this ex_table_ok
  show ?thesis by auto
qed

theorem replicas_on_distinct_providers_witness:
  "\<exists>l t'. adv_get plain_archive info_order [buffer_wrapper plain_archive (ar_u32 plain_archive) 4,
        buffer_wrapper plain_archive (ar_u32 plain_archive) 2] ex_table
      = Returns rpc_ok [buffer_wrapper plain_archive (ser_replica_list plain_archive) l] t' \<and>
     length l = 4 \<and> (\<forall>m. distinct (take 2 (drop (m * 2) l))) \<and>
     map (\<lambda>e. se_score (te_info e)) t' =
       [of_nat (count_list l (desc_of (ex_entry ''a'' 0 100))),
        of_nat (count_list l (desc_of (ex_entry ''b'' 0 50))),
        1 + of_nat (count_list l (desc_of (ex_entry ''c'' 1 70)))]"
proof -
  obtain result t' where run: "adv_get plain_archive info_order [buffer_wrapper plain_archive (ar_u32 plain_archive) 4,
      buffer_wrapper plain_archive (ar_u32 plain_archive) 2] ex_table = Returns rpc_ok result t'"
    using ex_get_ok by blast
  have "(4::u32) \<noteq> 0" by simp
  from replicas_on_distinct_providers [OF plain_archive_ok info_ix.entry_index_axioms ex_table_ok(1) this run] run
  show ?thesis by (auto simp: ex_table_def ex_entry_def)
qed

theorem get_returns_iff_replicas_witness:
  "adv_get plain_archive info_order [buffer_wrapper plain_archive (ar_u32 plain_archive) 4,
      buffer_wrapper plain_archive (ar_u32 plain_archive) 0] ex_table = Hangs"
  using get_returns_iff_replicas [OF plain_archive_ok info_ix.entry_index_axioms ex_table_ok(1), of 4 0] by simp

theorem reporting_provider_kept_witness:
  "\<exists>t'. adv_update plain_archive 5 ''a:1234'' [buffer_wrapper plain_archive (ar_u64 plain_archive) 9,
      buffer_wrapper plain_archive (ar_u64 plain_archive) 0, buffer_wrapper plain_archive (ar_u64 plain_archive) 0,
      buffer_wrapper plain_archive (ar_string plain_archive) ''1110''] ex_table = Returns rpc_ok [] t' \<and>
    id_find (''a'', ''1110'') t' =
      Some \<lparr>te_id = (''a'', ''1110''), te_info = \<lparr>se_score = 0, se_free = 9, se_read_pages = 0, se_read_total = 0\<rparr>,
            te_time = 30000005\<rparr>"
proof -
  have "host_of ''a:1234'' = ''a''" by (simp add: host_of_def)
  then show ?thesis
    using reporting_provider_kept [OF plain_archive_ok time_ix.time_index_axioms ex_table_ok(1),
        of 5 "''a:1234''" 9 0 0 "''1110''"]
    by (auto simp: reported_def ex_table_def ex_entry_def id_find_def)
qed

theorem providers_distinct_witness: "distinct (map te_id (watchdog_pass time_order 7 []))"
  by (rule providers_distinct [OF info_ix.entry_index_axioms])
    (rule pm_watchdog [OF pm_start [of plain_archive info_order time_order]])

theorem full_provider_hides_free_one_witness:
  "adv_get plain_archive info_order [buffer_wrapper plain_archive (ar_u32 plain_archive) 1,
      buffer_wrapper plain_archive (ar_u32 plain_archive) 1] [ex_entry ''a'' 3 0, ex_entry ''b'' 5 100]
    = Returns rpc_eres [] [ex_entry ''a'' 3 0, ex_entry ''b'' 5 100]"
  using full_provider_hides_free_one [OF plain_archive_ok, of "ex_entry ''a'' 3 0" "ex_entry ''b'' 5 100"]
  by (simp add: ex_entry_def)

end
