(* ===== verification/Pmgr_Listener.thy ===== *)
theory Pmgr_Listener
  imports Null_Bw_Map Bdb_Bw_Map Adv_Manager
begin

text \<open>
  \<open>provider/pmgr_listener.cpp\<close> and the wiring of \<open>provider/provider.cpp\<close>: the listener of a
  provider, which tells the provider manager how much space is left and how much was read. The RPC it
  dispatches and the timer it arms are the actions it returns.
\<close>

record pmgr_listener =
  pl_phost :: string
  pl_pservice :: string
  pl_service :: string
  pl_free_space :: u64
  nr_read_pages :: u64
  total_read_size :: u64

datatype pl_action =
    Dispatch string string u32 rpcvector_t
  | Arm_timer nat

definition UPDATE_TIMEOUT :: nat where "UPDATE_TIMEOUT = 5"

definition timeout_callback :: "archive \<Rightarrow> bool \<Rightarrow> pmgr_listener \<Rightarrow> pl_action list" where
  "timeout_callback ar aborted l =
     (if \<not> aborted
      then [Dispatch (pl_phost l) (pl_pservice l) PUBLISHER_UPDATE
              [buffer_wrapper ar (ar_u64 ar) (pl_free_space l), buffer_wrapper ar (ar_u64 ar) (nr_read_pages l),
               buffer_wrapper ar (ar_u64 ar) (total_read_size l), buffer_wrapper ar (ar_string ar) (pl_service l)]]
      else [])"

definition pmgr_listener_new ::
  "archive \<Rightarrow> string \<Rightarrow> string \<Rightarrow> u64 \<Rightarrow> string \<Rightarrow> pmgr_listener \<times> pl_action list" where
  "pmgr_listener_new ar ph ps fs s =
     (let l = \<lparr>pl_phost = ph, pl_pservice = ps, pl_service = s, pl_free_space = fs, nr_read_pages = 0, total_read_size = 0\<rparr>
      in (l, timeout_callback ar False l))"

definition update_event ::
  "archive \<Rightarrow> u32 \<Rightarrow> monitored_params_t \<Rightarrow> pmgr_listener \<Rightarrow> pmgr_listener \<times> pl_action list" where
  "update_event ar name params l =
     (case params of (free_space, page_id, page_size, sender) \<Rightarrow>
        if name = PROVIDER_WRITE
        then let l = l\<lparr>pl_free_space := free_space\<rparr>
             in (l, if pl_free_space l = 0 then timeout_callback ar False l else [])
        else if name = PROVIDER_READ
        then (l\<lparr>nr_read_pages := nr_read_pages l + 1, total_read_size := total_read_size l + page_size\<rparr>, [])
        else (l, []))"

definition provider_callback :: "rpcreturn_t \<Rightarrow> pmgr_listener \<Rightarrow> pmgr_listener \<times> pl_action list" where
  "provider_callback error l = (l\<lparr>nr_read_pages := 0, total_read_size := 0\<rparr>, [Arm_timer UPDATE_TIMEOUT])"

text \<open>
  \<open>run_server\<close>: the listener is the hook of the page manager; its actions are collected. Only
  three of the RPCs are registered.
\<close>

type_synonym listener_state = "pmgr_listener \<times> pl_action list"

definition listener_hook :: "archive \<Rightarrow> listener_state update_hook_t" where
  "listener_hook ar name params ls = (case ls of (l, acts) \<Rightarrow>
     case update_event ar name params l of (l, new) \<Rightarrow> (l, acts @ new))"

definition provider_start ::
  "archive \<Rightarrow> string \<Rightarrow> string \<Rightarrow> string \<Rightarrow> u32 \<Rightarrow> 'p \<Rightarrow> ('p, listener_state) page_manager" where
  "provider_start ar phost pservice service total_space pc =
     add_listener (listener_hook ar)
       (page_manager_new pc False
          (pmgr_listener_new ar phost pservice (push_bit 20 1 * ucast total_space) service))"

definition provider_lookup ::
  "archive \<Rightarrow> 'p persist_ops \<Rightarrow> string \<Rightarrow> u32
     \<Rightarrow> (rpcvector_t \<Rightarrow> ('p, 'l) page_manager \<Rightarrow> ('p, 'l) page_manager outcome) option" where
  "provider_lookup ar ops sender name =
     (if name = PROVIDER_WRITE then Some (write_page ops sender)
      else if name = PROVIDER_READ then Some (read_page ops sender)
      else if name = PROVIDER_READ_PARTIAL then Some (read_partial_page ar ops sender)
      else None)"

text \<open>\<open>main\<close>: the size of the persistency layer, in bytes.\<close>

definition provider_space :: "u32 \<Rightarrow> u64" where
  "provider_space total_space = push_bit 20 1 * ucast total_space"

text \<open>The states of a provider that serves requests.\<close>

inductive provider_serves ::
  "archive \<Rightarrow> 'p persist_ops \<Rightarrow> ('p, 'l) page_manager \<Rightarrow> ('p, 'l) page_manager \<Rightarrow> bool"
  for ar ops pm0 where
  ps_start: "provider_serves ar ops pm0 pm0"
| ps_call: "provider_serves ar ops pm0 pm \<Longrightarrow> provider_lookup ar ops sender name = Some h \<Longrightarrow>
     h params pm = Returns st result pm' \<Longrightarrow> provider_serves ar ops pm0 pm'"

section \<open>The account of the free space\<close>

text \<open>Only a successful write changes the free space a layer reports.\<close>

locale space_account =
  fixes ops :: "'p persist_ops"
  assumes read_free: "pe_get_free ops (snd (pe_read ops k p)) = pe_get_free ops p"
    and refused_free: "pe_write ops k v p = (False, p') \<Longrightarrow> pe_get_free ops p' = pe_get_free ops p"
begin

definition in_step :: "archive \<Rightarrow> ('p, listener_state) page_manager \<Rightarrow> bool" where
  "in_step ar pm \<longleftrightarrow> update_hooks pm = [listener_hook ar] \<and>
     pl_free_space (fst (listeners pm)) = pe_get_free ops (page_cache pm)"

lemma write_hook:
  "update_hooks pm = [listener_hook ar] \<Longrightarrow> in_step ar (exec_hooks ops PROVIDER_WRITE k s x pm)"
  by (simp add: in_step_def exec_hooks_def listener_hook_def update_event_def split_beta Let_def)

lemma read_hook: "in_step ar pm \<Longrightarrow> in_step ar (exec_hooks ops PROVIDER_READ k s x pm)"
  by (simp add: in_step_def exec_hooks_def listener_hook_def update_event_def split_beta PROVIDER_READ_def PROVIDER_WRITE_def)

lemma read_keeps_step: "in_step ar pm \<Longrightarrow> pe_read ops k (page_cache pm) = (r, p) \<Longrightarrow> in_step ar (pm\<lparr>page_cache := p\<rparr>)"
  using read_free [of k "page_cache pm"] by (simp add: in_step_def)

lemma write_loop_step: "write_loop ops x params pm = Returns st res pm' \<Longrightarrow> in_step ar pm \<Longrightarrow> in_step ar pm'"
proof (induction params arbitrary: pm rule: page_pairs.induct)
  case (1 k v params)
  obtain b p where w: "pe_write ops k v (page_cache pm) = (b, p)" by fastforce
  show ?case
  proof (cases b)
    case True
    let ?pm = "exec_hooks ops PROVIDER_WRITE k (ucast (bw_size v)) x (pm\<lparr>page_cache := p\<rparr>)"
    have "in_step ar ?pm" using 1(3) by (intro write_hook) (simp add: in_step_def)
    moreover have "write_loop ops x params ?pm = Returns st res pm'" using 1(2) w True by simp
    ultimately show ?thesis by (rule 1(1) [rotated])
  next
    case False
    then have "pm' = pm\<lparr>page_cache := p\<rparr>" using 1(2) w by simp
    then show ?thesis using 1(3) refused_free w False by (simp add: in_step_def)
  qed
qed simp_all

lemma read_loop_step: "read_loop ops x n params res ok pm = Returns st res' pm' \<Longrightarrow> in_step ar pm \<Longrightarrow> in_step ar pm'"
proof (induction params arbitrary: res ok pm)
  case (Cons k params)
  obtain r p where r: "pe_read ops k (page_cache pm) = (r, p)" by fastforce
  note st = read_keeps_step [OF Cons.prems(2) r]
  show ?case
  proof (cases r)
    case None
    then have "read_loop ops x n params (res @ [[]]) ok (pm\<lparr>page_cache := p\<rparr>) = Returns st res' pm'"
      using Cons.prems(1) r by (auto simp: print_buffer_def split: if_splits)
    then show ?thesis using Cons.IH st by blast
  next
    case (Some v)
    then show ?thesis using Cons.prems(1) r Cons.IH read_hook [OF st] by simp
  qed
qed simp

lemma partial_step:
  assumes "read_partial_page ar' ops x params pm = Returns st res pm'" "in_step ar pm"
  shows "in_step ar pm'"
proof -
  obtain r p where r: "pe_read ops (params ! 0) (page_cache pm) = (r, p)" by fastforce
  note st = read_keeps_step [OF assms(2) r]
  show ?thesis using assms r st read_hook [OF st]
    by (auto simp: read_partial_page_def read_param_def print_buffer_def Let_def
        split: if_splits got.splits option.splits)
qed

lemma serves_in_step:
  assumes "provider_serves ar ops pm0 pm" "in_step ar pm0"
  shows "in_step ar pm"
  using assms(1)
proof (induction rule: provider_serves.induct)
  case (ps_call pm x name h params st res pm')
  from ps_call.hyps(2) consider "h = write_page ops x" | "h = read_page ops x" | "h = read_partial_page ar ops x"
    by (auto simp: provider_lookup_def split: if_splits)
  then show ?case
  proof cases
    case 1
    then show ?thesis using ps_call write_loop_step by (auto simp: write_page_def split: if_splits)
  next
    case 2
    then show ?thesis using ps_call read_loop_step by (auto simp: read_page_def split: if_splits)
  next
    case 3
    then show ?thesis using ps_call partial_step by blast
  qed
qed (rule assms(2))

lemma start_in_step:
  "pe_get_free ops pc = push_bit 20 1 * ucast tsp \<Longrightarrow> in_step ar (provider_start ar ph ps s tsp pc)"
  by (simp add: in_step_def provider_start_def add_listener_def page_manager_new_def pmgr_listener_new_def Let_def)

lemma listener_in_step:
  assumes "provider_serves ar ops (provider_start ar ph ps s tsp pc) pm" "pe_get_free ops pc = provider_space tsp"
  shows "pl_free_space (fst (listeners pm)) = pe_get_free ops (page_cache pm)"
  using serves_in_step [OF assms(1) start_in_step] assms(2) by (simp add: in_step_def provider_space_def)

end

interpretation null_account: space_account null_ops
  by unfold_locales
    (auto simp: null_ops_def null_read_def null_write_def null_get_free_def Let_def split: prod.splits if_splits)

interpretation bdb_account: space_account "bdb_ops db" for db
  by unfold_locales
    (auto simp: bdb_ops_def bdb_read_def bdb_write_def bdb_get_free_def Let_def split: prod.splits if_splits option.splits)

section \<open>Properties\<close>

text \<open>
  What a provider reports is what the provider manager records: the table has an entry for the
  provider, under the host it called from and its service, with the free space and the read counts
  of the listener.
\<close>

theorem report_is_recorded:
  assumes "archive_ok ar" "distinct (map te_id t)" "timeout_callback ar False l = [Dispatch h s name params]"
  shows "name = PUBLISHER_UPDATE \<and> (\<exists>t' e. adv_update ar now sender params t = Returns rpc_ok [] t' \<and>
    id_find (host_of sender, pl_service l) t' = Some e \<and>
    se_free (te_info e) = pl_free_space l \<and> se_read_pages (te_info e) = nr_read_pages l \<and>
    se_read_total (te_info e) = total_read_size l \<and> te_time e = now + 30000000)"
proof -
  have p: "name = PUBLISHER_UPDATE" "params = [buffer_wrapper ar (ar_u64 ar) (pl_free_space l), buffer_wrapper ar (ar_u64 ar) (nr_read_pages l),
               buffer_wrapper ar (ar_u64 ar) (total_read_size l), buffer_wrapper ar (ar_string ar) (pl_service l)]"
    using assms(3) by (simp_all add: timeout_callback_def)
  from adv_update_eval [OF assms(1,2), of now sender "pl_free_space l" "nr_read_pages l" "total_read_size l" "pl_service l"]
  show ?thesis unfolding p by (auto simp: reported_def)
qed

text \<open>
  C29: the listener knows the free space of its provider at all times, whatever requests the
  provider serves and with either persistency layer; both start with the configured space.
\<close>

theorem listener_knows_free_space:
  assumes "provider_serves ar null_ops (provider_start ar ph ps s tsp (null_bw_map_new cs (provider_space tsp))) pm"
    and "provider_serves ar (bdb_ops db) (provider_start ar ph ps s tsp (bdb_bw_map_new d cs (provider_space tsp))) pm'"
  shows "pl_free_space (fst (listeners pm)) = null_get_free (page_cache pm) \<and>
    pl_free_space (fst (listeners pm')) = bdb_get_free (page_cache pm')"
  using null_account.listener_in_step [OF assms(1)] bdb_account.listener_in_step [OF assms(2)]
  by (simp add: null_ops_def null_get_free_def null_bw_map_new_def bdb_ops_def bdb_get_free_def bdb_bw_map_new_def)

theorem report_is_recorded_witness:
  "\<exists>l params t'. timeout_callback plain_archive False l = [Dispatch ''pm'' ''99'' PUBLISHER_UPDATE params] \<and>
     adv_update plain_archive 5 ''a:1234'' params ex_table = Returns rpc_ok [] t'"
proof -
  let ?l = "\<lparr>pl_phost = ''pm'', pl_pservice = ''99'', pl_service = ''1110'', pl_free_space = 9, nr_read_pages = 0, total_read_size = 0\<rparr>"
  obtain params where p: "timeout_callback plain_archive False ?l = [Dispatch ''pm'' ''99'' PUBLISHER_UPDATE params]"
    by (simp add: timeout_callback_def)
  from report_is_recorded [OF plain_archive_ok ex_table_ok(1) p, of 5 "''a:1234''"] p show ?thesis by blast
qed

theorem listener_knows_free_space_witness:
  "pl_free_space (fst (listeners (provider_start plain_archive ''pm'' ''99'' ''1110'' 1 (null_bw_map_new 4 (provider_space 1)))))
     = null_get_free (null_bw_map_new 4 (provider_space 1))"
  using listener_knows_free_space [where ar = plain_archive and ph = "''pm''" and ps = "''99''" and s = "''1110''" and tsp = 1
      and cs = 4 and db = mem_db and d = Map.empty, OF ps_start ps_start]
  by (simp add: provider_start_def add_listener_def page_manager_new_def)

end
