(* ===== verification/Page_Range.thy ===== *)
theory Page_Range
  imports Object_Handler
begin

text \<open>
  The arithmetic behind a read of the client library: a range of bytes cut into parts of pages, and
  the loop of provider answers, which fills the user's buffer part by part whatever their order.
\<close>

section \<open>A range cut into pages\<close>

text \<open>
  A range of \<open>z\<close> bytes that begins \<open>a\<close> bytes into the first of its pages of \<open>P\<close> bytes: the
  part of page \<open>i\<close> in it, and where it is in the range.
\<close>

definition tile_lo :: "nat \<Rightarrow> nat \<Rightarrow> nat" where
  "tile_lo a i = (if i = 0 then a else 0)"

definition tile_len :: "nat \<Rightarrow> nat \<Rightarrow> nat \<Rightarrow> nat \<Rightarrow> nat" where
  "tile_len P a z i = min P (a + z - i * P) - tile_lo a i"

definition tile_pos :: "nat \<Rightarrow> nat \<Rightarrow> nat \<Rightarrow> nat" where
  "tile_pos P a i = i * P - a"

definition tile :: "nat \<Rightarrow> nat \<Rightarrow> nat \<Rightarrow> buffer list \<Rightarrow> nat \<Rightarrow> buffer" where
  "tile P a z pages i = take (tile_len P a z i) (drop (tile_lo a i) (pages ! i))"

definition cut :: "nat \<Rightarrow> nat \<Rightarrow> nat \<Rightarrow> nat \<Rightarrow> bool" where
  "cut P a z n \<longleftrightarrow> 0 < n \<and> a < P \<and> 0 < z \<and> (n - 1) * P < a + z \<and> a + z \<le> n * P"

lemma concat_nth:
  assumes "\<forall>p \<in> set pages. length p = P" "g < length pages * P"
  shows "concat pages ! g = pages ! (g div P) ! (g mod P)"
  using assms
proof (induction pages arbitrary: g)
  case (Cons p pages)
  then have "0 < P" by (cases P) auto
  show ?case
  proof (cases "g < P")
    case True
    with Cons.prems show ?thesis by (simp add: nth_append)
  next
    case False
    then have "g div P = Suc ((g - P) div P)" "g mod P = (g - P) mod P"
      using \<open>0 < P\<close> by (simp_all add: le_div_geq le_mod_geq)
    with False Cons.IH [of "g - P"] Cons.prems show ?thesis by (simp add: nth_append)
  qed
qed simp

lemma length_concat_equal: "\<forall>p \<in> set pages. length p = P \<Longrightarrow> length (concat pages) = length pages * P"
  by (induction pages) auto

lemma cut_page:
  assumes "cut P a z n" "i < n"
  shows "i * P < a + z" "0 < tile_len P a z i" "tile_pos P a i + tile_len P a z i \<le> z"
    "tile_lo a i + tile_len P a z i \<le> P"
proof -
  have "i * P \<le> (n - 1) * P" using assms by (intro mult_le_mono1) simp
  moreover have "(n - 1) * P < a + z" using assms(1) by (simp add: cut_def)
  ultimately show lt: "i * P < a + z" by (rule le_less_trans)
  show "0 < tile_len P a z i" "tile_lo a i + tile_len P a z i \<le> P"
    using assms lt by (auto simp: cut_def tile_len_def tile_lo_def)
  show "tile_pos P a i + tile_len P a z i \<le> z"
  proof (cases i)
    case 0
    then show ?thesis by (simp add: tile_pos_def tile_len_def tile_lo_def)
  next
    case (Suc j)
    then have "a < i * P" using assms(1) by (auto simp: cut_def)
    with Suc lt show ?thesis by (auto simp: tile_pos_def tile_len_def tile_lo_def min_def)
  qed
qed

lemma length_tile:
  "cut P a z n \<Longrightarrow> i < n \<Longrightarrow> length (pages ! i) = P \<Longrightarrow> length (tile P a z pages i) = tile_len P a z i"
  using cut_page(4) [of P a z n i] by (simp add: tile_def)

lemma tiles_disjoint:
  assumes "cut P a z n" "i < j" "j < n"
  shows "tile_pos P a i + tile_len P a z i \<le> tile_pos P a j"
proof -
  have "Suc i * P \<le> j * P" using assms(2) by (intro mult_le_mono1) simp
  moreover have "a < P" using assms(1) by (simp add: cut_def)
  moreover have "i = 0 \<and> i * P = 0 \<or> i \<noteq> 0 \<and> P \<le> i * P" by (cases i) simp_all
  moreover have "X - a + (min P (a + z - X) - (if i = 0 then a else 0)) \<le> Y - a"
    if "P + X \<le> Y" "a < P" "i = 0 \<and> X = 0 \<or> i \<noteq> 0 \<and> P \<le> X" for X Y
    using that by (auto simp: min_def)
  ultimately show ?thesis unfolding tile_pos_def tile_len_def tile_lo_def mult_Suc by blast
qed

lemma tiles_make_range:
  assumes "cut P a z n" "length pages = n" "\<forall>p \<in> set pages. length p = P" "length mem = z"
    and "\<And>i. i < n \<Longrightarrow> take (tile_len P a z i) (drop (tile_pos P a i) mem) = tile P a z pages i"
  shows "mem = take z (drop a (concat pages))"
proof (rule nth_equalityI)
  have len: "length (concat pages) = n * P" using length_concat_equal assms(2,3) by auto
  moreover have "z \<le> n * P - a" using assms(1) unfolding cut_def by linarith
  ultimately show "length mem = length (take z (drop a (concat pages)))" using assms(4) by simp
  fix j assume "j < length mem"
  then have j: "j < z" by (simp add: assms(4))
  define g where "g = a + j"
  have P: "0 < P" "a < P" "a + z \<le> n * P" using assms(1) by (auto simp: cut_def)
  have gn: "g < n * P" using j P(3) by (simp add: g_def)
  define i where "i = g div P"
  have i: "i < n" using gn P(1) by (simp add: i_def less_mult_imp_div_less)
  have gi: "i * P \<le> g" "g < Suc i * P" "g mod P = g - i * P"
    using P(1) by (simp_all add: i_def div_times_less_eq_dividend dividend_less_div_times minus_div_mult_eq_mod)
  have pos: "tile_pos P a i \<le> j" using gi(1) by (simp add: tile_pos_def g_def)
  have "j - tile_pos P a i < tile_len P a z i"
    using gi j P by (cases i) (auto simp: tile_pos_def tile_len_def tile_lo_def g_def min_def)
  moreover have "tile_lo a i + (j - tile_pos P a i) = g mod P"
    unfolding gi(3) using pos gi(1) P(2) by (cases i) (auto simp: tile_pos_def tile_lo_def g_def)
  moreover have "length (pages ! i) = P" using assms(2,3) i by simp
  moreover have "mem ! j = take (tile_len P a z i) (drop (tile_pos P a i) mem) ! (j - tile_pos P a i)"
    using calculation(1) pos \<open>j < length mem\<close> by simp
  ultimately have "mem ! j = pages ! i ! (g mod P)"
    using assms(5) [OF i] cut_page(4) [OF assms(1) i] by (simp add: tile_def)
  also have "\<dots> = concat pages ! g" using concat_nth [OF assms(3), of g] gn assms(2) by (simp add: i_def)
  finally show "mem ! j = take z (drop a (concat pages)) ! j" using j len P(3) by (simp add: g_def)
qed

section \<open>The answers of the providers\<close>

text \<open>
  \<open>T i\<close> are the bytes wanted from page \<open>i\<close>, to be stored at \<open>pos i\<close> of a buffer of \<open>z\<close> bytes.
\<close>

definition tiling :: "nat \<Rightarrow> (nat \<Rightarrow> nat) \<Rightarrow> (nat \<Rightarrow> nat) \<Rightarrow> nat \<Rightarrow> (nat \<Rightarrow> buffer) \<Rightarrow> bool" where
  "tiling n pos len z T \<longleftrightarrow>
     (\<forall>i < n. 0 < len i \<and> pos i + len i \<le> z \<and> length (T i) = len i) \<and>
     (\<forall>i j. i < j \<and> j < n \<longrightarrow> pos i + len i \<le> pos j)"

definition right_answer :: "env \<Rightarrow> buffer \<Rightarrow> rpc_call \<Rightarrow> bool" where
  "right_answer env bs c \<longleftrightarrow>
     (\<forall>log b. managed_answer (rc_buffers c) (en_answer env log c) = (rpc_ok, [b]) \<longrightarrow> b = bs)"

definition page_read_ok ::
  "env \<Rightarrow> nat \<Rightarrow> (nat \<Rightarrow> nat) \<Rightarrow> (nat \<Rightarrow> nat) \<Rightarrow> (nat \<Rightarrow> buffer) \<Rightarrow> page_read \<Rightarrow> bool" where
  "page_read_ok env n pos len T p \<longleftrightarrow>
     pr_index p < n \<and> pr_pos p = pos (pr_index p) \<and> pr_len p = len (pr_index p) \<and>
     right_answer env (T (pr_index p)) (pr_call p) \<and>
     (\<forall>adv. right_answer env (T (pr_index p)) (page_call adv (pr_type p) [pr_key p] (pr_len p)))"

definition pages_inv ::
  "env \<Rightarrow> nat \<Rightarrow> (nat \<Rightarrow> nat) \<Rightarrow> (nat \<Rightarrow> nat) \<Rightarrow> nat \<Rightarrow> (nat \<Rightarrow> buffer) \<Rightarrow> pages_state \<Rightarrow> bool" where
  "pages_inv env n pos len z T s \<longleftrightarrow>
     length (ps_vadv s) = n \<and> length (ps_memory s) = z \<and> \<not> ps_overrun s \<and>
     (\<forall>p \<in> set (ps_pending s). page_read_ok env n pos len T p) \<and>
     (\<forall>i < n. (\<exists>p \<in> set (ps_pending s). pr_index p = i) \<or> \<not> ps_result s \<or>
        take (len i) (drop (pos i) (ps_memory s)) = T i)"

lemma length_memory_write: "pos + length bs \<le> length mem \<Longrightarrow> length (memory_write pos bs mem) = length mem"
  by (simp add: memory_write_def)

lemma memory_write_inside:
  "pos + length bs \<le> length mem \<Longrightarrow> take (length bs) (drop pos (memory_write pos bs mem)) = bs"
  by (simp add: memory_write_def)

lemma memory_write_outside:
  assumes "pos + length bs \<le> length mem" "p + l \<le> pos \<or> pos + length bs \<le> p"
  shows "take l (drop p (memory_write pos bs mem)) = take l (drop p mem)"
  using assms(2)
proof
  assume "p + l \<le> pos"
  then have "take l (drop p (memory_write pos bs mem)) = take l (drop p (take pos mem))"
    using assms(1) by (simp add: memory_write_def)
  also have "\<dots> = take l (drop p mem)" using \<open>p + l \<le> pos\<close> by (simp add: drop_take min_absorb1)
  finally show ?thesis .
next
  assume "pos + length bs \<le> p"
  then show ?thesis using assms(1) by (simp add: memory_write_def)
qed

lemma next_replica_simps:
  assumes "next_replica env i s = (adv, s')"
  shows "ps_pending s' = ps_pending s" "length (ps_vadv s') = length (ps_vadv s)" "ps_memory s' = ps_memory s"
    "ps_overrun s' = ps_overrun s" "ps_result s' = ps_result s" "ps_log s' = ps_log s"
    "map rs_page_key (ps_vadv s') = map rs_page_key (ps_vadv s)"
proof -
  obtain rs where t: "try_next (en_rand env (ps_log s) i (ps_vadv s ! i)) (ps_vadv s ! i) = (adv, rs)"
    "s' = s\<lparr>ps_vadv := (ps_vadv s)[i := rs]\<rparr>"
    using assms by (auto simp: next_replica_def split: prod.splits)
  have key: "rs_page_key rs = rs_page_key (ps_vadv s ! i)"
    using t(1) by (auto simp: try_next_def Let_def split: if_splits)
  show "ps_pending s' = ps_pending s" "length (ps_vadv s') = length (ps_vadv s)" "ps_memory s' = ps_memory s"
    "ps_overrun s' = ps_overrun s" "ps_result s' = ps_result s" "ps_log s' = ps_log s"
    by (simp_all add: t(2))
  show "map rs_page_key (ps_vadv s') = map rs_page_key (ps_vadv s)"
    by (simp add: t(2) map_update key) (metis list_update_id map_update)
qed

lemma page_callback_inv:
  assumes "tiling n pos len z T" "page_read_ok env n pos len T p"
    and "length (ps_vadv s) = n" "length (ps_memory s) = z" "\<not> ps_overrun s"
    and "\<forall>p \<in> set (ps_pending s). page_read_ok env n pos len T p"
    and "\<forall>i < n. i = pr_index p \<or> (\<exists>p \<in> set (ps_pending s). pr_index p = i) \<or> \<not> ps_result s \<or>
        take (len i) (drop (pos i) (ps_memory s)) = T i"
    and "managed_answer (rc_buffers (pr_call p)) (en_answer env log (pr_call p)) = a"
  shows "pages_inv env n pos len z T (rpc_provider_callback env p a s)"
proof (cases "fst a = rpc_ok \<and> length (snd a) = 1")
  case True
  then obtain b where a: "a = (rpc_ok, [b])" by (cases a) (auto simp: length_Suc_conv)
  let ?i = "pr_index p"
  have i: "?i < n" "pr_pos p = pos ?i" "pr_len p = len ?i" "b = T ?i"
    using assms(2,8) a by (auto simp: page_read_ok_def right_answer_def)
  have t: "0 < len ?i" "pos ?i + len ?i \<le> z" "length b = len ?i" using assms(1) i by (auto simp: tiling_def)
  have fits: "pos ?i + length b \<le> length (ps_memory s)" using t assms(4) by simp
  have mem: "take (len j) (drop (pos j) (memory_write (pos ?i) b (ps_memory s))) =
      (if j = ?i then T ?i else take (len j) (drop (pos j) (ps_memory s)))" if "j < n" for j
  proof (cases "j = ?i")
    case True
    then show ?thesis using memory_write_inside [OF fits] t i(4) by simp
  next
    case False
    then have "pos j + len j \<le> pos ?i \<or> pos ?i + length b \<le> pos j"
      using assms(1) t(3) i(1) that by (metis linorder_neqE_nat tiling_def)
    with False memory_write_outside [OF fits] show ?thesis by simp
  qed
  have "rpc_provider_callback env p a s = s\<lparr>ps_memory := memory_write (pos ?i) b (ps_memory s), ps_overrun := False\<rparr>"
    using t assms(4,5) by (simp add: rpc_provider_callback_def a i(2,3))
  then show ?thesis
    using assms(3-7) mem fits by (auto simp: pages_inv_def length_memory_write)
next
  case False
  obtain adv s' where nr: "next_replica env (pr_index p) s = (adv, s')" by (metis surj_pair)
  note same = next_replica_simps [OF nr]
  let ?p = "p\<lparr>pr_call := page_call adv (pr_type p) [pr_key p] (pr_len p)\<rparr>"
  have okp: "page_read_ok env n pos len T ?p" using assms(2) by (auto simp: page_read_ok_def)
  have eq: "rpc_provider_callback env p a s = (if provider_desc_empty adv then s'\<lparr>ps_result := False\<rparr>
      else s'\<lparr>ps_pending := ps_pending s' @ [?p]\<rparr>)"
    using nr unfolding rpc_provider_callback_def if_not_P [OF False] by simp
  show ?thesis
  proof (cases "provider_desc_empty adv")
    case True
    then show ?thesis unfolding eq using assms(3-6) same by (simp add: pages_inv_def)
  next
    case notempty: False
    have "\<forall>i < n. (\<exists>q \<in> set (ps_pending s @ [?p]). pr_index q = i) \<or> \<not> ps_result s \<or>
        take (len i) (drop (pos i) (ps_memory s)) = T i" using assms(7) by auto
    then show ?thesis unfolding eq using notempty assms(3-6) same okp by (simp add: pages_inv_def)
  qed
qed

lemma answer_page_step:
  assumes "ps_pending s \<noteq> []"
  obtains p a s1 where "answer_page env s = rpc_provider_callback env p a s1" "set (ps_pending s) = insert p (set (ps_pending s1))"
    "length (ps_pending s) = Suc (length (ps_pending s1))" "a = managed_answer (rc_buffers (pr_call p)) (en_answer env (ps_log s) (pr_call p))"
    "ps_vadv s1 = ps_vadv s" "ps_memory s1 = ps_memory s" "ps_overrun s1 = ps_overrun s" "ps_result s1 = ps_result s"
proof -
  let ?n = "en_pick env (ps_log s) mod length (ps_pending s)"
  let ?p = "ps_pending s ! ?n"
  let ?a = "managed_answer (rc_buffers (pr_call ?p)) (en_answer env (ps_log s) (pr_call ?p))"
  let ?s = "s\<lparr>ps_pending := take ?n (ps_pending s) @ drop (Suc ?n) (ps_pending s), ps_log := ps_log s @ [Called (pr_call ?p) ?a]\<rparr>"
  have n: "?n < length (ps_pending s)" using assms by simp
  show thesis
  proof (rule that)
    show "answer_page env s = rpc_provider_callback env ?p ?a ?s" by (simp add: answer_page_def answer_call_def Let_def)
    show "set (ps_pending s) = insert ?p (set (ps_pending ?s))" by (subst id_take_nth_drop [OF n]) auto
    show "length (ps_pending s) = Suc (length (ps_pending ?s))"
      using length_remove_nth [OF n] n by (simp del: length_append)
  qed simp_all
qed

lemma answer_page_inv:
  assumes "tiling n pos len z T" "pages_inv env n pos len z T s" "ps_pending s \<noteq> []"
  shows "pages_inv env n pos len z T (answer_page env s)"
proof -
  obtain p a s1 where s1: "answer_page env s = rpc_provider_callback env p a s1" "set (ps_pending s) = insert p (set (ps_pending s1))"
    "a = managed_answer (rc_buffers (pr_call p)) (en_answer env (ps_log s) (pr_call p))"
    "ps_vadv s1 = ps_vadv s" "ps_memory s1 = ps_memory s" "ps_overrun s1 = ps_overrun s" "ps_result s1 = ps_result s"
    using assms(3) by (rule answer_page_step)
  note inv = assms(2) [unfolded pages_inv_def s1(2)]
  show ?thesis unfolding s1(1)
    by (rule page_callback_inv [OF assms(1) _ _ _ _ _ _ s1(3) [symmetric]]) (use inv s1(4-7) in auto)
qed

lemma callback_decreases:
  assumes "pr_index p < length (ps_vadv s)"
  shows "length (ps_pending (rpc_provider_callback env p a s)) + replicas_left (ps_vadv (rpc_provider_callback env p a s))
    \<le> length (ps_pending s) + replicas_left (ps_vadv s)"
proof -
  let ?i = "pr_index p"
  obtain adv rs where t: "try_next (en_rand env (ps_log s) ?i (ps_vadv s ! ?i)) (ps_vadv s ! ?i) = (adv, rs)"
    by (metis surj_pair)
  note u = replicas_left_update [OF assms, of rs] try_next_left [OF t]
  have "provider_desc_empty adv \<or> 0 < length (rs_providers (ps_vadv s ! ?i))" using try_next_empty [OF t] by auto
  then have "provider_desc_empty adv \<or> Suc (replicas_left ((ps_vadv s)[?i := rs])) \<le> replicas_left (ps_vadv s)"
    using u by linarith
  moreover have "replicas_left ((ps_vadv s)[?i := rs]) \<le> replicas_left (ps_vadv s)" using u by linarith
  ultimately show ?thesis
    by (auto simp: rpc_provider_callback_def next_replica_def t)
qed

lemma answer_page_decreases:
  assumes "ps_pending s \<noteq> []" "\<forall>p \<in> set (ps_pending s). pr_index p < length (ps_vadv s)"
  shows "length (ps_pending (answer_page env s)) + replicas_left (ps_vadv (answer_page env s))
    < length (ps_pending s) + replicas_left (ps_vadv s)"
proof -
  obtain p a s1 where s1: "answer_page env s = rpc_provider_callback env p a s1" "set (ps_pending s) = insert p (set (ps_pending s1))"
    "length (ps_pending s) = Suc (length (ps_pending s1))" "ps_vadv s1 = ps_vadv s"
    using assms(1) by (rule answer_page_step)
  then have "pr_index p < length (ps_vadv s1)" using assms(2) by simp
  from callback_decreases [OF this, of env a] show ?thesis by (simp add: s1(1,3,4))
qed

text \<open>The loop ends, and what every step keeps holds at its end.\<close>

lemma run_pages_rule:
  assumes "I s" and "\<And>s. I s \<Longrightarrow> ps_pending s \<noteq> [] \<Longrightarrow> I (answer_page env s)"
    and "\<And>s. I s \<Longrightarrow> \<forall>p \<in> set (ps_pending s). pr_index p < length (ps_vadv s)"
  shows "\<exists>s'. run_pages env s = Some s' \<and> I s' \<and> ps_pending s' = []"
  using assms(1)
proof (induction "length (ps_pending s) + replicas_left (ps_vadv s)" arbitrary: s rule: less_induct)
  case less
  show ?case
  proof (cases "ps_pending s = []")
    case True
    with less.prems show ?thesis by (simp add: run_pages.simps)
  next
    case False
    from less.hyps [OF answer_page_decreases [OF False assms(3) [OF less.prems]] assms(2) [OF less.prems False]]
    show ?thesis by (subst run_pages.simps) (simp add: False)
  qed
qed

section \<open>The arithmetic of a read\<close>

text \<open>The range does not wrap around, and pages and their number are below $2^{32}$.\<close>

definition read_fits :: "u64 \<Rightarrow> u64 \<Rightarrow> u64 \<Rightarrow> bool" where
  "read_fits psize offset sz \<longleftrightarrow>
     0 < psize \<and> 0 < sz \<and> unat offset + unat sz < 2 ^ 64 \<and> unat psize < 2 ^ 32 \<and>
     unat (read_nbr_vadv psize offset sz) < 2 ^ 32"

lemma read_fitsD:
  assumes "read_fits psize offset sz"
  shows "0 < unat psize" "0 < unat sz" "unat offset + unat sz < 2 ^ 64" "unat psize < 2 ^ 32"
    "unat (read_nbr_vadv psize offset sz) < 2 ^ 32"
  using assms by (auto simp: read_fits_def word_less_nat_alt)

abbreviation page_off :: "u64 \<Rightarrow> u64 \<Rightarrow> nat" where
  "page_off psize offset \<equiv> unat offset mod unat psize"

lemma offset_aligned_iff: "offset mod psize = 0 \<longleftrightarrow> page_off psize offset = 0"
  by (simp add: word_unat_eq_iff unat_mod)

lemma unat_end: "read_fits psize offset sz \<Longrightarrow> unat (offset + sz) = unat offset + unat sz"
  by (rule unat_add_nowrap) (rule read_fitsD(3))

lemma unat_end_mod:
  assumes "read_fits psize offset sz"
  shows "unat ((offset + sz) mod psize) = (page_off psize offset + unat sz) mod unat psize"
  by (simp only: unat_mod unat_end [OF assms] mod_add_left_eq)

lemma unat_right_part:
  "read_fits psize offset sz \<Longrightarrow> unat (right_part psize offset sz) = (page_off psize offset + unat sz) mod unat psize"
  by (simp add: right_part_def unat_end_mod)

lemma unat_left_part:
  assumes "read_fits psize offset sz"
  shows "unat (left_part psize offset) = (if page_off psize offset = 0 then 0 else unat psize - page_off psize offset)"
proof -
  have "page_off psize offset < unat psize" using read_fitsD(1) [OF assms] by simp
  then have "unat (psize - offset mod psize) = unat psize - page_off psize offset"
    by (simp add: unat_sub_nowrap word_le_nat_alt unat_mod)
  then show ?thesis using read_fitsD(1) [OF assms] by (simp add: left_part_def unat_mod)
qed

lemma ceil_div_le:
  fixes x P :: nat
  assumes "0 < P"
  shows "x \<le> (x div P + (if x mod P = 0 then 0 else 1)) * P"
proof (cases "x mod P = 0")
  case False
  then have "(x div P + (if x mod P = 0 then 0 else 1)) * P = x div P * P + P" by simp
  moreover have "x div P * P + x mod P = x" "x mod P < P" using assms by simp_all
  ultimately show ?thesis by linarith
qed auto

lemma ceil_div_gt:
  fixes x P :: nat
  assumes "0 < P" "0 < x"
  shows "(x div P + (if x mod P = 0 then 0 else 1) - 1) * P < x"
proof (cases "x mod P = 0")
  case True
  then have "x div P * P = x" by auto
  with True assms show ?thesis by (simp add: diff_mult_distrib)
next
  case False
  moreover have "x div P * P + x mod P = x" by simp
  ultimately have "x div P * P < x" by linarith
  with False show ?thesis by simp
qed

lemma unat_read_nbr:
  assumes "0 < unat psize" "0 < unat sz" "unat offset + unat sz < 2 ^ 64"
  shows "unat (read_nbr_vadv psize offset sz) =
    (page_off psize offset + unat sz) div unat psize + (if (page_off psize offset + unat sz) mod unat psize = 0 then 0 else 1)"
proof -
  let ?P = "unat psize" and ?a = "page_off psize offset" and ?z = "unat sz"
  have end_eq: "unat (offset + sz) = unat offset + ?z" using assms(3) by (rule unat_add_nowrap)
  have new: "unat (read_new_offset psize offset) = unat offset - ?a"
  proof -
    have le: "unat offset div ?P * ?P \<le> unat offset" by (rule div_times_less_eq_dividend)
    then have "unat offset div ?P * ?P < 2 ^ 64" by (rule le_less_trans) (rule unat_u64_bound)
    then show ?thesis
      unfolding read_new_offset_def by (subst unat_mult_nowrap) (simp_all add: unat_div minus_mod_eq_div_mult)
  qed
  have le: "read_new_offset psize offset \<le> sz + offset"
    using new end_eq by (simp add: word_le_nat_alt add.commute)
  have x: "unat (sz + offset - read_new_offset psize offset) = ?a + ?z"
    using new end_eq le by (simp add: unat_sub_nowrap add.commute)
  have d: "unat ((sz + offset - read_new_offset psize offset) div psize) = (?a + ?z) div ?P" by (simp add: unat_div x)
  have m: "(offset + sz) mod psize = 0 \<longleftrightarrow> (?a + ?z) mod ?P = 0"
    by (simp only: word_unat_eq_iff unat_mod end_eq mod_add_left_eq unat_0)
  have "?a \<le> unat offset" by simp
  then have "?a + ?z < 2 ^ 64" using assms(3) by linarith
  moreover have "(?a + ?z) div ?P + (if (?a + ?z) mod ?P = 0 then 0 else 1) \<le> ?a + ?z"
  proof (cases "(?a + ?z) mod ?P = 0")
    case False
    then have "?P \<noteq> 1" by (metis mod_by_1)
    then have "(?a + ?z) div ?P < ?a + ?z" using assms(1,2) by (intro div_less_dividend) linarith+
    with False show ?thesis by simp
  qed simp
  ultimately show ?thesis
    unfolding read_nbr_vadv_def m by (subst unat_add_nowrap) (auto simp: d)
qed

lemma read_cut:
  assumes "read_fits psize offset sz"
  shows "cut (unat psize) (page_off psize offset) (unat sz) (unat (read_nbr_vadv psize offset sz))"
proof -
  let ?P = "unat psize" and ?a = "page_off psize offset" and ?z = "unat sz"
  note f = read_fitsD [OF assms]
  note n = unat_read_nbr [OF f(1-3)]
  have "?a < ?P" using f(1) by simp
  have "?a + ?z \<le> unat (read_nbr_vadv psize offset sz) * ?P"
    unfolding n by (rule ceil_div_le [OF f(1)])
  moreover have "0 < unat (read_nbr_vadv psize offset sz)"
    using calculation f(2) by (cases "unat (read_nbr_vadv psize offset sz)") auto
  moreover have "(unat (read_nbr_vadv psize offset sz) - 1) * ?P < ?a + ?z"
    unfolding n by (rule ceil_div_gt) (use f(1,2) in simp_all)
  ultimately show ?thesis using \<open>?a < ?P\<close> f(2) by (simp add: cut_def)
qed

text \<open>A range within fewer than $2^{32}$ pages of less than $2^{32}$ bytes.\<close>

lemma read_fitsI:
  assumes "0 < psize" "unat psize < 2 ^ 32" "0 < sz" "unat offset + unat sz \<le> n * unat psize" "n < 2 ^ 32"
  shows "read_fits psize offset sz"
proof -
  let ?P = "unat psize" and ?x = "page_off psize offset + unat sz"
  have p: "0 < ?P" "0 < unat sz" using assms(1,3) by (simp_all add: word_less_nat_alt)
  have "n * ?P \<le> (2 ^ 32 - 1) * (2 ^ 32 - 1)" using assms(2,5) by (intro mult_le_mono) simp_all
  then have w: "unat offset + unat sz < 2 ^ 64" using assms(4) by (simp add: le_less_trans)
  have "?x \<le> n * ?P" using assms(4) by (meson add_le_mono1 le_trans mod_less_eq_dividend)
  moreover have "(?x div ?P + (if ?x mod ?P = 0 then 0 else 1) - 1) * ?P < ?x" by (rule ceil_div_gt) (use p in simp_all)
  ultimately have "(?x div ?P + (if ?x mod ?P = 0 then 0 else 1) - 1) * ?P < n * ?P" by linarith
  then have "?x div ?P + (if ?x mod ?P = 0 then 0 else 1) - 1 < n" by (simp only: mult_less_cancel2)
  then have "?x div ?P + (if ?x mod ?P = 0 then 0 else 1) \<le> n" by linarith
  then show ?thesis using assms w unat_read_nbr [OF p w] by (simp add: read_fits_def)
qed

lemma unat_page_pos:
  assumes "read_fits psize offset sz" "i < unat (read_nbr_vadv psize offset sz)"
    and "l = (if page_off psize offset = 0 then 0 else 1)" "l \<le> i"
  shows "unat (left_part psize offset + of_nat (i - l) * psize) = tile_pos (unat psize) (page_off psize offset) i"
proof -
  let ?P = "unat psize" and ?a = "page_off psize offset"
  note f = read_fitsD [OF assms(1)]
  have "?a < ?P" using f(1) by simp
  have lt: "tile_pos ?P ?a i < 2 ^ 64"
    using cut_page(3) [OF read_cut [OF assms(1)] assms(2)] by (meson le_add1 le_less_trans le_trans unat_u64_bound)
  have eq: "(if ?a = 0 then 0 else ?P - ?a) + (i - l) * ?P = tile_pos ?P ?a i"
  proof (cases "?a = 0")
    case True
    then show ?thesis using assms(3) by (simp add: tile_pos_def)
  next
    case False
    then have "l = 1" "1 \<le> i" using assms(3,4) by simp_all
    with False \<open>?a < ?P\<close> show ?thesis by (cases i) (auto simp: tile_pos_def)
  qed
  have i: "unat (of_nat (i - l) :: u64) = i - l"
    using assms(2) unat_u64_bound [of "read_nbr_vadv psize offset sz"] by (intro unat_of_nat_small) linarith
  have m: "unat (of_nat (i - l) * psize) = (i - l) * ?P"
    using unat_mult_nowrap [of "of_nat (i - l)" psize] eq lt unfolding i by linarith
  show ?thesis
    using eq lt by (subst unat_add_nowrap) (simp_all only: m unat_left_part [OF assms(1)])
qed

end
