(* ===== verification/Object_Read.thy ===== *)
theory Object_Read
  imports Page_Range Object_Write
begin

text \<open>
  What a read of the client library returns: the requested bytes of the pages the metadata names,
  whatever the order of the answers, if the providers that answer give the right contents. A partial
  read of a page is not retried.
\<close>

section \<open>Providers that do not lie\<close>

text \<open>
  What the read relies on: a provider that answers with success gives the contents of the page or
  the part of it that was asked for (if this lies in the page), and refuses a partial read without its
  three parameters. The calls meant are those with a buffer for the answer, as only reads of pages have
  (the codes of the requests are those of other servers as well). \<open>Cluster_Read\<close> shows that the
  providers of \<open>Page_Manager\<close> are such.
\<close>

definition honest_page :: "archive \<Rightarrow> env \<Rightarrow> query_t \<Rightarrow> buffer \<Rightarrow> bool" where
  "honest_page ar env key page \<longleftrightarrow>
     (\<forall>log c b. rc_buffers c \<noteq> [] \<and> rc_name c = PROVIDER_READ \<and> rc_params c = [dht_key ar key] \<and> en_answer env log c = (rpc_ok, [b]) \<longrightarrow> b = page) \<and>
     (\<forall>log c off len b. rc_buffers c \<noteq> [] \<and> rc_name c = PROVIDER_READ_PARTIAL \<and>
        rc_params c = [dht_key ar key, buffer_wrapper ar (ar_u64 ar) off, buffer_wrapper ar (ar_u64 ar) len] \<and>
        unat off + unat len \<le> length page \<and> en_answer env log c = (rpc_ok, [b]) \<longrightarrow> b = take (unat len) (drop (unat off) page))"

definition partial_checked :: "env \<Rightarrow> bool" where
  "partial_checked env \<longleftrightarrow>
     (\<forall>log c. rc_buffers c \<noteq> [] \<and> rc_name c = PROVIDER_READ_PARTIAL \<and> length (rc_params c) \<noteq> 3 \<longrightarrow> fst (en_answer env log c) \<noteq> rpc_ok)"

lemma managed_answer_ok: "managed_answer buffers a = (rpc_ok, r) \<Longrightarrow> a = (rpc_ok, r)"
  by (auto simp: managed_answer_def asio_invalid_argument_def rpc_ok_def split: prod.splits option.splits)

lemma page_call_simps [simp]:
  "rc_name (page_call adv t ps l) = t" "rc_params (page_call adv t ps l) = ps" "rc_buffers (page_call adv t ps l) = [replicate l 0]"
  by (simp_all add: page_call_def)

lemma right_whole:
  assumes "honest_page ar env key page"
  shows "right_answer env page (page_call adv PROVIDER_READ [dht_key ar key] l)"
  unfolding right_answer_def
proof (intro allI impI)
  fix log b
  let ?c = "page_call adv PROVIDER_READ [dht_key ar key] l"
  assume "managed_answer (rc_buffers ?c) (en_answer env log ?c) = (rpc_ok, [b])"
  then have "en_answer env log ?c = (rpc_ok, [b])" by (rule managed_answer_ok)
  with assms show "b = page" unfolding honest_page_def by (metis list.distinct(1) page_call_simps)
qed

lemma right_part_of_page:
  assumes "honest_page ar env key page" "unat off + unat m \<le> length page"
  shows "right_answer env (take (unat m) (drop (unat off) page)) (page_call adv PROVIDER_READ_PARTIAL
    [dht_key ar key, buffer_wrapper ar (ar_u64 ar) off, buffer_wrapper ar (ar_u64 ar) m] l)"
  unfolding right_answer_def
proof (intro allI impI)
  fix log b
  let ?c = "page_call adv PROVIDER_READ_PARTIAL [dht_key ar key, buffer_wrapper ar (ar_u64 ar) off, buffer_wrapper ar (ar_u64 ar) m] l"
  assume "managed_answer (rc_buffers ?c) (en_answer env log ?c) = (rpc_ok, [b])"
  then have "en_answer env log ?c = (rpc_ok, [b])" by (rule managed_answer_ok)
  with assms show "b = take (unat m) (drop (unat off) page)" unfolding honest_page_def by (metis list.distinct(1) page_call_simps)
qed

lemma whole_page_ok:
  assumes "honest_page ar env key (T i)" "i < n" "unat ps = pos i" "unat (ucast ln :: u32) = len i"
  shows "page_read_ok env n pos len T \<lparr>pr_index = i, pr_type = PROVIDER_READ, pr_key = last [dht_key ar key], pr_pos = unat ps,
    pr_len = unat (ucast ln :: u32), pr_call = page_call adv PROVIDER_READ [dht_key ar key] (unat (ucast ln :: u32))\<rparr>"
  using assms right_whole [OF assms(1)] by (simp add: page_read_ok_def)

lemma part_page_ok:
  assumes "honest_page ar env key page" "partial_checked env" "unat off + unat m \<le> length page" "T i = take (unat m) (drop (unat off) page)"
    and "i < n" "unat ps = pos i" "unat (ucast ln :: u32) = len i"
    and "params = [dht_key ar key, buffer_wrapper ar (ar_u64 ar) off, buffer_wrapper ar (ar_u64 ar) m]"
  shows "page_read_ok env n pos len T \<lparr>pr_index = i, pr_type = PROVIDER_READ_PARTIAL, pr_key = last params, pr_pos = unat ps,
    pr_len = unat (ucast ln :: u32), pr_call = page_call adv PROVIDER_READ_PARTIAL params (unat (ucast ln :: u32))\<rparr>"
proof -
  have "\<not> (fst (en_answer env log (page_call adv PROVIDER_READ_PARTIAL [x] l)) = rpc_ok)" for log adv x l
    using assms(2) by (simp add: partial_checked_def)
  then have retry: "right_answer env (T i) (page_call adv PROVIDER_READ_PARTIAL [x] l)" for adv x l
    by (auto simp: right_answer_def dest!: managed_answer_ok) (metis fst_conv)
  have "right_answer env (T i) (page_call adv PROVIDER_READ_PARTIAL params l)" for l
    using right_part_of_page [OF assms(1,3)] by (simp add: assms(4,8))
  with retry assms(5-7) show ?thesis by (simp add: page_read_ok_def)
qed

section \<open>The calls a read dispatches\<close>

definition staged ::
  "env \<Rightarrow> nat \<Rightarrow> (nat \<Rightarrow> nat) \<Rightarrow> (nat \<Rightarrow> nat) \<Rightarrow> (nat \<Rightarrow> buffer) \<Rightarrow> pages_state \<Rightarrow> nat set \<Rightarrow> pages_state \<Rightarrow> bool" where
  "staged env n pos len T s0 A s \<longleftrightarrow>
     (\<forall>p \<in> set (ps_pending s). page_read_ok env n pos len T p) \<and> pr_index ` set (ps_pending s) = A \<and>
     map rs_page_key (ps_vadv s) = map rs_page_key (ps_vadv s0) \<and> ps_memory s = ps_memory s0 \<and>
     ps_overrun s = ps_overrun s0 \<and> ps_result s = ps_result s0"

lemma staged_length: "staged env n pos len T s0 A s \<Longrightarrow> length (ps_vadv s) = length (ps_vadv s0)"
  by (metis length_map staged_def)

lemma staged_key:
  assumes "staged env n pos len T s0 A s" "i < length (ps_vadv s0)"
  shows "page_key_of ar s i = dht_key ar (rs_page_key (ps_vadv s0 ! i))"
  using assms nth_map [of i "ps_vadv s" rs_page_key] nth_map [of i "ps_vadv s0" rs_page_key] staged_length [OF assms(1)]
  by (simp add: staged_def page_key_of_def get_page_key_def)

lemma dispatch_page_staged:
  assumes "staged env n pos len T s0 A s" "dispatch_page env i t params ps ln s = Some s'"
    and "\<And>adv. page_read_ok env n pos len T \<lparr>pr_index = i, pr_type = t, pr_key = last params, pr_pos = unat ps,
      pr_len = unat (ucast ln :: u32), pr_call = page_call adv t params (unat (ucast ln :: u32))\<rparr>"
  shows "staged env n pos len T s0 (insert i A) s'"
proof -
  obtain adv s1 where nr: "next_replica env i s = (adv, s1)" by (metis surj_pair)
  note same = next_replica_simps [OF nr]
  let ?l = "unat (ucast ln :: u32)"
  have "s' = s1\<lparr>ps_pending := ps_pending s1 @ [\<lparr>pr_index = i, pr_type = t, pr_key = last params, pr_pos = unat ps, pr_len = ?l,
      pr_call = page_call adv t params ?l\<rparr>]\<rparr>"
    using assms(2) nr by (auto simp: dispatch_page_def Let_def split: if_splits)
  then show ?thesis using assms(1,3) same by (auto simp: staged_def)
qed

lemma dispatch_aligned_staged:
  assumes "dispatch_aligned ar env psize offset l is s = Inr s'" "staged env n pos len T s0 A s" "length (ps_vadv s0) = n"
    and "\<And>i. i \<in> set is \<Longrightarrow> i < n \<and> honest_page ar env (rs_page_key (ps_vadv s0 ! i)) (T i) \<and>
      unat (left_part psize offset + of_nat (i - l) * psize) = pos i \<and> unat (ucast psize :: u32) = len i"
  shows "staged env n pos len T s0 (A \<union> set is) s'"
  using assms(1,2,4)
proof (induction "is" arbitrary: A s)
  case (Cons i "is")
  let ?pos = "left_part psize offset + of_nat (i - l) * psize"
  obtain s1 where d: "dispatch_page env i PROVIDER_READ [page_key_of ar s i] ?pos psize s = Some s1"
    "dispatch_aligned ar env psize offset l is s1 = Inr s'"
    using Cons.prems(1) by (auto split: option.splits)
  have i: "i < n" "honest_page ar env (rs_page_key (ps_vadv s0 ! i)) (T i)" "unat ?pos = pos i" "unat (ucast psize :: u32) = len i"
    using Cons.prems(3) [of i] by simp_all
  have "staged env n pos len T s0 (insert i A) s1"
    by (rule dispatch_page_staged [OF Cons.prems(2) d(1)])
      (unfold staged_key [OF Cons.prems(2) i(1) [folded assms(3)]], rule whole_page_ok, use i in simp_all)
  from Cons.IH [OF d(2) this] Cons.prems(3) show ?case by simp
qed simp

lemma staged_pages_inv:
  assumes "staged env n pos len T s0 {0..<n} s" "length (ps_vadv s0) = n" "length (ps_memory s0) = z" "\<not> ps_overrun s0"
  shows "pages_inv env n pos len z T s"
proof -
  have "\<exists>p \<in> set (ps_pending s). pr_index p = i" if "i < n" for i
  proof -
    have "i \<in> pr_index ` set (ps_pending s)" using assms(1) that by (simp add: staged_def)
    then show ?thesis by auto
  qed
  then show ?thesis using assms staged_length [OF assms(1)] by (simp add: pages_inv_def staged_def)
qed

text \<open>
  The setting of a read: \<open>n\<close> pages of \<open>P\<close> bytes with the contents \<open>pages\<close>, known to honest
  providers under the keys in \<open>s0\<close>.
\<close>

definition read_setting :: "archive \<Rightarrow> env \<Rightarrow> u64 \<Rightarrow> u64 \<Rightarrow> u64 \<Rightarrow> buffer list \<Rightarrow> pages_state \<Rightarrow> bool" where
  "read_setting ar env psize offset sz pages s0 \<longleftrightarrow>
     read_fits psize offset sz \<and> length pages = unat (read_nbr_vadv psize offset sz) \<and> length (ps_vadv s0) = length pages \<and>
     (\<forall>p \<in> set pages. length p = unat psize) \<and> partial_checked env \<and>
     (\<forall>i < length pages. honest_page ar env (rs_page_key (ps_vadv s0 ! i)) (pages ! i)) \<and>
     ps_pending s0 = [] \<and> \<not> ps_overrun s0 \<and> ps_result s0 \<and> length (ps_memory s0) = unat sz"

abbreviation read_staged where
  "read_staged env psize offset sz pages \<equiv> staged env (length pages) (tile_pos (unat psize) (page_off psize offset))
     (tile_len (unat psize) (page_off psize offset) (unat sz)) (tile (unat psize) (page_off psize offset) (unat sz) pages)"

lemma settingD:
  assumes "read_setting ar env psize offset sz pages s0"
  shows "read_fits psize offset sz" "length pages = unat (read_nbr_vadv psize offset sz)" "length (ps_vadv s0) = length pages"
    "\<And>i. i < length pages \<Longrightarrow> length (pages ! i) = unat psize" "partial_checked env"
    "\<And>i. i < length pages \<Longrightarrow> honest_page ar env (rs_page_key (ps_vadv s0 ! i)) (pages ! i)"
    "ps_pending s0 = []" "\<not> ps_overrun s0" "ps_result s0" "length (ps_memory s0) = unat sz"
    "cut (unat psize) (page_off psize offset) (unat sz) (length pages)" "length pages < 2 ^ 32"
  using assms read_cut [of psize offset sz] read_fitsD(5) [of psize offset sz] by (auto simp: read_setting_def)

lemma ucast_small: "unat (w :: u64) < 2 ^ 32 \<Longrightarrow> unat (ucast w :: u32) = unat w"
  by (simp add: unsigned_ucast_eq take_bit_nat_eq_self)

lemma tile_len_small:
  assumes "read_setting ar env psize offset sz pages s0" "i < length pages"
  shows "tile_len (unat psize) (page_off psize offset) (unat sz) i < 2 ^ 32"
  using cut_page(4) [OF settingD(11) [OF assms(1)] assms(2)] read_fitsD(4) [OF settingD(1) [OF assms(1)]] by linarith

lemma dispatch_left_staged:
  assumes "read_setting ar env psize offset sz pages s0" "page_off psize offset \<noteq> 0"
    and "dispatch_left ar env psize offset sz s0 = Some s1"
  shows "read_staged env psize offset sz pages s0 {0} s1"
proof -
  note st = settingD [OF assms(1)]
  let ?P = "unat psize" and ?a = "page_off psize offset" and ?z = "unat sz"
  let ?lp = "left_part psize offset"
  let ?m = "if ?lp < sz then ?lp else sz"
  let ?params = "[page_key_of ar s0 0, buffer_wrapper ar (ar_u64 ar) (psize - ?lp), buffer_wrapper ar (ar_u64 ar) ?m]"
  have n: "0 < length pages" using st(11) by (simp add: cut_def)
  have s0: "read_staged env psize offset sz pages s0 {} s0" by (simp add: staged_def st(7))
  have aP: "?a < ?P" using read_fitsD(1) [OF st(1)] by simp
  have lp: "unat ?lp = ?P - ?a" using unat_left_part [OF st(1)] assms(2) by simp
  have m: "unat ?m = tile_len ?P ?a ?z 0"
    using lp aP by (auto simp: tile_len_def tile_lo_def word_less_nat_alt min_def)
  have "?lp \<le> psize" using lp aP by (simp add: word_le_nat_alt)
  then have off: "unat (psize - ?lp) = ?a" using lp aP by (simp add: unat_sub_nowrap)
  have t: "tile ?P ?a ?z pages 0 = take (unat ?m) (drop (unat (psize - ?lp)) (pages ! 0))"
    unfolding m off by (simp add: tile_def tile_lo_def)
  have "read_staged env psize offset sz pages s0 (insert 0 {}) s1"
  proof (rule dispatch_page_staged [OF s0, of 0 PROVIDER_READ_PARTIAL ?params 0 ?m])
    show "dispatch_page env 0 PROVIDER_READ_PARTIAL ?params 0 ?m s0 = Some s1"
      using assms(3) by (simp add: dispatch_left_def Let_def)
    fix adv
    show "page_read_ok env (length pages) (tile_pos ?P ?a) (tile_len ?P ?a ?z) (tile ?P ?a ?z pages)
       \<lparr>pr_index = 0, pr_type = PROVIDER_READ_PARTIAL, pr_key = last ?params, pr_pos = unat (0 :: u64),
        pr_len = unat (ucast ?m :: u32), pr_call = page_call adv PROVIDER_READ_PARTIAL ?params (unat (ucast ?m :: u32))\<rparr>"
    proof (rule part_page_ok [OF st(6) [OF n] st(5)])
      show "unat (psize - ?lp) + unat ?m \<le> length (pages ! 0)" using aP st(4) [OF n] by (simp add: off m tile_len_def tile_lo_def)
      show "tile ?P ?a ?z pages 0 = take (unat ?m) (drop (unat (psize - ?lp)) (pages ! 0))" by (rule t)
      show "0 < length pages" by (rule n)
      show "unat (0 :: u64) = tile_pos ?P ?a 0" by (simp add: tile_pos_def)
      show "unat (ucast ?m :: u32) = tile_len ?P ?a ?z 0"
        using ucast_small [of ?m] tile_len_small [OF assms(1) n] m by simp
    qed (simp add: page_key_of_def get_page_key_def)
  qed
  then show ?thesis by simp
qed

lemma dispatch_right_staged:
  assumes "read_setting ar env psize offset sz pages s0" "read_staged env psize offset sz pages s0 A s"
    and "l = (if page_off psize offset = 0 then 0 else 1)" "r = of_nat (length pages) - 1"
    and "(offset + sz) mod psize \<noteq> 0 \<and> 1 < length pages \<or> page_off psize offset = 0 \<and> unat sz < unat psize"
    and "dispatch_right ar env psize offset sz l r s = Some s1"
  shows "read_staged env psize offset sz pages s0 (insert (length pages - 1) A) s1"
proof -
  note st = settingD [OF assms(1)]
  let ?P = "unat psize" and ?a = "page_off psize offset" and ?z = "unat sz" and ?n = "length pages"
  let ?i = "?n - 1"
  let ?rp = "right_part psize offset sz"
  let ?pos = "left_part psize offset + ucast (r - l) * psize"
  let ?params = "[page_key_of ar s ?i, buffer_wrapper ar (ar_u64 ar) 0, buffer_wrapper ar (ar_u64 ar) ?rp]"
  have n: "0 < ?n" "?n < 2 ^ 32" using st(11,12) by (simp_all add: cut_def)
  then have i: "?i < ?n" by simp
  have rn: "unat (of_nat ?n :: u32) = ?n" using n(2) by (simp add: unat_of_nat)
  then have r: "unat r = ?i" using n(1) by (simp add: assms(4) unat_sub_if' Suc_le_eq)
  have li: "unat l \<le> ?i" using assms(3,5) by (auto split: if_splits)
  have "unat (r - l) = ?i - unat l" using r li by (simp add: unat_sub_if')
  then have rl: "(ucast (r - l) :: u64) = of_nat (?i - unat l)"
    using n(2) by (simp add: word_unat_eq_iff unat_ucast_u32 unat_of_nat)
  have pos: "unat ?pos = tile_pos ?P ?a ?i"
    unfolding rl by (rule unat_page_pos [OF st(1)]) (use i st(2) li assms(3) in \<open>auto split: if_splits\<close>)
  have c: "0 < ?P" "(?n - 1) * ?P < ?a + ?z" "?a + ?z \<le> ?n * ?P" "?a < ?P"
    using st(11) by (simp_all add: cut_def)
  have lo: "tile_lo ?a ?i = 0" using assms(5) by (auto simp: tile_lo_def)
  have mod: "(?a + ?z) mod ?P \<noteq> 0"
  proof
    assume 0: "(?a + ?z) mod ?P = 0"
    then have "(offset + sz) mod psize = 0" using unat_end_mod [OF st(1)] by (simp add: word_unat_eq_iff)
    with assms(5) have "?a = 0" "?z < ?P" by auto
    with 0 read_fitsD(2) [OF st(1)] show False by simp
  qed
  have nP: "?n * ?P = (?n - 1) * ?P + ?P" using n(1) by (cases ?n) simp_all
  have len: "unat ?rp = tile_len ?P ?a ?z ?i"
  proof -
    have "?a + ?z - (?n - 1) * ?P \<noteq> ?P" using mod c nP by (metis add_diff_inverse_nat mod_mult_self2_is_0 mult.commute not_less_iff_gr_or_eq)
    then have "?a + ?z - (?n - 1) * ?P < ?P" using c nP by linarith
    moreover have "(?a + ?z) mod ?P = (?a + ?z - (?n - 1) * ?P) mod ?P"
      using c(2) by (metis le_add_diff_inverse less_imp_le mod_mult_self3)
    ultimately have "(?a + ?z) mod ?P = ?a + ?z - (?n - 1) * ?P" by simp
    then show ?thesis using unat_right_part [OF st(1)] \<open>?a + ?z - (?n - 1) * ?P < ?P\<close> by (simp add: tile_len_def lo [simplified])
  qed
  have t: "tile ?P ?a ?z pages ?i = take (unat ?rp) (drop (unat (0 :: u64)) (pages ! ?i))"
    by (simp add: tile_def lo [simplified] len)
  show ?thesis
  proof (rule dispatch_page_staged [OF assms(2), of ?i PROVIDER_READ_PARTIAL ?params ?pos ?rp])
    show "dispatch_page env ?i PROVIDER_READ_PARTIAL ?params ?pos ?rp s = Some s1"
      using assms(6) by (simp add: dispatch_right_def r)
    fix adv
    show "page_read_ok env ?n (tile_pos ?P ?a) (tile_len ?P ?a ?z) (tile ?P ?a ?z pages)
       \<lparr>pr_index = ?i, pr_type = PROVIDER_READ_PARTIAL, pr_key = last ?params, pr_pos = unat ?pos,
        pr_len = unat (ucast ?rp :: u32), pr_call = page_call adv PROVIDER_READ_PARTIAL ?params (unat (ucast ?rp :: u32))\<rparr>"
    proof (rule part_page_ok [OF st(6) [OF i] st(5)])
      show "unat (0 :: u64) + unat ?rp \<le> length (pages ! ?i)" using st(4) [OF i] by (simp add: len tile_len_def)
      show "tile ?P ?a ?z pages ?i = take (unat ?rp) (drop (unat (0 :: u64)) (pages ! ?i))" by (rule t)
      show "?i < ?n" by (rule i)
      show "unat ?pos = tile_pos ?P ?a ?i" by (rule pos)
      show "unat (ucast ?rp :: u32) = tile_len ?P ?a ?z ?i"
        using ucast_small [of ?rp] tile_len_small [OF assms(1) i] len by simp
      show "?params = [dht_key ar (rs_page_key (ps_vadv s0 ! ?i)), buffer_wrapper ar (ar_u64 ar) 0, buffer_wrapper ar (ar_u64 ar) ?rp]"
        using staged_key [OF assms(2)] i st(3) by simp
    qed
  qed
qed

lemma aligned_tile:
  assumes "read_setting ar env psize offset sz pages s0" "l \<le> i" "l = (if page_off psize offset = 0 then 0 else 1)"
    and "Suc i * unat psize \<le> page_off psize offset + unat sz" "i < length pages"
  shows "tile (unat psize) (page_off psize offset) (unat sz) pages i = pages ! i"
    "tile_len (unat psize) (page_off psize offset) (unat sz) i = unat psize"
proof -
  have lo: "tile_lo (page_off psize offset) i = 0" using assms(2,3) by (auto simp: tile_lo_def split: if_splits)
  have "unat psize \<le> page_off psize offset + unat sz - i * unat psize" using assms(4) unfolding mult_Suc by linarith
  then show len: "tile_len (unat psize) (page_off psize offset) (unat sz) i = unat psize" by (simp add: tile_len_def lo)
  show "tile (unat psize) (page_off psize offset) (unat sz) pages i = pages ! i"
    using settingD(4) [OF assms(1,5)] by (simp add: tile_def len lo)
qed

lemma dispatch_aligned_memory:
  "dispatch_aligned ar env psize offset l is s = Inl s' \<Longrightarrow> ps_memory s' = ps_memory s"
proof (induction "is" arbitrary: s)
  case (Cons i "is")
  have keep: "ps_memory s1 = ps_memory s" if "dispatch_page env i t ps p ln s = Some s1" for t ps p ln s1
    using that by (auto simp: dispatch_page_def Let_def split: prod.splits if_splits dest: next_replica_simps(3))
  show ?case using Cons.prems Cons.IH keep by (auto split: option.splits)
qed simp

lemma read_aligned_staged:
  assumes "read_setting ar env psize offset sz pages s0" "read_staged env psize offset sz pages s0 A s"
    and "unat l = (if page_off psize offset = 0 then 0 else 1)" "A \<union> {unat l..<unat r} = {0..<length pages}"
    and "unat r * unat psize \<le> page_off psize offset + unat sz"
  obtains (early) s1 where "read_aligned ar env psize offset l r s = (early_return s1, ps_memory s1, ps_log s1)" "ps_memory s1 = ps_memory s0"
  | (run) s1 where "read_aligned ar env psize offset l r s = run_read env s1" "read_staged env psize offset sz pages s0 {0..<length pages} s1"
proof -
  note st = settingD [OF assms(1)]
  let ?P = "unat psize" and ?a = "page_off psize offset" and ?z = "unat sz"
  have each: "i < length pages \<and> honest_page ar env (rs_page_key (ps_vadv s0 ! i)) (tile ?P ?a ?z pages i) \<and>
      unat (left_part psize offset + of_nat (i - unat l) * psize) = tile_pos ?P ?a i \<and> unat (ucast psize :: u32) = tile_len ?P ?a ?z i"
    if "i \<in> set [unat l..<unat r]" for i
  proof -
    have "i \<in> {unat l..<unat r}" using that by simp
    then have i: "i < length pages" using assms(4) by (metis UnI2 atLeastLessThan_iff)
    have "Suc i * ?P \<le> unat r * ?P" using that by (intro mult_le_mono1) simp
    then have "Suc i * ?P \<le> ?a + ?z" using assms(5) by (rule le_trans)
    note al = aligned_tile [OF assms(1) _ assms(3) this i]
    show ?thesis
      using i st(6) [OF i] al that unat_page_pos [OF st(1), of i "unat l"] st(2) assms(3) ucast_small [OF read_fitsD(4) [OF st(1)]]
      by simp
  qed
  show thesis
  proof (cases "dispatch_aligned ar env psize offset (unat l) [unat l..<unat r] s")
    case (Inl s1)
    have "ps_memory s1 = ps_memory s0" using dispatch_aligned_memory [OF Inl] assms(2) by (simp add: staged_def)
    with Inl show thesis by (intro early [of s1]) (simp_all add: read_aligned_def)
  next
    case (Inr s1)
    from dispatch_aligned_staged [OF Inr assms(2) st(3) each]
    have "read_staged env psize offset sz pages s0 {0..<length pages} s1" using assms(4) by simp
    with Inr show thesis by (intro run [of s1]) (simp_all add: read_aligned_def)
  qed
qed

lemma read_right_staged:
  assumes "read_setting ar env psize offset sz pages s0" "read_staged env psize offset sz pages s0 A s"
    and "l = (if page_off psize offset = 0 then 0 else 1)" "A = (if page_off psize offset = 0 then {} else {0})"
  obtains (early) s1 where "read_right ar env psize offset sz l s = (early_return s1, ps_memory s1, ps_log s1)" "ps_memory s1 = ps_memory s0"
  | (run) s1 where "read_right ar env psize offset sz l s = run_read env s1" "read_staged env psize offset sz pages s0 {0..<length pages} s1"
proof -
  note st = settingD [OF assms(1)]
  let ?P = "unat psize" and ?a = "page_off psize offset" and ?z = "unat sz" and ?n = "length pages"
  let ?r = "of_nat ?n :: u32"
  have n: "0 < ?n" "?n < 2 ^ 32" using st(11,12) by (simp_all add: cut_def)
  have rn: "unat ?r = ?n" using n(2) by (simp add: unat_of_nat)
  have r1: "unat (?r - 1) = ?n - 1" using n(1) rn by (simp add: unat_sub_if' Suc_le_eq)
  have lv: "length (ps_vadv s) = ?n" using staged_length [OF assms(2)] st(3) by simp
  have l: "unat l = (if ?a = 0 then 0 else 1)" by (simp add: assms(3))
  have c: "(?n - 1) * ?P < ?a + ?z" "?a + ?z \<le> ?n * ?P" "?a < ?P" "0 < ?P" using st(11) by (auto simp: cut_def)
  have nP: "?n * ?P = (?n - 1) * ?P + ?P" using n(1) by (cases ?n) simp_all
  let ?cond = "(offset + sz) mod psize \<noteq> 0 \<and> 1 < ?n \<or> ?a = 0 \<and> ?z < ?P"
  have cond: "((offset + sz) mod psize \<noteq> 0 \<and> 1 < ?r \<or> offset mod psize = 0 \<and> sz < psize) \<longleftrightarrow> ?cond"
    using rn by (simp add: offset_aligned_iff word_less_nat_alt)
  note out_early = early and out_run = run
  show thesis
  proof (cases ?cond)
    case True
    have lt: "\<not> ?n \<le> ?n - 1" using n(1) by linarith
    have eq: "read_right ar env psize offset sz l s = (case dispatch_right ar env psize offset sz l (?r - 1) s of
         None \<Rightarrow> (early_return s, ps_memory s, ps_log s) | Some s \<Rightarrow> read_aligned ar env psize offset l (?r - 1) s)"
      unfolding read_right_def Let_def lv cond r1 if_P [OF True] if_not_P [OF lt] by (rule refl)
    show thesis
    proof (cases "dispatch_right ar env psize offset sz l (?r - 1) s")
      case None
      then show thesis using assms(2) by (intro early [of s]) (simp_all add: eq staged_def)
    next
      case (Some s1)
      from dispatch_right_staged [OF assms(1,2,3) refl True Some]
      have s1: "read_staged env psize offset sz pages s0 (insert (?n - 1) A) s1" .
      have "insert (?n - 1) A \<union> {unat l..<unat (?r - 1)} = {0..<?n}"
        using n(1) True unfolding r1 l assms(4) by (cases "?a = 0") auto
      moreover have "unat (?r - 1) * ?P \<le> ?a + ?z" using c(1) unfolding r1 by simp
      ultimately show thesis
        by (rule read_aligned_staged [OF assms(1) s1 l]) (use early run Some in \<open>simp_all add: eq\<close>)
    qed
  next
    case False
    have eq: "read_right ar env psize offset sz l s = read_aligned ar env psize offset l ?r s"
      unfolding read_right_def Let_def lv cond if_not_P [OF False] by (rule refl)
    show thesis
    proof (cases "(?a + ?z) mod ?P = 0")
      case True
      have "?a + ?z = ?n * ?P"
      proof (rule ccontr)
        assume "?a + ?z \<noteq> ?n * ?P"
        then have "0 < ?a + ?z - (?n - 1) * ?P" "?a + ?z - (?n - 1) * ?P < ?P" using c nP by linarith+
        moreover have "(?a + ?z) mod ?P = (?a + ?z - (?n - 1) * ?P) mod ?P"
          using c(1) by (metis le_add_diff_inverse less_imp_le mod_mult_self3)
        ultimately show False using True by simp
      qed
      then have "unat ?r * ?P \<le> ?a + ?z" unfolding rn by simp
      moreover have "A \<union> {unat l..<unat ?r} = {0..<?n}" using n(1) unfolding rn l assms(4) by (cases "?a = 0") auto
      ultimately have "A \<union> {unat l..<unat ?r} = {0..<?n}" "unat ?r * ?P \<le> ?a + ?z" by simp_all
      with assms(1,2) l show thesis
      proof (cases rule: read_aligned_staged)
        case (early s1)
        then show thesis by (intro out_early [of s1]) (simp_all only: eq)
      next
        case (run s1)
        then show thesis by (intro out_run [of s1]) (simp_all only: eq)
      qed
    next
      case mod: False
      then have "(offset + sz) mod psize \<noteq> 0" using unat_end_mod [OF st(1)] by (auto simp: word_unat_eq_iff)
      with False n(1) have n1: "?n = 1" by linarith
      have "?a \<noteq> 0"
      proof
        assume "?a = 0"
        with False c(2) n1 have "?a + ?z = ?P" by simp
        with mod show False by simp
      qed
      then have l1: "l = 1" and A: "A = {0}" by (simp_all add: assms(3,4))
      have "read_aligned ar env psize offset l ?r s = run_read env s" using n1 by (simp add: read_aligned_def l1)
      with assms(2) A n1 show thesis by (intro run [of s]) (simp_all add: eq)
    qed
  qed
qed

lemma read_pages_staged:
  assumes "read_setting ar env psize offset sz pages s0"
  obtains (early) s1 where "read_pages ar env psize offset sz s0 = (early_return s1, ps_memory s1, ps_log s1)" "ps_memory s1 = ps_memory s0"
  | (run) s1 where "read_pages ar env psize offset sz s0 = run_read env s1" "read_staged env psize offset sz pages s0 {0..<length pages} s1"
proof (cases "page_off psize offset = 0")
  case True
  then have eq: "read_pages ar env psize offset sz s0 = read_right ar env psize offset sz 0 s0"
    by (simp add: read_pages_def offset_aligned_iff)
  have "read_staged env psize offset sz pages s0 {} s0" by (simp add: staged_def settingD(7) [OF assms])
  then show thesis
    by (rule read_right_staged [OF assms, of "{}" s0 0]) (use True early run in \<open>simp_all add: eq\<close>)
next
  case False
  have "ps_vadv s0 \<noteq> []" using settingD(3,11) [OF assms] by (auto simp: cut_def)
  with False have eq: "read_pages ar env psize offset sz s0 = (case dispatch_left ar env psize offset sz s0 of
      None \<Rightarrow> (early_return s0, ps_memory s0, ps_log s0) | Some s \<Rightarrow> read_right ar env psize offset sz 1 s)"
    by (simp add: read_pages_def offset_aligned_iff)
  show thesis
  proof (cases "dispatch_left ar env psize offset sz s0")
    case None
    then show thesis by (intro early [of s0]) (simp_all add: eq)
  next
    case (Some s1)
    from dispatch_left_staged [OF assms False Some] show thesis
      by (rule read_right_staged [OF assms, of "{0}" s1 1]) (use False early run Some in \<open>simp_all add: eq\<close>)
  qed
qed

section \<open>What a read returns\<close>

lemma setting_tiling:
  assumes "read_setting ar env psize offset sz pages s0"
  shows "tiling (length pages) (tile_pos (unat psize) (page_off psize offset))
     (tile_len (unat psize) (page_off psize offset) (unat sz)) (unat sz) (tile (unat psize) (page_off psize offset) (unat sz) pages)"
  using cut_page [OF settingD(11) [OF assms]] tiles_disjoint [OF settingD(11) [OF assms]]
    length_tile [OF settingD(11) [OF assms]] settingD(4) [OF assms]
  by (auto simp: tiling_def)

lemma pages_inv_index: "pages_inv env n pos len z T s \<Longrightarrow> \<forall>p \<in> set (ps_pending s). pr_index p < length (ps_vadv s)"
  by (simp add: pages_inv_def page_read_ok_def)

lemma run_pages_total:
  assumes "tiling n pos len z T" "pages_inv env n pos len z T s"
  shows "\<exists>s'. run_pages env s = Some s' \<and> pages_inv env n pos len z T s' \<and> ps_pending s' = []"
  by (rule run_pages_rule [OF assms(2) answer_page_inv [OF assms(1)] pages_inv_index])

lemma run_read_right:
  assumes "read_setting ar env psize offset sz pages s0" "read_staged env psize offset sz pages s0 {0..<length pages} s"
    and "run_read env s = (Ret True, mem, log)"
  shows "mem = take (unat sz) (drop (page_off psize offset) (concat pages))"
proof -
  note st = settingD [OF assms(1)]
  let ?I = "pages_inv env (length pages) (tile_pos (unat psize) (page_off psize offset))
     (tile_len (unat psize) (page_off psize offset) (unat sz)) (unat sz) (tile (unat psize) (page_off psize offset) (unat sz) pages)"
  have "?I s" by (rule staged_pages_inv [OF assms(2) st(3,10,8)])
  from run_pages_total [OF setting_tiling [OF assms(1)] this]
  obtain s' where s': "run_pages env s = Some s'" "?I s'" "ps_pending s' = []" by blast
  then have mem: "mem = ps_memory s'" "ps_result s'" using assms(3) by (auto simp: run_read_def split: if_splits)
  have "ps_memory s' = take (unat sz) (drop (page_off psize offset) (concat pages))"
    by (rule tiles_make_range [OF st(11) refl]) (use s'(2,3) mem(2) assms(1) in \<open>auto simp: pages_inv_def read_setting_def\<close>)
  then show ?thesis by (simp add: mem)
qed

lemma early_not_true: "early_return s \<noteq> Ret True"
  by (simp add: early_return_def)

lemma read_pages_right:
  assumes "read_setting ar env psize offset sz pages s0" "read_pages ar env psize offset sz s0 = (Ret True, mem, log)"
  shows "mem = take (unat sz) (drop (page_off psize offset) (concat pages))"
  using assms(1)
proof (cases rule: read_pages_staged)
  case (early s1)
  with assms(2) early_not_true [of s1] show ?thesis by auto
next
  case (run s1)
  with assms run_read_right show ?thesis by metis
qed

lemma deliver_length:
  "deliver ar g rng ps req s = Some s' \<Longrightarrow> length (rd_leaves s') = length (rd_leaves s)"
  by (auto simp: deliver_def read_callback_def leaf_callback_def Let_def
      split: read_request.splits if_splits option.splits prod.splits)

lemma run_reads_length:
  assumes "run_reads ar g rng ps pick s = Some s'"
  shows "length (rd_leaves s') = length (rd_leaves s)"
proof (rule run_reads.raw_induct [of "\<lambda>ar g rng ps pick s y. length (rd_leaves y) = length (rd_leaves s)", OF _ assms])
  fix run ar g rng ps pick s y
  assume IH: "\<And>ar g rng ps pick s y. run ar g rng ps pick s = Some y \<Longrightarrow> length (rd_leaves y) = length (rd_leaves s)"
    and body: "(if rd_pending s = [] then Some s
      else let n = pick s mod length (rd_pending s)
           in case deliver ar g rng ps (rd_pending s ! n)
                    (s\<lparr>rd_pending := take n (rd_pending s) @ drop (Suc n) (rd_pending s)\<rparr>) of
              None \<Rightarrow> None | Some s' \<Rightarrow> run ar g rng ps pick s') = Some y"
  show "length (rd_leaves y) = length (rd_leaves s)"
  proof (cases "rd_pending s = []")
    case False
    let ?n = "pick s mod length (rd_pending s)"
    let ?s = "s\<lparr>rd_pending := take ?n (rd_pending s) @ drop (Suc ?n) (rd_pending s)\<rparr>"
    obtain s1 where s1: "deliver ar g rng ps (rd_pending s ! ?n) ?s = Some s1" "run ar g rng ps pick s1 = Some y"
      using body False by (auto simp: Let_def split: option.splits)
    show ?thesis using IH [OF s1(2)] deliver_length [OF s1(1)] by simp
  qed (use body in simp)
qed

lemma read_metadata_length:
  "read_metadata ar env root offset sz log = Some (ok, vadv) \<Longrightarrow> length vadv = unat (read_nbr_vadv (rt_page_size root) offset sz)"
  using run_reads_length by (fastforce simp: read_metadata_def readRecordLocations_def Let_def bind_eq_Some_conv)

definition first_state :: "random_select list \<Rightarrow> buffer \<Rightarrow> oh_log \<Rightarrow> pages_state" where
  "first_state vadv mem log =
     \<lparr>ps_pending = [], ps_vadv = vadv, ps_result = True, ps_memory = mem, ps_overrun = False, ps_log = log\<rparr>"

lemma oh_read_pages:
  assumes "query_root_of ar env version oh log = (True, root, oh1, log1)" "read_guard root version offset sz = None"
    and "read_metadata ar env root offset sz log1 = Some (True, vadv)"
  shows "oh_read ar env offset sz mem version oh log =
    (case read_pages ar env (rt_page_size root) offset sz (first_state vadv mem log1) of (r, mem, log) \<Rightarrow> (r, mem, oh1, log))"
  using assms by (simp add: oh_read_def first_state_def)

lemma oh_read_true:
  assumes "oh_read ar env offset sz mem version oh log = (Ret True, mem', oh', log')"
  obtains root log1 vadv where "query_root_of ar env version oh log = (True, root, oh', log1)"
    "read_guard root version offset sz = None" "read_metadata ar env root offset sz log1 = Some (True, vadv)"
    "read_pages ar env (rt_page_size root) offset sz (first_state vadv mem log1) = (Ret True, mem', log')"
  using assms by (auto simp: oh_read_def first_state_def split: prod.splits if_splits option.splits bool.splits)

text \<open>
  The honesty of the providers of the pages of a version.
\<close>

definition honest_pages :: "archive \<Rightarrow> env \<Rightarrow> u64 \<Rightarrow> random_select list \<Rightarrow> buffer list \<Rightarrow> bool" where
  "honest_pages ar env psize vadv pages \<longleftrightarrow>
     length pages = length vadv \<and> (\<forall>p \<in> set pages. length p = unat psize) \<and> partial_checked env \<and>
     (\<forall>i < length pages. honest_page ar env (get_page_key (vadv ! i)) (pages ! i))"

lemma honest_setting:
  assumes "honest_pages ar env (rt_page_size root) vadv pages" "read_fits (rt_page_size root) offset sz"
    and "read_metadata ar env root offset sz log1 = Some (True, vadv)" "length mem = unat sz"
  shows "read_setting ar env (rt_page_size root) offset sz pages (first_state vadv mem log1)"
  using assms read_metadata_length [OF assms(3)]
  by (simp add: read_setting_def honest_pages_def first_state_def get_page_key_def)

text \<open>
  C7: A successful read of the client library fills the buffer with exactly the requested bytes of
  the pages that the metadata names, whether or not the range begins and ends at page boundaries,
  for every order in which the providers answer and every failure of providers on the way, if no
  provider answers with wrong contents.
\<close>

theorem read_returns_slice:
  assumes "oh_read ar env offset sz mem version oh log = (Ret True, mem', oh', log')"
    and "query_root_of ar env version oh log = (True, root, oh', log1)"
    and "read_metadata ar env root offset sz log1 = Some (True, vadv)"
    and "honest_pages ar env (rt_page_size root) vadv pages"
    and "read_fits (rt_page_size root) offset sz" "length mem = unat sz"
  shows "mem' = take (unat sz) (drop (unat offset mod unat (rt_page_size root)) (concat pages))"
proof -
  from assms(1) obtain root' log2 vadv' where r: "query_root_of ar env version oh log = (True, root', oh', log2)"
    "read_metadata ar env root' offset sz log2 = Some (True, vadv')"
    "read_pages ar env (rt_page_size root') offset sz (first_state vadv' mem log2) = (Ret True, mem', log')"
    by (rule oh_read_true)
  with assms(2,3) have "read_pages ar env (rt_page_size root) offset sz (first_state vadv mem log1) = (Ret True, mem', log')" by simp
  with honest_setting [OF assms(4,5,3,6)] show ?thesis by (rule read_pages_right)
qed

section \<open>Partial reads are not retried\<close>

definition never_ok :: "env \<Rightarrow> rpc_call \<Rightarrow> bool" where
  "never_ok env c \<longleftrightarrow> (\<forall>log. fst (managed_answer (rc_buffers c) (en_answer env log c)) \<noteq> rpc_ok)"

definition stuck :: "env \<Rightarrow> pages_state \<Rightarrow> bool" where
  "stuck env s \<longleftrightarrow> (\<forall>p \<in> set (ps_pending s). pr_index p < length (ps_vadv s)) \<and>
     (ps_result s \<longrightarrow> (\<exists>p \<in> set (ps_pending s). pr_type p = PROVIDER_READ_PARTIAL \<and> never_ok env (pr_call p)))"

lemma retry_never_ok: "partial_checked env \<Longrightarrow> never_ok env (page_call adv PROVIDER_READ_PARTIAL [x] l)"
  unfolding never_ok_def
proof
  fix log
  let ?c = "page_call adv PROVIDER_READ_PARTIAL [x] l"
  assume "partial_checked env"
  then have "fst (en_answer env log ?c) \<noteq> rpc_ok" by (simp add: partial_checked_def)
  then show "fst (managed_answer (rc_buffers ?c) (en_answer env log ?c)) \<noteq> rpc_ok"
    by (metis fst_conv managed_answer_ok prod.collapse)
qed

lemma answer_page_stuck:
  assumes "partial_checked env" "stuck env s" "ps_pending s \<noteq> []"
  shows "stuck env (answer_page env s)"
proof -
  obtain p a s1 where s1: "answer_page env s = rpc_provider_callback env p a s1" "set (ps_pending s) = insert p (set (ps_pending s1))"
    "a = managed_answer (rc_buffers (pr_call p)) (en_answer env (ps_log s) (pr_call p))"
    "ps_vadv s1 = ps_vadv s" "ps_result s1 = ps_result s"
    using assms(3) by (rule answer_page_step)
  obtain adv s' where nr: "next_replica env (pr_index p) s1 = (adv, s')" by (metis surj_pair)
  note same = next_replica_simps [OF nr]
  let ?p = "p\<lparr>pr_call := page_call adv (pr_type p) [pr_key p] (pr_len p)\<rparr>"
  have p: "pr_index p < length (ps_vadv s)" using assms(2) s1(2) by (simp add: stuck_def)
  show ?thesis
  proof (cases "fst a = rpc_ok \<and> length (snd a) = 1")
    case True
    then have "\<not> never_ok env (pr_call p)" using s1(3) by (auto simp: never_ok_def)
    moreover have "ps_pending (rpc_provider_callback env p a s1) = ps_pending s1" "ps_vadv (rpc_provider_callback env p a s1) = ps_vadv s1"
      "ps_result (rpc_provider_callback env p a s1) = ps_result s1"
      using True by (simp_all add: rpc_provider_callback_def)
    ultimately show ?thesis using assms(2) s1 by (auto simp: stuck_def)
  next
    case False
    have eq: "rpc_provider_callback env p a s1 = (if provider_desc_empty adv then s'\<lparr>ps_result := False\<rparr>
        else s'\<lparr>ps_pending := ps_pending s' @ [?p]\<rparr>)"
      using nr unfolding rpc_provider_callback_def if_not_P [OF False] by simp
    have "pr_type p = PROVIDER_READ_PARTIAL \<Longrightarrow> never_ok env (pr_call ?p)" using retry_never_ok [OF assms(1)] by simp
    with assms(2) s1 same p show ?thesis unfolding s1(1) eq by (auto simp: stuck_def)
  qed
qed

lemma stuck_read_fails:
  assumes "partial_checked env" "stuck env s"
  shows "fst (run_read env s) \<noteq> Ret True"
proof -
  have "\<exists>s'. run_pages env s = Some s' \<and> stuck env s' \<and> ps_pending s' = []"
    by (rule run_pages_rule [OF assms(2) answer_page_stuck [OF assms(1)]]) (auto simp: stuck_def)
  then show ?thesis by (auto simp: run_read_def stuck_def split: if_splits)
qed

lemma dispatch_page_keeps:
  assumes "dispatch_page env i t params ps ln s = Some s'"
  obtains p where "ps_pending s' = ps_pending s @ [p]" "pr_index p = i" "length (ps_vadv s') = length (ps_vadv s)"
    "map rs_page_key (ps_vadv s') = map rs_page_key (ps_vadv s)"
proof -
  obtain adv s1 where nr: "next_replica env i s = (adv, s1)" by (metis surj_pair)
  note same = next_replica_simps [OF nr]
  show thesis using assms nr that same(1,2,7) by (auto simp: dispatch_page_def Let_def split: if_splits)
qed

lemma dispatch_aligned_keeps:
  "dispatch_aligned ar env psize offset l is s = Inr s' \<Longrightarrow> \<forall>i \<in> set is. i < length (ps_vadv s) \<Longrightarrow>
     \<forall>p \<in> set (ps_pending s). pr_index p < length (ps_vadv s) \<Longrightarrow>
     length (ps_vadv s') = length (ps_vadv s) \<and> set (ps_pending s) \<subseteq> set (ps_pending s') \<and>
     (\<forall>p \<in> set (ps_pending s'). pr_index p < length (ps_vadv s))"
proof (induction "is" arbitrary: s)
  case (Cons i "is")
  obtain s1 where d: "dispatch_page env i PROVIDER_READ [page_key_of ar s i]
      (left_part psize offset + of_nat (i - l) * psize) psize s = Some s1" "dispatch_aligned ar env psize offset l is s1 = Inr s'"
    using Cons.prems(1) by (auto split: option.splits)
  from dispatch_page_keeps [OF d(1)] obtain p where p: "ps_pending s1 = ps_pending s @ [p]" "pr_index p = i"
    "length (ps_vadv s1) = length (ps_vadv s)" by blast
  from Cons.IH [OF d(2)] Cons.prems(2,3) p show ?case by auto
qed simp

lemma read_aligned_stuck:
  assumes "partial_checked env" "\<forall>p \<in> set (ps_pending s). pr_index p < length (ps_vadv s)" "unat r \<le> length (ps_vadv s)"
    and "p \<in> set (ps_pending s)" "pr_type p = PROVIDER_READ_PARTIAL" "never_ok env (pr_call p)"
  shows "fst (read_aligned ar env psize offset l r s) \<noteq> Ret True"
proof (cases "dispatch_aligned ar env psize offset (unat l) [unat l..<unat r] s")
  case (Inl s1)
  then show ?thesis by (simp add: read_aligned_def early_return_def)
next
  case (Inr s1)
  from dispatch_aligned_keeps [OF Inr _ assms(2)] assms(3-6) have "stuck env s1" by (auto simp: stuck_def)
  with Inr stuck_read_fails [OF assms(1)] show ?thesis by (simp add: read_aligned_def)
qed

lemma read_right_stuck:
  assumes "partial_checked env" "\<forall>p \<in> set (ps_pending s). pr_index p < length (ps_vadv s)"
    and "p \<in> set (ps_pending s)" "pr_type p = PROVIDER_READ_PARTIAL" "never_ok env (pr_call p)"
  shows "fst (read_right ar env psize offset sz l s) \<noteq> Ret True"
proof -
  let ?r = "of_nat (length (ps_vadv s)) :: u32"
  have r: "unat ?r \<le> length (ps_vadv s)" by (simp add: unat_of_nat)
  note aligned = read_aligned_stuck [OF assms(1,2) r assms(3-5), of ar psize offset l]
  show ?thesis
  proof (cases "(offset + sz) mod psize \<noteq> 0 \<and> 1 < ?r \<or> offset mod psize = 0 \<and> sz < psize")
    case False
    show ?thesis unfolding read_right_def Let_def if_not_P [OF False] by (rule aligned)
  next
    case True
    show ?thesis
    proof (cases "length (ps_vadv s) \<le> unat (?r - 1)")
      case inside: False
      show ?thesis
      proof (cases "dispatch_right ar env psize offset sz l (?r - 1) s")
        case None
        then show ?thesis unfolding read_right_def Let_def if_P [OF True] if_not_P [OF inside] by (simp add: early_return_def)
      next
        case (Some s1)
        from dispatch_page_keeps [OF Some [unfolded dispatch_right_def]] obtain q where
          q: "ps_pending s1 = ps_pending s @ [q]" "pr_index q = unat (?r - 1)" "length (ps_vadv s1) = length (ps_vadv s)" by blast
        have "fst (read_aligned ar env psize offset l (?r - 1) s1) \<noteq> Ret True"
          by (rule read_aligned_stuck [OF assms(1)]) (use q inside assms in auto)
        with Some show ?thesis unfolding read_right_def Let_def if_P [OF True] if_not_P [OF inside] by simp
      qed
    qed (simp add: read_right_def Let_def True)
  qed
qed

text \<open>The first call for the left or the right end goes to a replica that never answers.\<close>

definition refuses :: "env \<Rightarrow> provider_desc \<Rightarrow> bool" where
  "refuses env adv \<longleftrightarrow>
     (\<forall>log c. rc_host c = pd_host adv \<and> rc_service c = pd_service adv \<longrightarrow> fst (en_answer env log c) \<noteq> rpc_ok)"

lemma refuses_never_ok: "refuses env adv \<Longrightarrow> rc_host c = pd_host adv \<Longrightarrow> rc_service c = pd_service adv \<Longrightarrow> never_ok env c"
  unfolding never_ok_def refuses_def by (metis fst_conv managed_answer_ok prod.collapse)

lemma dispatch_partial_refused:
  assumes "dispatch_page env i PROVIDER_READ_PARTIAL params pos len s = Some s1"
    and "try_next (en_rand env (ps_log s) i (ps_vadv s ! i)) (ps_vadv s ! i) = (adv, rs)" "refuses env adv"
  obtains p where "ps_pending s1 = ps_pending s @ [p]" "pr_index p = i" "pr_type p = PROVIDER_READ_PARTIAL" "never_ok env (pr_call p)"
    "ps_vadv s1 = (ps_vadv s)[i := rs]" "ps_log s1 = ps_log s"
proof -
  obtain p where "ps_pending s1 = ps_pending s @ [p]" "pr_index p = i" "pr_type p = PROVIDER_READ_PARTIAL"
    "rc_host (pr_call p) = pd_host adv" "rc_service (pr_call p) = pd_service adv" "ps_vadv s1 = (ps_vadv s)[i := rs]" "ps_log s1 = ps_log s"
    using assms(1,2) by (auto simp: Let_def dispatch_page_def next_replica_def page_call_def split: if_splits)
  then show thesis using refuses_never_ok [OF assms(3)] that by blast
qed

lemma read_right_refused:
  assumes "partial_checked env" "\<forall>p \<in> set (ps_pending s). pr_index p < length (ps_vadv s)" "ps_vadv s \<noteq> []" "length (ps_vadv s) < 2 ^ 32"
    and "(offset + sz) mod psize \<noteq> 0 \<and> 1 < length (ps_vadv s) \<or> offset mod psize = 0 \<and> sz < psize"
    and "i = length (ps_vadv s) - 1" "try_next (en_rand env (ps_log s) i (ps_vadv s ! i)) (ps_vadv s ! i) = (adv, rs)" "refuses env adv"
  shows "fst (read_right ar env psize offset sz l s) \<noteq> Ret True"
proof -
  let ?r = "of_nat (length (ps_vadv s)) :: u32"
  have r: "unat ?r = length (ps_vadv s)" using assms(4) by (simp add: unat_of_nat)
  have "0 < ?r" using r assms(3) by (simp add: word_less_nat_alt)
  then have ri: "unat (?r - 1) = i" using r assms(3,6) by (simp add: unat_sub_if' Suc_le_eq)
  have c: "(offset + sz) mod psize \<noteq> 0 \<and> 1 < ?r \<or> offset mod psize = 0 \<and> sz < psize"
    using assms(5) r by (auto simp: word_less_nat_alt)
  have inside: "\<not> length (ps_vadv s) \<le> i" using assms(3,6) by (cases "ps_vadv s") simp_all
  show ?thesis
  proof (cases "dispatch_right ar env psize offset sz l (?r - 1) s")
    case None
    then show ?thesis unfolding read_right_def Let_def if_P [OF c] ri if_not_P [OF inside] by (simp add: early_return_def)
  next
    case (Some s1)
    from dispatch_partial_refused [OF Some [unfolded dispatch_right_def ri] assms(7,8)] obtain p where
      p: "ps_pending s1 = ps_pending s @ [p]" "pr_index p = i" "pr_type p = PROVIDER_READ_PARTIAL" "never_ok env (pr_call p)"
        "ps_vadv s1 = (ps_vadv s)[i := rs]" .
    have "fst (read_aligned ar env psize offset l (?r - 1) s1) \<noteq> Ret True"
      by (rule read_aligned_stuck [OF assms(1), of s1 _ p]) (use p inside assms(2) in \<open>auto simp: ri\<close>)
    with Some show ?thesis unfolding read_right_def Let_def if_P [OF c] ri if_not_P [OF inside] by simp
  qed
qed

text \<open>Position \<open>i\<close> of the pages is the left end of an unaligned range, or its right end.\<close>

lemma partial_page_refused:
  assumes "partial_checked env" "vadv \<noteq> []" "length vadv < 2 ^ 32"
    and "offset mod psize \<noteq> 0 \<and> i = 0 \<or>
      ((offset + sz) mod psize \<noteq> 0 \<and> 1 < length vadv \<or> offset mod psize = 0 \<and> sz < psize) \<and> i = length vadv - 1"
    and "try_next (en_rand env log1 i (vadv ! i)) (vadv ! i) = (adv, rs)" "refuses env adv"
  shows "fst (read_pages ar env psize offset sz (first_state vadv mem log1)) \<noteq> Ret True"
proof -
  let ?s = "first_state vadv mem log1"
  have s: "ps_vadv ?s = vadv" "ps_pending ?s = []" "ps_log ?s = log1" by (simp_all add: first_state_def)
  show ?thesis
  proof (cases "offset mod psize = 0")
    case True
    have "fst (read_right ar env psize offset sz 0 ?s) \<noteq> Ret True"
      by (rule read_right_refused [OF assms(1), where i = i and adv = adv and rs = rs]) (use assms True s in auto)
    then show ?thesis using True by (simp add: read_pages_def)
  next
    case False
    show ?thesis
    proof (cases "dispatch_left ar env psize offset sz ?s")
      case None
      then show ?thesis using False assms(2) by (simp add: read_pages_def s early_return_def)
    next
      case (Some s1)
      then obtain params pos len where d: "dispatch_page env 0 PROVIDER_READ_PARTIAL params pos len ?s = Some s1"
        by (auto simp: dispatch_left_def Let_def)
      have "fst (read_right ar env psize offset sz 1 s1) \<noteq> Ret True"
      proof (cases "i = 0")
        case True
        have "try_next (en_rand env (ps_log ?s) 0 (ps_vadv ?s ! 0)) (ps_vadv ?s ! 0) = (adv, rs)" using assms(5) True s by simp
        from dispatch_partial_refused [OF d this assms(6)] obtain p where
          p: "ps_pending s1 = [p]" "pr_index p = 0" "pr_type p = PROVIDER_READ_PARTIAL" "never_ok env (pr_call p)" "ps_vadv s1 = vadv[0 := rs]"
          by (auto simp: s)
        show ?thesis by (rule read_right_stuck [OF assms(1), of s1 p]) (use p assms(2) in auto)
      next
        case i: False
        then have c: "(offset + sz) mod psize \<noteq> 0 \<and> 1 < length vadv" "i = length vadv - 1" using assms(4) False by auto
        obtain q rs0 where q: "ps_pending s1 = [q]" "pr_index q = 0" "ps_vadv s1 = vadv[0 := rs0]" "ps_log s1 = log1"
          using d by (auto simp: Let_def dispatch_page_def next_replica_def s split: if_splits prod.splits)
        have "vadv[0 := rs0] ! i = vadv ! i" using i by simp
        then show ?thesis
          by (intro read_right_refused [OF assms(1), where i = i and adv = adv and rs = rs]) (use q c assms in auto)
      qed
      then show ?thesis using Some False assms(2) by (simp add: read_pages_def s)
    qed
  qed
qed

end
