(* ===== verification/Read_Live.thy ===== *)
theory Read_Live
  imports Object_Read
begin

text \<open>
  A read succeeds, and returns the right bytes, if the replicas it needs answer: one replica of each
  page that is read as a whole, and all replicas of a page read in part, since a partial read has no
  failover.
\<close>

section \<open>Replicas that answer\<close>

definition good_provider :: "archive \<Rightarrow> env \<Rightarrow> query_t \<Rightarrow> buffer \<Rightarrow> provider_desc \<Rightarrow> bool" where
  "good_provider ar env key page adv \<longleftrightarrow>
     (\<forall>log c. rc_buffers c \<noteq> [] \<and> rc_host c = pd_host adv \<and> rc_service c = pd_service adv \<longrightarrow>
        (rc_name c = PROVIDER_READ \<and> rc_params c = [dht_key ar key] \<longrightarrow> en_answer env log c = (rpc_ok, [page])) \<and>
        (\<forall>off len. rc_name c = PROVIDER_READ_PARTIAL \<and> unat off + unat len \<le> length page \<and>
           rc_params c = [dht_key ar key, buffer_wrapper ar (ar_u64 ar) off, buffer_wrapper ar (ar_u64 ar) len] \<longrightarrow>
           en_answer env log c = (rpc_ok, [take (unat len) (drop (unat off) page)])))"

definition answered :: "env \<Rightarrow> rpc_call \<Rightarrow> bool" where
  "answered env c \<longleftrightarrow> (\<forall>log. \<exists>b. managed_answer (rc_buffers c) (en_answer env log c) = (rpc_ok, [b]))"

lemma managed_answer_fits: "length b = l \<Longrightarrow> managed_answer [replicate l 0] (st, [b]) = (st, [b])"
  by (simp add: managed_answer_def bad_result_def upt_rec)

lemma good_whole:
  assumes "good_provider ar env key page adv" "length page = l"
  shows "answered env (page_call adv PROVIDER_READ [dht_key ar key] l)"
proof -
  have "en_answer env log (page_call adv PROVIDER_READ [dht_key ar key] l) = (rpc_ok, [page])" for log
    using assms(1) by (simp add: good_provider_def page_call_def)
  then show ?thesis using managed_answer_fits [OF assms(2)] by (simp add: answered_def)
qed

lemma good_part:
  assumes "good_provider ar env key page adv" "unat off + unat ln \<le> length page" "length page < 2 ^ 32"
  shows "answered env (page_call adv PROVIDER_READ_PARTIAL
    [dht_key ar key, buffer_wrapper ar (ar_u64 ar) off, buffer_wrapper ar (ar_u64 ar) ln] (unat (ucast ln :: u32)))"
    (is "answered env ?c")
proof -
  have l: "unat (ucast ln :: u32) = unat ln" using assms(2,3) by (intro ucast_small) linarith
  have "en_answer env log ?c = (rpc_ok, [take (unat ln) (drop (unat off) page)])" for log
    using assms(1,2) by (simp add: good_provider_def page_call_def)
  moreover have "length (take (unat ln) (drop (unat off) page)) = unat ln" using assms(2) by simp
  ultimately show ?thesis using managed_answer_fits by (simp add: answered_def l)
qed

lemma try_next_draw:
  assumes "try_next r rs = (adv, rs')" "rs_providers rs \<noteq> []"
  shows "set (rs_providers rs) = insert adv (set (rs_providers rs'))" "rs_page_key rs' = rs_page_key rs"
proof -
  let ?xs = "rs_providers rs" let ?i = "r mod length ?xs"
  have i: "?i < length ?xs" using assms(2) by simp
  have eq: "adv = ?xs ! ?i" "rs' = rs\<lparr>rs_providers := take ?i ?xs @ drop (Suc ?i) ?xs\<rparr>"
    using assms by (auto simp: try_next_def Let_def)
  show "set ?xs = insert adv (set (rs_providers rs'))" unfolding eq by (subst id_take_nth_drop [OF i]) auto
  show "rs_page_key rs' = rs_page_key rs" by (simp add: eq)
qed

section \<open>A read that cannot fail\<close>

definition named_replicas :: "random_select \<Rightarrow> bool" where
  "named_replicas rs \<longleftrightarrow> (\<forall>adv \<in> set (rs_providers rs). \<not> provider_desc_empty adv)"

definition some_good :: "archive \<Rightarrow> env \<Rightarrow> buffer \<Rightarrow> random_select \<Rightarrow> bool" where
  "some_good ar env page rs \<longleftrightarrow> (\<exists>adv \<in> set (rs_providers rs). good_provider ar env (rs_page_key rs) page adv)"

definition live_call :: "archive \<Rightarrow> env \<Rightarrow> buffer list \<Rightarrow> random_select list \<Rightarrow> page_read \<Rightarrow> bool" where
  "live_call ar env pages vadv p \<longleftrightarrow> answered env (pr_call p) \<or>
     pr_type p = PROVIDER_READ \<and> pr_key p = dht_key ar (rs_page_key (vadv ! pr_index p)) \<and>
     pr_len p = length (pages ! pr_index p) \<and> some_good ar env (pages ! pr_index p) (vadv ! pr_index p)"

definition live :: "archive \<Rightarrow> env \<Rightarrow> buffer list \<Rightarrow> pages_state \<Rightarrow> bool" where
  "live ar env pages s \<longleftrightarrow>
     ps_result s \<and> distinct (map pr_index (ps_pending s)) \<and> (\<forall>rs \<in> set (ps_vadv s). named_replicas rs) \<and>
     (\<forall>p \<in> set (ps_pending s). pr_index p < length (ps_vadv s) \<and> live_call ar env pages (ps_vadv s) p)"

lemma next_replica_draw:
  assumes "next_replica env i s = (adv, s')" "i < length (ps_vadv s)" "rs_providers (ps_vadv s ! i) \<noteq> []"
    and "\<forall>rs \<in> set (ps_vadv s). named_replicas rs"
  obtains rs where "s' = s\<lparr>ps_vadv := (ps_vadv s)[i := rs]\<rparr>" "\<not> provider_desc_empty adv"
    "set (rs_providers (ps_vadv s ! i)) = insert adv (set (rs_providers rs))" "rs_page_key rs = rs_page_key (ps_vadv s ! i)"
    "\<forall>rs \<in> set (ps_vadv s'). named_replicas rs"
proof -
  obtain rs where t: "try_next (en_rand env (ps_log s) i (ps_vadv s ! i)) (ps_vadv s ! i) = (adv, rs)"
    "s' = s\<lparr>ps_vadv := (ps_vadv s)[i := rs]\<rparr>"
    using assms(1) by (auto simp: next_replica_def split: prod.splits)
  note d = try_next_draw [OF t(1) assms(3)]
  have n: "named_replicas (ps_vadv s ! i)" using assms(2,4) by simp
  then have "named_replicas rs" "\<not> provider_desc_empty adv" using d(1) by (simp_all add: named_replicas_def)
  with t(2) d assms(2,4) show thesis by (intro that [of rs]) (auto dest: set_update_subset_insert [THEN subsetD])
qed

text \<open>The replicas of the other pages are not touched.\<close>

lemma live_call_other:
  "pr_index p \<noteq> i \<Longrightarrow> live_call ar env pages (vadv[i := rs]) p \<longleftrightarrow> live_call ar env pages vadv p"
  by (simp add: live_call_def)

lemma live_others:
  "i \<notin> pr_index ` set ps \<Longrightarrow> \<forall>p \<in> set ps. pr_index p < length vadv \<and> live_call ar env pages vadv p \<Longrightarrow>
     \<forall>p \<in> set ps. pr_index p < length (vadv[i := rs]) \<and> live_call ar env pages (vadv[i := rs]) p"
  by (auto simp: live_call_other image_iff)

lemma good_draw:
  assumes "some_good ar env page rs" "set (rs_providers rs) = insert adv (set (rs_providers rs'))" "rs_page_key rs' = rs_page_key rs"
    and "length page = l"
  shows "answered env (page_call adv PROVIDER_READ [dht_key ar (rs_page_key rs)] l) \<or> some_good ar env page rs'"
  using assms good_whole [OF _ assms(4)] by (auto simp: some_good_def)

lemma answer_page_distinct:
  assumes "ps_pending s \<noteq> []" "distinct (map pr_index (ps_pending s))"
  obtains p a s1 where "answer_page env s = rpc_provider_callback env p a s1" "p \<in> set (ps_pending s)"
    "set (ps_pending s1) \<subseteq> set (ps_pending s)" "distinct (map pr_index (ps_pending s1))" "pr_index p \<notin> pr_index ` set (ps_pending s1)"
    "a = managed_answer (rc_buffers (pr_call p)) (en_answer env (ps_log s) (pr_call p))"
    "ps_vadv s1 = ps_vadv s" "ps_result s1 = ps_result s"
proof -
  let ?n = "en_pick env (ps_log s) mod length (ps_pending s)"
  let ?p = "ps_pending s ! ?n"
  let ?a = "managed_answer (rc_buffers (pr_call ?p)) (en_answer env (ps_log s) (pr_call ?p))"
  let ?s = "s\<lparr>ps_pending := take ?n (ps_pending s) @ drop (Suc ?n) (ps_pending s), ps_log := ps_log s @ [Called (pr_call ?p) ?a]\<rparr>"
  have n: "?n < length (ps_pending s)" using assms(1) by simp
  have split: "ps_pending s = take ?n (ps_pending s) @ ?p # drop (Suc ?n) (ps_pending s)" by (rule id_take_nth_drop [OF n])
  have d: "distinct (map pr_index (take ?n (ps_pending s) @ ?p # drop (Suc ?n) (ps_pending s)))" using assms(2) split by simp
  show thesis
  proof (rule that)
    show "answer_page env s = rpc_provider_callback env ?p ?a ?s" by (simp add: answer_page_def answer_call_def Let_def)
    show "?p \<in> set (ps_pending s)" using n by simp
    show "set (ps_pending ?s) \<subseteq> set (ps_pending s)" by (auto dest: in_set_takeD in_set_dropD)
    show "distinct (map pr_index (ps_pending ?s))" "pr_index ?p \<notin> pr_index ` set (ps_pending ?s)" using d by auto
  qed simp_all
qed

lemma answer_page_live:
  assumes "live ar env pages s" "ps_pending s \<noteq> []"
  shows "live ar env pages (answer_page env s)"
proof -
  have inv: "ps_result s" "distinct (map pr_index (ps_pending s))" "\<forall>rs \<in> set (ps_vadv s). named_replicas rs"
    "\<forall>p \<in> set (ps_pending s). pr_index p < length (ps_vadv s) \<and> live_call ar env pages (ps_vadv s) p"
    using assms(1) by (simp_all add: live_def)
  obtain p a s1 where s1: "answer_page env s = rpc_provider_callback env p a s1" "p \<in> set (ps_pending s)"
    "set (ps_pending s1) \<subseteq> set (ps_pending s)" "distinct (map pr_index (ps_pending s1))" "pr_index p \<notin> pr_index ` set (ps_pending s1)"
    "a = managed_answer (rc_buffers (pr_call p)) (en_answer env (ps_log s) (pr_call p))"
    "ps_vadv s1 = ps_vadv s" "ps_result s1 = ps_result s"
    using assms(2) inv(2) by (rule answer_page_distinct)
  let ?i = "pr_index p"
  have p: "?i < length (ps_vadv s)" "live_call ar env pages (ps_vadv s) p" using inv(4) s1(2) by simp_all
  have rest: "\<forall>q \<in> set (ps_pending s1). pr_index q < length (ps_vadv s) \<and> live_call ar env pages (ps_vadv s) q"
    using inv(4) s1(3) by auto
  show ?thesis
  proof (cases "fst a = rpc_ok \<and> length (snd a) = 1")
    case True
    then have "ps_pending (rpc_provider_callback env p a s1) = ps_pending s1" "ps_vadv (rpc_provider_callback env p a s1) = ps_vadv s1"
      "ps_result (rpc_provider_callback env p a s1) = ps_result s1"
      by (simp_all add: rpc_provider_callback_def)
    with inv s1 rest show ?thesis by (simp add: live_def)
  next
    case False
    have "\<not> answered env (pr_call p)"
    proof
      assume "answered env (pr_call p)"
      then obtain b where "a = (rpc_ok, [b])" unfolding s1(6) answered_def by blast
      with False show False by simp
    qed
    with p(2) have w: "pr_type p = PROVIDER_READ" "pr_key p = dht_key ar (rs_page_key (ps_vadv s ! ?i))"
      "pr_len p = length (pages ! ?i)" "some_good ar env (pages ! ?i) (ps_vadv s ! ?i)" by (simp_all add: live_call_def)
    obtain adv s' where nr: "next_replica env ?i s1 = (adv, s')" by (metis surj_pair)
    have i1: "?i < length (ps_vadv s1)" "\<forall>rs \<in> set (ps_vadv s1). named_replicas rs" using p(1) inv(3) by (simp_all add: s1(7))
    have ne: "rs_providers (ps_vadv s1 ! ?i) \<noteq> []" using w(4) by (auto simp: some_good_def s1(7))
    from nr i1(1) ne i1(2) obtain rs where d: "s' = s1\<lparr>ps_vadv := (ps_vadv s1)[?i := rs]\<rparr>" "\<not> provider_desc_empty adv"
      "set (rs_providers (ps_vadv s1 ! ?i)) = insert adv (set (rs_providers rs))" "rs_page_key rs = rs_page_key (ps_vadv s1 ! ?i)"
      "\<forall>rs \<in> set (ps_vadv s'). named_replicas rs" by (rule next_replica_draw)
    let ?p = "p\<lparr>pr_call := page_call adv (pr_type p) [pr_key p] (pr_len p)\<rparr>"
    have eq: "rpc_provider_callback env p a s1 = s'\<lparr>ps_pending := ps_pending s' @ [?p]\<rparr>"
      using nr d(2) unfolding rpc_provider_callback_def if_not_P [OF False] by simp
    have "live_call ar env pages ((ps_vadv s)[?i := rs]) ?p"
      using good_draw [OF w(4) d(3,4) [unfolded s1(7)] w(3) [symmetric]] p(1) d(4) by (auto simp: live_call_def w s1(7))
    with live_others [OF s1(5) rest, of rs] have
      "\<forall>q \<in> set (ps_pending s1 @ [?p]). pr_index q < length ((ps_vadv s)[?i := rs]) \<and> live_call ar env pages ((ps_vadv s)[?i := rs]) q"
      using p(1) by simp
    with d(1,5) s1(4,5,7,8) inv(1) show ?thesis unfolding s1(1) eq by (auto simp: live_def)
  qed
qed

lemma live_run:
  assumes "live ar env pages s"
  shows "\<exists>s'. run_pages env s = Some s' \<and> ps_result s'"
proof -
  have "\<exists>s'. run_pages env s = Some s' \<and> live ar env pages s' \<and> ps_pending s' = []"
    by (rule run_pages_rule [OF assms answer_page_live]) (simp_all add: live_def)
  then show ?thesis by (auto simp: live_def)
qed

section \<open>The dispatch of a read that cannot fail\<close>

definition live_stage :: "archive \<Rightarrow> env \<Rightarrow> buffer list \<Rightarrow> random_select list \<Rightarrow> nat set \<Rightarrow> pages_state \<Rightarrow> bool" where
  "live_stage ar env pages vadv A s \<longleftrightarrow>
     live ar env pages s \<and> pr_index ` set (ps_pending s) \<subseteq> A \<and> length (ps_vadv s) = length vadv \<and>
     (\<forall>i < length vadv. i \<notin> A \<longrightarrow> ps_vadv s ! i = vadv ! i)"

lemma dispatch_page_live:
  assumes "live_stage ar env pages vadv A s" "i < length vadv" "i \<notin> A" "rs_providers (vadv ! i) \<noteq> []"
    and "\<And>adv rs. set (rs_providers (vadv ! i)) = insert adv (set (rs_providers rs)) \<Longrightarrow> rs_page_key rs = rs_page_key (vadv ! i) \<Longrightarrow>
      answered env (page_call adv t params (unat (ucast ln :: u32))) \<or>
      t = PROVIDER_READ \<and> last params = dht_key ar (rs_page_key rs) \<and> unat (ucast ln :: u32) = length (pages ! i) \<and>
      some_good ar env (pages ! i) rs"
  shows "\<exists>s'. dispatch_page env i t params ps ln s = Some s' \<and> live_stage ar env pages vadv (insert i A) s'"
proof -
  let ?l = "unat (ucast ln :: u32)"
  have inv: "ps_result s" "distinct (map pr_index (ps_pending s))" "\<forall>rs \<in> set (ps_vadv s). named_replicas rs"
    "\<forall>p \<in> set (ps_pending s). pr_index p < length (ps_vadv s) \<and> live_call ar env pages (ps_vadv s) p"
    "pr_index ` set (ps_pending s) \<subseteq> A" "length (ps_vadv s) = length vadv" "\<forall>i < length vadv. i \<notin> A \<longrightarrow> ps_vadv s ! i = vadv ! i"
    using assms(1) unfolding live_stage_def live_def by blast+
  have i: "i < length (ps_vadv s)" "ps_vadv s ! i = vadv ! i" "i \<notin> pr_index ` set (ps_pending s)" using inv(5-7) assms(2,3) by auto
  obtain adv s1 where nr: "next_replica env i s = (adv, s1)" by (metis surj_pair)
  from nr i(1) assms(4) [folded i(2)] inv(3) obtain rs where d: "s1 = s\<lparr>ps_vadv := (ps_vadv s)[i := rs]\<rparr>" "\<not> provider_desc_empty adv"
      "set (rs_providers (ps_vadv s ! i)) = insert adv (set (rs_providers rs))" "rs_page_key rs = rs_page_key (ps_vadv s ! i)"
      "\<forall>rs \<in> set (ps_vadv s1). named_replicas rs" by (rule next_replica_draw)
  let ?p = "\<lparr>pr_index = i, pr_type = t, pr_key = last params, pr_pos = unat ps, pr_len = ?l, pr_call = page_call adv t params ?l\<rparr>"
  have eq: "dispatch_page env i t params ps ln s = Some (s1\<lparr>ps_pending := ps_pending s1 @ [?p]\<rparr>)"
    using nr d(2) by (simp add: dispatch_page_def Let_def)
  have "live_call ar env pages ((ps_vadv s)[i := rs]) ?p"
    using assms(5) [OF d(3,4) [unfolded i(2)]] i(1) by (auto simp: live_call_def)
  with live_others [OF i(3) inv(4), of rs] i(1) have
    "\<forall>q \<in> set (ps_pending s @ [?p]). pr_index q < length ((ps_vadv s)[i := rs]) \<and> live_call ar env pages ((ps_vadv s)[i := rs]) q"
    by simp
  moreover have "distinct (map pr_index (ps_pending s @ [?p]))" using inv(2) i(3) by simp
  ultimately have "live ar env pages (s1\<lparr>ps_pending := ps_pending s1 @ [?p]\<rparr>)"
    unfolding live_def using d(1,5) inv(1) by simp
  moreover have "pr_index ` set (ps_pending s @ [?p]) \<subseteq> insert i A" using inv(5) by auto
  ultimately show ?thesis unfolding eq using d(1) inv(6,7) by (auto simp: live_stage_def)
qed

definition page_answers :: "archive \<Rightarrow> env \<Rightarrow> bool \<Rightarrow> buffer \<Rightarrow> random_select \<Rightarrow> bool" where
  "page_answers ar env part page rs \<longleftrightarrow>
     named_replicas rs \<and> some_good ar env page rs \<and>
     (part \<longrightarrow> (\<forall>adv \<in> set (rs_providers rs). good_provider ar env (rs_page_key rs) page adv))"

lemma dispatch_whole_live:
  assumes "live_stage ar env pages vadv A s" "i < length vadv" "i \<notin> A" "some_good ar env (pages ! i) (vadv ! i)"
    and "unat (ucast psize :: u32) = length (pages ! i)"
  shows "\<exists>s'. dispatch_page env i PROVIDER_READ [page_key_of ar s i] ps psize s = Some s' \<and> live_stage ar env pages vadv (insert i A) s'"
proof -
  have key: "page_key_of ar s i = dht_key ar (rs_page_key (vadv ! i))"
    using assms(1-3) by (simp add: live_stage_def page_key_of_def get_page_key_def)
  show ?thesis unfolding key
  proof (rule dispatch_page_live [OF assms(1-3)])
    show "rs_providers (vadv ! i) \<noteq> []" using assms(4) by (auto simp: some_good_def)
    show "answered env (page_call adv PROVIDER_READ [dht_key ar (rs_page_key (vadv ! i))] (unat (ucast psize :: u32))) \<or>
        PROVIDER_READ = PROVIDER_READ \<and> last [dht_key ar (rs_page_key (vadv ! i))] = dht_key ar (rs_page_key rs) \<and>
        unat (ucast psize :: u32) = length (pages ! i) \<and> some_good ar env (pages ! i) rs"
      if "set (rs_providers (vadv ! i)) = insert adv (set (rs_providers rs))" "rs_page_key rs = rs_page_key (vadv ! i)" for adv rs
      using good_draw [OF assms(4) that assms(5) [symmetric]] that(2) assms(5) by auto
  qed
qed

lemma dispatch_part_live:
  assumes "live_stage ar env pages vadv A s" "i < length vadv" "i \<notin> A" "page_answers ar env True (pages ! i) (vadv ! i)"
    and "unat off + unat ln \<le> length (pages ! i)" "length (pages ! i) < 2 ^ 32"
  shows "\<exists>s'. dispatch_page env i PROVIDER_READ_PARTIAL [page_key_of ar s i, buffer_wrapper ar (ar_u64 ar) off, buffer_wrapper ar (ar_u64 ar) ln] ps ln s
      = Some s' \<and> live_stage ar env pages vadv (insert i A) s'"
proof -
  have key: "page_key_of ar s i = dht_key ar (rs_page_key (vadv ! i))"
    using assms(1-3) by (simp add: live_stage_def page_key_of_def get_page_key_def)
  show ?thesis unfolding key
  proof (rule dispatch_page_live [OF assms(1-3)], goal_cases)
    case 1
    then show ?case using assms(4) by (auto simp: page_answers_def some_good_def)
  next
    case (2 adv rs)
    then have "good_provider ar env (rs_page_key (vadv ! i)) (pages ! i) adv" using assms(4) by (simp add: page_answers_def)
    with good_part [OF _ assms(5,6)] show ?case by blast
  qed
qed

lemma dispatch_aligned_live:
  "live_stage ar env pages vadv A s \<Longrightarrow> distinct is \<Longrightarrow> set is \<inter> A = {} \<Longrightarrow>
     \<forall>i \<in> set is. i < length vadv \<and> some_good ar env (pages ! i) (vadv ! i) \<and> unat (ucast psize :: u32) = length (pages ! i) \<Longrightarrow>
     \<exists>s'. dispatch_aligned ar env psize offset l is s = Inr s' \<and> live ar env pages s'"
proof (induction "is" arbitrary: A s)
  case Nil
  then show ?case by (simp add: live_stage_def)
next
  case (Cons i "is")
  let ?pos = "left_part psize offset + of_nat (i - l) * psize"
  have i: "i < length vadv" "i \<notin> A" "some_good ar env (pages ! i) (vadv ! i)" "unat (ucast psize :: u32) = length (pages ! i)"
    using Cons.prems(3,4) by auto
  from dispatch_whole_live [OF Cons.prems(1) i] obtain s1 where
    s1: "dispatch_page env i PROVIDER_READ [page_key_of ar s i] ?pos psize s = Some s1" "live_stage ar env pages vadv (insert i A) s1" by blast
  have "set is \<inter> insert i A = {}" using Cons.prems(2,3) by auto
  with Cons.IH [OF s1(2)] Cons.prems(2,4) s1(1) show ?case by simp
qed

lemma read_aligned_live:
  assumes "live_stage ar env pages vadv A s" "{unat l..<unat r} \<inter> A = {}" "unat r \<le> length vadv"
    and "\<forall>i < length vadv. some_good ar env (pages ! i) (vadv ! i) \<and> unat (ucast psize :: u32) = length (pages ! i)"
  shows "\<exists>s1. read_aligned ar env psize offset l r s = run_read env s1 \<and> live ar env pages s1"
proof -
  have "\<exists>s1. dispatch_aligned ar env psize offset (unat l) [unat l..<unat r] s = Inr s1 \<and> live ar env pages s1"
    by (rule dispatch_aligned_live [OF assms(1)]) (use assms(2-4) in auto)
  then show ?thesis by (auto simp: read_aligned_def)
qed

definition read_answers :: "archive \<Rightarrow> env \<Rightarrow> u64 \<Rightarrow> u64 \<Rightarrow> u64 \<Rightarrow> buffer list \<Rightarrow> random_select list \<Rightarrow> bool" where
  "read_answers ar env psize offset sz pages vadv \<longleftrightarrow>
     (\<forall>i < length vadv. page_answers ar env
        (i = 0 \<and> offset mod psize \<noteq> 0 \<or> Suc i = length vadv \<and> (offset + sz) mod psize \<noteq> 0) (pages ! i) (vadv ! i))"

lemma short_read_ends_inside:
  assumes "read_fits psize offset sz" "offset mod psize = 0" "sz < psize"
  shows "(offset + sz) mod psize \<noteq> 0"
proof -
  have "page_off psize offset = 0" using assms(2) by (simp add: offset_aligned_iff)
  then have "unat ((offset + sz) mod psize) = unat sz"
    using unat_end_mod [OF assms(1)] assms(3) by (simp add: word_less_nat_alt)
  then show ?thesis using read_fitsD(2) [OF assms(1)] by (metis less_irrefl unat_0)
qed

lemma read_right_live:
  assumes "read_setting ar env psize offset sz pages s0" "read_answers ar env psize offset sz pages vadv" "ps_vadv s0 = vadv"
    and "live_stage ar env pages vadv A s" "A = {0..<unat l}" "l = (if offset mod psize \<noteq> 0 then 1 else 0)"
  shows "\<exists>s1. read_right ar env psize offset sz l s = run_read env s1 \<and> live ar env pages s1"
proof -
  note st = settingD [OF assms(1)]
  let ?n = "length pages" let ?r = "of_nat ?n :: u32"
  have n: "0 < ?n" "?n < 2 ^ 32" "length vadv = ?n" using st(3,11,12) assms(3) by (simp_all add: cut_def)
  have lv: "length (ps_vadv s) = ?n" using assms(4) n(3) by (simp add: live_stage_def)
  have rn: "unat ?r = ?n" using n(2) by (simp add: unat_of_nat)
  have r1: "unat (?r - 1) = ?n - 1" using n(1) rn by (simp add: unat_sub_if' Suc_le_eq)
  have P: "unat (ucast psize :: u32) = unat psize" using ucast_small read_fitsD(4) [OF st(1)] by blast
  have whole: "\<forall>i < length vadv. some_good ar env (pages ! i) (vadv ! i) \<and> unat (ucast psize :: u32) = length (pages ! i)"
    using assms(2) st(4) n(3) P by (auto simp: read_answers_def page_answers_def)
  show ?thesis
  proof (cases "(offset + sz) mod psize \<noteq> 0 \<and> 1 < ?r \<or> offset mod psize = 0 \<and> sz < psize")
    case False
    have "\<exists>s1. read_aligned ar env psize offset l ?r s = run_read env s1 \<and> live ar env pages s1"
      by (rule read_aligned_live [OF assms(4)]) (use rn n(3) whole assms(5) in auto)
    then show ?thesis unfolding read_right_def Let_def lv if_not_P [OF False] .
  next
    case True
    have inside: "(offset + sz) mod psize \<noteq> 0" using True
    proof
      assume "offset mod psize = 0 \<and> sz < psize"
      then show ?thesis by (intro short_read_ends_inside [OF st(1)]) simp_all
    qed (elim conjE)
    have A: "?n - 1 \<notin> A" using True rn n(1) by (auto simp: assms(5,6) word_less_nat_alt)
    have i: "?n - 1 < length vadv" using n by simp
    have part: "page_answers ar env True (pages ! (?n - 1)) (vadv ! (?n - 1))"
    proof -
      have "Suc (?n - 1) = length vadv" using n by simp
      then show ?thesis using assms(2) i inside unfolding read_answers_def page_answers_def by blast
    qed
    have len: "length (pages ! (?n - 1)) = unat psize" using n(1) by (intro st(4)) linarith
    have "unat (right_part psize offset sz) < unat psize"
      using read_fitsD(1) [OF st(1)] by (simp add: unat_right_part [OF st(1)])
    then have "unat (0 :: u64) + unat (right_part psize offset sz) \<le> length (pages ! (?n - 1))" unfolding len by simp
    from dispatch_part_live [OF assms(4) i A part this] len read_fitsD(4) [OF st(1)] obtain s1 where
      s1: "dispatch_right ar env psize offset sz l (?r - 1) s = Some s1" "live_stage ar env pages vadv (insert (?n - 1) A) s1"
      unfolding dispatch_right_def r1 by metis
    have lt: "\<not> ?n \<le> unat (?r - 1)" using n(1) unfolding r1 by linarith
    have "\<exists>s2. read_aligned ar env psize offset l (?r - 1) s1 = run_read env s2 \<and> live ar env pages s2"
      by (rule read_aligned_live [OF s1(2)]) (use r1 n(3) whole assms(5) in auto)
    then show ?thesis unfolding read_right_def Let_def lv if_P [OF True] if_not_P [OF lt] s1(1) by simp
  qed
qed

lemma read_pages_live:
  assumes "read_setting ar env psize offset sz pages s0" "read_answers ar env psize offset sz pages (ps_vadv s0)"
  shows "\<exists>s1. read_pages ar env psize offset sz s0 = run_read env s1 \<and> live ar env pages s1"
proof -
  note st = settingD [OF assms(1)]
  let ?P = "unat psize" and ?a = "page_off psize offset"
  have n: "0 < length pages" using st(11) by (simp add: cut_def)
  have "\<forall>rs \<in> set (ps_vadv s0). named_replicas rs"
    using assms(2) by (auto simp: read_answers_def page_answers_def in_set_conv_nth)
  then have s0: "live_stage ar env pages (ps_vadv s0) {} s0" by (simp add: live_stage_def live_def st(7,9))
  show ?thesis
  proof (cases "offset mod psize = 0")
    case True
    then show ?thesis using read_right_live [OF assms refl s0, of 0] by (simp add: read_pages_def)
  next
    case False
    have aP: "?a < ?P" "?a \<noteq> 0" using read_fitsD(1) [OF st(1)] False by (simp_all add: offset_aligned_iff)
    let ?lp = "left_part psize offset"
    let ?m = "if ?lp < sz then ?lp else sz"
    have lp: "unat ?lp = ?P - ?a" using unat_left_part [OF st(1)] aP(2) by simp
    then have "?lp \<le> psize" by (simp add: word_le_nat_alt)
    then have off: "unat (psize - ?lp) = ?a" using lp aP by (simp add: unat_sub_nowrap)
    have "unat ?m \<le> ?P - ?a" using lp by (auto simp: word_less_nat_alt)
    then have fit: "unat (psize - ?lp) + unat ?m \<le> length (pages ! 0)" using st(4) [OF n] aP(1) unfolding off by simp
    have part: "page_answers ar env True (pages ! 0) (ps_vadv s0 ! 0)"
      using assms(2) False n st(3) by (auto simp: read_answers_def page_answers_def)
    have i: "0 < length (ps_vadv s0)" using n st(3) by simp
    from dispatch_part_live [OF s0 i _ part fit] st(4) [OF n] read_fitsD(4) [OF st(1)] obtain s1 where
      s1: "dispatch_left ar env psize offset sz s0 = Some s1" "live_stage ar env pages (ps_vadv s0) {0} s1"
      unfolding dispatch_left_def Let_def by (metis emptyE)
    have "\<exists>s2. read_right ar env psize offset sz 1 s1 = run_read env s2 \<and> live ar env pages s2"
      by (rule read_right_live [OF assms refl s1(2)]) (use False in auto)
    with False i s1(1) show ?thesis by (auto simp: read_pages_def)
  qed
qed

lemma read_pages_total:
  assumes "read_setting ar env psize offset sz pages s0" "read_answers ar env psize offset sz pages (ps_vadv s0)"
  shows "\<exists>log. read_pages ar env psize offset sz s0 = (Ret True, take (unat sz) (drop (page_off psize offset) (concat pages)), log)"
proof -
  from read_pages_live [OF assms] obtain s1 where s1: "read_pages ar env psize offset sz s0 = run_read env s1" "live ar env pages s1" by blast
  from live_run [OF s1(2)] have out: "fst (run_read env s1) = Ret True \<or> fst (run_read env s1) = Und ''write outside the buffer''"
    by (auto simp: run_read_def)
  have "fst (read_pages ar env psize offset sz s0) = Ret True"
    using assms(1)
  proof (cases rule: read_pages_staged)
    case (early s2)
    then have "fst (run_read env s1) = early_return s2" using s1(1) by simp
    with out show ?thesis by (auto simp: early_return_def s1(1) split: if_splits)
  next
    case (run s2)
    from run_pages_total [OF setting_tiling [OF assms(1)] staged_pages_inv [OF run(2) settingD(3,10,8) [OF assms(1)]]]
    obtain b where "fst (run_read env s2) = Ret b" by (auto simp: run_read_def pages_inv_def)
    with run(1) s1(1) out show ?thesis by auto
  qed
  then obtain mem log where "read_pages ar env psize offset sz s0 = (Ret True, mem, log)" by (metis prod.collapse)
  with read_pages_right [OF assms(1) this] show ?thesis by blast
qed

text \<open>
  A read of the client library returns the requested bytes if no provider answers with wrong
  contents, one replica of each page of the range answers, and all replicas of the first and the last
  page answer where the range takes only a part of them. This holds for every order of the answers
  and of the draws of the replicas.
\<close>

lemma read_succeeds:
  assumes "query_root_of ar env version oh log = (True, root, oh1, log1)" "read_guard root version offset sz = None"
    and "read_metadata ar env root offset sz log1 = Some (True, vadv)"
    and "honest_pages ar env (rt_page_size root) vadv pages" "read_answers ar env (rt_page_size root) offset sz pages vadv"
    and "read_fits (rt_page_size root) offset sz" "length mem = unat sz"
  shows "\<exists>log'. oh_read ar env offset sz mem version oh log =
    (Ret True, take (unat sz) (drop (unat offset mod unat (rt_page_size root)) (concat pages)), oh1, log')"
proof -
  have "read_answers ar env (rt_page_size root) offset sz pages (ps_vadv (first_state vadv mem log1))"
    using assms(5) by (simp add: first_state_def)
  from read_pages_total [OF honest_setting [OF assms(4,6,3,7)] this] show ?thesis
    unfolding oh_read_pages [OF assms(1,2,3)] by auto
qed

end
