(* ===== verification/Snapshot_Read.thy ===== *)
theory Snapshot_Read
  imports Read_Live Snapshots
begin

text \<open>
  Reads of the client library on the metadata tree of a version: the pages that \<open>read\<close> asks for are
  those of \<open>content\<close>, and their bytes are a slice of the snapshot.
\<close>

definition first_page :: "u64 \<Rightarrow> u64 \<Rightarrow> nat" where
  "first_page ps offset = unat offset div unat ps"

definition stop_page :: "u64 \<Rightarrow> u64 \<Rightarrow> u64 \<Rightarrow> nat" where
  "stop_page ps offset sz = first_page ps offset + unat (read_nbr_vadv ps offset sz)"

lemma pages_of_range:
  assumes "read_fits ps offset sz"
  shows "first_page ps offset < stop_page ps offset sz" "unat offset = first_page ps offset * unat ps + page_off ps offset"
    "(stop_page ps offset sz - 1) * unat ps < unat offset + unat sz" "unat offset + unat sz \<le> stop_page ps offset sz * unat ps"
proof -
  let ?n = "unat (read_nbr_vadv ps offset sz)" and ?P = "unat ps"
  have c: "0 < ?n" "(?n - 1) * ?P < page_off ps offset + unat sz" "page_off ps offset + unat sz \<le> ?n * ?P"
    using read_cut [OF assms] by (simp_all add: cut_def)
  show "first_page ps offset < stop_page ps offset sz" using c(1) by (simp add: stop_page_def)
  show off: "unat offset = first_page ps offset * ?P + page_off ps offset" by (simp add: first_page_def)
  have "stop_page ps offset sz - 1 = first_page ps offset + (?n - 1)" using c(1) by (simp add: stop_page_def)
  then have "(stop_page ps offset sz - 1) * ?P = first_page ps offset * ?P + (?n - 1) * ?P" by (simp add: add_mult_distrib)
  then show "(stop_page ps offset sz - 1) * ?P < unat offset + unat sz" using off c(2) by linarith
  have "stop_page ps offset sz * ?P = first_page ps offset * ?P + ?n * ?P" by (simp add: stop_page_def add_mult_distrib)
  then show "unat offset + unat sz \<le> stop_page ps offset sz * ?P" using off c(3) by linarith
qed

lemma stop_page_bound:
  assumes "read_fits ps offset sz" "fits ps N" "offset + sz \<le> pw ps N"
  shows "stop_page ps offset sz \<le> N"
proof -
  note r = pages_of_range [OF assms(1)]
  have N: "unat (pw ps N) = N * unat ps"
    using assms(2) by (simp add: pw_def fits_def unat_word_ariths unat_of_nat) (metis mod_less mod_mult_left_eq)
  have "unat offset + unat sz \<le> N * unat ps"
    using assms(3) unat_end [OF assms(1)] by (simp add: word_le_nat_alt N)
  with r(3) have "(stop_page ps offset sz - 1) * unat ps < N * unat ps" by linarith
  then have "stop_page ps offset sz - 1 < N" by simp
  then show ?thesis by linarith
qed

lemma version_metadata:
  assumes "archive_ok ar" and "history ar ps d rc K0 q0 f0 ws" and "n < length ws"
    and "store_has ar ps K0 q0 f0 ws (Suc n) (en_dht env log)"
    and "rt_node root = root_of ps d q0 ws (Suc n)" and "rt_page_size root = ps"
    and "read_guard root version offset sz = None" and "read_fits ps offset sz"
    and "\<forall>p. first_page ps offset \<le> p \<and> p < stop_page ps offset sz \<longrightarrow> content rc f0 ws (Suc n) p \<noteq> None"
  shows "\<exists>vadv. read_metadata ar env root offset sz log = Some (True, vadv) \<and>
     length vadv = stop_page ps offset sz - first_page ps offset \<and>
     (\<forall>p x. first_page ps offset \<le> p \<and> p < stop_page ps offset sz \<and> content rc f0 ws (Suc n) p = Some x \<longrightarrow>
        vadv ! (p - first_page ps offset) = page_result x)"
proof -
  let ?a = "first_page ps offset" and ?b = "stop_page ps offset sz" and ?n = "read_nbr_vadv ps offset sz"
  note t = version_represents [OF assms(1-5)]
  have ab: "?a < ?b" by (rule pages_of_range(1) [OF assms(8)])
  have d: "?b - ?a = unat ?n" by (simp add: stop_page_def)
  have "offset + sz \<le> q_size (rt_node root)" using assms(7) by (auto simp: read_guard_def split: if_splits)
  then have b: "?b \<le> 2 ^ wr_level (ws ! n)"
    by (intro stop_page_bound [OF assms(8) t(3)]) (simp add: assms(5) root_of_def)
  let ?rng = "\<lparr>q_id = q_id (rt_node root), q_version = q_version (rt_node root),
                 q_offset = read_new_offset ps offset, q_size = ?n * ps\<rparr>"
  have g: "q_offset ?rng = pw ps ?a" "q_size ?rng = pw ps (?b - ?a)"
    unfolding d by (simp_all add: pw_def read_new_offset_def first_page_def unat_div [symmetric] del: unat_div)
  have l: "length (replicate (unat ?n) random_select_init) = ?b - ?a" "?b - ?a < 2 ^ 32"
    using read_fitsD(5) [OF assms(8)] by (simp_all add: d)
  from read_total [OF t(3) assms(6) t(2,1,4) g ab b l, of "en_dht_pick env log"] assms(9) obtain ok vadv where
    v: "readRecordLocations ar (en_dht env log) (en_dht_pick env log) (replicate (unat ?n) random_select_init) ?rng root = Some (ok, vadv)"
      "length vadv = ?b - ?a" "ok"
      "ok \<longrightarrow> (\<forall>p x. ?a \<le> p \<and> p < ?b \<and> content rc f0 ws (Suc n) p = Some x \<longrightarrow> vadv ! (p - ?a) = page_result x)" by blast
  from v(1,3) have "read_metadata ar env root offset sz log = Some (True, vadv)"
    unfolding read_metadata_def assms(6) Let_def by simp
  with v(2-4) show ?thesis by blast
qed

lemma drop_whole_pages:
  assumes "\<forall>p. length (data p) = P" "a \<le> b"
  shows "drop (a * P + k) (concat (map data [0..<b])) = drop k (concat (map data [a..<b]))"
proof -
  have "[0..<b] = [0..<a] @ [a..<b]" using upt_add_eq_append [of 0 a "b - a"] assms(2) by simp
  moreover have "length (concat (map data [0..<a])) = a * P"
    using length_concat_equal [of "map data [0..<a]" P] assms(1) by simp
  ultimately show ?thesis by (simp add: add.commute)
qed

lemma page_answers_mono: "page_answers ar env part page rs \<Longrightarrow> (part' \<Longrightarrow> part) \<Longrightarrow> page_answers ar env part' page rs"
  by (auto simp: page_answers_def)

text \<open>What is needed of page \<open>p\<close> with the contents \<open>page\<close>, if the range covers it as a whole or in part.\<close>

definition page_available ::
  "archive \<Rightarrow> env \<Rightarrow> u64 \<Rightarrow> u64 \<Rightarrow> u64 \<Rightarrow> page_info option \<Rightarrow> nat \<Rightarrow> buffer \<Rightarrow> bool" where
  "page_available ar env ps offset sz info p page \<longleftrightarrow>
     (case info of None \<Rightarrow> False
      | Some x \<Rightarrow> honest_page ar env (fst x) page \<and>
          page_answers ar env (p * unat ps < unat offset \<or> unat offset + unat sz < Suc p * unat ps) page (page_result x))"

lemma snapshot_honest:
  assumes "length vadv = stop_page ps offset sz - first_page ps offset"
    and "\<And>p. first_page ps offset \<le> p \<Longrightarrow> p < stop_page ps offset sz \<Longrightarrow>
        \<exists>x. vadv ! (p - first_page ps offset) = page_result x \<and> honest_page ar env (fst x) (data p)"
    and "partial_checked env" "\<forall>p. length (data p) = unat ps"
  shows "honest_pages ar env ps vadv (map data [first_page ps offset..<stop_page ps offset sz])"
proof -
  have "honest_page ar env (get_page_key (vadv ! i)) (data (first_page ps offset + i))" if "i < length vadv" for i
  proof -
    have "first_page ps offset + i < stop_page ps offset sz" using that assms(1) by simp
    from assms(2) [OF _ this] show ?thesis by (auto simp: page_result_def get_page_key_def)
  qed
  then show ?thesis using assms(1,3,4) by (auto simp: honest_pages_def)
qed

lemma snapshot_answers:
  assumes "read_fits ps offset sz" "length vadv = stop_page ps offset sz - first_page ps offset"
    and "\<And>p x. first_page ps offset \<le> p \<Longrightarrow> p < stop_page ps offset sz \<Longrightarrow> f p = Some x \<Longrightarrow>
        vadv ! (p - first_page ps offset) = page_result x"
    and "\<And>p. first_page ps offset \<le> p \<Longrightarrow> p < stop_page ps offset sz \<Longrightarrow> page_available ar env ps offset sz (f p) p (data p)"
    and "partial_checked env" "\<forall>p. length (data p) = unat ps"
  shows "honest_pages ar env ps vadv (map data [first_page ps offset..<stop_page ps offset sz])"
    "read_answers ar env ps offset sz (map data [first_page ps offset..<stop_page ps offset sz]) vadv"
proof -
  let ?a = "first_page ps offset" and ?b = "stop_page ps offset sz" and ?P = "unat ps"
  let ?pages = "map data [?a..<?b]"
  note r = pages_of_range [OF assms(1)]
  have each: "\<exists>x. vadv ! (p - ?a) = page_result x \<and> honest_page ar env (fst x) (data p) \<and>
      page_answers ar env (p * ?P < unat offset \<or> unat offset + unat sz < Suc p * ?P) (data p) (vadv ! (p - ?a))"
    if "?a \<le> p" "p < ?b" for p
    using assms(3,4) [OF that] by (auto simp: page_available_def split: option.splits)
  show "honest_pages ar env ps vadv ?pages"
    by (rule snapshot_honest [OF assms(2) _ assms(5,6)]) (use each in blast)
  show "read_answers ar env ps offset sz ?pages vadv" unfolding read_answers_def
  proof (intro allI impI)
    fix i assume i: "i < length vadv"
    have pg: "?pages ! i = data (?a + i)" using i assms(2) by simp
    show "page_answers ar env (i = 0 \<and> offset mod ps \<noteq> 0 \<or> Suc i = length vadv \<and> (offset + sz) mod ps \<noteq> 0) (?pages ! i) (vadv ! i)"
      unfolding pg
    proof (rule page_answers_mono)
      have p: "?a \<le> ?a + i" "?a + i < ?b" using i assms(2) by simp_all
      show "page_answers ar env ((?a + i) * ?P < unat offset \<or> unat offset + unat sz < Suc (?a + i) * ?P) (data (?a + i)) (vadv ! i)"
        using each [OF p] by auto
    next
      assume "i = 0 \<and> offset mod ps \<noteq> 0 \<or> Suc i = length vadv \<and> (offset + sz) mod ps \<noteq> 0"
      then show "(?a + i) * ?P < unat offset \<or> unat offset + unat sz < Suc (?a + i) * ?P"
      proof
        assume "i = 0 \<and> offset mod ps \<noteq> 0"
        then show ?thesis using r(2) offset_aligned_iff [of offset ps] by auto
      next
        assume s: "Suc i = length vadv \<and> (offset + sz) mod ps \<noteq> 0"
        then have b: "Suc (?a + i) = ?b" using assms(2) r(1) by linarith
        have "unat offset + unat sz \<noteq> ?b * ?P"
        proof
          assume "unat offset + unat sz = ?b * ?P"
          then have "unat ((offset + sz) mod ps) = 0" by (simp add: unat_mod unat_end [OF assms(1)])
          then have "(offset + sz) mod ps = 0" by (metis word_unat_eq_iff unat_0)
          with s show False by simp
        qed
        with r(4) show ?thesis unfolding b by simp
      qed
    qed
  qed
qed

text \<open>A read of a range of a published version, on any environment in which its pages are available.\<close>

lemma snapshot_slice:
  assumes "archive_ok ar" and "history ar ps d rc K0 q0 f0 ws" and "n < length ws"
    and "query_root_of ar env version oh log = (True, root, oh1, log1)"
    and "rt_node root = root_of ps d q0 ws (Suc n)" and "rt_page_size root = ps"
    and "store_has ar ps K0 q0 f0 ws (Suc n) (en_dht env log1)"
    and "read_guard root version offset sz = None" and "read_fits ps offset sz" and "length mem = unat sz"
    and "\<forall>p. length (data p) = unat ps" and "partial_checked env"
    and "\<forall>p. first_page ps offset \<le> p \<and> p < stop_page ps offset sz \<longrightarrow>
       page_available ar env ps offset sz (content rc f0 ws (Suc n) p) p (data p)"
  shows "\<exists>log'. oh_read ar env offset sz mem version oh log =
    (Ret True, take (unat sz) (drop (unat offset) (concat (map data [0..<stop_page ps offset sz]))), oh1, log')"
proof -
  let ?a = "first_page ps offset" and ?b = "stop_page ps offset sz"
  have "\<forall>p. ?a \<le> p \<and> p < ?b \<longrightarrow> content rc f0 ws (Suc n) p \<noteq> None"
    using assms(13) by (auto simp: page_available_def simp del: content.simps split: option.splits)
  from version_metadata [OF assms(1-3,7,5,6,8,9) this] obtain vadv where
    v: "read_metadata ar env root offset sz log1 = Some (True, vadv)" "length vadv = ?b - ?a"
    "\<And>p x. ?a \<le> p \<Longrightarrow> p < ?b \<Longrightarrow> content rc f0 ws (Suc n) p = Some x \<Longrightarrow> vadv ! (p - ?a) = page_result x" by blast
  note ans = snapshot_answers [OF assms(9) v(2,3) assms(13) [rule_format, OF conjI] assms(12,11)]
  note r = pages_of_range [OF assms(9)]
  have slice: "drop (unat offset) (concat (map data [0..<?b])) = drop (page_off ps offset) (concat (map data [?a..<?b]))"
    using drop_whole_pages [OF assms(11), of ?a ?b "page_off ps offset"] r(1,2) by simp
  show ?thesis
    unfolding slice using read_succeeds [OF assms(4,8) v(1), unfolded assms(6), OF ans assms(9,10)] .
qed

section \<open>Partial reads\<close>

text \<open>The page at position \<open>p\<close> belongs to the range only in part.\<close>

lemma part_of_page:
  assumes "read_fits ps offset sz" "first_page ps offset \<le> p" "p < stop_page ps offset sz" "n = stop_page ps offset sz - first_page ps offset"
    and "p * unat ps < unat offset \<or> unat offset + unat sz < Suc p * unat ps" "i = p - first_page ps offset"
  shows "offset mod ps \<noteq> 0 \<and> i = 0 \<or> ((offset + sz) mod ps \<noteq> 0 \<and> 1 < n \<or> offset mod ps = 0 \<and> sz < ps) \<and> i = n - 1"
proof -
  let ?P = "unat ps" and ?a = "first_page ps offset" and ?b = "stop_page ps offset sz"
  note r = pages_of_range [OF assms(1)] and f = read_fitsD [OF assms(1)]
  have al: "offset mod ps = 0 \<longleftrightarrow> page_off ps offset = 0" by (rule offset_aligned_iff)
  have ap: "?a * ?P \<le> p * ?P" using assms(2) by (rule mult_le_mono1)
  have left: "p = ?a \<and> offset mod ps \<noteq> 0" if "p * ?P < unat offset"
  proof -
    have "p \<le> ?a" using that f(1) unfolding first_page_def by (simp add: less_eq_div_iff_mult_less_eq)
    then show ?thesis using assms(2) that r(2) al by auto
  qed
  have right: "p = ?b - 1 \<and> (offset + sz) mod ps \<noteq> 0" if "unat offset + unat sz < Suc p * ?P"
  proof -
    have "(?b - 1) * ?P < Suc p * ?P" using r(3) that by linarith
    then have "?b - 1 < Suc p" by (simp only: mult_less_cancel2)
    then have p: "p = ?b - 1" using assms(3) by simp
    have "p * ?P < unat offset + unat sz" using r(3) p by simp
    then have "(unat offset + unat sz) div ?P = p" using that by (intro div_nat_eqI) (simp_all add: mult.commute)
    then have "(unat offset + unat sz) mod ?P = unat offset + unat sz - p * ?P" by (metis minus_div_mult_eq_mod)
    then have "(unat offset + unat sz) mod ?P \<noteq> 0" using \<open>p * ?P < unat offset + unat sz\<close> by simp
    then show ?thesis using p unat_end [OF assms(1)] by (simp add: word_unat_eq_iff unat_mod)
  qed
  have short: "sz < ps" if "unat offset + unat sz < Suc p * ?P" "n = 1" "offset mod ps = 0"
  proof -
    have "p = ?a" using that(2) assms(2-4) by simp
    then show ?thesis using that r(2) al by (simp add: word_less_nat_alt)
  qed
  have n: "1 \<le> n" using r(1) assms(4) by simp
  from assms(5) show ?thesis
  proof
    assume "p * ?P < unat offset"
    from left [OF this] show ?thesis by (intro disjI1) (simp add: assms(6))
  next
    assume e: "unat offset + unat sz < Suc p * ?P"
    from right [OF e] have "(offset + sz) mod ps \<noteq> 0" "i = n - 1" using assms(4,6) by auto
    moreover have "i = 0" if "n = 1" using that \<open>i = n - 1\<close> by simp
    moreover have "1 < n" if "n \<noteq> 1" using that n by simp
    ultimately show ?thesis using short [OF e] by metis
  qed
qed

text \<open>
  C33: A partial read is not retried on the other replicas. If a range covers a page only in part, at its
  left or at its right end, and the replica of this page that was drawn first does not answer, the read does
  not succeed, however many other replicas hold the page: the retry carries a size in place of the
  key and the offset, and every provider refuses it.
\<close>

theorem partial_read_has_no_failover:
  assumes "query_root_of ar env version oh log = (True, root, oh1, log1)"
    and "read_metadata ar env root offset sz log1 = Some (True, vadv)" "read_fits (rt_page_size root) offset sz" "partial_checked env"
    and "first_page (rt_page_size root) offset \<le> p" "p < stop_page (rt_page_size root) offset sz"
    and "p * unat (rt_page_size root) < unat offset \<or> unat offset + unat sz < Suc p * unat (rt_page_size root)"
    and "i = p - first_page (rt_page_size root) offset" "try_next (en_rand env log1 i (vadv ! i)) (vadv ! i) = (adv, rs)"
    and "\<And>log c. rc_host c = pd_host adv \<Longrightarrow> rc_service c = pd_service adv \<Longrightarrow> fst (en_answer env log c) \<noteq> rpc_ok"
  shows "fst (oh_read ar env offset sz mem version oh log) \<noteq> Ret True"
proof (cases "read_guard root version offset sz")
  case (Some e)
  then show ?thesis using assms(1) by (simp add: oh_read_def)
next
  case None
  let ?ps = "rt_page_size root"
  have len: "length vadv = stop_page ?ps offset sz - first_page ?ps offset" "length vadv < 2 ^ 32"
    using read_metadata_length [OF assms(2)] read_fitsD(5) [OF assms(3)] by (simp_all add: stop_page_def)
  have ne: "vadv \<noteq> []" using len(1) assms(5,6) by auto
  have "refuses env adv" using assms(10) by (simp add: refuses_def)
  from partial_page_refused [OF assms(4) ne len(2) part_of_page [OF assms(3,5,6) len(1) assms(7,8)] assms(9) this, of ar mem]
  show ?thesis unfolding oh_read_pages [OF assms(1) None assms(2)] by (auto split: prod.splits)
qed

section \<open>Instances\<close>

text \<open>
  The two pages of the instance of \<open>Snapshots\<close>, on providers that answer unless they are called
  \<open>down\<close>.
\<close>

definition rd_page :: "nat \<Rightarrow> buffer" where
  "rd_page p = (if p = 0 then [0, 1, 2, 3, 4, 5, 6, 7] else if p = 1 then [8, 9, 10, 11, 12, 13, 14, 15] else replicate 8 0)"

definition rd_answer :: "string \<Rightarrow> rpc_call \<Rightarrow> rpcreturn_t \<times> rpcvector_t" where
  "rd_answer down c =
     (let page = rd_page (if rc_params c ! 0 = dht_key plain_archive (ex_pages ! 0) then 0 else 1) in
      if rc_host c = down then (rpc_eobj, [])
      else if rc_name c = PROVIDER_READ then (rpc_ok, [page])
      else if length (rc_params c) \<noteq> 3 then (rpc_eobj, [])
      else case (getValue plain_archive (ar_u64 plain_archive) (rc_params c ! 1), getValue plain_archive (ar_u64 plain_archive) (rc_params c ! 2)) of
        (Got off, Got ln) \<Rightarrow> (rpc_ok, [take (unat ln) (drop (unat off) page)])
      | _ \<Rightarrow> (rpc_eobj, []))"

definition rd_env :: "string \<Rightarrow> env" where
  "rd_env down = (ex_env rpc_ok)\<lparr>en_answer := (\<lambda>log. rd_answer down), en_dht := (\<lambda>log. ex_store)\<rparr>"

definition rd_handler :: object_handler where
  "rd_handler = ex_handler\<lparr>latest_root := root_t_make 1 1 8 16 1\<rparr>"

lemma rd_env_simps [simp]: "en_answer (rd_env down) log = rd_answer down" "en_dht (rd_env down) log = ex_store"
  "en_dht_pick (rd_env down) = (\<lambda>log s. 0)" "en_rand (rd_env down) = (\<lambda>log i rs. 0)"
  by (simp_all add: rd_env_def ex_env_def)

lemma rd_partial: "partial_checked (rd_env down)"
  by (simp add: partial_checked_def rd_answer_def Let_def rpc_names rpc_ok_def rpc_eobj_def)

lemma rd_keys: "dht_key plain_archive (ex_pages ! 1) \<noteq> dht_key plain_archive (ex_pages ! 0)"
  by (simp add: dht_key_eq_iff [OF plain_archive_ok] ex_pages_def)

lemma rd_page_of:
  assumes "i < 2" "k = dht_key plain_archive (ex_pages ! i)"
  shows "rd_page (if k = dht_key plain_archive (ex_pages ! 0) then 0 else 1) = rd_page i"
  using assms rd_keys by (auto simp: less_2_cases_iff)

lemma rd_answers:
  assumes "i < 2"
  shows "rc_name c = PROVIDER_READ \<Longrightarrow> rc_params c = [dht_key plain_archive (ex_pages ! i)] \<Longrightarrow>
      rd_answer down c = (if rc_host c = down then (rpc_eobj, []) else (rpc_ok, [rd_page i]))"
    "rc_name c = PROVIDER_READ_PARTIAL \<Longrightarrow> rc_params c = [dht_key plain_archive (ex_pages ! i),
        buffer_wrapper plain_archive (ar_u64 plain_archive) off, buffer_wrapper plain_archive (ar_u64 plain_archive) ln] \<Longrightarrow>
      rd_answer down c = (if rc_host c = down then (rpc_eobj, []) else (rpc_ok, [take (unat ln) (drop (unat off) (rd_page i))]))"
  using rd_page_of [OF assms refl] by (simp_all add: rd_answer_def Let_def rpc_names plain_archive_ok del: if_image_distrib)

lemma rd_honest: "i < 2 \<Longrightarrow> honest_page plain_archive (rd_env down) (ex_pages ! i) (rd_page i)"
  unfolding honest_page_def by (auto simp: rd_answers split: if_splits)

lemma rd_good:
  "i < 2 \<Longrightarrow> pd_host adv \<noteq> down \<Longrightarrow> good_provider plain_archive (rd_env down) (ex_pages ! i) (rd_page i) adv"
  unfolding good_provider_def by (auto simp: rd_answers)

lemma rd_length: "length (rd_page p) = unat (8 :: u64)"
  by (simp add: rd_page_def)

lemma rd_root: "rt_node (root_t_make 1 1 8 16 1) = root_of 8 1 ex_base [ex_write] (Suc 0)" "rt_page_size (root_t_make 1 1 8 16 1) = 8"
  by (simp_all add: root_t_make_def root_of_def ex_write_def nodeq_def pw_def)

lemma rd_query: "query_root_of plain_archive (rd_env down) 0 rd_handler [] = (True, root_t_make 1 1 8 16 1, rd_handler, [])"
  by (simp add: query_root_of_def rd_handler_def)

lemma rd_guard: "read_guard (root_t_make 1 1 8 16 1) 0 3 10 = None"
  by (simp add: read_guard_def root_t_make_def)

lemma rd_range: "read_nbr_vadv 8 3 10 = 2" "first_page 8 3 = 0" "stop_page 8 3 10 = 2"
  by (simp_all add: read_nbr_vadv_def read_new_offset_def stop_page_def first_page_def)

lemma rd_fits: "read_fits 8 3 10"
  by (simp add: read_fits_def rd_range)

lemma rd_content: "p < 2 \<Longrightarrow> content 1 Map.empty [ex_write] (Suc 0) p = Some (ex_pages ! p, [ex_provs ! p])"
  by (auto simp: ex_write_def written_page_def page_providers_def upt_rec less_2_cases_iff)

lemma rd_metadata:
  "\<exists>vadv. read_metadata plain_archive (rd_env down) (root_t_make 1 1 8 16 1) 3 10 [] = Some (True, vadv) \<and> length vadv = 2 \<and>
     (\<forall>p < 2. vadv ! p = page_result (ex_pages ! p, [ex_provs ! p]))"
proof -
  have h: "0 < length [ex_write]" "store_has plain_archive 8 0 ex_base Map.empty [ex_write] (Suc 0) (en_dht (rd_env down) [])"
    using ex_has by simp_all
  have all: "\<forall>p. first_page 8 3 \<le> p \<and> p < stop_page 8 3 10 \<longrightarrow> content 1 Map.empty [ex_write] (Suc 0) p \<noteq> None"
    using rd_content by (simp add: rd_range del: content.simps)
  from version_metadata [OF plain_archive_ok ex_history h rd_root rd_guard rd_fits all] rd_content show ?thesis
    by (auto simp: rd_range simp del: content.simps)
qed

lemma rd_available:
  "p < 2 \<Longrightarrow> page_available plain_archive (rd_env ''c'') 8 3 10 (content 1 Map.empty [ex_write] (Suc 0) p) p (rd_page p)"
  using rd_good [of p "ex_provs ! p" "''c''"] rd_content [of p] rd_honest [of p "''c''"]
  by (auto simp: page_available_def page_answers_def named_replicas_def some_good_def page_result_def provider_desc_empty_def
      ex_provs_def less_2_cases_iff simp del: content.simps)

theorem read_returns_slice_witness:
  "\<exists>mem log. oh_read plain_archive (rd_env ''c'') 3 10 (replicate 10 0) 0 rd_handler [] = (Ret True, mem, rd_handler, log) \<and>
     mem = [3, 4, 5, 6, 7, 8, 9, 10, 11, 12]"
proof -
  let ?root = "root_t_make 1 1 8 16 1" and ?pages = "map rd_page [0..<2]"
  obtain vadv where v: "read_metadata plain_archive (rd_env ''c'') ?root 3 10 [] = Some (True, vadv)" "length vadv = 2"
    "\<forall>p < 2. vadv ! p = page_result (ex_pages ! p, [ex_provs ! p])"
    using rd_metadata by blast
  have ans: "honest_pages plain_archive (rd_env ''c'') (rt_page_size ?root) vadv ?pages"
    "read_answers plain_archive (rd_env ''c'') (rt_page_size ?root) 3 10 ?pages vadv"
    using snapshot_answers [OF rd_fits, of vadv "content 1 Map.empty [ex_write] (Suc 0)" plain_archive "rd_env ''c''" rd_page]
      v(2,3) rd_content rd_available rd_partial rd_length by (simp_all add: rd_range rd_root del: content.simps)
  have fit: "read_fits (rt_page_size ?root) 3 10" "length (replicate 10 0 :: buffer) = unat (10 :: u64)"
    using rd_fits by (simp_all add: rd_root)
  from read_succeeds [OF rd_query rd_guard v(1) ans fit] obtain mem log where
    run: "oh_read plain_archive (rd_env ''c'') 3 10 (replicate 10 0) 0 rd_handler [] = (Ret True, mem, rd_handler, log)" by blast
  have "mem = take (unat (10 :: u64)) (drop (unat (3 :: u64) mod unat (rt_page_size ?root)) (concat ?pages))"
    by (rule read_returns_slice [OF run rd_query v(1) ans(1) fit])
  also have "\<dots> = [3, 4, 5, 6, 7, 8, 9, 10, 11, 12]" by (simp add: rd_page_def upt_rec rd_root)
  finally show ?thesis using run by blast
qed

text \<open>A blob of one page with two replicas, the first of which is down.\<close>

definition two_store :: dht_values where
  "two_store k =
     (if k = dht_key plain_archive (rt_node (root_t_make 1 1 8 8 2))
      then buffer_wrapper plain_archive (ser_dhtnode plain_archive) ((dhtnode_make True)\<lparr>nd_left := ex_pages ! 0\<rparr>)
      else if k = dht_key plain_archive (ex_pages ! 0) then buffer_wrapper plain_archive (ser_replica_list plain_archive) ex_provs
      else [])"

definition two_env :: env where
  "two_env = (rd_env ''a'')\<lparr>en_dht := (\<lambda>log. two_store)\<rparr>"

definition two_handler :: object_handler where
  "two_handler = ex_handler\<lparr>latest_root := root_t_make 1 1 8 8 2\<rparr>"

lemma two_env_simps [simp]: "en_answer two_env log = rd_answer ''a''" "en_dht two_env log = two_store"
  "en_dht_pick two_env = (\<lambda>log s. 0)" "en_rand two_env = (\<lambda>log i rs. 0)" "en_pick two_env log = 0"
  by (simp_all add: two_env_def rd_env_def ex_env_def)

definition two_page :: random_select where
  "two_page = \<lparr>rs_providers = ex_provs, rs_page_key = ex_pages ! 0\<rparr>"

lemma two_store_simps:
  "two_store (dht_key plain_archive (rt_node (root_t_make 1 1 8 8 2))) = buffer_wrapper plain_archive (ser_dhtnode plain_archive) ((dhtnode_make True)\<lparr>nd_left := ex_pages ! 0\<rparr>)"
  "two_store (dht_key plain_archive (ex_pages ! 0)) = buffer_wrapper plain_archive (ser_replica_list plain_archive) ex_provs"
  by (simp_all add: two_store_def dht_key_eq_iff plain_archive_ok ex_pages_def root_t_make_def)

lemma two_metadata:
  assumes "sz \<in> {3, 8}"
  shows "read_metadata plain_archive two_env (root_t_make 1 1 8 8 2) 0 sz [] = Some (True, [two_page])"
proof -
  have "read_nbr_vadv 8 0 3 = 1" "read_nbr_vadv 8 0 8 = 1" by (simp_all add: read_nbr_vadv_def read_new_offset_def)
  then have n: "read_nbr_vadv 8 0 sz = 1" "rt_page_size (root_t_make 1 1 8 8 2) = 8" using assms by (auto simp: root_t_make_def)
  let ?rng = "\<lparr>q_id = 1, q_version = 1, q_offset = 0, q_size = 8\<rparr>"
  let ?root = "rt_node (root_t_make 1 1 8 8 2)"
  have "run_reads plain_archive two_store ?rng 8 (\<lambda>s. 0) \<lparr>rd_pending = [Get_node ?root 0], rd_result = True, rd_leaves = [random_select_init]\<rparr> =
      run_reads plain_archive two_store ?rng 8 (\<lambda>s. 0) \<lparr>rd_pending = [Get_leaf (ex_pages ! 0) 0], rd_result = True, rd_leaves = [random_select_init]\<rparr>"
    by (subst run_reads.simps)
      (simp add: deliver_def read_callback_def two_store_simps read_node_def plain_archive_ok dhtnode_make_def)
  also have "\<dots> = Some \<lparr>rd_pending = [], rd_result = True, rd_leaves = [two_page]\<rparr>"
    by (subst run_reads.simps)
      (simp add: run_reads.simps [of _ _ _ _ _ "\<lparr>rd_pending = [], rd_result = a, rd_leaves = b\<rparr>" for a b] deliver_def leaf_callback_def two_store_simps set_providers_def plain_archive_ok two_page_def random_select_init_def)
  finally show ?thesis using n
    by (simp add: read_metadata_def readRecordLocations_def Let_def read_new_offset_def) (simp add: root_t_make_def)
qed

text \<open>The page can be read as a whole, from the second replica, but not its first three bytes.\<close>

theorem partial_read_has_no_failover_witness:
  "fst (oh_read plain_archive two_env 0 3 (replicate 3 0) 0 two_handler []) \<noteq> Ret True \<and>
   fst (oh_read plain_archive two_env 0 8 (replicate 8 0) 0 two_handler []) = Ret True"
proof
  let ?root = "root_t_make 1 1 8 8 2"
  have q: "query_root_of plain_archive two_env 0 two_handler [] = (True, ?root, two_handler, [])"
    by (simp add: query_root_of_def two_handler_def)
  have ps: "rt_page_size ?root = 8" by (simp add: root_t_make_def)
  have rng: "read_fits (rt_page_size ?root) 0 3" "first_page (rt_page_size ?root) 0 \<le> 0" "0 < stop_page (rt_page_size ?root) 0 3"
    "0 * unat (rt_page_size ?root) < unat (0 :: u64) \<or> unat (0 :: u64) + unat (3 :: u64) < Suc 0 * unat (rt_page_size ?root)"
    by (simp_all add: ps read_fits_def read_nbr_vadv_def read_new_offset_def stop_page_def first_page_def)
  have part: "partial_checked two_env" using rd_partial [of "''a''"] by (simp add: partial_checked_def)
  have tn: "try_next (en_rand two_env [] 0 ([two_page] ! 0)) ([two_page] ! 0) = (ex_provs ! 0, \<lparr>rs_providers = tl ex_provs, rs_page_key = ex_pages ! 0\<rparr>)"
    by (simp add: two_page_def try_next_def ex_provs_def)
  have down: "fst (en_answer two_env log c) \<noteq> rpc_ok" if "rc_host c = pd_host (ex_provs ! 0)" "rc_service c = pd_service (ex_provs ! 0)" for log c
    using that by (simp add: rd_answer_def Let_def ex_provs_def rpc_ok_def rpc_eobj_def)
  show "fst (oh_read plain_archive two_env 0 3 (replicate 3 0) 0 two_handler []) \<noteq> Ret True"
    by (rule partial_read_has_no_failover [OF q two_metadata rng(1) part rng(2-4) _ tn down]) simp_all
  have g: "read_guard ?root 0 0 8 = None" by (simp add: read_guard_def root_t_make_def)
  have m: "read_metadata plain_archive two_env ?root 0 8 [] = Some (True, [two_page])" by (rule two_metadata) simp
  have same: "honest_page plain_archive two_env k d = honest_page plain_archive (rd_env ''a'') k d"
    "good_provider plain_archive two_env k d adv = good_provider plain_archive (rd_env ''a'') k d adv" for k d adv
    unfolding honest_page_def good_provider_def by simp_all
  have hp: "honest_pages plain_archive two_env (rt_page_size ?root) [two_page] [rd_page 0]"
    using rd_honest [of 0 "''a''"] part by (simp add: honest_pages_def same ps rd_length get_page_key_def two_page_def)
  have ra: "read_answers plain_archive two_env (rt_page_size ?root) 0 8 [rd_page 0] [two_page]"
    using rd_good [of 0 "ex_provs ! 1" "''a''"]
    by (simp add: read_answers_def page_answers_def named_replicas_def some_good_def same ps two_page_def ex_provs_def provider_desc_empty_def)
  have f: "read_fits (rt_page_size ?root) 0 8" "length (replicate 8 0 :: buffer) = unat (8 :: u64)"
    by (simp_all add: ps read_fits_def read_nbr_vadv_def read_new_offset_def)
  from read_succeeds [OF q g m hp ra f] show "fst (oh_read plain_archive two_env 0 8 (replicate 8 0) 0 two_handler []) = Ret True" by auto
qed

end
