(* ===== verification/Cluster_Read.thy ===== *)
theory Cluster_Read
  imports Pmgr_Listener Snapshot_Read
begin

text \<open>
  Reads of the client library on the providers of \<open>Page_Manager\<close>: the answers the client gets are
  those of the handlers of the providers it calls, in states that the providers can be in.
\<close>

section \<open>Providers as servers\<close>

text \<open>The handler registered for the request; a request without one is not answered.\<close>

definition serve :: "archive \<Rightarrow> 'p persist_ops \<Rightarrow> string \<Rightarrow> rpc_call \<Rightarrow> ('p, 'l) page_manager \<Rightarrow> ('p, 'l) page_manager outcome" where
  "serve ar ops sender c pm =
     (case provider_lookup ar ops sender (rc_name c) of Some h \<Rightarrow> h (rc_params c) pm | None \<Rightarrow> Hangs)"

text \<open>
  What a client receives. A handler that throws or does not return gives an error (the connection is
  closed or times out); after undefined behaviour the answer is arbitrary.
\<close>

definition answers_as :: "'s outcome \<Rightarrow> rpcreturn_t \<times> rpcvector_t \<Rightarrow> bool" where
  "answers_as out a \<longleftrightarrow>
     (case out of Returns st result _ \<Rightarrow> a = (st, result) | Undefined _ \<Rightarrow> True | _ \<Rightarrow> fst a \<noteq> rpc_ok)"

text \<open>
  \<open>pms log h\<close> is the provider behind host and service \<open>h\<close> when the client has made the calls of \<open>log\<close>, or
  \<open>None\<close> if it cannot be reached.
\<close>

definition provider_env ::
  "archive \<Rightarrow> 'p persist_ops \<Rightarrow> string \<Rightarrow> (oh_log \<Rightarrow> string \<times> string \<Rightarrow> ('p, 'l) page_manager option) \<Rightarrow> env \<Rightarrow> bool" where
  "provider_env ar ops sender pms env \<longleftrightarrow>
     (\<forall>log c. rc_buffers c \<noteq> [] \<and> rc_name c \<in> {PROVIDER_READ, PROVIDER_READ_PARTIAL} \<longrightarrow>
        (case pms log (rc_host c, rc_service c) of
           None \<Rightarrow> fst (en_answer env log c) \<noteq> rpc_ok
         | Some pm \<Rightarrow> answers_as (serve ar ops sender c pm) (en_answer env log c)))"

text \<open>The provider is up and has acknowledged the page with the key, whenever it is called.\<close>

definition keeps_page ::
  "archive \<Rightarrow> 'p persist_ops \<Rightarrow> ('p \<Rightarrow> 'p \<Rightarrow> bool) \<Rightarrow> 'p \<Rightarrow> (buffer \<rightharpoonup> buffer) \<Rightarrow> (oh_log \<Rightarrow> string \<times> string \<Rightarrow> ('p, 'l) page_manager option) \<Rightarrow>
     query_t \<Rightarrow> provider_desc \<Rightarrow> bool" where
  "keeps_page ar ops internal p0 M pms key adv \<longleftrightarrow>
     (\<forall>log. \<exists>pm W. pms log (pd_host adv, pd_service adv) = Some pm \<and> provider_reach ar ops internal p0 M W pm \<and> dht_key ar key \<in> W)"

lemma serve_reads:
  "rc_name c = PROVIDER_READ \<Longrightarrow> serve ar ops sender c pm = read_page ops sender (rc_params c) pm"
  "rc_name c = PROVIDER_READ_PARTIAL \<Longrightarrow> serve ar ops sender c pm = read_partial_page ar ops sender (rc_params c) pm"
  by (simp_all add: serve_def provider_lookup_def rpc_names)

lemma partial_env_checked:
  assumes "provider_env ar ops sender pms env"
  shows "partial_checked env"
  unfolding partial_checked_def
proof (intro allI impI)
  fix log and c :: rpc_call assume c: "rc_buffers c \<noteq> [] \<and> rc_name c = PROVIDER_READ_PARTIAL \<and> length (rc_params c) \<noteq> 3"
  then have "case pms log (rc_host c, rc_service c) of None \<Rightarrow> fst (en_answer env log c) \<noteq> rpc_ok
      | Some pm \<Rightarrow> answers_as (serve ar ops sender c pm) (en_answer env log c)"
    using assms unfolding provider_env_def by blast
  then show "fst (en_answer env log c) \<noteq> rpc_ok"
    using c by (auto simp: serve_reads read_partial_page_def answers_as_def rpc_earg_def rpc_ok_def split: option.splits)
qed

context persistency
begin

text \<open>Providers that keep one content per key are honest.\<close>

lemma providers_honest:
  fixes pms :: "oh_log \<Rightarrow> string \<times> string \<Rightarrow> ('p, 'l) page_manager option"
  assumes "archive_ok ar" "provider_env ar ops sender pms env"
    and "\<forall>log h pm. pms log h = Some pm \<longrightarrow> (\<exists>W. provider_reach ar ops internal p0 M W pm)"
    and "inv p0" "contents p0 = Map.empty" "finite (dom M)" "card (dom M) < 2 ^ 32"
    and "M (dht_key ar key) = Some page" "length page < 2 ^ 32"
  shows "honest_page ar env key page"
proof -
  have dk: "dht_key ar key \<noteq> []" using assms(1) by (simp add: dht_key_def)
  have ans: "\<exists>(pm :: ('p, 'l) page_manager) W. provider_reach ar ops internal p0 M W pm \<and> answers_as (serve ar ops sender c pm) (rpc_ok, r)"
    if c: "rc_buffers c \<noteq> []" "rc_name c \<in> {PROVIDER_READ, PROVIDER_READ_PARTIAL}" "en_answer env log c = (rpc_ok, r)" for log c r
  proof -
    have "case pms log (rc_host c, rc_service c) of None \<Rightarrow> fst (en_answer env log c) \<noteq> rpc_ok
      | Some pm \<Rightarrow> answers_as (serve ar ops sender c pm) (en_answer env log c)"
      using assms(2) c(1,2) unfolding provider_env_def by blast
    then obtain pm where "pms log (rc_host c, rc_service c) = Some pm" "answers_as (serve ar ops sender c pm) (rpc_ok, r)"
      using c(3) by (auto split: option.splits)
    with assms(3) show ?thesis by blast
  qed
  have whole: "b = page" if c: "rc_buffers c \<noteq> []" "rc_name c = PROVIDER_READ" "rc_params c = [dht_key ar key]"
    "en_answer env log c = (rpc_ok, [b])" for log c b
  proof -
    obtain pm :: "('p, 'l) page_manager" and W where pm: "provider_reach ar ops internal p0 M W pm" "answers_as (serve ar ops sender c pm) (rpc_ok, [b])"
      using ans [OF c(1) _ c(4)] c(2) by auto
    have "\<exists>st res pm'. read_page ops sender [dht_key ar key] pm = Returns st res pm'"
      using dk by (simp add: read_page_def print_buffer_def split: prod.splits option.splits)
    then obtain st res pm' where r: "read_page ops sender [dht_key ar key] pm = Returns st res pm'" by blast
    with pm(2) c have "read_page ops sender [dht_key ar key] pm = Returns rpc_ok [b] pm'" by (simp add: serve_reads answers_as_def)
    from read_page_sound [OF pm(1) assms(4-7) this] show ?thesis using assms(8) by simp
  qed
  have part: "b = take (unat len) (drop (unat off) page)"
    if c: "rc_buffers c \<noteq> []" "rc_name c = PROVIDER_READ_PARTIAL" "unat off + unat len \<le> length page" "en_answer env log c = (rpc_ok, [b])"
      "rc_params c = [dht_key ar key, buffer_wrapper ar (ar_u64 ar) off, buffer_wrapper ar (ar_u64 ar) len]" for log c off len b
  proof -
    obtain pm :: "('p, 'l) page_manager" and W where pm: "provider_reach ar ops internal p0 M W pm" "answers_as (serve ar ops sender c pm) (rpc_ok, [b])"
      using ans [OF c(1) _ c(4)] c(2) by auto
    note st = acknowledged_stored [OF pm(1) assms(4-7)]
    have sv: "serve ar ops sender c pm = read_partial_page ar ops sender (rc_params c) pm" using c(2) by (rule serve_reads(2))
    obtain v p where v: "pe_read ops (dht_key ar key) (page_cache pm) = (v, p)" by fastforce
    show ?thesis
    proof (cases v)
      case None
      then have "read_partial_page ar ops sender (rc_params c) pm = Returns rpc_eobj [] (pm\<lparr>page_cache := p\<rparr>)"
        using c(5) v dk assms(1) archive_okD [OF assms(1)] by (simp add: read_partial_page_def print_buffer_def)
      then show ?thesis using pm(2) sv by (simp add: answers_as_def rpc_eobj_def rpc_ok_def)
    next
      case (Some data)
      have "contents (page_cache pm) (dht_key ar key) = Some data" using read_sound [of "page_cache pm"] st v Some by blast
      then have d: "data = page" using st assms(8) map_le_Some by fastforce
      obtain pm' where "read_partial_page ar ops sender (rc_params c) pm = Returns rpc_ok [take (unat len) (drop (unat off) page)] pm'"
        using partial_read_inside [OF assms(1) v [unfolded Some d] assms(9) dk c(3), of sender] c(5) by auto
      then show ?thesis using pm(2) sv by (simp add: answers_as_def)
    qed
  qed
  show ?thesis unfolding honest_page_def using whole part by blast
qed

end

context exact_persistency
begin

lemma provider_good:
  fixes pms :: "oh_log \<Rightarrow> string \<times> string \<Rightarrow> ('a, 'l) page_manager option"
  assumes "archive_ok ar" "provider_env ar ops sender pms env" "keeps_page ar ops internal p0 M pms key adv"
    and "inv p0" "contents p0 = Map.empty" "finite (dom M)" "card (dom M) < 2 ^ 32"
    and "M (dht_key ar key) = Some page" "length page < 2 ^ 32"
  shows "good_provider ar env key page adv"
proof -
  have dk: "dht_key ar key \<noteq> []" using assms(1) by (simp add: dht_key_def)
  have ans: "\<exists>(pm :: ('a, 'l) page_manager) W. provider_reach ar ops internal p0 M W pm \<and> dht_key ar key \<in> W \<and> answers_as (serve ar ops sender c pm) (en_answer env log c)"
    if "rc_buffers c \<noteq> []" "rc_host c = pd_host adv" "rc_service c = pd_service adv" "rc_name c \<in> {PROVIDER_READ, PROVIDER_READ_PARTIAL}" for log c
  proof -
    obtain pm W where pm: "pms log (pd_host adv, pd_service adv) = Some pm" "provider_reach ar ops internal p0 M W pm" "dht_key ar key \<in> W"
      using assms(3) unfolding keeps_page_def by blast
    have "case pms log (rc_host c, rc_service c) of None \<Rightarrow> fst (en_answer env log c) \<noteq> rpc_ok
      | Some pm \<Rightarrow> answers_as (serve ar ops sender c pm) (en_answer env log c)"
      using assms(2) that(1,4) unfolding provider_env_def by blast
    with pm that(2,3) show ?thesis by auto
  qed
  have whole: "en_answer env log c = (rpc_ok, [page])"
    if c: "rc_buffers c \<noteq> []" "rc_host c = pd_host adv" "rc_service c = pd_service adv" "rc_name c = PROVIDER_READ" "rc_params c = [dht_key ar key]" for log c
  proof -
    obtain pm :: "('a, 'l) page_manager" and W where pm: "provider_reach ar ops internal p0 M W pm" "dht_key ar key \<in> W" "answers_as (serve ar ops sender c pm) (en_answer env log c)"
      using ans [OF c(1-3), of log] c(4) by auto
    obtain pages pm' where "read_page ops sender [dht_key ar key] pm = Returns rpc_ok pages pm'" "map M [dht_key ar key] = map Some pages"
      using acknowledged_readable [OF pm(1) assms(4-7), of "[dht_key ar key]" sender] pm(2) by auto
    with pm(3) c(4,5) assms(8) show ?thesis by (auto simp: serve_reads answers_as_def)
  qed
  have part: "en_answer env log c = (rpc_ok, [take (unat len) (drop (unat off) page)])"
    if c: "rc_buffers c \<noteq> []" "rc_host c = pd_host adv" "rc_service c = pd_service adv" "rc_name c = PROVIDER_READ_PARTIAL"
      "unat off + unat len \<le> length page"
      "rc_params c = [dht_key ar key, buffer_wrapper ar (ar_u64 ar) off, buffer_wrapper ar (ar_u64 ar) len]" for log c off len
  proof -
    obtain pm :: "('a, 'l) page_manager" and W where pm: "provider_reach ar ops internal p0 M W pm" "dht_key ar key \<in> W" "answers_as (serve ar ops sender c pm) (en_answer env log c)"
      using ans [OF c(1-3), of log] c(4) by auto
    note st = acknowledged_stored [OF pm(1) assms(4-7)]
    obtain data where data: "contents (page_cache pm) (dht_key ar key) = Some data" using st pm(2) by blast
    then have d: "data = page" using st assms(8) map_le_Some by fastforce
    obtain p where v: "pe_read ops (dht_key ar key) (page_cache pm) = (Some page, p)"
      using read_complete [OF conjunct1 [OF st] data [unfolded d]] by (metis prod.collapse)
    obtain pm' where "read_partial_page ar ops sender (rc_params c) pm = Returns rpc_ok [take (unat len) (drop (unat off) page)] pm'"
      using partial_read_inside [OF assms(1) v assms(9) dk c(5), of sender] c(6) by auto
    then show ?thesis using pm(3) c(4) by (simp add: serve_reads answers_as_def)
  qed
  show ?thesis unfolding good_provider_def using whole part by blast
qed

end

section \<open>Reading a version from the providers\<close>

text \<open>
  What a page of the range needs of the cluster: its providers are named, one of them (all of them, if the
  page is read only in part) is up and has acknowledged its write.
\<close>

definition page_kept ::
  "archive \<Rightarrow> null_bw_map \<Rightarrow> (buffer \<rightharpoonup> buffer) \<Rightarrow> (oh_log \<Rightarrow> string \<times> string \<Rightarrow> (null_bw_map, 'l) page_manager option) \<Rightarrow>
     bool \<Rightarrow> page_info \<Rightarrow> buffer \<Rightarrow> bool" where
  "page_kept ar p0 M pms partly x page \<longleftrightarrow>
     M (dht_key ar (fst x)) = Some page \<and> (\<forall>adv \<in> set (snd x). \<not> provider_desc_empty adv) \<and>
     (\<exists>adv \<in> set (snd x). keeps_page ar null_ops (\<lambda>_ _. False) p0 M pms (fst x) adv) \<and>
     (partly \<longrightarrow> (\<forall>adv \<in> set (snd x). keeps_page ar null_ops (\<lambda>_ _. False) p0 M pms (fst x) adv))"

lemma kept_available:
  assumes "archive_ok ar" "provider_env ar null_ops sender pms env" "p0 = null_bw_map_new cs m"
    and "\<forall>log h pm. pms log h = Some pm \<longrightarrow> (\<exists>W. provider_reach ar null_ops (\<lambda>_ _. False) p0 M W pm)"
    and "finite (dom M)" "card (dom M) < 2 ^ 32" "length page < 2 ^ 32"
    and "page_kept ar p0 M pms (p * unat ps < unat offset \<or> unat offset + unat sz < Suc p * unat ps) x page"
  shows "page_available ar env ps offset sz (Some x) p page"
proof -
  have p0: "null_inv p0" "null_contents p0 = Map.empty" using null_new_ok by (simp_all add: assms(3))
  have M: "M (dht_key ar (fst x)) = Some page" using assms(8) by (simp add: page_kept_def)
  have "honest_page ar env (fst x) page"
    by (rule null_map.providers_honest [OF assms(1,2,4) p0 assms(5,6) M assms(7)])
  moreover have "good_provider ar env (fst x) page adv" if "keeps_page ar null_ops (\<lambda>_ _. False) p0 M pms (fst x) adv" for adv
    by (rule null_map.provider_good [OF assms(1,2) that p0 assms(5,6) M assms(7)])
  ultimately show ?thesis using assms(8)
    by (auto simp: page_available_def page_answers_def named_replicas_def some_good_def page_result_def page_kept_def)
qed

text \<open>
  A read of a published version from a cluster of providers returns the bytes of the snapshot. The
  providers are those of \<open>Page_Manager\<close> over memory (\<open>null_bw_map\<close>), in any states that requests can have
  led to; each answer the client gets is that of the called provider's handler in its state at that
  time, or an error. If every page of the range was acknowledged by one of its providers that is still up
  (by all of them, if the page is read only in part), \<open>read\<close> returns success with the requested slice.
\<close>

theorem cluster_snapshot_bytes:
  assumes "archive_ok ar" and "history ar ps d rc K0 q0 f0 ws" and "n < length ws"
    and "query_root_of ar env version oh log = (True, root, oh1, log1)"
    and "rt_node root = root_of ps d q0 ws (Suc n)" and "rt_page_size root = ps"
    and "store_has ar ps K0 q0 f0 ws (Suc n) (en_dht env log1)"
    and "read_guard root version offset sz = None" and "read_fits ps offset sz" and "length mem = unat sz"
    and "\<forall>p. length (data p) = unat ps"
    and "provider_env ar null_ops sender pms env"
    and "\<forall>log h pm. pms log h = Some pm \<longrightarrow> (\<exists>W. provider_reach ar null_ops (\<lambda>_ _. False) (null_bw_map_new cs m) M W pm)"
    and "finite (dom M)" and "card (dom M) < 2 ^ 32"
    and "\<forall>p. first_page ps offset \<le> p \<and> p < stop_page ps offset sz \<longrightarrow>
       (\<exists>x. content rc f0 ws (Suc n) p = Some x \<and>
          page_kept ar (null_bw_map_new cs m) M pms (p * unat ps < unat offset \<or> unat offset + unat sz < Suc p * unat ps) x (data p))"
  shows "\<exists>log'. oh_read ar env offset sz mem version oh log =
    (Ret True, take (unat sz) (drop (unat offset) (concat (map data [0..<stop_page ps offset sz]))), oh1, log')"
proof (rule snapshot_slice [OF assms(1-11) partial_env_checked [OF assms(12)]], intro allI impI)
  fix p assume "first_page ps offset \<le> p \<and> p < stop_page ps offset sz"
  with assms(16) obtain x where x: "content rc f0 ws (Suc n) p = Some x"
    "page_kept ar (null_bw_map_new cs m) M pms (p * unat ps < unat offset \<or> unat offset + unat sz < Suc p * unat ps) x (data p)" by blast
  have "length (data p) < 2 ^ 32" using assms(11) read_fitsD(4) [OF assms(9)] by simp
  from kept_available [OF assms(1,12) refl assms(13-15) this x(2)]
  show "page_available ar env ps offset sz (content rc f0 ws (Suc n) p) p (data p)" unfolding x(1) .
qed

section \<open>An instance\<close>

text \<open>Two providers, each with one page of the instance of \<open>Snapshots\<close>.\<close>

definition cl_start :: "(null_bw_map, unit) page_manager" where
  "cl_start = page_manager_new (null_bw_map_new 1 100) False ()"

definition cl_provider :: "nat \<Rightarrow> (null_bw_map, unit) page_manager" where
  "cl_provider i = (case write_page null_ops ''w'' [dht_key plain_archive (ex_pages ! i), rd_page i] cl_start of Returns _ _ pm \<Rightarrow> pm | _ \<Rightarrow> cl_start)"

definition cl_pms :: "oh_log \<Rightarrow> string \<times> string \<Rightarrow> (null_bw_map, unit) page_manager option" where
  "cl_pms log h = (if h = (''a'', ''1'') then Some (cl_provider 0) else if h = (''b'', ''1'') then Some (cl_provider 1) else None)"

definition cl_env :: env where
  "cl_env = (ex_env rpc_ok)\<lparr>en_dht := (\<lambda>log. ex_store), en_answer := (\<lambda>log c.
     case cl_pms log (rc_host c, rc_service c) of None \<Rightarrow> (rpc_eobj, [])
     | Some pm \<Rightarrow> (case serve plain_archive null_ops ''x'' c pm of Returns st result _ \<Rightarrow> (st, result) | _ \<Rightarrow> (rpc_eobj, [])))\<rparr>"

definition cl_pages :: "buffer \<rightharpoonup> buffer" where
  "cl_pages = [dht_key plain_archive (ex_pages ! 0) \<mapsto> rd_page 0, dht_key plain_archive (ex_pages ! 1) \<mapsto> rd_page 1]"

lemma cl_write: "\<exists>pm. write_page null_ops ''w'' [dht_key plain_archive (ex_pages ! i), rd_page i] cl_start = Returns rpc_ok [] pm"
proof -
  have "bw_size (rd_page i) = 8" by (simp add: bw_size_def rd_page_def)
  then show ?thesis
    by (simp add: cl_start_def page_manager_new_def write_page_def null_ops_def null_write_def null_bw_map_new_def
      cache_init_def Let_def cache_max_size_def cache_size_def cache_write_def cache_mt_none_def
      cache_resize_def resize_loop.simps exec_hooks_def)
qed

lemma cl_pages_nth: "i < 2 \<Longrightarrow> cl_pages (dht_key plain_archive (ex_pages ! i)) = Some (rd_page i)"
  using rd_keys by (auto simp: cl_pages_def less_2_cases_iff)

lemma cl_reach:
  assumes "i < 2"
  shows "provider_reach plain_archive null_ops (\<lambda>_ _. False) (null_bw_map_new 1 100) cl_pages {dht_key plain_archive (ex_pages ! i)} (cl_provider i)"
proof -
  obtain pm where pm: "write_page null_ops ''w'' [dht_key plain_archive (ex_pages ! i), rd_page i] cl_start = Returns rpc_ok [] pm" using cl_write by blast
  have s: "provider_reach plain_archive null_ops (\<lambda>_ _. False) (null_bw_map_new 1 100) cl_pages {} cl_start"
    by (rule pr_start) (simp add: cl_start_def page_manager_new_def)
  from pr_write [OF s pm] cl_pages_nth [OF assms] show ?thesis by (simp add: cl_provider_def pm)
qed

lemma cl_provider_env: "provider_env plain_archive null_ops ''x'' cl_pms cl_env"
  unfolding provider_env_def
proof (intro allI impI)
  fix log and c :: rpc_call
  have "rpc_eobj \<noteq> rpc_ok" by (simp add: rpc_eobj_def rpc_ok_def)
  then show "case cl_pms log (rc_host c, rc_service c) of None \<Rightarrow> fst (en_answer cl_env log c) \<noteq> rpc_ok
     | Some pm \<Rightarrow> answers_as (serve plain_archive null_ops ''x'' c pm) (en_answer cl_env log c)"
    by (simp add: cl_env_def answers_as_def split: option.splits outcome.splits)
qed

lemma cl_keeps:
  assumes "i < 2"
  shows "keeps_page plain_archive null_ops (\<lambda>_ _. False) (null_bw_map_new 1 100) cl_pages cl_pms (ex_pages ! i) (ex_provs ! i)"
proof -
  have "cl_pms log (pd_host (ex_provs ! i), pd_service (ex_provs ! i)) = Some (cl_provider i)" for log
    using assms by (auto simp: cl_pms_def ex_provs_def less_2_cases_iff)
  then show ?thesis using cl_reach [OF assms] unfolding keeps_page_def by blast
qed

lemma cl_named: "i < 2 \<Longrightarrow> \<not> provider_desc_empty (ex_provs ! i)"
  by (auto simp: provider_desc_empty_def ex_provs_def less_2_cases_iff)

lemma cl_kept:
  assumes "p < 2"
  shows "page_kept plain_archive (null_bw_map_new 1 100) cl_pages cl_pms b (ex_pages ! p, [ex_provs ! p]) (rd_page p)"
  using cl_pages_nth [OF assms] cl_keeps [OF assms] cl_named [OF assms] by (simp add: page_kept_def)

lemma cl_states:
  "\<forall>log h pm. cl_pms log h = Some pm \<longrightarrow> (\<exists>W. provider_reach plain_archive null_ops (\<lambda>_ _. False) (null_bw_map_new 1 100) cl_pages W pm)"
  using cl_reach [of 0] cl_reach [of 1] by (auto simp: cl_pms_def)

lemma cl_finite: "finite (dom cl_pages)" "card (dom cl_pages) < 2 ^ 32"
  using rd_keys by (auto simp: cl_pages_def card_insert_if)

lemma cl_query: "query_root_of plain_archive cl_env 0 rd_handler [] = (True, root_t_make 1 1 8 16 1, rd_handler, [])"
  by (simp add: query_root_of_def rd_handler_def)

lemma cl_has: "store_has plain_archive 8 0 ex_base Map.empty [ex_write] (Suc 0) (en_dht cl_env [])"
  using ex_has by (simp add: cl_env_def)

theorem cluster_snapshot_bytes_witness:
  "\<exists>log'. oh_read plain_archive cl_env 3 10 (replicate 10 0) 0 rd_handler [] = (Ret True, [3, 4, 5, 6, 7, 8, 9, 10, 11, 12], rd_handler, log')"
proof -
  have h: "0 < length [ex_write]" by simp
  have len: "length (replicate 10 0 :: buffer) = unat (10 :: u64)" "\<forall>p. length (rd_page p) = unat (8 :: u64)"
    using rd_length by simp_all
  have k: "\<forall>p. first_page 8 3 \<le> p \<and> p < stop_page 8 3 10 \<longrightarrow> (\<exists>x. content 1 Map.empty [ex_write] (Suc 0) p = Some x \<and>
      page_kept plain_archive (null_bw_map_new 1 100) cl_pages cl_pms (p * unat (8 :: u64) < unat (3 :: u64) \<or> unat (3 :: u64) + unat (10 :: u64) < Suc p * unat (8 :: u64)) x (rd_page p))"
    using cl_kept rd_content by (simp add: rd_range del: content.simps)
  have "take (unat (10 :: u64)) (drop (unat (3 :: u64)) (concat (map rd_page [0..<2]))) = [3, 4, 5, 6, 7, 8, 9, 10, 11, 12]"
    by (simp add: rd_page_def upt_rec)
  with cluster_snapshot_bytes [OF plain_archive_ok ex_history h cl_query rd_root cl_has rd_guard rd_fits len cl_provider_env cl_states cl_finite k] show ?thesis
    by (simp add: rd_range)
qed

end
