(* ===== verification/Cluster_Write.thy ===== *)
theory Cluster_Write
  imports Object_Write Cluster_Read
begin

text \<open>
  Writes and reads of the client library together, on the providers of \<open>Page_Manager\<close>: what a client
  has written is what clients read, until it is overwritten.
\<close>

section \<open>A write and its record\<close>

text \<open>
  \<open>w\<close> is the record of the write with the calls and stores \<open>es\<close>, of which \<open>W\<close> are the calls of providers: it
  has the pages and the providers they were sent to, the reply to the ticket request, and what was
  stored in the DHT.
\<close>

definition performed :: "archive \<Rightarrow> object_handler \<Rightarrow> u32 \<Rightarrow> u64 \<Rightarrow> u64 \<Rightarrow> oh_log \<Rightarrow> oh_log \<Rightarrow> write_rec \<Rightarrow> bool" where
  "performed ar oh v psize sz es W w \<longleftrightarrow>
     wr_pages w = map (write_page_key (oh_id oh) v psize) [0..<page_count psize sz] \<and>
     (\<exists>get a ticket b pub r. es = [Called get a] @ W @ [Called ticket b] @ map Stored (wr_puts w) @ [Called pub r] \<and>
        rpc_get_serialized ar (ser_replica_list ar) [] a = (True, wr_provs w) \<and>
        rpc_get_serialized ar (ser_vmgr_reply ar) vmgr_reply_default b = (True, wr_reply w))"

text \<open>The provider acknowledged the page in the calls \<open>W\<close>.\<close>

definition acked :: "archive \<Rightarrow> oh_log \<Rightarrow> query_t \<Rightarrow> buffer \<Rightarrow> provider_desc \<Rightarrow> bool" where
  "acked ar W key page adv \<longleftrightarrow> (\<exists>b. Called (write_call adv (dht_key ar key) page) (rpc_ok, b) \<in> set W)"

lemma stored_suffix:
  assumes "xs @ Called c a # map Stored p = ys @ Called d b # map Stored q"
  shows "xs = ys" "c = d" "a = b"
proof -
  have "xs = ys \<and> c = d \<and> a = b" using assms
  proof (induction p arbitrary: q rule: rev_induct)
    case Nil
    then show ?case by (cases q rule: rev_cases) auto
  next
    case (snoc x p)
    then show ?case by (cases q rule: rev_cases) auto
  qed
  then show "xs = ys" "c = d" "a = b" by simp_all
qed

lemma performed_calls:
  assumes "exec_write ar env offset sz buf ap oh log = (Ret True, oh', log @ es)"
    and "ps = rt_page_size (latest_root oh)" "rc = unat (rt_replica_count (latest_root oh))" "0 < rc"
    and "performed ar oh (en_rnd env log) ps sz es W w" "n = page_count ps sz"
  shows "\<forall>e \<in> set W. \<exists>k < n * rc. \<exists>a. e = Called (replica_call ar (oh_id oh) (en_rnd env log) ps rc (wr_provs w) buf k) a"
    and "\<forall>i < n. \<exists>k \<in> {i * rc..<Suc i * rc}. \<exists>b.
      Called (replica_call ar (oh_id oh) (en_rnd env log) ps rc (wr_provs w) buf k) (rpc_ok, b) \<in> set W"
proof -
  let ?C = "replica_call ar (oh_id oh) (en_rnd env log) ps rc (wr_provs w) buf"
  have "(\<forall>e \<in> set W. \<exists>k < n * rc. \<exists>a. e = Called (?C k) a) \<and>
    (\<forall>i < n. \<exists>k \<in> {i * rc..<Suc i * rc}. \<exists>b. Called (?C k) (rpc_ok, b) \<in> set W)"
    using assms(1-4) refl assms(6)
  proof (cases rule: exec_write_stages)
    case (written get W' adv)
    from written(4) show ?thesis
    proof (cases rule: write_ticket_publishes)
      case (published b reply puts b')
      obtain c a t x p y where es: "es = [Called c a] @ W @ [Called t x] @ map Stored (wr_puts w) @ [Called p y]"
        and a: "rpc_get_serialized ar (ser_replica_list ar) [] a = (True, wr_provs w)"
        using assms(5) unfolding performed_def by blast
      have "get = Called c a" "W' = W"
        using published(1) by (auto simp: es dest: stored_suffix(1))
      moreover have "adv = wr_provs w" using written(1) a calculation(1) by auto
      ultimately show ?thesis using written(2,3) by simp
    qed simp
  qed simp
  then show "\<forall>e \<in> set W. \<exists>k < n * rc. \<exists>a. e = Called (?C k) a"
    "\<forall>i < n. \<exists>k \<in> {i * rc..<Suc i * rc}. \<exists>b. Called (?C k) (rpc_ok, b) \<in> set W" by blast+
qed

section \<open>What was acknowledged is found\<close>

text \<open>
  The keys of the pages are new, and of the providers that acknowledged a page at least one is
  still up.
\<close>

definition acks_kept ::
  "archive \<Rightarrow> null_bw_map \<Rightarrow> (buffer \<rightharpoonup> buffer) \<Rightarrow> (oh_log \<Rightarrow> string \<times> string \<Rightarrow> (null_bw_map, 'l) page_manager option) \<Rightarrow> oh_log \<Rightarrow> bool" where
  "acks_kept ar p0 M pms W \<longleftrightarrow>
     (\<forall>key page adv. acked ar W key page adv \<longrightarrow> M (dht_key ar key) = Some page \<and>
        (\<exists>adv'. acked ar W key page adv' \<and> keeps_page ar null_ops (\<lambda>_ _. False) p0 M pms key adv'))"

definition page_slice :: "u64 \<Rightarrow> buffer \<Rightarrow> nat \<Rightarrow> buffer" where
  "page_slice ps buf i = take (unat ps) (drop (i * unat ps) buf)"

lemma page_value_slice: "unat ps < 2 ^ 32 \<Longrightarrow> page_value ps buf i = page_slice ps buf i"
  by (simp add: page_value_def page_slice_def unsigned_ucast_eq take_bit_nat_eq_self)

lemma write_call_inject [simp]: "write_call a k v = write_call b l w \<longleftrightarrow> a = b \<and> k = l \<and> v = w"
  by (cases a; cases b) (auto simp: write_call_def plain_call_def)

lemma write_page_key_inject:
  assumes "i < 2 ^ 64" "j < 2 ^ 64" "write_page_key d v ps i = write_page_key d v ps j"
  shows "i = j"
proof -
  have "unat (of_nat i :: u64) = unat (of_nat j :: u64)" using assms(3) by (simp add: write_page_key_def)
  then show ?thesis using assms(1,2) by (simp add: unat_of_nat)
qed

lemma page_count_bound: "page_count ps sz < 2 ^ 64"
proof -
  have "unat sz div unat ps + (if unat sz mod unat ps = 0 then 0 else 1) \<le> unat sz"
    by (cases "unat sz = 0"; cases "unat ps = 0"; cases "unat ps = 1") (simp_all add: Suc_le_eq)
  moreover have "unat sz < 2 ^ 64" using unsigned_less [of sz] by simp
  ultimately show ?thesis by (simp add: page_count_def)
qed

lemma written_page_kept:
  assumes "archive_ok ar" "exec_write ar env offset sz buf ap oh log = (Ret True, oh', log @ es)"
    and "ps = rt_page_size (latest_root oh)" "rc = rt_replica_count (latest_root oh)" "rc \<noteq> 0"
    and "performed ar oh (en_rnd env log) ps sz es W w" "acks_kept ar p0 M pms W"
    and "page_count ps sz * unat rc \<le> length (wr_provs w)" "\<forall>adv \<in> set (wr_provs w). \<not> provider_desc_empty adv"
    and "i < page_count ps sz" "i = p - wr_first w" "unat ps < 2 ^ 32"
  shows "page_kept ar p0 M pms False (written_page rc w p) (page_slice ps buf i)"
proof -
  let ?n = "page_count ps sz" and ?r = "unat rc" and ?key = "write_page_key (oh_id oh) (en_rnd env log) ps"
  let ?C = "replica_call ar (oh_id oh) (en_rnd env log) ps ?r (wr_provs w) buf"
  have r: "0 < ?r" using assms(5) by (simp add: unat_gt_0)
  note calls = performed_calls [OF assms(2,3) arg_cong [OF assms(4), of unat] r assms(6) refl]
  have x: "written_page rc w p = (?key i, page_providers rc (wr_provs w) i)"
    using assms(6,10,11) by (simp add: written_page_def performed_def)
  have C: "?C k = write_call (wr_provs w ! k) (dht_key ar (?key (k div ?r))) (page_slice ps buf (k div ?r))" for k
    by (simp add: replica_call_def page_value_slice [OF assms(12)])
  obtain k b where k: "k \<in> {i * ?r..<Suc i * ?r}" "Called (?C k) (rpc_ok, b) \<in> set W" using calls(2) assms(10) by blast
  then have "k div ?r = i" by (intro div_nat_eqI) (auto simp: mult.commute)
  then have "acked ar W (?key i) (page_slice ps buf i) (wr_provs w ! k)" using k(2) unfolding C acked_def by auto
  then obtain adv where M: "M (dht_key ar (?key i)) = Some (page_slice ps buf i)"
    and adv: "acked ar W (?key i) (page_slice ps buf i) adv" "keeps_page ar null_ops (\<lambda>_ _. False) p0 M pms (?key i) adv"
    using assms(7) unfolding acks_kept_def by blast
  from adv(1) calls(1) obtain j where j: "j < ?n * ?r" "adv = wr_provs w ! j" "dht_key ar (?key i) = dht_key ar (?key (j div ?r))"
    unfolding acked_def C by fastforce
  have "j div ?r < ?n" using j(1) by (simp add: less_mult_imp_div_less)
  then have ij: "j div ?r = i"
    using j(3) assms(1,10) page_count_bound [of ps sz] by (intro write_page_key_inject [of _ _ "oh_id oh" "en_rnd env log" ps]) (auto simp: dht_key_eq_iff)
  have "i * ?r \<le> j" using ij div_times_less_eq_dividend [of j ?r] by simp
  moreover have "j < Suc i * ?r" using ij r by (simp add: dividend_less_div_times flip: ij)
  ultimately have "adv \<in> set (page_providers rc (wr_provs w) i)" using j(2) by (auto simp: page_providers_def)
  moreover have "set (page_providers rc (wr_provs w) i) \<subseteq> set (wr_provs w)"
  proof -
    have "Suc i * ?r \<le> ?n * ?r" using assms(10) by (intro mult_le_mono1) simp
    then show ?thesis using assms(8) by (auto simp: page_providers_def)
  qed
  ultimately show ?thesis using M adv(2) assms(9) by (auto simp: page_kept_def x)
qed

lemma range_inside:
  assumes "read_fits ps offset sz" "a * unat ps \<le> unat offset" "unat offset + unat sz \<le> b * unat ps"
  shows "a \<le> first_page ps offset" "stop_page ps offset sz \<le> b"
proof -
  note r = pages_of_range [OF assms(1)] and f = read_fitsD [OF assms(1)]
  show "a \<le> first_page ps offset" unfolding first_page_def using assms(2) f(1) by (simp add: less_eq_div_iff_mult_less_eq)
  have "(stop_page ps offset sz - 1) * unat ps < b * unat ps" using r(3) assms(3) by linarith
  then show "stop_page ps offset sz \<le> b" using r(1) by simp linarith
qed

lemma concat_slices:
  assumes "length buf = n * P" "k \<le> n"
  shows "concat (map (\<lambda>i. take P (drop (i * P) buf)) [0..<k]) = take (k * P) buf"
  using assms(2)
proof (induction k)
  case (Suc k)
  have "take (Suc k * P) buf = take (k * P + P) buf" by (simp add: add.commute)
  then show ?case using Suc by (simp add: take_add)
qed simp

lemma slice_length:
  assumes "length buf = (b - a) * P" "a \<le> p" "p < b"
  shows "length (take P (drop ((p - a) * P) buf)) = P"
proof -
  have "Suc (p - a) * P \<le> (b - a) * P" using assms(2,3) by (intro mult_le_mono1) simp
  then show ?thesis using assms(1) by simp
qed

lemma whole_pages:
  assumes "read_fits ps offset sz" "unat offset mod unat ps = 0" "unat sz mod unat ps = 0"
    and "first_page ps offset \<le> p" "p < stop_page ps offset sz"
  shows "\<not> (p * unat ps < unat offset \<or> unat offset + unat sz < Suc p * unat ps)"
proof -
  let ?s = "first_page ps offset" and ?t = "stop_page ps offset sz" and ?P = "unat ps"
  note r = pages_of_range [OF assms(1)]
  have off: "unat offset = ?s * ?P" using r(2) assms(2) by simp
  have "(unat offset + unat sz) mod ?P = 0" using assms(2,3) by (simp add: mod_add_eq [symmetric])
  then obtain e where e: "unat offset + unat sz = e * ?P" by (metis mod_0_imp_dvd dvd_def mult.commute)
  have "(?t - 1) * ?P < e * ?P" using r(3) e by simp
  then have "?t \<le> e" using r(1) by simp linarith
  then have "Suc p * ?P \<le> e * ?P" using assms(5) by (intro mult_le_mono1) simp
  moreover have "?s * ?P \<le> p * ?P" using assms(4) by (rule mult_le_mono1)
  ultimately show ?thesis using off e by linarith
qed

text \<open>The bytes of a range of whole pages inside a written range.\<close>

lemma slices_of_range:
  assumes "length buf = (b - a) * P" "a \<le> s" "t \<le> b" "s \<le> t"
    and "\<forall>p. data p = (if a \<le> p \<and> p < b then take P (drop ((p - a) * P) buf) else replicate P 0)"
  shows "drop (s * P) (concat (map data [0..<t])) = drop ((s - a) * P) (take ((t - a) * P) buf)"
proof -
  have len: "\<forall>p. length (data p) = P" using slice_length [OF assms(1)] by (simp add: assms(5))
  have "map data [a..<t] = map (\<lambda>i. take P (drop (i * P) buf)) [0..<t - a]"
    using assms(2-4) by (intro nth_equalityI) (auto simp: assms(5))
  then have "concat (map data [a..<t]) = take ((t - a) * P) buf"
    using concat_slices [OF assms(1), of "t - a"] assms(3) by simp
  moreover have "drop (a * P + (s - a) * P) (concat (map data [0..<t])) = drop ((s - a) * P) (concat (map data [a..<t]))"
    using drop_whole_pages [OF len, of a t] assms(2,4) by simp
  moreover have "a * P + (s - a) * P = s * P" using assms(2) by (simp flip: add_mult_distrib)
  ultimately show ?thesis by simp
qed

text \<open>
  C2: What a client has written is what clients read. A client writes or appends whole pages, and the write
  succeeds; its record is the \<open>n\<close>-th of the history of the blob. Any client that later reads whole pages of
  this range from a version after it, before which no other write overlapped the range, gets the
  bytes that were written, if for each page one of the providers that acknowledged it to the writer
  is still up. The providers are those of \<open>Page_Manager\<close> over memory, in any states that requests
  can have led to; other clients may write at the same time, and the calls of the reader may be
  answered in any order.
\<close>

theorem written_bytes_read_back:
  assumes "archive_ok ar"
    and "exec_write ar wenv woffset wsz buf ap woh wlog = (Ret True, woh', wlog @ es)"
    and "ps = rt_page_size (latest_root woh)" and "rc = rt_replica_count (latest_root woh)" and "rc \<noteq> 0"
    and "length buf = page_count ps wsz * unat ps"
    and "history ar ps d rc K0 q0 f0 ws" and "n \<le> m" and "m < length ws"
    and "performed ar woh (en_rnd wenv wlog) ps wsz es W (ws ! n)"
    and "\<forall>j. n < j \<and> j \<le> m \<longrightarrow> wr_stop (ws ! j) \<le> first_page ps offset \<or> stop_page ps offset sz \<le> wr_first (ws ! j)"
    and "query_root_of ar env version oh log = (True, root, oh1, log1)"
    and "rt_node root = root_of ps d q0 ws (Suc m)" and "rt_page_size root = ps"
    and "store_has ar ps K0 q0 f0 ws (Suc m) (en_dht env log1)"
    and "read_guard root version offset sz = None" and "read_fits ps offset sz" and "length mem = unat sz"
    and "unat offset mod unat ps = 0" and "unat sz mod unat ps = 0"
    and "wr_first (ws ! n) * unat ps \<le> unat offset" and "unat offset + unat sz \<le> wr_stop (ws ! n) * unat ps"
    and "provider_env ar null_ops sender pms env"
    and "\<forall>log h pm. pms log h = Some pm \<longrightarrow> (\<exists>A. provider_reach ar null_ops (\<lambda>_ _. False) (null_bw_map_new cs mx) M A pm)"
    and "finite (dom M)" and "card (dom M) < 2 ^ 32"
    and "acks_kept ar (null_bw_map_new cs mx) M pms W" and "\<forall>adv \<in> set (wr_provs (ws ! n)). \<not> provider_desc_empty adv"
  shows "\<exists>log'. oh_read ar env offset sz mem version oh log =
    (Ret True, take (unat sz) (drop (unat offset - wr_first (ws ! n) * unat ps) buf), oh1, log')"
proof -
  let ?w = "ws ! n" and ?P = "unat ps" and ?s = "first_page ps offset" and ?t = "stop_page ps offset sz"
  let ?a = "wr_first ?w" and ?b = "wr_stop ?w"
  have w: "write_ok ar ps d rc K0 q0 f0 ws n ?w" using historyD [OF assms(7)] assms(8,9) by simp
  have cnt: "page_count ps wsz = ?b - ?a" using write_okD(7) [OF w] assms(10) by (simp add: performed_def)
  have provs: "page_count ps wsz * unat rc \<le> length (wr_provs ?w)"
    using w unfolding write_ok_def write_request_def cnt by auto
  have st: "?a \<le> ?s" "?t \<le> ?b" using range_inside [OF assms(17,21,22)] .
  note r = pages_of_range [OF assms(17)] and f = read_fitsD [OF assms(17)]
  define data where "data = (\<lambda>p. if ?a \<le> p \<and> p < ?b then page_slice ps buf (p - ?a) else replicate ?P 0)"
  have len: "\<forall>p. length (data p) = ?P" using slice_length [OF assms(6) [unfolded cnt]] by (simp add: data_def page_slice_def)
  have "\<exists>log'. oh_read ar env offset sz mem version oh log =
    (Ret True, take (unat sz) (drop (unat offset) (concat (map data [0..<?t]))), oh1, log')"
  proof (rule snapshot_slice [OF assms(1,7,9,12-18) len partial_env_checked [OF assms(23)]], intro allI impI)
    fix p assume p: "?s \<le> p \<and> p < ?t"
    then have ab: "?a \<le> p" "p < ?b" using st by simp_all
    have "content rc f0 ws (Suc m) p = content rc f0 ws (Suc n) p"
      using assms(8,11) p by (intro content_unchanged) (auto simp: Suc_le_eq)
    then have c: "content rc f0 ws (Suc m) p = Some (written_page rc ?w p)" using ab by simp
    have i: "p - ?a < page_count ps wsz" using cnt ab by simp
    have "page_kept ar (null_bw_map_new cs mx) M pms False (written_page rc ?w p) (data p)"
      using written_page_kept [OF assms(1-5,10,27) provs assms(28) i refl f(4)] ab by (simp add: data_def)
    then have k: "page_kept ar (null_bw_map_new cs mx) M pms (p * ?P < unat offset \<or> unat offset + unat sz < Suc p * ?P) (written_page rc ?w p) (data p)"
      using whole_pages [OF assms(17,19,20)] p by simp
    have "length (data p) < 2 ^ 32" using len f(4) by simp
    from kept_available [OF assms(1,23) refl assms(24-26) this k]
    show "page_available ar env ps offset sz (content rc f0 ws (Suc m) p) p (data p)" unfolding c .
  qed
  moreover have "drop (unat offset) (concat (map data [0..<?t])) = drop ((?s - ?a) * ?P) (take ((?t - ?a) * ?P) buf)"
  proof -
    have "\<forall>p. data p = (if ?a \<le> p \<and> p < ?b then take ?P (drop ((p - ?a) * ?P) buf) else replicate ?P 0)" by (simp add: data_def page_slice_def)
    from slices_of_range [OF assms(6) [unfolded cnt] st _ this] show ?thesis using r(1,2) assms(19) by simp
  qed
  moreover have "(?s - ?a) * ?P = unat offset - ?a * ?P" using r(2) assms(19) by (simp add: diff_mult_distrib)
  moreover have "unat sz + (unat offset - ?a * ?P) \<le> (?t - ?a) * ?P" using r(4) assms(21) by (simp add: diff_mult_distrib)
  ultimately show ?thesis by (simp add: drop_take min_absorb1)
qed

section \<open>An instance\<close>

text \<open>The write of the instance of \<open>Object_Write\<close>, read from the providers of the instance of \<open>Cluster_Read\<close>.\<close>

definition wb_buf :: buffer where
  "wb_buf = rd_page 0 @ rd_page 1"

definition wb_calls :: oh_log where
  "wb_calls = [Called (ex_page_write wb_buf 0) (rpc_ok, []), Called (ex_page_write wb_buf 1) (rpc_ok, [])]"

lemma wb_slice: "i < 2 \<Longrightarrow> take 8 (drop (i * 8) wb_buf) = rd_page i"
  by (auto simp: wb_buf_def rd_page_def less_2_cases_iff)

lemma wb_acked: "acked plain_archive wb_calls key page adv \<longleftrightarrow> (\<exists>i < 2. key = ex_pages ! i \<and> page = rd_page i \<and> adv = ex_provs ! i)"
proof -
  have "ex_page_write wb_buf i = write_call (ex_provs ! i) (dht_key plain_archive (ex_pages ! i)) (rd_page i)" if "i < 2" for i
    using wb_slice [OF that] by (simp add: ex_page_write_def)
  from this [of 0] this [of 1] show ?thesis
    by (auto simp: acked_def wb_calls_def dht_key_eq_iff plain_archive_ok less_2_cases_iff)
qed

lemma wb_kept: "acks_kept plain_archive (null_bw_map_new 1 100) cl_pages cl_pms wb_calls"
  using cl_pages_nth cl_keeps by (auto simp: acks_kept_def wb_acked)

lemma wb_performed: "performed plain_archive ex_handler 77 8 16 (ex_log rpc_ok wb_buf) wb_calls ex_write"
proof -
  have "ex_log rpc_ok wb_buf = [hd (ex_log rpc_ok wb_buf)] @ wb_calls @ [ex_log rpc_ok wb_buf ! 3] @ map Stored (wr_puts ex_write) @ [last (ex_log rpc_ok wb_buf)]"
    by (simp add: ex_log_def wb_calls_def ex_write_def)
  moreover have "wr_pages ex_write = map (write_page_key (oh_id ex_handler) 77 8) [0..<page_count 8 16]"
    by (simp add: ex_write_def ex_pages_def ex_handler_def page_count_def upt_rec write_page_key_def)
  ultimately show ?thesis unfolding performed_def
    by (auto simp: ex_log_def ex_write_def rpc_get_serialized_def plain_archive_ok)
qed

theorem written_bytes_read_back_witness:
  "\<exists>oh' es log'. exec_write plain_archive (ex_env rpc_ok) 0 16 wb_buf False ex_handler [] = (Ret True, oh', es) \<and>
     oh_read plain_archive cl_env 8 8 (replicate 8 0) 0 rd_handler [] = (Ret True, [8, 9, 10, 11, 12, 13, 14, 15], rd_handler, log')"
proof -
  obtain oh' where x: "exec_write plain_archive (ex_env rpc_ok) 0 16 wb_buf False ex_handler [] = (Ret True, oh', [] @ ex_log rpc_ok wb_buf)"
    using ex_exec_write [of wb_buf rpc_ok] by (auto simp: wb_buf_def rd_page_def)
  have h: "8 = rt_page_size (latest_root ex_handler)" "1 = rt_replica_count (latest_root ex_handler)" "(1 :: u32) \<noteq> 0"
    by (simp_all add: ex_handler_def root_t_make_def)
  have len: "length wb_buf = page_count 8 16 * unat (8 :: u64)" by (simp add: wb_buf_def rd_page_def page_count_def)
  have n: "(0 :: nat) \<le> 0" "0 < length [ex_write]" by simp_all
  have p: "performed plain_archive ex_handler (en_rnd (ex_env rpc_ok) []) 8 16 (ex_log rpc_ok wb_buf) wb_calls ([ex_write] ! 0)"
    using wb_performed by (simp add: ex_env_def)
  have o: "\<forall>j. 0 < j \<and> j \<le> 0 \<longrightarrow> wr_stop ([ex_write] ! j) \<le> first_page 8 8 \<or> stop_page 8 8 8 \<le> wr_first ([ex_write] ! j)" by simp
  have g: "read_guard (root_t_make 1 1 8 16 1) 0 8 8 = None" by (simp add: read_guard_def root_t_make_def)
  have f: "read_fits 8 8 8" by (simp add: read_fits_def read_nbr_vadv_def read_new_offset_def)
  have r: "length (replicate 8 0 :: buffer) = unat (8 :: u64)" "unat (8 :: u64) mod unat (8 :: u64) = 0"
    "wr_first ([ex_write] ! 0) * unat (8 :: u64) \<le> unat (8 :: u64)" "unat (8 :: u64) + unat (8 :: u64) \<le> wr_stop ([ex_write] ! 0) * unat (8 :: u64)"
    by (simp_all add: ex_write_def)
  have names: "\<forall>adv \<in> set (wr_provs ([ex_write] ! 0)). \<not> provider_desc_empty adv"
    by (simp add: ex_write_def ex_provs_def provider_desc_empty_def)
  from written_bytes_read_back [OF plain_archive_ok x h len ex_history n p o cl_query rd_root cl_has g f r(1,2,2,3,4) cl_provider_env
      cl_states cl_finite wb_kept names] x
  show ?thesis by (simp add: ex_write_def wb_buf_def rd_page_def)
qed

end
