(* ===== verification/Vmanagement.thy ===== *)
theory Vmanagement
  imports Structures Rpc_Meta
begin

text \<open>
  \<open>vmanager/vmanagement.cpp\<close> and the handler table of \<open>vmanager/main.cpp\<close>: the version
  manager. It keeps, for each blob, the roots of the published versions, the intervals of the
  writers that hold a ticket, the next ticket, the size of the tree and the size of the blob
  with all writes in progress. All handlers run in the one processing thread of the server, so
  an execution is a sequence of handler calls.
\<close>

record vmanagement =
  obj_hash :: "u32 \<rightharpoonup> obj_info"
  obj_count :: u32

definition vmanagement_init :: vmanagement where
  "vmanagement_init = \<lparr>obj_hash = Map.empty, obj_count = 0\<rparr>"

section \<open>Handlers\<close>

definition select_root :: "obj_info \<Rightarrow> u32 \<Rightarrow> root_t" where
  "select_root oi version =
     (if version = 0 \<or> length (oi_roots oi) \<le> unat version then last (oi_roots oi)
      else oi_roots oi ! unat version)"

definition vm_get_root :: "archive \<Rightarrow> rpcvector_t \<Rightarrow> vmanagement \<Rightarrow> vmanagement outcome" where
  "vm_get_root ar params s =
     (if length params \<noteq> 2 then Returns rpc_earg [] s
      else read_param ar (ar_u32 ar) (params ! 0) (Returns rpc_earg [] s) (\<lambda>i.
           read_param ar (ar_u32 ar) (params ! 1) (Returns rpc_earg [] s) (\<lambda>version.
             let last_root = (case obj_hash s i of
                                None \<Rightarrow> root_t_make 0 0 0 0 0
                              | Some oi \<Rightarrow> select_root oi version)
             in Returns rpc_ok [buffer_wrapper ar (ser_root ar) last_root] s)))"

text \<open>\<open>unordered_map::insert\<close> keeps an entry that is already there.\<close>

definition hash_insert :: "u32 \<Rightarrow> obj_info \<Rightarrow> (u32 \<rightharpoonup> obj_info) \<Rightarrow> (u32 \<rightharpoonup> obj_info)" where
  "hash_insert i oi h = (if h i = None then h(i \<mapsto> oi) else h)"

definition vm_clone :: "archive \<Rightarrow> rpcvector_t \<Rightarrow> vmanagement \<Rightarrow> vmanagement outcome" where
  "vm_clone ar params s =
     (if length params \<noteq> 2 then Returns rpc_earg [] s
      else read_param ar (ar_u32 ar) (params ! 0) (Returns rpc_earg [] s) (\<lambda>i.
           read_param ar (ar_u32 ar) (params ! 1) (Returns rpc_earg [] s) (\<lambda>version.
             case obj_hash s i of
               None \<Rightarrow>
                 Returns rpc_ok [buffer_wrapper ar (ser_root ar) (root_t_make 0 0 0 0 0)] s
             | Some oi \<Rightarrow>
                 let last_root = select_root oi version;
                     new_id = obj_count s + 1;
                     s' = s\<lparr>obj_count := new_id,
                            obj_hash := hash_insert new_id (obj_info_clone last_root) (obj_hash s)\<rparr>;
                     reply = last_root\<lparr>rt_node := (rt_node last_root)\<lparr>q_id := new_id\<rparr>\<rparr>
                 in Returns rpc_ok [buffer_wrapper ar (ser_root ar) reply] s')))"

text \<open>
  \<open>while (query.offset + query.size > max_size) max_size <<= 1\<close>. The shift drops the top bit,
  so the loop need not end; not ending is \<open>None\<close>.
\<close>

partial_function (option) grow :: "u64 \<Rightarrow> u64 \<Rightarrow> u64 option" where
  "grow stop max_size = (if max_size < stop then grow stop (push_bit 1 max_size) else Some max_size)"

text \<open>The body of \<open>get_ticket\<close> for a blob that exists.\<close>

definition ticket :: "query_t \<Rightarrow> bool \<Rightarrow> obj_info \<Rightarrow> obj_info option" where
  "ticket query is_append oi =
     (let query = (if is_append then query\<lparr>q_offset := oi_progress_size oi\<rparr> else query);
          stop = q_offset query + q_size query
      in do {
        max_size \<leftarrow> grow stop (oi_max_size oi);
        let t = oi_current_ticket oi;
        let root = last (oi_roots oi);
        let new_root = root\<lparr>rt_node := (rt_node root)\<lparr>q_id := q_id query, q_version := t,
                                                      q_size := max_size\<rparr>\<rparr>;
        let grows = rt_current_size new_root < stop;
        let new_root = (if grows then new_root\<lparr>rt_current_size := stop\<rparr> else new_root);
        Some (oi\<lparr>oi_max_size := max_size,
                 oi_current_ticket := t + 1,
                 oi_progress_size := (if grows then stop else oi_progress_size oi),
                 oi_intervals := im_insert (query\<lparr>q_version := t\<rparr>, (new_root, False))
                                   (oi_intervals oi)\<rparr>)
      })"

definition ticket_reply :: "obj_info \<Rightarrow> vmgr_reply" where
  "ticket_reply oi = \<lparr>vr_intervals = oi_intervals oi, vr_root_size = oi_max_size oi,
                      vr_stable_root = last (oi_roots oi)\<rparr>"

definition vm_get_ticket :: "archive \<Rightarrow> rpcvector_t \<Rightarrow> vmanagement \<Rightarrow> vmanagement outcome" where
  "vm_get_ticket ar params s =
     (if length params \<noteq> 2 then Returns rpc_earg [] s
      else read_param ar (ser_query ar) (params ! 0) (Returns rpc_earg [] s) (\<lambda>query.
           read_param ar (ar_bool ar) (params ! 1) (Returns rpc_earg [] s) (\<lambda>is_append.
             case obj_hash s (q_id query) of
               None \<Rightarrow> Returns rpc_eobj [] s
             | Some oi \<Rightarrow>
                 (case ticket query is_append oi of
                    None \<Rightarrow> Hangs
                  | Some oi' \<Rightarrow>
                      let s' = s\<lparr>obj_hash := (obj_hash s)(q_id query \<mapsto> oi')\<rparr>;
                          reply = ticket_reply oi'
                      in if vr_intervals reply \<noteq> []
                         then Returns rpc_ok [buffer_wrapper ar (ser_vmgr_reply ar) reply] s'
                         else Returns rpc_eobj [] s'))))"

text \<open>
  The loop of \<open>publish\<close>: completed intervals at the front of the map leave it, and their
  roots join the published ones.
\<close>

fun drain :: "root_t list \<Rightarrow> interval_list_t \<Rightarrow> root_t list \<times> interval_list_t" where
  "drain roots [] = (roots, [])"
| "drain roots (k # ks) =
     (if snd (snd k) then drain (roots @ [fst (snd k)]) ks else (roots, k # ks))"

definition publish_obj :: "query_t \<Rightarrow> obj_info \<Rightarrow> obj_info option" where
  "publish_obj interval oi =
     (case im_find interval (oi_intervals oi) of
        None \<Rightarrow> None
      | Some _ \<Rightarrow>
          let (roots, intervals) = drain (oi_roots oi) (im_mark interval (oi_intervals oi))
          in Some (oi\<lparr>oi_roots := roots, oi_intervals := intervals\<rparr>))"

definition vm_publish :: "archive \<Rightarrow> rpcvector_t \<Rightarrow> vmanagement \<Rightarrow> vmanagement outcome" where
  "vm_publish ar params s =
     (if length params \<noteq> 1 then Returns rpc_earg [] s
      else read_param ar (ser_query ar) (params ! 0) (Returns rpc_earg [] s) (\<lambda>interval.
             case obj_hash s (q_id interval) of
               None \<Rightarrow> Returns rpc_eobj [] s
             | Some oi \<Rightarrow>
                 (case publish_obj interval oi of
                    None \<Rightarrow> Returns rpc_eobj [] s
                  | Some oi' \<Rightarrow>
                      Returns rpc_ok [] (s\<lparr>obj_hash := (obj_hash s)(q_id interval \<mapsto> oi')\<rparr>))))"

definition vm_create :: "archive \<Rightarrow> rpcvector_t \<Rightarrow> vmanagement \<Rightarrow> vmanagement outcome" where
  "vm_create ar params s =
     (if length params \<noteq> 2 then Returns rpc_earg [] s
      else read_param ar (ar_u64 ar) (params ! 0) (Returns rpc_earg [] s) (\<lambda>ps.
           read_param ar (ar_u32 ar) (params ! 1) (Returns rpc_earg [] s) (\<lambda>rc.
             let new_id = obj_count s + 1;
                 new_obj = obj_info_new new_id ps rc;
                 s' = s\<lparr>obj_count := new_id, obj_hash := hash_insert new_id new_obj (obj_hash s)\<rparr>
             in Returns rpc_ok [buffer_wrapper ar (ser_root ar) (last (oi_roots new_obj))] s')))"

definition vm_get_objcount :: "archive \<Rightarrow> rpcvector_t \<Rightarrow> vmanagement \<Rightarrow> vmanagement outcome" where
  "vm_get_objcount ar params s =
     (if length params \<noteq> 0 then Returns rpc_earg [] s
      else Returns rpc_ok [buffer_wrapper ar (ar_u32 ar) (obj_count s)] s)"

text \<open>\<open>main.cpp\<close>: which handler serves which RPC.\<close>

definition vm_lookup ::
  "archive \<Rightarrow> u32 \<Rightarrow> (rpcvector_t \<Rightarrow> vmanagement \<Rightarrow> vmanagement outcome) option" where
  "vm_lookup ar name =
     (if name = VMGR_GETTICKET then Some (vm_get_ticket ar)
      else if name = VMGR_CREATE then Some (vm_create ar)
      else if name = VMGR_GETROOT then Some (vm_get_root ar)
      else if name = VMGR_PUBLISH then Some (vm_publish ar)
      else if name = VMGR_GETOBJNO then Some (vm_get_objcount ar)
      else if name = VMGR_CLONE then Some (vm_clone ar)
      else None)"

text \<open>
  Executions: the server's state after \<open>n\<close> calls, each with any registered name and any
  parameters, that returned.
\<close>

inductive vm_reach :: "archive \<Rightarrow> nat \<Rightarrow> vmanagement \<Rightarrow> bool" for ar where
  vm_start: "vm_reach ar 0 vmanagement_init"
| vm_call: "vm_reach ar n s \<Longrightarrow> vm_lookup ar name = Some h \<Longrightarrow>
     h params s = Returns status result s' \<Longrightarrow> vm_reach ar (Suc n) s'"

section \<open>Growing the tree\<close>

declare grow.simps [simp del]

lemma grow_done [simp]: "stop \<le> m \<Longrightarrow> grow stop m = Some m"
  by (subst grow.simps) (simp add: leD)

lemma grow_step: "m < stop \<Longrightarrow> grow stop m = grow stop (2 * m)"
  by (subst grow.simps) (simp add: mult.commute)

lemma grow_Some_ge:
  assumes "grow stop m = Some r"
  shows "stop \<le> r"
proof (rule grow.raw_induct [where P = "\<lambda>stop m r. stop \<le> r", OF _ assms])
  fix f :: "u64 \<Rightarrow> u64 \<Rightarrow> u64 option" and stop m r
  assume IH: "\<And>stop m r. f stop m = Some r \<Longrightarrow> stop \<le> r"
    and eq: "(if m < stop then f stop (push_bit 1 m) else Some m) = Some r"
  then show "stop \<le> r" by (auto simp: not_less split: if_splits dest: IH)
qed

lemma grow_zero: "0 < stop \<Longrightarrow> grow stop 0 = None"
proof (rule ccontr)
  assume pos: "0 < stop" and "grow stop 0 \<noteq> None"
  then obtain r where ret: "grow stop 0 = Some r" by auto
  have "\<not> (0 < stop \<and> (0 :: u64) = 0)"
  proof (rule grow.raw_induct [where P = "\<lambda>stop m r. \<not> (0 < stop \<and> m = 0)", OF _ ret])
    fix f :: "u64 \<Rightarrow> u64 \<Rightarrow> u64 option" and stop m r
    assume IH: "\<And>stop m r. f stop m = Some r \<Longrightarrow> \<not> (0 < stop \<and> m = 0)"
      and eq: "(if m < stop then f stop (push_bit 1 m) else Some m) = Some r"
    show "\<not> (0 < stop \<and> m = 0)"
    proof
      assume "0 < stop \<and> m = 0"
      with eq have "f stop 0 = Some r" by simp
      from IH [OF this] \<open>0 < stop \<and> m = 0\<close> show False by simp
    qed
  qed
  with pos show False by simp
qed

text \<open>While no shift drops a bit, the loop stops at the first doubling that is large enough.\<close>

lemma grow_doubles:
  assumes "unat stop \<le> unat m * 2 ^ k" and "unat m * 2 ^ k < 2 ^ 64"
  shows "\<exists>j \<le> k. grow stop m = Some (m * 2 ^ j) \<and>
           (\<forall>i < j. unat m * 2 ^ i < unat stop)"
  using assms
proof (induction k arbitrary: m)
  case 0
  then show ?case by (simp add: word_le_nat_alt)
next
  case (Suc k)
  show ?case
  proof (cases "stop \<le> m")
    case True
    then show ?thesis by (intro exI [of _ 0]) simp
  next
    case False
    have "unat m * 2 \<le> unat m * 2 ^ Suc k" by simp
    also have "\<dots> < 2 ^ 64" by (rule Suc.prems(2))
    finally have dbl: "unat (2 * m) = 2 * unat m"
      by (simp add: unat_word_ariths)
    have "unat stop \<le> unat (2 * m) * 2 ^ k" and "unat (2 * m) * 2 ^ k < 2 ^ 64"
      using Suc.prems by (simp_all only: dbl) (simp_all add: ac_simps)
    from Suc.IH [OF this] obtain j where j: "j \<le> k"
      and res: "grow stop (2 * m) = Some (2 * m * 2 ^ j)"
      and least: "\<forall>i < j. unat m * 2 ^ Suc i < unat stop"
      unfolding dbl by (force simp: ac_simps)
    have "\<forall>i < Suc j. unat m * 2 ^ i < unat stop"
      using least False by (auto simp: less_Suc_eq_0_disj word_le_nat_alt)
    with j res False show ?thesis
      by (intro exI [of _ "Suc j"]) (simp add: grow_step mult.assoc mult.left_commute)
  qed
qed

lemma unat_power_lower_u64: "k < 64 \<Longrightarrow> unat (2 ^ k :: u64) = 2 ^ k"
  using unat_of_nat_small [of "2 ^ k"] power_strict_increasing [of k 64 "2 :: nat"] by simp

text \<open>A power of two never becomes large enough for a range that ends beyond \<open>2 ^ 63\<close>.\<close>

lemma grow_hangs:
  assumes "k \<le> 63" and "2 ^ 63 < stop"
  shows "grow stop (2 ^ k) = None"
  using assms(1)
proof (induction k rule: inc_induct)
  case base
  have "grow stop (2 ^ 63) = grow stop (2 * 2 ^ 63)"
    using assms(2) by (rule grow_step)
  also have "2 * 2 ^ 63 = (0 :: u64)" by simp
  also have "grow stop 0 = None"
    using assms(2) by (intro grow_zero) (auto intro: le_less_trans)
  finally show ?case .
next
  case (step k)
  have "(2 :: u64) ^ k < 2 ^ 63"
    using step.hyps power_strict_increasing [of k 63 "2 :: nat"]
    by (simp add: word_less_nat_alt unat_power_lower_u64)
  with assms(2) have "(2 :: u64) ^ k < stop" by simp
  with step.IH show ?case by (simp add: grow_step)
qed

section \<open>The invariant of a blob\<close>

text \<open>
  The tickets handed out and not yet published are exactly the numbers from the number of
  published roots to the next ticket, in order; the published root at position \<open>i\<close> is that of
  version \<open>i\<close>; the oldest pending write is not marked complete (otherwise it would have been
  published); page size and replica count never change.
\<close>

definition same_params :: "root_t \<Rightarrow> root_t \<Rightarrow> bool" where
  "same_params r r' \<longleftrightarrow> rt_page_size r = rt_page_size r' \<and>
     rt_replica_count r = rt_replica_count r' \<and> q_offset (rt_node r) = q_offset (rt_node r')"

definition obj_inv :: "obj_info \<Rightarrow> bool" where
  "obj_inv oi \<longleftrightarrow>
     oi_roots oi \<noteq> [] \<and>
     length (oi_roots oi) \<le> unat (oi_current_ticket oi) \<and>
     versions (oi_intervals oi) = [length (oi_roots oi)..<unat (oi_current_ticket oi)] \<and>
     (\<forall>i. 0 < i \<and> i < length (oi_roots oi) \<longrightarrow>
          unat (q_version (rt_node (oi_roots oi ! i))) = i) \<and>
     (\<forall>e \<in> set (oi_intervals oi). q_version (rt_node (fst (snd e))) = q_version (fst e)) \<and>
     (oi_intervals oi \<noteq> [] \<longrightarrow> \<not> snd (snd (hd (oi_intervals oi)))) \<and>
     (\<forall>r \<in> set (oi_roots oi). same_params r (hd (oi_roots oi))) \<and>
     (\<forall>e \<in> set (oi_intervals oi). same_params (fst (snd e)) (hd (oi_roots oi)))"

lemma same_params_refl [simp]: "same_params r r"
  by (simp add: same_params_def)

lemma obj_invD:
  assumes "obj_inv oi"
  shows "oi_roots oi \<noteq> []" and "length (oi_roots oi) \<le> unat (oi_current_ticket oi)"
    and "versions (oi_intervals oi) = [length (oi_roots oi)..<unat (oi_current_ticket oi)]"
  using assms by (simp_all add: obj_inv_def)

lemma drain_eq:
  "drain roots ks = (roots @ map (\<lambda>k. fst (snd k)) (takeWhile (\<lambda>k. snd (snd k)) ks),
                     dropWhile (\<lambda>k. snd (snd k)) ks)"
  by (induction ks arbitrary: roots) auto

lemma im_mark_mem:
  "e \<in> set (im_mark q xs) \<Longrightarrow> \<exists>e' \<in> set xs. fst e = fst e' \<and> fst (snd e) = fst (snd e')"
  by (induction xs) (auto split: if_splits)

text \<open>Issuing a ticket.\<close>

lemma ticket_SomeD:
  assumes "ticket q ap oi = Some oi'" and "obj_inv oi" and "unat (oi_current_ticket oi) + 1 < 2 ^ 32"
  obtains q' r where
    "oi_intervals oi' = oi_intervals oi @ [(q', (r, False))]"
    "q_version q' = oi_current_ticket oi" "q_id q' = q_id q" "q_size q' = q_size q"
    "q_offset q' = (if ap then oi_progress_size oi else q_offset q)"
    "rt_node r = \<lparr>q_id = q_id q, q_version = oi_current_ticket oi,
        q_offset = q_offset (rt_node (last (oi_roots oi))), q_size = oi_max_size oi'\<rparr>"
    "rt_page_size r = rt_page_size (last (oi_roots oi))"
    "rt_replica_count r = rt_replica_count (last (oi_roots oi))"
    "rt_current_size r = max (rt_current_size (last (oi_roots oi))) (q_offset q' + q_size q')"
    "oi_roots oi' = oi_roots oi" "oi_current_ticket oi' = oi_current_ticket oi + 1"
    "grow (q_offset q' + q_size q') (oi_max_size oi) = Some (oi_max_size oi')"
    "oi_progress_size oi' = (if rt_current_size (last (oi_roots oi)) < q_offset q' + q_size q'
        then q_offset q' + q_size q' else oi_progress_size oi)"
proof -
  define q' where "q' = (if ap then q\<lparr>q_offset := oi_progress_size oi\<rparr> else q)
    \<lparr>q_version := oi_current_ticket oi\<rparr>"
  define stop where "stop = q_offset q' + q_size q'"
  from assms(1) obtain m where m: "grow stop (oi_max_size oi) = Some m"
    by (auto simp: ticket_def Let_def stop_def q'_def split: bind_splits)
  define r where "r = (last (oi_roots oi))\<lparr>rt_node := (rt_node (last (oi_roots oi)))
      \<lparr>q_id := q_id q, q_version := oi_current_ticket oi, q_size := m\<rparr>,
      rt_current_size := max (rt_current_size (last (oi_roots oi))) stop\<rparr>"
  have "\<forall>v \<in> set (versions (oi_intervals oi)). v < unat (q_version q')"
    using assms(2) by (auto simp: obj_inv_def q'_def)
  then have ins: "im_insert (q', (r, False)) (oi_intervals oi) = oi_intervals oi @ [(q', (r, False))]"
    by (intro im_insert_last) simp
  have oi': "oi' = oi\<lparr>oi_max_size := m, oi_current_ticket := oi_current_ticket oi + 1,
      oi_progress_size := (if rt_current_size (last (oi_roots oi)) < stop then stop
                           else oi_progress_size oi),
      oi_intervals := oi_intervals oi @ [(q', (r, False))]\<rparr>"
    using assms(1) m unfolding ins [symmetric]
    by (cases "rt_node (last (oi_roots oi))")
      (auto simp: ticket_def Let_def stop_def q'_def r_def max_def split: if_splits)
  show thesis
    by (rule that [of q' r])
      (use m in \<open>auto simp: oi' q'_def r_def stop_def split: if_splits\<close>)
qed

lemma obj_inv_ticket:
  assumes "ticket q ap oi = Some oi'" and inv: "obj_inv oi"
    and "unat (oi_current_ticket oi) + 1 < 2 ^ 32"
  shows "obj_inv oi'"
proof -
  from ticket_SomeD [OF assms] obtain q' r where
    int: "oi_intervals oi' = oi_intervals oi @ [(q', (r, False))]"
    and q': "q_version q' = oi_current_ticket oi"
    and r: "rt_node r = \<lparr>q_id = q_id q, q_version = oi_current_ticket oi,
        q_offset = q_offset (rt_node (last (oi_roots oi))), q_size = oi_max_size oi'\<rparr>"
      "rt_page_size r = rt_page_size (last (oi_roots oi))"
      "rt_replica_count r = rt_replica_count (last (oi_roots oi))"
    and rest: "oi_roots oi' = oi_roots oi" "oi_current_ticket oi' = oi_current_ticket oi + 1"
    by metis
  have next_ticket: "unat (oi_current_ticket oi + 1) = Suc (unat (oi_current_ticket oi))"
    using assms(3) by (simp add: unat_word_ariths)
  have len: "length (oi_roots oi) \<le> unat (oi_current_ticket oi)"
    using inv by (simp add: obj_inv_def)
  have "same_params r (last (oi_roots oi))" using r by (simp add: same_params_def)
  moreover have "same_params (last (oi_roots oi)) (hd (oi_roots oi))"
    using inv by (simp add: obj_inv_def)
  ultimately have "same_params r (hd (oi_roots oi))" by (simp add: same_params_def)
  then show ?thesis
    using inv len by (auto simp: obj_inv_def int rest q' r next_ticket hd_append)
qed

text \<open>Publishing.\<close>

lemma publish_SomeD:
  assumes "publish_obj q oi = Some oi'"
  obtains fin rest where
    "im_mark q (oi_intervals oi) = fin @ rest" "\<forall>k \<in> set fin. snd (snd k)"
    "rest \<noteq> [] \<Longrightarrow> \<not> snd (snd (hd rest))"
    "oi' = oi\<lparr>oi_roots := oi_roots oi @ map (\<lambda>k. fst (snd k)) fin, oi_intervals := rest\<rparr>"
    "unat (q_version q) \<in> set (versions (oi_intervals oi))"
proof -
  let ?ks = "im_mark q (oi_intervals oi)" and ?P = "\<lambda>k :: interval_entry_t. snd (snd k)"
  from assms obtain e where e: "im_find q (oi_intervals oi) = Some e"
    by (cases "im_find q (oi_intervals oi)") (simp_all add: publish_obj_def)
  show thesis
  proof (rule that [of "takeWhile ?P ?ks" "dropWhile ?P ?ks"])
    show "unat (q_version q) \<in> set (versions (oi_intervals oi))"
      using e im_find_None_iff [of q "oi_intervals oi"] by simp
    show "oi' = oi\<lparr>oi_roots := oi_roots oi @ map (\<lambda>k. fst (snd k)) (takeWhile ?P ?ks),
                  oi_intervals := dropWhile ?P ?ks\<rparr>"
      using assms e by (simp add: publish_obj_def drain_eq)
    show "\<not> ?P (hd (dropWhile ?P ?ks))" if "dropWhile ?P ?ks \<noteq> []"
      by (rule hd_dropWhile [OF that])
    show "\<forall>k \<in> set (takeWhile ?P ?ks). ?P k" by (blast dest: set_takeWhileD)
  qed simp
qed

lemma obj_inv_publish:
  assumes "publish_obj q oi = Some oi'" and inv: "obj_inv oi"
  shows "obj_inv oi'"
proof -
  from publish_SomeD [OF assms(1)] obtain fin rest where
    split: "im_mark q (oi_intervals oi) = fin @ rest"
    and first: "rest \<noteq> [] \<Longrightarrow> \<not> snd (snd (hd rest))"
    and oi': "oi' = oi\<lparr>oi_roots := oi_roots oi @ map (\<lambda>k. fst (snd k)) fin, oi_intervals := rest\<rparr>"
    by metis
  let ?n = "length (oi_roots oi)" and ?t = "unat (oi_current_ticket oi)"
  have vs: "versions fin @ versions rest = [?n..<?t]" (is "?l = _")
    using inv split versions_im_mark [of q "oi_intervals oi"] by (simp add: obj_inv_def)
  have "length (versions fin) + length (versions rest) = ?t - ?n"
    using arg_cong [OF vs, of length] by simp
  then have len: "?n + length fin \<le> ?t"
    using obj_invD(2) [OF inv] by (simp add: versions_def)
  have vrest: "versions rest = [?n + length fin..<?t]"
    using arg_cong [OF vs, of "drop (length fin)"] len by (simp add: versions_def)
  have vdone: "unat (q_version (fst (fin ! j))) = ?n + j" if "j < length fin" for j
    using arg_cong [OF vs, of "\<lambda>xs. xs ! j"] that len by (simp add: versions_def nth_append)
  have mem: "q_version (rt_node (fst (snd e))) = q_version (fst e) \<and>
      same_params (fst (snd e)) (hd (oi_roots oi))" if "e \<in> set fin \<union> set rest" for e
    using im_mark_mem [of e q "oi_intervals oi"] that split inv by (fastforce simp: obj_inv_def)
  have "unat (q_version (rt_node (oi_roots oi' ! i))) = i" if "0 < i" "i < ?n + length fin" for i
    using that inv mem vdone [of "i - ?n"]
    by (cases "i < ?n") (auto simp: oi' nth_append obj_inv_def)
  then show ?thesis
    using inv len vrest first mem by (auto simp: obj_inv_def oi')
qed


section \<open>Executions\<close>

text \<open>
  What a call that returns does to the state: nothing, a new blob, a clone, a ticket or a
  publication. The handlers refine this relation, and the invariants are proved over it.
\<close>

inductive vm_effect :: "vmanagement \<Rightarrow> vmanagement \<Rightarrow> bool" where
  eff_none: "vm_effect s s"
| eff_new: "oi = obj_info_new (obj_count s + 1) ps rc \<or>
     (\<exists>i oi0 v. obj_hash s i = Some oi0 \<and> oi = obj_info_clone (select_root oi0 v)) \<Longrightarrow>
     vm_effect s (s\<lparr>obj_count := obj_count s + 1,
                    obj_hash := hash_insert (obj_count s + 1) oi (obj_hash s)\<rparr>)"
| eff_ticket: "obj_hash s i = Some oi \<Longrightarrow> ticket q ap oi = Some oi' \<Longrightarrow>
     vm_effect s (s\<lparr>obj_hash := (obj_hash s)(i \<mapsto> oi')\<rparr>)"
| eff_publish: "obj_hash s i = Some oi \<Longrightarrow> publish_obj q oi = Some oi' \<Longrightarrow>
     vm_effect s (s\<lparr>obj_hash := (obj_hash s)(i \<mapsto> oi')\<rparr>)"

lemmas vm_handler_defs = vm_get_root_def vm_clone_def vm_get_ticket_def vm_publish_def
  vm_create_def vm_get_objcount_def read_param_def Let_def

lemma vm_handler_effect:
  assumes "vm_lookup ar name = Some h" and "h params s = Returns st res s'"
  shows "vm_effect s s'"
proof -
  have "vm_effect s s'" if "vm_get_root ar params s = Returns st res s'"
    using that by (auto simp: vm_handler_defs intro: eff_none split: if_splits got.splits)
  moreover have "vm_effect s s'" if "vm_clone ar params s = Returns st res s'"
    using that by (auto simp: vm_handler_defs intro: eff_none intro!: eff_new
        split: if_splits got.splits option.splits)
  moreover have "vm_effect s s'" if "vm_get_ticket ar params s = Returns st res s'"
    using that by (auto simp: vm_handler_defs intro: eff_none eff_ticket
        split: if_splits got.splits option.splits)
  moreover have "vm_effect s s'" if "vm_publish ar params s = Returns st res s'"
    using that by (auto simp: vm_handler_defs intro: eff_none eff_publish
        split: if_splits got.splits option.splits)
  moreover have "vm_effect s s'" if "vm_create ar params s = Returns st res s'"
    using that by (auto simp: vm_handler_defs intro: eff_none intro!: eff_new
        split: if_splits got.splits)
  moreover have "vm_effect s s'" if "vm_get_objcount ar params s = Returns st res s'"
    using that by (auto simp: vm_handler_defs intro: eff_none split: if_splits)
  ultimately show ?thesis
    using assms by (auto simp: vm_lookup_def split: if_splits)
qed

definition vm_inv :: "nat \<Rightarrow> vmanagement \<Rightarrow> bool" where
  "vm_inv n s \<longleftrightarrow> unat (obj_count s) \<le> n \<and>
     (\<forall>i oi. obj_hash s i = Some oi \<longrightarrow>
        obj_inv oi \<and> unat (oi_current_ticket oi) \<le> Suc n \<and>
        0 < unat i \<and> unat i \<le> unat (obj_count s))"

lemma obj_inv_new [simp]: "obj_inv (obj_info_new i ps rc)"
  by (simp add: obj_inv_def obj_info_new_def)

lemma obj_inv_clone [simp]: "obj_inv (obj_info_clone r)"
  by (simp add: obj_inv_def obj_info_clone_def)

lemma vm_inv_effect:
  assumes "vm_effect s s'" and "vm_inv n s" and "Suc n < 2 ^ 32 - 1"
  shows "vm_inv (Suc n) s'"
  using assms
proof cases
  case eff_none
  with assms show ?thesis by (auto simp: vm_inv_def le_Suc_eq)
next
  case (eff_new oi ps rc)
  have cnt: "unat (obj_count s + 1) = Suc (unat (obj_count s))"
    using assms(2,3) by (simp add: vm_inv_def unat_word_ariths)
  have "obj_inv oi \<and> oi_current_ticket oi = 1"
    using eff_new(2) by (auto simp: obj_info_new_def obj_info_clone_def obj_inv_def)
  then show ?thesis
    using assms(2) by (auto simp: eff_new(1) vm_inv_def hash_insert_def cnt le_Suc_eq split: if_splits)
next
  case (eff_ticket i oi q ap oi')
  have t: "unat (oi_current_ticket oi) \<le> Suc n" "obj_inv oi"
    using assms(2) eff_ticket by (auto simp: vm_inv_def)
  then have "unat (oi_current_ticket oi) + 1 < 2 ^ 32" using assms(3) by simp
  with t(2) eff_ticket(3) have "obj_inv oi'" and
    "oi_current_ticket oi' = oi_current_ticket oi + 1"
    by (auto intro: obj_inv_ticket elim: ticket_SomeD)
  moreover have "unat (oi_current_ticket oi + 1) = Suc (unat (oi_current_ticket oi))"
    using t assms(3) by (simp add: unat_word_ariths)
  ultimately show ?thesis
    using t assms(2) eff_ticket by (fastforce simp: vm_inv_def intro: le_SucI)
next
  case (eff_publish i oi q oi')
  then have "obj_inv oi'"
    using assms(2) by (auto simp: vm_inv_def intro: obj_inv_publish)
  moreover have "oi_current_ticket oi' = oi_current_ticket oi"
    using eff_publish(3) by (rule publish_SomeD) simp
  ultimately show ?thesis
    using assms(2) eff_publish by (auto simp: vm_inv_def le_Suc_eq)
qed

lemma vm_reach_inv: "vm_reach ar n s \<Longrightarrow> n < 2 ^ 32 - 1 \<Longrightarrow> vm_inv n s"
proof (induction rule: vm_reach.induct)
  case vm_start
  show ?case by (simp add: vm_inv_def vmanagement_init_def)
next
  case (vm_call n s name h params status result s')
  then show ?case by (auto intro: vm_inv_effect vm_handler_effect)
qed

section \<open>Published versions\<close>

text \<open>Published roots are only ever extended.\<close>

lemma vm_effect_prefix:
  assumes "vm_effect s s'" and "obj_hash s i = Some oi"
  obtains oi' newer where "obj_hash s' i = Some oi'" "oi_roots oi' = oi_roots oi @ newer"
  using assms
proof (cases rule: vm_effect.cases)
  case (eff_new oi0 ps rc)
  then have "obj_hash s' i = Some oi" using assms(2) by (auto simp: hash_insert_def)
  then show ?thesis using that [of oi "[]"] by simp
next
  case (eff_ticket j oi0 q ap oi1)
  have "oi_roots oi1 = oi_roots oi0"
    using eff_ticket(3) by (auto simp: ticket_def Let_def split: bind_splits)
  then show ?thesis
    using assms(2) eff_ticket that [of oi "[]"] that [of oi1 "[]"] by (cases "i = j") auto
next
  case (eff_publish j oi0 q oi1)
  then show ?thesis
    using assms(2) that [of oi "[]"] that [of oi1] by (cases "i = j") (auto elim!: publish_SomeD)
qed (use assms(2) that [of oi "[]"] in auto)

lemma select_root_stable:
  assumes "oi_roots oi' = oi_roots oi @ newer" and "0 < unat v" and "unat v < length (oi_roots oi)"
  shows "select_root oi' v = select_root oi v"
  using assms by (auto simp: select_root_def nth_append)

lemma vm_get_root_eval:
  assumes "archive_ok ar"
  shows "vm_get_root ar [buffer_wrapper ar (ar_u32 ar) i, buffer_wrapper ar (ar_u32 ar) v] s =
    Returns rpc_ok [buffer_wrapper ar (ser_root ar)
      (case obj_hash s i of None \<Rightarrow> root_t_make 0 0 0 0 0 | Some oi \<Rightarrow> select_root oi v)] s"
  using assms by (simp add: vm_get_root_def)

text \<open>
  C6: a published version never changes. Whatever call the version manager serves next, the
  answer to a root request for a version that is already published stays the same.
\<close>

theorem published_root_immutable:
  assumes "archive_ok ar" and "vm_lookup ar name = Some h" and "h params s = Returns st res s'"
    and "obj_hash s i = Some oi" and "0 < unat v" and "unat v < length (oi_roots oi)"
    and "vm_get_root ar [buffer_wrapper ar (ar_u32 ar) i, buffer_wrapper ar (ar_u32 ar) v] s
           = Returns rpc_ok reply s"
  shows "vm_get_root ar [buffer_wrapper ar (ar_u32 ar) i, buffer_wrapper ar (ar_u32 ar) v] s'
           = Returns rpc_ok reply s'"
proof -
  from vm_effect_prefix [OF vm_handler_effect [OF assms(2,3)] assms(4)] obtain oi' newer
    where "obj_hash s' i = Some oi'" "oi_roots oi' = oi_roots oi @ newer" .
  moreover from this(2) have "select_root oi' v = select_root oi v"
    using assms(5,6) by (rule select_root_stable)
  ultimately show ?thesis
    using assms(4,7) unfolding vm_get_root_eval [OF assms(1)] by simp
qed

text \<open>
  C10: the pending tickets of a blob are exactly the numbers from the number of published
  versions up to the next ticket, the root at position \<open>v\<close> belongs to version \<open>v\<close>, and the
  oldest pending ticket is not complete, in every state the version manager reaches in fewer
  than \<open>2 ^ 32 - 1\<close> calls.
\<close>

theorem tickets_and_roots_consecutive:
  assumes "vm_reach ar n s" and "n < 2 ^ 32 - 1" and "obj_hash s i = Some oi"
  shows "versions (oi_intervals oi) = [length (oi_roots oi)..<unat (oi_current_ticket oi)] \<and>
    (\<forall>v. 0 < v \<and> v < length (oi_roots oi) \<longrightarrow>
         unat (q_version (rt_node (oi_roots oi ! v))) = v) \<and>
    (oi_intervals oi \<noteq> [] \<longrightarrow> \<not> snd (snd (hd (oi_intervals oi))))"
  using vm_reach_inv [OF assms(1,2)] assms(3) by (auto simp: vm_inv_def obj_inv_def)

text \<open>The versions of pending writes that are marked complete.\<close>

definition completed :: "interval_list_t \<Rightarrow> nat set" where
  "completed xs = set (versions (filter (\<lambda>e. snd (snd e)) xs))"

lemma completed_append: "completed (xs @ ys) = completed xs \<union> completed ys"
  by (simp add: completed_def)

lemma completed_all: "\<forall>k \<in> set xs. snd (snd k) \<Longrightarrow> completed xs = set (versions xs)"
  by (simp add: completed_def)

lemma completed_im_mark:
  "unat (q_version q) \<in> set (versions xs) \<Longrightarrow>
     completed (im_mark q xs) = insert (unat (q_version q)) (completed xs)"
  by (induction xs) (auto simp: completed_def same_version_iff word_unat_eq_iff)

text \<open>
  C9: publication follows ticket order whatever the order in which writers finish. After a
  publication the published versions and the completed ones are those from before and the one
  just completed, and the first version that is not published is not complete: a version
  becomes visible exactly when it and all versions before it are complete.
\<close>

theorem publish_in_ticket_order:
  assumes "obj_inv oi" and "publish_obj q oi = Some oi'"
  shows "{..<length (oi_roots oi')} \<union> completed (oi_intervals oi') =
           {..<length (oi_roots oi)} \<union> completed (oi_intervals oi) \<union> {unat (q_version q)} \<and>
         length (oi_roots oi') \<notin> completed (oi_intervals oi')"
proof -
  from publish_SomeD [OF assms(2)] obtain fin rest where
    split: "im_mark q (oi_intervals oi) = fin @ rest"
    and fin: "\<forall>k \<in> set fin. snd (snd k)"
    and oi': "oi' = oi\<lparr>oi_roots := oi_roots oi @ map (\<lambda>k. fst (snd k)) fin, oi_intervals := rest\<rparr>"
    and mem: "unat (q_version q) \<in> set (versions (oi_intervals oi))" by metis
  let ?n = "length (oi_roots oi)" and ?t = "unat (oi_current_ticket oi)"
  have inv': "obj_inv oi'" using assms(2,1) by (rule obj_inv_publish)
  have vs: "versions fin @ versions rest = [?n..<?t]"
    using obj_invD(3) [OF assms(1)] split versions_im_mark [of q "oi_intervals oi"] by simp
  have "versions fin = [?n..<?n + length fin]"
    using arg_cong [OF vs, of "take (length fin)"] obj_invD(2) [OF inv']
    by (simp add: versions_def oi' take_upt)
  moreover have "insert (unat (q_version q)) (completed (oi_intervals oi)) =
      set (versions fin) \<union> completed rest"
    using completed_im_mark [OF mem] by (simp add: split completed_append completed_all [OF fin])
  ultimately have "insert (unat (q_version q)) (completed (oi_intervals oi)) =
      {?n..<?n + length fin} \<union> completed rest"
    by simp
  moreover have "{..<length (oi_roots oi')} = {..<?n} \<union> {?n..<?n + length fin}"
    by (simp add: oi' ivl_disj_un_one(2))
  ultimately have "{..<length (oi_roots oi')} \<union> completed rest =
      {..<?n} \<union> completed (oi_intervals oi) \<union> {unat (q_version q)}"
    by blast
  moreover have "length (oi_roots oi') \<notin> completed rest"
  proof (cases rest)
    case (Cons e es)
    with inv' have "\<not> snd (snd e)" by (simp add: obj_inv_def oi')
    then have "completed rest \<subseteq> set (versions es)"
      using Cons by (auto simp: completed_def versions_def)
    moreover have "versions es = [Suc (length (oi_roots oi'))..<?t]"
      using obj_invD(3) [OF inv', symmetric] Cons by (auto simp: oi' upt_eq_Cons_conv)
    ultimately show ?thesis by auto
  qed (simp add: completed_def)
  ultimately show ?thesis by (simp add: oi')
qed

section \<open>Appends\<close>

text \<open>
  A blob's life as a sequence of tickets and publications; \<open>blob_run\<close> also collects the ranges
  the tickets got. \<open>None\<close> is a ticket that never returns.
\<close>

datatype blob_event = Ticket query_t bool | Publish query_t

fun blob_run :: "obj_info \<Rightarrow> blob_event list \<Rightarrow> (obj_info \<times> query_t list) option" where
  "blob_run oi [] = Some (oi, [])"
| "blob_run oi (Ticket q ap # es) =
     do { oi' \<leftarrow> ticket q ap oi;
          (oi'', qs) \<leftarrow> blob_run oi' es;
          Some (oi'', fst (last (oi_intervals oi')) # qs) }"
| "blob_run oi (Publish q # es) =
     (case publish_obj q oi of None \<Rightarrow> blob_run oi es | Some oi' \<Rightarrow> blob_run oi' es)"

definition sizes_bounded :: "obj_info \<Rightarrow> bool" where
  "sizes_bounded oi \<longleftrightarrow>
     (\<forall>r \<in> set (oi_roots oi). rt_current_size r \<le> oi_progress_size oi) \<and>
     (\<forall>e \<in> set (oi_intervals oi). rt_current_size (fst (snd e)) \<le> oi_progress_size oi)"

lemma sizes_bounded_publish:
  assumes "publish_obj q oi = Some oi'" and "sizes_bounded oi"
  shows "sizes_bounded oi'" and "oi_progress_size oi' = oi_progress_size oi"
proof -
  from publish_SomeD [OF assms(1)] obtain fin rest where
    split: "im_mark q (oi_intervals oi) = fin @ rest"
    and oi': "oi' = oi\<lparr>oi_roots := oi_roots oi @ map (\<lambda>k. fst (snd k)) fin, oi_intervals := rest\<rparr>"
    by metis
  have "rt_current_size (fst (snd e)) \<le> oi_progress_size oi" if "e \<in> set fin \<union> set rest" for e
    using im_mark_mem [of e q "oi_intervals oi"] that split assms(2)
    by (fastforce simp: sizes_bounded_def)
  then show "sizes_bounded oi'" using assms(2) by (auto simp: sizes_bounded_def oi')
  show "oi_progress_size oi' = oi_progress_size oi" by (simp add: oi')
qed

lemma append_ticket:
  assumes "ticket q True oi = Some oi'" and "obj_inv oi" and "sizes_bounded oi"
    and "unat (oi_current_ticket oi) + 1 < 2 ^ 32" and "0 < unat (q_size q)"
    and "unat (oi_progress_size oi) + unat (q_size q) < 2 ^ 64"
  shows "sizes_bounded oi'" and "oi_progress_size oi' = oi_progress_size oi + q_size q"
    and "q_offset (fst (last (oi_intervals oi'))) = oi_progress_size oi"
    and "q_size (fst (last (oi_intervals oi'))) = q_size q"
proof -
  from ticket_SomeD [OF assms(1,2,4)] obtain q' r where
    int: "oi_intervals oi' = oi_intervals oi @ [(q', (r, False))]"
    and q': "q_size q' = q_size q" "q_offset q' = oi_progress_size oi"
    and r: "rt_current_size r = max (rt_current_size (last (oi_roots oi))) (q_offset q' + q_size q')"
    and roots: "oi_roots oi' = oi_roots oi"
    and prog: "oi_progress_size oi' = (if rt_current_size (last (oi_roots oi)) < q_offset q' + q_size q'
        then q_offset q' + q_size q' else oi_progress_size oi)"
    by (simp only: if_True) metis
  have last: "rt_current_size (last (oi_roots oi)) \<le> oi_progress_size oi"
    using assms(2,3) by (simp add: sizes_bounded_def obj_inv_def)
  have less: "oi_progress_size oi < oi_progress_size oi + q_size q"
    using assms(5,6) by (simp add: word_less_nat_alt unat_add_nowrap)
  have above: "rt_current_size (last (oi_roots oi)) < oi_progress_size oi + q_size q"
    using last less by simp
  then show "oi_progress_size oi' = oi_progress_size oi + q_size q" by (simp add: prog q')
  then show "sizes_bounded oi'"
    using assms(3) less above r by (auto simp: sizes_bounded_def int roots q' dest: order_trans less_imp_le)
  show "q_offset (fst (last (oi_intervals oi'))) = oi_progress_size oi"
    and "q_size (fst (last (oi_intervals oi'))) = q_size q" by (simp_all add: int q')
qed

text \<open>The ranges that back to back appends of the given sizes would occupy.\<close>

fun back_to_back :: "nat \<Rightarrow> nat list \<Rightarrow> (nat \<times> nat) list" where
  "back_to_back p [] = []"
| "back_to_back p (s # ss) = (p, s) # back_to_back (p + s) ss"

fun append_sizes :: "blob_event list \<Rightarrow> nat list" where
  "append_sizes [] = []"
| "append_sizes (Ticket q ap # es) = unat (q_size q) # append_sizes es"
| "append_sizes (Publish q # es) = append_sizes es"

fun appends_only :: "blob_event list \<Rightarrow> bool" where
  "appends_only [] = True"
| "appends_only (Ticket q ap # es) \<longleftrightarrow> ap \<and> 0 < unat (q_size q) \<and> appends_only es"
| "appends_only (Publish q # es) \<longleftrightarrow> appends_only es"

lemma obj_inv_publish_ticket:
  "publish_obj q oi = Some oi' \<Longrightarrow> oi_current_ticket oi' = oi_current_ticket oi"
  by (auto elim!: publish_SomeD)

text \<open>
  C20: concurrent appends never overlap and leave no gap. In any interleaving of append tickets
  and publications, the ranges handed out lie back to back from the size the blob had, as long
  as tickets and sizes stay below their machine limits.
\<close>

theorem appends_back_to_back:
  assumes "blob_run oi es = Some (oi', qs)" and "appends_only es"
    and "obj_inv oi" and "sizes_bounded oi"
    and "unat (oi_current_ticket oi) + length es < 2 ^ 32"
    and "unat (oi_progress_size oi) + sum_list (append_sizes es) < 2 ^ 64"
  shows "map (\<lambda>q. (unat (q_offset q), unat (q_size q))) qs =
         back_to_back (unat (oi_progress_size oi)) (append_sizes es)"
  using assms
proof (induction es arbitrary: oi qs)
  case (Cons e es)
  show ?case
  proof (cases e)
    case (Ticket q ap)
    with Cons.prems obtain oi1 qs1 where t: "ticket q True oi = Some oi1"
      and run: "blob_run oi1 es = Some (oi', qs1)"
      and qs: "qs = fst (last (oi_intervals oi1)) # qs1"
      by (auto split: bind_splits)
    have small: "unat (oi_current_ticket oi) + 1 < 2 ^ 32" "0 < unat (q_size q)"
      "unat (oi_progress_size oi) + unat (q_size q) < 2 ^ 64"
      using Cons.prems Ticket by simp_all
    note app = append_ticket [OF t Cons.prems(3,4) small]
    have "oi_current_ticket oi1 = oi_current_ticket oi + 1"
      using ticket_SomeD [OF t Cons.prems(3) small(1)] by metis
    then have "unat (oi_current_ticket oi1) = Suc (unat (oi_current_ticket oi))"
      using small(1) by (simp add: unat_word_ariths)
    moreover have prog: "unat (oi_progress_size oi1) = unat (oi_progress_size oi) + unat (q_size q)"
      using app(2) small(3) by (simp add: unat_add_nowrap)
    ultimately have "map (\<lambda>q. (unat (q_offset q), unat (q_size q))) qs1 =
        back_to_back (unat (oi_progress_size oi1)) (append_sizes es)"
      using Cons.prems Ticket app(1) obj_inv_ticket [OF t Cons.prems(3) small(1)] run
      by (intro Cons.IH) (simp_all add: ac_simps)
    then show ?thesis by (simp add: Ticket qs app(3,4) prog)
  next
    case (Publish q)
    show ?thesis
    proof (cases "publish_obj q oi")
      case None
      with Cons Publish show ?thesis by simp
    next
      case (Some oi1)
      note pub = sizes_bounded_publish [OF Some Cons.prems(4)]
      from Cons.IH [of oi1 qs] Some Cons.prems Publish pub obj_inv_publish [OF Some]
      show ?thesis by (simp add: obj_inv_publish_ticket)
    qed
  qed
qed simp

section \<open>Tickets at the level of the call\<close>

lemma vm_get_ticket_eval:
  assumes "archive_ok ar" and "obj_hash s (q_id q) = Some oi"
  shows "vm_get_ticket ar [buffer_wrapper ar (ser_query ar) q, buffer_wrapper ar (ar_bool ar) ap] s =
    (case ticket q ap oi of
       None \<Rightarrow> Hangs
     | Some oi' \<Rightarrow>
         let s' = s\<lparr>obj_hash := (obj_hash s)(q_id q \<mapsto> oi')\<rparr>
         in if oi_intervals oi' \<noteq> []
            then Returns rpc_ok [buffer_wrapper ar (ser_vmgr_reply ar) (ticket_reply oi')] s'
            else Returns rpc_eobj [] s')"
  using assms by (simp add: vm_get_ticket_def ticket_reply_def Let_def split: option.split)

text \<open>
  The ticket of a blob, for a range that some doubling of the tree holds: the range joins the
  pending ones and \<open>progress_size\<close> becomes its end if it ends beyond the published size.
\<close>

lemma ticket_issued:
  assumes "obj_inv oi" "unat (oi_current_ticket oi) + 1 < 2 ^ 32"
    and "off = (if ap then oi_progress_size oi else q_offset q)"
    and "unat (off + q_size q) \<le> unat (oi_max_size oi) * 2 ^ k" "unat (oi_max_size oi) * 2 ^ k < 2 ^ 64"
  obtains oi' r where "ticket q ap oi = Some oi'"
    "oi_intervals oi' = oi_intervals oi @ [(q\<lparr>q_version := oi_current_ticket oi, q_offset := off\<rparr>, (r, False))]"
    "oi_roots oi' = oi_roots oi" "oi_current_ticket oi' = oi_current_ticket oi + 1"
    "grow (off + q_size q) (oi_max_size oi) = Some (oi_max_size oi')"
    "oi_progress_size oi' = (if rt_current_size (last (oi_roots oi)) < off + q_size q
        then off + q_size q else oi_progress_size oi)"
proof -
  from grow_doubles [OF assms(4,5)] obtain j where
    g: "j \<le> k" "grow (off + q_size q) (oi_max_size oi) = Some (oi_max_size oi * 2 ^ j)" by blast
  obtain oi' where t: "ticket q ap oi = Some oi'"
    using g by (auto simp: ticket_def Let_def assms(3) split: if_splits)
  from ticket_SomeD [OF t assms(1,2)] obtain q' r where
    int: "oi_intervals oi' = oi_intervals oi @ [(q', (r, False))]"
    and q': "q_version q' = oi_current_ticket oi" "q_id q' = q_id q" "q_size q' = q_size q"
      "q_offset q' = (if ap then oi_progress_size oi else q_offset q)"
    and oi': "oi_roots oi' = oi_roots oi" "oi_current_ticket oi' = oi_current_ticket oi + 1"
      "grow (q_offset q' + q_size q') (oi_max_size oi) = Some (oi_max_size oi')"
      "oi_progress_size oi' = (if rt_current_size (last (oi_roots oi)) < q_offset q' + q_size q'
        then q_offset q' + q_size q' else oi_progress_size oi)"
    by metis
  note q' = q' [folded assms(3)]
  have "q' = q\<lparr>q_version := oi_current_ticket oi, q_offset := off\<rparr>"
    using q' by (cases q', cases q) simp
  then show thesis using that [OF t] int oi' q' by simp
qed

text \<open>
  C21: a ticket request that the tree can be grown for returns. The answer ends with the
  writer's own range under the next version (at the end of the blob for an append), and the
  tree has the least size, among the doublings of the size before, that holds the range.
\<close>

theorem get_ticket_returns:
  assumes "archive_ok ar" and "obj_hash s (q_id q) = Some oi" and "obj_inv oi"
    and "unat (oi_current_ticket oi) + 1 < 2 ^ 32"
    and "off = (if ap then oi_progress_size oi else q_offset q)"
    and "unat (off + q_size q) \<le> unat (oi_max_size oi) * 2 ^ k"
    and "unat (oi_max_size oi) * 2 ^ k < 2 ^ 64"
  shows "\<exists>reply s' j.
     vm_get_ticket ar [buffer_wrapper ar (ser_query ar) q, buffer_wrapper ar (ar_bool ar) ap] s
       = Returns rpc_ok [buffer_wrapper ar (ser_vmgr_reply ar) reply] s' \<and>
     fst (last (vr_intervals reply)) = q\<lparr>q_version := oi_current_ticket oi, q_offset := off\<rparr> \<and>
     vr_stable_root reply = last (oi_roots oi) \<and>
     j \<le> k \<and> vr_root_size reply = oi_max_size oi * 2 ^ j \<and>
     (\<forall>i < j. unat (oi_max_size oi) * 2 ^ i < unat (off + q_size q))"
proof -
  from grow_doubles [OF assms(6,7)] obtain j where j: "j \<le> k"
    and g: "grow (off + q_size q) (oi_max_size oi) = Some (oi_max_size oi * 2 ^ j)"
    and least: "\<forall>i < j. unat (oi_max_size oi) * 2 ^ i < unat (off + q_size q)" by blast
  from ticket_issued [OF assms(3-7)] obtain oi' r where
    "ticket q ap oi = Some oi'"
    "oi_intervals oi' = oi_intervals oi @ [(q\<lparr>q_version := oi_current_ticket oi, q_offset := off\<rparr>, (r, False))]"
    "oi_roots oi' = oi_roots oi" "grow (off + q_size q) (oi_max_size oi) = Some (oi_max_size oi')"
    by metis
  then show ?thesis
    using j g least
    by (intro exI [of _ "ticket_reply oi'"] exI [of _ "s\<lparr>obj_hash := (obj_hash s)(q_id q \<mapsto> oi')\<rparr>"]
        exI [of _ j]) (simp add: vm_get_ticket_eval [OF assms(1,2)] Let_def ticket_reply_def)
qed

text \<open>
  A ticket request whose range ends beyond \<open>2 ^ 63\<close>, on a blob whose tree size is a power
  of two, never returns: the doubling loop shifts the size to 0. The version manager serves
  all blobs from the thread that is now stuck.
\<close>

theorem get_ticket_hangs:
  assumes "archive_ok ar" and "obj_hash s (q_id q) = Some oi"
    and "oi_max_size oi = 2 ^ k" and "k \<le> 63" and "2 ^ 63 < q_offset q + q_size q"
  shows "vm_get_ticket ar [buffer_wrapper ar (ser_query ar) q, buffer_wrapper ar (ar_bool ar) False] s
           = Hangs"
proof -
  have "ticket q False oi = None"
    using grow_hangs [OF assms(4,5)] by (simp add: ticket_def assms(3) Let_def)
  then show ?thesis by (simp add: vm_get_ticket_eval [OF assms(1,2)])
qed

text \<open>
  A clone of a version without pages cannot be written. Its tree has size 0, which no
  doubling makes larger, so the first ticket request for a non-empty range never returns.
\<close>

theorem clone_of_empty_hangs:
  assumes "archive_ok ar" and "obj_hash s (q_id q) = Some (obj_info_clone r)"
    and "q_size (rt_node r) = 0" and "0 < (if ap then rt_current_size r else q_offset q) + q_size q"
  shows "vm_get_ticket ar [buffer_wrapper ar (ser_query ar) q, buffer_wrapper ar (ar_bool ar) ap] s = Hangs"
proof -
  have "ticket q ap (obj_info_clone r) = None"
    using grow_zero [OF assms(4)] assms(3) by (auto simp: ticket_def Let_def obj_info_clone_def)
  then show ?thesis by (simp add: vm_get_ticket_eval [OF assms(1,2)])
qed

text \<open>
  A ticket for a write within the tree that ends beyond the published size, and the ticket of an
  append after it: \<open>progress_size\<close> becomes the end of the write and the offset of the append.
\<close>

lemma tickets_write_append:
  assumes "obj_inv oi" "unat (oi_current_ticket oi) + 2 < 2 ^ 32" "stop = q_offset w + q_size w"
    and "unat (rt_current_size (last (oi_roots oi))) < unat stop" "unat stop \<le> unat (oi_max_size oi)"
    and "unat (stop + q_size a) \<le> unat (oi_max_size oi) * 2 ^ k" "unat (oi_max_size oi) * 2 ^ k < 2 ^ 64"
  obtains oi1 r1 oi2 r2 where "ticket w False oi = Some oi1" "oi_progress_size oi1 = stop"
    "oi_intervals oi1 = oi_intervals oi @ [(w\<lparr>q_version := oi_current_ticket oi, q_offset := q_offset w\<rparr>, (r1, False))]"
    "ticket a True oi1 = Some oi2"
    "oi_intervals oi2 = oi_intervals oi1 @ [(a\<lparr>q_version := oi_current_ticket oi + 1, q_offset := stop\<rparr>, (r2, False))]"
proof -
  have t0: "unat (oi_current_ticket oi) + 1 < 2 ^ 32" using assms(2) by simp
  have w0: "unat (q_offset w + q_size w) \<le> unat (oi_max_size oi) * 2 ^ 0" "unat (oi_max_size oi) * 2 ^ 0 < 2 ^ 64"
    using assms(3,5) unat_u64_bound [of "oi_max_size oi"] by simp_all
  have off: "q_offset w = (if False then oi_progress_size oi else q_offset w)" by simp
  from ticket_issued [OF assms(1) t0 off w0] obtain oi1 r1 where
    w: "ticket w False oi = Some oi1"
    and int1: "oi_intervals oi1 = oi_intervals oi @
         [(w\<lparr>q_version := oi_current_ticket oi, q_offset := q_offset w\<rparr>, (r1, False))]"
    and tick1: "oi_current_ticket oi1 = oi_current_ticket oi + 1"
    and max1: "grow (q_offset w + q_size w) (oi_max_size oi) = Some (oi_max_size oi1)"
    and prog1: "oi_progress_size oi1 = (if rt_current_size (last (oi_roots oi)) < q_offset w + q_size w
        then q_offset w + q_size w else oi_progress_size oi)"
    by metis
  have prog: "oi_progress_size oi1 = stop"
    using prog1 assms(3,4) by (simp add: word_less_nat_alt)
  have "oi_max_size oi1 = oi_max_size oi"
    using max1 assms(3,5) by (simp add: word_le_nat_alt)
  then have a0: "unat (stop + q_size a) \<le> unat (oi_max_size oi1) * 2 ^ k" "unat (oi_max_size oi1) * 2 ^ k < 2 ^ 64"
    using assms(6,7) by simp_all
  have "unat (oi_current_ticket oi1) + 1 < 2 ^ 32"
    using assms(2) by (simp add: tick1 unat_word_ariths)
  moreover have "stop = (if True then oi_progress_size oi1 else q_offset a)" by (simp add: prog)
  ultimately obtain oi2 r2 where
    "ticket a True oi1 = Some oi2"
    "oi_intervals oi2 = oi_intervals oi1 @ [(a\<lparr>q_version := oi_current_ticket oi1, q_offset := stop\<rparr>, (r2, False))]"
    using ticket_issued [OF obj_inv_ticket [OF w assms(1) t0] _ _ a0] by metis
  with w int1 prog that show thesis by (simp add: tick1)
qed

text \<open>
  C22: the size with all writes in progress can shrink. Let a write \<open>p\<close> be pending and another
  write end inside the range of \<open>p\<close> but beyond the published size. Its ticket sets
  \<open>progress_size\<close> back to its own end, and the next append, whatever its size, gets its offset
  there, inside the range of \<open>p\<close>, which is still pending.
\<close>

theorem append_overlaps_pending_write:
  assumes "archive_ok ar" and "obj_hash s i = Some oi" and "obj_inv oi"
    and "unat (oi_current_ticket oi) + 2 < 2 ^ 32"
    and "p \<in> fst ` set (oi_intervals oi)" and "unat (q_offset p) + unat (q_size p) \<le> unat (oi_progress_size oi)"
    and "q_id w = i" and "stop = q_offset w + q_size w"
    and "unat (q_offset p) \<le> unat stop" and "unat stop < unat (q_offset p) + unat (q_size p)"
    and "unat (rt_current_size (last (oi_roots oi))) < unat stop" and "unat stop \<le> unat (oi_max_size oi)"
    and "q_id a = i" and "0 < unat (q_size a)"
    and "unat stop + unat (q_size a) \<le> unat (oi_max_size oi) * 2 ^ k" and "unat (oi_max_size oi) * 2 ^ k < 2 ^ 64"
  shows "\<exists>reply1 s1 reply2 s2.
     vm_get_ticket ar [buffer_wrapper ar (ser_query ar) w, buffer_wrapper ar (ar_bool ar) False] s
       = Returns rpc_ok [buffer_wrapper ar (ser_vmgr_reply ar) reply1] s1 \<and>
     map_option oi_progress_size (obj_hash s1 i) = Some stop \<and> stop < oi_progress_size oi \<and>
     vm_get_ticket ar [buffer_wrapper ar (ser_query ar) a, buffer_wrapper ar (ar_bool ar) True] s1
       = Returns rpc_ok [buffer_wrapper ar (ser_vmgr_reply ar) reply2] s2 \<and>
     fst (last (vr_intervals reply2)) = a\<lparr>q_version := oi_current_ticket oi + 1, q_offset := stop\<rparr> \<and>
     p \<in> fst ` set (vr_intervals reply2) \<and> intersects (fst (last (vr_intervals reply2))) p"
proof -
  have nowrap: "unat (stop + q_size a) = unat stop + unat (q_size a)"
    using assms(15,16) by (intro unat_add_nowrap) simp
  then have "unat (stop + q_size a) \<le> unat (oi_max_size oi) * 2 ^ k" using assms(15) by simp
  from tickets_write_append [OF assms(3,4,8,11,12) this assms(16)] obtain oi1 r1 oi2 r2 where
    w: "ticket w False oi = Some oi1" and prog: "oi_progress_size oi1 = stop"
    and int1: "oi_intervals oi1 = oi_intervals oi @
         [(w\<lparr>q_version := oi_current_ticket oi, q_offset := q_offset w\<rparr>, (r1, False))]"
    and a: "ticket a True oi1 = Some oi2"
      "oi_intervals oi2 = oi_intervals oi1 @
         [(a\<lparr>q_version := oi_current_ticket oi + 1, q_offset := stop\<rparr>, (r2, False))]"
    by metis
  let ?s1 = "s\<lparr>obj_hash := (obj_hash s)(i \<mapsto> oi1)\<rparr>"
  have get1: "vm_get_ticket ar [buffer_wrapper ar (ser_query ar) w, buffer_wrapper ar (ar_bool ar) False] s
       = Returns rpc_ok [buffer_wrapper ar (ser_vmgr_reply ar) (ticket_reply oi1)] ?s1"
    using assms(2,7) by (simp add: vm_get_ticket_eval [OF assms(1)] w int1)
  have get2: "vm_get_ticket ar [buffer_wrapper ar (ser_query ar) a, buffer_wrapper ar (ar_bool ar) True] ?s1
       = Returns rpc_ok [buffer_wrapper ar (ser_vmgr_reply ar) (ticket_reply oi2)]
           (?s1\<lparr>obj_hash := (obj_hash ?s1)(i \<mapsto> oi2)\<rparr>)"
    using assms(13) by (simp add: vm_get_ticket_eval [OF assms(1), where oi = oi1] a Let_def)
  have own: "fst (last (vr_intervals (ticket_reply oi2))) = a\<lparr>q_version := oi_current_ticket oi + 1, q_offset := stop\<rparr>"
    by (simp add: ticket_reply_def a)
  have "unat (q_offset p + q_size p) = unat (q_offset p) + unat (q_size p)"
    using assms(6) unat_u64_bound [of "oi_progress_size oi"] by (intro unat_add_nowrap) simp
  then have "intersects (fst (last (vr_intervals (ticket_reply oi2)))) p"
    using assms(9,10,14) nowrap by (auto simp: own intersects_def word_less_nat_alt word_le_nat_alt)
  moreover have "p \<in> fst ` set (vr_intervals (ticket_reply oi2))"
    using assms(5) by (auto simp: ticket_reply_def a int1)
  moreover have "stop < oi_progress_size oi" using assms(6,10) by (simp add: word_less_nat_alt)
  moreover have "map_option oi_progress_size (obj_hash ?s1 i) = Some stop" by (simp add: prog)
  ultimately show ?thesis using get1 get2 own by blast
qed

section \<open>New blobs\<close>

text \<open>
  creating a blob gives an identifier that no blob has, an empty version 0 with the
  requested page size and replica count, and leaves every other blob as it was.
\<close>

theorem create_fresh:
  assumes "archive_ok ar" and "vm_reach ar n s" and "n < 2 ^ 32 - 1"
    and "vm_create ar [buffer_wrapper ar (ar_u64 ar) ps, buffer_wrapper ar (ar_u32 ar) rc] s
           = Returns st res s'"
  shows "\<exists>i. obj_hash s i = None \<and> i \<noteq> 0 \<and> st = rpc_ok \<and>
     res = [buffer_wrapper ar (ser_root ar) (root_t_make i 0 ps 0 rc)] \<and>
     obj_hash s' = (obj_hash s)(i \<mapsto> obj_info_new i ps rc)"
proof -
  have inv: "vm_inv n s" using assms(2,3) by (rule vm_reach_inv)
  then have cnt: "unat (obj_count s + 1) = Suc (unat (obj_count s))"
    using assms(3) by (simp add: vm_inv_def unat_word_ariths)
  have "obj_hash s (obj_count s + 1) = None"
  proof (rule ccontr)
    assume "obj_hash s (obj_count s + 1) \<noteq> None"
    then have "unat (obj_count s + 1) \<le> unat (obj_count s)"
      using inv by (auto simp: vm_inv_def)
    with cnt show False by simp
  qed
  moreover have "obj_count s + 1 \<noteq> 0" using cnt by (metis unat_0 nat.distinct(1))
  ultimately show ?thesis
    using assms(1,4) by (auto simp: vm_create_def Let_def hash_insert_def obj_info_new_def)
qed

section \<open>Instances\<close>

text \<open>
  A blob with 8-byte pages: new, and with one published write of 8 bytes and two pending writes,
  the second of them complete.
\<close>

abbreviation arP :: archive where "arP \<equiv> plain_archive"

definition demo_root :: "u32 \<Rightarrow> u64 \<Rightarrow> u64 \<Rightarrow> root_t" where
  "demo_root v ms cs = (root_t_make 1 v 8 ms 1)\<lparr>rt_current_size := cs\<rparr>"

definition demo_query :: "u32 \<Rightarrow> u64 \<Rightarrow> u64 \<Rightarrow> query_t" where
  "demo_query v off sz = \<lparr>q_id = 1, q_version = v, q_offset = off, q_size = sz\<rparr>"

definition demo_obj :: obj_info where
  "demo_obj = \<lparr>oi_roots = [demo_root 0 0 0, demo_root 1 8 8],
     oi_intervals = [(demo_query 2 8 8, (demo_root 2 16 16, False)),
                     (demo_query 3 16 8, (demo_root 3 32 24, True))],
     oi_current_ticket = 4, oi_max_size = 32, oi_progress_size = 24\<rparr>"

definition demo_vm :: vmanagement where
  "demo_vm = \<lparr>obj_hash = [1 \<mapsto> demo_obj], obj_count = 1\<rparr>"

lemmas demo_defs = demo_root_def demo_query_def demo_obj_def demo_vm_def root_t_make_def

lemma demo_obj_inv: "obj_inv demo_obj"
  by (auto simp: obj_inv_def demo_defs same_params_def less_Suc_eq upt_rec)

lemma created_reach:
  "vm_reach arP 1 \<lparr>obj_hash = [1 \<mapsto> obj_info_new 1 8 1], obj_count = 1\<rparr>"
proof -
  have "vm_create arP [buffer_wrapper arP (ar_u64 arP) 8, buffer_wrapper arP (ar_u32 arP) 1]
      vmanagement_init =
      Returns rpc_ok [buffer_wrapper arP (ser_root arP) (root_t_make 1 0 8 0 1)]
        \<lparr>obj_hash = [1 \<mapsto> obj_info_new 1 8 1], obj_count = 1\<rparr>"
    using plain_archive_ok
    by (simp add: vm_create_def vmanagement_init_def hash_insert_def obj_info_new_def)
  moreover have "vm_lookup arP VMGR_CREATE = Some (vm_create arP)"
    by (simp add: vm_lookup_def blob_defs)
  ultimately show ?thesis using vm_call [OF vm_start] by fastforce
qed

theorem published_root_immutable_witness:
  "\<exists>s'. vm_publish arP [buffer_wrapper arP (ser_query arP) (demo_query 2 8 8)] demo_vm
          = Returns rpc_ok [] s' \<and>
     vm_get_root arP [buffer_wrapper arP (ar_u32 arP) 1, buffer_wrapper arP (ar_u32 arP) 1] s'
          = Returns rpc_ok [buffer_wrapper arP (ser_root arP) (demo_root 1 8 8)] s'"
proof -
  have reg: "vm_lookup arP VMGR_PUBLISH = Some (vm_publish arP)"
    by (simp add: vm_lookup_def blob_defs)
  obtain s' where pub:
    "vm_publish arP [buffer_wrapper arP (ser_query arP) (demo_query 2 8 8)] demo_vm
       = Returns rpc_ok [] s'"
    using plain_archive_ok by (simp add: vm_publish_def publish_obj_def demo_defs query_less_def)
  have hash: "obj_hash demo_vm 1 = Some demo_obj" by (simp add: demo_vm_def)
  have len: "0 < unat (1 :: u32)" "unat (1 :: u32) < length (oi_roots demo_obj)"
    by (simp_all add: demo_obj_def)
  have "vm_get_root arP [buffer_wrapper arP (ar_u32 arP) 1, buffer_wrapper arP (ar_u32 arP) 1]
      demo_vm = Returns rpc_ok [buffer_wrapper arP (ser_root arP) (demo_root 1 8 8)] demo_vm"
    by (simp add: vm_get_root_eval [OF plain_archive_ok] hash select_root_def demo_obj_def)
  from published_root_immutable [OF plain_archive_ok reg pub hash len this] pub
  show ?thesis by blast
qed

theorem tickets_and_roots_consecutive_witness:
  "versions (oi_intervals (obj_info_new 1 8 1)) = [1..<1] \<and> vm_reach arP 1
     \<lparr>obj_hash = [1 \<mapsto> obj_info_new 1 8 1], obj_count = 1\<rparr>"
  using tickets_and_roots_consecutive [OF created_reach, of 1 "obj_info_new 1 8 1"] created_reach
  by (simp add: obj_info_new_def)

theorem publish_in_ticket_order_witness:
  "\<exists>oi'. publish_obj (demo_query 2 8 8) demo_obj = Some oi' \<and> length (oi_roots oi') = 4 \<and>
     {..<length (oi_roots oi')} \<union> completed (oi_intervals oi') = {..<4}"
proof -
  obtain oi' where pub: "publish_obj (demo_query 2 8 8) demo_obj = Some oi'"
    and len: "length (oi_roots oi') = 4"
    by (simp add: publish_obj_def demo_defs query_less_def)
  have "insert 2 (insert 3 {..<Suc (Suc 0)}) = {..<4 :: nat}" by auto
  with publish_in_ticket_order [OF demo_obj_inv pub] pub len show ?thesis
    by (simp add: demo_defs completed_def)
qed

theorem appends_back_to_back_witness:
  "\<exists>oi' qs. blob_run (obj_info_new 1 8 1)
      [Ticket (demo_query 0 0 16) True, Ticket (demo_query 0 0 8) True] = Some (oi', qs) \<and>
    map (\<lambda>q. (unat (q_offset q), unat (q_size q))) qs = [(0, 16), (16, 8)]"
proof -
  let ?es = "[Ticket (demo_query 0 0 16) True, Ticket (demo_query 0 0 8) True]"
  obtain oi' qs where run: "blob_run (obj_info_new 1 8 1) ?es = Some (oi', qs)"
    by (simp add: obj_info_new_def demo_defs ticket_def Let_def grow_step query_less_def)
  have "appends_only ?es" "sizes_bounded (obj_info_new 1 8 1)"
    by (simp_all add: demo_defs sizes_bounded_def obj_info_new_def)
  from appends_back_to_back [OF run this(1) obj_inv_new this(2)] run
  show ?thesis by (simp add: demo_defs obj_info_new_def)
qed

theorem append_overlaps_pending_write_witness:
  "\<exists>reply1 s1 reply2 s2.
     vm_get_ticket arP [buffer_wrapper arP (ser_query arP) (demo_query 0 0 16),
                        buffer_wrapper arP (ar_bool arP) False] demo_vm
       = Returns rpc_ok [buffer_wrapper arP (ser_vmgr_reply arP) reply1] s1 \<and>
     vm_get_ticket arP [buffer_wrapper arP (ser_query arP) (demo_query 0 0 8),
                        buffer_wrapper arP (ar_bool arP) True] s1
       = Returns rpc_ok [buffer_wrapper arP (ser_vmgr_reply arP) reply2] s2 \<and>
     fst (last (vr_intervals reply2)) = demo_query 5 16 8 \<and>
     demo_query 3 16 8 \<in> fst ` set (vr_intervals reply2) \<and> intersects (demo_query 5 16 8) (demo_query 3 16 8)"
proof -
  let ?w = "demo_query 0 0 16" and ?a = "demo_query 0 0 8" and ?p = "demo_query 3 16 8"
  have *: "obj_hash demo_vm 1 = Some demo_obj" by (simp add: demo_vm_def)
  have hyps: "unat (oi_current_ticket demo_obj) + 2 < 2 ^ 32" "?p \<in> fst ` set (oi_intervals demo_obj)"
    "unat (q_offset ?p) + unat (q_size ?p) \<le> unat (oi_progress_size demo_obj)" "q_id ?w = 1"
    "16 = q_offset ?w + q_size ?w" "unat (q_offset ?p) \<le> unat (16 :: u64)"
    "unat (16 :: u64) < unat (q_offset ?p) + unat (q_size ?p)"
    "unat (rt_current_size (last (oi_roots demo_obj))) < unat (16 :: u64)" "unat (16 :: u64) \<le> unat (oi_max_size demo_obj)"
    "q_id ?a = 1" "0 < unat (q_size ?a)"
    "unat (16 :: u64) + unat (q_size ?a) \<le> unat (oi_max_size demo_obj) * 2 ^ 0" "unat (oi_max_size demo_obj) * 2 ^ 0 < 2 ^ 64"
    by (simp_all add: demo_defs)
  have own: "?a\<lparr>q_version := oi_current_ticket demo_obj + 1, q_offset := 16\<rparr> = demo_query 5 16 8"
    by (simp add: demo_defs)
  from append_overlaps_pending_write [OF plain_archive_ok * demo_obj_inv hyps] show ?thesis
    unfolding own by metis
qed

theorem get_ticket_returns_witness:
  "\<exists>reply s'.
     vm_get_ticket arP [buffer_wrapper arP (ser_query arP) (demo_query 0 32 8),
                        buffer_wrapper arP (ar_bool arP) False] demo_vm
       = Returns rpc_ok [buffer_wrapper arP (ser_vmgr_reply arP) reply] s' \<and>
     fst (last (vr_intervals reply)) = demo_query 4 32 8"
proof -
  have hash: "obj_hash demo_vm (q_id (demo_query 0 32 8)) = Some demo_obj"
    by (simp add: demo_vm_def demo_query_def)
  have *: "unat (oi_current_ticket demo_obj) + 1 < 2 ^ 32"
    "q_offset (demo_query 0 32 8) =
      (if False then oi_progress_size demo_obj else q_offset (demo_query 0 32 8))"
    "unat (q_offset (demo_query 0 32 8) + q_size (demo_query 0 32 8)) \<le> unat (oi_max_size demo_obj) * 2 ^ 1"
    "unat (oi_max_size demo_obj) * 2 ^ 1 < 2 ^ 64"
    by (simp_all add: demo_obj_def demo_query_def)
  from get_ticket_returns [OF plain_archive_ok hash demo_obj_inv *] show ?thesis
    by (force simp: demo_obj_def demo_query_def)
qed

theorem get_ticket_hangs_witness:
  "vm_get_ticket arP [buffer_wrapper arP (ser_query arP) (demo_query 0 (2 ^ 63) 8),
                      buffer_wrapper arP (ar_bool arP) False] demo_vm = Hangs"
proof -
  have "obj_hash demo_vm (q_id (demo_query 0 (2 ^ 63) 8)) = Some demo_obj"
    by (simp add: demo_vm_def demo_query_def)
  then show ?thesis
    by (rule get_ticket_hangs [OF plain_archive_ok, where k = 5]) (simp_all add: demo_obj_def demo_query_def)
qed

theorem clone_of_empty_hangs_witness:
  "vm_get_ticket arP [buffer_wrapper arP (ser_query arP) (demo_query 0 0 8), buffer_wrapper arP (ar_bool arP) True]
     \<lparr>obj_hash = [1 \<mapsto> obj_info_clone (root_t_make 7 0 8 0 1)], obj_count = 1\<rparr> = Hangs"
  by (rule clone_of_empty_hangs [OF plain_archive_ok, where r = "root_t_make 7 0 8 0 1"])
    (simp_all add: demo_query_def root_t_make_def)

theorem create_fresh_witness:
  "\<exists>i s'. vm_create arP [buffer_wrapper arP (ar_u64 arP) 8, buffer_wrapper arP (ar_u32 arP) 1]
       \<lparr>obj_hash = [1 \<mapsto> obj_info_new 1 8 1], obj_count = 1\<rparr>
     = Returns rpc_ok [buffer_wrapper arP (ser_root arP) (root_t_make i 0 8 0 1)] s' \<and> i \<noteq> 0"
proof -
  obtain st res s' where call:
    "vm_create arP [buffer_wrapper arP (ar_u64 arP) 8, buffer_wrapper arP (ar_u32 arP) 1]
       \<lparr>obj_hash = [1 \<mapsto> obj_info_new 1 8 1], obj_count = 1\<rparr> = Returns st res s'"
    using plain_archive_ok by (simp add: vm_create_def Let_def)
  from create_fresh [OF plain_archive_ok created_reach _ call] call show ?thesis by auto
qed

end
