(* ===== verification/Blob_History.thy ===== *)
theory Blob_History
  imports Vmanagement Snapshots
begin

text \<open>
  The version manager and the writers together: the replies the version manager gives are those
  the snapshot theorem relies on. \<open>blob_hist\<close> relates the record of a blob to the list of the
  writes that hold or held a ticket.
\<close>

definition blob_hist :: "u64 \<Rightarrow> u32 \<Rightarrow> nat \<Rightarrow> query_t \<Rightarrow> write_rec list \<Rightarrow> obj_info \<Rightarrow> bool" where
  "blob_hist ps d K0 q0 ws oi \<longleftrightarrow>
     obj_inv oi \<and> unat (oi_current_ticket oi) = Suc (length ws) \<and>
     q_offset q0 = 0 \<and> rt_page_size (hd (oi_roots oi)) = ps \<and>
     oi_max_size oi = pw ps (2 ^ level_of K0 ws (length ws)) \<and>
     map fst (oi_intervals oi) = map (\<lambda>j. interval_of ps d j (ws ! j)) [length (oi_roots oi) - 1..<length ws] \<and>
     map (\<lambda>e. rt_node (fst (snd e))) (oi_intervals oi) =
       map (root_of ps d q0 ws) [length (oi_roots oi)..<Suc (length ws)] \<and>
     map rt_node (oi_roots oi) = map (root_of ps d q0 ws) [0..<length (oi_roots oi)]"

lemma level_of_append: "u \<le> length ws \<Longrightarrow> level_of K0 (ws @ xs) u = level_of K0 ws u"
  by (simp add: level_of_def nth_append split: nat.split)

lemma root_of_append: "u \<le> length ws \<Longrightarrow> root_of ps d q0 (ws @ xs) u = root_of ps d q0 ws u"
  by (simp add: root_of_def nth_append split: nat.split)

lemma root_of_offset: "q_offset q0 = 0 \<Longrightarrow> q_offset (root_of ps d q0 ws u) = 0"
  by (simp add: root_of_def split: nat.split)

lemma blob_hist_new:
  "blob_hist ps d 0 \<lparr>q_id = d, q_version = 0, q_offset = 0, q_size = 0\<rparr> [] (obj_info_new d ps rc)"
  by (simp add: blob_hist_def) (simp add: obj_info_new_def root_t_make_def level_of_def root_of_def)

text \<open>Tickets.\<close>

lemma grow_levels:
  assumes "fits ps (2 ^ K)" "k \<le> K" "n \<le> 2 ^ K"
  shows "\<exists>L. k \<le> L \<and> L \<le> K \<and> n \<le> 2 ^ L \<and> grow (pw ps n) (pw ps (2 ^ k)) = Some (pw ps (2 ^ L))"
proof -
  have kK: "(2 :: nat) ^ k \<le> 2 ^ K" using assms(2) by (intro power_increasing) simp_all
  have split: "(2 :: nat) ^ k * 2 ^ (K - k) = 2 ^ K" using assms(2) by (simp flip: power_add)
  have "unat (pw ps (2 ^ k)) * 2 ^ (K - k) = 2 ^ K * unat ps"
    unfolding unat_pw [OF assms(1) kK] split [symmetric] by (simp add: ac_simps)
  moreover have "unat (pw ps n) = n * unat ps" using assms by (intro unat_pw)
  ultimately obtain j where j: "j \<le> K - k"
    and g: "grow (pw ps n) (pw ps (2 ^ k)) = Some (pw ps (2 ^ k) * 2 ^ j)"
    using grow_doubles [of "pw ps n" "pw ps (2 ^ k)" "K - k"] assms by (auto simp: fits_def)
  have lev: "pw ps (2 ^ k) * 2 ^ j = pw ps (2 ^ (k + j))" by (simp add: pw_def power_add ac_simps)
  have "(2 :: nat) ^ (k + j) \<le> 2 ^ K" using j assms(2) by (intro power_increasing) simp_all
  then have "n \<le> 2 ^ (k + j)"
    using grow_Some_ge [OF g] unfolding lev by (simp only: pw_order(1) [OF assms(1,3)])
  with j assms(2) g lev show ?thesis by (intro exI [of _ "k + j"]) simp
qed

text \<open>The part of a reply that a history asks for.\<close>

definition reply_ok :: "u64 \<Rightarrow> u32 \<Rightarrow> query_t \<Rightarrow> write_rec list \<Rightarrow> write_rec \<Rightarrow> bool" where
  "reply_ok ps d q0 ws w \<longleftrightarrow>
     (\<exists>pend entry. vr_intervals (wr_reply w) = pend @ [entry] \<and>
        fst entry = interval_of ps d (length ws) w \<and>
        map fst pend = map (\<lambda>j. interval_of ps d j (ws ! j)) [wr_seen w..<length ws] \<and>
        (\<forall>e \<in> set pend. q_version (fst e) < of_nat (Suc (length ws)))) \<and>
     vr_root_size (wr_reply w) = pw ps (2 ^ wr_level w) \<and>
     rt_page_size (vr_stable_root (wr_reply w)) = ps \<and>
     rt_node (vr_stable_root (wr_reply w)) = root_of ps d q0 ws (wr_seen w) \<and>
     wr_seen w \<le> length ws"

lemma write_request_of_reply:
  assumes "reply_ok ps d q0 ws w" "wr_first w < wr_stop w" "wr_stop w \<le> 2 ^ wr_level w"
    and "length pages = wr_stop w - wr_first w" "page_keys d ps pages"
    and "(wr_stop w - wr_first w) * unat (rt_replica_count (vr_stable_root (wr_reply w))) < 2 ^ 32"
    and "(wr_stop w - wr_first w) * unat (rt_replica_count (vr_stable_root (wr_reply w))) \<le> length provs"
  shows "\<exists>pend. write_request ps d (of_nat (Suc (length ws))) (wr_first w) (wr_stop w) (wr_level w) pend
      (wr_reply w) pages provs \<and>
    map fst pend = map (\<lambda>j. interval_of ps d j (ws ! j)) [wr_seen w..<length ws]"
  using assms unfolding reply_ok_def write_request_def interval_of_def by blast

lemma version_less:
  assumes "map fst pend = map (\<lambda>j. interval_of ps d j (ws ! j)) [s..<n]" "Suc n < 2 ^ 32" "e \<in> set pend"
  shows "q_version (fst e) < of_nat (Suc n)"
proof -
  from assms(1,3) obtain j where "j < n" "fst e = interval_of ps d j (ws ! j)"
    by (metis (no_types, lifting) image_iff list.set_map set_upt atLeastLessThan_iff)
  then show ?thesis using assms(2) by (simp add: interval_of_def word_less_nat_alt unat_of_nat del: of_nat_Suc)
qed

lemma last_root_node:
  assumes "map rt_node rs = map (root_of ps d q0 ws) [0..<length rs]" "rs \<noteq> []"
  shows "rt_node (last rs) = root_of ps d q0 ws (length rs - 1)"
  using arg_cong [OF assms(1), of last] assms(2) by (simp add: last_map)

lemma blob_hist_append:
  assumes "j < length ws"
  shows "interval_of ps d j ((ws @ [w]) ! j) = interval_of ps d j (ws ! j)"
  using assms by (simp add: nth_append)

lemma ticket_blob_hist:
  assumes hist: "blob_hist ps d K0 q0 ws oi" and n: "Suc (Suc (length ws)) < 2 ^ 32" and d: "q_id q = d"
    and tk: "ticket q ap oi = Some oi'"
    and off: "(if ap then oi_progress_size oi else q_offset q) = pw ps (wr_first w)"
    and size: "q_size q = pw ps (wr_stop w - wr_first w)"
    and lev: "oi_max_size oi' = pw ps (2 ^ wr_level w)"
    and seen: "wr_seen w = length (oi_roots oi) - 1"
  shows "blob_hist ps d K0 q0 (ws @ [w]) oi'"
proof -
  let ?n = "length ws" and ?r = "length (oi_roots oi)"
  have inv: "obj_inv oi" and cur: "unat (oi_current_ticket oi) = Suc ?n"
    and ints: "map fst (oi_intervals oi) = map (\<lambda>j. interval_of ps d j (ws ! j)) [?r - 1..<?n]"
    and nodes: "map (\<lambda>e. rt_node (fst (snd e))) (oi_intervals oi) = map (root_of ps d q0 ws) [?r..<Suc ?n]"
    and roots: "map rt_node (oi_roots oi) = map (root_of ps d q0 ws) [0..<?r]"
    and q0: "q_offset q0 = 0" and ps: "rt_page_size (hd (oi_roots oi)) = ps"
    using hist by (simp_all add: blob_hist_def)
  have ticket: "oi_current_ticket oi = of_nat (Suc ?n)"
    using cur n by (simp add: word_unat_eq_iff unat_of_nat del: of_nat_Suc)
  have "unat (oi_current_ticket oi) + 1 < 2 ^ 32" using cur n by simp
  note t = ticket_SomeD [OF tk inv this] and inv' = obj_inv_ticket [OF tk inv this]
  have rn: "?r \<le> Suc ?n" "oi_roots oi \<noteq> []" using obj_invD [OF inv] cur by simp_all
  from t obtain q' r where
    int': "oi_intervals oi' = oi_intervals oi @ [(q', (r, False))]"
    and q': "q_version q' = oi_current_ticket oi" "q_id q' = q_id q" "q_size q' = q_size q"
      "q_offset q' = (if ap then oi_progress_size oi else q_offset q)"
    and r: "rt_node r = \<lparr>q_id = q_id q, q_version = oi_current_ticket oi,
        q_offset = q_offset (rt_node (last (oi_roots oi))), q_size = oi_max_size oi'\<rparr>"
    and rest: "oi_roots oi' = oi_roots oi" "oi_current_ticket oi' = oi_current_ticket oi + 1"
    by metis
  have "q' = interval_of ps d ?n w"
    using q' off size d ticket by (cases q') (simp add: interval_of_def)
  moreover have "rt_node r = root_of ps d q0 (ws @ [w]) (Suc ?n)"
    using r d lev ticket last_root_node [OF roots rn(2)] root_of_offset [OF q0]
    by (simp add: root_of_def nodeq_def)
  moreover have "[?r - 1..<Suc ?n] = [?r - 1..<?n] @ [?n]" "[?r..<Suc (Suc ?n)] = [?r..<Suc ?n] @ [Suc ?n]"
    using rn by simp_all
  moreover have "map (\<lambda>j. interval_of ps d j ((ws @ [w]) ! j)) [?r - 1..<?n] = map fst (oi_intervals oi)"
    unfolding ints by (intro map_cong refl blob_hist_append) auto
  moreover have "map (root_of ps d q0 (ws @ [w])) [?r..<Suc ?n] = map (\<lambda>e. rt_node (fst (snd e))) (oi_intervals oi)"
    unfolding nodes by (intro map_cong refl root_of_append) auto
  moreover have "map (root_of ps d q0 (ws @ [w])) [0..<?r] = map rt_node (oi_roots oi)"
    unfolding roots using rn by (intro map_cong refl root_of_append) auto
  moreover have "unat (oi_current_ticket oi') = Suc (Suc ?n)"
    unfolding rest(2) using cur n by (simp add: unat_word_ariths)
  ultimately show ?thesis
    using inv' q0 ps lev rest int' unfolding blob_hist_def
    by (simp add: level_of_def nth_append del: upt_Suc)
qed

lemma ticket_reply_ok:
  assumes hist: "blob_hist ps d K0 q0 ws oi" and new: "blob_hist ps d K0 q0 (ws @ [w]) oi'"
    and n: "Suc (length ws) < 2 ^ 32" and same: "oi_roots oi' = oi_roots oi"
    and seen: "wr_seen w = length (oi_roots oi) - 1" and reply: "wr_reply w = ticket_reply oi'"
  shows "reply_ok ps d q0 ws w"
proof -
  let ?n = "length ws" and ?r = "length (oi_roots oi)"
  have inv: "obj_inv oi" and cur: "unat (oi_current_ticket oi) = Suc ?n" using hist by (simp_all add: blob_hist_def)
  have rn: "?r \<le> Suc ?n" "oi_roots oi \<noteq> []" using obj_invD [OF inv] cur by simp_all
  have "map fst (oi_intervals oi') = map (\<lambda>j. interval_of ps d j ((ws @ [w]) ! j)) ([?r - 1..<?n] @ [?n])"
    using new rn by (simp add: blob_hist_def same)
  also have "\<dots> = map (\<lambda>j. interval_of ps d j (ws ! j)) [?r - 1..<?n] @ [interval_of ps d ?n w]"
    by (simp add: nth_append)
  finally have ints: "map fst (oi_intervals oi') =
      map (\<lambda>j. interval_of ps d j (ws ! j)) [?r - 1..<?n] @ [interval_of ps d ?n w]" .
  then obtain pend entry where split: "oi_intervals oi' = pend @ [entry]"
    by (metis append_is_Nil_conv list.distinct(1) list.map_disc_iff rev_exhaust)
  then have pend: "map fst pend = map (\<lambda>j. interval_of ps d j (ws ! j)) [?r - 1..<?n]"
    "fst entry = interval_of ps d ?n w" using ints by simp_all
  have "same_params (last (oi_roots oi)) (hd (oi_roots oi))"
    using inv rn(2) by (simp add: obj_inv_def)
  moreover have "rt_node (last (oi_roots oi)) = root_of ps d q0 ws (?r - 1)"
    using hist rn(2) by (intro last_root_node) (simp_all add: blob_hist_def)
  ultimately show ?thesis
    using new hist split pend version_less [OF pend(1) n] rn
    by (auto simp: reply_ok_def reply ticket_reply_def seen same blob_hist_def same_params_def level_of_def)
qed

text \<open>
  C11: the version manager's replies are those the writers rely on. A ticket request for whole
  pages whose range fits into some tree is granted, with a tree of \<open>2 ^ L\<close> pages that holds the
  range; the reply lists the ranges of all unpublished earlier tickets in order, then the
  writer's own, and names the last published version as the stable one; and the record of the
  blob again describes the writes so far.
\<close>

theorem ticket_extends_history:
  assumes "blob_hist ps d K0 q0 ws oi" and "Suc (Suc (length ws)) < 2 ^ 32" and "q_id q = d"
    and "(if ap then oi_progress_size oi else q_offset q) = pw ps a" "q_size q = pw ps (b - a)"
    and "a < b" "b \<le> 2 ^ K" "level_of K0 ws (length ws) \<le> K" and "fits ps (2 ^ K)"
  shows "\<exists>oi' L. ticket q ap oi = Some oi' \<and> level_of K0 ws (length ws) \<le> L \<and> L \<le> K \<and> b \<le> 2 ^ L \<and>
     (\<forall>w. wr_first w = a \<and> wr_stop w = b \<and> wr_level w = L \<and> wr_seen w = length (oi_roots oi) - 1 \<and>
          wr_reply w = ticket_reply oi' \<longrightarrow>
        reply_ok ps d q0 ws w \<and> blob_hist ps d K0 q0 (ws @ [w]) oi')"
proof -
  have stop: "(if ap then oi_progress_size oi else q_offset q) + q_size q = pw ps b"
    unfolding assms(4,5) using assms(6) by (simp flip: pw_add)
  from grow_levels [OF assms(9,8,7)] obtain L where
    L: "level_of K0 ws (length ws) \<le> L" "L \<le> K" "b \<le> 2 ^ L"
    and "grow (pw ps b) (pw ps (2 ^ level_of K0 ws (length ws))) = Some (pw ps (2 ^ L))" by blast
  moreover have "oi_max_size oi = pw ps (2 ^ level_of K0 ws (length ws))" using assms(1) by (simp add: blob_hist_def)
  ultimately have g: "grow (pw ps b) (oi_max_size oi) = Some (pw ps (2 ^ L))" by simp
  obtain oi' where t: "ticket q ap oi = Some oi'" and lev: "oi_max_size oi' = pw ps (2 ^ L)"
    and same: "oi_roots oi' = oi_roots oi"
    using g stop by (cases ap) (auto simp: ticket_def Let_def)
  have "blob_hist ps d K0 q0 (ws @ [w]) oi' \<and> reply_ok ps d q0 ws w"
    if w: "wr_first w = a" "wr_stop w = b" "wr_level w = L" "wr_seen w = length (oi_roots oi) - 1"
      "wr_reply w = ticket_reply oi'" for w
  proof -
    have hist': "blob_hist ps d K0 q0 (ws @ [w]) oi'"
      using assms(4,5) lev w by (intro ticket_blob_hist [OF assms(1-3) t]) simp_all
    from ticket_reply_ok [OF assms(1) this _ same w(4,5)] assms(2) hist' show ?thesis by simp
  qed
  with t L show ?thesis by blast
qed

text \<open>Publishing keeps the relation: only the split between roots and intervals moves.\<close>

lemma im_mark_maps:
  "map fst (im_mark q xs) = map fst xs"
  "map (\<lambda>e. rt_node (fst (snd e))) (im_mark q xs) = map (\<lambda>e. rt_node (fst (snd e))) xs"
  by (induction xs) auto

text \<open>
  publishing a version keeps the correspondence between the blob's record and the writes:
  the published roots are the roots of versions 0, 1, \<dots> in order, and the remaining intervals
  are the ranges of the tickets after them.
\<close>

theorem publish_keeps_history:
  assumes "blob_hist ps d K0 q0 ws oi" and "publish_obj q oi = Some oi'"
  shows "blob_hist ps d K0 q0 ws oi'"
proof -
  let ?n = "length ws" and ?r = "length (oi_roots oi)"
  from publish_SomeD [OF assms(2)] obtain fin rest where
    split: "im_mark q (oi_intervals oi) = fin @ rest"
    and oi': "oi' = oi\<lparr>oi_roots := oi_roots oi @ map (\<lambda>k. fst (snd k)) fin, oi_intervals := rest\<rparr>" by metis
  have inv: "obj_inv oi" and cur: "unat (oi_current_ticket oi) = Suc ?n"
    and fix': "q_offset q0 = 0" "rt_page_size (hd (oi_roots oi)) = ps"
      "oi_max_size oi = pw ps (2 ^ level_of K0 ws (length ws))"
    and roots: "map rt_node (oi_roots oi) = map (root_of ps d q0 ws) [0..<?r]"
    using assms(1) by (simp_all add: blob_hist_def)
  have rn: "?r \<le> Suc ?n" "0 < ?r" "oi_roots oi \<noteq> []" using obj_invD [OF inv] cur by simp_all
  have ints: "map fst fin @ map fst rest = map (\<lambda>j. interval_of ps d j (ws ! j)) [?r - 1..<?n]"
    and nodes: "map (\<lambda>e. rt_node (fst (snd e))) fin @ map (\<lambda>e. rt_node (fst (snd e))) rest =
      map (root_of ps d q0 ws) [?r..<Suc ?n]"
    using assms(1) im_mark_maps [of q "oi_intervals oi"] split by (simp_all add: blob_hist_def)
  have "length fin + length rest = ?n - (?r - 1)" using arg_cong [OF ints, of length] by simp
  then have len: "?r + length fin \<le> Suc ?n" using rn by linarith
  have rest: "map fst rest = map (\<lambda>j. interval_of ps d j (ws ! j)) [?r + length fin - 1..<?n]"
    using arg_cong [OF ints, of "drop (length fin)"] rn len by (simp add: drop_map)
  have rest_nodes: "map (\<lambda>e. rt_node (fst (snd e))) rest = map (root_of ps d q0 ws) [?r + length fin..<Suc ?n]"
    using arg_cong [OF nodes, of "drop (length fin)"] len by (simp add: drop_map del: upt_Suc)
  have "map (\<lambda>e. rt_node (fst (snd e))) fin = map (root_of ps d q0 ws) [?r..<?r + length fin]"
    using arg_cong [OF nodes, of "take (length fin)"] len by (simp add: take_map del: upt_Suc)
  then have new_roots: "map rt_node (oi_roots oi @ map (\<lambda>k. fst (snd k)) fin) = map (root_of ps d q0 ws) [0..<?r + length fin]"
    unfolding map_append roots upt_add_eq_append [OF le0] by (simp add: o_def)
  have sel: "oi_roots oi' = oi_roots oi @ map (\<lambda>k. fst (snd k)) fin" "oi_intervals oi' = rest"
    "oi_current_ticket oi' = oi_current_ticket oi" "oi_max_size oi' = oi_max_size oi" by (simp_all add: oi')
  show ?thesis
    unfolding blob_hist_def sel
    using obj_inv_publish [OF assms(2) inv] cur fix' rn(3) rest rest_nodes new_roots
    by (intro conjI) (simp_all only: length_append length_map hd_append2 not_False_eq_True)
qed

text \<open>A new blob with 8-byte pages: the first ticket, and its publication.\<close>

theorem ticket_extends_history_witness:
  "\<exists>oi' L. ticket \<lparr>q_id = 1, q_version = 0, q_offset = 0, q_size = 16\<rparr> False (obj_info_new 1 8 1) = Some oi' \<and>
     2 \<le> (2 :: nat) ^ L"
proof -
  have "fits 8 (2 ^ 1)" by (simp add: fits_def)
  from ticket_extends_history [OF blob_hist_new, where d = 1 and ps = 8 and a = 0 and b = 2 and K = 1
      and q = "\<lparr>q_id = 1, q_version = 0, q_offset = 0, q_size = 16\<rparr>" and ap = False] this show ?thesis
    by (auto simp: pw_def level_of_def)
qed

theorem publish_keeps_history_witness:
  "\<exists>ws oi oi'. publish_obj \<lparr>q_id = 1, q_version = 1, q_offset = 0, q_size = 16\<rparr> oi = Some oi' \<and>
     length (oi_roots oi') = 2 \<and> blob_hist 8 1 0 \<lparr>q_id = 1, q_version = 0, q_offset = 0, q_size = 0\<rparr> ws oi'"
proof -
  define w :: write_rec where "w = ex_write"
  obtain oi where t: "ticket \<lparr>q_id = 1, q_version = 0, q_offset = 0, q_size = 16\<rparr> False (obj_info_new 1 8 1) = Some oi"
    and oi: "oi_max_size oi = 16" "oi_roots oi = [root_t_make 1 0 8 0 1]"
      "map fst (oi_intervals oi) = [\<lparr>q_id = 1, q_version = 1, q_offset = 0, q_size = 16\<rparr>]"
    by (simp add: obj_info_new_def ticket_def Let_def root_t_make_def grow_step query_less_def)
  have hist: "blob_hist 8 1 0 \<lparr>q_id = 1, q_version = 0, q_offset = 0, q_size = 0\<rparr> [w] oi"
    using ticket_blob_hist [OF blob_hist_new _ _ t, of w] oi
    by (simp add: w_def ex_write_def pw_def obj_info_new_def)
  obtain oi' where pub: "publish_obj \<lparr>q_id = 1, q_version = 1, q_offset = 0, q_size = 16\<rparr> oi = Some oi'"
    and "length (oi_roots oi') = 2"
    using oi by (cases "oi_intervals oi") (auto simp: publish_obj_def query_less_def)
  with publish_keeps_history [OF hist pub] show ?thesis by blast
qed

end
