(* ===== verification/Cluster_Version.thy ===== *)
theory Cluster_Version
  imports Cluster_Write Blob_History
begin

text \<open>
  Reads of numbered versions with the version manager of \<open>Vmanagement\<close> and the providers of \<open>Page_Manager\<close>: the
  root the client works on is the one the version manager published.
\<close>

section \<open>The version manager as a server\<close>

text \<open>\<open>vms log\<close> is the state of the version manager when the client has made the calls of \<open>log\<close>.\<close>

definition vmgr_env :: "archive \<Rightarrow> (oh_log \<Rightarrow> vmanagement) \<Rightarrow> object_handler \<Rightarrow> env \<Rightarrow> bool" where
  "vmgr_env ar vms oh env \<longleftrightarrow>
     (\<forall>log n params. answers_as (case vm_lookup ar n of Some h \<Rightarrow> h params (vms log) | None \<Rightarrow> Hangs)
        (en_answer env log (vmgr_call oh n params)))"

text \<open>The roots a client has cached are those of the versions.\<close>

definition cache_right :: "u64 \<Rightarrow> u32 \<Rightarrow> query_t \<Rightarrow> write_rec list \<Rightarrow> object_handler \<Rightarrow> bool" where
  "cache_right ps d q0 ws oh \<longleftrightarrow>
     (\<forall>v r b. lookup (version_cache oh) v = Some (r, b) \<longrightarrow> rt_node r = root_of ps d q0 ws (unat v) \<and> rt_page_size r = ps)"

lemma published_root:
  assumes "blob_hist ps d K0 q0 (ws @ later) oi" "Suc n < length (oi_roots oi)" "n < length ws" "unat v = Suc n"
  shows "rt_node (select_root oi v) = root_of ps d q0 ws (Suc n)" "rt_page_size (select_root oi v) = ps"
proof -
  have sel: "select_root oi v = oi_roots oi ! Suc n" using assms(2,4) by (auto simp: select_root_def unat_gt_0)
  have "map rt_node (oi_roots oi) = map (root_of ps d q0 (ws @ later)) [0..<length (oi_roots oi)]"
    using assms(1) by (simp add: blob_hist_def)
  then have "map rt_node (oi_roots oi) ! Suc n = map (root_of ps d q0 (ws @ later)) [0..<length (oi_roots oi)] ! Suc n" by simp
  then have "rt_node (oi_roots oi ! Suc n) = root_of ps d q0 (ws @ later) (Suc n)" using assms(2) by (simp del: upt_Suc)
  then show "rt_node (select_root oi v) = root_of ps d q0 ws (Suc n)" using assms(3) sel by (simp add: root_of_append)
  have "same_params (oi_roots oi ! Suc n) (hd (oi_roots oi))" using assms(1,2) by (simp add: blob_hist_def obj_inv_def)
  then show "rt_page_size (select_root oi v) = ps" using assms(1) sel by (simp add: blob_hist_def same_params_def)
qed

lemma version_root:
  assumes "archive_ok ar" "vmgr_env ar vms oh env" "obj_hash (vms log) (oh_id oh) = Some oi"
    and "blob_hist ps d K0 q0 (ws @ later) oi" "Suc n < length (oi_roots oi)" "n < length ws" "unat v = Suc n"
    and "cache_right ps d q0 ws oh"
  shows "\<exists>root oh' log'. query_root_of ar env v oh log = (True, root, oh', log') \<and>
     rt_node root = root_of ps d q0 ws (Suc n) \<and> rt_page_size root = ps"
proof -
  have v: "v \<noteq> 0" using assms(7) by auto
  obtain hit vc where c: "cache_read cache_mt_LRU_ops v (version_cache oh) = (hit, vc)" by fastforce
  note hit = lru.read_result [OF c]
  show ?thesis
  proof (cases hit)
    case (Some r)
    then obtain b where "lookup (version_cache oh) v = Some (r, b)" using hit by auto
    then have "rt_node r = root_of ps d q0 ws (Suc n)" "rt_page_size r = ps" using assms(7,8) unfolding cache_right_def by metis+
    then show ?thesis using v c Some by (simp add: query_root_of_def get_root_def)
  next
    case None
    let ?call = "vmgr_call oh VMGR_GETROOT [buffer_wrapper ar (ar_u32 ar) (oh_id oh), buffer_wrapper ar (ar_u32 ar) v]"
    let ?ans = "(rpc_ok, [buffer_wrapper ar (ser_root ar) (select_root oi v)])"
    have "vm_lookup ar VMGR_GETROOT = Some (vm_get_root ar)" by (simp add: vm_lookup_def rpc_names)
    then have "answers_as (vm_get_root ar [buffer_wrapper ar (ar_u32 ar) (oh_id oh), buffer_wrapper ar (ar_u32 ar) v] (vms log)) (en_answer env log ?call)"
      using assms(2) unfolding vmgr_env_def by (metis option.simps(5))
    then have ans: "en_answer env log ?call = ?ans"
      unfolding vm_get_root_eval [OF assms(1)] assms(3) by (simp add: answers_as_def)
    have "answer_call env ?call log = (?ans, log @ [Called ?call ?ans])"
      using ans by (simp add: answer_call_def Let_def vmgr_call_def plain_call_def)
    moreover have "vmgr_call (oh\<lparr>version_cache := vc\<rparr>) = vmgr_call oh" by (intro ext) (simp add: vmgr_call_def)
    ultimately show ?thesis using v c None published_root [OF assms(4-7)] assms(1)
      by (simp add: query_root_of_def get_root_def rpc_get_serialized_def Let_def)
  qed
qed

section \<open>Reading a version\<close>

text \<open>
  C3: A read of a published version returns the bytes of its snapshot, with the servers of the other parts. The
  version manager is that of \<open>Vmanagement\<close>, in any state in which version \<open>n + 1\<close> of the blob is published
  (the writers of \<open>later\<close> hold tickets for versions after those of \<open>ws\<close>); the providers are those of \<open>Page_Manager\<close> over memory.
  If the DHT holds the metadata of the versions up to this one and every page of the range was
  acknowledged by one of its providers that is still up (by all of them, if the page is read only
  in part), \<open>read\<close> returns success with the requested slice of the snapshot.
\<close>

theorem cluster_reads_version:
  assumes "archive_ok ar" and "history ar ps d rc K0 q0 f0 ws" and "n < length ws"
    and "vmgr_env ar vms oh env" and "obj_hash (vms log) (oh_id oh) = Some oi"
    and "blob_hist ps d K0 q0 (ws @ later) oi" and "Suc n < length (oi_roots oi)" and "cache_right ps d q0 ws oh"
    and "\<forall>log. store_has ar ps K0 q0 f0 ws (Suc n) (en_dht env log)"
    and "read_fits ps offset sz" and "offset + sz \<le> pw ps (2 ^ wr_level (ws ! n))" and "length mem = unat sz"
    and "\<forall>p. length (data p) = unat ps"
    and "provider_env ar null_ops sender pms env"
    and "\<forall>log h pm. pms log h = Some pm \<longrightarrow> (\<exists>W. provider_reach ar null_ops (\<lambda>_ _. False) (null_bw_map_new cs m) M W pm)"
    and "finite (dom M)" and "card (dom M) < 2 ^ 32"
    and "\<forall>p. first_page ps offset \<le> p \<and> p < stop_page ps offset sz \<longrightarrow>
       (\<exists>x. content rc f0 ws (Suc n) p = Some x \<and>
          page_kept ar (null_bw_map_new cs m) M pms (p * unat ps < unat offset \<or> unat offset + unat sz < Suc p * unat ps) x (data p))"
  shows "\<exists>oh' log'. oh_read ar env offset sz mem (of_nat (Suc n)) oh log =
    (Ret True, take (unat sz) (drop (unat offset) (concat (map data [0..<stop_page ps offset sz]))), oh', log')"
proof -
  let ?v = "of_nat (Suc n) :: u32"
  have "length ws < 2 ^ 32" using assms(2) by (simp add: history_def)
  then have v: "unat ?v = Suc n" using assms(3) by (simp add: unat_of_nat del: of_nat_Suc)
  from version_root [OF assms(1,4-7,3) v assms(8)] obtain root oh1 log1 where
    q: "query_root_of ar env ?v oh log = (True, root, oh1, log1)" "rt_node root = root_of ps d q0 ws (Suc n)" "rt_page_size root = ps" by blast
  have "read_guard root ?v offset sz = None"
    using q(2,3) assms(11) read_fitsD(1) [OF assms(10)] by (auto simp: read_guard_def root_of_def nodeq_def simp del: of_nat_Suc)
  from cluster_snapshot_bytes [OF assms(1-3) q assms(9) [rule_format] this assms(10,12-18)] show ?thesis by blast
qed

section \<open>An instance\<close>

text \<open>The providers of the instance of \<open>Cluster_Read\<close> and a version manager that has published the write.\<close>

definition cv_obj :: obj_info where
  "cv_obj = \<lparr>oi_roots = [root_t_make 1 0 8 0 1, root_t_make 1 1 8 16 1], oi_intervals = [], oi_current_ticket = 2,
     oi_max_size = 16, oi_progress_size = 16\<rparr>"

definition cv_vm :: vmanagement where
  "cv_vm = \<lparr>obj_hash = [1 \<mapsto> cv_obj], obj_count = 1\<rparr>"

definition cv_env :: env where
  "cv_env = cl_env\<lparr>en_answer := (\<lambda>log c.
     if rc_host c = ''vm'' \<and> rc_buffers c = []
     then (case vm_lookup plain_archive (rc_name c) of
             Some h \<Rightarrow> (case h (rc_params c) cv_vm of Returns st result _ \<Rightarrow> (st, result) | _ \<Rightarrow> (rpc_eobj, []))
           | None \<Rightarrow> (rpc_eobj, []))
     else en_answer cl_env log c)\<rparr>"

lemma cv_vmgr: "vmgr_env plain_archive (\<lambda>log. cv_vm) ex_handler cv_env"
proof -
  have "rpc_eobj \<noteq> rpc_ok" "vmgr_host ex_handler = ''vm''"
    by (simp_all add: rpc_eobj_def rpc_ok_def ex_handler_def object_handler_new_def)
  then show ?thesis
    by (simp add: vmgr_env_def cv_env_def vmgr_call_def plain_call_def answers_as_def split: option.splits outcome.splits)
qed

lemma cv_provider_env: "provider_env plain_archive null_ops ''x'' cl_pms cv_env"
  unfolding provider_env_def
proof (intro allI impI)
  fix log and c :: rpc_call assume c: "rc_buffers c \<noteq> [] \<and> rc_name c \<in> {PROVIDER_READ, PROVIDER_READ_PARTIAL}"
  then have "en_answer cv_env log c = en_answer cl_env log c" by (simp add: cv_env_def)
  with c cl_provider_env show "case cl_pms log (rc_host c, rc_service c) of None \<Rightarrow> fst (en_answer cv_env log c) \<noteq> rpc_ok
      | Some pm \<Rightarrow> answers_as (serve plain_archive null_ops ''x'' c pm) (en_answer cv_env log c)"
    unfolding provider_env_def by presburger
qed

lemma cv_hist: "blob_hist 8 1 0 ex_base ([ex_write] @ []) cv_obj"
  by (auto simp: blob_hist_def cv_obj_def obj_inv_def less_Suc_eq same_params_def root_t_make_def
      level_of_def root_of_def ex_write_def ex_base_def nodeq_def pw_def upt_rec versions_def)

theorem cluster_reads_version_witness:
  "\<exists>oh' log'. oh_read plain_archive cv_env 3 10 (replicate 10 0) 1 ex_handler [] = (Ret True, [3, 4, 5, 6, 7, 8, 9, 10, 11, 12], oh', log')"
proof -
  have n: "0 < length [ex_write]" "Suc 0 < length (oi_roots cv_obj)" "obj_hash ((\<lambda>log. cv_vm) []) (oh_id ex_handler) = Some cv_obj"
    by (simp_all add: cv_obj_def cv_vm_def ex_handler_def)
  have c: "cache_right 8 1 ex_base [ex_write] ex_handler"
    by (simp add: cache_right_def ex_handler_def object_handler_new_def cache_init_def lookup_def)
  have s: "\<forall>log. store_has plain_archive 8 0 ex_base Map.empty [ex_write] (Suc 0) (en_dht cv_env log)"
    using ex_has by (simp add: cv_env_def cl_env_def)
  have r: "(3 :: u64) + 10 \<le> pw 8 (2 ^ wr_level ([ex_write] ! 0))" "length (replicate 10 0 :: buffer) = unat (10 :: u64)"
    "\<forall>p. length (rd_page p) = unat (8 :: u64)"
    using rd_length by (simp_all add: ex_write_def pw_def)
  have k: "\<forall>p. first_page 8 3 \<le> p \<and> p < stop_page 8 3 10 \<longrightarrow> (\<exists>x. content 1 Map.empty [ex_write] (Suc 0) p = Some x \<and>
      page_kept plain_archive (null_bw_map_new 1 100) cl_pages cl_pms (p * unat (8 :: u64) < unat (3 :: u64) \<or> unat (3 :: u64) + unat (10 :: u64) < Suc p * unat (8 :: u64)) x (rd_page p))"
    using cl_kept rd_content by (simp add: rd_range del: content.simps)
  from cluster_reads_version [OF plain_archive_ok ex_history n(1) cv_vmgr n(3) cv_hist n(2) c s rd_fits r cv_provider_env cl_states cl_finite k]
  show ?thesis by (simp add: rd_range rd_page_def upt_rec)
qed

end
