(* ===== verification/C_Interface.thy ===== *)
theory C_Interface
  imports Object_Write
begin

text \<open>
  \<open>lib/blobseer.cpp\<close> and \<open>lib/blobseerf.cpp\<close>: the client library for C and Fortran programs. A \<open>blob_t\<close>
  points to an object handler and repeats some of its data. The objects the library allocates are
  the entries of lists, a pointer is an index, and \<open>None\<close> is an object that was freed; using it is
  undefined (\<open>Und\<close>). C programs hold the \<open>blob_t\<close> themselves, for Fortran programs the library
  allocates it and they hold a pointer.

  The constructor of the handler reads a configuration file with a third-party library: \<open>mk\<close> gives the
  handler for a file name, or the exception.
\<close>

record blob_t =
  b_obj :: nat
  b_id :: u32
  b_latest_version :: u32
  b_page_size :: u64

record lib_state =
  ls_envs :: "string option list"
  ls_handlers :: "object_handler option list"
  ls_blobs :: "blob_t option list"
  ls_log :: oh_log

definition lib_init :: lib_state where
  "lib_init = \<lparr>ls_envs = [], ls_handlers = [], ls_blobs = [], ls_log = []\<rparr>"

text \<open>A pointer is followed, or not.\<close>

definition deref :: "'a option list \<Rightarrow> nat \<Rightarrow> 'a option" where
  "deref xs p = (if p < length xs then xs ! p else None)"

section \<open>C\<close>

definition blob_init :: "string \<Rightarrow> lib_state \<Rightarrow> (int \<times> nat) \<times> lib_state" where
  "blob_init config_file st = ((1, length (ls_envs st)), st\<lparr>ls_envs := ls_envs st @ [Some config_file]\<rparr>)"

definition blob_finalize :: "nat \<Rightarrow> lib_state \<Rightarrow> int res \<times> lib_state" where
  "blob_finalize e st =
     (if deref (ls_envs st) e = None then (Und ''cfg_file'', st) else (Ret 1, st\<lparr>ls_envs := (ls_envs st)[e := None]\<rparr>))"

definition new_handler :: "(string \<Rightarrow> object_handler res) \<Rightarrow> nat \<Rightarrow> lib_state \<Rightarrow> nat res \<times> lib_state" where
  "new_handler mk e st =
     (case deref (ls_envs st) e of
        None \<Rightarrow> (Und ''cfg_file'', st)
      | Some cfg \<Rightarrow>
          (case mk cfg of
             Ret h \<Rightarrow> (Ret (length (ls_handlers st)), st\<lparr>ls_handlers := ls_handlers st @ [Some h]\<rparr>)
           | Thr x \<Rightarrow> (Thr x, st)
           | Und x \<Rightarrow> (Und x, st)))"

text \<open>A call of a method through a pointer to a handler.\<close>

definition on_handler ::
  "nat \<Rightarrow> (object_handler \<Rightarrow> oh_log \<Rightarrow> 'a res \<times> object_handler \<times> oh_log) \<Rightarrow> lib_state \<Rightarrow> 'a res \<times> lib_state" where
  "on_handler p f st =
     (case deref (ls_handlers st) p of
        None \<Rightarrow> (Und ''obj'', st)
      | Some h \<Rightarrow> (case f h (ls_log st) of (r, h, log) \<Rightarrow> (r, st\<lparr>ls_handlers := (ls_handlers st)[p := Some h], ls_log := log\<rparr>)))"

text \<open>What a new \<open>blob_t\<close> is filled with.\<close>

definition blob_of :: "nat \<Rightarrow> lib_state \<Rightarrow> blob_t" where
  "blob_of p st =
     (let h = the (deref (ls_handlers st) p) in
      \<lparr>b_obj = p, b_id = oh_get_id h, b_latest_version = oh_get_version h, b_page_size = oh_get_page_size h\<rparr>)"

text \<open>A new handler on which one call is made; if it fails the handler is not deleted.\<close>

definition open_blob ::
  "(string \<Rightarrow> object_handler res) \<Rightarrow> (object_handler \<Rightarrow> oh_log \<Rightarrow> bool \<times> object_handler \<times> oh_log) \<Rightarrow> nat \<Rightarrow> blob_t \<Rightarrow> lib_state \<Rightarrow>
     int res \<times> blob_t \<times> lib_state" where
  "open_blob mk f e blob st =
     (case new_handler mk e st of
        (Thr x, st) \<Rightarrow> (Thr x, blob, st)
      | (Und x, st) \<Rightarrow> (Und x, blob, st)
      | (Ret p, st) \<Rightarrow>
          (case on_handler p (\<lambda>h log. case f h log of (ok, h, log) \<Rightarrow> (Ret ok, h, log)) st of
             (Ret ok, st) \<Rightarrow> if \<not> ok then (Ret 0, blob, st) else (Ret 1, blob_of p st, st)
           | (Thr x, st) \<Rightarrow> (Thr x, blob, st)
           | (Und x, st) \<Rightarrow> (Und x, blob, st)))"

definition blob_create ::
  "(string \<Rightarrow> object_handler res) \<Rightarrow> archive \<Rightarrow> env \<Rightarrow> nat \<Rightarrow> u64 \<Rightarrow> u32 \<Rightarrow> blob_t \<Rightarrow> lib_state \<Rightarrow> int res \<times> blob_t \<times> lib_state" where
  "blob_create mk ar env e psize rc blob st = open_blob mk (oh_create ar env psize rc) e blob st"

definition blob_clone ::
  "(string \<Rightarrow> object_handler res) \<Rightarrow> archive \<Rightarrow> env \<Rightarrow> nat \<Rightarrow> u32 \<Rightarrow> u32 \<Rightarrow> blob_t \<Rightarrow> lib_state \<Rightarrow> int res \<times> blob_t \<times> lib_state" where
  "blob_clone mk ar env e bid version blob st = open_blob mk (oh_clone ar env bid version) e blob st"

definition blob_setid ::
  "(string \<Rightarrow> object_handler res) \<Rightarrow> archive \<Rightarrow> env \<Rightarrow> nat \<Rightarrow> u32 \<Rightarrow> blob_t \<Rightarrow> lib_state \<Rightarrow> int res \<times> blob_t \<times> lib_state" where
  "blob_setid mk ar env e bid blob st =
     (case open_blob mk (oh_get_latest ar env bid) e blob st of
        (r, b, st) \<Rightarrow> (r, if r = Ret 1 then b\<lparr>b_id := bid\<rparr> else b, st))"

definition blob_free :: "blob_t \<Rightarrow> lib_state \<Rightarrow> int res \<times> lib_state" where
  "blob_free blob st =
     (if deref (ls_handlers st) (b_obj blob) = None then (Und ''obj'', st)
      else (Ret 1, st\<lparr>ls_handlers := (ls_handlers st)[b_obj blob := None]\<rparr>))"

definition blob_getsize :: "archive \<Rightarrow> env \<Rightarrow> blob_t \<Rightarrow> u32 \<Rightarrow> lib_state \<Rightarrow> u64 res \<times> lib_state" where
  "blob_getsize ar env blob version st =
     on_handler (b_obj blob) (\<lambda>h log. case oh_get_size ar env version h log of (s, h, log) \<Rightarrow> (Ret s, h, log)) st"

definition blob_getlatest :: "archive \<Rightarrow> env \<Rightarrow> blob_t \<Rightarrow> lib_state \<Rightarrow> int res \<times> blob_t \<times> lib_state" where
  "blob_getlatest ar env blob st =
     (case on_handler (b_obj blob) (\<lambda>h log. case oh_get_latest ar env 0 h log of (ok, h, log) \<Rightarrow> (Ret ok, h, log)) st of
        (Ret ok, st) \<Rightarrow>
          if \<not> ok then (Ret 0, blob, st)
          else (Ret 1, blob\<lparr>b_latest_version := b_latest_version (blob_of (b_obj blob) st)\<rparr>, st)
      | (Thr x, st) \<Rightarrow> (Thr x, blob, st)
      | (Und x, st) \<Rightarrow> (Und x, blob, st))"

text \<open>The exceptions of a read are caught, those of a write are not. The buffer is returned.\<close>

definition blob_read ::
  "archive \<Rightarrow> env \<Rightarrow> blob_t \<Rightarrow> u32 \<Rightarrow> u64 \<Rightarrow> u64 \<Rightarrow> buffer \<Rightarrow> lib_state \<Rightarrow> (int \<times> buffer) res \<times> lib_state" where
  "blob_read ar env blob version offset sz mem st =
     on_handler (b_obj blob)
       (\<lambda>h log. case oh_read ar env offset sz mem version h log of
          (Ret ok, mem, h, log) \<Rightarrow> (Ret (if ok then 1 else 0, mem), h, log)
        | (Thr x, mem, h, log) \<Rightarrow> (Ret (0, mem), h, log)
        | (Und x, mem, h, log) \<Rightarrow> (Und x, h, log)) st"

definition write_result :: "bool res \<times> object_handler \<times> oh_log \<Rightarrow> int res \<times> object_handler \<times> oh_log" where
  "write_result x = (case x of (r, h, log) \<Rightarrow> (case r of Ret ok \<Rightarrow> Ret (if ok then 1 else 0) | Thr e \<Rightarrow> Thr e | Und e \<Rightarrow> Und e, h, log))"

definition blob_write :: "archive \<Rightarrow> env \<Rightarrow> blob_t \<Rightarrow> u64 \<Rightarrow> u64 \<Rightarrow> buffer \<Rightarrow> lib_state \<Rightarrow> int res \<times> lib_state" where
  "blob_write ar env blob offset sz buf st = on_handler (b_obj blob) (\<lambda>h log. write_result (oh_write ar env offset sz buf h log)) st"

definition blob_append :: "archive \<Rightarrow> env \<Rightarrow> blob_t \<Rightarrow> u64 \<Rightarrow> buffer \<Rightarrow> lib_state \<Rightarrow> int res \<times> lib_state" where
  "blob_append ar env blob sz buf st = on_handler (b_obj blob) (\<lambda>h log. write_result (oh_append ar env sz buf h log)) st"

section \<open>Fortran\<close>

text \<open>
  The environment of a Fortran program is freed with its string. A new \<open>blob_t\<close> has arbitrary
  contents, \<open>junk\<close>; it is freed if the call fails. Variables the program passes by reference are
  arguments and results: \<open>blob\<close> and \<open>err\<close>.
\<close>

definition blob_init_f :: "string \<Rightarrow> lib_state \<Rightarrow> nat \<times> lib_state" where
  "blob_init_f config_file st = (case blob_init config_file st of ((_, e), st) \<Rightarrow> (e, st))"

definition blob_finalize_f :: "nat \<Rightarrow> lib_state \<Rightarrow> int res \<times> lib_state" where
  "blob_finalize_f e st = blob_finalize e st"

definition opened_f :: "blob_t \<Rightarrow> (blob_t \<Rightarrow> lib_state \<Rightarrow> int res \<times> blob_t \<times> lib_state) \<Rightarrow> lib_state \<Rightarrow> (nat \<times> int) res \<times> lib_state" where
  "opened_f junk op st =
     (let p = length (ls_blobs st); st = st\<lparr>ls_blobs := ls_blobs st @ [Some junk]\<rparr>
      in case op junk st of
           (Ret err, b, st) \<Rightarrow> (Ret (p, err), st\<lparr>ls_blobs := (ls_blobs st)[p := if err = 0 then None else Some b]\<rparr>)
         | (Thr x, b, st) \<Rightarrow> (Thr x, st\<lparr>ls_blobs := (ls_blobs st)[p := Some b]\<rparr>)
         | (Und x, b, st) \<Rightarrow> (Und x, st))"

definition blob_create_f ::
  "(string \<Rightarrow> object_handler res) \<Rightarrow> archive \<Rightarrow> env \<Rightarrow> blob_t \<Rightarrow> nat \<Rightarrow> u64 \<Rightarrow> u32 \<Rightarrow> lib_state \<Rightarrow> (nat \<times> int) res \<times> lib_state" where
  "blob_create_f mk ar env junk e psize rc st = opened_f junk (blob_create mk ar env e psize rc) st"

definition blob_bind_to_f ::
  "(string \<Rightarrow> object_handler res) \<Rightarrow> archive \<Rightarrow> env \<Rightarrow> blob_t \<Rightarrow> nat \<Rightarrow> u32 \<Rightarrow> lib_state \<Rightarrow> (nat \<times> int) res \<times> lib_state" where
  "blob_bind_to_f mk ar env junk e bid st = opened_f junk (blob_setid mk ar env e bid) st"

text \<open>Unlike the others, a failed clone leaves the program's variable \<open>blob\<close> as it was.\<close>

definition blob_clone_f ::
  "(string \<Rightarrow> object_handler res) \<Rightarrow> archive \<Rightarrow> env \<Rightarrow> blob_t \<Rightarrow> nat \<Rightarrow> u32 \<Rightarrow> u32 \<Rightarrow> nat \<Rightarrow> lib_state \<Rightarrow> (nat \<times> int) res \<times> lib_state" where
  "blob_clone_f mk ar env junk e bid version blob st =
     (case opened_f junk (blob_clone mk ar env e bid version) st of
        (Ret (p, err), st) \<Rightarrow> (Ret (if err = 0 then blob else p, err), st)
      | (Thr x, st) \<Rightarrow> (Thr x, st)
      | (Und x, st) \<Rightarrow> (Und x, st))"

text \<open>The operations that follow the pointer to the \<open>blob_t\<close>.\<close>

definition on_blob :: "nat \<Rightarrow> (blob_t \<Rightarrow> lib_state \<Rightarrow> 'a res \<times> blob_t \<times> lib_state) \<Rightarrow> lib_state \<Rightarrow> 'a res \<times> lib_state" where
  "on_blob p op st =
     (case deref (ls_blobs st) p of
        None \<Rightarrow> (Und ''blob'', st)
      | Some b \<Rightarrow> (case op b st of (r, b, st) \<Rightarrow> (r, st\<lparr>ls_blobs := (ls_blobs st)[p := Some b]\<rparr>)))"

definition blob_set_id_f :: "archive \<Rightarrow> env \<Rightarrow> u32 \<Rightarrow> nat \<Rightarrow> lib_state \<Rightarrow> int res \<times> lib_state" where
  "blob_set_id_f ar env bid p st =
     on_blob p (\<lambda>b st.
       case on_handler (b_obj b) (\<lambda>h log. case oh_get_latest ar env bid h log of (ok, h, log) \<Rightarrow> (Ret ok, h, log)) st of
         (Ret ok, st) \<Rightarrow> if \<not> ok then (Ret 0, b, st) else (Ret 1, (blob_of (b_obj b) st)\<lparr>b_id := bid\<rparr>, st)
       | (Thr x, st) \<Rightarrow> (Thr x, b, st)
       | (Und x, st) \<Rightarrow> (Und x, b, st)) st"

definition blob_free_f :: "nat \<Rightarrow> lib_state \<Rightarrow> int res \<times> lib_state" where
  "blob_free_f p st =
     (case deref (ls_blobs st) p of
        None \<Rightarrow> (Und ''blob'', st)
      | Some b \<Rightarrow> (case blob_free b st of (r, st) \<Rightarrow> (r, st\<lparr>ls_blobs := (ls_blobs st)[p := None]\<rparr>)))"

definition blob_get_size_f :: "archive \<Rightarrow> env \<Rightarrow> nat \<Rightarrow> u32 \<Rightarrow> lib_state \<Rightarrow> u64 res \<times> lib_state" where
  "blob_get_size_f ar env p version st = on_blob p (\<lambda>b st. case blob_getsize ar env b version st of (r, st) \<Rightarrow> (r, b, st)) st"

text \<open>The version is returned even if the call failed.\<close>

definition blob_get_latest_f :: "archive \<Rightarrow> env \<Rightarrow> nat \<Rightarrow> lib_state \<Rightarrow> (int \<times> u32) res \<times> lib_state" where
  "blob_get_latest_f ar env p st =
     on_blob p (\<lambda>b st. case blob_getlatest ar env b st of
       (Ret err, b, st) \<Rightarrow> (Ret (err, b_latest_version b), b, st)
     | (Thr x, b, st) \<Rightarrow> (Thr x, b, st)
     | (Und x, b, st) \<Rightarrow> (Und x, b, st)) st"

definition blob_read_f :: "archive \<Rightarrow> env \<Rightarrow> nat \<Rightarrow> u32 \<Rightarrow> u64 \<Rightarrow> u64 \<Rightarrow> buffer \<Rightarrow> lib_state \<Rightarrow> (int \<times> buffer) res \<times> lib_state" where
  "blob_read_f ar env p version offset sz mem st =
     on_blob p (\<lambda>b st. case blob_read ar env b version offset sz mem st of (r, st) \<Rightarrow> (r, b, st)) st"

definition blob_write_f :: "archive \<Rightarrow> env \<Rightarrow> nat \<Rightarrow> u64 \<Rightarrow> u64 \<Rightarrow> buffer \<Rightarrow> lib_state \<Rightarrow> int res \<times> lib_state" where
  "blob_write_f ar env p offset sz buf st =
     on_blob p (\<lambda>b st. case blob_write ar env b offset sz buf st of (r, st) \<Rightarrow> (r, b, st)) st"

definition blob_append_f :: "archive \<Rightarrow> env \<Rightarrow> nat \<Rightarrow> u64 \<Rightarrow> buffer \<Rightarrow> lib_state \<Rightarrow> int res \<times> lib_state" where
  "blob_append_f ar env p sz buf st =
     on_blob p (\<lambda>b st. case blob_append ar env b sz buf st of (r, st) \<Rightarrow> (r, b, st)) st"

definition blob_get_page_size_f :: "nat \<Rightarrow> lib_state \<Rightarrow> u64 res \<times> lib_state" where
  "blob_get_page_size_f p st = on_blob p (\<lambda>b st. (Ret (b_page_size b), b, st)) st"

definition blob_get_id_f :: "nat \<Rightarrow> lib_state \<Rightarrow> u32 res \<times> lib_state" where
  "blob_get_id_f p st = on_blob p (\<lambda>b st. (Ret (b_id b), b, st)) st"

end
