(* ===== verification/Java_Binding.thy ===== *)
theory Java_Binding
  imports C_Interface
begin

text \<open>
  \<open>bindings/java/blobseer_ObjectHandler.cpp\<close>: the native methods of the Java class \<open>ObjectHandler\<close>. The class
  keeps a pointer to an object handler as a number, 0 for none. The handlers are those of
  \<open>C_Interface\<close>; the pointer to the handler with index \<open>p\<close> is \<open>Suc p\<close>. A \<open>jlong\<close> or \<open>jint\<close> passed to C++ is a word,
  one that is returned to Java is the number Java reads from it.

  The functions of the Java virtual machine are parameters: the characters of a string (\<open>None\<close> is a
  null pointer), the memory of a direct buffer (\<open>None\<close> if the buffer is not direct), and whether
  classes and methods are found.
\<close>

text \<open>The part of a \<open>std::string\<close> that is left after \<open>c_str()\<close>.\<close>

definition c_string :: "string \<Rightarrow> string" where
  "c_string s = takeWhile (\<lambda>c. c \<noteq> CHR 0x00) s"

definition java_init :: "(string \<Rightarrow> object_handler res) \<Rightarrow> string option \<Rightarrow> lib_state \<Rightarrow> nat res \<times> lib_state" where
  "java_init mk jcfg st =
     (case jcfg of
        None \<Rightarrow> (Und ''cfg'', st)
      | Some cfg \<Rightarrow>
          (case mk (c_string cfg) of
             Ret h \<Rightarrow> (Ret (Suc (length (ls_handlers st))), st\<lparr>ls_handlers := ls_handlers st @ [Some h]\<rparr>)
           | Thr x \<Rightarrow> (Ret 0, st)
           | Und x \<Rightarrow> (Und x, st)))"

definition java_free :: "nat \<Rightarrow> lib_state \<Rightarrow> bool res \<times> lib_state" where
  "java_free blob st =
     (case blob of
        0 \<Rightarrow> (Ret False, st)
      | Suc p \<Rightarrow> if deref (ls_handlers st) p = None then (Und ''delete'', st)
                 else (Ret True, st\<lparr>ls_handlers := (ls_handlers st)[p := None]\<rparr>))"

text \<open>A method is called on the handler without a check of the pointer.\<close>

definition on_java ::
  "nat \<Rightarrow> (object_handler \<Rightarrow> oh_log \<Rightarrow> 'a res \<times> object_handler \<times> oh_log) \<Rightarrow> lib_state \<Rightarrow> 'a res \<times> lib_state" where
  "on_java blob f st = (case blob of 0 \<Rightarrow> (Und ''blob'', st) | Suc p \<Rightarrow> on_handler p f st)"

definition java_create :: "archive \<Rightarrow> env \<Rightarrow> nat \<Rightarrow> u64 \<Rightarrow> u32 \<Rightarrow> lib_state \<Rightarrow> bool res \<times> lib_state" where
  "java_create ar env blob ps rc st =
     on_java blob (\<lambda>h log. case oh_create ar env ps rc h log of (ok, h, log) \<Rightarrow> (Ret ok, h, log)) st"

definition java_get_latest :: "archive \<Rightarrow> env \<Rightarrow> nat \<Rightarrow> u32 \<Rightarrow> lib_state \<Rightarrow> bool res \<times> lib_state" where
  "java_get_latest ar env blob bid st =
     on_java blob (\<lambda>h log. case oh_get_latest ar env bid h log of (ok, h, log) \<Rightarrow> (Ret ok, h, log)) st"

text \<open>The size of the direct buffer is not compared with \<open>sz\<close>.\<close>

definition java_read ::
  "archive \<Rightarrow> env \<Rightarrow> nat \<Rightarrow> u64 \<Rightarrow> u64 \<Rightarrow> buffer option \<Rightarrow> u32 \<Rightarrow> lib_state \<Rightarrow> (bool \<times> buffer option) res \<times> lib_state" where
  "java_read ar env blob offset sz jbuffer version st =
     (case jbuffer of
        None \<Rightarrow> (Ret (False, None), st)
      | Some mem \<Rightarrow>
          on_java blob
            (\<lambda>h log. case oh_read ar env offset sz mem version h log of
               (Ret ok, mem, h, log) \<Rightarrow> (Ret (ok, Some mem), h, log)
             | (Thr x, mem, h, log) \<Rightarrow> (Ret (False, Some mem), h, log)
             | (Und x, mem, h, log) \<Rightarrow> (Und x, h, log)) st)"

text \<open>The exceptions of a write are caught, too.\<close>

definition caught :: "bool res \<times> object_handler \<times> oh_log \<Rightarrow> bool res \<times> object_handler \<times> oh_log" where
  "caught x = (case x of (r, h, log) \<Rightarrow> (case r of Thr e \<Rightarrow> Ret False | _ \<Rightarrow> r, h, log))"

definition java_append :: "archive \<Rightarrow> env \<Rightarrow> nat \<Rightarrow> u64 \<Rightarrow> buffer option \<Rightarrow> lib_state \<Rightarrow> bool res \<times> lib_state" where
  "java_append ar env blob sz jbuffer st =
     (case jbuffer of
        None \<Rightarrow> (Ret False, st)
      | Some buf \<Rightarrow> on_java blob (\<lambda>h log. caught (oh_append ar env sz buf h log)) st)"

definition java_write :: "archive \<Rightarrow> env \<Rightarrow> nat \<Rightarrow> u64 \<Rightarrow> u64 \<Rightarrow> buffer option \<Rightarrow> lib_state \<Rightarrow> bool res \<times> lib_state" where
  "java_write ar env blob offset sz jbuffer st =
     (case jbuffer of
        None \<Rightarrow> (Ret False, st)
      | Some buf \<Rightarrow> on_java blob (\<lambda>h log. caught (oh_write ar env offset sz buf h log)) st)"

definition java_get_objcount :: "archive \<Rightarrow> env \<Rightarrow> u32 \<Rightarrow> nat \<Rightarrow> lib_state \<Rightarrow> int res \<times> lib_state" where
  "java_get_objcount ar env junk blob st =
     on_java blob (\<lambda>h log. case oh_get_objcount ar env junk h log of (n, log) \<Rightarrow> (Ret n, h, log)) st"

definition java_get_size :: "archive \<Rightarrow> env \<Rightarrow> nat \<Rightarrow> u32 \<Rightarrow> lib_state \<Rightarrow> int res \<times> lib_state" where
  "java_get_size ar env blob version st =
     on_java blob (\<lambda>h log. case oh_get_size ar env version h log of (n, h, log) \<Rightarrow> (Ret (sint n), h, log)) st"

definition java_get_version :: "nat \<Rightarrow> lib_state \<Rightarrow> int res \<times> lib_state" where
  "java_get_version blob st = on_java blob (\<lambda>h log. (Ret (sint (oh_get_version h)), h, log)) st"

text \<open>The page size has 64 bits and is returned as a \<open>jint\<close>.\<close>

definition java_get_page_size :: "nat \<Rightarrow> lib_state \<Rightarrow> int res \<times> lib_state" where
  "java_get_page_size blob st = on_java blob (\<lambda>h log. (Ret (sint (ucast (oh_get_page_size h) :: u32)), h, log)) st"

definition java_get_id :: "nat \<Rightarrow> lib_state \<Rightarrow> int res \<times> lib_state" where
  "java_get_id blob st = on_java blob (\<lambda>h log. (Ret (sint (oh_get_id h)), h, log)) st"

record jni_lookup =
  jn_vector :: bool
  jn_add :: bool
  jn_page_location :: bool
  jn_constructor :: bool

record page_location_object =
  po_host :: string
  po_service :: string
  po_offset :: int
  po_size :: int

definition java_location :: "page_location_t \<Rightarrow> page_location_object" where
  "java_location l =
     \<lparr>po_host = c_string (pd_host (pl_provider l)), po_service = c_string (pd_service (pl_provider l)),
      po_offset = sint (pl_offset l), po_size = sint (pl_size l)\<rparr>"

text \<open>The Java vector \<open>result\<close> is an argument and a result. Exceptions are not caught.\<close>

definition java_get_locations ::
  "archive \<Rightarrow> env \<Rightarrow> jni_lookup \<Rightarrow> nat \<Rightarrow> u64 \<Rightarrow> u64 \<Rightarrow> page_location_object list \<Rightarrow> u32 \<Rightarrow> lib_state \<Rightarrow>
     (bool \<times> page_location_object list) res \<times> lib_state" where
  "java_get_locations ar env jn blob offset sz result version st =
     on_java blob
       (\<lambda>h log. case get_locations ar env offset sz version h log of
          (Ret (ok, loc), h, log) \<Rightarrow>
            if \<not> ok then (Ret (False, result), h, log)
            else if \<not> jn_vector jn then (Ret (False, result), h, log)
            else if \<not> jn_add jn then (Ret (False, result), h, log)
            else if \<not> jn_page_location jn then (Ret (False, result), h, log)
            else if \<not> jn_constructor jn then (Ret (False, result), h, log)
            else (Ret (True, result @ map java_location loc), h, log)
        | (Thr x, h, log) \<Rightarrow> (Thr x, h, log)
        | (Und x, h, log) \<Rightarrow> (Und x, h, log)) st"

text \<open>What Java reads from 32 bits.\<close>

lemma sint_32: "sint (w :: u32) = (if unat w < 2 ^ 31 then int (unat w) else int (unat w) - 2 ^ 32)"
proof -
  have w: "uint w < 2 ^ 32" "0 \<le> uint w" using unsigned_less [where 'a = int, of w] by simp_all
  have "(uint w + 2 ^ 31) mod 2 ^ 32 = uint w - 2 ^ 31" if "\<not> uint w < 2 ^ 31"
  proof -
    have "(uint w + 2 ^ 31) mod 2 ^ 32 = ((uint w - 2 ^ 31) + 2 ^ 32) mod 2 ^ 32" by (simp add: add.commute)
    also have "\<dots> = uint w - 2 ^ 31" unfolding mod_add_self2 using that w by (intro mod_pos_pos_trivial) simp_all
    finally show ?thesis .
  qed
  moreover have "(uint w + 2 ^ 31) mod 2 ^ 32 = uint w + 2 ^ 31" if "uint w < 2 ^ 31"
    using that w by (intro mod_pos_pos_trivial) simp_all
  moreover have "sint w = (uint w + 2 ^ 31) mod 2 ^ 32 - 2 ^ 31"
    unfolding sint_uint signed_take_bit_eq_take_bit_shift take_bit_eq_mod by simp
  ultimately have "sint w = (if uint w < 2 ^ 31 then uint w else uint w - 2 ^ 32)" by (cases "uint w < 2 ^ 31") simp_all
  moreover have u: "int (unat w) = uint w" by simp
  have "unat w < 2 ^ 31 \<longleftrightarrow> uint w < 2 ^ 31" unfolding u [symmetric]
    by (simp only: of_nat_less_iff [symmetric, where 'a = int] of_nat_power of_nat_numeral)
  ultimately show ?thesis unfolding u by argo
qed

text \<open>
  The page size Java gets is right below \<open>2 ^ 31\<close>; with pages of \<open>2 ^ 31\<close> to \<open>2 ^ 32 - 1\<close> bytes it is negative.
\<close>

lemma java_page_size:
  assumes "deref (ls_handlers st) p = Some h" "unat (oh_get_page_size h) < 2 ^ 32"
  shows "\<exists>st'. java_get_page_size (Suc p) st =
    (Ret (if unat (oh_get_page_size h) < 2 ^ 31 then int (unat (oh_get_page_size h)) else int (unat (oh_get_page_size h)) - 2 ^ 32), st')"
proof -
  have "unat (ucast (oh_get_page_size h) :: u32) = unat (oh_get_page_size h)"
    using assms(2) by (simp add: unsigned_ucast_eq take_bit_nat_eq_self)
  then have "sint (ucast (oh_get_page_size h) :: u32) =
     (if unat (oh_get_page_size h) < 2 ^ 31 then int (unat (oh_get_page_size h)) else int (unat (oh_get_page_size h)) - 2 ^ 32)"
    by (simp only: sint_32)
  then show ?thesis using assms(1) by (simp add: java_get_page_size_def on_java_def on_handler_def)
qed

end
