(* ===== verification/Ruby_Binding.thy ===== *)
theory Ruby_Binding
  imports Java_Binding
begin

text \<open>
  \<open>bindings/ruby/blobseer_ruby.cpp\<close>: the functions of the Ruby module. A Ruby object wraps a structure with a
  pointer to an object handler. Objects, structures, strings and their memory are entries of lists
  and referred to by their index; \<open>None\<close> is memory that was freed.

  The functions of the Ruby interpreter are a parameter, the record \<open>ruby_api\<close>; \<open>ruby_api_ok\<close> states what is documented
  of them. A conversion gives \<open>None\<close> if it raises a Ruby exception, which leaves the function at once;
  exceptions of C++ are caught in each function.
\<close>

section \<open>Values and memory\<close>

datatype rb_value = Qnil | Qtrue | Qfalse | Num int | Str nat | Ary "rb_value list" | Data nat

datatype 'a rb_res = Value 'a | Raise | Undef string

record ruby_api =
  num2ll :: "rb_value \<Rightarrow> u64 option"
  num2uint :: "rb_value \<Rightarrow> u32 option"
  num2int :: "rb_value \<Rightarrow> u32 option"
  uint2num :: "u32 \<Rightarrow> rb_value"
  int2num :: "u32 \<Rightarrow> rb_value"
  ull2num :: "u64 \<Rightarrow> rb_value"
  rb_calloc :: "nat \<Rightarrow> bool"

definition ruby_api_ok :: "ruby_api \<Rightarrow> bool" where
  "ruby_api_ok api \<longleftrightarrow>
     (\<forall>i. - (2 ^ 63) \<le> i \<and> i < 2 ^ 63 \<longrightarrow> num2ll api (Num i) = Some (of_int i)) \<and>
     (\<forall>i. 0 \<le> i \<and> i < 2 ^ 32 \<longrightarrow> num2uint api (Num i) = Some (of_int i)) \<and>
     (\<forall>i. - (2 ^ 31) \<le> i \<and> i < 2 ^ 31 \<longrightarrow> num2int api (Num i) = Some (of_int i)) \<and>
     (\<forall>w. uint2num api w = Num (uint w)) \<and> (\<forall>w. int2num api w = Num (sint w)) \<and> (\<forall>w. ull2num api w = Num (uint w))"

record rstring =
  rs_len :: u64
  rs_ptr :: nat

record rb_state =
  rb_lib :: lib_state
  rb_wrappers :: "nat option option list"
  rb_mem :: "buffer option list"
  rb_strs :: "rstring list"

text \<open>The bytes of a string.\<close>

definition rb_bytes :: "rb_state \<Rightarrow> nat \<Rightarrow> buffer option" where
  "rb_bytes st s =
     (if s < length (rb_strs st)
      then map_option (take (unat (rs_len (rb_strs st ! s)))) (deref (rb_mem st) (rs_ptr (rb_strs st ! s)))
      else None)"

text \<open>Ruby ends the memory of a string with a zero byte.\<close>

definition rb_str_new :: "buffer \<Rightarrow> rb_state \<Rightarrow> nat \<times> rb_state" where
  "rb_str_new b st =
     (length (rb_strs st),
      st\<lparr>rb_strs := rb_strs st @ [\<lparr>rs_len = of_nat (length b), rs_ptr = length (rb_mem st)\<rparr>], rb_mem := rb_mem st @ [Some (b @ [0])]\<rparr>)"

definition create_cpp_obj_wrapper :: "nat \<Rightarrow> rb_state \<Rightarrow> nat \<times> rb_state" where
  "create_cpp_obj_wrapper p st = (length (rb_wrappers st), st\<lparr>rb_wrappers := rb_wrappers st @ [Some (Some p)]\<rparr>)"

definition cpp_obj_wrapper_free :: "nat \<Rightarrow> rb_state \<Rightarrow> unit res \<times> rb_state" where
  "cpp_obj_wrapper_free w st =
     (case deref (rb_wrappers st) w of
        None \<Rightarrow> (Und ''obj'', st)
      | Some None \<Rightarrow> (Ret (), st\<lparr>rb_wrappers := (rb_wrappers st)[w := None]\<rparr>)
      | Some (Some p) \<Rightarrow>
          if deref (ls_handlers (rb_lib st)) p = None then (Und ''delete'', st)
          else (Ret (), st\<lparr>rb_lib := (rb_lib st)\<lparr>ls_handlers := (ls_handlers (rb_lib st))[p := None]\<rparr>,
                           rb_wrappers := (rb_wrappers st)[w := None]\<rparr>))"

section \<open>Arguments and calls\<close>

definition with_num :: "(rb_value \<Rightarrow> 'n option) \<Rightarrow> rb_value \<Rightarrow> ('n \<Rightarrow> rb_state \<Rightarrow> 'a rb_res \<times> rb_state) \<Rightarrow> rb_state \<Rightarrow> 'a rb_res \<times> rb_state" where
  "with_num conv v k st = (case conv v of None \<Rightarrow> (Raise, st) | Some n \<Rightarrow> k n st)"

text \<open>\<open>Data_Get_Struct\<close>, and the handler the structure points to.\<close>

definition with_struct :: "rb_value \<Rightarrow> (nat option \<Rightarrow> rb_state \<Rightarrow> 'a rb_res \<times> rb_state) \<Rightarrow> rb_state \<Rightarrow> 'a rb_res \<times> rb_state" where
  "with_struct v k st =
     (case v of
        Data w \<Rightarrow> (case deref (rb_wrappers st) w of None \<Rightarrow> (Undef ''obj'', st) | Some d \<Rightarrow> k d st)
      | _ \<Rightarrow> (Raise, st))"

text \<open>\<open>RSTRING(v)->ptr\<close>, for a value that is not checked to be a string.\<close>

definition with_ptr :: "rb_value \<Rightarrow> (buffer \<Rightarrow> rb_state \<Rightarrow> 'a rb_res \<times> rb_state) \<Rightarrow> rb_state \<Rightarrow> 'a rb_res \<times> rb_state" where
  "with_ptr v k st =
     (case v of
        Str s \<Rightarrow> if s < length (rb_strs st)
                 then case deref (rb_mem st) (rs_ptr (rb_strs st ! s)) of None \<Rightarrow> (Undef ''ptr'', st) | Some b \<Rightarrow> k b st
                 else (Undef ''RSTRING'', st)
      | _ \<Rightarrow> (Undef ''RSTRING'', st))"

text \<open>A method of the handler; \<open>err\<close> is returned if it throws.\<close>

definition call_method ::
  "rb_value \<Rightarrow> ('a \<Rightarrow> rb_state \<Rightarrow> rb_value \<times> rb_state) \<Rightarrow> nat option \<Rightarrow>
     (object_handler \<Rightarrow> oh_log \<Rightarrow> 'a res \<times> object_handler \<times> oh_log) \<Rightarrow> rb_state \<Rightarrow> rb_value rb_res \<times> rb_state" where
  "call_method err k d f st =
     (case d of
        None \<Rightarrow> (Undef ''data'', st)
      | Some p \<Rightarrow>
          (case on_handler p f (rb_lib st) of
             (Ret x, lib) \<Rightarrow> (case k x (st\<lparr>rb_lib := lib\<rparr>) of (v, st) \<Rightarrow> (Value v, st))
           | (Thr e, lib) \<Rightarrow> (Value err, st\<lparr>rb_lib := lib\<rparr>)
           | (Und e, lib) \<Rightarrow> (Undef e, st\<lparr>rb_lib := lib\<rparr>)))"

definition rb_bool :: "bool \<Rightarrow> rb_state \<Rightarrow> rb_value \<times> rb_state" where
  "rb_bool ok st = (if ok then Qtrue else Qfalse, st)"

definition returning :: "'a \<times> object_handler \<times> oh_log \<Rightarrow> 'a res \<times> object_handler \<times> oh_log" where
  "returning x = (case x of (v, h, log) \<Rightarrow> (Ret v, h, log))"

section \<open>The functions\<close>

definition method_init_object_handler ::
  "(string \<Rightarrow> object_handler res) \<Rightarrow> rb_value \<Rightarrow> rb_state \<Rightarrow> rb_value rb_res \<times> rb_state" where
  "method_init_object_handler mk cfg st =
     with_ptr cfg
       (\<lambda>b st. if 0 \<notin> set b then (Undef ''strlen'', st)
          else case mk (map (\<lambda>x. char_of (unat x)) (takeWhile (\<lambda>x. x \<noteq> 0) b)) of
             Ret h \<Rightarrow>
               let p = length (ls_handlers (rb_lib st));
                   st = st\<lparr>rb_lib := (rb_lib st)\<lparr>ls_handlers := ls_handlers (rb_lib st) @ [Some h]\<rparr>\<rparr>;
                   (w, st) = create_cpp_obj_wrapper p st
               in (Value (Data w), st)
           | Thr x \<Rightarrow> (Value Qnil, st)
           | Und x \<Rightarrow> (Undef x, st)) st"

definition method_create :: "ruby_api \<Rightarrow> archive \<Rightarrow> env \<Rightarrow> rb_value \<Rightarrow> rb_value \<Rightarrow> rb_value \<Rightarrow> rb_state \<Rightarrow> rb_value rb_res \<times> rb_state" where
  "method_create api ar env obj ps rc st =
     with_num (num2ll api) ps (\<lambda>ps. with_num (num2uint api) rc (\<lambda>rc. with_struct obj (\<lambda>d.
       call_method Qfalse rb_bool d (\<lambda>h log. returning (oh_create ar env ps rc h log))))) st"

definition method_clone :: "ruby_api \<Rightarrow> archive \<Rightarrow> env \<Rightarrow> rb_value \<Rightarrow> rb_value \<Rightarrow> rb_value \<Rightarrow> rb_state \<Rightarrow> rb_value rb_res \<times> rb_state" where
  "method_clone api ar env obj bid version st =
     with_num (num2int api) bid (\<lambda>bid. with_num (num2int api) version (\<lambda>version. with_struct obj (\<lambda>d.
       call_method Qfalse rb_bool d (\<lambda>h log. returning (oh_clone ar env bid version h log))))) st"

definition method_get_latest :: "ruby_api \<Rightarrow> archive \<Rightarrow> env \<Rightarrow> rb_value \<Rightarrow> rb_value \<Rightarrow> rb_state \<Rightarrow> rb_value rb_res \<times> rb_state" where
  "method_get_latest api ar env obj bid st =
     with_num (num2uint api) bid (\<lambda>bid. with_struct obj (\<lambda>d.
       call_method Qfalse rb_bool d (\<lambda>h log. returning (oh_get_latest ar env bid h log)))) st"

definition c_bytes :: "string \<Rightarrow> buffer" where
  "c_bytes s = map (\<lambda>c. of_nat (of_char c)) (c_string s)"

fun push_locations :: "ruby_api \<Rightarrow> page_location_t list \<Rightarrow> rb_value list \<Rightarrow> rb_state \<Rightarrow> rb_value list \<times> rb_state" where
  "push_locations api [] arr st = (arr, st)"
| "push_locations api (l # loc) arr st =
     (let (host, st) = rb_str_new (c_bytes (pd_host (pl_provider l))) st;
          (port, st) = rb_str_new (c_bytes (pd_service (pl_provider l))) st
      in push_locations api loc (arr @ [Ary [Str host, Str port, ull2num api (pl_offset l), ull2num api (pl_size l)]]) st)"

definition method_get_locations ::
  "ruby_api \<Rightarrow> archive \<Rightarrow> env \<Rightarrow> rb_value \<Rightarrow> rb_value \<Rightarrow> rb_value \<Rightarrow> rb_value \<Rightarrow> rb_state \<Rightarrow> rb_value rb_res \<times> rb_state" where
  "method_get_locations api ar env obj offset sz version st =
     with_num (num2ll api) offset (\<lambda>offset. with_num (num2ll api) sz (\<lambda>sz. with_num (num2uint api) version (\<lambda>version. with_struct obj (\<lambda>d.
       call_method Qnil (\<lambda>(ok, loc) st. if \<not> ok then (Qnil, st) else case push_locations api loc [] st of (arr, st) \<Rightarrow> (Ary arr, st))
         d (\<lambda>h log. get_locations ar env offset sz version h log))))) st"

text \<open>
  A read into new memory that the new string refers to before the read. If the read fails the memory is
  freed; the string still refers to it. Memory that could not be allocated has no bytes.
\<close>

definition method_read ::
  "ruby_api \<Rightarrow> archive \<Rightarrow> env \<Rightarrow> rb_value \<Rightarrow> rb_value \<Rightarrow> rb_value \<Rightarrow> rb_value \<Rightarrow> rb_state \<Rightarrow> rb_value rb_res \<times> rb_state" where
  "method_read api ar env obj offset sz version st =
     with_num (num2ll api) offset (\<lambda>offset. with_num (num2ll api) sz (\<lambda>sz. with_num (num2uint api) version (\<lambda>version. with_struct obj (\<lambda>d st.
       let s = length (rb_strs st); b = length (rb_mem st);
           mem = (if rb_calloc api (unat sz) then replicate (unat sz) 0 else []);
           st = st\<lparr>rb_strs := rb_strs st @ [\<lparr>rs_len = sz, rs_ptr = b\<rparr>], rb_mem := rb_mem st @ [Some mem]\<rparr>
       in call_method Qnil
            (\<lambda>(r, mem) st. case r of
               Ret True \<Rightarrow> (Str s, st\<lparr>rb_mem := (rb_mem st)[b := Some mem]\<rparr>)
             | Ret False \<Rightarrow> (Qnil, st\<lparr>rb_mem := (rb_mem st)[b := None]\<rparr>)
             | _ \<Rightarrow> (Qnil, st\<lparr>rb_mem := (rb_mem st)[b := Some mem]\<rparr>))
            d (\<lambda>h log. case oh_read ar env offset sz mem version h log of
                 (Und e, mem, h, log) \<Rightarrow> (Und e, h, log)
               | (r, mem, h, log) \<Rightarrow> (Ret (r, mem), h, log)) st)))) st"

definition method_append :: "ruby_api \<Rightarrow> archive \<Rightarrow> env \<Rightarrow> rb_value \<Rightarrow> rb_value \<Rightarrow> rb_value \<Rightarrow> rb_state \<Rightarrow> rb_value rb_res \<times> rb_state" where
  "method_append api ar env obj sz buf st =
     with_struct obj (\<lambda>d. with_num (num2ll api) sz (\<lambda>sz. with_ptr buf (\<lambda>b.
       call_method Qfalse rb_bool d (\<lambda>h log. oh_append ar env sz b h log)))) st"

definition method_write ::
  "ruby_api \<Rightarrow> archive \<Rightarrow> env \<Rightarrow> rb_value \<Rightarrow> rb_value \<Rightarrow> rb_value \<Rightarrow> rb_value \<Rightarrow> rb_state \<Rightarrow> rb_value rb_res \<times> rb_state" where
  "method_write api ar env obj offset sz buf st =
     with_struct obj (\<lambda>d. with_num (num2ll api) offset (\<lambda>offset. with_num (num2ll api) sz (\<lambda>sz. with_ptr buf (\<lambda>b.
       call_method Qfalse rb_bool d (\<lambda>h log. oh_write ar env offset sz b h log))))) st"

definition method_get_objcount :: "ruby_api \<Rightarrow> archive \<Rightarrow> env \<Rightarrow> u32 \<Rightarrow> rb_value \<Rightarrow> rb_state \<Rightarrow> rb_value rb_res \<times> rb_state" where
  "method_get_objcount api ar env junk obj st =
     with_struct obj (\<lambda>d. call_method Qnil (\<lambda>n st. (int2num api (of_int n), st)) d
       (\<lambda>h log. case oh_get_objcount ar env junk h log of (n, log) \<Rightarrow> (Ret n, h, log))) st"

text \<open>\<open>UINT2NUM\<close> takes an \<open>unsigned int\<close>.\<close>

definition method_get_size :: "ruby_api \<Rightarrow> archive \<Rightarrow> env \<Rightarrow> rb_value \<Rightarrow> rb_value \<Rightarrow> rb_state \<Rightarrow> rb_value rb_res \<times> rb_state" where
  "method_get_size api ar env obj version st =
     with_num (num2int api) version (\<lambda>version. with_struct obj (\<lambda>d.
       call_method Qnil (\<lambda>n st. (uint2num api (ucast n), st)) d (\<lambda>h log. returning (oh_get_size ar env version h log)))) st"

definition method_get_version :: "ruby_api \<Rightarrow> rb_value \<Rightarrow> rb_state \<Rightarrow> rb_value rb_res \<times> rb_state" where
  "method_get_version api obj st =
     with_struct obj (\<lambda>d. call_method Qnil (\<lambda>n st. (uint2num api n, st)) d (\<lambda>h log. (Ret (oh_get_version h), h, log))) st"

definition method_get_page_size :: "ruby_api \<Rightarrow> rb_value \<Rightarrow> rb_state \<Rightarrow> rb_value rb_res \<times> rb_state" where
  "method_get_page_size api obj st =
     with_struct obj (\<lambda>d. call_method Qnil (\<lambda>n st. (uint2num api (ucast n), st)) d (\<lambda>h log. (Ret (oh_get_page_size h), h, log))) st"

definition method_get_id :: "ruby_api \<Rightarrow> rb_value \<Rightarrow> rb_state \<Rightarrow> rb_value rb_res \<times> rb_state" where
  "method_get_id api obj st =
     with_struct obj (\<lambda>d. call_method Qnil (\<lambda>n st. (uint2num api n, st)) d (\<lambda>h log. (Ret (oh_get_id h), h, log))) st"

text \<open>The names and arities under which Ruby programs call the functions.\<close>

definition ruby_module :: "(string \<times> nat) list" where
  "ruby_module =
     [(''_create_'', 3), (''_clone_'', 3), (''_read_'', 4), (''_write_'', 4), (''_get_id_'', 1), (''_get_size_'', 2),
      (''_get_locations_'', 4), (''_get_latest_'', 2), (''_get_page_size_'', 1), (''_append_'', 3), (''_get_version_'', 1), (''new'', 1)]"

end
