(* ===== verification/Python_Binding.thy ===== *)
theory Python_Binding
  imports Object_Write
begin

text \<open>
  \<open>bindings/python/pyblobseer.cpp\<close>: the Python class, which is the object handler with another \<open>read\<close> and
  the property \<open>size\<close>. The reader passes an object with a method \<open>write\<close>, which gets the bytes that were read.

  The name of the class of this object and the contents of newly allocated memory are parameters.
\<close>

definition contains :: "string \<Rightarrow> string \<Rightarrow> bool" where
  "contains s t = list_ex (\<lambda>i. take (length t) (drop i s) = t) [0..<Suc (length s)]"

text \<open>
  The string at the start of memory, as \<open>PyString_FromString\<close> takes it: the bytes up to the first zero. \<open>None\<close> is a read
  behind the memory.
\<close>

fun zero_terminated :: "buffer \<Rightarrow> buffer option" where
  "zero_terminated [] = None"
| "zero_terminated (x # mem) = (if x = 0 then Some [] else map_option (Cons x) (zero_terminated mem))"

text \<open>
  The result is what \<open>read\<close> returns and the argument of the call of \<open>write\<close>, if there was one. The memory
  is not freed.
\<close>

definition py_read ::
  "archive \<Rightarrow> env \<Rightarrow> (nat \<Rightarrow> byte) \<Rightarrow> u64 \<Rightarrow> u64 \<Rightarrow> string \<Rightarrow> u32 \<Rightarrow> object_handler \<Rightarrow> oh_log
     \<Rightarrow> (bool \<times> buffer option) res \<times> object_handler \<times> oh_log" where
  "py_read ar env junk offset sz class_name version oh log =
     (if \<not> contains class_name ''StringIO'' then (Ret (False, None), oh, log)
      else case oh_read ar env offset sz (map junk [0..<unat sz]) version oh log of
        (Ret True, mem, oh, log) \<Rightarrow>
          (case zero_terminated mem of
             None \<Rightarrow> (Und ''strlen'', oh, log)
           | Some str \<Rightarrow> (Ret (True, Some str), oh, log))
      | (Ret False, mem, oh, log) \<Rightarrow> (Ret (False, None), oh, log)
      | (Thr e, mem, oh, log) \<Rightarrow> (Thr e, oh, log)
      | (Und e, mem, oh, log) \<Rightarrow> (Und e, oh, log))"

lemma zero_terminated_eq:
  "zero_terminated mem = (if 0 \<in> set mem then Some (takeWhile (\<lambda>x. x \<noteq> 0) mem) else None)"
  by (induction mem) auto

definition py_size :: "archive \<Rightarrow> env \<Rightarrow> object_handler \<Rightarrow> oh_log \<Rightarrow> u64 \<times> object_handler \<times> oh_log" where
  "py_size ar env oh log = oh_get_size ar env 0 oh log"

end
