(* ===== verification/Binding_Reads.thy ===== *)
theory Binding_Reads
  imports Ruby_Binding Python_Binding Cluster_Write
begin

text \<open>
  What programs in Java, Ruby and Python get from a read, and where the bindings lose data.
\<close>

section \<open>Ruby\<close>

text \<open>The state of a Ruby program with an object for the handler \<open>h\<close>.\<close>

definition ruby_handle :: "rb_state \<Rightarrow> nat \<Rightarrow> object_handler \<Rightarrow> bool" where
  "ruby_handle st w h \<longleftrightarrow> (\<exists>p. deref (rb_wrappers st) w = Some (Some p) \<and> deref (ls_handlers (rb_lib st)) p = Some h)"

lemma ruby_numbers:
  assumes "ruby_api_ok api"
  shows "uint (x :: u64) < 2 ^ 63 \<Longrightarrow> num2ll api (Num (uint x)) = Some x"
    and "num2uint api (Num (uint v)) = Some v" and "uint2num api v = Num (uint v)"
proof -
  have "0 \<le> uint x" "- (2 ^ 63) \<le> (0 :: int)" by simp_all
  then have "- (2 ^ 63) \<le> uint x" by (rule order_trans [rotated])
  then show "num2ll api (Num (uint x)) = Some x" if "uint (x :: u64) < 2 ^ 63"
    using assms that unfolding ruby_api_ok_def by auto
  have "uint v < 2 ^ 32" using unsigned_less [where 'a = int, of v] by simp
  then show "num2uint api (Num (uint v)) = Some v" using assms unfolding ruby_api_ok_def by simp
  show "uint2num api v = Num (uint v)" using assms unfolding ruby_api_ok_def by simp
qed

lemma ruby_read_eval:
  assumes "ruby_api_ok api" "uint offset < 2 ^ 63" "uint sz < 2 ^ 63" "rb_calloc api (unat sz)" "ruby_handle st w h"
    and "oh_read ar env offset sz (replicate (unat sz) 0) version h (ls_log (rb_lib st)) = (Ret ok, mem, h', log')"
  shows "\<exists>st'. method_read api ar env (Data w) (Num (uint offset)) (Num (uint sz)) (Num (uint version)) st =
      (Value (if ok then Str (length (rb_strs st)) else Qnil), st') \<and>
    rb_strs st' = rb_strs st @ [\<lparr>rs_len = sz, rs_ptr = length (rb_mem st)\<rparr>] \<and>
    rb_mem st' = rb_mem st @ [if ok then Some mem else None]"
  using assms(4-6) ruby_numbers [OF assms(1)] assms(2,3)
  by (cases ok) (auto simp: method_read_def with_num_def with_struct_def call_method_def on_handler_def ruby_handle_def Let_def list_update_append)

text \<open>After a read that fails the new string refers to memory that was freed.\<close>

lemma ruby_failed_read_dangles:
  assumes "ruby_api_ok api" "uint offset < 2 ^ 63" "uint sz < 2 ^ 63" "rb_calloc api (unat sz)" "ruby_handle st w h"
    and "oh_read ar env offset sz (replicate (unat sz) 0) version h (ls_log (rb_lib st)) = (Ret False, mem, h', log')"
  shows "\<exists>st' s. method_read api ar env (Data w) (Num (uint offset)) (Num (uint sz)) (Num (uint version)) st = (Value Qnil, st') \<and>
    s < length (rb_strs st') \<and> deref (rb_mem st') (rs_ptr (rb_strs st' ! s)) = None"
  using ruby_read_eval [OF assms] by (force simp: deref_def)

text \<open>The size of a blob in Ruby is its size modulo \<open>2 ^ 32\<close>.\<close>

lemma ruby_size_cut:
  assumes "ruby_api_ok api" "ruby_handle st w h"
  shows "\<exists>st'. method_get_size api ar env (Data w) (Num 0) st =
    (Value (Num (uint (rt_current_size (latest_root h)) mod 2 ^ 32)), st')"
proof -
  have "num2int api (Num 0) = Some 0" using assms(1) unfolding ruby_api_ok_def by simp
  moreover have "uint (ucast (rt_current_size (latest_root h)) :: u32) = uint (rt_current_size (latest_root h)) mod 2 ^ 32"
    by (simp add: unsigned_ucast_eq take_bit_eq_mod)
  ultimately show ?thesis using assms(2) ruby_numbers(3) [OF assms(1)]
    by (auto simp: method_get_size_def with_num_def with_struct_def call_method_def on_handler_def ruby_handle_def
        returning_def oh_get_size_def)
qed

text \<open>Ruby programs cannot ask for the number of blobs.\<close>

lemma ruby_no_objcount: "\<not> (\<exists>n. (''_get_objcount_'', n) \<in> set ruby_module)"
  by (simp add: ruby_module_def)

section \<open>Reads in the three languages\<close>

text \<open>
  What the bindings make of a read of the client library that succeeds with \<open>bytes\<close>, whatever its
  buffer held before.
\<close>

lemma binding_results:
  assumes "\<forall>mem. length mem = unat sz \<longrightarrow> (\<exists>log'. oh_read ar env offset sz mem version h log = (Ret True, bytes, h', log'))"
    and "ruby_api_ok api" "rb_calloc api (unat sz)" "uint offset < 2 ^ 63" "uint sz < 2 ^ 63" "length bytes = unat sz"
    and "deref (ls_handlers lib) p = Some h" "ls_log lib = log"
    and "ruby_handle st w h" "ls_log (rb_lib st) = log" and "contains class_name ''StringIO''"
  shows "(\<forall>jbuf. length jbuf = unat sz \<longrightarrow>
      (\<exists>lib'. java_read ar env (Suc p) offset sz (Some jbuf) version lib = (Ret (True, Some bytes), lib'))) \<and>
    (\<exists>s st'. method_read api ar env (Data w) (Num (uint offset)) (Num (uint sz)) (Num (uint version)) st = (Value (Str s), st') \<and>
      rb_bytes st' s = Some bytes) \<and>
    (\<exists>log'. py_read ar env junk offset sz class_name version h log =
      (if 0 \<in> set bytes then Ret (True, Some (takeWhile (\<lambda>x. x \<noteq> 0) bytes)) else Und ''strlen'', h', log'))"
proof (intro conjI allI impI)
  fix jbuf :: buffer assume "length jbuf = unat sz"
  with assms(1) obtain log' where "oh_read ar env offset sz jbuf version h log = (Ret True, bytes, h', log')" by blast
  then show "\<exists>lib'. java_read ar env (Suc p) offset sz (Some jbuf) version lib = (Ret (True, Some bytes), lib')"
    using assms(7,8) by (simp add: java_read_def on_java_def on_handler_def)
next
  obtain log' where "oh_read ar env offset sz (replicate (unat sz) 0) version h (ls_log (rb_lib st)) = (Ret True, bytes, h', log')"
    using assms(1,10) by fastforce
  from ruby_read_eval [OF assms(2,4,5,3,9) this] assms(6)
  show "\<exists>s st'. method_read api ar env (Data w) (Num (uint offset)) (Num (uint sz)) (Num (uint version)) st = (Value (Str s), st') \<and>
      rb_bytes st' s = Some bytes"
    by (force simp: rb_bytes_def deref_def)
next
  obtain log' where "oh_read ar env offset sz (map junk [0..<unat sz]) version h log = (Ret True, bytes, h', log')"
    using assms(1) by fastforce
  then show "\<exists>log'. py_read ar env junk offset sz class_name version h log =
      (if 0 \<in> set bytes then Ret (True, Some (takeWhile (\<lambda>x. x \<noteq> 0) bytes)) else Und ''strlen'', h', log')"
    using assms(11) by (simp add: py_read_def zero_terminated_eq)
qed

lemma snapshot_slice_length:
  assumes "read_fits ps offset sz" "\<forall>p. length (data p) = unat ps"
  shows "length (take (unat sz) (drop (unat offset) (concat (map data [0..<stop_page ps offset sz])))) = unat sz"
proof -
  have "length (concat (map data [0..<stop_page ps offset sz])) = stop_page ps offset sz * unat ps"
    using assms(2) by (simp add: length_concat comp_def sum_list_triv)
  then show ?thesis using pages_of_range(4) [OF assms(1)] by simp
qed

text \<open>
  A read of a published snapshot in the three languages. Under the conditions under which the client
  library returns the snapshot, a Java program gets \<open>true\<close> and the bytes of the range in its direct
  buffer, and a Ruby program gets a string with these bytes. A Python program gets only the bytes
  before the first zero byte, and if there is none, the binding reads memory behind its buffer.
\<close>

theorem bindings_deliver_snapshot:
  assumes "archive_ok ar" and "history ar ps d rc K0 q0 f0 ws" and "n < length ws"
    and "query_root_of ar env version h log = (True, root, h1, log1)"
    and "rt_node root = root_of ps d q0 ws (Suc n)" and "rt_page_size root = ps"
    and "store_has ar ps K0 q0 f0 ws (Suc n) (en_dht env log1)"
    and "read_guard root version offset sz = None" and "read_fits ps offset sz"
    and "\<forall>p. length (data p) = unat ps" and "partial_checked env"
    and "\<forall>p. first_page ps offset \<le> p \<and> p < stop_page ps offset sz \<longrightarrow>
       page_available ar env ps offset sz (content rc f0 ws (Suc n) p) p (data p)"
    and "bytes = take (unat sz) (drop (unat offset) (concat (map data [0..<stop_page ps offset sz])))"
    and "ruby_api_ok api" "rb_calloc api (unat sz)" "uint offset < 2 ^ 63" "uint sz < 2 ^ 63"
    and "deref (ls_handlers lib) p = Some h" "ls_log lib = log"
    and "ruby_handle st w h" "ls_log (rb_lib st) = log" and "contains class_name ''StringIO''"
  shows "(\<forall>jbuf. length jbuf = unat sz \<longrightarrow>
      (\<exists>lib'. java_read ar env (Suc p) offset sz (Some jbuf) version lib = (Ret (True, Some bytes), lib'))) \<and>
    (\<exists>s st'. method_read api ar env (Data w) (Num (uint offset)) (Num (uint sz)) (Num (uint version)) st = (Value (Str s), st') \<and>
      rb_bytes st' s = Some bytes) \<and>
    (\<exists>log'. py_read ar env junk offset sz class_name version h log =
      (if 0 \<in> set bytes then Ret (True, Some (takeWhile (\<lambda>x. x \<noteq> 0) bytes)) else Und ''strlen'', h1, log'))"
proof -
  have "\<forall>mem. length mem = unat sz \<longrightarrow> (\<exists>log'. oh_read ar env offset sz mem version h log = (Ret True, bytes, h1, log'))"
    using snapshot_slice [OF assms(1-9) _ assms(10-12)] by (simp add: assms(13))
  from binding_results [OF this assms(14-17) _ assms(18-22)] show ?thesis
    using snapshot_slice_length [OF assms(9,10)] by (simp add: assms(13))
qed

section \<open>An instance\<close>

definition plain_ruby :: ruby_api where
  "plain_ruby = \<lparr>
     num2ll = (\<lambda>v. case v of Num i \<Rightarrow> if - (2 ^ 63) \<le> i \<and> i < 2 ^ 63 then Some (of_int i) else None | _ \<Rightarrow> None),
     num2uint = (\<lambda>v. case v of Num i \<Rightarrow> if 0 \<le> i \<and> i < 2 ^ 32 then Some (of_int i) else None | _ \<Rightarrow> None),
     num2int = (\<lambda>v. case v of Num i \<Rightarrow> if - (2 ^ 31) \<le> i \<and> i < 2 ^ 31 then Some (of_int i) else None | _ \<Rightarrow> None),
     uint2num = (\<lambda>w. Num (uint w)), int2num = (\<lambda>w. Num (sint w)), ull2num = (\<lambda>w. Num (uint w)), rb_calloc = (\<lambda>n. n < 2 ^ 40)\<rparr>"

lemma plain_ruby_ok: "ruby_api_ok plain_ruby"
  by (simp add: ruby_api_ok_def plain_ruby_def)

definition bi_lib :: lib_state where
  "bi_lib = lib_init\<lparr>ls_handlers := [Some rd_handler]\<rparr>"

definition bi_state :: rb_state where
  "bi_state = \<lparr>rb_lib = bi_lib, rb_wrappers = [Some (Some 0)], rb_mem = [], rb_strs = []\<rparr>"

lemma bi_available:
  "\<forall>p. first_page 8 0 \<le> p \<and> p < stop_page 8 0 10 \<longrightarrow>
      page_available plain_archive cl_env 8 0 10 (content 1 Map.empty [ex_write] (Suc 0) p) p (rd_page p)"
proof -
  have small: "length (rd_page p) < 2 ^ 32" for p using rd_length by simp
  have "first_page 8 0 = 0" "stop_page 8 0 10 = 2"
    by (simp_all add: stop_page_def first_page_def read_nbr_vadv_def read_new_offset_def)
  then show ?thesis
    using kept_available [OF plain_archive_ok cl_provider_env refl cl_states cl_finite small cl_kept] rd_content
    by (simp del: content.simps)
qed

text \<open>The first byte of the blob of the instance is zero: a Python program gets nothing.\<close>

theorem bindings_deliver_snapshot_witness:
  "(\<exists>lib'. java_read plain_archive cl_env 1 0 10 (Some (replicate 10 9)) 0 bi_lib =
      (Ret (True, Some [0, 1, 2, 3, 4, 5, 6, 7, 8, 9]), lib')) \<and>
   (\<exists>s st'. method_read plain_ruby plain_archive cl_env (Data 0) (Num 0) (Num 10) (Num 0) bi_state = (Value (Str s), st') \<and>
      rb_bytes st' s = Some [0, 1, 2, 3, 4, 5, 6, 7, 8, 9]) \<and>
   (\<exists>log'. py_read plain_archive cl_env (\<lambda>i. 1) 0 10 ''<class 'StringIO.StringIO'>'' 0 rd_handler [] =
      (Ret (True, Some []), rd_handler, log'))"
proof -
  let ?b = "[0, 1, 2, 3, 4, 5, 6, 7, 8, 9] :: byte list"
  have h: "0 < length [ex_write]" by simp
  have g: "read_guard (root_t_make 1 1 8 16 1) 0 0 10 = None" by (simp add: read_guard_def root_t_make_def)
  have f: "read_fits 8 0 10" by (simp add: read_fits_def read_nbr_vadv_def read_new_offset_def)
  have r: "stop_page 8 0 10 = 2" by (simp add: stop_page_def first_page_def read_nbr_vadv_def read_new_offset_def)
  have len: "\<forall>p. length (rd_page p) = unat (8 :: u64)" using rd_length by simp
  have b: "?b = take (unat (10 :: u64)) (drop (unat (0 :: u64)) (concat (map rd_page [0..<stop_page 8 0 10])))"
    by (simp add: r rd_page_def upt_rec)
  have n: "rb_calloc plain_ruby (unat (10 :: u64))" "uint (0 :: u64) < 2 ^ 63" "uint (10 :: u64) < 2 ^ 63"
    by (simp_all add: plain_ruby_def)
  have l: "deref (ls_handlers bi_lib) 0 = Some rd_handler" "ls_log bi_lib = []" "ruby_handle bi_state 0 rd_handler" "ls_log (rb_lib bi_state) = []"
    by (simp_all add: bi_lib_def bi_state_def lib_init_def deref_def ruby_handle_def)
  have "contains ''<class 'StringIO.StringIO'>'' ''StringIO''" by (simp add: contains_def upt_rec)
  from bindings_deliver_snapshot [OF plain_archive_ok ex_history h cl_query rd_root cl_has g f len partial_env_checked [OF cl_provider_env]
      bi_available b plain_ruby_ok n l this, of "\<lambda>i. 1"]
  show ?thesis by simp
qed

end
