(* ===== verification/Simple_Dht.thy ===== *)
theory Simple_Dht
  imports Rpc_Meta Cache_MT "HOL-Library.Multiset"
begin

text \<open>
  \<open>common/simple_dht.hpp\<close> and \<open>common/cached_dht.hpp\<close>: the client of the metadata DHT. Puts and
  gets are queued per gateway (a DHT node); \<open>wait\<close> sends each queue as one RPC and runs the
  answers through the callbacks until nothing is pending.

  A callback of the user is a value: \<open>'g\<close> for gets and \<open>'m\<close> for puts. What it does when it is
  called is the parameter \<open>client\<close>: it changes the state \<open>'x\<close> of the user, and may issue further
  gets (as \<open>read_callback\<close> of the range queries does). The nodes and the network between are the parameter
  \<open>rpc\<close>, which maps a request to the status and result the RPC layer hands to the callback; the
  order in which the answers of one \<open>tp.run()\<close> arrive is the parameter \<open>arrival\<close>.
\<close>

record ('g, 'm) gateway_t =
  gw_host :: string
  gw_service :: string
  pending_gets :: rpcvector_t
  pending_puts :: rpcvector_t
  get_callbacks :: "(u32 \<times> buffer \<times> 'g) list"
  put_callbacks :: "(nat \<times> 'm) list"

definition gateway_new :: "string \<Rightarrow> string \<Rightarrow> ('g, 'm) gateway_t" where
  "gateway_new h s = \<lparr>gw_host = h, gw_service = s, pending_gets = [], pending_puts = [], get_callbacks = [], put_callbacks = []\<rparr>"

text \<open>\<open>statuses\<close> are the counters that the puts allocate; a put callback holds the index of its own.\<close>

record ('g, 'm) simple_dht =
  gateways :: "('g, 'm) gateway_t list"
  replication :: u32
  statuses :: "u32 list"

definition STATUS_SHIFT :: nat where "STATUS_SHIFT = 16"
definition STATUS_MASK :: u32 where "STATUS_MASK = 0xFFFF"

definition simple_dht_new :: "u32 \<Rightarrow> ('g, 'm) simple_dht" where
  "simple_dht_new r = \<lparr>gateways = [], replication = r, statuses = []\<rparr>"

definition addGateway :: "string \<Rightarrow> string \<Rightarrow> ('g, 'm) simple_dht \<Rightarrow> ('g, 'm) simple_dht" where
  "addGateway host service d = d\<lparr>gateways := gateways d @ [gateway_new host service]\<rparr>"

text \<open>The sdbm hash of the bytes of a key, started at \<open>n\<close>.\<close>

definition sdbm :: "u32 \<Rightarrow> buffer \<Rightarrow> u32" where
  "sdbm n key = fold (\<lambda>k hash. ucast k + push_bit 6 hash + push_bit 16 hash - hash) key n"

text \<open>\<open>None\<close>: the division by the number of gateways when there are none.\<close>

definition choose_gateway :: "buffer \<Rightarrow> u32 \<Rightarrow> ('g, 'm) simple_dht \<Rightarrow> nat option" where
  "choose_gateway key n d =
     (if gateways d = [] then None else Some (unat (sdbm n key) mod length (gateways d)))"

definition dht_get :: "buffer \<Rightarrow> 'g \<Rightarrow> u32 \<Rightarrow> ('g, 'm) simple_dht \<Rightarrow> ('g, 'm) simple_dht option" where
  "dht_get key g n d =
     (case choose_gateway key n d of
        None \<Rightarrow> None
      | Some i \<Rightarrow>
          let gw = gateways d ! i;
              gw = gw\<lparr>pending_gets := pending_gets gw @ [key], get_callbacks := get_callbacks gw @ [(n, key, g)]\<rparr>
          in Some (d\<lparr>gateways := (gateways d)[i := gw]\<rparr>))"

text \<open>The loop over the replicas of a put, from \<open>i\<close> on.\<close>

fun put_replicas ::
  "nat \<Rightarrow> u32 \<Rightarrow> buffer \<Rightarrow> buffer \<Rightarrow> nat \<Rightarrow> 'm \<Rightarrow> ('g, 'm) simple_dht \<Rightarrow> ('g, 'm) simple_dht option" where
  "put_replicas 0 i key value status cb d = Some d"
| "put_replicas (Suc k) i key value status cb d =
     (case choose_gateway key i d of
        None \<Rightarrow> None
      | Some j \<Rightarrow>
          let gw = gateways d ! j;
              gw = gw\<lparr>pending_puts := pending_puts gw @ [key, value], put_callbacks := put_callbacks gw @ [(status, cb)]\<rparr>
          in put_replicas k (i + 1) key value status cb (d\<lparr>gateways := (gateways d)[j := gw]\<rparr>))"

definition dht_put :: "buffer \<Rightarrow> buffer \<Rightarrow> 'm \<Rightarrow> ('g, 'm) simple_dht \<Rightarrow> ('g, 'm) simple_dht option" where
  "dht_put key value cb d =
     put_replicas (unat (replication d)) 0 key value (length (statuses d)) cb (d\<lparr>statuses := statuses d @ [0]\<rparr>)"

text \<open>\<open>remove\<close> is "not yet implemented": it only calls back with \<open>0\<close>.\<close>

definition dht_remove_result :: int where "dht_remove_result = 0"

section \<open>Callbacks\<close>

text \<open>The status word after one more answer, and what the user's callback is called with, if at all.\<close>

definition handle_put_callback :: "u32 \<Rightarrow> u32 \<Rightarrow> rpcreturn_t \<Rightarrow> u32 \<times> rpcreturn_t option" where
  "handle_put_callback repl status error =
     (let status = (if error = rpc_ok then status + 1 else status);
          status = status + push_bit STATUS_SHIFT 1
      in (status,
          if drop_bit STATUS_SHIFT status = repl
          then Some (if and status STATUS_MASK > 0 then rpc_ok else rpc_eobj)
          else None))"

record ('g, 'm, 'x) client_ops =
  on_get :: "'g \<Rightarrow> buffer \<Rightarrow> 'x \<Rightarrow> 'x \<times> (buffer \<times> 'g) list"
  on_put :: "'m \<Rightarrow> rpcreturn_t \<Rightarrow> 'x \<Rightarrow> 'x"

definition call_put ::
  "('g, 'm, 'x) client_ops \<Rightarrow> rpcreturn_t \<Rightarrow> nat \<times> 'm \<Rightarrow> ('g, 'm) simple_dht \<times> 'x \<Rightarrow> ('g, 'm) simple_dht \<times> 'x" where
  "call_put client error cb dx =
     (case (cb, dx) of ((status, m), (d, x)) \<Rightarrow>
        case handle_put_callback (replication d) (statuses d ! status) error of
          (s, r) \<Rightarrow> (d\<lparr>statuses := (statuses d)[status := s]\<rparr>,
                    case r of None \<Rightarrow> x | Some e \<Rightarrow> on_put client m e x))"

definition handle_put_callbacks ::
  "('g, 'm, 'x) client_ops \<Rightarrow> (nat \<times> 'm) list \<Rightarrow> rpcreturn_t \<Rightarrow> ('g, 'm) simple_dht \<times> 'x \<Rightarrow> ('g, 'm) simple_dht \<times> 'x" where
  "handle_put_callbacks client puts error = fold (call_put client error) puts"

fun issue_gets :: "(buffer \<times> 'g) list \<Rightarrow> ('g, 'm) simple_dht \<Rightarrow> ('g, 'm) simple_dht option" where
  "issue_gets [] d = Some d"
| "issue_gets ((key, g) # gs) d = (case dht_get key g 0 d of None \<Rightarrow> None | Some d \<Rightarrow> issue_gets gs d)"

definition call_get ::
  "('g, 'm, 'x) client_ops \<Rightarrow> 'g \<Rightarrow> buffer \<Rightarrow> ('g, 'm) simple_dht \<times> 'x \<Rightarrow> (('g, 'm) simple_dht \<times> 'x) option" where
  "call_get client g val dx =
     (case dx of (d, x) \<Rightarrow> case on_get client g val x of (x, gs) \<Rightarrow> map_option (\<lambda>d. (d, x)) (issue_gets gs d))"

definition handle_get_callback ::
  "('g, 'm, 'x) client_ops \<Rightarrow> u32 \<times> buffer \<times> 'g \<Rightarrow> rpcreturn_t \<Rightarrow> buffer \<Rightarrow> ('g, 'm) simple_dht \<times> 'x
     \<Rightarrow> (('g, 'm) simple_dht \<times> 'x) option" where
  "handle_get_callback client cb error val dx =
     (case cb of (i, key, g) \<Rightarrow>
        if error = rpc_ok \<or> error = rpc_eobj then call_get client g val dx
        else if i + 1 = replication (fst dx) then call_get client g [] dx
        else map_option (\<lambda>d. (d, snd dx)) (dht_get key g (i + 1) (fst dx)))"

fun get_callback_loop ::
  "('g, 'm, 'x) client_ops \<Rightarrow> rpcreturn_t \<Rightarrow> (u32 \<times> buffer \<times> 'g) list \<Rightarrow> buffer list \<Rightarrow> ('g, 'm) simple_dht \<times> 'x
     \<Rightarrow> (('g, 'm) simple_dht \<times> 'x) option" where
  "get_callback_loop client error (cb # cbs) (v # vs) dx =
     (case handle_get_callback client cb error v dx of
        None \<Rightarrow> None
      | Some dx \<Rightarrow> get_callback_loop client error cbs vs dx)"
| "get_callback_loop client error _ _ dx = Some dx"

definition handle_get_callbacks ::
  "('g, 'm, 'x) client_ops \<Rightarrow> (u32 \<times> buffer \<times> 'g) list \<Rightarrow> rpcreturn_t \<Rightarrow> rpcvector_t \<Rightarrow> ('g, 'm) simple_dht \<times> 'x
     \<Rightarrow> (('g, 'm) simple_dht \<times> 'x) option" where
  "handle_get_callbacks client gets error result =
     get_callback_loop client error gets
       (if length gets \<noteq> length result then replicate (length gets) [] else result)"

section \<open>Waiting\<close>

datatype ('g, 'm) request =
    Read_request string string rpcvector_t "(u32 \<times> buffer \<times> 'g) list"
  | Write_request string string rpcvector_t "(nat \<times> 'm) list"

definition gateway_requests :: "('g, 'm) gateway_t \<Rightarrow> ('g, 'm) request list" where
  "gateway_requests gw =
     (if pending_gets gw \<noteq> [] then [Read_request (gw_host gw) (gw_service gw) (pending_gets gw) (get_callbacks gw)] else []) @
     (if pending_puts gw \<noteq> [] then [Write_request (gw_host gw) (gw_service gw) (pending_puts gw) (put_callbacks gw)] else [])"

definition gateway_clear :: "('g, 'm) gateway_t \<Rightarrow> ('g, 'm) gateway_t" where
  "gateway_clear gw =
     (let gw = (if pending_gets gw \<noteq> [] then gw\<lparr>pending_gets := [], get_callbacks := []\<rparr> else gw)
      in if pending_puts gw \<noteq> [] then gw\<lparr>pending_puts := [], put_callbacks := []\<rparr> else gw)"

type_synonym 'n rpc_fun = "string \<Rightarrow> string \<Rightarrow> u32 \<Rightarrow> rpcvector_t \<Rightarrow> 'n \<Rightarrow> (rpcreturn_t \<times> rpcvector_t) \<times> 'n"

fun run_requests ::
  "('g, 'm, 'x) client_ops \<Rightarrow> 'n rpc_fun \<Rightarrow> ('g, 'm) request list \<Rightarrow> 'n \<Rightarrow> ('g, 'm) simple_dht \<times> 'x
     \<Rightarrow> ('n \<times> ('g, 'm) simple_dht \<times> 'x) option" where
  "run_requests client rpc [] net dx = Some (net, dx)"
| "run_requests client rpc (Read_request h s gets cbs # rs) net dx =
     (case rpc h s PROVIDER_READ gets net of ((error, result), net) \<Rightarrow>
        case handle_get_callbacks client cbs error result dx of
          None \<Rightarrow> None
        | Some dx \<Rightarrow> run_requests client rpc rs net dx)"
| "run_requests client rpc (Write_request h s puts cbs # rs) net dx =
     (case rpc h s PROVIDER_WRITE puts net of ((error, result), net) \<Rightarrow>
        run_requests client rpc rs net (handle_put_callbacks client cbs error dx))"

text \<open>One round of the loop in \<open>wait\<close>; the first result is \<open>completed\<close>.\<close>

definition wait_round ::
  "('g, 'm, 'x) client_ops \<Rightarrow> 'n rpc_fun \<Rightarrow> (('g, 'm) request list \<Rightarrow> ('g, 'm) request list)
     \<Rightarrow> 'n \<Rightarrow> ('g, 'm) simple_dht \<times> 'x \<Rightarrow> (bool \<times> 'n \<times> ('g, 'm) simple_dht \<times> 'x) option" where
  "wait_round client rpc arrival net dx =
     (case dx of (d, x) \<Rightarrow>
        let rs = concat (map gateway_requests (gateways d));
            d = d\<lparr>gateways := map gateway_clear (gateways d)\<rparr>
        in map_option (\<lambda>r. (rs = [], r)) (run_requests client rpc (arrival rs) net (d, x)))"

text \<open>\<open>None\<close>: a division by zero, or the loop never ends.\<close>

partial_function (option) dht_wait ::
  "('g, 'm, 'x) client_ops \<Rightarrow> 'n rpc_fun \<Rightarrow> (('g, 'm) request list \<Rightarrow> ('g, 'm) request list)
     \<Rightarrow> 'n \<Rightarrow> ('g, 'm) simple_dht \<times> 'x \<Rightarrow> ('n \<times> ('g, 'm) simple_dht \<times> 'x) option" where
  "dht_wait client rpc arrival net dx =
     (case wait_round client rpc arrival net dx of
        None \<Rightarrow> None
      | Some (completed, net, dx) \<Rightarrow>
          if completed then Some (net, dx) else dht_wait client rpc arrival net dx)"

section \<open>The cached DHT\<close>

record ('g, 'm) cached_dht =
  cd_dht :: "('g, 'm) simple_dht"
  cd_cache :: "(buffer, buffer, buffer cache_mt_LRU) cache_mt"

definition cached_dht_new :: "u32 \<Rightarrow> u32 \<Rightarrow> ('g, 'm) cached_dht" where
  "cached_dht_new r m = \<lparr>cd_dht = simple_dht_new r, cd_cache = cache_init lru_init m\<rparr>"

definition cached_put :: "buffer \<Rightarrow> buffer \<Rightarrow> 'm \<Rightarrow> ('g, 'm) cached_dht \<Rightarrow> ('g, 'm) cached_dht option" where
  "cached_put key value cb c =
     map_option (\<lambda>d. \<lparr>cd_dht = d, cd_cache = snd (snd (cache_write cache_mt_LRU_ops key value True (cd_cache c)))\<rparr>)
       (dht_put key value cb (cd_dht c))"

definition cached_remove :: "buffer \<Rightarrow> ('g, 'm) cached_dht \<Rightarrow> ('g, 'm) cached_dht" where
  "cached_remove key c = c\<lparr>cd_cache := cache_free cache_mt_LRU_ops key (cd_cache c)\<rparr>"

text \<open>A hit calls the user back at once: the first result is the value it is called with.\<close>

definition cached_get :: "buffer \<Rightarrow> 'g \<Rightarrow> ('g, 'm) cached_dht \<Rightarrow> (buffer option \<times> ('g, 'm) cached_dht) option" where
  "cached_get key g c =
     (case cache_read cache_mt_LRU_ops key (cd_cache c) of
        (Some v, ca) \<Rightarrow> Some (Some v, c\<lparr>cd_cache := ca\<rparr>)
      | (None, ca) \<Rightarrow> map_option (\<lambda>d. (None, \<lparr>cd_dht = d, cd_cache = ca\<rparr>)) (dht_get key g 0 (cd_dht c)))"

section \<open>Where the replicas go\<close>

lemma sdbm_Nil [simp]: "sdbm n [] = n"
  by (simp add: sdbm_def)

lemma sdbm_Cons: "sdbm n (k # key) = sdbm (ucast k + 65599 * n) key"
proof -
  have "ucast k + push_bit 6 n + push_bit 16 n - n = ucast k + 65599 * n"
    by (simp add: push_bit_eq_mult algebra_simps)
  then show ?thesis unfolding sdbm_def fold_simps by (rule arg_cong)
qed

text \<open>
  C30: the shifts and additions of \<open>choose_gateway\<close> compute the sdbm hash: a polynomial in 65599
  modulo $2^{32}$, in which the replica number is the leading coefficient.
\<close>

theorem sdbm_polynomial:
  "sdbm n key = n * 65599 ^ length key + (\<Sum>i<length key. ucast (key ! i) * 65599 ^ (length key - 1 - i))"
proof (induction key arbitrary: n)
  case (Cons k key)
  have "(\<Sum>i<Suc (length key). ucast ((k # key) ! i) * 65599 ^ (length key - i) :: u32)
      = ucast k * 65599 ^ length key + (\<Sum>i<length key. ucast (key ! i) * 65599 ^ (length key - 1 - i))"
    by (subst sum.lessThan_Suc_shift) simp
  then show ?case by (simp add: sdbm_Cons Cons algebra_simps)
qed simp

lemma sdbm_linear: "sdbm n key = sdbm 0 key + n * 65599 ^ length key"
  by (simp add: sdbm_polynomial)

lemma odd_coefficient: "odd ((65599 ^ l :: int))"
  by simp

lemma unat_mod_pow:
  assumes "g \<le> 32"
  shows "int (unat (c + n * a ^ l :: u32) mod 2 ^ g) = (uint c + uint n * uint a ^ l) mod 2 ^ g"
proof -
  have d: "(2 :: int) ^ g dvd 2 ^ 32" using assms by (rule le_imp_power_dvd)
  have "uint (c + n * a ^ l) = (uint c + uint n * uint a ^ l) mod 2 ^ 32"
  proof -
    have "c + n * a ^ l = word_of_int (uint c + uint n * uint a ^ l)" by simp
    then show ?thesis by (simp only: uint_word_of_int) (simp add: take_bit_eq_mod)
  qed
  then have "uint (c + n * a ^ l) mod 2 ^ g = (uint c + uint n * uint a ^ l) mod 2 ^ g"
    using d by (simp only: mod_mod_cancel)
  then show ?thesis by (simp add: zmod_int)
qed

text \<open>
  with $2^g$ gateways, the replicas of a key go to different gateways as long as there are at most as
  many replicas as gateways.
\<close>

theorem replicas_on_distinct_gateways:
  assumes "length (gateways d) = 2 ^ g" "g \<le> 32" "unat m < 2 ^ g" "unat n < 2 ^ g" "m \<noteq> n"
  shows "choose_gateway key m d \<noteq> choose_gateway key n d"
proof
  assume eq: "choose_gateway key m d = choose_gateway key n d"
  have ne: "gateways d \<noteq> []" using assms(1) by auto
  let ?A = "65599 ^ length key :: int"
  have "unat (sdbm m key) mod 2 ^ g = unat (sdbm n key) mod 2 ^ g"
    using eq ne assms(1) by (simp add: choose_gateway_def)
  then have "(uint (sdbm 0 key) + uint m * ?A) mod 2 ^ g = (uint (sdbm 0 key) + uint n * ?A) mod 2 ^ g"
    using unat_mod_pow [OF assms(2), of "sdbm 0 key" m 65599 "length key"]
      unat_mod_pow [OF assms(2), of "sdbm 0 key" n 65599 "length key"] sdbm_linear [of m key] sdbm_linear [of n key]
    by simp
  then have "2 ^ g dvd (uint (sdbm 0 key) + uint m * ?A) - (uint (sdbm 0 key) + uint n * ?A)"
    by (simp only: mod_eq_dvd_iff)
  then have "2 ^ g dvd (uint m - uint n) * ?A" by (simp add: algebra_simps)
  moreover have "coprime ((2::int) ^ g) ?A" by simp
  ultimately have "2 ^ g dvd uint m - uint n" using coprime_dvd_mult_left_iff by blast
  moreover have "\<bar>uint m - uint n\<bar> < 2 ^ g"
  proof -
    have "uint m < 2 ^ g" "uint n < 2 ^ g"
      using assms(3,4) by (simp_all only: uint_nat of_nat_less_numeral_power_cancel_iff)
    moreover have "0 \<le> uint m" "0 \<le> uint n" by simp_all
    ultimately show ?thesis by linarith
  qed
  ultimately have "uint m = uint n" using zdvd_not_zless [of "\<bar>uint m - uint n\<bar>" "2 ^ g"] by auto
  then show False using assms(5) word_uint_eq_iff [of m n] by simp
qed

text \<open>Four gateways, so that four replicas of any key are on four gateways.\<close>

definition ex_dht :: "(nat, nat) simple_dht" where
  "ex_dht = addGateway ''d'' ''1'' (addGateway ''c'' ''1'' (addGateway ''b'' ''1'' (addGateway ''a'' ''1'' (simple_dht_new 2))))"

theorem replicas_on_distinct_gateways_witness:
  "choose_gateway [1, 2, 3] 0 ex_dht \<noteq> choose_gateway [1, 2, 3] 3 ex_dht"
  using replicas_on_distinct_gateways [of ex_dht 2 0 3 "[1, 2, 3]"]
  by (simp add: ex_dht_def addGateway_def simple_dht_new_def)

section \<open>Puts\<close>

text \<open>What the callback of a put is called with, answer by answer.\<close>

fun put_results :: "u32 \<Rightarrow> u32 \<Rightarrow> rpcreturn_t list \<Rightarrow> rpcreturn_t option list" where
  "put_results repl status [] = []"
| "put_results repl status (e # es) =
     (case handle_put_callback repl status e of (status, r) \<Rightarrow> r # put_results repl status es)"

lemma status_word:
  assumes "j < 2 ^ 16" "c \<le> j"
  shows "unat (drop_bit 16 (of_nat (65536 * j + c) :: u32)) = j" "unat (and (of_nat (65536 * j + c) :: u32) 0xFFFF) = c"
proof -
  have s: "65536 * j + c < 2 ^ 32" using assms by simp
  have gen: "n < 2 ^ 32 \<Longrightarrow> unat (of_nat n :: u32) = n" for n by (simp add: unat_of_nat)
  note u = gen [OF s]
  have c: "c < 65536" using assms by simp
  show "unat (drop_bit 16 (of_nat (65536 * j + c) :: u32)) = j"
    unfolding unat_drop_bit_eq u using c by (simp add: drop_bit_eq_div)
  have "(0xFFFF :: u32) = mask 16" by (simp add: mask_eq_exp_minus_1)
  then have "and (of_nat (65536 * j + c) :: u32) 0xFFFF = take_bit 16 (of_nat (65536 * j + c))"
    by (simp only: take_bit_eq_mask)
  then have "unat (and (of_nat (65536 * j + c) :: u32) 0xFFFF) = take_bit 16 (65536 * j + c)"
    by (simp only: unsigned_take_bit_eq u)
  also have "\<dots> = c" using c by (simp add: take_bit_eq_mod)
  finally show "unat (and (of_nat (65536 * j + c) :: u32) 0xFFFF) = c" .
qed

lemma handle_put_status:
  assumes "Suc j < 2 ^ 16" "c \<le> j" "unat repl < 2 ^ 16"
  shows "handle_put_callback repl (of_nat (65536 * j + c)) e =
    (of_nat (65536 * Suc j + (if e = rpc_ok then Suc c else c)),
     if Suc j = unat repl then Some (if 0 < (if e = rpc_ok then Suc c else c) then rpc_ok else rpc_eobj) else None)"
proof -
  let ?c = "if e = rpc_ok then Suc c else c"
  let ?s = "of_nat (65536 * Suc j + ?c) :: u32"
  have s: "(if e = rpc_ok then of_nat (65536 * j + c) + 1 else of_nat (65536 * j + c)) + push_bit 16 1 = ?s"
    by (simp add: push_bit_eq_mult)
  have le: "?c \<le> Suc j" using assms(2) by simp
  have "drop_bit 16 ?s = repl \<longleftrightarrow> Suc j = unat repl"
    using status_word(1) [OF assms(1) le] by (metis word_unat_eq_iff)
  moreover have "0 < and ?s 0xFFFF \<longleftrightarrow> 0 < ?c"
    using status_word(2) [OF assms(1) le] by (simp only: word_less_nat_alt unat_0)
  ultimately show ?thesis
    unfolding handle_put_callback_def Let_def STATUS_SHIFT_def STATUS_MASK_def s by (simp only: if_cancel)
qed

lemma put_results_from:
  assumes "unat repl < 2 ^ 16" "c \<le> j" "j + length es = unat repl" "es \<noteq> []"
  shows "put_results repl (of_nat (65536 * j + c)) es =
    replicate (length es - 1) None @ [Some (if 0 < c \<or> rpc_ok \<in> set es then rpc_ok else rpc_eobj)]"
  using assms(2-4)
proof (induction es arbitrary: j c)
  case (Cons e es)
  let ?c = "if e = rpc_ok then Suc c else c"
  have j: "Suc j < 2 ^ 16" using assms(1) Cons.prems(2) by simp
  note h = handle_put_status [OF j Cons.prems(1) assms(1), of e]
  show ?case
  proof (cases "es = []")
    case True
    then have "Suc j = unat repl" using Cons.prems(2) by simp
    then show ?thesis unfolding True put_results.simps h by simp
  next
    case False
    then have ne: "Suc j \<noteq> unat repl" using Cons.prems(2) by (cases es) auto
    have "put_results repl (of_nat (65536 * Suc j + ?c)) es =
        replicate (length es - 1) None @ [Some (if 0 < ?c \<or> rpc_ok \<in> set es then rpc_ok else rpc_eobj)]"
      using Cons.prems False by (intro Cons.IH) auto
    moreover have "replicate (length es) (None :: rpcreturn_t option) = None # replicate (length es - 1) None" using False by (cases es) auto
    ultimately show ?thesis using ne by (simp only: put_results.simps h) auto
  qed
qed simp

text \<open>
  the callback of a put is called exactly once, when all replicas have answered, and reports
  success exactly if at least one of them stored the value.
\<close>

theorem put_reports_any_success:
  assumes "length es = unat repl" "0 < unat repl" "unat repl < 2 ^ 16"
  shows "put_results repl 0 es =
    replicate (unat repl - 1) None @ [Some (if rpc_ok \<in> set es then rpc_ok else rpc_eobj)]"
proof -
  have "es \<noteq> []" using assms(1,2) by auto
  then show ?thesis using put_results_from [of repl 0 0 es] assms by simp
qed

theorem put_reports_any_success_witness:
  "put_results 3 0 [rpc_eres, rpc_ok, rpc_eres] = [None, None, Some rpc_ok]"
proof -
  have two: "replicate (2 :: nat) (None :: rpcreturn_t option) = [None, None]" by (simp add: numeral_2_eq_2)
  show ?thesis using put_reports_any_success [of "[rpc_eres, rpc_ok, rpc_eres]" 3] by (simp add: two)
qed

section \<open>Gets\<close>

text \<open>
  The nodes as the client sees them in one state of the network: a node that is up answers a read with what it holds,
  an empty buffer for a missing key, and keeps its state; otherwise the RPC fails with another status. Nothing is
  assumed of requests with empty keys, which the nodes do not support.
\<close>

definition nodes_answer :: "'n rpc_fun \<Rightarrow> 'n \<Rightarrow> (string \<times> string \<Rightarrow> bool) \<Rightarrow> (string \<times> string \<Rightarrow> buffer \<Rightarrow> buffer) \<Rightarrow> bool" where
  "nodes_answer rpc net up val \<longleftrightarrow> (\<forall>h s keys. keys \<noteq> [] \<and> [] \<notin> set keys \<longrightarrow> (\<exists>e res. rpc h s PROVIDER_READ keys net = ((e, res), net) \<and>
     (if up (h, s) then (e = rpc_ok \<or> e = rpc_eobj) \<and> res = map (val (h, s)) keys
      else e \<noteq> rpc_ok \<and> e \<noteq> rpc_eobj)))"

text \<open>
  What a get returns: the replicas are asked in turn, and the first that is up decides, even if it
  does not hold the key.
\<close>

definition replica_addr :: "(string \<times> string) list \<Rightarrow> buffer \<Rightarrow> nat \<Rightarrow> string \<times> string" where
  "replica_addr addrs key i = addrs ! (unat (sdbm (of_nat i) key) mod length addrs)"

definition dht_value ::
  "(string \<times> string) list \<Rightarrow> nat \<Rightarrow> (string \<times> string \<Rightarrow> bool) \<Rightarrow> (string \<times> string \<Rightarrow> buffer \<Rightarrow> buffer) \<Rightarrow> buffer \<Rightarrow> nat \<Rightarrow> buffer" where
  "dht_value addrs repl up val key n =
     (case find (\<lambda>i. up (replica_addr addrs key i)) [n..<repl] of
        None \<Rightarrow> []
      | Some i \<Rightarrow> val (replica_addr addrs key i) key)"

definition addresses :: "('g, 'm) simple_dht \<Rightarrow> (string \<times> string) list" where
  "addresses d = map (\<lambda>gw. (gw_host gw, gw_service gw)) (gateways d)"

definition pending :: "('g, 'm) simple_dht \<Rightarrow> (u32 \<times> buffer \<times> 'g) multiset" where
  "pending d = sum_list (map (\<lambda>gw. mset (get_callbacks gw)) (gateways d))"

definition get_inv :: "('g, 'm) simple_dht \<Rightarrow> bool" where
  "get_inv d \<longleftrightarrow> gateways d \<noteq> [] \<and> (\<forall>i < length (gateways d).
     pending_gets (gateways d ! i) = map (fst \<circ> snd) (get_callbacks (gateways d ! i)) \<and>
     pending_puts (gateways d ! i) = [] \<and>
     (\<forall>(n, key, g) \<in> set (get_callbacks (gateways d ! i)). key \<noteq> [] \<and> n < replication d \<and> unat (sdbm n key) mod length (gateways d) = i))"

text \<open>The user that collects what it gets.\<close>

definition collect :: "('g, 'm, ('g \<times> buffer) list) client_ops" where
  "collect = \<lparr>on_get = (\<lambda>g v x. (x @ [(g, v)], [])), on_put = (\<lambda>m e x. x)\<rparr>"

lemma dht_value_step:
  assumes "n < repl"
  shows "dht_value addrs repl up val key n =
    (if up (replica_addr addrs key n) then val (replica_addr addrs key n) key
     else if Suc n = repl then [] else dht_value addrs repl up val key (Suc n))"
  using assms by (auto simp: dht_value_def upt_conv_Cons)

lemma sum_list_update_mset:
  "i < length xs \<Longrightarrow> f y = f (xs ! i) + (z :: 'b multiset) \<Longrightarrow>
     sum_list (map f (xs[i := y])) = sum_list (map f xs) + z"
  by (induction xs arbitrary: i) (auto simp: nth_Cons' list_update_code gr0_conv_Suc add.assoc add.commute split: nat.splits)

lemma dht_get_pending:
  assumes "get_inv d" "n < replication d" "key \<noteq> []"
  shows "\<exists>d'. dht_get key g n d = Some d' \<and> get_inv d' \<and> pending d' = add_mset (n, key, g) (pending d) \<and>
    addresses d' = addresses d \<and> replication d' = replication d"
proof -
  let ?i = "unat (sdbm n key) mod length (gateways d)"
  let ?gw = "(gateways d ! ?i)\<lparr>pending_gets := pending_gets (gateways d ! ?i) @ [key],
      get_callbacks := get_callbacks (gateways d ! ?i) @ [(n, key, g)]\<rparr>"
  let ?d = "d\<lparr>gateways := (gateways d)[?i := ?gw]\<rparr>"
  have ne: "gateways d \<noteq> []" using assms(1) by (simp add: get_inv_def)
  then have i: "?i < length (gateways d)" by simp
  have "dht_get key g n d = Some ?d" using ne by (simp add: dht_get_def choose_gateway_def Let_def)
  moreover have "get_inv ?d" using assms i by (auto simp: get_inv_def nth_list_update)
  moreover have "pending ?d = pending d + {#(n, key, g)#}"
    using sum_list_update_mset [OF i, of "\<lambda>gw. mset (get_callbacks gw)" ?gw "{#(n, key, g)#}"] by (simp add: pending_def)
  moreover have "addresses ?d = addresses d"
    using i by (simp add: addresses_def map_update list_update_same_conv [THEN iffD2])
  ultimately show ?thesis by auto
qed

text \<open>
  What is still to be delivered, and the number of requests that can still be made for it; one
  callback keeps the first and lowers the second.
\<close>

definition owed ::
  "(buffer \<Rightarrow> nat \<Rightarrow> buffer) \<Rightarrow> (u32 \<times> buffer \<times> 'g) multiset \<Rightarrow> ('g \<times> buffer) multiset" where
  "owed value cbs = image_mset (\<lambda>(n, key, g). (g, value key (unat n))) cbs"

definition effort :: "nat \<Rightarrow> (u32 \<times> buffer \<times> 'g) multiset \<Rightarrow> nat" where
  "effort repl cbs = (\<Sum>(n, key, g) \<in># cbs. repl - unat n)"

text \<open>The states between two callbacks, for fixed addresses and replication.\<close>

definition get_state :: "(string \<times> string) list \<Rightarrow> u32 \<Rightarrow> ('g, 'm) simple_dht \<Rightarrow> bool" where
  "get_state addrs repl d \<longleftrightarrow> get_inv d \<and> addresses d = addrs \<and> replication d = repl"

lemma callback_result:
  assumes "get_state addrs repl d" "n < repl" "key \<noteq> []"
    and "if up (replica_addr addrs key (unat n)) then (e = rpc_ok \<or> e = rpc_eobj) \<and> v = val (replica_addr addrs key (unat n)) key
         else e \<noteq> rpc_ok \<and> e \<noteq> rpc_eobj"
  shows "\<exists>d' x'. handle_get_callback collect (n, key, g) e v (d, x) = Some (d', x') \<and> get_state addrs repl d' \<and>
    mset x' + owed (dht_value addrs (unat repl) up val) (pending d')
      = mset x + owed (dht_value addrs (unat repl) up val) (pending d) + {#(g, dht_value addrs (unat repl) up val key (unat n))#} \<and>
    effort (unat repl) (pending d') < effort (unat repl) (pending d) + (unat repl - unat n)"
proof -
  have n: "unat n < unat repl" using assms(2) by (simp add: word_less_nat_alt)
  note step = dht_value_step [OF n, of addrs up val key]
  have call: "call_get collect g w (d, x) = Some (d, x @ [(g, w)])" for w by (simp add: call_get_def collect_def)
  have repl: "replication d = repl" using assms(1) by (simp add: get_state_def)
  show ?thesis
  proof (cases "up (replica_addr addrs key (unat n))")
    case True
    then show ?thesis using assms n step call [of v]
      by (intro exI [of _ d] exI [of _ "x @ [(g, v)]"]) (auto simp: handle_get_callback_def)
  next
    case False
    have suc: "unat (n + 1) = Suc (unat n)" using n unat_u32_bound [of repl] by (simp add: unat_word_ariths)
    have last: "n + 1 = repl \<longleftrightarrow> Suc (unat n) = unat repl" by (metis suc word_unat_eq_iff)
    show ?thesis
    proof (cases "n + 1 = repl")
      case True
      then show ?thesis using assms False n step last call [of "[]"] repl
        by (intro exI [of _ d] exI [of _ "x @ [(g, [])]"]) (auto simp: handle_get_callback_def)
    next
      case more: False
      then have lt: "n + 1 < replication d" using n suc last repl by (simp add: word_less_nat_alt)
      from assms(1) have "get_inv d" by (simp add: get_state_def)
      from dht_get_pending [OF this lt assms(3), of g] obtain d' where d': "dht_get key g (n + 1) d = Some d'" "get_inv d'"
        "pending d' = add_mset (n + 1, key, g) (pending d)" "addresses d' = addresses d" "replication d' = replication d" by blast
      show ?thesis
      proof (intro exI conjI)
        show "handle_get_callback collect (n, key, g) e v (d, x) = Some (d', x)"
          using assms(4) False more d'(1) repl by (simp add: handle_get_callback_def)
        show "get_state addrs repl d'" using assms(1) d' by (simp add: get_state_def)
        show "mset x + owed (dht_value addrs (unat repl) up val) (pending d') =
            mset x + owed (dht_value addrs (unat repl) up val) (pending d) + {#(g, dht_value addrs (unat repl) up val key (unat n))#}"
          using step False more last by (simp add: d'(3) owed_def suc)
        show "effort (unat repl) (pending d') < effort (unat repl) (pending d) + (unat repl - unat n)"
          using n suc by (simp add: d'(3) effort_def)
      qed
    qed
  qed
qed

lemma owed_add [simp]: "owed value (A + B) = owed value A + owed value B" "owed value (add_mset (n, key, g) A) = add_mset (g, value key (unat n)) (owed value A)"
    "owed value {#} = {#}"
  by (simp_all add: owed_def)

lemma effort_add [simp]: "effort r (A + B) = effort r A + effort r B" "effort r (add_mset (n, key, g) A) = (r - unat n) + effort r A"
    "effort r {#} = 0"
  by (simp_all add: effort_def)

text \<open>The callbacks of one answer.\<close>

definition batch_ok ::
  "(string \<times> string) list \<Rightarrow> u32 \<Rightarrow> string \<times> string \<Rightarrow> (u32 \<times> buffer \<times> 'g) list \<Rightarrow> bool" where
  "batch_ok addrs repl a cbs \<longleftrightarrow> (\<forall>(n, key, g) \<in> set cbs. key \<noteq> [] \<and> n < repl \<and> replica_addr addrs key (unat n) = a)"

lemma callbacks_result:
  assumes "get_state addrs repl d" "batch_ok addrs repl a cbs" "length vs = length cbs"
    and "if up a then (e = rpc_ok \<or> e = rpc_eobj) \<and> vs = map (\<lambda>(n, key, g). val a key) cbs else e \<noteq> rpc_ok \<and> e \<noteq> rpc_eobj"
  shows "\<exists>d' x'. get_callback_loop collect e cbs vs (d, x) = Some (d', x') \<and> get_state addrs repl d' \<and>
    mset x' + owed (dht_value addrs (unat repl) up val) (pending d')
      = mset x + owed (dht_value addrs (unat repl) up val) (pending d) + owed (dht_value addrs (unat repl) up val) (mset cbs) \<and>
    effort (unat repl) (pending d') + length cbs \<le> effort (unat repl) (pending d) + effort (unat repl) (mset cbs)"
  using assms
proof (induction cbs arbitrary: vs d x)
  case (Cons cb cbs)
  obtain n key g where cb: "cb = (n, key, g)" by (cases cb)
  obtain v vs' where vs: "vs = v # vs'" using Cons.prems(3) by (cases vs) auto
  have lt: "n < repl" and k: "key \<noteq> []" and a: "replica_addr addrs key (unat n) = a" using Cons.prems(2) by (auto simp: batch_ok_def cb)
  from callback_result [OF Cons.prems(1) lt k, of up e v val g x] Cons.prems(4) obtain d1 x1 where
    1: "handle_get_callback collect (n, key, g) e v (d, x) = Some (d1, x1)" "get_state addrs repl d1"
      "mset x1 + owed (dht_value addrs (unat repl) up val) (pending d1) = mset x + owed (dht_value addrs (unat repl) up val) (pending d)
        + {#(g, dht_value addrs (unat repl) up val key (unat n))#}"
      "effort (unat repl) (pending d1) < effort (unat repl) (pending d) + (unat repl - unat n)"
    unfolding a by (auto simp: vs cb split: if_splits)
  have "batch_ok addrs repl a cbs" using Cons.prems(2) by (simp add: batch_ok_def)
  from Cons.IH [OF 1(2) this, of vs' x1] Cons.prems(3,4) obtain d2 x2 where
    2: "get_callback_loop collect e cbs vs' (d1, x1) = Some (d2, x2)" "get_state addrs repl d2"
      "mset x2 + owed (dht_value addrs (unat repl) up val) (pending d2) = mset x1 + owed (dht_value addrs (unat repl) up val) (pending d1)
        + owed (dht_value addrs (unat repl) up val) (mset cbs)"
      "effort (unat repl) (pending d2) + length cbs \<le> effort (unat repl) (pending d1) + effort (unat repl) (mset cbs)"
    by (auto simp: vs cb split: if_splits)
  show ?case
  proof (intro exI conjI)
    show "get_callback_loop collect e (cb # cbs) vs (d, x) = Some (d2, x2)" using 1(1) 2(1) by (simp add: vs cb)
    show "get_state addrs repl d2" by (rule 2(2))
  qed (use 1(3,4) 2(3,4) in \<open>simp_all add: cb\<close>)
qed simp

text \<open>The answers of one round.\<close>

fun req_cbs :: "('g, 'm) request \<Rightarrow> (u32 \<times> buffer \<times> 'g) multiset" where
  "req_cbs (Read_request h s gets cbs) = mset cbs"
| "req_cbs (Write_request h s puts cbs) = {#}"

fun req_ok :: "(string \<times> string) list \<Rightarrow> u32 \<Rightarrow> ('g, 'm) request \<Rightarrow> bool" where
  "req_ok addrs repl (Read_request h s gets cbs) \<longleftrightarrow> cbs \<noteq> [] \<and> gets = map (fst \<circ> snd) cbs \<and> batch_ok addrs repl (h, s) cbs"
| "req_ok addrs repl (Write_request h s puts cbs) \<longleftrightarrow> False"

lemma requests_result:
  assumes "nodes_answer rpc net up val" "\<forall>r \<in> set rs. req_ok addrs repl r" "get_state addrs repl d"
  shows "\<exists>d' x'. run_requests collect rpc rs net (d, x) = Some (net, d', x') \<and> get_state addrs repl d' \<and>
    mset x' + owed (dht_value addrs (unat repl) up val) (pending d') = mset x + owed (dht_value addrs (unat repl) up val) (pending d)
      + owed (dht_value addrs (unat repl) up val) (sum_list (map req_cbs rs)) \<and>
    effort (unat repl) (pending d') + length rs \<le> effort (unat repl) (pending d) + effort (unat repl) (sum_list (map req_cbs rs))"
  using assms(2,3)
proof (induction rs arbitrary: d x)
  case (Cons r rs)
  then obtain h s gets cbs where r: "r = Read_request h s gets cbs" "cbs \<noteq> []" "gets = map (fst \<circ> snd) cbs"
      "batch_ok addrs repl (h, s) cbs" by (cases r) auto
  have "gets \<noteq> []" "[] \<notin> set gets" using r(2-4) by (auto simp: batch_ok_def)
  with assms(1) obtain e res where e: "rpc h s PROVIDER_READ gets net = ((e, res), net)"
      "if up (h, s) then (e = rpc_ok \<or> e = rpc_eobj) \<and> res = map (val (h, s)) gets else e \<noteq> rpc_ok \<and> e \<noteq> rpc_eobj"
    unfolding nodes_answer_def by blast
  define vs where "vs = (if length cbs \<noteq> length res then replicate (length cbs) [] else res)"
  have "length vs = length cbs" by (simp add: vs_def)
  moreover have "if up (h, s) then (e = rpc_ok \<or> e = rpc_eobj) \<and> vs = map (\<lambda>(n, key, g). val (h, s) key) cbs else e \<noteq> rpc_ok \<and> e \<noteq> rpc_eobj"
    using e(2) r(3) by (auto simp: vs_def split_beta)
  ultimately obtain d1 x1 where
    1: "get_callback_loop collect e cbs vs (d, x) = Some (d1, x1)" "get_state addrs repl d1"
      "mset x1 + owed (dht_value addrs (unat repl) up val) (pending d1) = mset x + owed (dht_value addrs (unat repl) up val) (pending d)
        + owed (dht_value addrs (unat repl) up val) (mset cbs)"
      "effort (unat repl) (pending d1) + length cbs \<le> effort (unat repl) (pending d) + effort (unat repl) (mset cbs)"
    using callbacks_result [OF Cons.prems(2) r(4), of vs up e val x] by blast
  obtain d2 x2 where
    2: "run_requests collect rpc rs net (d1, x1) = Some (net, d2, x2)" "get_state addrs repl d2"
      "mset x2 + owed (dht_value addrs (unat repl) up val) (pending d2) = mset x1 + owed (dht_value addrs (unat repl) up val) (pending d1)
        + owed (dht_value addrs (unat repl) up val) (sum_list (map req_cbs rs))"
      "effort (unat repl) (pending d2) + length rs \<le> effort (unat repl) (pending d1) + effort (unat repl) (sum_list (map req_cbs rs))"
    using Cons.IH [of d1 x1] Cons.prems(1) 1(2) by auto
  have "1 \<le> length cbs" using r(2) by (cases cbs) simp_all
  then have "effort (unat repl) (pending d2) + length (r # rs)
      \<le> effort (unat repl) (pending d) + effort (unat repl) (sum_list (map req_cbs (r # rs)))"
    using 1(4) 2(4) by (simp add: r(1))
  then show ?case using 1(1,3) 2 e(1)
    by (intro exI [of _ d2] exI [of _ x2]) (simp add: r(1) handle_get_callbacks_def vs_def)
qed simp

lemma gateway_requests_get:
  assumes "pending_gets gw = map (fst \<circ> snd) (get_callbacks gw)" "pending_puts gw = []"
  shows "sum_list (map req_cbs (gateway_requests gw)) = mset (get_callbacks gw)" "gateway_requests gw = [] \<longleftrightarrow> get_callbacks gw = []"
  using assms by (auto simp: gateway_requests_def)

lemma round_requests:
  assumes "get_state addrs repl d"
  shows "sum_list (map req_cbs (concat (map gateway_requests (gateways d)))) = pending d"
    and "\<forall>r \<in> set (concat (map gateway_requests (gateways d))). req_ok addrs repl r"
proof -
  have gw: "pending_gets gw = map (fst \<circ> snd) (get_callbacks gw)" "pending_puts gw = []"
      "batch_ok addrs repl (gw_host gw, gw_service gw) (get_callbacks gw)" if mem: "gw \<in> set (gateways d)" for gw
  proof -
    obtain i where i: "i < length (gateways d)" "gw = gateways d ! i" using mem in_set_conv_nth [of gw "gateways d"] by metis
    then show "pending_gets gw = map (fst \<circ> snd) (get_callbacks gw)" "pending_puts gw = []"
      using assms by (auto simp: get_state_def get_inv_def)
    have "addrs ! i = (gw_host gw, gw_service gw)" "length addrs = length (gateways d)" using assms i by (auto simp: get_state_def addresses_def)
    then show "batch_ok addrs repl (gw_host gw, gw_service gw) (get_callbacks gw)"
      using assms i by (fastforce simp: get_state_def get_inv_def batch_ok_def replica_addr_def)
  qed
  have "sum_list (map req_cbs (concat (map gateway_requests gws))) = sum_list (map (\<lambda>gw. mset (get_callbacks gw)) gws)"
    if "set gws \<subseteq> set (gateways d)" for gws
    using that by (induction gws) (simp_all add: gateway_requests_get gw)
  then show "sum_list (map req_cbs (concat (map gateway_requests (gateways d)))) = pending d" by (simp add: pending_def)
  show "\<forall>r \<in> set (concat (map gateway_requests (gateways d))). req_ok addrs repl r"
    using gw by (auto simp: gateway_requests_def)
qed

lemma cleared_state:
  assumes "get_state addrs repl d"
  shows "get_state addrs repl (d\<lparr>gateways := map gateway_clear (gateways d)\<rparr>)" "pending (d\<lparr>gateways := map gateway_clear (gateways d)\<rparr>) = {#}"
proof -
  have "get_callbacks (gateway_clear gw) = []" "pending_gets (gateway_clear gw) = []" "pending_puts (gateway_clear gw) = []"
    if "gw \<in> set (gateways d)" for gw
    using assms that by (auto simp: gateway_clear_def get_state_def get_inv_def in_set_conv_nth)
  then show "get_state addrs repl (d\<lparr>gateways := map gateway_clear (gateways d)\<rparr>)"
      "pending (d\<lparr>gateways := map gateway_clear (gateways d)\<rparr>) = {#}"
    using assms by (auto simp: get_state_def get_inv_def addresses_def gateway_clear_def Let_def pending_def sum_list_0 cong: map_cong)
qed

lemma wait_result:
  assumes "nodes_answer rpc net up val" "\<And>rs. mset (arrival rs) = mset rs"
  shows "get_state addrs repl d \<Longrightarrow>
    \<exists>d' x'. dht_wait collect rpc arrival net (d, x) = Some (net, d', x') \<and> pending d' = {#} \<and>
      mset x' = mset x + owed (dht_value addrs (unat repl) up val) (pending d)"
proof (induction "effort (unat repl) (pending d)" arbitrary: d x rule: less_induct)
  case less
  let ?rs = "concat (map gateway_requests (gateways d))"
  let ?d = "d\<lparr>gateways := map gateway_clear (gateways d)\<rparr>"
  note rr = round_requests [OF less.prems] and cl = cleared_state [OF less.prems]
  have "set (arrival ?rs) = set ?rs" using assms(2) [of ?rs] by (metis set_mset_mset)
  then have ok: "\<forall>r \<in> set (arrival ?rs). req_ok addrs repl r" using rr(2) by simp
  have "sum_mset (image_mset req_cbs (mset (arrival ?rs))) = sum_mset (image_mset req_cbs (mset ?rs))" by (simp only: assms(2))
  then have sum: "sum_list (map req_cbs (arrival ?rs)) = pending d"
    unfolding rr(1) [symmetric] by (simp only: mset_map [symmetric] sum_mset_sum_list)
  have len: "length (arrival ?rs) = length ?rs" by (metis assms(2) size_mset)
  from requests_result [OF assms(1) ok cl(1), of x] obtain d1 x1 where
    1: "run_requests collect rpc (arrival ?rs) net (?d, x) = Some (net, d1, x1)" "get_state addrs repl d1"
      "mset x1 + owed (dht_value addrs (unat repl) up val) (pending d1) = mset x + owed (dht_value addrs (unat repl) up val) (pending d)"
      "effort (unat repl) (pending d1) + length ?rs \<le> effort (unat repl) (pending d)"
    unfolding sum cl(2) len by auto
  have round: "wait_round collect rpc arrival net (d, x) = Some (?rs = [], net, d1, x1)"
    using 1(1) by (simp add: wait_round_def Let_def)
  show ?case
  proof (cases "?rs = []")
    case True
    then have "arrival ?rs = []" using len by (simp only: length_0_conv [symmetric])
    then have "d1 = ?d" "x1 = x" using 1(1) by simp_all
    moreover have "pending d = {#}" using rr(1) True by simp
    moreover have "dht_wait collect rpc arrival net (d, x) = Some (net, d1, x1)"
      using round True by (subst dht_wait.simps) simp
    ultimately show ?thesis using cl(2) by simp
  next
    case False
    then have "effort (unat repl) (pending d1) < effort (unat repl) (pending d)" using 1(4) by (cases ?rs) auto
    from less.hyps [OF this 1(2), of x1] obtain d2 x2 where
      2: "dht_wait collect rpc arrival net (d1, x1) = Some (net, d2, x2)" "pending d2 = {#}"
        "mset x2 = mset x1 + owed (dht_value addrs (unat repl) up val) (pending d1)" by blast
    have "dht_wait collect rpc arrival net (d, x) = Some (net, d2, x2)"
    proof -
      have "wait_round collect rpc arrival net (d, x) = Some (False, net, d1, x1)" using round False by (simp only:)
      then show ?thesis using 2(1) by (subst dht_wait.simps) simp
    qed
    then show ?thesis using 2 1(3) by auto
  qed
qed

lemma issue_gets_pending:
  assumes "get_state addrs repl d" "0 < repl" "[] \<notin> fst ` set gs"
  shows "\<exists>d'. issue_gets gs d = Some d' \<and> get_state addrs repl d' \<and> pending d' = pending d + mset (map (\<lambda>(key, g). (0, key, g)) gs)"
  using assms(1,3)
proof (induction gs arbitrary: d)
  case (Cons kg gs)
  obtain key g where kg: "kg = (key, g)" by (cases kg)
  have "get_inv d" "0 < replication d" "key \<noteq> []" using Cons.prems assms(2) by (auto simp: get_state_def kg)
  from dht_get_pending [OF this, of g] obtain d1 where 1: "dht_get key g 0 d = Some d1" "get_inv d1"
    "pending d1 = add_mset (0, key, g) (pending d)" "addresses d1 = addresses d" "replication d1 = replication d" by blast
  then have "get_state addrs repl d1" using Cons.prems by (simp add: get_state_def)
  from Cons.IH [OF this] Cons.prems(2) 1 show ?case by (auto simp: kg)
qed simp

lemma fresh_dht_state:
  assumes "set (gateways d) \<subseteq> range (\<lambda>(h, s). gateway_new h s)" "gateways d \<noteq> []"
  shows "get_state (addresses d) (replication d) d" "pending d = {#}"
proof -
  have "get_callbacks gw = []" "pending_gets gw = []" "pending_puts gw = []" if "gw \<in> set (gateways d)" for gw
    using that assms(1) by (auto simp: gateway_new_def)
  then show "get_state (addresses d) (replication d) d" "pending d = {#}"
    using assms(2) by (auto simp: get_state_def get_inv_def pending_def sum_list_0 cong: map_cong)
qed

lemma gets_answered:
  assumes "nodes_answer rpc net up val" "\<And>rs. mset (arrival rs) = mset rs"
    and "set (gateways d) \<subseteq> range (\<lambda>(h, s). gateway_new h s)" "gateways d \<noteq> []" "0 < replication d" "[] \<notin> fst ` set gs"
  shows "\<exists>d1 d2 x. issue_gets gs d = Some d1 \<and> dht_wait collect rpc arrival net (d1, []) = Some (net, d2, x) \<and>
    mset x = mset (map (\<lambda>(key, g). (g, dht_value (addresses d) (unat (replication d)) up val key 0)) gs)"
proof -
  note fresh = fresh_dht_state [OF assms(3,4)]
  from issue_gets_pending [OF fresh(1) assms(5,6)] obtain d1 where
    1: "issue_gets gs d = Some d1" "get_state (addresses d) (replication d) d1" "pending d1 = mset (map (\<lambda>(key, g). (0, key, g)) gs)"
    using fresh(2) by auto
  from wait_result [OF assms(1,2) 1(2), of "[]"] obtain d2 x where
    "dht_wait collect rpc arrival net (d1, []) = Some (net, d2, x)"
    "mset x = owed (dht_value (addresses d) (unat (replication d)) up val) (pending d1)" by auto
  moreover have "owed f (mset (map (\<lambda>(key, g). (0, key, g)) gs)) = mset (map (\<lambda>(key, g). (g, f key 0)) gs)" for f
    by (induction gs) auto
  ultimately show ?thesis using 1 by auto
qed

text \<open>
  C15: \<open>wait\<close> returns, and every get issued before it is called back exactly once: with what the first
  replica that is up holds for the key, or with an empty buffer if none is up. This holds for
  every order of the answers.
\<close>

theorem gets_are_answered:
  assumes "nodes_answer rpc net up val" "\<And>rs. mset (arrival rs) = mset rs"
    and "set (gateways d) \<subseteq> range (\<lambda>(h, s). gateway_new h s)" "gateways d \<noteq> []" "0 < replication d" "[] \<notin> fst ` set gs"
  shows "\<exists>d1 d2 x. issue_gets gs d = Some d1 \<and> dht_wait collect rpc arrival net (d1, []) = Some (net, d2, x) \<and>
    mset x = mset (map (\<lambda>(key, g). (g, dht_value (addresses d) (unat (replication d)) up val key 0)) gs)"
  using assms by (rule gets_answered)

text \<open>
  A put that is reported as successful can be invisible to gets. If the first replica did not
  store the value but answers, its empty answer is final, although a later replica may hold the value.
\<close>

theorem missing_replica_hides_value:
  assumes "nodes_answer rpc net up val" "\<And>rs. mset (arrival rs) = mset rs"
    and "set (gateways d) \<subseteq> range (\<lambda>(h, s). gateway_new h s)" "gateways d \<noteq> []" "0 < replication d"
    and "key \<noteq> []" "up (replica_addr (addresses d) key 0)" "val (replica_addr (addresses d) key 0) key = []"
  shows "\<exists>d1 d2. dht_get key g 0 d = Some d1 \<and> dht_wait collect rpc arrival net (d1, []) = Some (net, d2, [(g, [])])"
proof -
  have "dht_value (addresses d) (unat (replication d)) up val key 0 = []"
    using assms(5,7,8) by (subst dht_value_step) (simp_all add: word_less_nat_alt)
  then show ?thesis using gets_answered [OF assms(1-5), of "[(key, g)]"] assms(6) by (auto split: option.splits)
qed

section \<open>Instances\<close>

definition ex_val :: "string \<times> string \<Rightarrow> buffer \<Rightarrow> buffer" where
  "ex_val a key = (if key = [5] then [7] else [])"

definition ex_rpc :: "unit rpc_fun" where
  "ex_rpc h s name keys net = (if h = ''b'' then ((rpc_eres, []), net) else ((rpc_ok, map (ex_val (h, s)) keys), net))"

lemma ex_rpc_answers: "nodes_answer ex_rpc () (\<lambda>a. fst a \<noteq> ''b'') ex_val"
  by (auto simp: nodes_answer_def ex_rpc_def rpc_eres_def rpc_ok_def rpc_eobj_def)

lemma ex_dht_fresh: "set (gateways ex_dht) \<subseteq> range (\<lambda>(h, s). gateway_new h s)" "gateways ex_dht \<noteq> []" "0 < replication ex_dht"
    "addresses ex_dht = [(''a'', ''1''), (''b'', ''1''), (''c'', ''1''), (''d'', ''1'')]"
  by (auto simp: ex_dht_def addGateway_def simple_dht_new_def addresses_def gateway_new_def)

theorem gets_are_answered_witness:
  "\<exists>d1 d2 x. issue_gets [([5], 0), ([6], 1)] ex_dht = Some d1 \<and> dht_wait collect ex_rpc rev () (d1, []) = Some ((), d2, x) \<and>
    mset x = {#(0, [7]), (1, [])#}"
proof -
  have r: "replication ex_dht = 2" by (simp add: ex_dht_def addGateway_def simple_dht_new_def)
  have "dht_value (addresses ex_dht) 2 (\<lambda>a. fst a \<noteq> ''b'') ex_val [5] 0 = [7]"
       "dht_value (addresses ex_dht) 2 (\<lambda>a. fst a \<noteq> ''b'') ex_val [6] 0 = []"
    by (auto simp: dht_value_step ex_dht_fresh(4) replica_addr_def sdbm_def ex_val_def)
  then show ?thesis
    using gets_are_answered [OF ex_rpc_answers _ ex_dht_fresh(1-3), of rev "[([5], 0), ([6], 1)]"] r by simp
qed

text \<open>The second replica of the key holds it, the first does not.\<close>

definition ex_val2 :: "string \<times> string \<Rightarrow> buffer \<Rightarrow> buffer" where
  "ex_val2 a key = (if a = replica_addr (addresses ex_dht) key 1 then [7] else [])"

definition ex_rpc2 :: "unit rpc_fun" where
  "ex_rpc2 h s name keys net = ((rpc_eobj, map (ex_val2 (h, s)) keys), net)"

theorem missing_replica_hides_value_witness:
  "ex_val2 (replica_addr (addresses ex_dht) [2] 1) [2] = [7] \<and>
   (\<exists>d1 d2. dht_get [2] 5 0 ex_dht = Some d1 \<and> dht_wait collect ex_rpc2 rev () (d1, []) = Some ((), d2, [(5, [])]))"
proof -
  have "nodes_answer ex_rpc2 () (\<lambda>a. True) ex_val2" by (simp add: nodes_answer_def ex_rpc2_def)
  moreover have "ex_val2 (replica_addr (addresses ex_dht) [2] 0) [2] = []"
  proof -
    have "replica_addr (addresses ex_dht) [2] 0 = (''c'', ''1'')" "replica_addr (addresses ex_dht) [2] 1 = (''b'', ''1'')"
      by (simp_all add: ex_dht_fresh(4) replica_addr_def sdbm_def)
    then show ?thesis by (simp add: ex_val2_def)
  qed
  ultimately show ?thesis
    using missing_replica_hides_value [of ex_rpc2 "()" "\<lambda>a. True" ex_val2 rev ex_dht "[2]" 5] ex_dht_fresh
    by (simp add: ex_val2_def)
qed

end
