(* ===== verification/Dht_Nodes.thy ===== *)
theory Dht_Nodes
  imports Simple_Dht Null_Bw_Map
begin

text \<open>
  \<open>provider/sdht.cpp\<close>: the nodes of the metadata DHT, which are page servers without listeners, and
  the DHT client of \<open>Simple_Dht\<close> on such nodes: what a client puts is what any client gets.
\<close>

section \<open>Nodes\<close>

text \<open>The handlers that \<open>run_server\<close> registers.\<close>

definition sdht_lookup ::
  "'p persist_ops \<Rightarrow> string \<Rightarrow> u32 \<Rightarrow> (rpcvector_t \<Rightarrow> ('p, 'l) page_manager \<Rightarrow> ('p, 'l) page_manager outcome) option" where
  "sdht_lookup ops sender name =
     (if name = PROVIDER_WRITE then Some (write_page ops sender)
      else if name = PROVIDER_READ then Some (read_page ops sender)
      else None)"

text \<open>
  The else branch of \<open>main\<close>, taken for an empty \<open>db_name\<close>: the node keeps its values in memory. Both
  branches, the other one with a Berkeley DB, are in \<open>sdht_main\<close> of theory \<open>Startup\<close>.
\<close>

type_synonym null_node = "(null_bw_map, unit) page_manager"

definition sdht_start :: "u32 \<Rightarrow> u32 \<Rightarrow> null_node" where
  "sdht_start cache_slots total_space =
     page_manager_new (null_bw_map_new (ucast cache_slots) (push_bit 20 1 * ucast total_space)) False ()"

text \<open>The states of a node that serves requests.\<close>

inductive sdht_serves :: "null_node \<Rightarrow> null_node \<Rightarrow> bool" for pm0 where
  sd_start: "sdht_serves pm0 pm0"
| sd_call: "sdht_serves pm0 pm \<Longrightarrow> sdht_lookup null_ops sender name = Some h \<Longrightarrow> h params pm = Returns st result pm' \<Longrightarrow>
     sdht_serves pm0 pm'"

text \<open>
  The network: the nodes that can be reached. A call that is not answered fails with the status
  \<open>fail\<close>.
\<close>

type_synonym network = "string \<times> string \<Rightarrow> null_node option"

definition sdht_rpc :: "rpcreturn_t \<Rightarrow> string \<Rightarrow> network rpc_fun" where
  "sdht_rpc fail sender h s name params net =
     (case net (h, s) of
        None \<Rightarrow> ((fail, []), net)
      | Some pm \<Rightarrow>
          (case sdht_lookup null_ops sender name of
             None \<Rightarrow> ((fail, []), net)
           | Some handler \<Rightarrow>
               (case handler params pm of
                  Returns st result pm \<Rightarrow> ((st, result), net((h, s) \<mapsto> pm))
                | _ \<Rightarrow> ((fail, []), net))))"

text \<open>What a node holds, as its answers show it.\<close>

definition node_value :: "null_node \<Rightarrow> buffer \<Rightarrow> buffer" where
  "node_value pm key = (case null_contents (page_cache pm) key of None \<Rightarrow> [] | Some v \<Rightarrow> v)"

definition node_inv :: "null_node \<Rightarrow> bool" where
  "node_inv pm \<longleftrightarrow> null_inv (page_cache pm) \<and> update_hooks pm = []"

lemma null_read_eq: "null_read key p = (null_contents p key, p)"
  by (cases p, cases "nb_cache p") (auto simp: null_read_def cache_read_def null_contents_def lookup_def split: option.splits)

lemma exec_no_hooks: "update_hooks pm = [] \<Longrightarrow> exec_hooks ops name k n sender pm = pm"
  by (simp add: exec_hooks_def)

lemma null_write_inv: "null_inv p \<Longrightarrow> null_inv (snd (null_write k v p))"
  by (auto simp: null_write_def null_inv_def Let_def none.resize_grows intro!: none.inv_write none.inv_resize)

lemma node_write_inv: "node_inv pm \<Longrightarrow> write_loop null_ops sender params pm = Returns st result pm' \<Longrightarrow> node_inv pm'"
proof (induction null_ops sender params pm rule: write_loop.induct)
  case (3 sender k v params pm)
  obtain b p where w: "null_write k v (page_cache pm) = (b, p)" by fastforce
  have "node_inv (pm\<lparr>page_cache := p\<rparr>)" using 3(2) null_write_inv [of "page_cache pm" k v] w by (simp add: node_inv_def)
  moreover have "update_hooks (pm\<lparr>page_cache := p\<rparr>) = []" using 3(2) by (simp add: node_inv_def)
  ultimately show ?case using 3 w by (cases b) (auto simp: null_ops_def exec_no_hooks)
qed simp_all

lemma node_read:
  assumes "update_hooks pm = []" "[] \<notin> set keys"
  shows "\<exists>e. read_loop null_ops sender n keys result ok pm = Returns e (result @ map (node_value pm) keys) pm \<and> (e = rpc_ok \<or> e = rpc_eobj)"
  using assms(2)
proof (induction keys arbitrary: result ok)
  case (Cons k keys)
  have k: "k \<noteq> []" using Cons.prems by auto
  show ?case
  proof (cases "null_contents (page_cache pm) k")
    case None
    then show ?thesis using Cons.IH [of "result @ [[]]" ok] Cons.prems k
      by (simp add: null_ops_def null_read_eq print_buffer_def node_value_def)
  next
    case (Some v)
    then show ?thesis using Cons.IH [of "result @ [v]" "Suc ok"] Cons.prems assms(1)
      by (simp add: null_ops_def null_read_eq exec_no_hooks node_value_def)
  qed
qed simp

lemma node_read_same:
  "update_hooks pm = [] \<Longrightarrow> read_loop null_ops sender n keys result ok pm = Returns st r pm' \<Longrightarrow> pm' = pm"
  by (induction keys arbitrary: result ok)
    (auto simp: null_ops_def null_read_eq exec_no_hooks print_buffer_def split: option.splits if_splits)

lemma sdht_serves_inv:
  assumes "sdht_serves (sdht_start cs sp) pm"
  shows "node_inv pm"
  using assms
proof induction
  case sd_start
  then show ?case using null_new_ok by (auto simp: sdht_start_def page_manager_new_def node_inv_def)
next
  case (sd_call pm sender name h params st result pm')
  then show ?case using node_write_inv [of pm sender params st result pm'] node_read_same [of pm sender "length params" params "[]" 0 st result pm']
    by (auto simp: sdht_lookup_def write_page_def read_page_def node_inv_def split: if_splits)
qed

lemma rpc_read_write: "PROVIDER_READ \<noteq> PROVIDER_WRITE"
  by (simp add: PROVIDER_READ_def PROVIDER_WRITE_def)

text \<open>The nodes answer as \<open>Simple_Dht\<close> assumes.\<close>

lemma sdht_answers:
  assumes "\<forall>a pm. net a = Some pm \<longrightarrow> node_inv pm" "fail \<noteq> rpc_ok" "fail \<noteq> rpc_eobj"
  shows "nodes_answer (sdht_rpc fail sender) net (\<lambda>a. net a \<noteq> None) (\<lambda>a. node_value (the (net a)))"
  unfolding nodes_answer_def
proof (intro allI impI)
  fix h s and keys :: rpcvector_t assume keys: "keys \<noteq> [] \<and> [] \<notin> set keys"
  show "\<exists>e res. sdht_rpc fail sender h s PROVIDER_READ keys net = ((e, res), net) \<and>
    (if net (h, s) \<noteq> None then (e = rpc_ok \<or> e = rpc_eobj) \<and> res = map (node_value (the (net (h, s)))) keys else e \<noteq> rpc_ok \<and> e \<noteq> rpc_eobj)"
  proof (cases "net (h, s)")
    case None
    then show ?thesis using assms(2,3) by (simp add: sdht_rpc_def)
  next
    case (Some pm)
    then have "update_hooks pm = []" using assms(1) by (auto simp: node_inv_def)
    from node_read [OF this, of keys sender "length keys" "[]" 0] keys obtain e where
      "read_page null_ops sender keys pm = Returns e (map (node_value pm) keys) pm" "e = rpc_ok \<or> e = rpc_eobj"
      by (cases keys) (auto simp: read_page_def simp del: read_loop.simps)
    then show ?thesis using Some rpc_read_write by (simp add: sdht_rpc_def sdht_lookup_def map_upd_triv)
  qed
qed

section \<open>Writes of a node\<close>

text \<open>The node has room for \<open>n\<close> copies of the value.\<close>

definition node_room :: "buffer \<Rightarrow> buffer \<Rightarrow> nat \<Rightarrow> null_node \<Rightarrow> bool" where
  "node_room k v n pm \<longleftrightarrow> node_inv pm \<and> (length (cache_map (nb_cache (page_cache pm))) < 2 ^ 32 - 1 \<or> null_contents (page_cache pm) k \<noteq> None) \<and>
     n * length v \<le> unat (nb_space_left (page_cache pm))"

lemma node_write_one:
  assumes "node_room k v (Suc n) pm" "length v < 2 ^ 32"
  obtains p where "null_write k v (page_cache pm) = (True, p)" "node_room k v n (pm\<lparr>page_cache := p\<rparr>)" "null_contents p k = Some v"
proof -
  have sz: "unat (ucast (bw_size v) :: u64) = length v" using assms(2) by (simp add: unat_ucast_u32 bw_size_def unat_of_nat)
  have le: "length v \<le> unat (nb_space_left (page_cache pm))" "n * length v \<le> unat (nb_space_left (page_cache pm)) - length v"
    using assms(1) by (auto simp: node_room_def)
  then obtain p where p: "null_write k v (page_cache pm) = (True, p)"
    by (fastforce simp: null_write_def Let_def word_less_nat_alt sz)
  have room: "null_inv (page_cache pm)" "length (cache_map (nb_cache (page_cache pm))) < 2 ^ 32 - 1 \<or> null_contents (page_cache pm) k \<noteq> None"
    "update_hooks pm = []"
    using assms(1) by (simp_all add: node_room_def node_inv_def)
  from null_write_effect [OF room(1,2) p] have e: "null_inv p" "null_contents p = (null_contents (page_cache pm))(k \<mapsto> v)"
    "nb_space_left p = nb_space_left (page_cache pm) - ucast (bw_size v)" by auto
  have "unat (nb_space_left p) = unat (nb_space_left (page_cache pm)) - length v"
    unfolding e(3) using le(1) sz by (simp add: unat_sub_if')
  then have "node_room k v n (pm\<lparr>page_cache := p\<rparr>)" using e le(2) room(3) by (simp add: node_room_def node_inv_def)
  with that p e(2) show ?thesis by simp
qed

lemma node_write_copies:
  assumes "length v < 2 ^ 32" "node_room k v n pm" "c \<le> n"
  shows "\<exists>pm'. write_loop null_ops sender (concat (replicate c [k, v])) pm = Returns rpc_ok [] pm' \<and> node_room k v (n - c) pm' \<and>
    (0 < c \<or> null_contents (page_cache pm) k = Some v \<longrightarrow> null_contents (page_cache pm') k = Some v)"
  using assms(2,3)
proof (induction c arbitrary: n pm)
  case (Suc c)
  then obtain m where n: "n = Suc m" by (cases n) auto
  from Suc.prems(1) obtain p where p: "null_write k v (page_cache pm) = (True, p)" "node_room k v m (pm\<lparr>page_cache := p\<rparr>)" "null_contents p k = Some v"
    unfolding n using node_write_one [OF _ assms(1)] by blast
  from Suc.IH [OF p(2)] Suc.prems(2) p obtain pm' where
    "write_loop null_ops sender (concat (replicate c [k, v])) (pm\<lparr>page_cache := p\<rparr>) = Returns rpc_ok [] pm'" "node_room k v (m - c) pm'"
    "null_contents (page_cache pm') k = Some v" by (auto simp: n)
  moreover have "update_hooks (pm\<lparr>page_cache := p\<rparr>) = []" using p(2) by (simp add: node_room_def node_inv_def)
  ultimately show ?case using p(1) by (simp add: n null_ops_def exec_no_hooks)
qed simp

section \<open>A put and its callback\<close>

definition collect_puts :: "('g, 'm, ('m \<times> rpcreturn_t) list) client_ops" where
  "collect_puts = \<lparr>on_get = (\<lambda>g v x. (x, [])), on_put = (\<lambda>m e x. x @ [(m, e)])\<rparr>"

definition reports :: "'m \<Rightarrow> rpcreturn_t option list \<Rightarrow> ('m \<times> rpcreturn_t) list" where
  "reports m rs = map (\<lambda>r. (m, the r)) (filter (\<lambda>r. r \<noteq> None) rs)"

lemma call_puts_result:
  "st < length (statuses d) \<Longrightarrow>
     \<exists>d'. fold (\<lambda>e. call_put collect_puts e (st, m)) es (d, x) = (d', x @ reports m (put_results (replication d) (statuses d ! st) es)) \<and>
       gateways d' = gateways d"
proof (induction es arbitrary: d x)
  case (Cons e es)
  obtain s r where h: "handle_put_callback (replication d) (statuses d ! st) e = (s, r)" by fastforce
  let ?d = "d\<lparr>statuses := (statuses d)[st := s]\<rparr>"
  have c: "call_put collect_puts e (st, m) (d, x) = (?d, x @ reports m [r])"
    using h by (auto simp: call_put_def collect_puts_def reports_def split: option.splits)
  have "st < length (statuses ?d)" using Cons.prems by simp
  from Cons.IH [OF this, of "x @ reports m [r]"] c h Cons.prems show ?case by (auto simp: reports_def)
qed (simp add: reports_def)

lemma reports_once:
  assumes "length es = unat repl" "0 < unat repl" "unat repl < 2 ^ 16" "rpc_ok \<in> set es"
  shows "reports m (put_results repl 0 es) = [(m, rpc_ok)]"
proof -
  have "es \<noteq> []" using assms(4) by auto
  then have "put_results repl 0 es = replicate (length es - 1) None @ [Some rpc_ok]"
    using put_results_from [of repl 0 0 es] assms by simp
  then show ?thesis by (simp add: reports_def)
qed

text \<open>The queues that a put fills: copies of the pair for the replicas on the same gateway.\<close>

definition put_queue :: "buffer \<Rightarrow> buffer \<Rightarrow> nat \<times> 'm \<Rightarrow> ('g, 'm) gateway_t \<Rightarrow> bool" where
  "put_queue k v cb gw \<longleftrightarrow> pending_gets gw = [] \<and> put_callbacks gw = replicate (length (put_callbacks gw)) cb \<and>
     pending_puts gw = concat (replicate (length (put_callbacks gw)) [k, v])"

definition queued :: "('g, 'm) simple_dht \<Rightarrow> nat" where
  "queued d = sum_list (map (\<lambda>gw. length (put_callbacks gw)) (gateways d))"

lemma replicate_snoc: "replicate (Suc n) x = replicate n x @ [x]"
  by (induction n) simp_all

lemma put_queue_snoc:
  "put_queue k v cb gw \<Longrightarrow> put_queue k v cb (gw\<lparr>pending_puts := pending_puts gw @ [k, v], put_callbacks := put_callbacks gw @ [cb]\<rparr>)"
  unfolding put_queue_def by (auto simp: replicate_snoc simp del: replicate_Suc)

lemma queued_step:
  assumes "j < length (gateways d)" "put_callbacks gw = put_callbacks (gateways d ! j) @ [cb]"
  shows "queued (d\<lparr>gateways := (gateways d)[j := gw]\<rparr>) = Suc (queued d)"
  using assms elem_le_sum_list [of j "map (\<lambda>gw. length (put_callbacks gw)) (gateways d)"]
  by (simp add: queued_def map_update sum_list_update)

lemma put_replicas_queue:
  assumes "gateways d \<noteq> []" "\<forall>gw \<in> set (gateways d). put_queue k v (st, m) gw"
  shows "\<exists>d'. put_replicas c i k v st m d = Some d' \<and> (\<forall>gw \<in> set (gateways d'). put_queue k v (st, m) gw) \<and>
    queued d' = queued d + c \<and> addresses d' = addresses d \<and> replication d' = replication d \<and> statuses d' = statuses d \<and>
    (\<forall>j < length (gateways d). put_callbacks (gateways d ! j) \<noteq> [] \<longrightarrow> put_callbacks (gateways d' ! j) \<noteq> []) \<and>
    (\<forall>l < c. put_callbacks (gateways d' ! (unat (sdbm (i + of_nat l) k) mod length (gateways d))) \<noteq> [])"
  using assms
proof (induction c arbitrary: i d)
  case (Suc c)
  let ?j = "unat (sdbm i k) mod length (gateways d)"
  let ?gw = "(gateways d ! ?j)\<lparr>pending_puts := pending_puts (gateways d ! ?j) @ [k, v], put_callbacks := put_callbacks (gateways d ! ?j) @ [(st, m)]\<rparr>"
  let ?d = "d\<lparr>gateways := (gateways d)[?j := ?gw]\<rparr>"
  have j: "?j < length (gateways d)" using Suc.prems(1) by simp
  have run: "put_replicas (Suc c) i k v st m d = put_replicas c (i + 1) k v st m ?d"
    using Suc.prems(1) by (simp add: choose_gateway_def Let_def)
  have "put_queue k v (st, m) ?gw" using Suc.prems(2) j by (intro put_queue_snoc) simp
  then have q: "gateways ?d \<noteq> []" "\<forall>gw \<in> set (gateways ?d). put_queue k v (st, m) gw"
    using Suc.prems set_update_subset_insert [of "gateways d" ?j ?gw] by auto
  from Suc.IH [OF q, of "i + 1"] obtain d' where d': "put_replicas c (i + 1) k v st m ?d = Some d'"
    "\<forall>gw \<in> set (gateways d'). put_queue k v (st, m) gw" "queued d' = queued ?d + c" "addresses d' = addresses ?d"
    "replication d' = replication ?d" "statuses d' = statuses ?d"
    "\<forall>j < length (gateways ?d). put_callbacks (gateways ?d ! j) \<noteq> [] \<longrightarrow> put_callbacks (gateways d' ! j) \<noteq> []"
    "\<forall>l < c. put_callbacks (gateways d' ! (unat (sdbm (i + 1 + of_nat l) k) mod length (gateways ?d))) \<noteq> []" by blast
  have "addresses ?d = addresses d"
    using j by (simp add: addresses_def map_update list_update_same_conv [THEN iffD2])
  moreover have "queued ?d = Suc (queued d)" using queued_step [OF j, of ?gw "(st, m)"] by simp
  moreover have "\<forall>j < length (gateways d). put_callbacks (gateways d ! j) \<noteq> [] \<longrightarrow> put_callbacks (gateways d' ! j) \<noteq> []"
    using d'(7) j by (auto simp: nth_list_update)
  moreover have "put_callbacks (gateways d' ! (unat (sdbm (i + of_nat l) k) mod length (gateways d))) \<noteq> []" if "l < Suc c" for l
  proof (cases l)
    case 0
    then show ?thesis using d'(7) j by simp
  next
    case (Suc l')
    then show ?thesis using d'(8) that by (simp add: add.assoc)
  qed
  ultimately show ?case using run d'(1-6) by (intro exI [of _ d']) auto
qed simp

section \<open>The requests of a put\<close>

fun put_req :: "buffer \<Rightarrow> buffer \<Rightarrow> nat \<times> 'm \<Rightarrow> ('g, 'm) request \<Rightarrow> bool" where
  "put_req k v cb (Write_request h s puts cbs) \<longleftrightarrow>
     cbs \<noteq> [] \<and> cbs = replicate (length cbs) cb \<and> puts = concat (replicate (length cbs) [k, v])"
| "put_req k v cb (Read_request h s gets cbs) \<longleftrightarrow> False"

fun req_addr :: "('g, 'm) request \<Rightarrow> string \<times> string" where
  "req_addr (Write_request h s puts cbs) = (h, s)"
| "req_addr (Read_request h s gets cbs) = (h, s)"

fun req_count :: "('g, 'm) request \<Rightarrow> nat" where
  "req_count (Write_request h s puts cbs) = length cbs"
| "req_count (Read_request h s gets cbs) = length cbs"

lemma handle_put_replicate:
  "handle_put_callbacks client (replicate c cb) e dx = fold (\<lambda>e. call_put client e cb) (replicate c e) dx"
  by (induction c arbitrary: dx) (simp_all add: handle_put_callbacks_def)

lemma put_pairs: "length (concat (replicate c [k, v])) = 2 * c"
  by (induction c) simp_all

lemma sdht_write:
  "0 < c \<Longrightarrow> sdht_rpc fail sender h s PROVIDER_WRITE (concat (replicate c [k, v])) net =
     (case net (h, s) of
        None \<Rightarrow> ((fail, []), net)
      | Some pm \<Rightarrow> (case write_loop null_ops sender (concat (replicate c [k, v])) pm of
           Returns st result pm \<Rightarrow> ((st, result), net((h, s) \<mapsto> pm)) | _ \<Rightarrow> ((fail, []), net)))"
  by (simp add: sdht_rpc_def sdht_lookup_def write_page_def put_pairs split: option.split)

text \<open>One request: which nodes can be reached does not change, and only the node called changes.\<close>

lemma sdht_write_net:
  assumes "sdht_rpc fail sender h s PROVIDER_WRITE (concat (replicate c [k, v])) net = ((e, result), net')" "0 < c"
    "\<forall>b pm. net b = Some pm \<longrightarrow> node_inv pm"
  shows "(\<forall>b pm. net' b = Some pm \<longrightarrow> node_inv pm) \<and> (\<forall>b. net' b = None \<longleftrightarrow> net b = None) \<and> (\<forall>b. b \<noteq> (h, s) \<longrightarrow> net' b = net b)"
  using assms by (auto simp: sdht_write dest!: node_write_inv [rotated] split: option.splits outcome.splits if_splits)

lemma run_puts:
  assumes "length v < 2 ^ 32"
  shows "\<forall>r \<in> set rs. put_req k v cb r \<Longrightarrow> \<forall>b pm. net b = Some pm \<longrightarrow> node_inv pm \<Longrightarrow> net a = Some pm \<Longrightarrow> node_room k v n pm \<Longrightarrow>
    sum_list (map req_count rs) \<le> n \<Longrightarrow>
    \<exists>net' es pm'. (\<forall>dx. run_requests client (sdht_rpc fail sender) rs net dx = Some (net', fold (\<lambda>e. call_put client e cb) es dx)) \<and>
      length es = sum_list (map req_count rs) \<and> (\<forall>b pm. net' b = Some pm \<longrightarrow> node_inv pm) \<and> (\<forall>b. net' b = None \<longleftrightarrow> net b = None) \<and>
      net' a = Some pm' \<and> (a \<in> req_addr ` set rs \<or> null_contents (page_cache pm) k = Some v \<longrightarrow> null_contents (page_cache pm') k = Some v) \<and>
      (a \<in> req_addr ` set rs \<longrightarrow> rpc_ok \<in> set es)"
proof (induction rs arbitrary: net n pm)
  case (Cons r rs)
  obtain h s puts cbs where r0: "r = Write_request h s puts cbs" using Cons.prems(1) by (cases r) auto
  define c where "c = length cbs"
  have r: "r = Write_request h s (concat (replicate c [k, v])) (replicate c cb)" "0 < c" using Cons.prems(1) r0 by (auto simp: c_def)
  obtain e result net1 where w: "sdht_rpc fail sender h s PROVIDER_WRITE (concat (replicate c [k, v])) net = ((e, result), net1)" by (metis surj_pair)
  note net1 = sdht_write_net [OF w r(2) Cons.prems(2)]
  have cn: "c \<le> n" "sum_list (map req_count rs) \<le> n - c" using Cons.prems(5) r(1) by simp_all
  have "\<exists>pm1. net1 a = Some pm1 \<and> node_room k v (n - c) pm1 \<and>
      (a = (h, s) \<or> null_contents (page_cache pm) k = Some v \<longrightarrow> null_contents (page_cache pm1) k = Some v) \<and> (a = (h, s) \<longrightarrow> e = rpc_ok)"
  proof (cases "a = (h, s)")
    case True
    from node_write_copies [OF assms Cons.prems(4) cn(1), of sender] w r(2) Cons.prems(3) True show ?thesis by (auto simp: sdht_write)
  next
    case False
    have "(n - c) * length v \<le> n * length v" by simp
    then have "node_room k v (n - c) pm" using Cons.prems(4) unfolding node_room_def by linarith
    moreover have "net1 a = Some pm" using False net1 Cons.prems(3) by (metis (no_types))
    ultimately show ?thesis using False by blast
  qed
  then obtain pm1 where pm1: "net1 a = Some pm1" "node_room k v (n - c) pm1"
    "a = (h, s) \<or> null_contents (page_cache pm) k = Some v \<longrightarrow> null_contents (page_cache pm1) k = Some v" "a = (h, s) \<longrightarrow> e = rpc_ok" by blast
  have hyps: "\<forall>r \<in> set rs. put_req k v cb r" "\<forall>b pm. net1 b = Some pm \<longrightarrow> node_inv pm" using Cons.prems(1) net1 by simp_all
  from Cons.IH [OF hyps pm1(1,2) cn(2)] obtain net' es pm' where
    2: "\<forall>dx. run_requests client (sdht_rpc fail sender) rs net1 dx = Some (net', fold (\<lambda>e. call_put client e cb) es dx)"
      "length es = sum_list (map req_count rs)" "\<forall>b pm. net' b = Some pm \<longrightarrow> node_inv pm" "\<forall>b. net' b = None \<longleftrightarrow> net1 b = None" "net' a = Some pm'"
      "a \<in> req_addr ` set rs \<or> null_contents (page_cache pm1) k = Some v \<longrightarrow> null_contents (page_cache pm') k = Some v"
      "a \<in> req_addr ` set rs \<longrightarrow> rpc_ok \<in> set es" by blast
  have "run_requests client (sdht_rpc fail sender) (r # rs) net dx = Some (net', fold (\<lambda>e. call_put client e cb) (replicate c e @ es) dx)" for dx
    using 2(1) [rule_format, of "fold (\<lambda>e. call_put client e cb) (replicate c e) dx"] w by (simp add: r(1) handle_put_replicate)
  moreover have "length (replicate c e @ es) = sum_list (map req_count (r # rs))" using 2(2) by (simp add: r(1))
  ultimately show ?case using 2(3-7) net1 pm1(3,4) r by (intro exI [of _ net'] exI [of _ "replicate c e @ es"] exI [of _ pm']) auto
qed auto

lemma put_gateway_requests:
  assumes "put_queue k v cb gw"
  shows "\<forall>r \<in> set (gateway_requests gw). put_req k v cb r" "sum_list (map req_count (gateway_requests gw)) = length (put_callbacks gw)"
    "put_callbacks gw \<noteq> [] \<Longrightarrow> (gw_host gw, gw_service gw) \<in> req_addr ` set (gateway_requests gw)"
    "gateway_requests (gateway_clear gw) = []"
proof -
  have "pending_puts gw = [] \<longleftrightarrow> put_callbacks gw = []" using assms put_pairs [of "length (put_callbacks gw)" k v]
    by (metis length_0_conv mult_eq_0_iff put_queue_def zero_neq_numeral)
  then show "\<forall>r \<in> set (gateway_requests gw). put_req k v cb r" "sum_list (map req_count (gateway_requests gw)) = length (put_callbacks gw)"
    "put_callbacks gw \<noteq> [] \<Longrightarrow> (gw_host gw, gw_service gw) \<in> req_addr ` set (gateway_requests gw)" "gateway_requests (gateway_clear gw) = []"
    using assms by (auto simp: gateway_requests_def gateway_clear_def put_queue_def)
qed

lemma put_round_requests:
  assumes "\<forall>gw \<in> set gws. put_queue k v cb gw"
  shows "\<forall>r \<in> set (concat (map gateway_requests gws)). put_req k v cb r"
    "sum_list (map req_count (concat (map gateway_requests gws))) = sum_list (map (\<lambda>gw. length (put_callbacks gw)) gws)"
    "concat (map gateway_requests (map gateway_clear gws)) = []"
  using assms by (induction gws) (auto simp: put_gateway_requests)

text \<open>A put that has been queued: \<open>wait\<close> sends it, and ends after the answers.\<close>

lemma put_wait:
  assumes "length v < 2 ^ 32" "\<And>rs. mset (arrival rs) = mset rs"
    and "\<forall>gw \<in> set (gateways d). put_queue k v (st, m) gw" "st < length (statuses d)" "statuses d ! st = 0"
    and "queued d = unat (replication d)" "0 < unat (replication d)" "unat (replication d) < 2 ^ 16"
    and "\<forall>b pm. net b = Some pm \<longrightarrow> node_inv pm" "net a = Some pm" "node_room k v (unat (replication d)) pm"
    and "gw \<in> set (gateways d)" "put_callbacks gw \<noteq> []" "(gw_host gw, gw_service gw) = a"
  shows "\<exists>net' d' pm'. dht_wait collect_puts (sdht_rpc fail sender) arrival net (d, []) = Some (net', d', [(m, rpc_ok)]) \<and>
    (\<forall>b pm. net' b = Some pm \<longrightarrow> node_inv pm) \<and> (\<forall>b. net' b = None \<longleftrightarrow> net b = None) \<and>
    net' a = Some pm' \<and> null_contents (page_cache pm') k = Some v"
proof -
  let ?rs = "concat (map gateway_requests (gateways d))" and ?d = "d\<lparr>gateways := map gateway_clear (gateways d)\<rparr>"
  note rr = put_round_requests [OF assms(3)]
  have set: "set (arrival ?rs) = set ?rs" using assms(2) [of ?rs] by (metis set_mset_mset)
  have "sum_mset (image_mset req_count (mset (arrival ?rs))) = sum_mset (image_mset req_count (mset ?rs))" by (simp only: assms(2))
  then have sum: "sum_list (map req_count (arrival ?rs)) = unat (replication d)"
    using rr(2) assms(6) unfolding queued_def by (metis mset_map sum_mset_sum_list)
  have mem: "a \<in> req_addr ` set (arrival ?rs)"
    using put_gateway_requests(3) [of k v "(st, m)" gw] assms(3,12-14) unfolding set by auto
  have "\<forall>r \<in> set (arrival ?rs). put_req k v (st, m) r" using rr(1) set by simp
  from run_puts [OF assms(1) this assms(9-11) eq_refl [OF sum], of collect_puts fail sender] mem sum obtain net' es pm' where
    1: "\<forall>dx. run_requests collect_puts (sdht_rpc fail sender) (arrival ?rs) net dx = Some (net', fold (\<lambda>e. call_put collect_puts e (st, m)) es dx)"
      "length es = unat (replication d)" "\<forall>b pm. net' b = Some pm \<longrightarrow> node_inv pm" "\<forall>b. net' b = None \<longleftrightarrow> net b = None" "net' a = Some pm'"
      "null_contents (page_cache pm') k = Some v" "rpc_ok \<in> set es" by auto
  obtain d' where d': "fold (\<lambda>e. call_put collect_puts e (st, m)) es (?d, []) = (d', [(m, rpc_ok)])" "gateways d' = map gateway_clear (gateways d)"
    using call_puts_result [of st ?d m es "[]"] reports_once [OF 1(2) assms(7,8) 1(7), of m] assms(4,5) by auto
  have "?rs \<noteq> []" using mem set by fastforce
  then have r1: "wait_round collect_puts (sdht_rpc fail sender) arrival net (d, []) = Some (False, net', d', [(m, rpc_ok)])"
    using 1(1) d'(1) by (simp add: wait_round_def Let_def)
  have "arrival [] = []" by (metis assms(2) mset_zero_iff)
  moreover have "concat (map gateway_requests (gateways d')) = []" using rr(3) d'(2) by simp
  ultimately have "wait_round collect_puts (sdht_rpc fail sender) arrival net' (d', [(m, rpc_ok)]) =
      Some (True, net', d'\<lparr>gateways := map gateway_clear (gateways d')\<rparr>, [(m, rpc_ok)])"
    by (simp only: wait_round_def Let_def prod.case run_requests.simps option.map simp_thms)
  then have "dht_wait collect_puts (sdht_rpc fail sender) arrival net' (d', [(m, rpc_ok)]) =
      Some (net', d'\<lparr>gateways := map gateway_clear (gateways d')\<rparr>, [(m, rpc_ok)])"
    by (subst dht_wait.simps) simp
  then have "dht_wait collect_puts (sdht_rpc fail sender) arrival net (d, []) = Some (net', d'\<lparr>gateways := map gateway_clear (gateways d')\<rparr>, [(m, rpc_ok)])"
    using r1 by (subst dht_wait.simps) simp
  with 1 show ?thesis by blast
qed

section \<open>What is put can be got\<close>

definition fresh :: "('g, 'm) simple_dht \<Rightarrow> bool" where
  "fresh d \<longleftrightarrow> set (gateways d) \<subseteq> range (\<lambda>(h, s). gateway_new h s) \<and> gateways d \<noteq> []"

lemma dht_put_queued:
  assumes "fresh d"
  shows "\<exists>d1. dht_put key v m d = Some d1 \<and> (\<forall>gw \<in> set (gateways d1). put_queue key v (length (statuses d), m) gw) \<and>
    queued d1 = unat (replication d) \<and> addresses d1 = addresses d \<and> replication d1 = replication d \<and> statuses d1 = statuses d @ [0] \<and>
    (\<forall>l < unat (replication d). \<exists>gw \<in> set (gateways d1). put_callbacks gw \<noteq> [] \<and> (gw_host gw, gw_service gw) = replica_addr (addresses d) key l)"
proof -
  let ?d = "d\<lparr>statuses := statuses d @ [0]\<rparr>"
  have gw: "pending_gets gw = []" "pending_puts gw = []" "put_callbacks gw = []" if "gw \<in> set (gateways d)" for gw
    using that assms by (auto simp: fresh_def gateway_new_def)
  then have q: "gateways ?d \<noteq> []" "\<forall>gw \<in> set (gateways ?d). put_queue key v (length (statuses d), m) gw" "queued ?d = 0"
    using assms by (auto simp: fresh_def put_queue_def queued_def)
  from put_replicas_queue [OF q(1,2), of "unat (replication d)" 0] q(3) obtain d1 where
    1: "dht_put key v m d = Some d1" "\<forall>gw \<in> set (gateways d1). put_queue key v (length (statuses d), m) gw"
      "queued d1 = unat (replication d)" "addresses d1 = addresses d" "replication d1 = replication d" "statuses d1 = statuses d @ [0]"
      "\<forall>l < unat (replication d). put_callbacks (gateways d1 ! (unat (sdbm (of_nat l) key) mod length (gateways d))) \<noteq> []"
    by (auto simp: dht_put_def addresses_def)
  have len: "length (gateways d1) = length (gateways d)" using 1(4) unfolding addresses_def by (metis length_map)
  have "\<exists>gw \<in> set (gateways d1). put_callbacks gw \<noteq> [] \<and> (gw_host gw, gw_service gw) = replica_addr (addresses d) key l"
    if l: "l < unat (replication d)" for l
  proof -
    let ?j = "unat (sdbm (of_nat l) key) mod length (gateways d)"
    have j: "?j < length (gateways d1)" using q(1) len by simp
    then have "addresses d1 ! ?j = (gw_host (gateways d1 ! ?j), gw_service (gateways d1 ! ?j))" by (simp add: addresses_def)
    then have "(gw_host (gateways d1 ! ?j), gw_service (gateways d1 ! ?j)) = replica_addr (addresses d) key l"
      using 1(4) by (simp add: replica_addr_def) (simp add: addresses_def)
    then show ?thesis using 1(7) l nth_mem [OF j] by blast
  qed
  with 1 show ?thesis by blast
qed

text \<open>
  C14: what a client puts into the DHT is what any client gets from it, with the servers of
  \<open>provider/sdht.cpp\<close> as nodes in any states that requests can have led to. If the first replica of the key that
  can be reached has room for the value, then \<open>wait\<close> returns and the put is called back once, with success;
  and a get of the key by any client with the same gateways and replication is called back once, with the
  value, whatever the order of the answers and whichever of the other replicas are down or full.
\<close>

theorem put_is_got:
  assumes nodes: "\<forall>a pm. net a = Some pm \<longrightarrow> (\<exists>cs sp. sdht_serves (sdht_start cs sp) pm)"
    and rpc: "fail \<noteq> rpc_ok" "fail \<noteq> rpc_eobj" "\<And>rs. mset (arrival rs) = mset rs" "\<And>rs. mset (arrival' rs) = mset rs"
    and clients: "fresh d" "fresh d'" "addresses d' = addresses d" "replication d' = replication d"
    and repl: "0 < replication d" "unat (replication d) < 2 ^ 16" "j < unat (replication d)"
    and first_up: "\<forall>i < j. net (replica_addr (addresses d) key i) = None" "net (replica_addr (addresses d) key j) = Some pm"
    and room: "unat (replication d) * length v \<le> unat (null_get_free (page_cache pm))" "length (cache_map (nb_cache (page_cache pm))) < 2 ^ 32 - 1"
    and data: "key \<noteq> []" "length v < 2 ^ 32"
  shows "\<exists>d1 net' d2. dht_put key v m d = Some d1 \<and>
      dht_wait collect_puts (sdht_rpc fail sender) arrival net (d1, []) = Some (net', d2, [(m, rpc_ok)]) \<and>
    (\<exists>d3 d4. dht_get key g 0 d' = Some d3 \<and> dht_wait collect (sdht_rpc fail sender') arrival' net' (d3, []) = Some (net', d4, [(g, v)]))"
proof -
  let ?a = "replica_addr (addresses d) key j"
  have inv: "\<forall>b pm. net b = Some pm \<longrightarrow> node_inv pm" using nodes sdht_serves_inv by blast
  have "node_inv pm" using inv first_up(2) by blast
  then have rm: "node_room key v (unat (replication d)) pm" using room by (auto simp: node_room_def null_get_free_def)
  obtain d1 gw where d1: "dht_put key v m d = Some d1" "\<forall>gw \<in> set (gateways d1). put_queue key v (length (statuses d), m) gw"
    "queued d1 = unat (replication d1)" "replication d1 = replication d" "statuses d1 = statuses d @ [0]"
    "gw \<in> set (gateways d1)" "put_callbacks gw \<noteq> []" "(gw_host gw, gw_service gw) = ?a"
    using dht_put_queued [OF clients(1), of key v m] repl(3) by auto
  have st: "length (statuses d) < length (statuses d1)" "statuses d1 ! length (statuses d) = 0" using d1(5) by simp_all
  have r: "0 < unat (replication d1)" "unat (replication d1) < 2 ^ 16" using repl d1(4) by (simp_all add: word_less_nat_alt)
  from put_wait [OF data(2) rpc(3) d1(2) st d1(3) r inv first_up(2) _ d1(6-8), of fail sender] rm d1(4) obtain net' d2 pm' where
    2: "dht_wait collect_puts (sdht_rpc fail sender) arrival net (d1, []) = Some (net', d2, [(m, rpc_ok)])" "\<forall>b pm. net' b = Some pm \<longrightarrow> node_inv pm"
      "\<forall>b. net' b = None \<longleftrightarrow> net b = None" "net' ?a = Some pm'" "null_contents (page_cache pm') key = Some v"
    by auto
  have "net' b = None \<longleftrightarrow> net b = None" for b using 2(3) by blast
  then have "find (\<lambda>i. net' (replica_addr (addresses d) key i) \<noteq> None) [0..<unat (replication d)] = Some j"
    using repl(3) first_up by (intro find_Some_iff [THEN iffD2] exI [of _ j]) (simp del: not_None_eq)
  then have val: "dht_value (addresses d') (unat (replication d')) (\<lambda>a. net' a \<noteq> None) (\<lambda>a. node_value (the (net' a))) key 0 = v"
    using 2(4,5) clients(3,4) by (simp add: dht_value_def node_value_def)
  have "\<exists>d3 d4. dht_get key g 0 d' = Some d3 \<and> dht_wait collect (sdht_rpc fail sender') arrival' net' (d3, []) = Some (net', d4, [(g, v)])"
    using gets_answered [OF sdht_answers [OF 2(2) rpc(1,2), of sender'] rpc(4), of d' "[(key, g)]"] val clients repl(1) data(1)
    by (auto simp: fresh_def split: option.splits)
  with d1(1) 2(1) show ?thesis by blast
qed

section \<open>Instance\<close>

text \<open>Of the two replicas of the key the first is down.\<close>

definition ex_net :: network where
  "ex_net = [(''b'', ''1'') \<mapsto> sdht_start 1 1]"

theorem put_is_got_witness:
  "\<exists>d1 net' d2 d3 d4. dht_put [2] [7, 8] 5 ex_dht = Some d1 \<and>
     dht_wait collect_puts (sdht_rpc rpc_eres ''x'') rev ex_net (d1, []) = Some (net', d2, [(5, rpc_ok)]) \<and>
     dht_get [2] 6 0 ex_dht = Some d3 \<and> dht_wait collect (sdht_rpc rpc_eres ''y'') rev net' (d3, []) = Some (net', d4, [(6, [7, 8])])"
proof -
  have r: "replication ex_dht = 2" by (simp add: ex_dht_def addGateway_def simple_dht_new_def)
  have nodes: "\<forall>a pm. ex_net a = Some pm \<longrightarrow> (\<exists>cs sp. sdht_serves (sdht_start cs sp) pm)"
    using sd_start by (auto simp: ex_net_def split: if_splits)
  have f: "fresh ex_dht" using ex_dht_fresh by (simp add: fresh_def)
  have a: "replica_addr (addresses ex_dht) [2] 0 = (''c'', ''1'')" "replica_addr (addresses ex_dht) [2] 1 = (''b'', ''1'')"
    by (simp_all add: ex_dht_fresh(4) replica_addr_def sdbm_def)
  have up: "\<forall>i < 1. ex_net (replica_addr (addresses ex_dht) [2] i) = None" "ex_net (replica_addr (addresses ex_dht) [2] 1) = Some (sdht_start 1 1)"
    using a by (simp_all add: ex_net_def)
  have room: "unat (replication ex_dht) * length ([7, 8] :: buffer) \<le> unat (null_get_free (page_cache (sdht_start 1 1)))"
    "length (cache_map (nb_cache (page_cache (sdht_start 1 1)))) < 2 ^ 32 - 1"
    by (simp_all add: r sdht_start_def page_manager_new_def null_bw_map_new_def null_get_free_def cache_init_def push_bit_eq_mult)
  have "rpc_eres \<noteq> rpc_ok" "rpc_eres \<noteq> rpc_eobj" by (simp_all add: rpc_eres_def rpc_ok_def rpc_eobj_def)
  from put_is_got [OF nodes this _ _ f f refl refl _ _ _ up room, of rev rev 5 "''x''" 6 "''y''"] show ?thesis by (auto simp: r)
qed

end
