(* ===== verification/Local_Mirror.thy ===== *)
theory Local_Mirror
  imports Snapshot_Read
begin

text \<open>
  \<open>bindings/blob-fuse/local_mirror.hpp\<close>: a version of a blob mirrored in a local file. Pages are
  fetched when they are first read, writes go to the local file, and \<open>commit\<close> writes the changed
  pages to the blob. For each page the mirror knows how many of its first bytes are valid locally
  (\<open>chunk_map\<close>).

  The class is a template over the handle on the blob. The operations it calls are a record of
  functions; \<open>handler_ops\<close> is the object handler of the client library, which the file system uses.
  The local file is mapped into memory; its contents are \<open>mapping\<close>. The calls of the operating
  system that can fail are parameters.
\<close>

record 'o blob_ops =
  bo_size :: "u32 \<Rightarrow> 'o \<Rightarrow> u64 \<times> 'o"
  bo_page_size :: "'o \<Rightarrow> u64"
  bo_id :: "'o \<Rightarrow> u32"
  bo_version :: "'o \<Rightarrow> u32"
  bo_read :: "u64 \<Rightarrow> u64 \<Rightarrow> buffer \<Rightarrow> u32 \<Rightarrow> 'o \<Rightarrow> bool res \<times> buffer \<times> 'o"
  bo_write :: "u64 \<Rightarrow> u64 \<Rightarrow> buffer \<Rightarrow> 'o \<Rightarrow> bool res \<times> 'o"
  bo_clone :: "'o \<Rightarrow> bool \<times> 'o"
  bo_latest :: "u32 \<Rightarrow> 'o \<Rightarrow> bool \<times> 'o"

definition handler_ops :: "archive \<Rightarrow> env \<Rightarrow> (object_handler \<times> oh_log) blob_ops" where
  "handler_ops ar env =
     \<lparr>bo_size = (\<lambda>v (oh, log). oh_get_size ar env v oh log),
      bo_page_size = (\<lambda>(oh, log). oh_get_page_size oh),
      bo_id = (\<lambda>(oh, log). oh_get_id oh),
      bo_version = (\<lambda>(oh, log). oh_get_version oh),
      bo_read = (\<lambda>off sz mem v (oh, log). oh_read ar env off sz mem v oh log),
      bo_write = (\<lambda>off sz buf (oh, log). oh_write ar env off sz buf oh log),
      bo_clone = (\<lambda>(oh, log). oh_clone ar env 0 0 oh log),
      bo_latest = (\<lambda>i (oh, log). oh_get_latest ar env i oh log)\<rparr>"

text \<open>The local file is named after the blob and the version.\<close>

record 'o local_mirror_t =
  local_name :: "u32 \<times> u32"
  lm_version :: u32
  mapping :: buffer
  lm_blob :: 'o
  blob_size :: u64
  page_size :: u64
  chunk_map :: "u64 list"
  written_map :: "bool list"

text \<open>
  The local file is enlarged by a write of one byte, the lowest of \<open>blob_size\<close>, at its new end, unless it
  has the right size; if it was longer it stays so.
\<close>

definition adjust_file :: "u64 \<Rightarrow> buffer \<Rightarrow> buffer" where
  "adjust_file bsize bytes =
     (if length bytes = unat bsize then bytes
      else (bytes @ replicate (unat bsize - length bytes) 0)[unat bsize - 1 := ucast bsize])"

text \<open>
  \<open>os_ok\<close>: the file could be opened, locked, enlarged and mapped. \<open>bytes\<close> is what it contains before (nothing
  if it is new), \<open>idx\<close> what the index file contains. A mapping of no bytes is refused by the system.
\<close>

definition local_mirror_new ::
  "'o blob_ops \<Rightarrow> bool \<Rightarrow> buffer \<Rightarrow> (u64 list \<times> bool list) option \<Rightarrow> 'o \<Rightarrow> u32 \<Rightarrow> 'o local_mirror_t res \<times> 'o" where
  "local_mirror_new ops os_ok bytes idx b v =
     (case bo_size ops v b of (bsize, b) \<Rightarrow>
        let psize = bo_page_size ops b in
        if psize = 0 then (Und ''blob_size / page_size'', b)
        else let n = unat (bsize div psize); (cm, wm) = (case idx of None \<Rightarrow> (replicate n 0, replicate n False) | Some i \<Rightarrow> i)
             in if \<not> os_ok \<or> bsize = 0 then (Thr ''temporary file'', b)
                else (Ret \<lparr>local_name = (bo_id ops b, v), lm_version = v, mapping = take (unat bsize) (adjust_file bsize bytes),
                        lm_blob = b, blob_size = bsize, page_size = psize, chunk_map = cm, written_map = wm\<rparr>, b))"

definition lm_get_object :: "'o local_mirror_t \<Rightarrow> 'o" where
  "lm_get_object lm = lm_blob lm"

text \<open>What the destructor leaves in the index file, if it can be written.\<close>

definition lm_index :: "'o local_mirror_t \<Rightarrow> u64 list \<times> bool list" where
  "lm_index lm = (chunk_map lm, written_map lm)"

section \<open>Reading\<close>

text \<open>A read of the blob into the local file; outside of the mapping it is undefined.\<close>

definition fetch :: "'o blob_ops \<Rightarrow> u64 \<Rightarrow> u64 \<Rightarrow> 'o local_mirror_t \<Rightarrow> bool res \<times> 'o local_mirror_t" where
  "fetch ops off sz lm =
     (if length (mapping lm) < unat off + unat sz then (Und ''mapping'', lm)
      else case bo_read ops off sz (take (unat sz) (drop (unat off) (mapping lm))) (lm_version lm) (lm_blob lm) of
             (r, mem, b) \<Rightarrow> (r, lm\<lparr>mapping := memory_write (unat off) mem (mapping lm), lm_blob := b\<rparr>))"

partial_function (option) extend_read :: "u64 \<Rightarrow> u64 \<Rightarrow> u64 list \<Rightarrow> u64 \<Rightarrow> u64 \<Rightarrow> u64 res option" where
  "extend_read psize stop cm read_off read_size =
     (if read_off + read_size < stop
      then let i = unat ((read_off + read_size) div psize)
           in if length cm \<le> i then Some (Und ''chunk_map'')
              else if cm ! i = 0 then extend_read psize stop cm read_off (read_size + psize)
              else Some (Ret read_size)
      else Some (Ret read_size))"

partial_function (option) mark_chunks :: "u64 \<Rightarrow> u64 \<Rightarrow> u64 \<Rightarrow> u64 list \<Rightarrow> (u64 \<times> u64 list) res option" where
  "mark_chunks psize stop index cm =
     (if index * psize < stop
      then if length cm \<le> unat index then Some (Und ''chunk_map'')
           else mark_chunks psize stop (index + 1) (cm[unat index := psize])
      else Some (Ret (index, cm)))"

text \<open>
  The outer loop of \<open>read\<close>. The first result is whether all needed bytes are there, or how the loop
  failed; \<open>None\<close> would be a loop that never ends.
\<close>

partial_function (option) read_chunks ::
  "'o blob_ops \<Rightarrow> u64 \<Rightarrow> u64 \<Rightarrow> 'o local_mirror_t \<Rightarrow> (bool res \<times> 'o local_mirror_t) option" where
  "read_chunks ops stop index lm =
     (let psize = page_size lm; cm = chunk_map lm in
      if index * psize < stop then
        if length cm \<le> unat index then Some (Und ''chunk_map'', lm)
        else
          let c = cm ! unat index in
          if c < min psize (stop - index * psize) then
            let read_off = (if 0 < c then index * psize + c else index * psize);
                first = (if 0 < c then psize - c else 0)
            in case extend_read psize stop cm read_off first of
                 None \<Rightarrow> None
               | Some (Ret read_size) \<Rightarrow>
                   (case fetch ops read_off read_size lm of (r, lm) \<Rightarrow>
                      if r \<noteq> Ret True then Some (r, lm)
                      else case mark_chunks psize (read_off + read_size) index cm of
                             None \<Rightarrow> None
                           | Some (Ret marked) \<Rightarrow> read_chunks ops stop (fst marked) (lm\<lparr>chunk_map := snd marked\<rparr>)
                           | Some (Thr e) \<Rightarrow> Some (Thr e, lm)
                           | Some (Und e) \<Rightarrow> Some (Und e, lm))
               | Some (Thr e) \<Rightarrow> Some (Thr e, lm)
               | Some (Und e) \<Rightarrow> Some (Und e, lm)
          else read_chunks ops stop (index + 1) lm
      else Some (Ret True, lm))"

text \<open>The size returned and the bytes the pointer leads to (none for a null pointer).\<close>

definition lm_read ::
  "'o blob_ops \<Rightarrow> u64 \<Rightarrow> u64 \<Rightarrow> 'o local_mirror_t \<Rightarrow> ((u64 \<times> buffer option) res \<times> 'o local_mirror_t) option" where
  "lm_read ops sz off lm =
     (if blob_size lm \<le> off then Some (Ret (0, None), lm)
      else let sz = (if blob_size lm < off + sz then blob_size lm - off else sz)
           in case read_chunks ops (off + sz) (off div page_size lm) lm of
                None \<Rightarrow> None
              | Some (Ret True, lm) \<Rightarrow> Some (Ret (sz, Some (take (unat sz) (drop (unat off) (mapping lm)))), lm)
              | Some (Ret False, lm) \<Rightarrow> Some (Ret (0, None), lm)
              | Some (Thr e, lm) \<Rightarrow> Some (Thr e, lm)
              | Some (Und e, lm) \<Rightarrow> Some (Und e, lm))"

section \<open>Writing\<close>

partial_function (option) mark_written ::
  "u64 \<Rightarrow> u64 \<Rightarrow> u64 \<Rightarrow> u64 list \<times> bool list \<Rightarrow> (u64 list \<times> bool list) res option" where
  "mark_written psize stop index maps =
     (case maps of (cm, wm) \<Rightarrow>
        if index * psize < stop
        then let gap = min psize (stop - index * psize); i = unat index
             in if length cm \<le> i \<or> length wm \<le> i then Some (Und ''chunk_map'')
                else mark_written psize stop (index + 1)
                       (if cm ! i < gap then cm[i := gap] else cm, wm[i := True])
        else Some (Ret maps))"

definition lm_write ::
  "'o blob_ops \<Rightarrow> u64 \<Rightarrow> u64 \<Rightarrow> buffer \<Rightarrow> 'o local_mirror_t \<Rightarrow> (u64 res \<times> 'o local_mirror_t) option" where
  "lm_write ops sz off buf lm =
     (if blob_size lm < off + sz then Some (Ret 0, lm)
      else if length (mapping lm) < unat off + unat sz then Some (Und ''mapping'', lm)
      else
        let lm = lm\<lparr>mapping := memory_write (unat off) (take (unat sz) buf) (mapping lm)\<rparr>;
            index = off div page_size lm
        in if length (chunk_map lm) \<le> unat index then Some (Und ''chunk_map'', lm)
           else
             let gap_off = index * page_size lm + chunk_map lm ! unat index;
                 (r, lm) = (if gap_off < off then fetch ops gap_off (off - gap_off) lm else (Ret True, lm))
             in case r of
                  Ret True \<Rightarrow>
                    (case mark_written (page_size lm) (off + sz) index (chunk_map lm, written_map lm) of
                       None \<Rightarrow> None
                     | Some (Ret (cm, wm)) \<Rightarrow> Some (Ret sz, lm\<lparr>chunk_map := cm, written_map := wm\<rparr>)
                     | Some (Thr e) \<Rightarrow> Some (Thr e, lm)
                     | Some (Und e) \<Rightarrow> Some (Und e, lm))
                | Ret False \<Rightarrow> Some (Ret 0, lm)
                | Thr e \<Rightarrow> Some (Thr e, lm)
                | Und e \<Rightarrow> Some (Und e, lm))"

section \<open>Committing\<close>

text \<open>The end of a run of written pages; the bit is tested before the bound.\<close>

partial_function (option) commit_stop :: "u64 \<Rightarrow> u64 \<Rightarrow> bool list \<Rightarrow> u32 \<Rightarrow> u32 res option" where
  "commit_stop psize bsize wm stop =
     (if length wm \<le> unat stop then Some (Und ''written_map'')
      else if wm ! unat stop \<and> ucast stop * psize < bsize then commit_stop psize bsize wm (stop + 1)
      else Some (Ret stop))"

definition clear_run :: "nat \<Rightarrow> nat \<Rightarrow> bool list \<Rightarrow> bool list" where
  "clear_run a b wm = map (\<lambda>i. wm ! i \<and> \<not> (a \<le> i \<and> i < b)) [0..<length wm]"

partial_function (option) commit_runs ::
  "'o blob_ops \<Rightarrow> u32 \<Rightarrow> 'o local_mirror_t \<Rightarrow> (bool res \<times> 'o local_mirror_t) option" where
  "commit_runs ops index lm =
     (let psize = page_size lm; wm = written_map lm in
      if ucast index * psize < blob_size lm then
        if length wm \<le> unat index then Some (Und ''written_map'', lm)
        else if wm ! unat index then
          case commit_stop psize (blob_size lm) wm (index + 1) of
            None \<Rightarrow> None
          | Some (Ret stop) \<Rightarrow>
              let off = ucast index * psize; sz = ucast (stop - index) * psize in
              if length (mapping lm) < unat off + unat sz then Some (Und ''mapping'', lm)
              else case bo_write ops off sz (take (unat sz) (drop (unat off) (mapping lm))) (lm_blob lm) of (r, b) \<Rightarrow>
                     if r \<noteq> Ret True then Some (r, lm\<lparr>lm_blob := b\<rparr>)
                     else commit_runs ops (stop + 1) (lm\<lparr>lm_blob := b, written_map := clear_run (unat index) (unat stop) wm\<rparr>)
          | Some (Thr e) \<Rightarrow> Some (Thr e, lm)
          | Some (Und e) \<Rightarrow> Some (Und e, lm)
        else commit_runs ops (index + 1) lm
      else Some (Ret True, lm))"

definition lm_commit :: "'o blob_ops \<Rightarrow> 'o local_mirror_t \<Rightarrow> (bool res \<times> 'o local_mirror_t) option" where
  "lm_commit ops lm = commit_runs ops 0 lm"

definition lm_clone_and_commit ::
  "'o blob_ops \<Rightarrow> bool \<Rightarrow> 'o local_mirror_t \<Rightarrow> (bool res \<times> 'o local_mirror_t) option" where
  "lm_clone_and_commit ops renamed lm =
     (let old_id = bo_id ops (lm_blob lm) in
      case bo_clone ops (lm_blob lm) of
        (False, b) \<Rightarrow> Some (Ret False, lm\<lparr>lm_blob := b\<rparr>)
      | (True, b) \<Rightarrow>
          let lm = lm\<lparr>lm_blob := b, local_name := (bo_id ops b, bo_version ops b)\<rparr>
          in if \<not> renamed then Some (Ret False, lm\<lparr>lm_blob := snd (bo_latest ops old_id b)\<rparr>)
             else lm_commit ops lm)"

end
