(* ===== verification/Mirror_File.thy ===== *)
theory Mirror_File
  imports Local_Mirror
begin

text \<open>
  A mirror as a local copy of a version of a blob: the invariant that relates the mapping and
  \<open>chunk_map\<close> to the file the mirror stands for, on the contract of the handle on the blob
  (\<open>blob_source\<close>), and that reads return the bytes of this file and writes change it.
\<close>

section \<open>The mirror as a file\<close>

text \<open>
  The contract of the handle: a successful read of a nonempty range of the version gives its bytes.
\<close>

locale blob_source =
  fixes ops :: "'o blob_ops" and base :: buffer and ver :: u32 and good :: "'o \<Rightarrow> bool"
  assumes read_right: "good b \<Longrightarrow> bo_read ops off sz mem ver b = (Ret r, mem', b') \<Longrightarrow> 0 < sz \<Longrightarrow>
    unat off + unat sz \<le> length base \<Longrightarrow> length mem = unat sz \<Longrightarrow>
    good b' \<and> length mem' = length mem \<and> (r \<longrightarrow> mem' = take (unat sz) (drop (unat off) base))"

text \<open>
  \<open>file\<close> is what the mirror stands for: the bytes of the blob with the local writes. A byte in the valid
  part of its page is in the mapping; all others have not been written locally.
\<close>

definition valid_byte :: "nat \<Rightarrow> u64 list \<Rightarrow> nat \<Rightarrow> bool" where
  "valid_byte P cm g \<longleftrightarrow> g mod P < unat (cm ! (g div P))"

definition mirror_inv :: "buffer \<Rightarrow> buffer \<Rightarrow> 'o local_mirror_t \<Rightarrow> bool" where
  "mirror_inv base file lm \<longleftrightarrow>
     (let P = unat (page_size lm); n = length (chunk_map lm) in
      fits (page_size lm) n \<and> blob_size lm = pw (page_size lm) n \<and> length (written_map lm) = n \<and>
      length (mapping lm) = n * P \<and> length base = n * P \<and> length file = n * P \<and>
      (\<forall>c \<in> set (chunk_map lm). unat c \<le> P) \<and>
      (\<forall>g < n * P. if valid_byte P (chunk_map lm) g then mapping lm ! g = file ! g else file ! g = base ! g))"

lemma mirror_invD:
  assumes "mirror_inv base file lm" "P = unat (page_size lm)" "n = length (chunk_map lm)"
  shows "fits (page_size lm) n" "blob_size lm = pw (page_size lm) n" "length (written_map lm) = n" "length (mapping lm) = n * P"
    "length base = n * P" "length file = n * P" "\<And>i. i < n \<Longrightarrow> unat (chunk_map lm ! i) \<le> P"
    "\<And>g. g < n * P \<Longrightarrow> valid_byte P (chunk_map lm) g \<Longrightarrow> mapping lm ! g = file ! g"
    "\<And>g. g < n * P \<Longrightarrow> \<not> valid_byte P (chunk_map lm) g \<Longrightarrow> file ! g = base ! g"
    "0 < P" "unat (blob_size lm) = n * P"
  using assms unat_ps_pos [of "page_size lm" n] unat_pw [of "page_size lm" n n] by (auto simp: mirror_inv_def Let_def)

lemma fits_of_nat: "fits ps n \<Longrightarrow> k \<le> n \<Longrightarrow> unat (of_nat k :: u64) = k"
  using unat_pw [of ps n k] unat_ps_pos [of ps n] unat_u64_bound [of "pw ps k"]
  by (intro unat_of_nat_small) (metis le_less_trans le_add1 mult.commute mult_Suc_right Suc_pred)

lemma extend_read_pages:
  assumes "fits ps n" "length cm = n" "stop \<le> pw ps n" "read_off + read_size = pw ps k" "k \<le> n"
  shows "\<exists>k'. k \<le> k' \<and> k' \<le> n \<and> extend_read ps stop cm read_off read_size = Some (Ret (read_size + pw ps (k' - k))) \<and>
    (\<forall>j. k \<le> j \<and> j < k' \<longrightarrow> cm ! j = 0) \<and> (pw ps k < stop \<and> cm ! k = 0 \<longrightarrow> k < k')"
  using assms(4,5)
proof (induction "n - k" arbitrary: k read_size)
  case 0
  then have "\<not> read_off + read_size < stop" using assms(3) by simp
  with 0 show ?case by (intro exI [of _ k]) (auto simp: extend_read.simps)
next
  case (Suc d)
  have i: "unat ((read_off + read_size) div ps) = k"
    using Suc.prems pw_div_ps [OF assms(1) Suc.prems(2)] fits_of_nat [OF assms(1) Suc.prems(2)] by simp
  have k: "k < n" using Suc.hyps(2) by linarith
  show ?case
  proof (cases "pw ps k < stop \<and> cm ! k = 0")
    case False
    then show ?thesis using Suc.prems i k assms(2) by (intro exI [of _ k]) (auto simp: extend_read.simps)
  next
    case True
    have "read_off + (read_size + ps) = pw ps (Suc k)" using Suc.prems(1) pw_add [of ps k 1] by (simp add: add.assoc [symmetric])
    from Suc.hyps(1) [OF _ this] Suc.hyps(2) k obtain k' where k': "Suc k \<le> k'" "k' \<le> n"
      "extend_read ps stop cm read_off (read_size + ps) = Some (Ret (read_size + ps + pw ps (k' - Suc k)))"
      "\<forall>j. Suc k \<le> j \<and> j < k' \<longrightarrow> cm ! j = 0" by fastforce
    have "extend_read ps stop cm read_off read_size = extend_read ps stop cm read_off (read_size + ps)"
      using True i k assms(2) Suc.prems(1) by (subst extend_read.simps) simp
    moreover have "ps + pw ps (k' - Suc k) = pw ps (k' - k)"
      using k'(1) pw_add [of ps 1 "k' - Suc k"] by (simp add: Suc_diff_Suc)
    moreover have "\<forall>j. k \<le> j \<and> j < k' \<longrightarrow> cm ! j = 0" using k'(4) True by (metis Suc_leI le_neq_implies_less)
    ultimately show ?thesis using k' by (intro exI [of _ k']) (auto simp: add.assoc)
  qed
qed

lemma of_nat_pw: "of_nat i * ps = pw ps i"
  by (simp add: pw_def)

lemma mark_chunks_pages:
  assumes "fits ps n" "k \<le> n" "i \<le> k" "length cm = n"
  shows "\<exists>cm'. mark_chunks ps (pw ps k) (of_nat i) cm = Some (Ret (of_nat k, cm')) \<and> length cm' = n \<and>
    (\<forall>j < n. cm' ! j = (if i \<le> j \<and> j < k then ps else cm ! j))"
  using assms(3,4)
proof (induction "k - i" arbitrary: i cm)
  case 0
  then show ?case by (intro exI [of _ cm]) (auto simp: mark_chunks.simps of_nat_pw)
next
  case (Suc d)
  have i: "i < k" using Suc.hyps(2) by linarith
  then have lt: "pw ps i < pw ps k" "unat (of_nat i :: u64) = i"
    using pw_order(2) [OF assms(1), of i k] fits_of_nat [OF assms(1), of i] assms(2) by simp_all
  from Suc.hyps(1) [of "Suc i" "cm[i := ps]"] Suc.hyps(2) i Suc.prems obtain cm' where
    cm': "mark_chunks ps (pw ps k) (of_nat (Suc i)) (cm[i := ps]) = Some (Ret (of_nat k, cm'))" "length cm' = n"
      "\<forall>j < n. cm' ! j = (if Suc i \<le> j \<and> j < k then ps else cm[i := ps] ! j)" by fastforce
  have "mark_chunks ps (pw ps k) (of_nat i) cm = mark_chunks ps (pw ps k) (of_nat (Suc i)) (cm[i := ps])"
    using lt i assms(2) Suc.prems(2) by (subst mark_chunks.simps) (simp add: of_nat_pw add.commute)
  with cm' i assms(2) Suc.prems(2) show ?case by (intro exI [of _ cm']) (auto simp: nth_list_update)
qed

lemma nth_memory_write:
  assumes "pos + length bs \<le> length mem" "g < length mem"
  shows "memory_write pos bs mem ! g = (if pos \<le> g \<and> g < pos + length bs then bs ! (g - pos) else mem ! g)"
  using assms by (auto simp: memory_write_def nth_append)

lemma valid_byte_page:
  assumes "0 < P" "j * P \<le> g" "g < Suc j * P"
  shows "valid_byte P cm g \<longleftrightarrow> g < j * P + unat (cm ! j)"
proof -
  have "g div P = j" using assms by (intro div_nat_eqI) (auto simp: mult.commute)
  moreover from this have "g mod P = g - j * P" using minus_div_mult_eq_mod [of g P] by simp
  ultimately show ?thesis using assms(2) unfolding valid_byte_def by (simp add: less_diff_conv2 add.commute)
qed

lemma region_invalid:
  assumes "0 < P" "\<And>j. i < j \<Longrightarrow> j < k \<Longrightarrow> cm ! j = 0" "i * P + unat (cm ! i) \<le> g" "g < k * P"
  shows "\<not> valid_byte P cm g"
proof -
  have pg: "g div P * P \<le> g" "g < Suc (g div P) * P"
    using assms(1) by (simp_all add: div_times_less_eq_dividend dividend_less_div_times)
  have "i \<le> g div P" "g div P < k"
    using assms by (simp_all add: less_eq_div_iff_mult_less_eq div_less_iff_less_mult)
  then show ?thesis
    using valid_byte_page [OF assms(1) pg, of cm] assms(2) [of "g div P"] assms(3) pg(1) by (cases "g div P = i") auto
qed

lemma invalid_change_inv:
  assumes "mirror_inv base file lm" "length m = length (mapping lm)"
    and "\<And>g. g < length m \<Longrightarrow> valid_byte (unat (page_size lm)) (chunk_map lm) g \<Longrightarrow> m ! g = mapping lm ! g"
  shows "mirror_inv base file (lm\<lparr>mapping := m, lm_blob := b\<rparr>)"
  using assms by (simp add: mirror_inv_def Let_def)

text \<open>What the operations keep of a mirror.\<close>

definition mirror_same :: "'o local_mirror_t \<Rightarrow> 'o local_mirror_t \<Rightarrow> bool" where
  "mirror_same lm lm' \<longleftrightarrow>
     lm_version lm' = lm_version lm \<and> page_size lm' = page_size lm \<and> blob_size lm' = blob_size lm \<and>
     length (chunk_map lm') = length (chunk_map lm) \<and> local_name lm' = local_name lm"

lemma mirror_same_refl [simp]: "mirror_same lm lm"
  by (simp add: mirror_same_def)

text \<open>
  What a failed write makes of the file: it has copied its bytes into the mapping before it reads the
  gap, so those that were valid there already are overwritten, unless the range leaves the file.
\<close>

definition torn_write :: "nat \<Rightarrow> buffer \<Rightarrow> 'o local_mirror_t \<Rightarrow> buffer \<Rightarrow> buffer" where
  "torn_write off buf lm file =
     (if length file < off + length buf then file
      else map (\<lambda>g. if off \<le> g \<and> g < off + length buf \<and> valid_byte (unat (page_size lm)) (chunk_map lm) g
                   then buf ! (g - off) else file ! g) [0..<length file])"

lemma length_torn_write [simp]: "length (torn_write off buf lm file) = length file"
  by (simp add: torn_write_def)

lemma mirror_same_trans: "mirror_same a b \<Longrightarrow> mirror_same b c \<Longrightarrow> mirror_same a c"
  by (simp add: mirror_same_def)

context blob_source
begin

lemma fetch_right:
  assumes "good (lm_blob lm)" "lm_version lm = ver" "0 < sz" "length (mapping lm) = length base"
    and "unat off + unat sz \<le> length base" "fetch ops off sz lm = (Ret r, lm')"
  shows "\<exists>m b. lm' = lm\<lparr>mapping := m, lm_blob := b\<rparr> \<and> good b \<and> length m = length (mapping lm) \<and>
    (\<forall>g < length m. \<not> (unat off \<le> g \<and> g < unat off + unat sz) \<longrightarrow> m ! g = mapping lm ! g) \<and>
    (r \<longrightarrow> (\<forall>g. unat off \<le> g \<and> g < unat off + unat sz \<longrightarrow> m ! g = base ! g))"
proof -
  let ?mem = "take (unat sz) (drop (unat off) (mapping lm))"
  obtain mem' b where rd: "bo_read ops off sz ?mem ver (lm_blob lm) = (Ret r, mem', b)"
    "lm' = lm\<lparr>mapping := memory_write (unat off) mem' (mapping lm), lm_blob := b\<rparr>"
    using assms(2,4-6) by (auto simp: fetch_def split: prod.splits if_splits)
  have len: "length ?mem = unat sz" using assms(4,5) by simp
  note rr = read_right [OF assms(1) rd(1) assms(3,5) len]
  have lmem: "length mem' = unat sz" using rr len by simp
  let ?m = "memory_write (unat off) mem' (mapping lm)"
  have fit: "unat off + length mem' \<le> length (mapping lm)" using rr len assms(4,5) by simp
  note nth = nth_memory_write [OF fit]
  have lm: "length ?m = length (mapping lm)" using fit by (rule length_memory_write)
  have out: "?m ! g = mapping lm ! g" if "g < length ?m" "\<not> (unat off \<le> g \<and> g < unat off + unat sz)" for g
    using that nth [of g] lm rr len by auto
  have inside: "?m ! g = base ! g" if "r" "unat off \<le> g" "g < unat off + unat sz" for g
  proof -
    have "g < length (mapping lm)" using that(3) assms(4,5) by simp
    then have "?m ! g = mem' ! (g - unat off)" using nth [of g] that(2,3) lmem by simp
    also have "\<dots> = base ! g" using rr that assms(5) by simp
    finally show ?thesis .
  qed
  show ?thesis using rd(2) rr lm out inside by (intro exI [of _ ?m] exI [of _ b]) blast
qed

text \<open>One fetch of the loop: the rest of page \<open>i\<close> after its valid part, and pages without valid part.\<close>

lemma fetch_pages_inv:
  assumes "mirror_inv base file lm" "P = unat (page_size lm)" "n = length (chunk_map lm)" "i < k'" "k' \<le> n"
    and "unat (chunk_map lm ! i) < P" "\<And>j. i < j \<Longrightarrow> j < k' \<Longrightarrow> chunk_map lm ! j = 0"
    and "length m = length (mapping lm)" "length cm' = n"
    and "\<And>g. g < length m \<Longrightarrow> \<not> (i * P + unat (chunk_map lm ! i) \<le> g \<and> g < k' * P) \<Longrightarrow> m ! g = mapping lm ! g"
    and "\<And>g. i * P + unat (chunk_map lm ! i) \<le> g \<Longrightarrow> g < k' * P \<Longrightarrow> m ! g = base ! g"
    and "\<And>j. j < n \<Longrightarrow> cm' ! j = (if i \<le> j \<and> j < k' then page_size lm else chunk_map lm ! j)"
  shows "mirror_inv base file (lm\<lparr>mapping := m, lm_blob := b, chunk_map := cm'\<rparr>)"
    "\<And>g. g < n * P \<Longrightarrow> valid_byte P cm' g \<longleftrightarrow> valid_byte P (chunk_map lm) g \<or> i * P \<le> g \<and> g < k' * P"
proof -
  note inv = mirror_invD [OF assms(1-3)]
  let ?c = "unat (chunk_map lm ! i)"
  have page: "g div P < n" "g div P * P \<le> g" "g < Suc (g div P) * P" if "g < n * P" for g
    using that inv(10) by (simp_all add: less_mult_imp_div_less div_times_less_eq_dividend dividend_less_div_times)
  have in_run: "i \<le> g div P \<and> g div P < k' \<longleftrightarrow> i * P \<le> g \<and> g < k' * P" for g
    using inv(10) by (metis div_less_iff_less_mult less_eq_div_iff_mult_less_eq)
  have valid: "valid_byte P cm' g \<longleftrightarrow> valid_byte P (chunk_map lm) g \<or> i * P \<le> g \<and> g < k' * P" if "g < n * P" for g
    using assms(12) [OF page(1) [OF that]] in_run [of g] inv(10) by (auto simp: valid_byte_def assms(2))
  have notv: "\<not> valid_byte P (chunk_map lm) g" if "i * P + ?c \<le> g" "g < k' * P" for g
    by (rule region_invalid [OF inv(10) _ that]) (rule assms(7))
  have bytes: "if valid_byte P cm' g then m ! g = file ! g else file ! g = base ! g" if g: "g < n * P" for g
  proof (cases "i * P + ?c \<le> g \<and> g < k' * P")
    case True
    then show ?thesis using valid [OF g] notv [of g] assms(11) [of g] inv(9) [OF g] by simp
  next
    case False
    have same: "m ! g = mapping lm ! g" using assms(10) [OF _ False] g assms(8) inv(4) by simp
    have "valid_byte P (chunk_map lm) g" if "i * P \<le> g" "g < k' * P"
    proof -
      have "g < i * P + ?c" using False that by simp
      then show ?thesis using valid_byte_page [OF inv(10) that(1), of "chunk_map lm"] assms(6) by simp
    qed
    then show ?thesis using valid [OF g] same inv(8,9) [OF g] by auto
  qed
  have le: "\<forall>c \<in> set cm'. unat c \<le> P"
    using assms(9,12) inv(7) by (auto simp: in_set_conv_nth assms(2))
  show "mirror_inv base file (lm\<lparr>mapping := m, lm_blob := b, chunk_map := cm'\<rparr>)"
    unfolding mirror_inv_def Let_def using inv(1-6) assms(2,8,9) le bytes by simp
  show "\<And>g. g < n * P \<Longrightarrow> valid_byte P cm' g \<longleftrightarrow> valid_byte P (chunk_map lm) g \<or> i * P \<le> g \<and> g < k' * P" by (rule valid)
qed

text \<open>The three cases of a round of the loop at page \<open>i\<close>.\<close>

lemma read_chunks_round:
  assumes "unat (of_nat i :: u64) = i" "i \<le> length (chunk_map lm)"
  shows "\<not> pw (page_size lm) i < stop \<Longrightarrow> read_chunks ops stop (of_nat i) lm = Some (Ret True, lm)"
    "pw (page_size lm) i < stop \<Longrightarrow> i < length (chunk_map lm) \<Longrightarrow> \<not> chunk_map lm ! i < min (page_size lm) (stop - pw (page_size lm) i) \<Longrightarrow>
       read_chunks ops stop (of_nat i) lm = read_chunks ops stop (of_nat (Suc i)) lm"
    "pw (page_size lm) i < stop \<Longrightarrow> i < length (chunk_map lm) \<Longrightarrow> chunk_map lm ! i < min (page_size lm) (stop - pw (page_size lm) i) \<Longrightarrow>
       extend_read (page_size lm) stop (chunk_map lm) (pw (page_size lm) i + chunk_map lm ! i)
         (if 0 < chunk_map lm ! i then page_size lm - chunk_map lm ! i else 0) = Some (Ret z) \<Longrightarrow>
       fetch ops (pw (page_size lm) i + chunk_map lm ! i) z lm = (r, lm1) \<Longrightarrow>
       mark_chunks (page_size lm) (pw (page_size lm) i + chunk_map lm ! i + z) (of_nat i) (chunk_map lm) = Some (Ret (of_nat k, cm')) \<Longrightarrow>
       read_chunks ops stop (of_nat i) lm =
         (if r \<noteq> Ret True then Some (r, lm1) else read_chunks ops stop (of_nat k) (lm1\<lparr>chunk_map := cm'\<rparr>))"
proof -
  let ?ps = "page_size lm" and ?cm = "chunk_map lm"
  show "\<not> pw ?ps i < stop \<Longrightarrow> read_chunks ops stop (of_nat i) lm = Some (Ret True, lm)"
    by (subst read_chunks.simps) (simp add: of_nat_pw Let_def)
  {
    assume lt: "pw ?ps i < stop" and i: "i < length ?cm"
    then have nle: "\<not> length ?cm \<le> i" by simp
    have off: "(if 0 < ?cm ! i then pw ?ps i + ?cm ! i else pw ?ps i) = pw ?ps i + ?cm ! i"
      by (cases "?cm ! i = 0") (simp_all add: word_gt_0)
    show "\<not> ?cm ! i < min ?ps (stop - pw ?ps i) \<Longrightarrow> read_chunks ops stop (of_nat i) lm = read_chunks ops stop (of_nat (Suc i)) lm"
      by (subst read_chunks.simps, unfold Let_def of_nat_pw assms(1) if_P [OF lt] if_not_P [OF nle])
        (simp only: if_False of_nat_Suc add.commute)
    assume fetch: "?cm ! i < min ?ps (stop - pw ?ps i)"
      and ex: "extend_read ?ps stop ?cm (pw ?ps i + ?cm ! i) (if 0 < ?cm ! i then ?ps - ?cm ! i else 0) = Some (Ret z)"
      and fe: "fetch ops (pw ?ps i + ?cm ! i) z lm = (r, lm1)"
      and ma: "mark_chunks ?ps (pw ?ps i + ?cm ! i + z) (of_nat i) ?cm = Some (Ret (of_nat k, cm'))"
    show "read_chunks ops stop (of_nat i) lm =
         (if r \<noteq> Ret True then Some (r, lm1) else read_chunks ops stop (of_nat k) (lm1\<lparr>chunk_map := cm'\<rparr>))"
      by (subst read_chunks.simps, unfold Let_def of_nat_pw assms(1) if_P [OF lt] if_not_P [OF nle] if_P [OF fetch] off ex option.case res.case)
        (simp add: fe ma)
  }
qed

lemma fetch_round:
  assumes "mirror_inv base file lm" "good (lm_blob lm)" "lm_version lm = ver" "P = unat (page_size lm)" "n = length (chunk_map lm)"
    and "i < n" "stop \<le> blob_size lm" "pw (page_size lm) i < stop"
    and "chunk_map lm ! i < min (page_size lm) (stop - pw (page_size lm) i)"
  obtains (failed) r lm' where "read_chunks ops stop (of_nat i) lm = Some (r, lm')" "r \<noteq> Ret True"
      "r = Ret False \<Longrightarrow> mirror_inv base file lm' \<and> good (lm_blob lm') \<and> mirror_same lm lm' \<and> chunk_map lm' = chunk_map lm"
  | (fetched) k lm' where "read_chunks ops stop (of_nat i) lm = read_chunks ops stop (of_nat k) lm'" "i < k" "k \<le> n"
      "mirror_inv base file lm'" "good (lm_blob lm')" "mirror_same lm lm'"
      "\<And>g. g < n * P \<Longrightarrow> valid_byte P (chunk_map lm') g \<longleftrightarrow> valid_byte P (chunk_map lm) g \<or> i * P \<le> g \<and> g < k * P"
proof -
  let ?ps = "page_size lm" and ?cm = "chunk_map lm"
  let ?c = "?cm ! i" let ?off = "pw ?ps i + ?c" let ?first = "if 0 < ?c then ?ps - ?c else 0"
  note inv = mirror_invD [OF assms(1,4,5)]
  have ui: "unat (of_nat i :: u64) = i" by (rule fits_of_nat [OF inv(1)]) (use assms(6) in simp)
  have "?c < ?ps" using assms(9) by simp
  then have c: "unat ?c < P" by (simp add: assms(4) word_less_nat_alt)
  have off: "unat ?off = i * P + unat ?c"
  proof -
    have "i * P + unat ?c < Suc i * P" using c by simp
    also have "\<dots> \<le> n * P" using assms(6) by (intro mult_le_mono1) simp
    finally have "unat (pw ?ps i) + unat ?c < 2 ^ 64" using inv(1) assms(4,6) unat_pw [OF inv(1), of i] by (simp add: fits_def)
    then show ?thesis using unat_add_nowrap unat_pw [OF inv(1), of i] assms(4,6) by simp
  qed
  define k where "k = (if 0 < ?c then Suc i else i)"
  have k: "?off + ?first = pw ?ps k" "k \<le> n" using assms(6) pw_add [of ?ps i 1] by (auto simp: k_def word_gt_0)
  have stop: "stop \<le> pw ?ps n" using assms(7) inv(2) by simp
  obtain k' where k': "k \<le> k'" "k' \<le> n" "extend_read ?ps stop ?cm ?off ?first = Some (Ret (?first + pw ?ps (k' - k)))"
    "\<forall>j. k \<le> j \<and> j < k' \<longrightarrow> ?cm ! j = 0" "pw ?ps k < stop \<and> ?cm ! k = 0 \<longrightarrow> k < k'"
    using extend_read_pages [OF inv(1) assms(5) [symmetric] stop k] by blast
  let ?z = "?first + pw ?ps (k' - k)"
  have ik: "i < k'" using k'(1,5) assms(8) by (cases "0 < ?c") (auto simp: k_def word_gt_0)
  have stop_z: "?off + ?z = pw ?ps k'" using k(1) k'(1) pw_add [of ?ps k "k' - k"] by (simp add: add.assoc [symmetric])
  have uk: "unat (pw ?ps k') = k' * P" using unat_pw [OF inv(1) k'(2)] assms(4) by simp
  have lt: "i * P + unat ?c < k' * P" using c ik mult_le_mono1 [of "Suc i" k' P] by simp
  have "?off \<le> pw ?ps k'" using off uk lt by (simp add: word_le_nat_alt)
  moreover have "?z = pw ?ps k' - ?off" using stop_z by (simp add: algebra_simps)
  ultimately have z: "unat ?z = k' * P - (i * P + unat ?c)" using off uk by (simp add: unat_sub_nowrap)
  have zpos: "0 < ?z" using z lt by (simp add: word_less_nat_alt)
  have kn: "k' * P \<le> n * P" using k'(2) by simp
  have fit: "unat ?off + unat ?z \<le> length base" "length (mapping lm) = length base" using off z lt kn inv(4,5) by simp_all
  have ends: "unat ?off + unat ?z = k' * P" using off z lt by simp
  obtain cm' where cm': "mark_chunks ?ps (pw ?ps k') (of_nat i) ?cm = Some (Ret (of_nat k', cm'))" "length cm' = n"
    "\<And>j. j < n \<Longrightarrow> cm' ! j = (if i \<le> j \<and> j < k' then ?ps else ?cm ! j)"
    using mark_chunks_pages [OF inv(1) k'(2) less_imp_le [OF ik] assms(5) [symmetric]] by blast
  obtain r lm1 where fe: "fetch ops ?off ?z lm = (r, lm1)" by (metis surj_pair)
  have step: "read_chunks ops stop (of_nat i) lm = (if r \<noteq> Ret True then Some (r, lm1) else read_chunks ops stop (of_nat k') (lm1\<lparr>chunk_map := cm'\<rparr>))"
    by (rule read_chunks_round(3) [OF ui _ assms(8) _ assms(9) k'(3) fe]) (use assms(5,6) cm'(1) stop_z in simp_all)
  show thesis
  proof (cases "\<exists>b. r = Ret b")
    case False
    then show thesis using step by (intro failed [of r lm1]) auto
  next
    case True
    then obtain b where b: "r = Ret b" by blast
    let ?right = "\<lambda>m o'. lm1 = lm\<lparr>mapping := m, lm_blob := o'\<rparr> \<and> good o' \<and> length m = length (mapping lm) \<and>
       (\<forall>g < length m. \<not> (i * P + unat ?c \<le> g \<and> g < k' * P) \<longrightarrow> m ! g = mapping lm ! g) \<and>
       (b \<longrightarrow> (\<forall>g. i * P + unat ?c \<le> g \<and> g < k' * P \<longrightarrow> m ! g = base ! g))"
    have "\<exists>m o'. ?right m o'" using fetch_right [OF assms(2,3) zpos fit(2,1) fe [unfolded b], unfolded ends, unfolded off] .
    then obtain m where "\<exists>o'. ?right m o'" by (rule exE)
    then obtain o' where right: "?right m o'" by (rule exE)
    note m = right [THEN conjunct1] right [THEN conjunct2, THEN conjunct1] right [THEN conjunct2, THEN conjunct2, THEN conjunct1]
      and out = right [THEN conjunct2, THEN conjunct2, THEN conjunct2, THEN conjunct1]
      and inside = right [THEN conjunct2, THEN conjunct2, THEN conjunct2, THEN conjunct2]
    have zeros: "?cm ! j = 0" if "i < j" "j < k'" for j
    proof -
      have "k \<le> j" using that(1) by (cases "0 < ?c") (simp_all add: k_def)
      with k'(4) that(2) show ?thesis by blast
    qed
    show thesis
    proof (cases b)
      case True
      note fp = fetch_pages_inv [OF assms(1,4,5) ik k'(2) c zeros m(3) cm'(2) out [rule_format] inside [rule_format, OF True] cm'(3)]
      have "mirror_same lm (lm\<lparr>mapping := m, lm_blob := o', chunk_map := cm'\<rparr>)" using cm'(2) assms(5) by (simp add: mirror_same_def)
      then show thesis using step b True m(1,2) ik k'(2) fp by (intro fetched [of k' "lm\<lparr>mapping := m, lm_blob := o', chunk_map := cm'\<rparr>"]) simp_all
    next
      case False
      have "mirror_inv base file lm1" unfolding m(1)
      proof (rule invalid_change_inv [OF assms(1) m(3)])
        fix g assume g: "g < length m" "valid_byte (unat (page_size lm)) (chunk_map lm) g"
        then have "\<not> (i * P + unat ?c \<le> g \<and> g < k' * P)" using region_invalid [OF inv(10) zeros] assms(4) by blast
        with g(1) out show "m ! g = mapping lm ! g" by blast
      qed
      with False step b m(1,2) show thesis by (intro failed [of r lm1]) (simp_all add: mirror_same_def)
    qed
  qed
qed

lemma skipped_page_valid:
  assumes "0 < unat ps" "\<not> cm ! i < min ps (stop - pw ps i)" "pw ps i < stop" "unat (pw ps i) = i * unat ps"
    and "i * unat ps \<le> g" "g < unat stop" "g < Suc i * unat ps"
  shows "valid_byte (unat ps) cm g"
proof -
  have "unat (stop - pw ps i) = unat stop - i * unat ps" using assms(3,4) by (simp add: unat_sub_nowrap)
  then have "min (unat ps) (unat stop - i * unat ps) \<le> unat (cm ! i)"
    using assms(2) by (auto simp: min_def word_less_nat_alt word_le_nat_alt split: if_splits)
  then show ?thesis using assms(5-7) valid_byte_page [OF assms(1,5,7), of cm] by auto
qed

lemma read_chunks_right:
  assumes "mirror_inv base file lm" "good (lm_blob lm)" "lm_version lm = ver" "i \<le> length (chunk_map lm)" "stop \<le> blob_size lm"
    and "P = unat (page_size lm)"
  shows "\<exists>r lm'. read_chunks ops stop (of_nat i) lm = Some (r, lm') \<and>
    (\<forall>b. r = Ret b \<longrightarrow> mirror_inv base file lm' \<and> good (lm_blob lm') \<and> mirror_same lm lm' \<and>
       (\<forall>g < length base. valid_byte P (chunk_map lm) g \<longrightarrow> valid_byte P (chunk_map lm') g) \<and>
       (b \<longrightarrow> (\<forall>g. i * P \<le> g \<and> g < unat stop \<longrightarrow> valid_byte P (chunk_map lm') g)))"
  using assms
proof (induction "length (chunk_map lm) - i" arbitrary: i lm rule: less_induct)
  case less
  let ?n = "length (chunk_map lm)" and ?ps = "page_size lm"
  note inv = mirror_invD [OF less.prems(1,6) refl]
  have ui: "unat (of_nat i :: u64) = i" by (rule fits_of_nat [OF inv(1) less.prems(4)])
  have upi: "unat (pw ?ps i) = i * P" using unat_pw [OF inv(1) less.prems(4)] less.prems(6) by simp
  have stop: "unat stop \<le> ?n * P" using less.prems(5) inv(11) by (simp add: word_le_nat_alt)
  show ?case
  proof (cases "pw ?ps i < stop")
    case False
    then have "\<not> i * P < unat stop" using upi by (simp add: word_less_nat_alt)
    then show ?thesis unfolding read_chunks_round(1) [OF ui less.prems(4) False] using less.prems(1,2) by auto
  next
    case True
    then have "i * P < ?n * P" using upi stop unfolding word_less_nat_alt by linarith
    then have i: "i < ?n" by simp
    show ?thesis
    proof (cases "chunk_map lm ! i < min ?ps (stop - pw ?ps i)")
      case False
      have d: "?n - Suc i < ?n - i" using i by simp
      from less.hyps [OF d less.prems(1-3) Suc_leI [OF i] less.prems(5,6)] obtain r lm' where
        IH: "read_chunks ops stop (of_nat (Suc i)) lm = Some (r, lm')"
        "\<And>b. r = Ret b \<Longrightarrow> mirror_inv base file lm' \<and> good (lm_blob lm') \<and> mirror_same lm lm' \<and>
           (\<forall>g < length base. valid_byte P (chunk_map lm) g \<longrightarrow> valid_byte P (chunk_map lm') g) \<and>
           (b \<longrightarrow> (\<forall>g. Suc i * P \<le> g \<and> g < unat stop \<longrightarrow> valid_byte P (chunk_map lm') g))" by blast
      have "valid_byte P (chunk_map lm) g" if "i * P \<le> g" "g < unat stop" "g < Suc i * P" for g
        using skipped_page_valid [of ?ps "chunk_map lm" i stop g] inv(10) False True upi that less.prems(6) by simp
      then have "\<forall>b. r = Ret b \<longrightarrow> b \<longrightarrow> (\<forall>g. i * P \<le> g \<and> g < unat stop \<longrightarrow> valid_byte P (chunk_map lm') g)"
        using IH(2) stop inv(5) by (metis less_le_trans not_le)
      with IH show ?thesis unfolding read_chunks_round(2) [OF ui less.prems(4) True i False] by blast
    next
      case fetch: True
      from less.prems(1-3,6) refl i less.prems(5) True fetch show ?thesis
      proof (cases rule: fetch_round)
        case (failed r lm')
        show ?thesis
        proof (cases "r = Ret False")
          case True
          with failed(1,3) show ?thesis by (intro exI [of _ r] exI [of _ lm']) simp
        next
          case False
          then have "r \<noteq> Ret b" for b using failed(2) by (cases b) simp_all
          with failed(1) show ?thesis by simp
        qed
      next
        case (fetched k lm1)
        have ps: "page_size lm1 = ?ps" "length (chunk_map lm1) = ?n" "blob_size lm1 = blob_size lm" "lm_version lm1 = lm_version lm"
          using fetched(6) by (simp_all add: mirror_same_def)
        have d: "length (chunk_map lm1) - k < ?n - i" "k \<le> length (chunk_map lm1)" using fetched(2,3) i ps(2) by simp_all
        have p: "lm_version lm1 = ver" "stop \<le> blob_size lm1" "P = unat (page_size lm1)" using less.prems(3,5,6) ps by simp_all
        from less.hyps [OF d(1) fetched(4,5) p(1) d(2) p(2,3)] obtain r lm' where
          IH: "read_chunks ops stop (of_nat k) lm1 = Some (r, lm')"
          "\<And>b. r = Ret b \<Longrightarrow> mirror_inv base file lm' \<and> good (lm_blob lm') \<and> mirror_same lm1 lm' \<and>
             (\<forall>g < length base. valid_byte P (chunk_map lm1) g \<longrightarrow> valid_byte P (chunk_map lm') g) \<and>
             (b \<longrightarrow> (\<forall>g. k * P \<le> g \<and> g < unat stop \<longrightarrow> valid_byte P (chunk_map lm') g))" by blast
        have more_valid: "valid_byte P (chunk_map lm') g" if "r = Ret b" "g < length base"
          "valid_byte P (chunk_map lm) g \<or> i * P \<le> g \<and> g < k * P" for b g
          using IH(2) [OF that(1)] fetched(7) [of g] that(2,3) inv(5) by simp
        have "valid_byte P (chunk_map lm') g" if "r = Ret True" "i * P \<le> g" "g < unat stop" for g
        proof (cases "g < k * P")
          case True
          then show ?thesis using more_valid [OF that(1), of g] that(2,3) stop inv(5) by simp
        next
          case False
          then show ?thesis using IH(2) [OF that(1)] that(3) by simp
        qed
        with IH more_valid fetched(1,6) show ?thesis
          by (intro exI [of _ r] exI [of _ lm']) (auto intro: mirror_same_trans)
      qed
    qed
  qed
qed

end

lemma mark_written_pages:
  assumes "fits ps n" "stop \<le> pw ps n" "i \<le> n" "length cm = n" "length wm = n"
  shows "\<exists>cm' wm'. mark_written ps stop (of_nat i) (cm, wm) = Some (Ret (cm', wm')) \<and> length cm' = n \<and> length wm' = n \<and>
    (\<forall>j < n. cm' ! j = (if i \<le> j \<and> pw ps j < stop then max (cm ! j) (min ps (stop - pw ps j)) else cm ! j) \<and>
       (wm' ! j \<longleftrightarrow> wm ! j \<or> i \<le> j \<and> pw ps j < stop))"
  using assms(3-5)
proof (induction "n - i" arbitrary: i cm wm)
  case 0
  then have "i = n" by simp
  moreover have "\<not> pw ps n < stop" using assms(2) by simp
  ultimately show ?case using 0 by (intro exI [of _ cm] exI [of _ wm]) (auto simp: mark_written.simps of_nat_pw)
next
  case (Suc d)
  have i: "i < n" using Suc.hyps(2) by linarith
  have ui: "unat (of_nat i :: u64) = i" by (rule fits_of_nat [OF assms(1) Suc.prems(1)])
  show ?case
  proof (cases "pw ps i < stop")
    case False
    have "\<not> pw ps j < stop" if "i \<le> j" "j < n" for j
      using pw_order(1) [OF assms(1), of i j] that False by (meson le_less_trans less_imp_le not_le order.trans)
    then show ?thesis using False Suc.prems by (intro exI [of _ cm] exI [of _ wm]) (auto simp: mark_written.simps of_nat_pw)
  next
    case True
    let ?gap = "min ps (stop - pw ps i)"
    let ?cm = "if cm ! i < ?gap then cm[i := ?gap] else cm" and ?wm = "wm[i := True]"
    have cm: "length ?cm = n" "\<And>j. j < n \<Longrightarrow> ?cm ! j = (if j = i then max (cm ! i) ?gap else cm ! j)"
      using Suc.prems(2) by (auto simp: nth_list_update max_def)
    have "length ?wm = n" using Suc.prems(3) by simp
    from Suc.hyps(1) [OF _ Suc_leI [OF i] cm(1) this] Suc.hyps(2) obtain cm' wm' where
      IH: "mark_written ps stop (of_nat (Suc i)) (?cm, ?wm) = Some (Ret (cm', wm'))" "length cm' = n" "length wm' = n"
      "\<forall>j < n. cm' ! j = (if Suc i \<le> j \<and> pw ps j < stop then max (?cm ! j) (min ps (stop - pw ps j)) else ?cm ! j) \<and>
         (wm' ! j \<longleftrightarrow> ?wm ! j \<or> Suc i \<le> j \<and> pw ps j < stop)" by fastforce
    have nle: "\<not> (length cm \<le> i \<or> length wm \<le> i)" using i Suc.prems by simp
    have "mark_written ps stop (of_nat i) (cm, wm) = mark_written ps stop (of_nat (Suc i)) (?cm, ?wm)"
      by (subst mark_written.simps, unfold prod.case Let_def of_nat_pw ui if_P [OF True] if_not_P [OF nle])
        (simp only: of_nat_Suc add.commute)
    moreover have "cm' ! j = (if i \<le> j \<and> pw ps j < stop then max (cm ! j) (min ps (stop - pw ps j)) else cm ! j) \<and>
         (wm' ! j \<longleftrightarrow> wm ! j \<or> i \<le> j \<and> pw ps j < stop)" if "j < n" for j
      using IH(4) that cm(2) [OF that] True Suc.prems(3) i by (cases "j = i") (auto simp: nth_list_update)
    ultimately show ?thesis using IH(1-3) by (intro exI [of _ cm'] exI [of _ wm']) simp
  qed
qed

lemma marked_valid:
  assumes "fits ps n" "P = unat ps" "g < n * P" "i \<le> n" "unat stop \<le> n * P"
    and "\<And>j. j < n \<Longrightarrow> cm' ! j = (if i \<le> j \<and> pw ps j < stop then max (cm ! j) (min ps (stop - pw ps j)) else cm ! j)"
  shows "valid_byte P cm' g \<longleftrightarrow> valid_byte P cm g \<or> i * P \<le> g \<and> g < unat stop"
proof -
  have P: "0 < P" using unat_ps_pos [OF assms(1)] assms(2) by simp
  let ?j = "g div P"
  have j: "?j < n" "?j * P \<le> g" "g < Suc ?j * P"
    using P assms(3) by (simp_all add: less_mult_imp_div_less div_times_less_eq_dividend dividend_less_div_times)
  note v = valid_byte_page [OF P j(2,3)]
  have up: "unat (pw ps ?j) = ?j * P" using unat_pw [OF assms(1), of ?j] j(1) assms(2) by simp
  have ij: "i \<le> ?j \<longleftrightarrow> i * P \<le> g" using P by (simp add: less_eq_div_iff_mult_less_eq)
  show ?thesis
  proof (cases "i \<le> ?j \<and> pw ps ?j < stop")
    case True
    then have "unat (min ps (stop - pw ps ?j)) = min P (unat stop - ?j * P)"
      using up by (auto simp: min_def word_le_nat_alt unat_sub_nowrap assms(2) word_less_nat_alt)
    then have "unat (cm' ! ?j) = max (unat (cm ! ?j)) (min P (unat stop - ?j * P))"
      using assms(6) [OF j(1)] True by (auto simp: max_def word_le_nat_alt)
    then show ?thesis using True v [of cm'] v [of cm] ij j up by (auto simp: word_less_nat_alt)
  next
    case False
    have "\<not> (i * P \<le> g \<and> g < unat stop)"
    proof
      assume g: "i * P \<le> g \<and> g < unat stop"
      then have "pw ps ?j < stop" using up j(2) unfolding word_less_nat_alt by linarith
      with g False ij show False by blast
    qed
    moreover have "cm' ! ?j = cm ! ?j" using assms(6) [OF j(1)] False by simp
    ultimately show ?thesis unfolding valid_byte_def by auto
  qed
qed

lemma slice_eqI:
  assumes "length xs = length ys" "\<And>g. a \<le> g \<Longrightarrow> g < a + z \<Longrightarrow> g < length xs \<Longrightarrow> xs ! g = ys ! g"
  shows "take z (drop a xs) = take z (drop a ys)"
  using assms by (intro nth_equalityI) auto

context blob_source
begin

lemma lm_read_right:
  assumes "mirror_inv base file lm" "good (lm_blob lm)" "lm_version lm = ver" "unat off + unat sz < 2 ^ 64"
  shows "\<exists>r lm'. lm_read ops sz off lm = Some (r, lm') \<and>
    (\<forall>k buf. r = Ret (k, buf) \<longrightarrow> mirror_inv base file lm' \<and> good (lm_blob lm') \<and> mirror_same lm lm' \<and>
       (\<forall>bytes. buf = Some bytes \<longrightarrow> unat k = min (unat sz) (length file - unat off) \<and> bytes = take (unat sz) (drop (unat off) file)))"
proof (cases "blob_size lm \<le> off")
  case True
  then show ?thesis using assms by (simp add: lm_read_def)
next
  case False
  let ?ps = "page_size lm" and ?n = "length (chunk_map lm)"
  define P where "P = unat ?ps"
  note inv = mirror_invD [OF assms(1) P_def refl]
  define z where "z = (if blob_size lm < off + sz then blob_size lm - off else sz)"
  have off: "unat off < ?n * P" using False inv(11) by (simp add: word_le_nat_alt)
  have s: "unat (off + sz) = unat off + unat sz" using assms(4) by (rule unat_add_nowrap)
  have z: "unat z = min (unat sz) (?n * P - unat off)"
    using False inv(11) s off by (auto simp: z_def unat_sub_nowrap word_less_nat_alt word_le_nat_alt)
  have oz: "unat (off + z) = unat off + unat z" using z assms(4) by (intro unat_add_nowrap) simp
  have stop: "off + z \<le> blob_size lm" using oz z off inv(11) by (simp add: word_le_nat_alt)
  let ?i = "unat off div P"
  have i: "?i \<le> ?n" using off inv(10) by (metis less_mult_imp_div_less less_imp_le)
  have idx: "off div ?ps = of_nat ?i" by (simp add: P_def word_arith_nat_div)
  from read_chunks_right [OF assms(1-3) i stop P_def] obtain r lm' where
    H: "read_chunks ops (off + z) (of_nat ?i) lm = Some (r, lm') \<and>
      (\<forall>b. r = Ret b \<longrightarrow> mirror_inv base file lm' \<and> good (lm_blob lm') \<and> mirror_same lm lm' \<and>
       (\<forall>g < length base. valid_byte P (chunk_map lm) g \<longrightarrow> valid_byte P (chunk_map lm') g) \<and>
       (b \<longrightarrow> (\<forall>g. ?i * P \<le> g \<and> g < unat (off + z) \<longrightarrow> valid_byte P (chunk_map lm') g)))" by (elim exE)
  note rc = H [THEN conjunct1] H [THEN conjunct2, rule_format]
  have eq: "lm_read ops sz off lm = (case Some (r, lm') of None \<Rightarrow> None
     | Some (Ret True, lm) \<Rightarrow> Some (Ret (z, Some (take (unat z) (drop (unat off) (mapping lm)))), lm)
     | Some (Ret False, lm) \<Rightarrow> Some (Ret (0, None), lm)
     | Some (Thr e, lm) \<Rightarrow> Some (Thr e, lm) | Some (Und e, lm) \<Rightarrow> Some (Und e, lm))"
    unfolding lm_read_def if_not_P [OF False] Let_def z_def [symmetric] idx rc(1) by (rule refl)
  show ?thesis
  proof (cases r)
    case (Ret b)
    show ?thesis
    proof (cases b)
      case True
      note ok = rc(2) [OF Ret]
      have ps: "page_size lm' = ?ps" "length (chunk_map lm') = ?n" using ok by (simp_all add: mirror_same_def)
      note inv' = mirror_invD [OF ok [THEN conjunct1] P_def [folded ps(1)] refl]
      have "take (unat z) (drop (unat off) (mapping lm')) = take (unat z) (drop (unat off) file)"
      proof (rule slice_eqI)
        fix g assume g: "unat off \<le> g" "g < unat off + unat z" "g < length (mapping lm')"
        have "?i * P \<le> g" using g(1) by (meson div_times_less_eq_dividend le_trans)
        then have "valid_byte P (chunk_map lm') g" using ok True g(2) oz by simp
        then show "mapping lm' ! g = file ! g" using inv'(4,8) g(3) by simp
      qed (use inv'(4,6) in simp)
      also have "\<dots> = take (unat sz) (drop (unat off) file)" using z inv(6) by (simp add: min_def)
      finally show ?thesis using eq Ret True ok z inv(6) by simp
    next
      case False
      then show ?thesis using eq Ret rc(2) [OF Ret] by simp
    qed
  qed (use eq in simp_all)
qed

text \<open>The mapping after the copy and the read of the gap before it, and the marked pages.\<close>

lemma written_inv:
  assumes "mirror_inv base file lm" "P = unat (page_size lm)" "n = length (chunk_map lm)" "i = unat off div P"
    and "unat off + length buf \<le> n * P" "unat stop = unat off + length buf"
    and "length m = n * P" "length cm' = n" "length wm' = n" "\<forall>c \<in> set cm'. unat c \<le> P"
    and "\<And>g. unat off \<le> g \<Longrightarrow> g < unat off + length buf \<Longrightarrow> m ! g = buf ! (g - unat off)"
    and "\<And>g. i * P + unat (chunk_map lm ! i) \<le> g \<Longrightarrow> g < unat off \<Longrightarrow> m ! g = base ! g"
    and "\<And>g. g < n * P \<Longrightarrow> \<not> (unat off \<le> g \<and> g < unat off + length buf) \<Longrightarrow>
           \<not> (i * P + unat (chunk_map lm ! i) \<le> g \<and> g < unat off) \<Longrightarrow> m ! g = mapping lm ! g"
    and "\<And>g. g < n * P \<Longrightarrow> valid_byte P cm' g \<longleftrightarrow> valid_byte P (chunk_map lm) g \<or> i * P \<le> g \<and> g < unat stop"
  shows "mirror_inv base (memory_write (unat off) buf file) (lm\<lparr>mapping := m, lm_blob := b, chunk_map := cm', written_map := wm'\<rparr>)"
proof -
  note inv = mirror_invD [OF assms(1-3)]
  let ?f = "memory_write (unat off) buf file"
  have fit: "unat off + length buf \<le> length file" using assms(5) inv(6) by simp
  have iP: "i * P \<le> unat off" "unat off < Suc i * P"
    using inv(10) by (simp_all add: assms(4) div_times_less_eq_dividend dividend_less_div_times)
  have "if valid_byte P cm' g then m ! g = ?f ! g else ?f ! g = base ! g" if g: "g < n * P" for g
  proof -
    have f: "?f ! g = (if unat off \<le> g \<and> g < unat off + length buf then buf ! (g - unat off) else file ! g)"
      by (rule nth_memory_write [OF fit]) (use g inv(6) in simp)
    consider (new) "unat off \<le> g" "g < unat off + length buf"
      | (gap) "i * P + unat (chunk_map lm ! i) \<le> g" "g < unat off"
      | (old) "\<not> (unat off \<le> g \<and> g < unat off + length buf)" "\<not> (i * P + unat (chunk_map lm ! i) \<le> g \<and> g < unat off)" by blast
    then show ?thesis
    proof cases
      case new
      have "i * P \<le> g" using iP(1) new(1) by simp
      then show ?thesis using f new assms(11) [OF new] assms(14) [OF g] assms(6) by simp
    next
      case gap
      then have "\<not> valid_byte P (chunk_map lm) g"
        using valid_byte_page [OF inv(10), of i g] iP by auto
      then have "file ! g = base ! g" by (rule inv(9) [OF g])
      then show ?thesis using f gap assms(12) [OF gap] by simp
    next
      case old
      have "valid_byte P (chunk_map lm) g" if "valid_byte P cm' g"
      proof (rule ccontr)
        assume nv: "\<not> valid_byte P (chunk_map lm) g"
        then have h: "i * P \<le> g" "g < unat stop" using that assms(14) [OF g] by simp_all
        then have "g < unat off" "g < Suc i * P" using old(1) assms(6) iP(2) by auto
        then have "valid_byte P (chunk_map lm) g" using old(2) valid_byte_page [OF inv(10) h(1), of "chunk_map lm"] by auto
        with nv show False by simp
      qed
      then show ?thesis using f old assms(13) [OF g old] inv(8,9) [OF g] assms(14) [OF g] by auto
    qed
  qed
  then show ?thesis
    unfolding mirror_inv_def Let_def using inv(1-6) assms(2,7-10) fit by (simp add: length_memory_write)
qed

text \<open>The read of the gap between the valid part of the first page and the written range.\<close>

lemma gap_filled:
  assumes "mirror_inv base file lm" "good (lm_blob lm)" "lm_version lm = ver" "P = unat (page_size lm)" "n = length (chunk_map lm)"
    and "i = unat off div P" "i < n" "unat off < n * P" "length m0 = n * P"
    and "(if pw (page_size lm) i + chunk_map lm ! i < off
          then fetch ops (pw (page_size lm) i + chunk_map lm ! i) (off - (pw (page_size lm) i + chunk_map lm ! i)) (lm\<lparr>mapping := m0\<rparr>)
          else (Ret True, lm\<lparr>mapping := m0\<rparr>)) = (Ret r, lm1)"
  shows "\<exists>m b. lm1 = lm\<lparr>mapping := m, lm_blob := b\<rparr> \<and> good b \<and> length m = n * P \<and>
    (\<forall>g < n * P. \<not> (i * P + unat (chunk_map lm ! i) \<le> g \<and> g < unat off) \<longrightarrow> m ! g = m0 ! g) \<and>
    (r \<longrightarrow> (\<forall>g. i * P + unat (chunk_map lm ! i) \<le> g \<and> g < unat off \<longrightarrow> m ! g = base ! g))"
proof -
  let ?ps = "page_size lm" let ?c = "chunk_map lm ! i" let ?gap = "pw ?ps i + ?c"
  note inv = mirror_invD [OF assms(1,4,5)]
  have up: "unat (pw ?ps i) = i * P" using unat_pw [OF inv(1), of i] assms(4,7) by simp
  have "i * P + unat ?c \<le> Suc i * P" using inv(7) [OF assms(7)] by simp
  also have "\<dots> \<le> n * P" using assms(7) by (intro mult_le_mono1) simp
  finally have gap: "unat ?gap = i * P + unat ?c"
    using inv(1) up by (intro trans [OF unat_add_nowrap]) (simp_all add: fits_def assms(4))
  show ?thesis
  proof (cases "?gap < off")
    case False
    have "\<not> (i * P + unat ?c \<le> g \<and> g < unat off)" for g using False gap by (simp add: word_less_nat_alt)
    moreover have "lm1 = lm\<lparr>mapping := m0, lm_blob := lm_blob lm\<rparr>" using assms(10) False by (cases lm) auto
    ultimately show ?thesis using assms(2,9) by (intro exI [of _ m0] exI [of _ "lm_blob lm"]) auto
  next
    case True
    have sz: "unat (off - ?gap) = unat off - (i * P + unat ?c)" using True gap by (simp add: unat_sub_nowrap)
    have lt: "i * P + unat ?c < unat off" using True gap by (simp add: word_less_nat_alt)
    have ends: "unat ?gap + unat (off - ?gap) = unat off" using gap sz lt by simp
    have pos: "0 < off - ?gap" using sz lt by (simp add: word_less_nat_alt)
    have fe: "fetch ops ?gap (off - ?gap) (lm\<lparr>mapping := m0\<rparr>) = (Ret r, lm1)" using assms(10) True by simp
    have "\<exists>m b. lm1 = lm\<lparr>mapping := m0\<rparr>\<lparr>mapping := m, lm_blob := b\<rparr> \<and> good b \<and> length m = length (mapping (lm\<lparr>mapping := m0\<rparr>)) \<and>
        (\<forall>g < length m. \<not> (unat ?gap \<le> g \<and> g < unat off) \<longrightarrow> m ! g = mapping (lm\<lparr>mapping := m0\<rparr>) ! g) \<and>
        (r \<longrightarrow> (\<forall>g. unat ?gap \<le> g \<and> g < unat off \<longrightarrow> m ! g = base ! g))"
      by (rule fetch_right [OF _ _ pos _ _ fe, unfolded ends]) (use assms(2,3,8,9) inv(5) in simp_all)
    then show ?thesis using assms(9) by (simp add: gap cong: conj_cong)
  qed
qed

text \<open>A write whose gap could not be read leaves its bytes where the mirror was valid.\<close>

lemma torn_inv:
  assumes "mirror_inv base file lm" "P = unat (page_size lm)" "n = length (chunk_map lm)" "i = unat off div P"
    and "unat off + length buf \<le> n * P" "length m = n * P"
    and "\<And>g. g < n * P \<Longrightarrow> \<not> (i * P + unat (chunk_map lm ! i) \<le> g \<and> g < unat off) \<Longrightarrow>
           m ! g = (if unat off \<le> g \<and> g < unat off + length buf then buf ! (g - unat off) else mapping lm ! g)"
  shows "mirror_inv base (torn_write (unat off) buf lm file) (lm\<lparr>mapping := m, lm_blob := b\<rparr>)"
proof -
  note inv = mirror_invD [OF assms(1-3)]
  let ?f = "torn_write (unat off) buf lm file"
  have iP: "i * P \<le> unat off" "unat off < Suc i * P"
    using inv(10) by (simp_all add: assms(4) div_times_less_eq_dividend dividend_less_div_times)
  have f: "?f ! g = (if unat off \<le> g \<and> g < unat off + length buf \<and> valid_byte P (chunk_map lm) g then buf ! (g - unat off) else file ! g)"
    if "g < n * P" for g using that assms(5) inv(6) by (simp add: torn_write_def assms(2))
  have gap: "\<not> valid_byte P (chunk_map lm) g" if "i * P + unat (chunk_map lm ! i) \<le> g" "g < unat off" for g
    using valid_byte_page [OF inv(10), of i g] iP that by auto
  have "if valid_byte P (chunk_map lm) g then m ! g = ?f ! g else ?f ! g = base ! g" if g: "g < n * P" for g
    using f [OF g] assms(7) [OF g] gap [of g] inv(8,9) [OF g] by (cases "i * P + unat (chunk_map lm ! i) \<le> g \<and> g < unat off") auto
  then show ?thesis
    unfolding mirror_inv_def Let_def using inv(1-6) assms(1-3,6) by (simp add: mirror_inv_def Let_def)
qed

lemma lm_write_right:
  assumes "mirror_inv base file lm" "good (lm_blob lm)" "lm_version lm = ver"
    and "unat off + unat sz < 2 ^ 64" "0 < sz" "length buf = unat sz"
  shows "\<exists>r lm'. lm_write ops sz off buf lm = Some (r, lm') \<and>
    (\<forall>k. r = Ret k \<and> k \<noteq> 0 \<longrightarrow> k = sz \<and> mirror_inv base (memory_write (unat off) buf file) lm' \<and> good (lm_blob lm') \<and> mirror_same lm lm') \<and>
    (r = Ret 0 \<longrightarrow> mirror_inv base (torn_write (unat off) buf lm file) lm' \<and> good (lm_blob lm') \<and> mirror_same lm lm')"
proof (cases "blob_size lm < off + sz")
  case True
  have "unat (blob_size lm) = length file" using mirror_invD(6,11) [OF assms(1) refl refl] by simp
  then have "length file < unat off + length buf" using True assms(4,6) by (simp add: word_less_nat_alt unat_add_nowrap)
  then have "torn_write (unat off) buf lm file = file" by (simp add: torn_write_def)
  then show ?thesis using True assms(1,2,5) by (auto simp: lm_write_def word_gt_0)
next
  case False
  let ?ps = "page_size lm"
  define P n where "P = unat ?ps" and "n = length (chunk_map lm)"
  note inv = mirror_invD [OF assms(1) P_def n_def]
  have s: "unat (off + sz) = unat off + length buf" using assms(4,6) unat_add_nowrap by simp
  have fit: "unat off + length buf \<le> n * P" using False s inv(11) by (simp add: word_less_nat_alt)
  have stop: "off + sz \<le> pw ?ps n" using False inv(2) by simp
  define i where "i = unat off div P"
  have off: "unat off < n * P" using fit assms(5,6) by (simp add: word_less_nat_alt)
  then have i: "i < n" by (simp add: i_def less_mult_imp_div_less)
  have idx: "off div ?ps = of_nat i" by (simp add: i_def P_def word_arith_nat_div)
  have ui: "unat (of_nat i :: u64) = i" using fits_of_nat [OF inv(1)] i by simp
  define m0 where "m0 = memory_write (unat off) (take (unat sz) buf) (mapping lm)"
  have tb: "take (unat sz) buf = buf" using assms(6) by simp
  have m0: "length m0 = n * P" "\<And>g. g < n * P \<Longrightarrow> m0 ! g = (if unat off \<le> g \<and> g < unat off + length buf then buf ! (g - unat off) else mapping lm ! g)"
    using fit inv(4) nth_memory_write [of "unat off" buf "mapping lm"] by (simp_all add: m0_def tb length_memory_write)
  obtain r lm1 where gap: "(if pw ?ps i + chunk_map lm ! i < off
          then fetch ops (pw ?ps i + chunk_map lm ! i) (off - (pw ?ps i + chunk_map lm ! i)) (lm\<lparr>mapping := m0\<rparr>)
          else (Ret True, lm\<lparr>mapping := m0\<rparr>)) = (r, lm1)" by (metis surj_pair)
  obtain cm' wm' where mark: "mark_written ?ps (off + sz) (of_nat i) (chunk_map lm, written_map lm) = Some (Ret (cm', wm'))"
    "length cm' = n" "length wm' = n"
    "\<forall>j < n. cm' ! j = (if i \<le> j \<and> pw ?ps j < off + sz then max (chunk_map lm ! j) (min ?ps (off + sz - pw ?ps j)) else chunk_map lm ! j) \<and>
       (wm' ! j \<longleftrightarrow> written_map lm ! j \<or> i \<le> j \<and> pw ?ps j < off + sz)"
    using mark_written_pages [OF inv(1) stop less_imp_le [OF i] n_def [symmetric] inv(3)] by blast
  have nle: "\<not> length (mapping lm) < unat off + unat sz" "\<not> length (chunk_map lm) \<le> i" using fit inv(4) assms(6) i n_def by simp_all
  have upd: "page_size (lm\<lparr>mapping := m0\<rparr>) = ?ps" "chunk_map (lm\<lparr>mapping := m0\<rparr>) = chunk_map lm" by simp_all
  have eq: "lm_write ops sz off buf lm = (case r of
       Ret True \<Rightarrow> (case mark_written (page_size lm1) (off + sz) (of_nat i) (chunk_map lm1, written_map lm1) of
             None \<Rightarrow> None
           | Some (Ret (cm, wm)) \<Rightarrow> Some (Ret sz, lm1\<lparr>chunk_map := cm, written_map := wm\<rparr>)
           | Some (Thr e) \<Rightarrow> Some (Thr e, lm1) | Some (Und e) \<Rightarrow> Some (Und e, lm1))
     | Ret False \<Rightarrow> Some (Ret 0, lm1) | Thr e \<Rightarrow> Some (Thr e, lm1) | Und e \<Rightarrow> Some (Und e, lm1))"
    unfolding lm_write_def if_not_P [OF False] if_not_P [OF nle(1)] Let_def m0_def [symmetric] upd idx ui of_nat_pw if_not_P [OF nle(2)] gap
    by (rule prod.case)
  show ?thesis
  proof (cases "\<exists>b. r = Ret b")
    case False
    then show ?thesis unfolding eq by (auto split: res.splits)
  next
    case True
    then obtain ok where ok: "r = Ret ok" ..
    let ?G = "\<lambda>m b. lm1 = lm\<lparr>mapping := m, lm_blob := b\<rparr> \<and> good b \<and> length m = n * P \<and>
      (\<forall>g < n * P. \<not> (i * P + unat (chunk_map lm ! i) \<le> g \<and> g < unat off) \<longrightarrow> m ! g = m0 ! g) \<and>
      (ok \<longrightarrow> (\<forall>g. i * P + unat (chunk_map lm ! i) \<le> g \<and> g < unat off \<longrightarrow> m ! g = base ! g))"
    have "\<exists>m b. ?G m b" by (rule gap_filled [OF assms(1-3) P_def n_def i_def i off m0(1) gap [unfolded ok]])
    then obtain m where "\<exists>b. ?G m b" by (rule exE)
    then obtain b where G: "?G m b" by (rule exE)
    show ?thesis
    proof (cases ok)
      case False
      have "mirror_inv base (torn_write (unat off) buf lm file) (lm\<lparr>mapping := m, lm_blob := b\<rparr>)"
        by (rule torn_inv [OF assms(1) P_def n_def i_def fit]) (use G m0(2) in simp_all)
      moreover have "lm_write ops sz off buf lm = Some (Ret 0, lm1)" unfolding eq ok using False by simp
      ultimately show ?thesis using G by (simp add: mirror_same_def)
    next
      case True
      have lm1: "lm1 = lm\<lparr>mapping := m, lm_blob := b\<rparr>" using G by (rule conjunct1)
      let ?lm = "lm\<lparr>mapping := m, lm_blob := b, chunk_map := cm', written_map := wm'\<rparr>"
      have "mirror_inv base (memory_write (unat off) buf file) ?lm"
      proof (rule written_inv [OF assms(1) P_def n_def i_def fit s _ mark(2,3)])
        show "length m = n * P" using G by simp
        show "\<forall>c \<in> set cm'. unat c \<le> P"
        proof
          fix c assume "c \<in> set cm'"
          then obtain j where j: "j < n" "c = cm' ! j" using mark(2) by (auto simp: in_set_conv_nth)
          then have "c \<le> max (chunk_map lm ! j) ?ps" using mark(4) by (auto simp: max_def min_def split: if_splits)
          then show "unat c \<le> P" using inv(7) [OF j(1)] by (auto simp: P_def word_le_nat_alt max_def split: if_splits)
        qed
        show "m ! g = buf ! (g - unat off)" if "unat off \<le> g" "g < unat off + length buf" for g
        proof -
          have "g < n * P" using that fit by linarith
          then show ?thesis using G m0(2) [of g] that by auto
        qed
        show "m ! g = base ! g" if "i * P + unat (chunk_map lm ! i) \<le> g" "g < unat off" for g using G that True by blast
        show "m ! g = mapping lm ! g" if "g < n * P" "\<not> (unat off \<le> g \<and> g < unat off + length buf)"
          "\<not> (i * P + unat (chunk_map lm ! i) \<le> g \<and> g < unat off)" for g
          using G m0(2) [of g] that by auto
        show "valid_byte P cm' g \<longleftrightarrow> valid_byte P (chunk_map lm) g \<or> i * P \<le> g \<and> g < unat (off + sz)" if "g < n * P" for g
          by (rule marked_valid [OF inv(1) P_def that less_imp_le [OF i]]) (use s fit mark(4) in simp_all)
      qed
      moreover have "lm_write ops sz off buf lm = Some (Ret sz, ?lm)" unfolding eq ok by (simp add: True lm1 mark(1))
      moreover have "good (lm_blob ?lm)" "mirror_same lm ?lm" using G mark(2) n_def by (simp_all add: mirror_same_def)
      ultimately show ?thesis using assms(5) by (simp add: word_gt_0)
    qed
  qed
qed

end

end
