(* ===== verification/Mirror_Use.thy ===== *)
theory Mirror_Use
  imports Mirror_File
begin

text \<open>
  Commits of a mirror, the object handler as the handle on the blob, and mirrors in use: what a mirror
  returns after any reads, writes and reopenings.
\<close>

section \<open>Commits\<close>

lemma ucast_of_nat_pw: "i < 2 ^ 32 \<Longrightarrow> ucast (of_nat i :: u32) * ps = pw ps i"
proof -
  assume "i < 2 ^ 32"
  then have "(ucast (of_nat i :: u32) :: u64) = of_nat i" by (simp add: word_unat_eq_iff unat_ucast_u32 unat_of_nat)
  then show ?thesis by (simp only: pw_def)
qed

lemma nth_clear_run: "j < length wm \<Longrightarrow> clear_run a b wm ! j \<longleftrightarrow> wm ! j \<and> \<not> (a \<le> j \<and> j < b)"
  by (simp add: clear_run_def)

lemma length_clear_run [simp]: "length (clear_run a b wm) = length wm"
  by (simp add: clear_run_def)

lemma commit_stop_pages:
  assumes "fits ps n" "n < 2 ^ 32" "length wm = n" "i \<le> n"
  shows "\<exists>r. commit_stop ps (pw ps n) wm (of_nat i) = Some r \<and> (\<forall>e. r \<noteq> Thr e) \<and>
    (\<forall>s. r = Ret s \<longrightarrow> (\<exists>k. s = of_nat k \<and> i \<le> k \<and> k < n \<and> \<not> wm ! k \<and> (\<forall>j. i \<le> j \<and> j < k \<longrightarrow> wm ! j)))"
  using assms(4)
proof (induction "n - i" arbitrary: i)
  case 0
  then have "n \<le> unat (of_nat i :: u32)" using assms(2) by (simp add: unat_of_nat)
  then show ?case using assms(3) by (subst commit_stop.simps) simp
next
  case (Suc d)
  have i: "i < n" using Suc.hyps(2) by linarith
  have ui: "unat (of_nat i :: u32) = i" using i assms(2) by (simp add: unat_of_nat)
  have uc: "ucast (of_nat i :: u32) * ps = pw ps i" using i assms(2) by (intro ucast_of_nat_pw) simp
  have lt: "pw ps i < pw ps n" using pw_order(2) [OF assms(1), of i n] i by simp
  show ?case
  proof (cases "wm ! i")
    case False
    then show ?thesis using i ui assms(3) by (subst commit_stop.simps) auto
  next
    case True
    have "commit_stop ps (pw ps n) wm (of_nat i) = commit_stop ps (pw ps n) wm (of_nat (Suc i))"
      using True i ui uc lt assms(3) by (subst commit_stop.simps) (simp add: add.commute)
    moreover from Suc.hyps(1) [of "Suc i"] Suc.hyps(2) i obtain r where r: "commit_stop ps (pw ps n) wm (of_nat (Suc i)) = Some r"
      "\<forall>e. r \<noteq> Thr e" "\<forall>s. r = Ret s \<longrightarrow> (\<exists>k. s = of_nat k \<and> Suc i \<le> k \<and> k < n \<and> \<not> wm ! k \<and> (\<forall>j. Suc i \<le> j \<and> j < k \<longrightarrow> wm ! j))" by fastforce
    moreover have "\<exists>k. s = of_nat k \<and> i \<le> k \<and> k < n \<and> \<not> wm ! k \<and> (\<forall>j. i \<le> j \<and> j < k \<longrightarrow> wm ! j)" if "r = Ret s" for s
    proof -
      from r(3) that obtain k where k: "s = of_nat k" "Suc i \<le> k" "k < n" "\<not> wm ! k" "\<forall>j. Suc i \<le> j \<and> j < k \<longrightarrow> wm ! j" by blast
      have "wm ! j" if "i \<le> j" "j < k" for j using k(5) True that by (cases "j = i") auto
      with k show ?thesis by (intro exI [of _ k]) auto
    qed
    ultimately show ?thesis by simp
  qed
qed

text \<open>
  A commit ends; if it succeeds no page is marked any more; it never succeeds if the last page is marked.
\<close>

lemma commit_runs_result:
  assumes "mirror_inv base file lm" "n = length (chunk_map lm)" "n + 1 < 2 ^ 32" "i \<le> n" "\<forall>j < i. \<not> written_map lm ! j"
  shows "\<exists>r lm'. commit_runs ops (of_nat i) lm = Some (r, lm') \<and>
    (r = Ret True \<longrightarrow> True \<notin> set (written_map lm') \<and> mapping lm' = mapping lm \<and> chunk_map lm' = chunk_map lm) \<and>
    (i < n \<and> written_map lm ! (n - 1) \<longrightarrow> r \<noteq> Ret True)"
  using assms
proof (induction "n - i" arbitrary: i lm rule: less_induct)
  case less
  let ?ps = "page_size lm" and ?wm = "written_map lm"
  note inv = mirror_invD [OF less.prems(1) refl less.prems(2)]
  have un: "unat (of_nat k :: u32) = k" if "k \<le> n" for k using that less.prems(3) by (simp add: unat_of_nat)
  have uc: "ucast (of_nat k :: u32) * ?ps = pw ?ps k" if "k \<le> n" for k using that less.prems(3) by (intro ucast_of_nat_pw) simp
  show ?case
  proof (cases "i < n")
    case False
    then have "i = n" using less.prems(4) by simp
    then have "True \<notin> set ?wm" using less.prems(5) inv(3) by (auto simp: in_set_conv_nth)
    moreover have "commit_runs ops (of_nat i) lm = Some (Ret True, lm)"
      using \<open>i = n\<close> inv(2) uc [of n] by (subst commit_runs.simps) simp
    ultimately show ?thesis using False by simp
  next
    case i: True
    have lt: "pw ?ps i < blob_size lm" using pw_order(2) [OF inv(1), of i n] i inv(2) by simp
    have nle: "\<not> length ?wm \<le> i" using i inv(3) by simp
    have uci: "ucast (of_nat i :: u32) * ?ps = pw ?ps i" and uni: "unat (of_nat i :: u32) = i" using uc un i by simp_all
    show ?thesis
    proof (cases "?wm ! i")
      case False
      have "commit_runs ops (of_nat i) lm = commit_runs ops (of_nat (Suc i)) lm"
        by (subst commit_runs.simps, unfold Let_def uci uni if_P [OF lt] if_not_P [OF nle] if_not_P [OF False])
          (simp only: of_nat_Suc add.commute)
      moreover have "\<forall>j < Suc i. \<not> ?wm ! j" using less.prems(5) False less_Suc_eq by auto
      moreover have "i < n \<and> ?wm ! (n - 1) \<longrightarrow> Suc i < n" using False i by (cases "Suc i = n") auto
      ultimately show ?thesis using less.hyps [of "Suc i" lm] less.prems(1-3) i by (metis Suc_leI diff_less_mono2 lessI)
    next
      case marked: True
      obtain r where r: "commit_stop ?ps (blob_size lm) ?wm (of_nat (Suc i)) = Some r" "\<forall>e. r \<noteq> Thr e"
        "\<forall>s. r = Ret s \<longrightarrow> (\<exists>k. s = of_nat k \<and> Suc i \<le> k \<and> k < n \<and> \<not> ?wm ! k \<and> (\<forall>j. Suc i \<le> j \<and> j < k \<longrightarrow> ?wm ! j))"
        using commit_stop_pages [OF inv(1) _ inv(3), of "Suc i"] less.prems(3) i inv(2) by auto
      have s1: "of_nat i + 1 = (of_nat (Suc i) :: u32)" by simp
      note unfold_step = Let_def uci uni if_P [OF lt] if_not_P [OF nle] if_P [OF marked] s1 r(1) option.case
      show ?thesis
      proof (cases r)
        case (Und e)
        have "commit_runs ops (of_nat i) lm = Some (Und e, lm)"
          by (subst commit_runs.simps, unfold unfold_step Und res.case) (rule refl)
        then show ?thesis by simp
      next
        case (Ret s)
        then obtain k where k: "s = of_nat k" "Suc i \<le> k" "k < n" "\<not> ?wm ! k" "\<forall>j. Suc i \<le> j \<and> j < k \<longrightarrow> ?wm ! j" using r(3) by blast
        let ?off = "pw ?ps i" let ?sz = "ucast (s - of_nat i) * ?ps"
        obtain w b where w: "bo_write ops ?off ?sz (take (unat ?sz) (drop (unat ?off) (mapping lm))) (lm_blob lm) = (w, b)" by (metis surj_pair)
        let ?lm = "lm\<lparr>lm_blob := b, written_map := clear_run i k ?wm\<rparr>"
        have uk: "unat s = k" using k(1,3) un [of k] by simp
        have step: "commit_runs ops (of_nat i) lm = (if length (mapping lm) < unat ?off + unat ?sz then Some (Und ''mapping'', lm)
            else if w \<noteq> Ret True then Some (w, lm\<lparr>lm_blob := b\<rparr>) else commit_runs ops (of_nat (Suc k)) ?lm)"
          by (subst commit_runs.simps, unfold unfold_step Ret res.case uk w prod.case) (simp only: k(1) of_nat_Suc add.commute)
        have inv2: "mirror_inv base file ?lm" using less.prems(1) by (simp add: mirror_inv_def Let_def)
        have n2: "n = length (chunk_map ?lm)" using less.prems(2) by simp
        have "\<forall>j < Suc k. \<not> written_map ?lm ! j"
          using less.prems(5) k(3,4) inv(3) by (auto simp: nth_clear_run less_Suc_eq) (metis not_le)
        have d: "n - Suc k < n - i" "Suc k \<le> n" using k(2,3) by simp_all
        from less.hyps [OF d(1) inv2 n2 less.prems(3) d(2) \<open>\<forall>j < Suc k. \<not> written_map ?lm ! j\<close>] obtain r' lm' where
          IH: "commit_runs ops (of_nat (Suc k)) ?lm = Some (r', lm')"
          "r' = Ret True \<longrightarrow> True \<notin> set (written_map lm') \<and> mapping lm' = mapping ?lm \<and> chunk_map lm' = chunk_map ?lm"
          "Suc k < n \<and> written_map ?lm ! (n - 1) \<longrightarrow> r' \<noteq> Ret True" by blast
        have "Suc k < n \<and> written_map ?lm ! (n - 1)" if "?wm ! (n - 1)"
        proof -
          have "k \<noteq> n - 1" using k(4) that by blast
          then have "Suc k < n" using k(3) by linarith
          then show ?thesis using that inv(3) by (auto simp: nth_clear_run)
        qed
        with IH show ?thesis unfolding step by auto
      qed (use r(2) in simp)
    qed
  qed
qed

section \<open>The object handler as the source of a mirror\<close>

text \<open>
  The handler is good for a version with the bytes \<open>base\<close> if, whatever it has done before, it works on
  the root of the version whenever it gets a root, and the metadata it then reads names pages that
  honest providers hold. The handlers of \<open>H\<close> are those that can be met.
\<close>

definition handler_good :: "archive \<Rightarrow> env \<Rightarrow> u32 \<Rightarrow> buffer \<Rightarrow> object_handler \<times> oh_log \<Rightarrow> bool" where
  "handler_good ar env ver base s \<longleftrightarrow>
     (\<exists>root data H. fst s \<in> H \<and>
        (\<forall>oh \<in> H. \<forall>log. case query_root_of ar env ver oh log of (ok, root', oh', log') \<Rightarrow> oh' \<in> H \<and> (ok \<longrightarrow> root' = root)) \<and>
        partial_checked env \<and> (\<forall>p. length (data p) = unat (rt_page_size root)) \<and>
        (\<forall>off sz. 0 < sz \<and> unat off + unat sz \<le> length base \<longrightarrow> read_fits (rt_page_size root) off sz \<and>
           take (unat sz) (drop (unat off) base) =
             take (unat sz) (drop (unat off) (concat (map data [0..<stop_page (rt_page_size root) off sz]))) \<and>
           (\<forall>log vadv. read_metadata ar env root off sz log = Some (True, vadv) \<longrightarrow>
              honest_pages ar env (rt_page_size root) vadv
                (map data [first_page (rt_page_size root) off..<stop_page (rt_page_size root) off sz]))))"

lemma read_pages_length:
  assumes "read_setting ar env psize offset sz pages s0" "read_pages ar env psize offset sz s0 = (Ret b, mem, log)"
  shows "length mem = length (ps_memory s0)"
  using assms(1)
proof (cases rule: read_pages_staged)
  case (early s1)
  with assms(2) show ?thesis by simp
next
  case (run s1)
  from run_pages_total [OF setting_tiling [OF assms(1)] staged_pages_inv [OF run(2) settingD(3,10,8) [OF assms(1)]]]
  obtain s' where "run_pages env s1 = Some s'" "length (ps_memory s') = unat sz" by (auto simp: pages_inv_def)
  with run(1) assms(2) settingD(10) [OF assms(1)] show ?thesis by (auto simp: run_read_def split: if_splits)
qed

lemma oh_read_ret:
  assumes "oh_read ar env offset sz mem version oh log = (Ret b, mem', oh', log')"
  obtains (early) "mem' = mem" "\<not> b" "\<exists>ok root log1. query_root_of ar env version oh log = (ok, root, oh', log1)"
  | (run) root log1 vadv where "query_root_of ar env version oh log = (True, root, oh', log1)"
    "read_metadata ar env root offset sz log1 = Some (True, vadv)"
    "read_pages ar env (rt_page_size root) offset sz (first_state vadv mem log1) = (Ret b, mem', log')"
  using assms by (auto simp: oh_read_def first_state_def split: prod.splits if_splits option.splits bool.splits)

lemma handler_read_right:
  assumes "handler_good ar env ver base s" "bo_read (handler_ops ar env) off sz mem ver s = (Ret r, mem', s')" "0 < sz"
    and "unat off + unat sz \<le> length base" "length mem = unat sz"
  shows "handler_good ar env ver base s' \<and> length mem' = length mem \<and> (r \<longrightarrow> mem' = take (unat sz) (drop (unat off) base))"
proof -
  obtain oh log oh' log' where s: "s = (oh, log)" "s' = (oh', log')" by (metis surj_pair)
  have rd: "oh_read ar env off sz mem ver oh log = (Ret r, mem', oh', log')" using assms(2) by (simp add: handler_ops_def s)
  from assms(1) obtain root data H where H: "oh \<in> H"
    and q: "\<forall>oh \<in> H. \<forall>log. case query_root_of ar env ver oh log of (ok, root', oh', log') \<Rightarrow> oh' \<in> H \<and> (ok \<longrightarrow> root' = root)"
    and d: "partial_checked env" "\<forall>p. length (data p) = unat (rt_page_size root)"
    and m: "\<forall>off sz. 0 < sz \<and> unat off + unat sz \<le> length base \<longrightarrow> read_fits (rt_page_size root) off sz \<and>
           take (unat sz) (drop (unat off) base) =
             take (unat sz) (drop (unat off) (concat (map data [0..<stop_page (rt_page_size root) off sz]))) \<and>
           (\<forall>log vadv. read_metadata ar env root off sz log = Some (True, vadv) \<longrightarrow>
              honest_pages ar env (rt_page_size root) vadv
                (map data [first_page (rt_page_size root) off..<stop_page (rt_page_size root) off sz]))"
    unfolding handler_good_def s fst_conv by (elim exE conjE) (rule that)
  have fits: "read_fits (rt_page_size root) off sz" using m assms(3,4) by blast
  have good: "handler_good ar env ver base s'" if "oh' \<in> H"
    unfolding handler_good_def s fst_conv using that q d m by (intro exI [of _ root] exI [of _ data] exI [of _ H] conjI)
  from rd show ?thesis
  proof (cases rule: oh_read_ret)
    case early
    then have "oh' \<in> H" using q H by (fastforce split: prod.splits)
    with good early show ?thesis by simp
  next
    case (run root' log1 vadv)
    have "case query_root_of ar env ver oh log of (ok, root', oh', log') \<Rightarrow> oh' \<in> H \<and> (ok \<longrightarrow> root' = root)" by (rule q [rule_format, OF H])
    then have oh': "oh' \<in> H" "root' = root" using run(1) by simp_all
    let ?pages = "map data [first_page (rt_page_size root) off..<stop_page (rt_page_size root) off sz]"
    have hp: "honest_pages ar env (rt_page_size root) vadv ?pages" using m assms(3,4) run(2) oh'(2) by blast
    note set = honest_setting [OF hp fits run(2) [unfolded oh'(2)] assms(5)]
    have len: "length mem' = length mem" using read_pages_length [OF set run(3) [unfolded oh'(2)]] by (simp add: first_state_def)
    have "mem' = take (unat sz) (drop (unat off) base)" if r
    proof -
      note pr = pages_of_range [OF fits]
      have "mem' = take (unat sz) (drop (page_off (rt_page_size root) off) (concat ?pages))"
        using read_pages_right [OF set] run(3) oh'(2) that by simp
      also have "\<dots> = take (unat sz) (drop (unat off) (concat (map data [0..<stop_page (rt_page_size root) off sz])))"
        using drop_whole_pages [OF d(2), of "first_page (rt_page_size root) off" "stop_page (rt_page_size root) off sz" "page_off (rt_page_size root) off"] pr(1,2) by simp
      also have "\<dots> = take (unat sz) (drop (unat off) base)" using m assms(3,4) by simp
      finally show ?thesis .
    qed
    with good [OF oh'(1)] len show ?thesis by simp
  qed
qed

interpretation handler: blob_source "handler_ops ar env" base ver "handler_good ar env ver base" for ar env base ver
  by unfold_locales (rule handler_read_right)

section \<open>Mirrors in use\<close>

text \<open>
  The states of a mirror of a version with the bytes \<open>base\<close>, with the file it stands for: it is opened
  on a new local file, read and written, closed and opened again. Reads and writes may fail. (An
  exception of the handle leaves the operation and, in the file system, ends the process.)
\<close>

inductive mirror_reach ::
  "archive \<Rightarrow> env \<Rightarrow> buffer \<Rightarrow> buffer \<Rightarrow> (object_handler \<times> oh_log) local_mirror_t \<Rightarrow> bool" for ar env base where
  opened: "mirror_reach ar env base base lm"
    if "local_mirror_new (handler_ops ar env) True file0 None b v = (Ret lm, b')" "handler_good ar env v base b'"
      "fits (page_size lm) n" "blob_size lm = pw (page_size lm) n" "length base = n * unat (page_size lm)"
| read_done: "mirror_reach ar env base file lm'"
    if "mirror_reach ar env base file lm" "lm_read (handler_ops ar env) sz off lm = Some (Ret x, lm')" "unat off + unat sz < 2 ^ 64"
| written: "mirror_reach ar env base (memory_write (unat off) buf file) lm'"
    if "mirror_reach ar env base file lm" "lm_write (handler_ops ar env) sz off buf lm = Some (Ret k, lm')" "k \<noteq> 0"
      "unat off + unat sz < 2 ^ 64" "0 < sz" "length buf = unat sz"
| not_written: "mirror_reach ar env base (torn_write (unat off) buf lm file) lm'"
    if "mirror_reach ar env base file lm" "lm_write (handler_ops ar env) sz off buf lm = Some (Ret 0, lm')"
      "unat off + unat sz < 2 ^ 64" "0 < sz" "length buf = unat sz"
| reopened: "mirror_reach ar env base file lm'"
    if "mirror_reach ar env base file lm"
      "local_mirror_new (handler_ops ar env) True (mapping lm) (Some (lm_index lm)) b (lm_version lm) = (Ret lm', b')"
      "handler_good ar env (lm_version lm) base b'" "page_size lm' = page_size lm" "blob_size lm' = blob_size lm"

lemma local_mirror_newD:
  assumes "local_mirror_new ops ok file0 idx b v = (Ret lm, b')"
  shows "lm_version lm = v" "mapping lm = take (unat (blob_size lm)) (adjust_file (blob_size lm) file0)" "lm_blob lm = b'" "page_size lm \<noteq> 0"
    "idx = None \<Longrightarrow> chunk_map lm = replicate (unat (blob_size lm div page_size lm)) 0 \<and> written_map lm = replicate (unat (blob_size lm div page_size lm)) False"
    "idx = Some (cm, wm) \<Longrightarrow> chunk_map lm = cm \<and> written_map lm = wm"
  using assms by (auto simp: local_mirror_new_def Let_def split: prod.splits if_splits option.splits)

lemma length_adjust_file: "unat bsize \<le> length (adjust_file bsize bytes)"
  by (auto simp: adjust_file_def)

lemma new_mirror_inv:
  assumes "chunk_map lm = replicate (unat (blob_size lm div page_size lm)) 0" "written_map lm = replicate (unat (blob_size lm div page_size lm)) False"
    and "length (mapping lm) = length base" "fits (page_size lm) n" "blob_size lm = pw (page_size lm) n" "length base = n * unat (page_size lm)"
  shows "mirror_inv base base lm"
proof -
  have "unat (blob_size lm div page_size lm) = n"
    using pw_div_ps [OF assms(4) le_refl] fits_of_nat [OF assms(4) le_refl] assms(5) by simp
  moreover have "g div unat (page_size lm) < n" if "g < n * unat (page_size lm)" for g
    using that by (simp add: less_mult_imp_div_less)
  ultimately show ?thesis using assms by (simp add: mirror_inv_def Let_def valid_byte_def)
qed

lemma mirror_reach_inv:
  "mirror_reach ar env base file lm \<Longrightarrow> mirror_inv base file lm \<and> handler_good ar env (lm_version lm) base (lm_blob lm)"
proof (induction rule: mirror_reach.induct)
  case (opened file0 b v lm b' n)
  note d = local_mirror_newD [OF opened(1)]
  have "length (mapping lm) = length base"
    using d(2) opened(4,5) unat_pw [OF opened(3) le_refl] length_adjust_file [of "blob_size lm" file0] by (simp add: min_absorb2)
  then have "mirror_inv base base lm" using d(5) opened(3-5) by (intro new_mirror_inv [of lm base n]) simp_all
  then show ?case using d(1,3) opened(2) by simp
next
  case (read_done f lm sz off x lm')
  obtain k buf where x: "x = (k, buf)" by (metis surj_pair)
  have "mirror_inv base f lm' \<and> handler_good ar env (lm_version lm) base (lm_blob lm') \<and> mirror_same lm lm'"
    using handler.lm_read_right [OF _ _ refl read_done(3), of base f lm ar env] read_done(2,4) x by force
  then show ?case by (simp add: mirror_same_def)
next
  case (written f lm sz off buf k lm')
  have "mirror_inv base (memory_write (unat off) buf f) lm' \<and> handler_good ar env (lm_version lm) base (lm_blob lm') \<and> mirror_same lm lm'"
    using handler.lm_write_right [OF _ _ refl written(4-6), of base f lm ar env] written(2,3,7) by force
  then show ?case by (simp add: mirror_same_def)
next
  case (not_written f lm sz off buf lm')
  have "mirror_inv base (torn_write (unat off) buf lm f) lm' \<and> handler_good ar env (lm_version lm) base (lm_blob lm') \<and> mirror_same lm lm'"
    using handler.lm_write_right [OF _ _ refl not_written(3-5), of base f lm ar env] not_written(2,6) by force
  then show ?case by (simp add: mirror_same_def)
next
  case (reopened f lm b lm' b')
  note d = local_mirror_newD [OF reopened(2)]
  have "chunk_map lm' = chunk_map lm" "written_map lm' = written_map lm" using d(6) by (simp_all add: lm_index_def)
  moreover have "mapping lm' = mapping lm"
    using d(2) mirror_invD(4,11) [OF conjunct1 [OF reopened(6)] refl refl] reopened(5) by (simp add: adjust_file_def)
  ultimately have "mirror_inv base f lm'" using reopened(4,5,6) by (simp add: mirror_inv_def Let_def)
  then show ?case using d(1,3) reopened(3) by simp
qed

text \<open>
  C5: A mirror behaves like a local copy of the version: whatever was read and written before, with or
  without success, also before it was closed and opened again, a read ends, and if it succeeds it
  returns exactly the bytes of the version, overwritten in their order by the successful writes and by
  those bytes of the failed writes that the mirror held already (\<open>torn_write\<close>), up to the end of the file.
\<close>

theorem mirror_is_file:
  assumes "mirror_reach ar env base file lm" "unat off + unat sz < 2 ^ 64"
  shows "\<exists>r lm'. lm_read (handler_ops ar env) sz off lm = Some (r, lm') \<and>
    (\<forall>k bytes. r = Ret (k, Some bytes) \<longrightarrow>
       unat k = min (unat sz) (length file - unat off) \<and> bytes = take (unat sz) (drop (unat off) file))"
  using handler.lm_read_right [OF _ _ refl assms(2), of base "file" lm ar env] mirror_reach_inv [OF assms(1)] by force

text \<open>
  The last page of a blob cannot be committed: the loop that looks for the end of a run of written
  pages tests the bit behind the last one.
\<close>

lemma last_page_not_committed:
  assumes "mirror_inv base file lm" "length (chunk_map lm) + 1 < 2 ^ 32" "written_map lm \<noteq> []" "last (written_map lm)"
  shows "\<exists>r lm'. lm_commit ops lm = Some (r, lm') \<and> r \<noteq> Ret True"
proof -
  let ?n = "length (chunk_map lm)"
  have n: "length (written_map lm) = ?n" by (rule mirror_invD(3) [OF assms(1) refl refl])
  then have "0 < ?n \<and> written_map lm ! (?n - 1)" using assms(3,4) by (auto simp: last_conv_nth)
  with commit_runs_result [OF assms(1) refl assms(2), of 0 ops] show ?thesis by (auto simp: lm_commit_def)
qed

section \<open>Mirrors of published versions\<close>

text \<open>
  A handler is good for a published version if every handler that can be met works on its root, the
  DHT holds the metadata and the providers are honest. Whether a provider answers is not needed: then
  reads fail.
\<close>

lemma snapshot_handler_good:
  assumes "archive_ok ar" "history ar ps d rc K0 q0 f0 ws" "n < length ws"
    and "\<forall>log. store_has ar ps K0 q0 f0 ws (Suc n) (en_dht env log)"
    and "rt_node root = root_of ps d q0 ws (Suc n)" "rt_page_size root = ps"
    and "unat ps < 2 ^ 32" "N < 2 ^ 32" "N \<le> 2 ^ wr_level (ws ! n)" "base = concat (map data [0..<N])"
    and "\<forall>p. length (data p) = unat ps" "partial_checked env"
    and "\<forall>p < N. \<exists>x. content rc f0 ws (Suc n) p = Some x \<and> honest_page ar env (fst x) (data p)"
    and "oh \<in> H" "\<forall>oh \<in> H. \<forall>log. case query_root_of ar env ver oh log of (ok, root', oh', log') \<Rightarrow> oh' \<in> H \<and> (ok \<longrightarrow> root' = root)"
  shows "handler_good ar env ver base (oh, log)"
proof -
  have fN: "fits ps N" 
    using version_represents(3) [OF assms(1-3) assms(4) [rule_format] assms(5)] assms(9) by (rule fits_mono)
  have lb: "length base = N * unat ps" using length_concat_equal [of "map data [0..<N]" "unat ps"] assms(10,11) by simp
  have "read_fits ps off sz \<and>
      take (unat sz) (drop (unat off) base) = take (unat sz) (drop (unat off) (concat (map data [0..<stop_page ps off sz]))) \<and>
      (\<forall>log vadv. read_metadata ar env root off sz log = Some (True, vadv) \<longrightarrow>
         honest_pages ar env ps vadv (map data [first_page ps off..<stop_page ps off sz]))"
    if r: "0 < sz" "unat off + unat sz \<le> length base" for off sz
  proof -
    have ps: "0 < ps" using fN by (simp add: fits_def word_gt_0)
    have fits: "read_fits ps off sz" by (rule read_fitsI [OF ps assms(7) r(1) _ assms(8)]) (use r(2) lb in simp)
    note pr = pages_of_range [OF fits]
    have s: "unat (off + sz) \<le> unat (pw ps N)" using r(2) lb unat_end [OF fits] unat_pw [OF fN le_refl] by simp
    then have st: "stop_page ps off sz \<le> N" by (intro stop_page_bound [OF fits fN]) (simp add: word_le_nat_alt)
    let ?b = "stop_page ps off sz"
    have "base = concat (map data [0..<?b]) @ concat (map data [?b..<N])"
      using upt_add_eq_append [of 0 ?b "N - ?b"] st by (simp add: assms(10))
    moreover have "unat off + unat sz \<le> length (concat (map data [0..<?b]))"
      using pr(4) length_concat_equal [of "map data [0..<?b]" "unat ps"] assms(11) by simp
    ultimately have slice: "take (unat sz) (drop (unat off) base) = take (unat sz) (drop (unat off) (concat (map data [0..<?b])))"
      by simp
    have qs: "pw ps N \<le> q_size (rt_node root)"
      using pw_order(1) [OF version_represents(3) [OF assms(1-3) assms(4) [rule_format] assms(5)], of N "2 ^ wr_level (ws ! n)"] assms(9)
      by (simp add: assms(5) root_of_def)
    have "off + sz \<le> pw ps N" using s by (simp add: word_le_nat_alt)
    then have "off + sz \<le> q_size (rt_node root)" using qs by (rule order_trans)
    then have g: "read_guard root 0 off sz = None" using ps assms(6) by (simp add: read_guard_def not_less)
    have "honest_pages ar env ps vadv (map data [first_page ps off..<?b])" if "read_metadata ar env root off sz log = Some (True, vadv)" for log vadv
    proof -
      have "\<forall>p. first_page ps off \<le> p \<and> p < ?b \<longrightarrow> content rc f0 ws (Suc n) p \<noteq> None" using assms(13) st by (metis option.distinct(1) order_less_le_trans)
      from version_metadata [OF assms(1-3) assms(4) [rule_format, of log] assms(5,6) g fits this] that
      have v: "length vadv = ?b - first_page ps off" "\<And>p x. first_page ps off \<le> p \<Longrightarrow> p < ?b \<Longrightarrow> content rc f0 ws (Suc n) p = Some x \<Longrightarrow>
        vadv ! (p - first_page ps off) = page_result x" by (auto simp del: content.simps)
      show ?thesis
        by (rule snapshot_honest [OF v(1) _ assms(12,11)]) (use v(2) assms(13) st in \<open>meson order_less_le_trans\<close>)
    qed
    with fits slice show ?thesis by blast
  qed
  then show ?thesis unfolding handler_good_def fst_conv assms(6)
    using assms(11,12,14,15) by (intro exI [of _ root] exI [of _ data] exI [of _ H] conjI allI impI) (simp_all add: assms(6))
qed

text \<open>The instance of \<open>Snapshots\<close>, opened at its latest version of sixteen bytes.\<close>

definition mirror_root :: root_t where
  "mirror_root = (root_t_make 1 1 8 16 1)\<lparr>rt_current_size := 16\<rparr>"

definition mirror_handler :: object_handler where
  "mirror_handler = ex_handler\<lparr>latest_root := mirror_root\<rparr>"

definition mirror_base :: buffer where
  "mirror_base = concat (map rd_page [0..<2])"

lemma mirror_handler_good: "handler_good plain_archive (rd_env ''c'') 0 mirror_base (mirror_handler, [])"
proof (rule snapshot_handler_good [OF plain_archive_ok ex_history])
  show "\<forall>log. store_has plain_archive 8 0 ex_base Map.empty [ex_write] (Suc 0) (en_dht (rd_env ''c'') log)" using ex_has by simp
  show "rt_node mirror_root = root_of 8 1 ex_base [ex_write] (Suc 0)" "rt_page_size mirror_root = 8"
    using rd_root by (simp_all add: mirror_root_def)
  show "\<forall>p < 2. \<exists>x. content 1 Map.empty [ex_write] (Suc 0) p = Some x \<and> honest_page plain_archive (rd_env ''c'') (fst x) (rd_page p)"
    using rd_content rd_honest by (simp del: content.simps)
  show "mirror_handler \<in> {oh. latest_root oh = mirror_root}" by (simp add: mirror_handler_def)
  show "\<forall>oh \<in> {oh. latest_root oh = mirror_root}. \<forall>log. case query_root_of plain_archive (rd_env ''c'') 0 oh log of
      (ok, root', oh', log') \<Rightarrow> oh' \<in> {oh. latest_root oh = mirror_root} \<and> (ok \<longrightarrow> root' = mirror_root)"
    by (simp add: query_root_of_def)
  show "\<forall>p. length (rd_page p) = unat (8 :: u64)" by (simp add: rd_length)
  show "(2 :: nat) \<le> 2 ^ wr_level ([ex_write] ! 0)" by (simp add: ex_write_def)
qed (simp_all add: mirror_base_def rd_partial)

definition mirror_opened :: "(object_handler \<times> oh_log) local_mirror_t" where
  "mirror_opened = \<lparr>local_name = (1, 0), lm_version = 0, mapping = replicate 15 0 @ [16], lm_blob = (mirror_handler, []), blob_size = 16,
     page_size = 8, chunk_map = replicate 2 0, written_map = replicate 2 False\<rparr>"

lemma adjust_new_file: "0 < bsize \<Longrightarrow> take (unat bsize) (adjust_file bsize []) = replicate (unat bsize - 1) 0 @ [ucast bsize]"
  by (cases "unat bsize") (auto simp: adjust_file_def replicate_append_same [symmetric] list_update_append word_gt_0 unat_eq_0)

lemma mirror_opened_reach: "mirror_reach plain_archive (rd_env ''c'') mirror_base mirror_base mirror_opened"
proof (rule mirror_reach.opened [OF _ mirror_handler_good])
  show "local_mirror_new (handler_ops plain_archive (rd_env ''c'')) True [] None (mirror_handler, []) 0 =
      (Ret mirror_opened, (mirror_handler, []))"
    by (simp add: local_mirror_new_def handler_ops_def oh_get_size_def oh_get_page_size_def oh_get_id_def mirror_handler_def mirror_root_def
        mirror_opened_def ex_handler_def object_handler_new_def root_t_make_def Let_def adjust_new_file [of 16, simplified])
  show "fits (page_size mirror_opened) 2" "blob_size mirror_opened = pw (page_size mirror_opened) 2"
    "length mirror_base = 2 * unat (page_size mirror_opened)"
    by (simp_all add: mirror_opened_def fits_def pw_def mirror_base_def rd_page_def upt_rec)
qed

theorem mirror_is_file_witness:
  "\<exists>r lm lm'. lm_write (handler_ops plain_archive (rd_env ''c'')) 1 0 [99] mirror_opened = Some (Ret 1, lm) \<and>
     lm_read (handler_ops plain_archive (rd_env ''c'')) 4 0 lm = Some (r, lm') \<and>
     (\<forall>k bytes. r = Ret (k, Some bytes) \<longrightarrow> k = 4 \<and> bytes = [99, 1, 2, 3])"
proof -
  let ?ops = "handler_ops plain_archive (rd_env ''c'')"
  let ?lm = "mirror_opened\<lparr>mapping := 99 # replicate 14 0 @ [16], chunk_map := [1] @ replicate 1 0, written_map := [True] @ replicate 1 False\<rparr>"
  have two: "replicate 2 x = [x, x]" for x :: 'a by (simp add: numeral_2_eq_2)
  have w: "lm_write ?ops 1 0 [99] mirror_opened = Some (Ret 1, ?lm)"
    by (simp add: lm_write_def mirror_opened_def mark_written.simps memory_write_def two)
  have "mirror_reach plain_archive (rd_env ''c'') mirror_base (memory_write (unat (0 :: u64)) [99] mirror_base) ?lm"
    by (rule mirror_reach.written [OF mirror_opened_reach w]) simp_all
  from mirror_is_file [OF this, of 0 4] obtain r lm' where
    r: "lm_read ?ops 4 0 ?lm = Some (r, lm')" and
    b: "\<And>k bytes. r = Ret (k, Some bytes) \<Longrightarrow> unat k = min (unat (4 :: u64)) (length (memory_write (unat (0 :: u64)) [99] mirror_base) - unat (0 :: u64)) \<and>
       bytes = take (unat (4 :: u64)) (drop (unat (0 :: u64)) (memory_write (unat (0 :: u64)) [99] mirror_base))" by auto
  have m: "memory_write 0 [99] mirror_base = [99, 1, 2, 3, 4, 5, 6, 7, 8, 9, 10, 11, 12, 13, 14, 15]"
    by (simp add: memory_write_def mirror_base_def rd_page_def upt_rec)
  have "k = 4 \<and> bytes = [99, 1, 2, 3]" if "r = Ret (k, Some bytes)" for k bytes
    using b [OF that] by (simp add: m word_unat_eq_iff)
  with w r show ?thesis by blast
qed

section \<open>Commits of pages that were not fetched\<close>

lemma commit_skip:
  assumes "fits (page_size lm) n" "blob_size lm = pw (page_size lm) n" "n < 2 ^ 32" "length (written_map lm) = n"
    and "i \<le> k" "k \<le> n" "\<forall>j. i \<le> j \<and> j < k \<longrightarrow> \<not> written_map lm ! j"
  shows "commit_runs ops (of_nat i) lm = commit_runs ops (of_nat k) lm"
  using assms(5,7)
proof (induction "k - i" arbitrary: i)
  case (Suc d)
  have i: "i < k" using Suc.hyps(2) by linarith
  have u: "unat (of_nat i :: u32) = i" "ucast (of_nat i :: u32) * page_size lm = pw (page_size lm) i"
    using i assms(3,6) by (simp_all add: unat_of_nat ucast_of_nat_pw)
  have "pw (page_size lm) i < blob_size lm" using pw_order(2) [OF assms(1), of i n] i assms(2,6) by simp
  then have "commit_runs ops (of_nat i) lm = commit_runs ops (of_nat (Suc i)) lm"
    using Suc.prems i assms(4,6) by (subst commit_runs.simps) (simp add: u Let_def add.commute)
  also have "\<dots> = commit_runs ops (of_nat k) lm" using Suc i by (intro Suc.hyps(1)) auto
  finally show ?case .
qed simp

lemma commit_runs_end:
  assumes "blob_size lm = pw (page_size lm) n" "n < 2 ^ 32"
  shows "commit_runs ops (of_nat n) lm = Some (Ret True, lm)"
  using assms ucast_of_nat_pw [OF assms(2), of "page_size lm"] by (subst commit_runs.simps) simp

text \<open>A commit with one marked page, which is not the last one, is a write of this page.\<close>

lemma commit_one_page:
  assumes "fits (page_size lm) n" "blob_size lm = pw (page_size lm) n" "n < 2 ^ 32" "length (written_map lm) = n"
    and "length (mapping lm) = n * unat (page_size lm)" "i + 1 < n" "\<forall>j < n. written_map lm ! j \<longleftrightarrow> j = i"
    and "bo_write ops (pw (page_size lm) i) (page_size lm)
      (take (unat (page_size lm)) (drop (i * unat (page_size lm)) (mapping lm))) (lm_blob lm) = (Ret True, b)"
  shows "lm_commit ops lm = Some (Ret True, lm\<lparr>lm_blob := b, written_map := clear_run i (Suc i) (written_map lm)\<rparr>)"
proof -
  let ?ps = "page_size lm" and ?wm = "written_map lm"
  let ?lm = "lm\<lparr>lm_blob := b, written_map := clear_run i (Suc i) ?wm\<rparr>"
  have u: "unat (of_nat i :: u32) = i" "ucast (of_nat i :: u32) * ?ps = pw ?ps i" "unat (of_nat (Suc i) :: u32) = Suc i"
    using assms(3,6) ucast_of_nat_pw [of i ?ps] by (simp_all add: unat_of_nat del: of_nat_Suc)
  have lt: "pw ?ps i < blob_size lm" using pw_order(2) [OF assms(1), of i n] assms(2,6) by simp
  have stop: "commit_stop ?ps (blob_size lm) ?wm (of_nat i + 1) = Some (Ret (of_nat (Suc i)))"
    using assms(4,6,7) u(3) by (subst commit_stop.simps) (simp add: add.commute)
  have one: "ucast (of_nat (Suc i) - of_nat i :: u32) * ?ps = ?ps" by simp
  have up: "unat (pw ?ps i) = i * unat ?ps" using unat_pw [OF assms(1), of i] assms(6) by simp
  have "Suc i * unat ?ps \<le> n * unat ?ps" using assms(6) by (intro mult_le_mono1) simp
  then have len: "\<not> length (mapping lm) < unat (pw ?ps i) + unat ?ps" using assms(5) up by simp
  have m: "\<not> length ?wm \<le> i" "?wm ! i" using assms(4,6,7) by simp_all
  have "lm_commit ops lm = commit_runs ops (of_nat i) lm"
    using commit_skip [OF assms(1-4), of 0 i ops] assms(6,7) by (simp add: lm_commit_def)
  also have "\<dots> = commit_runs ops (of_nat (Suc i) + 1) ?lm"
    by (subst commit_runs.simps, unfold Let_def u(1,2) if_P [OF lt] if_not_P [OF m(1)] if_P [OF m(2)] stop option.case res.case one if_not_P [OF len] u(3) up)
      (use len up in \<open>simp add: assms(8)\<close>)
  also have "of_nat (Suc i) + 1 = (of_nat (Suc (Suc i)) :: u32)" by simp
  also have "commit_runs ops (of_nat (Suc (Suc i))) ?lm = commit_runs ops (of_nat n) ?lm"
    using assms(1-4,6,7) by (intro commit_skip) (auto simp: nth_clear_run)
  also have "\<dots> = Some (Ret True, ?lm)" by (rule commit_runs_end) (use assms(2,3) in simp_all)
  finally show ?thesis .
qed

text \<open>The local file of a mirror of a page \<open>i\<close> that is not the last one is new and holds zeros.\<close>

lemma new_page_zero:
  assumes "0 < bsize" "unat bsize = n * P" "i + 1 < n" "g < Suc i * P"
  shows "take (unat bsize) (adjust_file bsize []) ! g = 0"
proof -
  have "Suc i * P \<le> n * P - P" using assms(3) mult_le_mono1 [of "Suc (Suc i)" n P] by simp
  moreover have "0 < P" using assms(4) by (cases P) simp_all
  ultimately have "g < unat bsize - 1" using assms(2,4) by linarith
  then show ?thesis using adjust_new_file [OF assms(1)] by (simp add: nth_append)
qed

lemma zero_page_written:
  assumes "Suc i * P \<le> length m" "length buf \<le> P" "\<And>g. g < P \<Longrightarrow> m ! (i * P + g) = 0"
  shows "take P (drop (i * P) (memory_write (i * P) buf m)) = buf @ replicate (P - length buf) 0"
proof (rule nth_equalityI)
  have fit: "i * P + length buf \<le> length m" using assms(1,2) by simp
  show "length (take P (drop (i * P) (memory_write (i * P) buf m))) = length (buf @ replicate (P - length buf) 0)"
    using assms(1,2) by (simp add: length_memory_write [OF fit])
  fix g assume "g < length (take P (drop (i * P) (memory_write (i * P) buf m)))"
  then have g: "g < P" "i * P + g < length m" using length_memory_write [OF fit] by auto
  then show "take P (drop (i * P) (memory_write (i * P) buf m)) ! g = (buf @ replicate (P - length buf) 0) ! g"
    using fit nth_memory_write [OF fit g(2)] assms(3) [OF g(1)] by (auto simp: nth_append length_memory_write)
qed

text \<open>A write within a page marks this page.\<close>

lemma mark_one_page:
  assumes "fits ps n" "i < n" "0 < sz" "sz < ps" "length cm = n"
  shows "\<exists>cm' wm. mark_written ps (pw ps i + sz) (of_nat i) (cm, replicate n False) = Some (Ret (cm', wm)) \<and>
    length wm = n \<and> (\<forall>j < n. wm ! j \<longleftrightarrow> j = i)"
proof -
  let ?P = "unat ps"
  have sz: "0 < unat sz" "unat sz < ?P" using assms(3,4) by (simp_all add: word_less_nat_alt)
  have up: "unat (pw ps j) = j * ?P" if "j \<le> n" for j using unat_pw [OF assms(1) that] .
  have iP: "Suc i * ?P \<le> n * ?P" using assms(2) by (intro mult_le_mono1) simp
  have "unat (pw ps i) + unat sz < 2 ^ 64" using assms(1,2) up [of i] iP sz by (simp add: fits_def)
  then have stop: "unat (pw ps i + sz) = i * ?P + unat sz" using up [of i] assms(2) by (simp add: unat_add_nowrap)
  have le: "pw ps i + sz \<le> pw ps n" using stop iP sz up [of n] by (simp add: word_le_nat_alt)
  obtain cm' wm where mk: "mark_written ps (pw ps i + sz) (of_nat i) (cm, replicate n False) = Some (Ret (cm', wm))"
    "length wm = n" "\<forall>j < n. wm ! j \<longleftrightarrow> replicate n False ! j \<or> i \<le> j \<and> pw ps j < pw ps i + sz"
    using mark_written_pages [OF assms(1) le, of i cm "replicate n False"] assms(2,5) by auto
  have "pw ps j < pw ps i + sz \<longleftrightarrow> j = i" if "i \<le> j" "j < n" for j
  proof -
    have "Suc i * ?P \<le> j * ?P" if "j \<noteq> i" using that \<open>i \<le> j\<close> by (intro mult_le_mono1) simp
    then show ?thesis using stop sz up [of j] that(2) by (cases "j = i") (auto simp: word_less_nat_alt)
  qed
  then have "\<forall>j < n. wm ! j \<longleftrightarrow> j = i" using mk(3) by auto
  with mk show ?thesis by blast
qed

text \<open>
  C36: A commit does not keep the bytes of the blob around a local write. Write fewer bytes than a page
  has to the beginning of any page but the last one, through a fresh mirror of any blob of whole pages,
  and commit: the only call that reaches the blob is a write of the whole page, which has
  the new bytes followed by the zeros of the new local file in place of whatever the blob held there.
  Both operations report success (if the blob accepts this write).
\<close>

theorem commit_sends_unfetched:
  assumes "local_mirror_new ops True [] None b v = (Ret lm, b0)"
    and "fits (page_size lm) n" "blob_size lm = pw (page_size lm) n" "n < 2 ^ 32" "i + 1 < n"
    and "0 < sz" "sz < page_size lm" "length buf = unat sz"
    and "bo_write ops (pw (page_size lm) i) (page_size lm) (buf @ replicate (unat (page_size lm) - unat sz) 0) b0 = (Ret True, b1)"
  shows "\<exists>lm1 lm2. lm_write ops sz (pw (page_size lm) i) buf lm = Some (Ret sz, lm1) \<and> lm_blob lm1 = b0 \<and>
     lm_commit ops lm1 = Some (Ret True, lm2) \<and> lm_blob lm2 = b1 \<and> True \<notin> set (written_map lm2)"
proof -
  let ?ps = "page_size lm" let ?off = "pw ?ps i" let ?P = "unat ?ps"
  note d = local_mirror_newD [OF assms(1)]
  have sz: "unat sz < ?P" using assms(7) by (simp add: word_less_nat_alt)
  have bs: "unat (blob_size lm) = n * ?P" using unat_pw [OF assms(2) le_refl] assms(3) by simp
  have nn: "unat (blob_size lm div ?ps) = n" using pw_div_ps [OF assms(2) le_refl] fits_of_nat [OF assms(2) le_refl] assms(3) by simp
  have cw: "chunk_map lm = replicate n 0" "written_map lm = replicate n False" using d(5) nn by simp_all
  have lm: "length (mapping lm) = n * ?P" using d(2) bs length_adjust_file [of "blob_size lm" "[]"] by (simp add: min_absorb2)
  have up: "unat ?off = i * ?P" using unat_pw [OF assms(2), of i] assms(5) by simp
  have iP: "Suc i * ?P \<le> n * ?P" using assms(5) by (intro mult_le_mono1) simp
  have "unat ?off + unat sz < 2 ^ 64" using assms(2) up iP sz by (simp add: fits_def)
  then have le: "?off + sz \<le> pw ?ps n"
    using up iP sz unat_pw [OF assms(2) le_refl] by (simp add: word_le_nat_alt unat_add_nowrap)
  have i: "i < n" and ui: "unat (of_nat i :: u64) = i" using assms(5) fits_of_nat [OF assms(2), of i] by simp_all
  have idx: "?off div ?ps = of_nat i" using pw_div_ps [OF assms(2), of i] i by simp
  obtain cm wm where mk: "mark_written ?ps (?off + sz) (of_nat i) (chunk_map lm, written_map lm) = Some (Ret (cm, wm))"
    "length wm = n" and wm: "\<forall>j < n. wm ! j \<longleftrightarrow> j = i"
    using mark_one_page [OF assms(2) i assms(6,7), of "chunk_map lm"] cw by auto
  let ?m = "memory_write (unat ?off) buf (mapping lm)"
  let ?lm1 = "lm\<lparr>mapping := ?m, chunk_map := cm, written_map := wm\<rparr>"
  have "\<not> blob_size lm < ?off + sz" "\<not> length (mapping lm) < unat ?off + unat sz" "take (unat sz) buf = buf"
    using le assms(3,8) lm up iP sz by simp_all
  then have w: "lm_write ops sz ?off buf lm = Some (Ret sz, ?lm1)"
    using i idx ui cw mk(1) by (simp add: lm_write_def Let_def of_nat_pw)
  have fit: "unat ?off + length buf \<le> length (mapping lm)" using lm up iP sz assms(8) by simp
  have "0 < blob_size lm" using bs i sz by (simp add: word_gt_0_no word_less_nat_alt)
  from new_page_zero [OF this bs assms(5)] have "mapping lm ! (i * ?P + g) = 0" if "g < ?P" for g
    using that d(2) by simp
  then have page: "take ?P (drop (i * ?P) ?m) = buf @ replicate (?P - unat sz) 0"
    using zero_page_written [of i ?P "mapping lm" buf] iP lm sz up assms(8) by simp
  have "lm_commit ops ?lm1 = Some (Ret True, ?lm1\<lparr>lm_blob := b1, written_map := clear_run i (Suc i) (written_map ?lm1)\<rparr>)"
    by (rule commit_one_page [where n = n]) (use assms(2-5,9) mk(2) wm lm fit page d(3) in \<open>simp_all add: length_memory_write\<close>)
  moreover have "True \<notin> set (clear_run i (Suc i) wm)" using wm mk(2) by (auto simp: in_set_conv_nth nth_clear_run)
  ultimately show ?thesis using w d(3) by auto
qed

text \<open>A handle on a blob of three pages of four bytes that records the writes and refuses reads.\<close>

definition recorder :: "(u64 \<times> buffer) list blob_ops" where
  "recorder =
     \<lparr>bo_size = (\<lambda>v b. (12, b)), bo_page_size = (\<lambda>b. 4), bo_id = (\<lambda>b. 1), bo_version = (\<lambda>b. 1), bo_read = (\<lambda>off sz mem v b. (Ret False, mem, b)),
      bo_write = (\<lambda>off sz buf b. (Ret True, b @ [(off, buf)])), bo_clone = (\<lambda>b. (True, b)), bo_latest = (\<lambda>i b. (True, b))\<rparr>"

definition recorded_mirror :: "(u64 \<times> buffer) list local_mirror_t" where
  "recorded_mirror =
     \<lparr>local_name = (1, 1), lm_version = 1, mapping = replicate 11 0 @ [12], lm_blob = [], blob_size = 12, page_size = 4,
      chunk_map = replicate 3 0, written_map = replicate 3 False\<rparr>"

theorem commit_sends_unfetched_witness:
  "\<exists>lm1 lm2. local_mirror_new recorder True [] None [] 1 = (Ret recorded_mirror, []) \<and>
     lm_write recorder 2 4 [98, 99] recorded_mirror = Some (Ret 2, lm1) \<and> lm_commit recorder lm1 = Some (Ret True, lm2) \<and>
     lm_blob lm2 = [(4, [98, 99, 0, 0])]"
proof -
  have n: "local_mirror_new recorder True [] None [] 1 = (Ret recorded_mirror, [])"
    by (simp add: local_mirror_new_def recorder_def recorded_mirror_def Let_def adjust_new_file [of 12, simplified])
  have f: "fits (page_size recorded_mirror) 3" "blob_size recorded_mirror = pw (page_size recorded_mirror) 3"
    "pw (page_size recorded_mirror) 1 = 4" by (simp_all add: recorded_mirror_def fits_def pw_def)
  have r: "bo_write recorder (pw (page_size recorded_mirror) 1) (page_size recorded_mirror)
      ([98, 99] @ replicate (unat (page_size recorded_mirror) - unat (2 :: u64)) 0) [] = (Ret True, [(4, [98, 99, 0, 0])])"
    unfolding f(3) using replicate_Suc [of 1 "0 :: 8 word"] by (simp add: recorder_def recorded_mirror_def numeral_2_eq_2 [symmetric])
  from commit_sends_unfetched [OF n f(1,2) _ _ _ _ _ r] show ?thesis using n unfolding f(3) by (simp add: recorded_mirror_def) blast
qed

end
