(* ===== verification/Fuse_Ops.thy ===== *)
theory Fuse_Ops
  imports Mirror_Use
begin

text \<open>
  \<open>bindings/blob-fuse/object_pool.hpp\<close> and \<open>bindings/blob-fuse/low_level_ops.cpp\<close>: blobs as a file
  system. The root directory (inode 1) has a directory for each blob, which has a file for each
  version; an open file is a mirror. All files work on handlers taken from one pool.

  Handlers are shared by pointer: a pointer is an index into the list of handlers. The local files
  are mapped and shared as well: the bytes of a mirror are those of its file in \<open>fw_files\<close>, and
  \<open>attach\<close> and \<open>detach\<close> move them in and out of the mirror around a call.
\<close>

section \<open>The pool\<close>

text \<open>
  The entries of the map in the order in which it is traversed, which depends on the hash function:
  \<open>order\<close> arranges the new pointers.
\<close>

definition DEFAULT_POOL_SIZE :: nat where
  "DEFAULT_POOL_SIZE = 16"

definition object_pool_new :: "(nat list \<Rightarrow> nat list) \<Rightarrow> nat \<Rightarrow> (nat \<times> bool) list" where
  "object_pool_new order pool_size = map (\<lambda>p. (p, False)) (order [0..<pool_size])"

fun pool_acquire :: "(nat \<times> bool) list \<Rightarrow> nat option" where
  "pool_acquire [] = None"
| "pool_acquire ((p, taken) # m) = (if taken then pool_acquire m else Some p)"

definition pool_release :: "nat \<Rightarrow> (nat \<times> bool) list \<Rightarrow> (nat \<times> bool) list res" where
  "pool_release p m =
     (if p \<in> fst ` set m then Ret (map (\<lambda>e. if fst e = p then (p, False) else e) m)
      else Thr ''object_pool_t::release(): object is not in the pool'')"

section \<open>The state of the file system\<close>

text \<open>A handler behind a pointer.\<close>

definition deref_ops :: "('h \<times> 'l) blob_ops \<Rightarrow> (nat \<times> 'h list \<times> 'l) blob_ops" where
  "deref_ops ops =
     \<lparr>bo_size = (\<lambda>v (p, hs, log). case bo_size ops v (hs ! p, log) of (s, h, log) \<Rightarrow> (s, p, hs[p := h], log)),
      bo_page_size = (\<lambda>(p, hs, log). bo_page_size ops (hs ! p, log)),
      bo_id = (\<lambda>(p, hs, log). bo_id ops (hs ! p, log)),
      bo_version = (\<lambda>(p, hs, log). bo_version ops (hs ! p, log)),
      bo_read = (\<lambda>off sz mem v (p, hs, log). case bo_read ops off sz mem v (hs ! p, log) of
                   (r, mem, h, log) \<Rightarrow> (r, mem, p, hs[p := h], log)),
      bo_write = (\<lambda>off sz buf (p, hs, log). case bo_write ops off sz buf (hs ! p, log) of (r, h, log) \<Rightarrow> (r, p, hs[p := h], log)),
      bo_clone = (\<lambda>(p, hs, log). case bo_clone ops (hs ! p, log) of (r, h, log) \<Rightarrow> (r, p, hs[p := h], log)),
      bo_latest = (\<lambda>i (p, hs, log). case bo_latest ops i (hs ! p, log) of (r, h, log) \<Rightarrow> (r, p, hs[p := h], log))\<rparr>"

text \<open>
  An open file: the mirror with the pointer to its handler, and the local file it has mapped (its own
  field \<open>mapping\<close> is not used). \<open>fw_names\<close> is the directory of the local files, \<open>fw_index\<close> the index
  files.
\<close>

record fuse_file =
  ff_mirror :: "nat local_mirror_t"
  ff_file :: nat

record fuse_world =
  fw_pool :: "(nat \<times> bool) list"
  fw_handlers :: "object_handler list"
  fw_log :: oh_log
  fw_names :: "u32 \<times> u32 \<Rightarrow> nat option"
  fw_index :: "u32 \<times> u32 \<Rightarrow> (u64 list \<times> bool list) option"
  fw_files :: "buffer list"
  fw_open :: "nat \<Rightarrow> fuse_file option"

type_synonym file_mirror = "(nat \<times> object_handler list \<times> oh_log) local_mirror_t"

definition attach :: "fuse_world \<Rightarrow> fuse_file \<Rightarrow> file_mirror" where
  "attach w f =
     (let lm = ff_mirror f in
      \<lparr>local_name = local_name lm, lm_version = lm_version lm, mapping = take (unat (blob_size lm)) (fw_files w ! ff_file f),
       lm_blob = (lm_blob lm, fw_handlers w, fw_log w), blob_size = blob_size lm, page_size = page_size lm,
       chunk_map = chunk_map lm, written_map = written_map lm\<rparr>)"

definition mirror_fields :: "file_mirror \<Rightarrow> nat local_mirror_t" where
  "mirror_fields lm =
     \<lparr>local_name = local_name lm, lm_version = lm_version lm, mapping = [], lm_blob = fst (lm_blob lm), blob_size = blob_size lm,
      page_size = page_size lm, chunk_map = chunk_map lm, written_map = written_map lm\<rparr>"

definition detach :: "nat \<Rightarrow> nat \<Rightarrow> file_mirror \<Rightarrow> fuse_world \<Rightarrow> fuse_world" where
  "detach fh file lm w =
     w\<lparr>fw_handlers := fst (snd (lm_blob lm)), fw_log := snd (snd (lm_blob lm)),
       fw_files := (fw_files w)[file := memory_write 0 (mapping lm) (fw_files w ! file)],
       fw_open := (fw_open w)(fh \<mapsto> \<lparr>ff_mirror = mirror_fields lm, ff_file = file\<rparr>)\<rparr>"

definition fuse_ops :: "archive \<Rightarrow> env \<Rightarrow> (nat \<times> object_handler list \<times> oh_log) blob_ops" where
  "fuse_ops ar env = deref_ops (handler_ops ar env)"

definition fuse_init :: "(nat list \<Rightarrow> nat list) \<Rightarrow> object_handler \<Rightarrow> fuse_world" where
  "fuse_init order h =
     \<lparr>fw_pool = object_pool_new order DEFAULT_POOL_SIZE, fw_handlers = replicate DEFAULT_POOL_SIZE h, fw_log = [],
      fw_names = (\<lambda>_. None), fw_index = (\<lambda>_. None), fw_files = [], fw_open = (\<lambda>_. None)\<rparr>"

definition release_handler :: "nat \<Rightarrow> 'a \<Rightarrow> fuse_world \<Rightarrow> 'a res \<times> fuse_world" where
  "release_handler p x w =
     (case pool_release p (fw_pool w) of
        Ret m \<Rightarrow> (Ret x, w\<lparr>fw_pool := m\<rparr>) | Thr e \<Rightarrow> (Thr e, w) | Und e \<Rightarrow> (Und e, w))"

section \<open>Inodes and attributes\<close>

definition ino_id :: "u64 \<Rightarrow> u64" where
  "ino_id ino = drop_bit 32 ino"

definition ino_version :: "u64 \<Rightarrow> u64" where
  "ino_version ino = and ino 0x00000000FFFFFFFF"

definition build_ino :: "u32 \<Rightarrow> u32 \<Rightarrow> u64" where
  "build_ino bid version = push_bit 32 (ucast bid) + ucast version"

datatype errno = E_OK | EPROTO | EMFILE | ENOENT | EPERM | ENOTDIR | EISDIR | EIO | EINVAL | E_MSYNC

record stat =
  st_ino :: u64
  st_mode :: u32
  st_nlink :: u64
  st_size :: u64

definition S_IFDIR :: u32 where
  "S_IFDIR = 0x4000"

definition S_IFREG :: u32 where
  "S_IFREG = 0x8000"

definition stat_zero :: stat where
  "stat_zero = \<lparr>st_ino = 0, st_mode = 0, st_nlink = 0, st_size = 0\<rparr>"

text \<open>The part of \<open>blob_stat\<close> between taking the handler \<open>p\<close> and giving it back; \<open>no_obj + 2\<close> is an \<open>int\<close>.\<close>

definition stat_entry :: "archive \<Rightarrow> env \<Rightarrow> u32 \<Rightarrow> nat \<Rightarrow> u64 \<Rightarrow> stat \<Rightarrow> fuse_world \<Rightarrow> errno res \<times> stat \<times> fuse_world" where
  "stat_entry ar env junk p ino st w =
     (if ino = 1 then
        case oh_get_objcount ar env junk (fw_handlers w ! p) (fw_log w) of (no_obj, log) \<Rightarrow>
          let w = w\<lparr>fw_log := log\<rparr> in
          if no_obj = -1 then (Ret EPROTO, st, w)
          else if 2 ^ 31 \<le> no_obj + 2 then (Und ''no_obj + 2'', st, w)
          else (Ret E_OK, st\<lparr>st_mode := or S_IFDIR 0x1ED, st_nlink := of_int (no_obj + 2)\<rparr>, w)
      else if ino_id ino = 0 then (Ret EPROTO, st, w)
      else case bo_latest (fuse_ops ar env) (ucast (ino_id ino)) (p, fw_handlers w, fw_log w) of (ok, _, hs, log) \<Rightarrow>
             let w = w\<lparr>fw_handlers := hs, fw_log := log\<rparr> in
             if ino_version ino = 0 then
               if ok then (Ret E_OK, st\<lparr>st_mode := or S_IFDIR 0x1ED, st_nlink := ucast (oh_get_version (hs ! p) + 2)\<rparr>, w)
               else (Ret EPROTO, st, w)
             else if ok then
               case bo_size (fuse_ops ar env) (ucast (ino_version ino)) (p, hs, log) of (sz, _, hs, log) \<Rightarrow>
                 (Ret E_OK, st\<lparr>st_size := sz, st_mode := or S_IFREG 0x1B6, st_nlink := 1\<rparr>, w\<lparr>fw_handlers := hs, fw_log := log\<rparr>)
             else (Ret EPROTO, st, w))"

definition blob_stat :: "archive \<Rightarrow> env \<Rightarrow> u32 \<Rightarrow> u64 \<Rightarrow> stat \<Rightarrow> fuse_world \<Rightarrow> errno res \<times> stat \<times> fuse_world" where
  "blob_stat ar env junk ino st w =
     (let st = st\<lparr>st_ino := ino\<rparr> in
      case pool_acquire (fw_pool w) of
        None \<Rightarrow> (Ret EMFILE, st, w)
      | Some p \<Rightarrow>
          (case stat_entry ar env junk p ino st w of
             (Ret e, st, w) \<Rightarrow> (case release_handler p e w of (r, w) \<Rightarrow> (r, st, w))
           | (Thr x, st, w) \<Rightarrow> (Thr x, st, w)
           | (Und x, st, w) \<Rightarrow> (Und x, st, w)))"

section \<open>Replies\<close>

text \<open>What the file system replies to the kernel; \<open>No_Reply\<close> if it does not reply at all.\<close>

datatype fuse_reply = Reply_Err errno | Reply_Attr stat | Reply_Entry u64 stat | Reply_Buf buffer | Reply_Open nat
  | Reply_Write u64 | Reply_Ioctl int | No_Reply

definition blob_ll_getattr :: "archive \<Rightarrow> env \<Rightarrow> u32 \<Rightarrow> u64 \<Rightarrow> fuse_world \<Rightarrow> fuse_reply res \<times> fuse_world" where
  "blob_ll_getattr ar env junk ino w =
     (case blob_stat ar env junk ino stat_zero w of
        (Ret e, st, w) \<Rightarrow> (Ret (if e \<noteq> E_OK then Reply_Err ENOENT else Reply_Attr st), w)
      | (Thr x, st, w) \<Rightarrow> (Thr x, w)
      | (Und x, st, w) \<Rightarrow> (Und x, w))"

text \<open>The mask \<open>FUSE_SET_ATTR_SIZE\<close> of the library is a parameter.\<close>

definition blob_ll_setattr :: "u32 \<Rightarrow> u64 \<Rightarrow> stat \<Rightarrow> u32 \<Rightarrow> fuse_reply" where
  "blob_ll_setattr set_attr_size ino attr to_set =
     (if ino_id ino = 0 \<or> ino_version ino = 0 \<or> and to_set set_attr_size \<noteq> 0 then Reply_Err EPERM
      else Reply_Attr attr)"

section \<open>Names\<close>

text \<open>
  \<open>sscanf\<close> with a literal followed by \<open>%d\<close>: white space and a sign may come before the digits, what follows them
  is ignored, and a number that is no \<open>int\<close> is undefined. \<open>None\<close>: nothing was converted.
\<close>

definition is_digit :: "char \<Rightarrow> bool" where
  "is_digit c \<longleftrightarrow> (let n = (of_char c :: nat) in 48 \<le> n \<and> n \<le> 57)"

definition is_space :: "char \<Rightarrow> bool" where
  "is_space c \<longleftrightarrow> (let n = (of_char c :: nat) in n = 32 \<or> 9 \<le> n \<and> n \<le> 13)"

definition digits_value :: "string \<Rightarrow> nat" where
  "digits_value ds = foldl (\<lambda>n c. 10 * n + (of_char c - 48)) 0 ds"

definition scan_int :: "string \<Rightarrow> u32 res option" where
  "scan_int s =
     (let s = dropWhile is_space s;
          (neg, s) = (case s of c # s' \<Rightarrow> if c = CHR ''-'' then (True, s') else if c = CHR ''+'' then (False, s') else (False, s)
                      | [] \<Rightarrow> (False, s));
          ds = takeWhile is_digit s;
          v = (if neg then - int (digits_value ds) else int (digits_value ds))
      in if ds = [] then None else if v < - (2 ^ 31) \<or> 2 ^ 31 \<le> v then Some (Und ''%d'') else Some (Ret (of_int v)))"

definition sscanf_d :: "string \<Rightarrow> string \<Rightarrow> u32 res option" where
  "sscanf_d literal name =
     (if take (length literal) name = literal then scan_int (drop (length literal) name) else None)"

fun show_dec :: "nat \<Rightarrow> string" where
  "show_dec n = (if n < 10 then [char_of (48 + n)] else show_dec (n div 10) @ [char_of (48 + n mod 10)])"

definition blob_ll_lookup :: "archive \<Rightarrow> env \<Rightarrow> u32 \<Rightarrow> u64 \<Rightarrow> string \<Rightarrow> fuse_world \<Rightarrow> fuse_reply res \<times> fuse_world" where
  "blob_ll_lookup ar env junk parent name w =
     (case (if parent = 1 then sscanf_d ''blob-'' name else Some (Ret (ucast (ino_id parent)))) of
        None \<Rightarrow> (Ret (Reply_Err ENOENT), w) | Some (Thr e) \<Rightarrow> (Thr e, w) | Some (Und e) \<Rightarrow> (Und e, w)
      | Some (Ret bid) \<Rightarrow>
          (case (if ino_id parent \<noteq> 0 \<and> ino_version parent = 0 then sscanf_d ''version-'' name else Some (Ret 0)) of
             None \<Rightarrow> (Ret (Reply_Err ENOENT), w) | Some (Thr e) \<Rightarrow> (Thr e, w) | Some (Und e) \<Rightarrow> (Und e, w)
           | Some (Ret ver) \<Rightarrow>
               if ino_id parent \<noteq> 0 \<and> ino_version parent \<noteq> 0 then (Ret (Reply_Err ENOENT), w)
               else case blob_stat ar env junk (build_ino bid ver) stat_zero w of
                      (Ret e, st, w) \<Rightarrow> (Ret (Reply_Entry (build_ino bid ver) st), w)
                    | (Thr e, st, w) \<Rightarrow> (Thr e, w)
                    | (Und e, st, w) \<Rightarrow> (Und e, w)))"

section \<open>Directories\<close>

text \<open>
  \<open>direntry name ino next\<close> is the record that the library writes into the buffer, with the offset of the next
  one; the first call of \<open>fuse_add_direntry\<close> gives its size, \<open>entry_size name\<close>.
\<close>

definition dirbuf_add :: "(string \<Rightarrow> nat) \<Rightarrow> (string \<Rightarrow> u64 \<Rightarrow> nat \<Rightarrow> buffer) \<Rightarrow> string \<Rightarrow> u64 \<Rightarrow> buffer \<Rightarrow> buffer" where
  "dirbuf_add entry_size direntry name ino b = b @ direntry name ino (length b + entry_size name)"

text \<open>A stream that is created on a string is written from its beginning.\<close>

definition stream_write :: "string \<Rightarrow> string \<Rightarrow> string" where
  "stream_write old s = s @ drop (length s) old"

definition blob_name :: "u32 \<Rightarrow> string" where
  "blob_name i = stream_write '''' (''blob-'' @ show_dec (unat (i - 1)))"

definition version_name :: "u32 \<Rightarrow> string" where
  "version_name i = stream_write ''version-'' (''version-'' @ show_dec (unat (i - 1)))"

text \<open>The counter is an \<open>unsigned int\<close>, the number of links is not: \<open>None\<close> would be a loop that never ends.\<close>

partial_function (option) dir_loop ::
  "(string \<Rightarrow> nat) \<Rightarrow> (string \<Rightarrow> u64 \<Rightarrow> nat \<Rightarrow> buffer) \<Rightarrow> u64 \<Rightarrow> u64 \<Rightarrow> u32 \<Rightarrow> buffer \<Rightarrow> buffer option" where
  "dir_loop entry_size direntry ino nlink i b =
     (if ucast i < nlink
      then dir_loop entry_size direntry ino nlink (i + 1)
             (if ino = 1 then dirbuf_add entry_size direntry (blob_name i) (build_ino (i - 1) 0) b
              else dirbuf_add entry_size direntry (version_name i) (build_ino (ucast (ino_id ino)) (i - 1)) b)
      else Some b)"

definition reply_buf_limited :: "buffer \<Rightarrow> u64 \<Rightarrow> u64 \<Rightarrow> fuse_reply res" where
  "reply_buf_limited buf off maxsize =
     (if sint off < int (length buf)
      then if sint off < 0 then Und ''buf + off''
           else Ret (Reply_Buf (take (min (length buf - unat off) (unat maxsize)) (drop (unat off) buf)))
      else Ret (Reply_Buf []))"

definition blob_ll_readdir ::
  "(string \<Rightarrow> nat) \<Rightarrow> (string \<Rightarrow> u64 \<Rightarrow> nat \<Rightarrow> buffer) \<Rightarrow> archive \<Rightarrow> env \<Rightarrow> u32 \<Rightarrow> u64 \<Rightarrow> u64 \<Rightarrow> u64 \<Rightarrow> fuse_world \<Rightarrow>
     (fuse_reply res \<times> fuse_world) option" where
  "blob_ll_readdir entry_size direntry ar env junk ino sz off w =
     (case blob_stat ar env junk ino stat_zero w of
        (Thr e, st, w) \<Rightarrow> Some (Thr e, w)
      | (Und e, st, w) \<Rightarrow> Some (Und e, w)
      | (Ret e, st, w) \<Rightarrow>
          if e \<noteq> E_OK then Some (Ret (Reply_Err e), w)
          else if and (st_mode st) S_IFDIR = 0 then Some (Ret (Reply_Err ENOTDIR), w)
          else
            let b = dirbuf_add entry_size direntry ''..'' 1 (dirbuf_add entry_size direntry ''.'' ino [])
            in case dir_loop entry_size direntry ino (st_nlink st) 2 b of
                 None \<Rightarrow> None
               | Some b \<Rightarrow> Some (reply_buf_limited b off sz, w))"

section \<open>Files\<close>

text \<open>
  The local file of a mirror: the one with its name, or a new one. If the constructor throws, a file it has
  created or enlarged is one that the next one would create or enlarge.
\<close>

definition local_file :: "u32 \<times> u32 \<Rightarrow> fuse_world \<Rightarrow> nat \<times> fuse_world" where
  "local_file name w =
     (case fw_names w name of
        Some f \<Rightarrow> (f, w)
      | None \<Rightarrow> (length (fw_files w), w\<lparr>fw_names := (fw_names w)(name \<mapsto> length (fw_files w)), fw_files := fw_files w @ [[]]\<rparr>))"

definition blob_ll_open :: "archive \<Rightarrow> env \<Rightarrow> bool \<Rightarrow> nat \<Rightarrow> u64 \<Rightarrow> fuse_world \<Rightarrow> fuse_reply res \<times> fuse_world" where
  "blob_ll_open ar env os_ok fh ino w =
     (if ino_id ino = 0 \<or> ino_version ino = 0 then (Ret (Reply_Err EISDIR), w)
      else case pool_acquire (fw_pool w) of
        None \<Rightarrow> (Ret (Reply_Err EMFILE), w)
      | Some p \<Rightarrow>
          (case bo_latest (fuse_ops ar env) (ucast (ino_id ino)) (p, fw_handlers w, fw_log w) of (ok, _, hs, log) \<Rightarrow>
             let w = w\<lparr>fw_handlers := hs, fw_log := log\<rparr> in
             if \<not> ok then release_handler p (Reply_Err EIO) w
             else
               let name = (bo_id (fuse_ops ar env) (p, hs, log), ucast (ino_version ino)); (file, w1) = local_file name w
               in case local_mirror_new (fuse_ops ar env) os_ok (fw_files w1 ! file) (fw_index w1 name) (p, hs, log) (ucast (ino_version ino)) of
                    (Ret lm, _) \<Rightarrow>
                      (Ret (Reply_Open fh),
                       detach fh file lm (w1\<lparr>fw_files := (fw_files w1)[file := adjust_file (blob_size lm) (fw_files w1 ! file)]\<rparr>))
                  | (Thr e, _, hs, log) \<Rightarrow> release_handler p (Reply_Err EIO) (w\<lparr>fw_handlers := hs, fw_log := log\<rparr>)
                  | (Und e, _, hs, log) \<Rightarrow> (Und e, w\<lparr>fw_handlers := hs, fw_log := log\<rparr>)))"

text \<open>The handlers of an open file: \<open>fh\<close> leads to its mirror.\<close>

definition blob_ll_read :: "archive \<Rightarrow> env \<Rightarrow> nat \<Rightarrow> u64 \<Rightarrow> u64 \<Rightarrow> fuse_world \<Rightarrow> (fuse_reply res \<times> fuse_world) option" where
  "blob_ll_read ar env fh sz off w =
     (case fw_open w fh of
        None \<Rightarrow> Some (Und ''fh'', w)
      | Some f \<Rightarrow>
          (case lm_read (fuse_ops ar env) sz off (attach w f) of
             None \<Rightarrow> None
           | Some (Ret (n, buf), lm) \<Rightarrow>
               Some (Ret (Reply_Buf (case buf of None \<Rightarrow> [] | Some b \<Rightarrow> take (unat n) b)), detach fh (ff_file f) lm w)
           | Some (Thr e, lm) \<Rightarrow> Some (Thr e, detach fh (ff_file f) lm w)
           | Some (Und e, lm) \<Rightarrow> Some (Und e, detach fh (ff_file f) lm w)))"

definition blob_ll_write ::
  "archive \<Rightarrow> env \<Rightarrow> nat \<Rightarrow> buffer \<Rightarrow> u64 \<Rightarrow> u64 \<Rightarrow> fuse_world \<Rightarrow> (fuse_reply res \<times> fuse_world) option" where
  "blob_ll_write ar env fh buf sz off w =
     (case fw_open w fh of
        None \<Rightarrow> Some (Und ''fh'', w)
      | Some f \<Rightarrow>
          (case lm_write (fuse_ops ar env) sz off buf (attach w f) of
             None \<Rightarrow> None
           | Some (Ret n, lm) \<Rightarrow> Some (Ret (if n \<noteq> sz then Reply_Err EIO else Reply_Write sz), detach fh (ff_file f) lm w)
           | Some (Thr e, lm) \<Rightarrow> Some (Thr e, detach fh (ff_file f) lm w)
           | Some (Und e, lm) \<Rightarrow> Some (Und e, detach fh (ff_file f) lm w)))"

definition blob_ll_flush :: "bool \<Rightarrow> nat \<Rightarrow> fuse_world \<Rightarrow> fuse_reply res" where
  "blob_ll_flush msync_ok fh w =
     (if fw_open w fh = None then Und ''fh'' else Ret (Reply_Err (if msync_ok then E_OK else E_MSYNC)))"

definition blob_ll_release :: "bool \<Rightarrow> nat \<Rightarrow> fuse_world \<Rightarrow> fuse_reply res \<times> fuse_world" where
  "blob_ll_release idx_ok fh w =
     (case fw_open w fh of
        None \<Rightarrow> (Ret No_Reply, w)
      | Some f \<Rightarrow>
          let lm = ff_mirror f;
              w = w\<lparr>fw_open := (fw_open w)(fh := None),
                    fw_index := (if idx_ok then (fw_index w)(local_name lm \<mapsto> lm_index lm) else fw_index w)\<rparr>
          in release_handler (lm_get_object lm) No_Reply w)"

text \<open>\<open>rename\<close> and \<open>unlink\<close> of \<open>clone_and_commit\<close>, which come after a successful clone.\<close>

definition rename_local :: "u32 \<times> u32 \<Rightarrow> u32 \<times> u32 \<Rightarrow> fuse_world \<Rightarrow> fuse_world" where
  "rename_local old new w =
     w\<lparr>fw_names := (if old = new then fw_names w else (fw_names w)(new := fw_names w old, old := None)),
       fw_index := (fw_index w)(old := None)\<rparr>"

datatype blob_ioctl = COMMIT | CLONE_AND_COMMIT | Other_Ioctl

definition blob_ll_ioctl ::
  "archive \<Rightarrow> env \<Rightarrow> bool \<Rightarrow> blob_ioctl \<Rightarrow> nat \<Rightarrow> fuse_world \<Rightarrow> (fuse_reply res \<times> fuse_world) option" where
  "blob_ll_ioctl ar env rename_ok cmd fh w =
     (case fw_open w fh of
        None \<Rightarrow> Some (if cmd = Other_Ioctl then Ret (Reply_Err EINVAL) else Und ''fh'', w)
      | Some f \<Rightarrow>
          let lm0 = attach w f;
              reply = (\<lambda>r. case r of Ret ok \<Rightarrow> Ret (Reply_Ioctl (if ok then 0 else -1)) | Thr e \<Rightarrow> Thr e | Und e \<Rightarrow> Und e)
          in case cmd of
               COMMIT \<Rightarrow>
                 (case lm_commit (fuse_ops ar env) lm0 of
                    None \<Rightarrow> None | Some (r, lm) \<Rightarrow> Some (reply r, detach fh (ff_file f) lm w))
             | CLONE_AND_COMMIT \<Rightarrow>
                 (case lm_clone_and_commit (fuse_ops ar env) rename_ok lm0 of
                    None \<Rightarrow> None
                  | Some (r, lm) \<Rightarrow>
                      let w = (if fst (bo_clone (fuse_ops ar env) (lm_blob lm0)) \<and> rename_ok
                               then rename_local (local_name lm0) (local_name lm) w else w)
                      in Some (reply r, detach fh (ff_file f) lm w))
             | Other_Ioctl \<Rightarrow> Some (Ret (Reply_Err EINVAL), w))"

end
