(* ===== verification/Startup.thy ===== *)
theory Startup
  imports Dht_Nodes Pmgr_Listener Vmanagement Fuse_Ops
begin

text \<open>
  The start of the programs: the constructor of the object handler, which reads a configuration file
  (\<open>client/object_handler.cpp\<close>), and \<open>main\<close> of the version manager, the provider manager, the providers, the nodes of the DHT and
  the file system. The content of a file as \<open>libconfig\<close> gives it is a parameter, as are the results of \<open>libfuse\<close>.
\<close>

section \<open>Configuration files\<close>

text \<open>The results of \<open>lookupValue\<close> for the types of its second argument, and of \<open>lookup\<close>; an item of a list is \<open>None\<close> if it is not a string.\<close>

record setting =
  se_is_list :: bool
  se_items :: "string option list"

record libconfig =
  lc_string :: "string \<Rightarrow> string option"
  lc_int :: "string \<Rightarrow> int option"
  lc_uint :: "string \<Rightarrow> u32 option"
  lc_setting :: "string \<Rightarrow> setting option"

datatype config_file = File_IO | Parse_failure nat string | Parsed libconfig

section \<open>The object handler\<close>

definition cached_addGateway :: "string \<Rightarrow> string \<Rightarrow> ('g, 'm) cached_dht \<Rightarrow> ('g, 'm) cached_dht" where
  "cached_addGateway host service c = c\<lparr>cd_dht := addGateway host service (cd_dht c)\<rparr>"

text \<open>\<open>None\<close>: the conversion of an item to a string throws.\<close>

fun add_gateways :: "string \<Rightarrow> string option list \<Rightarrow> ('g, 'm) cached_dht \<Rightarrow> ('g, 'm) cached_dht option" where
  "add_gateways service [] c = Some c"
| "add_gateways service (None # items) c = None"
| "add_gateways service (Some host # items) c = add_gateways service items (cached_addGateway host service c)"

definition handler_error :: "string \<Rightarrow> 'a res" where
  "handler_error what = Thr (''object_handler::object_handler(): '' @ what)"

definition handler_rest :: "libconfig \<Rightarrow> ('g, 'm) cached_dht \<Rightarrow> (object_handler \<times> ('g, 'm) cached_dht) res" where
  "handler_rest cfg dht =
     (case lc_uint cfg ''provider.retry'' of
        None \<Rightarrow> handler_error ''Provider retry count is missing/invalid''
      | Some retry \<Rightarrow>
          (case (lc_string cfg ''pmanager.host'', lc_string cfg ''pmanager.service'', lc_string cfg ''vmanager.host'', lc_string cfg ''vmanager.service'') of
             (Some ph, Some ps, Some vh, Some vs) \<Rightarrow> Ret (object_handler_new retry ph ps vh vs, dht)
           | _ \<Rightarrow> handler_error ''object_handler parameters are missing/invalid''))"

text \<open>The number of replicas, an \<open>int\<close>, is passed as an \<open>unsigned int\<close>.\<close>

definition handler_config :: "libconfig \<Rightarrow> (object_handler \<times> ('g, 'm) cached_dht) res" where
  "handler_config cfg =
     (case lc_string cfg ''dht.service'' of
        None \<Rightarrow> handler_error ''DHT port is missing/invalid''
      | Some service \<Rightarrow>
          (case lc_setting cfg ''dht.gateways'' of
             None \<Rightarrow> handler_error ''Unknown exception''
           | Some s \<Rightarrow>
               if \<not> se_is_list s \<or> length (se_items s) \<le> 0 then handler_error ''Gateways are missing/invalid''
               else (case (lc_int cfg ''dht.replication'', lc_int cfg ''dht.timeout'', lc_int cfg ''dht.cachesize'') of
                       (Some repl, Some timeout, Some csize) \<Rightarrow>
                         (case add_gateways service (se_items s) (cached_dht_new (of_int repl) (of_int csize)) of
                            None \<Rightarrow> handler_error ''Unknown exception''
                          | Some dht \<Rightarrow> handler_rest cfg dht)
                     | _ \<Rightarrow> handler_error ''DHT parameters are missing/invalid'')))"

definition object_handler_open :: "(string \<Rightarrow> config_file) \<Rightarrow> string \<Rightarrow> (object_handler \<times> ('g, 'm) cached_dht) res" where
  "object_handler_open files name =
     (case files name of
        File_IO \<Rightarrow> handler_error (''I/O error trying to parse config file: '' @ name)
      | Parse_failure line e \<Rightarrow> handler_error (''Parse exception (line '' @ show_dec line @ ''): '' @ e)
      | Parsed cfg \<Rightarrow> handler_config cfg)"

section \<open>The servers\<close>

text \<open>A program ends with an exit code or serves requests at a port, from a first state.\<close>

datatype 's program = Exit int | Serves string 's

definition read_config :: "config_file \<Rightarrow> (libconfig \<Rightarrow> 'a option) \<Rightarrow> int + 'a" where
  "read_config file look =
     (case file of
        File_IO \<Rightarrow> Inl 2
      | Parse_failure line e \<Rightarrow> Inl 3
      | Parsed cfg \<Rightarrow> (case look cfg of None \<Rightarrow> Inl 4 | Some a \<Rightarrow> Inr a))"

definition vmanager_main :: "(string \<Rightarrow> config_file) \<Rightarrow> string list \<Rightarrow> vmanagement program" where
  "vmanager_main files argv =
     (if length argv \<noteq> 2 then Exit 1
      else case read_config (files (argv ! 1)) (\<lambda>cfg. lc_string cfg ''vmanager.service'') of
             Inl code \<Rightarrow> Exit code
           | Inr service \<Rightarrow> Serves service vmanagement_init)"

definition pmanager_main :: "(string \<Rightarrow> config_file) \<Rightarrow> string list \<Rightarrow> adv_table_t program" where
  "pmanager_main files argv =
     (if length argv \<noteq> 2 then Exit 1
      else case read_config (files (argv ! 1)) (\<lambda>cfg. lc_string cfg ''pmanager.service'') of
             Inl code \<Rightarrow> Exit code
           | Inr service \<Rightarrow> Serves service [])"

text \<open>Pages in memory or in a database; \<open>open_db\<close> is the database with a name.\<close>

datatype ('l, 'd) storage = In_memory "(null_bw_map, 'l) page_manager" | In_database "('d bdb_bw_map, 'l) page_manager"

definition provider_config :: "libconfig \<Rightarrow> (string \<times> u32 \<times> string \<times> string \<times> string \<times> u32) option" where
  "provider_config cfg =
     (case (lc_string cfg ''provider.service'', lc_uint cfg ''provider.cacheslots'', lc_string cfg ''pmanager.host'', lc_string cfg ''pmanager.service'') of
        (Some service, Some cache_slots, Some phost, Some pservice) \<Rightarrow>
          (case (lc_uint cfg ''provider.urate'', lc_string cfg ''provider.dbname'', lc_uint cfg ''provider.space'') of
             (Some rate, Some db_name, Some total_space) \<Rightarrow> Some (service, cache_slots, phost, pservice, db_name, total_space)
           | _ \<Rightarrow> None)
      | _ \<Rightarrow> None)"

definition given_port :: "string list \<Rightarrow> string \<Rightarrow> string" where
  "given_port argv service = (if length argv = 3 then argv ! 2 else service)"

definition provider_main ::
  "archive \<Rightarrow> (string \<Rightarrow> 'd) \<Rightarrow> (string \<Rightarrow> config_file) \<Rightarrow> string list \<Rightarrow> (listener_state, 'd) storage program" where
  "provider_main ar open_db files argv =
     (if length argv \<noteq> 2 \<and> length argv \<noteq> 3 then Exit 1
      else case read_config (files (argv ! 1)) provider_config of
             Inl code \<Rightarrow> Exit code
           | Inr (service, cache_slots, phost, pservice, db_name, total_space) \<Rightarrow>
               let service = given_port argv service
               in Serves service
                    (if db_name \<noteq> []
                     then In_database (provider_start ar phost pservice service total_space
                            (bdb_bw_map_new (open_db db_name) (ucast cache_slots) (provider_space total_space)))
                     else In_memory (provider_start ar phost pservice service total_space
                            (null_bw_map_new (ucast cache_slots) (provider_space total_space)))))"

definition sdht_config :: "libconfig \<Rightarrow> (string \<times> u32 \<times> string \<times> u32) option" where
  "sdht_config cfg =
     (case (lc_string cfg ''dht.service'', lc_uint cfg ''sdht.cacheslots'', lc_string cfg ''sdht.dbname'', lc_uint cfg ''sdht.space'') of
        (Some service, Some cache_slots, Some db_name, Some total_space) \<Rightarrow> Some (service, cache_slots, db_name, total_space)
      | _ \<Rightarrow> None)"

definition sdht_main :: "(string \<Rightarrow> 'd) \<Rightarrow> (string \<Rightarrow> config_file) \<Rightarrow> string list \<Rightarrow> (unit, 'd) storage program" where
  "sdht_main open_db files argv =
     (if length argv \<noteq> 2 \<and> length argv \<noteq> 3 then Exit 1
      else case read_config (files (argv ! 1)) sdht_config of
             Inl code \<Rightarrow> Exit code
           | Inr (service, cache_slots, db_name, total_space) \<Rightarrow>
               Serves (given_port argv service)
                 (if db_name \<noteq> []
                  then In_database (page_manager_new (bdb_bw_map_new (open_db db_name) (ucast cache_slots) (push_bit 20 1 * ucast total_space)) False ())
                  else In_memory (sdht_start cache_slots total_space)))"

section \<open>The file system\<close>

text \<open>
  \<open>bindings/blob-fuse/main.cpp\<close>. The results of \<open>libfuse\<close>: whether the options are parsed, the file and the help flag they set, whether
  the command line is parsed, the mount made, the session created and the signal handlers set, and the result of the session.
\<close>

record fuse_calls =
  fc_parsed :: bool
  fc_cfg_file :: "string option"
  fc_is_help :: bool
  fc_cmdline :: bool
  fc_mount :: bool
  fc_session :: bool
  fc_signals :: bool
  fc_loop :: int

datatype fuse_request = Lookup | Getattr | Setattr | Readdir | Open | Read | Write | Flush | Release | Ioctl

datatype fuse_action = Config_missing | Init string | Session "fuse_request list" | Destroy

definition blob_ll_oper :: "fuse_request list" where
  "blob_ll_oper = [Lookup, Getattr, Setattr, Readdir, Open, Read, Write, Flush, Release]"

definition fuse_main :: "fuse_calls \<Rightarrow> fuse_action list \<times> int" where
  "fuse_main fc =
     (let start = (if fc_parsed fc \<and> \<not> fc_is_help fc
                   then case fc_cfg_file fc of None \<Rightarrow> [Config_missing] | Some f \<Rightarrow> [Init f]
                   else []);
          (serve, err) = (if (fc_is_help fc \<or> fc_cfg_file fc \<noteq> None) \<and> fc_cmdline fc \<and> fc_mount fc
                          then if fc_session fc \<and> fc_signals fc then ([Session blob_ll_oper], fc_loop fc) else ([], - 1)
                          else ([], - 1))
      in (start @ serve @ [Destroy], if err \<noteq> 0 then 1 else 0))"

section \<open>What is started\<close>

lemma add_gateways_result:
  "add_gateways service items c = Some c' \<Longrightarrow>
     \<exists>hosts. items = map Some hosts \<and> gateways (cd_dht c') = gateways (cd_dht c) @ map (\<lambda>h. gateway_new h service) hosts \<and>
       replication (cd_dht c') = replication (cd_dht c) \<and> statuses (cd_dht c') = statuses (cd_dht c)"
proof (induction service items c rule: add_gateways.induct)
  case (3 service host items c)
  from 3(1) 3(2) obtain hosts where "items = map Some hosts"
    "gateways (cd_dht c') = gateways (cd_dht c) @ map (\<lambda>h. gateway_new h service) (host # hosts)"
    "replication (cd_dht c') = replication (cd_dht c)" "statuses (cd_dht c') = statuses (cd_dht c)"
    by (auto simp: cached_addGateway_def addGateway_def)
  then show ?case by (intro exI [of _ "host # hosts"]) simp
qed auto

text \<open>
  A handler that was constructed has a DHT client with at least one gateway, so no request of it divides by zero,
  and all gateways are at the configured port.
\<close>

lemma handler_opened:
  assumes "object_handler_open files name = Ret (oh, c)"
  shows "fresh (cd_dht c) \<and> (\<exists>cfg service r. files name = Parsed cfg \<and> lc_string cfg ''dht.service'' = Some service \<and>
     lc_int cfg ''dht.replication'' = Some r \<and> replication (cd_dht c) = of_int r \<and> snd ` set (addresses (cd_dht c)) = {service} \<and>
     lc_string cfg ''vmanager.host'' = Some (vmgr_host oh) \<and> lc_string cfg ''vmanager.service'' = Some (vmgr_service oh) \<and>
     lc_string cfg ''pmanager.host'' = Some (publisher_host oh) \<and> lc_string cfg ''pmanager.service'' = Some (publisher_service oh) \<and>
     lc_uint cfg ''provider.retry'' = Some (retry_count oh))"
proof -
  obtain cfg where cfg: "files name = Parsed cfg" "handler_config cfg = Ret (oh, c)"
    using assms by (auto simp: object_handler_open_def handler_error_def split: config_file.splits)
  have rest: "handler_rest cfg c' = Ret (oh, c) \<Longrightarrow> c' = c" for c'
    by (auto simp: handler_rest_def handler_error_def split: option.splits)
  note opn = cfg(2) [unfolded handler_config_def handler_error_def]
  from opn obtain service where service: "lc_string cfg ''dht.service'' = Some service" by (cases "lc_string cfg ''dht.service''") auto
  from opn service obtain s where gws: "lc_setting cfg ''dht.gateways'' = Some s" "se_items s \<noteq> []"
    by (cases "lc_setting cfg ''dht.gateways''") (auto split: if_splits)
  from opn service gws obtain r t cs where ints: "lc_int cfg ''dht.replication'' = Some r" "lc_int cfg ''dht.timeout'' = Some t"
      "lc_int cfg ''dht.cachesize'' = Some cs" by (auto split: option.splits if_splits)
  obtain c' where added: "add_gateways service (se_items s) (cached_dht_new (of_int r) (of_int cs)) = Some c'" "handler_rest cfg c' = Ret (oh, c)"
    using opn service gws ints by (auto split: option.splits if_splits)
  with rest have c': "c' = c" by blast
  from add_gateways_result [OF added(1) [unfolded c']] obtain hosts where h: "se_items s = map Some hosts"
      "gateways (cd_dht c) = map (\<lambda>h. gateway_new h service) hosts" "replication (cd_dht c) = of_int r"
    by (auto simp: cached_dht_new_def simple_dht_new_def)
  have "fresh (cd_dht c)" using h gws(2) by (auto simp: fresh_def)
  moreover have "snd ` set (addresses (cd_dht c)) = {service}" using h gws(2) by (cases hosts) (auto simp: addresses_def gateway_new_def)
  ultimately show ?thesis using cfg(1) service ints(1) added(2) h(3)
    by (auto simp: handler_rest_def handler_error_def object_handler_new_def split: option.splits)
qed

text \<open>The constructor returns or throws: no configuration makes it undefined.\<close>

lemma handler_open_defined: "object_handler_open files name \<noteq> Und e"
  by (auto simp: object_handler_open_def handler_config_def handler_rest_def handler_error_def split: config_file.splits option.splits)

text \<open>
  The number of replicas is not checked. With none, a put sends nothing and its callback is never called, so that the writer,
  which waits for failures only, takes it for stored.
\<close>

lemma no_replicas_no_callback:
  assumes "fresh d" "replication d = 0" "\<And>rs. mset (arrival rs) = mset rs"
  shows "\<exists>d1 d2. dht_put key v m d = Some d1 \<and> dht_wait client rpc arrival net (d1, x) = Some (net, d2, x)"
proof -
  let ?d = "d\<lparr>statuses := statuses d @ [0]\<rparr>"
  have put: "dht_put key v m d = Some ?d" using assms(2) by (simp add: dht_put_def)
  have "gateway_requests gw = []" if "gw \<in> set (gateways d)" for gw
    using that assms(1) by (auto simp: fresh_def gateway_new_def gateway_requests_def)
  then have "concat (map gateway_requests (gateways ?d)) = []" by simp
  moreover have "arrival [] = []" by (metis assms(3) mset_zero_iff)
  ultimately have "wait_round client rpc arrival net (?d, x) = Some (True, net, ?d\<lparr>gateways := map gateway_clear (gateways ?d)\<rparr>, x)"
    by (simp only: wait_round_def Let_def prod.case run_requests.simps option.map simp_thms)
  then have "dht_wait client rpc arrival net (?d, x) = Some (net, ?d\<lparr>gateways := map gateway_clear (gateways ?d)\<rparr>, x)"
    by (subst dht_wait.simps) simp
  with put show ?thesis by blast
qed

text \<open>The exit code of a server says what was wrong; otherwise it serves.\<close>

lemma vmanager_exit:
  "vmanager_main files argv = Exit code \<longleftrightarrow>
     (if length argv \<noteq> 2 then code = 1
      else case files (argv ! 1) of
             File_IO \<Rightarrow> code = 2 | Parse_failure l e \<Rightarrow> code = 3
           | Parsed cfg \<Rightarrow> lc_string cfg ''vmanager.service'' = None \<and> code = 4)"
  by (auto simp: vmanager_main_def read_config_def split: config_file.splits option.splits)

text \<open>Providers and nodes in memory start in the states that the other theories assume.\<close>

lemma provider_in_memory:
  assumes "provider_main ar open_db files argv = Serves service (In_memory pm)" "provider_serves ar null_ops pm pm'"
  shows "pl_free_space (fst (listeners pm')) = null_get_free (page_cache pm')"
proof -
  obtain ph ps sp cs where "pm = provider_start ar ph ps service sp (null_bw_map_new cs (provider_space sp))"
    using assms(1) by (auto simp: provider_main_def Let_def split: if_splits sum.splits)
  then show ?thesis using null_account.listener_in_step [of ar ph ps service sp] assms(2)
    by (simp add: null_ops_def null_get_free_def null_bw_map_new_def)
qed

lemma sdht_in_memory:
  assumes "sdht_main open_db files argv = Serves service (In_memory pm)"
  shows "\<exists>cs sp. sdht_serves (sdht_start cs sp) pm"
  using assms sd_start by (fastforce simp: sdht_main_def split: if_splits sum.splits)

text \<open>If the options cannot be parsed after a configuration file was given, the file system serves requests without a pool of handlers.\<close>

lemma served_without_pool:
  assumes "\<not> fc_parsed fc" "fc_cfg_file fc = Some f" "fc_cmdline fc" "fc_mount fc" "fc_session fc" "fc_signals fc"
  shows "fst (fuse_main fc) = [Session blob_ll_oper, Destroy]"
  using assms by (simp add: fuse_main_def)

text \<open>Otherwise a session has the pool, unless help was asked for; commits cannot be requested, since \<open>ioctl\<close> is not registered.\<close>

lemma session_after_init:
  assumes "Session ops \<in> set (fst (fuse_main fc))" "fc_parsed fc" "\<not> fc_is_help fc"
  shows "\<exists>f. fst (fuse_main fc) = [Init f, Session ops, Destroy] \<and> Ioctl \<notin> set ops"
  using assms by (auto simp: fuse_main_def blob_ll_oper_def split: if_splits option.splits)

end
