(* ===== verification/Bamboo_Dht.thy ===== *)
theory Bamboo_Dht
  imports Prelude "HOL-Library.Multiset"
begin

text \<open>
  \<open>common/bamboo_dht.cpp\<close>, \<open>common/bamboo_dht.hpp\<close>, \<open>common/async_dht.hpp\<close>: an older client for the Bamboo DHT, with
  the interface that \<open>common/simple_dht.hpp\<close> has now. A request goes to a random gateway over SUN RPC and is repeated until it
  succeeds or the connection attempts are used up.

  The parameters are the functions of SUN RPC and SHA-1: for the attempt with a number, the random
  number drawn, whether the connection is made, and the return code and result of the remote call.
\<close>

datatype bamboo_stat = BAMBOO_OK | BAMBOO_CAP | BAMBOO_AGAIN

definition VALUE_SIZE_MAX :: nat where "VALUE_SIZE_MAX = 1024"
definition E_RPC_FAILURE :: int where "E_RPC_FAILURE = - 1"
definition E_MAXVALUE_EXCEEDED :: int where "E_MAXVALUE_EXCEEDED = - 2"
definition APP_STRING :: string where "APP_STRING = ''DHT C++ lib''"
definition CLIB_STRING :: string where "CLIB_STRING = ''rpcgen''"
definition HASH_DESC :: string where "HASH_DESC = ''SHA1''"

record bamboo_dht =
  bd_retry_count :: int
  bd_time_out :: int
  bd_gateways :: "(string \<times> string) list"

record bamboo_get_args =
  ga_application :: string
  ga_client_library :: string
  ga_key :: buffer
  ga_maxvals :: int
  ga_placemark :: buffer

record bamboo_put_arguments =
  pa_application :: string
  pa_client_library :: string
  pa_key :: buffer
  pa_value :: buffer
  pa_secret_hash :: "string \<times> buffer"
  pa_ttl_sec :: int

record bamboo_rm_arguments =
  ra_application :: string
  ra_client_library :: string
  ra_key :: buffer
  ra_value_hash :: "string \<times> buffer"
  ra_secret_hash_alg :: string
  ra_secret :: string
  ra_ttl_sec :: int

type_synonym 'a rpc_result = "int \<times> 'a"

record bamboo_rpc =
  br_rand :: "int \<Rightarrow> nat"
  br_connect :: "int \<Rightarrow> string \<times> string \<Rightarrow> bool"
  br_get :: "int \<Rightarrow> string \<times> string \<Rightarrow> bamboo_get_args \<Rightarrow> buffer list rpc_result"
  br_put :: "int \<Rightarrow> string \<times> string \<Rightarrow> bamboo_put_arguments \<Rightarrow> bamboo_stat rpc_result"
  br_rm :: "int \<Rightarrow> string \<times> string \<Rightarrow> bamboo_rm_arguments \<Rightarrow> bamboo_stat rpc_result"
  br_sha1 :: "buffer \<Rightarrow> buffer"

definition bamboo_dht_new :: "int \<Rightarrow> int \<Rightarrow> bamboo_dht" where
  "bamboo_dht_new rc to = \<lparr>bd_retry_count = rc, bd_time_out = to, bd_gateways = []\<rparr>"

text \<open>\<open>resolved\<close>: the name of the gateway could be resolved.\<close>

definition bamboo_addGateway :: "bool \<Rightarrow> string \<Rightarrow> string \<Rightarrow> bamboo_dht \<Rightarrow> bamboo_dht" where
  "bamboo_addGateway resolved host service d = (if resolved then d\<lparr>bd_gateways := bd_gateways d @ [(host, service)]\<rparr> else d)"

section \<open>Connections\<close>

function connect_loop :: "bamboo_rpc \<Rightarrow> bamboo_dht \<Rightarrow> int \<Rightarrow> (string \<times> string) option \<times> int" where
  "connect_loop rpc d no =
     (if no < bd_retry_count d
      then let gw = bd_gateways d ! (br_rand rpc no mod length (bd_gateways d))
           in if br_connect rpc no gw then (Some gw, no + 1) else connect_loop rpc d (no + 1)
      else (None, no))"
  by auto
termination by (relation "measure (\<lambda>(rpc, d, no). nat (bd_retry_count d - no))") auto

declare connect_loop.simps [simp del]

text \<open>The gateway connected to, if any, and the number of attempts so far.\<close>

definition getRPCConnection :: "bamboo_rpc \<Rightarrow> bamboo_dht \<Rightarrow> int \<Rightarrow> (string \<times> string) option \<times> int" where
  "getRPCConnection rpc d no = (if bd_gateways d = [] then (None, no) else connect_loop rpc d no)"

section \<open>Requests\<close>

text \<open>
  The loops of the requests; \<open>again\<close> says whether a result is not yet final, \<open>call\<close> is the remote call, and
  \<open>None\<close> that the loop never ends.
\<close>

partial_function (option) request_loop ::
  "(int \<times> 'r \<Rightarrow> bool) \<Rightarrow> (int \<Rightarrow> string \<times> string \<Rightarrow> 'r rpc_result) \<Rightarrow> bamboo_rpc \<Rightarrow> bamboo_dht \<Rightarrow> int \<Rightarrow> 'r rpc_result \<Rightarrow> 'r rpc_result option" where
  "request_loop again call rpc d no res =
     (if again res \<and> no < bd_retry_count d
      then case getRPCConnection rpc d no of
             (None, no) \<Rightarrow> request_loop again call rpc d no res
           | (Some gw, no) \<Rightarrow> request_loop again call rpc d no (call (no - 1) gw)
      else Some res)"

text \<open>The empty buffer is returned on failure.\<close>

definition bamboo_getValue :: "bamboo_rpc \<Rightarrow> buffer \<Rightarrow> bamboo_dht \<Rightarrow> buffer option" where
  "bamboo_getValue rpc key d =
     (let args = \<lparr>ga_application = APP_STRING, ga_client_library = CLIB_STRING, ga_key = br_sha1 rpc key, ga_maxvals = 1, ga_placemark = []\<rparr>
      in map_option (\<lambda>(ret, values). if ret = 0 then (if length values = 1 then values ! 0 else []) else [])
           (request_loop (\<lambda>(ret, _). ret \<noteq> 0) (\<lambda>no gw. br_get rpc no gw args) rpc d 0 (- 1, [])))"

definition string_bytes :: "string \<Rightarrow> buffer" where
  "string_bytes s = map (\<lambda>c. of_nat (of_char c)) s"

definition bamboo_put :: "bamboo_rpc \<Rightarrow> buffer \<Rightarrow> buffer \<Rightarrow> int \<Rightarrow> string \<Rightarrow> bamboo_dht \<Rightarrow> int option" where
  "bamboo_put rpc key value ttl secret d =
     (if VALUE_SIZE_MAX < length value then Some E_MAXVALUE_EXCEEDED
      else let args = \<lparr>pa_application = APP_STRING, pa_client_library = CLIB_STRING, pa_key = br_sha1 rpc key, pa_value = value,
                       pa_secret_hash = (HASH_DESC, br_sha1 rpc (string_bytes (if secret \<noteq> [] then secret else HASH_DESC))), pa_ttl_sec = ttl\<rparr>
           in map_option (\<lambda>(ret, stat). if ret = 0 \<and> stat = BAMBOO_OK then 0 else E_RPC_FAILURE)
                (request_loop (\<lambda>(ret, stat). ret \<noteq> 0 \<or> stat \<noteq> BAMBOO_OK) (\<lambda>no gw. br_put rpc no gw args) rpc d 0 (0, BAMBOO_AGAIN)))"

definition bamboo_remove :: "bamboo_rpc \<Rightarrow> buffer \<Rightarrow> buffer \<Rightarrow> int \<Rightarrow> string \<Rightarrow> bamboo_dht \<Rightarrow> int option" where
  "bamboo_remove rpc key value ttl secret d =
     (if VALUE_SIZE_MAX < length value then Some E_MAXVALUE_EXCEEDED
      else let args = \<lparr>ra_application = APP_STRING, ra_client_library = CLIB_STRING, ra_key = br_sha1 rpc key,
                       ra_value_hash = (HASH_DESC, br_sha1 rpc value), ra_secret_hash_alg = HASH_DESC,
                       ra_secret = (if secret \<noteq> [] then secret else HASH_DESC), ra_ttl_sec = ttl\<rparr>
           in map_option (\<lambda>(ret, stat). if ret = 0 \<and> stat = BAMBOO_OK then 0 else E_RPC_FAILURE)
                (request_loop (\<lambda>(ret, stat). ret \<noteq> 0 \<or> stat = BAMBOO_AGAIN) (\<lambda>no gw. br_rm rpc no gw args) rpc d 0 (0, BAMBOO_AGAIN)))"

section \<open>The asynchronous interface\<close>

text \<open>
  Requests are tasks of a pool of threads; a task calls its callback with the result of the request. \<open>order\<close> is the
  order in which the tasks end.
\<close>

datatype ('m, 'g) dht_task =
    Put_task buffer buffer int string 'm
  | Remove_task buffer buffer int string 'm
  | Get_task buffer 'g

datatype ('m, 'g) dht_callback = Mutated 'm int | Got 'g buffer

record ('m, 'g) async_dht =
  ad_dht :: bamboo_dht
  ad_tasks :: "('m, 'g) dht_task list"

definition async_dht_new :: "int \<Rightarrow> int \<Rightarrow> ('m, 'g) async_dht" where
  "async_dht_new rc to = \<lparr>ad_dht = bamboo_dht_new rc to, ad_tasks = []\<rparr>"

definition async_addGateway :: "bool \<Rightarrow> string \<Rightarrow> string \<Rightarrow> ('m, 'g) async_dht \<Rightarrow> ('m, 'g) async_dht" where
  "async_addGateway resolved host service a = a\<lparr>ad_dht := bamboo_addGateway resolved host service (ad_dht a)\<rparr>"

definition async_put :: "buffer \<Rightarrow> buffer \<Rightarrow> int \<Rightarrow> string \<Rightarrow> 'm \<Rightarrow> ('m, 'g) async_dht \<Rightarrow> ('m, 'g) async_dht" where
  "async_put key value ttl secret cb a = a\<lparr>ad_tasks := ad_tasks a @ [Put_task key value ttl secret cb]\<rparr>"

definition async_remove :: "buffer \<Rightarrow> buffer \<Rightarrow> int \<Rightarrow> string \<Rightarrow> 'm \<Rightarrow> ('m, 'g) async_dht \<Rightarrow> ('m, 'g) async_dht" where
  "async_remove key value ttl secret cb a = a\<lparr>ad_tasks := ad_tasks a @ [Remove_task key value ttl secret cb]\<rparr>"

definition async_get :: "buffer \<Rightarrow> 'g \<Rightarrow> ('m, 'g) async_dht \<Rightarrow> ('m, 'g) async_dht" where
  "async_get key cb a = a\<lparr>ad_tasks := ad_tasks a @ [Get_task key cb]\<rparr>"

fun run_task :: "bamboo_rpc \<Rightarrow> bamboo_dht \<Rightarrow> ('m, 'g) dht_task \<Rightarrow> ('m, 'g) dht_callback option" where
  "run_task rpc d (Put_task key value ttl secret cb) = map_option (Mutated cb) (bamboo_put rpc key value ttl secret d)"
| "run_task rpc d (Remove_task key value ttl secret cb) = map_option (Mutated cb) (bamboo_remove rpc key value ttl secret d)"
| "run_task rpc d (Get_task key cb) = map_option (Got cb) (bamboo_getValue rpc key d)"

text \<open>\<open>None\<close>: a task never ends.\<close>

definition async_wait ::
  "bamboo_rpc \<Rightarrow> (('m, 'g) dht_task list \<Rightarrow> ('m, 'g) dht_task list) \<Rightarrow> ('m, 'g) async_dht \<Rightarrow> (('m, 'g) dht_callback list \<times> ('m, 'g) async_dht) option" where
  "async_wait rpc order a =
     (if \<exists>t \<in> set (ad_tasks a). run_task rpc (ad_dht a) t = None then None
      else Some (map (\<lambda>t. the (run_task rpc (ad_dht a) t)) (order (ad_tasks a)), a\<lparr>ad_tasks := []\<rparr>))"

section \<open>When requests return\<close>

lemma connect_loop_result:
  "connect_loop rpc d no = (gw, no') \<Longrightarrow> no < bd_retry_count d \<Longrightarrow> no < no' \<and> no' \<le> bd_retry_count d \<and>
     (case gw of None \<Rightarrow> no' = bd_retry_count d | Some g \<Rightarrow> br_connect rpc (no' - 1) g \<and> (bd_gateways d \<noteq> [] \<longrightarrow> g \<in> set (bd_gateways d)))"
proof (induction rpc d no rule: connect_loop.induct)
  case (1 rpc d no)
  let ?gw = "bd_gateways d ! (br_rand rpc no mod length (bd_gateways d))"
  show ?case
  proof (cases "br_connect rpc no ?gw")
    case True
    then show ?thesis using 1(2,3) by (auto simp: connect_loop.simps [of rpc d no] Let_def)
  next
    case False
    then have step: "connect_loop rpc d (no + 1) = (gw, no')" using 1(2,3) by (simp add: connect_loop.simps [of rpc d no] Let_def)
    show ?thesis
    proof (cases "no + 1 < bd_retry_count d")
      case True
      from 1(1) [OF 1(3) refl False step True] show ?thesis by auto
    next
      case last: False
      then show ?thesis using step 1(3) by (auto simp: connect_loop.simps [of rpc d "no + 1"])
    qed
  qed
qed

text \<open>With a gateway every request ends, after at most \<open>retry_count\<close> attempts to connect.\<close>

lemma request_loop_returns:
  assumes "bd_gateways d \<noteq> []"
  shows "\<exists>res'. request_loop again call rpc d no res = Some res'"
proof (induction "nat (bd_retry_count d - no)" arbitrary: no res rule: less_induct)
  case less
  show ?case
  proof (cases "again res \<and> no < bd_retry_count d")
    case True
    obtain gw no' where c: "connect_loop rpc d no = (gw, no')" by fastforce
    then have "no < no'" using connect_loop_result [OF c] True by simp
    then have "nat (bd_retry_count d - no') < nat (bd_retry_count d - no)" using True by simp
    from less [OF this] show ?thesis
      using True assms c by (subst request_loop.simps) (simp add: getRPCConnection_def split: option.split)
  next
    case False
    then show ?thesis by (subst request_loop.simps) (auto simp only: if_False simp_thms)
  qed
qed

text \<open>Without one the attempts are never used up: the loop does not end.\<close>

lemma request_loop_hangs:
  assumes "bd_gateways d = []" "again res" "no < bd_retry_count d"
  shows "request_loop again call rpc d no res = None"
proof (rule ccontr)
  assume "request_loop again call rpc d no res \<noteq> None"
  then obtain r where r: "request_loop again call rpc d no res = Some r" by auto
  have "\<not> (bd_gateways d = [] \<and> again res \<and> no < bd_retry_count d)"
  proof (rule request_loop.raw_induct [where P = "\<lambda>again call rpc d no res r. \<not> (bd_gateways d = [] \<and> again res \<and> no < bd_retry_count d)", OF _ r])
    fix loop again call rpc d no res and r :: "int \<times> 'a"
    assume 1: "\<And>again call rpc d no res r. loop again call rpc d no res = Some r \<Longrightarrow> \<not> (bd_gateways d = [] \<and> again res \<and> no < bd_retry_count d)"
      "(if again res \<and> no < bd_retry_count d
        then case getRPCConnection rpc d no of (None, no) \<Rightarrow> loop again call rpc d no res | (Some gw, no) \<Rightarrow> loop again call rpc d no (call (no - 1) gw)
        else Some res) = Some r"
    show "\<not> (bd_gateways d = [] \<and> again res \<and> no < bd_retry_count d)"
    proof
      assume 2: "bd_gateways d = [] \<and> again res \<and> no < bd_retry_count d"
      then have "loop again call rpc d no res = Some r" using 1(2) by (simp add: getRPCConnection_def)
      from 1(1) [OF this] 2 show False by blast
    qed
  qed
  then show False using assms by blast
qed

lemma bamboo_get_returns_iff: "bamboo_getValue rpc key d \<noteq> None \<longleftrightarrow> bd_gateways d \<noteq> [] \<or> bd_retry_count d \<le> 0"
proof (cases "bd_gateways d = []")
  case none: True
  then show ?thesis
  proof (cases "bd_retry_count d \<le> 0")
    case True
    then show ?thesis unfolding bamboo_getValue_def by (simp add: request_loop.simps)
  next
    case False
    then show ?thesis using none request_loop_hangs [OF none, of "\<lambda>(ret, _). ret \<noteq> 0" "(- 1, [] :: buffer list)" 0] by (simp add: bamboo_getValue_def)
  qed
next
  case False
  from request_loop_returns [OF False] obtain r where
    "request_loop (\<lambda>(ret, _). ret \<noteq> 0) (\<lambda>no gw. br_get rpc no gw \<lparr>ga_application = APP_STRING, ga_client_library = CLIB_STRING,
       ga_key = br_sha1 rpc key, ga_maxvals = 1, ga_placemark = []\<rparr>) rpc d 0 (- 1, []) = Some r" by blast
  then show ?thesis using False by (simp add: bamboo_getValue_def)
qed

text \<open>The result of a request that changed anything is that of a call on one of the gateways.\<close>

lemma request_loop_result:
  assumes "request_loop again call rpc d no res = Some res'"
  shows "bd_gateways d \<noteq> [] \<longrightarrow> res' = res \<or> (\<exists>n gw. gw \<in> set (bd_gateways d) \<and> br_connect rpc n gw \<and> res' = call n gw)"
proof (rule request_loop.raw_induct [where P = "\<lambda>again call rpc d no res res'. bd_gateways d \<noteq> [] \<longrightarrow> res' = res \<or>
    (\<exists>n gw. gw \<in> set (bd_gateways d) \<and> br_connect rpc n gw \<and> res' = call n gw)", OF _ assms])
  fix loop again call rpc d no res and res' :: "int \<times> 'a"
  assume 1: "\<And>again call rpc d no res res'. loop again call rpc d no res = Some res' \<Longrightarrow> bd_gateways d \<noteq> [] \<longrightarrow> res' = res \<or>
      (\<exists>n gw. gw \<in> set (bd_gateways d) \<and> br_connect rpc n gw \<and> res' = call n gw)"
    "(if again res \<and> no < bd_retry_count d
      then case getRPCConnection rpc d no of (None, no) \<Rightarrow> loop again call rpc d no res | (Some gw, no) \<Rightarrow> loop again call rpc d no (call (no - 1) gw)
      else Some res) = Some res'"
  show "bd_gateways d \<noteq> [] \<longrightarrow> res' = res \<or> (\<exists>n gw. gw \<in> set (bd_gateways d) \<and> br_connect rpc n gw \<and> res' = call n gw)"
  proof (cases "again res \<and> no < bd_retry_count d \<and> bd_gateways d \<noteq> []")
    case True
    obtain gw no' where c: "connect_loop rpc d no = (gw, no')" by fastforce
    note conn = connect_loop_result [OF c]
    show ?thesis
    proof (cases gw)
      case None
      then show ?thesis using 1 True c by (auto simp: getRPCConnection_def)
    next
      case (Some g)
      then have "loop again call rpc d no' (call (no' - 1) g) = Some res'" using 1(2) True c by (simp add: getRPCConnection_def)
      from 1(1) [OF this] have "res' = call (no' - 1) g \<or> (\<exists>n gw. gw \<in> set (bd_gateways d) \<and> br_connect rpc n gw \<and> res' = call n gw)" using True by simp
      moreover have "g \<in> set (bd_gateways d)" "br_connect rpc (no' - 1) g" using Some conn True by simp_all
      ultimately show ?thesis by blast
    qed
  qed (use 1(2) in \<open>auto split: if_splits\<close>)
qed

lemma bamboo_put_stored:
  assumes "bamboo_put rpc key value ttl secret d = Some 0"
  shows "\<exists>n gw args. gw \<in> set (bd_gateways d) \<and> br_connect rpc n gw \<and> br_put rpc n gw args = (0, BAMBOO_OK) \<and>
     pa_key args = br_sha1 rpc key \<and> pa_value args = value \<and> pa_ttl_sec args = ttl"
proof -
  let ?args = "\<lparr>pa_application = APP_STRING, pa_client_library = CLIB_STRING, pa_key = br_sha1 rpc key, pa_value = value,
     pa_secret_hash = (HASH_DESC, br_sha1 rpc (string_bytes (if secret \<noteq> [] then secret else HASH_DESC))), pa_ttl_sec = ttl\<rparr>"
  let ?again = "\<lambda>(ret, stat). ret \<noteq> 0 \<or> stat \<noteq> BAMBOO_OK" and ?call = "\<lambda>no gw. br_put rpc no gw ?args"
  have r: "request_loop ?again ?call rpc d 0 (0, BAMBOO_AGAIN) = Some (0, BAMBOO_OK)"
    using assms by (auto simp: bamboo_put_def Let_def E_RPC_FAILURE_def E_MAXVALUE_EXCEEDED_def split: if_splits)
  have "bd_gateways d \<noteq> []"
  proof
    assume e: "bd_gateways d = []"
    show False
    proof (cases "0 < bd_retry_count d")
      case True
      then show False using r request_loop_hangs [OF e, of ?again "(0, BAMBOO_AGAIN)" 0] by simp
    next
      case False
      then show False using r by (simp add: request_loop.simps)
    qed
  qed
  with request_loop_result [OF r] show ?thesis by force
qed

text \<open>Each scheduled request is called back exactly once.\<close>

lemma async_called_back_once:
  assumes "bd_gateways (ad_dht a) \<noteq> []" "\<And>ts. mset (order ts) = mset ts"
  shows "\<exists>cbs. async_wait rpc order a = Some (cbs, a\<lparr>ad_tasks := []\<rparr>) \<and>
    image_mset Some (mset cbs) = image_mset (run_task rpc (ad_dht a)) (mset (ad_tasks a))"
proof -
  have ret: "run_task rpc (ad_dht a) t \<noteq> None" for t
    using request_loop_returns [OF assms(1)] bamboo_get_returns_iff [of rpc _ "ad_dht a"] assms(1)
    by (cases t) (auto simp: bamboo_put_def bamboo_remove_def Let_def)
  then have eq: "(\<lambda>t. Some (the (run_task rpc (ad_dht a) t))) = run_task rpc (ad_dht a)" by (intro ext option.collapse)
  have "image_mset Some (mset (map (\<lambda>t. the (run_task rpc (ad_dht a) t)) (order (ad_tasks a)))) = image_mset (run_task rpc (ad_dht a)) (mset (ad_tasks a))"
    unfolding mset_map assms(2) image_mset.compositionality comp_def eq ..
  then show ?thesis using ret unfolding async_wait_def by auto
qed

end
