(* ===== verification/Provider_Adv.thy ===== *)
theory Provider_Adv
  imports Structures "HOL-Library.Char_ord" "HOL-Library.List_Lexorder"
begin

text \<open>
  \<open>provider/provider_adv.hpp\<close>: the report of a provider, ordered and compared by host and service. The hash value is
  computed when it is first asked for and kept; 0 means not computed. The hash function of boost is a
  parameter. Strings are compared as \<open>std::string\<close> does, by the values of their characters.
\<close>

record provider_adv =
  pa_host :: string
  pa_service :: string
  pa_free :: u64
  pa_update_rate :: u32
  pa_hash :: u64

definition provider_adv_make :: "string \<Rightarrow> string \<Rightarrow> u64 \<Rightarrow> u32 \<Rightarrow> provider_adv" where
  "provider_adv_make h s f u = \<lparr>pa_host = h, pa_service = s, pa_free = f, pa_update_rate = u, pa_hash = 0\<rparr>"

definition provider_adv_default :: provider_adv where
  "provider_adv_default = provider_adv_make [] [] 0 0"

definition adv_less :: "provider_adv \<Rightarrow> provider_adv \<Rightarrow> bool" where
  "adv_less a b =
     (if pa_host a < pa_host b then True
      else if pa_host b < pa_host a then False
      else pa_service a < pa_service b)"

definition adv_equal :: "provider_adv \<Rightarrow> provider_adv \<Rightarrow> bool" where
  "adv_equal a b \<longleftrightarrow> pa_host a = pa_host b \<and> pa_service a = pa_service b"

definition set_free :: "u64 \<Rightarrow> provider_adv \<Rightarrow> provider_adv" where
  "set_free f a = a\<lparr>pa_free := f\<rparr>"

definition set_update_rate :: "u32 \<Rightarrow> provider_adv \<Rightarrow> provider_adv" where
  "set_update_rate u a = a\<lparr>pa_update_rate := u\<rparr>"

definition set_host :: "string \<Rightarrow> provider_adv \<Rightarrow> provider_adv" where
  "set_host h a = a\<lparr>pa_host := h\<rparr>"

definition adv_empty :: "provider_adv \<Rightarrow> bool" where
  "adv_empty a \<longleftrightarrow> pa_host a = [] \<and> pa_service a = []"

text \<open>The hash value is not serialised; an object that is read keeps the one it has (\<open>h\<close>).\<close>

definition ser_provider_adv :: "archive \<Rightarrow> (string \<times> string \<times> u64 \<times> u32) ser" where
  "ser_provider_adv ar = ser_pair (ar_string ar) (ser_pair (ar_string ar) (ser_pair (ar_u64 ar) (ar_u32 ar)))"

definition adv_fields :: "provider_adv \<Rightarrow> string \<times> string \<times> u64 \<times> u32" where
  "adv_fields a = (pa_host a, pa_service a, pa_free a, pa_update_rate a)"

definition adv_read :: "string \<times> string \<times> u64 \<times> u32 \<Rightarrow> provider_adv \<Rightarrow> provider_adv" where
  "adv_read x a = (case x of (h, s, f, u) \<Rightarrow> a\<lparr>pa_host := h, pa_service := s, pa_free := f, pa_update_rate := u\<rparr>)"

definition provider_adv_hash :: "(string \<times> string \<Rightarrow> u64) \<Rightarrow> provider_adv \<Rightarrow> u64 \<times> provider_adv" where
  "provider_adv_hash str_pair_hash a =
     (let a = (if pa_hash a = 0 then a\<lparr>pa_hash := str_pair_hash (pa_host a, pa_service a)\<rparr> else a) in (pa_hash a, a))"

text \<open>The order is total up to equality, as the containers that use it need.\<close>

lemma adv_less_order:
  "\<not> adv_less a a" "adv_less a b \<Longrightarrow> adv_less b c \<Longrightarrow> adv_less a c" "\<not> adv_less a b \<and> \<not> adv_less b a \<longleftrightarrow> adv_equal a b"
  by (auto simp: adv_less_def adv_equal_def split: if_splits)

lemma adv_round_trip:
  assumes "archive_ok ar"
  shows "map_option (\<lambda>(x, rest). (adv_fields (adv_read x b), rest)) (get (ser_provider_adv ar) (put (ser_provider_adv ar) (adv_fields a) @ rest)) =
    Some (adv_fields a, rest)"
proof -
  have "ser_ok (ser_provider_adv ar)" unfolding ser_provider_adv_def using archive_okD [OF assms] by blast
  then show ?thesis by (simp add: adv_fields_def adv_read_def)
qed

text \<open>Equal reports have equal hash values as long as the host of neither was set after its hash value was asked for.\<close>

definition hash_current :: "(string \<times> string \<Rightarrow> u64) \<Rightarrow> provider_adv \<Rightarrow> bool" where
  "hash_current f a \<longleftrightarrow> pa_hash a \<in> {0, f (pa_host a, pa_service a)}"

lemma hash_current_kept:
  "hash_current f (provider_adv_make h s fr u)" "hash_current f a \<Longrightarrow> hash_current f (set_free fr a)"
  "hash_current f a \<Longrightarrow> hash_current f (set_update_rate u a)" "hash_current f a \<Longrightarrow> hash_current f (snd (provider_adv_hash f a))"
  by (auto simp: hash_current_def provider_adv_make_def set_free_def set_update_rate_def provider_adv_hash_def)

lemma equal_same_hash:
  assumes "hash_current f a" "hash_current f b" "adv_equal a b"
  shows "fst (provider_adv_hash f a) = fst (provider_adv_hash f b)"
  using assms by (auto simp: hash_current_def provider_adv_hash_def adv_equal_def Let_def)

lemma set_host_stale:
  assumes "f (h, s) \<noteq> 0" "f (h', s) \<noteq> f (h, s)"
  shows "\<exists>a b. adv_equal a b \<and> fst (provider_adv_hash f a) \<noteq> fst (provider_adv_hash f b)"
proof -
  let ?a = "set_host h' (snd (provider_adv_hash f (provider_adv_make h s 0 0)))" and ?b = "provider_adv_make h' s 0 0"
  have "adv_equal ?a ?b" by (simp add: adv_equal_def set_host_def provider_adv_hash_def provider_adv_make_def)
  moreover have "fst (provider_adv_hash f ?a) \<noteq> fst (provider_adv_hash f ?b)"
    using assms by (simp add: set_host_def provider_adv_hash_def provider_adv_make_def)
  ultimately show ?thesis by blast
qed

end
