(* ===== verification/Rpc_Timer.thy ===== *)
theory Rpc_Timer
  imports Prelude
begin

text \<open>
  \<open>rpc/rpc_timer.hpp\<close>: the deadlines of sockets. The table has an index by socket, which is unique, and one by
  time, in which entries with the same time are kept in the order of insertion; it is modelled as the
  list of its entries in the order of the second index. A thread looks at it every five seconds and
  closes the sockets whose deadline has passed.
\<close>

type_synonym 's timer_table = "('s \<times> int) list"

fun insert_by_time :: "'s \<times> int \<Rightarrow> 's timer_table \<Rightarrow> 's timer_table" where
  "insert_by_time e [] = [e]"
| "insert_by_time e (x # tab) = (if snd x \<le> snd e then x # insert_by_time e tab else e # x # tab)"

definition add_timer :: "'s \<Rightarrow> int \<Rightarrow> 's timer_table \<Rightarrow> 's timer_table" where
  "add_timer sock t tab = (if sock \<in> fst ` set tab then tab else insert_by_time (sock, t) tab)"

definition cancel_timer :: "'s \<Rightarrow> 's timer_table \<Rightarrow> 's timer_table" where
  "cancel_timer sock tab = filter (\<lambda>e. fst e \<noteq> sock) tab"

definition timer_clear :: "'s timer_table \<Rightarrow> 's timer_table" where
  "timer_clear tab = []"

text \<open>One round of \<open>watchdog_exec\<close> at the time \<open>now\<close>: the sockets it closes, in order, and what is left.\<close>

fun watchdog_round :: "int \<Rightarrow> 's timer_table \<Rightarrow> 's list \<times> 's timer_table" where
  "watchdog_round now [] = ([], [])"
| "watchdog_round now (e # tab) =
     (if snd e < now then case watchdog_round now tab of (closed, tab) \<Rightarrow> (fst e # closed, tab)
      else ([], e # tab))"

text \<open>The calls of other threads and the rounds, each under the lock; \<open>Round now\<close> is a round at time \<open>now\<close>.\<close>

datatype 's timer_event = Add_Timer 's int | Cancel_Timer 's | Clear_Timers | Round int

fun timer_step :: "'s timer_event \<Rightarrow> 's list \<times> 's timer_table \<Rightarrow> 's list \<times> 's timer_table" where
  "timer_step (Add_Timer s t) (closed, tab) = (closed, add_timer s t tab)"
| "timer_step (Cancel_Timer s) (closed, tab) = (closed, cancel_timer s tab)"
| "timer_step Clear_Timers (closed, tab) = (closed, timer_clear tab)"
| "timer_step (Round now) (closed, tab) = (case watchdog_round now tab of (c, tab) \<Rightarrow> (closed @ c, tab))"

definition timer_run :: "'s timer_event list \<Rightarrow> 's list \<times> 's timer_table" where
  "timer_run es = fold timer_step es ([], [])"

section \<open>The table as a map of deadlines\<close>

definition timer_ok :: "'s timer_table \<Rightarrow> bool" where
  "timer_ok tab \<longleftrightarrow> sorted (map snd tab) \<and> distinct (map fst tab)"

fun deadline_step :: "'s timer_event \<Rightarrow> ('s \<rightharpoonup> int) \<Rightarrow> ('s \<rightharpoonup> int)" where
  "deadline_step (Add_Timer s t) m = (if m s = None then m(s \<mapsto> t) else m)"
| "deadline_step (Cancel_Timer s) m = m(s := None)"
| "deadline_step Clear_Timers m = Map.empty"
| "deadline_step (Round now) m = (\<lambda>s. case m s of Some t \<Rightarrow> if t < now then None else Some t | None \<Rightarrow> None)"

definition deadlines :: "'s timer_event list \<Rightarrow> 's \<rightharpoonup> int" where
  "deadlines es = fold deadline_step es Map.empty"

lemma set_insert_by_time [simp]: "set (insert_by_time e tab) = insert e (set tab)"
  by (induction tab) auto

lemma insert_by_time_ok: "timer_ok tab \<Longrightarrow> fst e \<notin> fst ` set tab \<Longrightarrow> timer_ok (insert_by_time e tab)"
proof (induction tab)
  case (Cons x tab)
  have "distinct (map fst (insert_by_time e tab)) \<Longrightarrow> fst x \<notin> fst ` set tab \<Longrightarrow> fst e \<noteq> fst x \<Longrightarrow> fst x \<notin> fst ` set (insert_by_time e tab)" by auto
  with Cons show ?case by (auto simp: timer_ok_def)
qed (simp add: timer_ok_def)

lemma map_of_iff: "timer_ok tab \<Longrightarrow> map_of tab s = Some t \<longleftrightarrow> (s, t) \<in> set tab"
  by (simp add: timer_ok_def)

lemma watchdog_round_split:
  "timer_ok tab \<Longrightarrow> watchdog_round now tab = (map fst (filter (\<lambda>e. snd e < now) tab), filter (\<lambda>e. \<not> snd e < now) tab)"
proof (induction tab)
  case (Cons e tab)
  have ok: "timer_ok tab" using Cons.prems by (simp add: timer_ok_def)
  show ?case
  proof (cases "snd e < now")
    case False
    then have "\<forall>x \<in> set tab. \<not> snd x < now" using Cons.prems by (force simp: timer_ok_def)
    then show ?thesis using False by (simp add: filter_empty_conv filter_id_conv)
  qed (simp add: Cons.IH [OF ok])
qed simp

lemma timer_ok_filter: "timer_ok tab \<Longrightarrow> timer_ok (filter P tab)"
  by (simp add: timer_ok_def distinct_map_filter sorted_filter)

lemma timer_step_ok: "timer_ok tab \<Longrightarrow> timer_ok (snd (timer_step e (closed, tab)))"
  by (cases e) (auto simp: add_timer_def cancel_timer_def timer_clear_def insert_by_time_ok timer_ok_filter watchdog_round_split timer_ok_def [of "[]"])

lemma timer_step_deadlines:
  assumes "timer_ok tab"
  shows "map_of (snd (timer_step e (closed, tab))) = deadline_step e (map_of tab)"
proof
  fix s
  note ok = timer_step_ok [OF assms, of e closed]
  have u: "(s, t) \<in> set tab \<Longrightarrow> s \<in> fst ` set tab" "(s, t) \<in> set tab \<Longrightarrow> (s, t') \<in> set tab \<Longrightarrow> t' = t" for s t t'
    using map_of_iff [OF assms, of s t] map_of_iff [OF assms, of s t'] by (force, simp)
  have "map_of (snd (timer_step e (closed, tab))) s = Some t \<longleftrightarrow> deadline_step e (map_of tab) s = Some t" for t
    unfolding map_of_iff [OF ok]
    using map_of_iff [OF assms] map_of_eq_None_iff [of tab]
    by (cases e) (auto simp: add_timer_def cancel_timer_def timer_clear_def watchdog_round_split [OF assms] split: option.splits if_splits dest: u)
  then show "map_of (snd (timer_step e (closed, tab))) s = deadline_step e (map_of tab) s" by (metis not_None_eq)
qed

lemma timer_run_deadlines: "timer_ok (snd (timer_run es)) \<and> map_of (snd (timer_run es)) = deadlines es"
proof (induction es rule: rev_induct)
  case (snoc e es)
  obtain closed tab where r: "timer_run es = (closed, tab)" by (metis surj_pair)
  have "timer_run (es @ [e]) = timer_step e (closed, tab)" "deadlines (es @ [e]) = deadline_step e (deadlines es)"
    using r by (simp_all add: timer_run_def deadlines_def)
  with snoc r timer_step_ok timer_step_deadlines show ?case by (metis snd_conv)
qed (simp add: timer_run_def deadlines_def timer_ok_def)

text \<open>
  C34: The timer queue refines a map from sockets to deadlines. After any sequence of calls, a round at the
  time \<open>now\<close> closes exactly the sockets whose deadline in the map is before \<open>now\<close>, each once and in the order
  of the deadlines, and forgets exactly these; in particular a socket whose timer was cancelled is never
  closed, and a second \<open>add_timer\<close> for the same socket does not extend its deadline.
\<close>

theorem watchdog_closes_expired:
  "\<exists>c. fst (timer_run (es @ [Round now])) = fst (timer_run es) @ c \<and> distinct c \<and>
     set c = {s. \<exists>t. deadlines es s = Some t \<and> t < now} \<and> sorted (map (\<lambda>s. the (deadlines es s)) c) \<and>
     deadlines (es @ [Round now]) = (deadlines es) |` (- set c)"
proof -
  obtain closed tab where r: "timer_run es = (closed, tab)" by (metis surj_pair)
  have ok: "timer_ok tab" and m: "map_of tab = deadlines es" using timer_run_deadlines [of es] r by simp_all
  let ?c = "map fst (filter (\<lambda>e. snd e < now) tab)"
  have cl: "fst (timer_run (es @ [Round now])) = closed @ ?c"
    using r by (simp add: timer_run_def watchdog_round_split [OF ok])
  have d: "distinct ?c" using timer_ok_filter [OF ok] by (simp add: timer_ok_def)
  have c: "set ?c = {s. \<exists>t. deadlines es s = Some t \<and> t < now}"
    using map_of_iff [OF ok] by (auto simp: m [symmetric] image_iff)
  have eq: "map (\<lambda>s. the (deadlines es s)) ?c = map snd (filter (\<lambda>e. snd e < now) tab)"
  proof -
    have "the (deadlines es (fst e)) = snd e" if "e \<in> set tab" for e
      using map_of_iff [OF ok, of "fst e" "snd e"] that by (simp add: m)
    then show ?thesis by simp
  qed
  have so: "sorted (map (\<lambda>s. the (deadlines es s)) ?c)" unfolding eq using timer_ok_filter [OF ok] by (simp add: timer_ok_def)
  have dl: "deadlines (es @ [Round now]) = (deadlines es) |` (- set ?c)"
    unfolding c by (auto simp: deadlines_def fun_eq_iff restrict_map_def split: option.splits)
  show ?thesis using r cl d c so dl by (intro exI [of _ ?c] conjI) simp_all
qed

end
