(* ===== verification/C_Handles.thy ===== *)
theory C_Handles
  imports C_Interface
begin

text \<open>
  The handles of programs that use the library: they always lead to a handler of their own.
\<close>

section \<open>Handles of Fortran programs\<close>

text \<open>Every allocated \<open>blob_t\<close> points to a handler of its own.\<close>

definition lib_ok :: "lib_state \<Rightarrow> bool" where
  "lib_ok st \<longleftrightarrow>
     (\<forall>p b. deref (ls_blobs st) p = Some b \<longrightarrow> deref (ls_handlers st) (b_obj b) \<noteq> None) \<and>
     (\<forall>p q b c. deref (ls_blobs st) p = Some b \<and> deref (ls_blobs st) q = Some c \<and> b_obj b = b_obj c \<longrightarrow> p = q)"

inductive f_step :: "(string \<Rightarrow> object_handler res) \<Rightarrow> archive \<Rightarrow> env \<Rightarrow> lib_state \<Rightarrow> lib_state \<Rightarrow> bool" for mk ar env st st' where
  by_init: "blob_init_f cfg st = (e, st') \<Longrightarrow> f_step mk ar env st st'"
| by_finalize: "blob_finalize_f e st = (Ret r, st') \<Longrightarrow> f_step mk ar env st st'"
| by_create: "blob_create_f mk ar env junk e psize rc st = (Ret x, st') \<Longrightarrow> f_step mk ar env st st'"
| by_bind_to: "blob_bind_to_f mk ar env junk e bid st = (Ret x, st') \<Longrightarrow> f_step mk ar env st st'"
| by_clone: "blob_clone_f mk ar env junk e bid v blob st = (Ret x, st') \<Longrightarrow> f_step mk ar env st st'"
| by_set_id: "blob_set_id_f ar env bid p st = (Ret r, st') \<Longrightarrow> f_step mk ar env st st'"
| by_free: "blob_free_f p st = (Ret r, st') \<Longrightarrow> f_step mk ar env st st'"
| by_get_size: "blob_get_size_f ar env p v st = (Ret s, st') \<Longrightarrow> f_step mk ar env st st'"
| by_get_latest: "blob_get_latest_f ar env p st = (Ret y, st') \<Longrightarrow> f_step mk ar env st st'"
| by_read: "blob_read_f ar env p v off sz mem st = (Ret z, st') \<Longrightarrow> f_step mk ar env st st'"
| by_write: "blob_write_f ar env p off sz buf st = (Ret r, st') \<Longrightarrow> f_step mk ar env st st'"
| by_app: "blob_append_f ar env p sz buf st = (Ret r, st') \<Longrightarrow> f_step mk ar env st st'"
| by_get_page_size: "blob_get_page_size_f p st = (Ret s, st') \<Longrightarrow> f_step mk ar env st st'"
| by_get_id: "blob_get_id_f p st = (Ret i, st') \<Longrightarrow> f_step mk ar env st st'"

lemma deref_simps [simp]:
  "deref (xs @ [x]) p = (if p = length xs then x else deref xs p)"
  "deref (xs[p := x]) q = (if q = p \<and> p < length xs then x else deref xs q)"
  by (auto simp: deref_def nth_append)

lemma deref_length: "deref xs p = Some x \<Longrightarrow> p < length xs"
  by (auto simp: deref_def split: if_splits)

lemma deref_end [simp]: "deref xs (length xs) = None"
  by (simp add: deref_def)

lemma lib_okD: "lib_ok st \<Longrightarrow> deref (ls_blobs st) p = Some b \<Longrightarrow> \<exists>h. deref (ls_handlers st) (b_obj b) = Some h"
  by (auto simp: lib_ok_def)

text \<open>A call through a handler keeps all objects; the other handlers are as before.\<close>

lemma on_handlerD:
  assumes "on_handler p f st = (Ret r, st')"
  shows "ls_blobs st' = ls_blobs st" "ls_envs st' = ls_envs st" "deref (ls_handlers st') p \<noteq> None"
    "length (ls_handlers st') = length (ls_handlers st)"
    "\<And>q. q \<noteq> p \<Longrightarrow> deref (ls_handlers st') q = deref (ls_handlers st) q"
    "\<And>q. deref (ls_handlers st') q = None \<longleftrightarrow> deref (ls_handlers st) q = None"
  using assms by (auto simp: on_handler_def split: option.splits prod.splits if_splits dest: deref_length)

text \<open>An operation on a \<open>blob_t\<close> that keeps its handler.\<close>

lemma on_blob_ok:
  assumes "lib_ok st" "on_blob p op st = (Ret r, st')"
    and "\<And>b r b' s. op b st = (Ret r, b', s) \<Longrightarrow> b_obj b' = b_obj b \<and> ls_blobs s = ls_blobs st \<and>
          (\<forall>q. deref (ls_handlers s) q = None \<longleftrightarrow> deref (ls_handlers st) q = None)"
  shows "lib_ok st'"
proof -
  obtain b b' s where b: "deref (ls_blobs st) p = Some b" "op b st = (Ret r, b', s)" "st' = s\<lparr>ls_blobs := (ls_blobs s)[p := Some b']\<rparr>"
    using assms(2) by (auto simp: on_blob_def split: option.splits prod.splits)
  note k = assms(3) [OF b(2)]
  have "\<exists>c. deref (ls_blobs st) q = Some c \<and> b_obj c = b_obj x" if "deref (ls_blobs st') q = Some x" for q x
    using that b(1,3) k by (auto split: if_splits)
  then show ?thesis using assms(1) k b(3) unfolding lib_ok_def by simp metis
qed

lemma opened_ok:
  assumes "lib_ok st" "opened_f junk op st = (Ret x, st')"
    and "\<And>b r b' s s'. op b s = (Ret r, b', s') \<Longrightarrow> ls_blobs s' = ls_blobs s \<and>
          (\<forall>q. deref (ls_handlers s) q \<noteq> None \<longrightarrow> deref (ls_handlers s') q \<noteq> None) \<and>
          (r \<noteq> 0 \<longrightarrow> deref (ls_handlers s) (b_obj b') = None \<and> deref (ls_handlers s') (b_obj b') \<noteq> None)"
  shows "lib_ok st'"
proof -
  let ?p = "length (ls_blobs st)" and ?st = "st\<lparr>ls_blobs := ls_blobs st @ [Some junk]\<rparr>"
  obtain r b s where o: "op junk ?st = (Ret r, b, s)" "st' = s\<lparr>ls_blobs := (ls_blobs s)[?p := if r = 0 then None else Some b]\<rparr>"
    using assms(2) by (auto simp: opened_f_def Let_def split: res.splits prod.splits)
  note k = assms(3) [OF o(1)]
  have old: "deref (ls_blobs st') q = Some x \<Longrightarrow> q = ?p \<and> r \<noteq> 0 \<and> x = b \<or> q \<noteq> ?p \<and> deref (ls_blobs st) q = Some x" for q x
    using o(2) k by (auto split: if_splits)
  have h: "deref (ls_handlers st) q \<noteq> None \<longrightarrow> deref (ls_handlers st') q \<noteq> None" for q using k o(2) by simp
  have n: "r \<noteq> 0 \<Longrightarrow> deref (ls_handlers st) (b_obj b) = None \<and> deref (ls_handlers st') (b_obj b) \<noteq> None" using k o(2) by simp
  show ?thesis unfolding lib_ok_def using assms(1) old h n unfolding lib_ok_def by metis
qed

lemma open_blob_new:
  assumes "open_blob mk f e b s = (Ret r, b', s')"
  shows "ls_blobs s' = ls_blobs s" "\<And>q. deref (ls_handlers s) q \<noteq> None \<Longrightarrow> deref (ls_handlers s') q = deref (ls_handlers s) q"
    "deref (ls_handlers s') (length (ls_handlers s)) \<noteq> None" "length (ls_handlers s') = Suc (length (ls_handlers s))"
    "r \<noteq> 0 \<Longrightarrow> r = 1 \<and> b_obj b' = length (ls_handlers s)" "r = 0 \<Longrightarrow> b' = b"
proof -
  obtain p s1 where n: "new_handler mk e s = (Ret p, s1)" using assms by (auto simp: open_blob_def split: prod.splits res.splits)
  then obtain h where s1: "p = length (ls_handlers s)" "s1 = s\<lparr>ls_handlers := ls_handlers s @ [Some h]\<rparr>"
    by (auto simp: new_handler_def split: option.splits res.splits)
  obtain ok where c: "on_handler p (\<lambda>h log. case f h log of (ok, h, log) \<Rightarrow> (Ret ok, h, log)) s1 = (Ret ok, s')"
    and r: "r = (if ok then 1 else 0)" "b' = (if ok then blob_of p s' else b)"
    using assms n by (auto simp: open_blob_def split: prod.splits res.splits if_splits)
  note o = on_handlerD [OF c]
  show "ls_blobs s' = ls_blobs s" "deref (ls_handlers s') (length (ls_handlers s)) \<noteq> None" "length (ls_handlers s') = Suc (length (ls_handlers s))"
    using o(1,3,4) s1 by simp_all
  show "deref (ls_handlers s') q = deref (ls_handlers s) q" if "deref (ls_handlers s) q \<noteq> None" for q
    using o(5) [of q] s1 that by (cases "q = p") auto
  show "r \<noteq> 0 \<Longrightarrow> r = 1 \<and> b_obj b' = length (ls_handlers s)" "r = 0 \<Longrightarrow> b' = b"
    using r s1(1) by (auto simp: blob_of_def Let_def split: if_splits)
qed

lemma open_blob_ok:
  assumes "open_blob mk f e b s = (Ret r, b', s')"
  shows "ls_blobs s' = ls_blobs s \<and> (\<forall>q. deref (ls_handlers s) q \<noteq> None \<longrightarrow> deref (ls_handlers s') q \<noteq> None) \<and>
    (r \<noteq> 0 \<longrightarrow> deref (ls_handlers s) (b_obj b') = None \<and> deref (ls_handlers s') (b_obj b') \<noteq> None)"
  using open_blob_new [OF assms] by auto

lemma blob_setid_ok:
  assumes "blob_setid mk ar env e bid b s = (Ret r, b', s')"
  shows "ls_blobs s' = ls_blobs s \<and> (\<forall>q. deref (ls_handlers s) q \<noteq> None \<longrightarrow> deref (ls_handlers s') q \<noteq> None) \<and>
    (r \<noteq> 0 \<longrightarrow> deref (ls_handlers s) (b_obj b') = None \<and> deref (ls_handlers s') (b_obj b') \<noteq> None)"
proof -
  obtain b1 where "open_blob mk (oh_get_latest ar env bid) e b s = (Ret r, b1, s')" "b_obj b' = b_obj b1"
    using assms by (auto simp: blob_setid_def split: prod.splits if_splits)
  with open_blob_ok show ?thesis by metis
qed

lemma lib_ok_envs [simp]: "lib_ok (st\<lparr>ls_envs := es\<rparr>) = lib_ok st"
  by (simp add: lib_ok_def)

lemma free_ok:
  assumes "lib_ok st" "blob_free_f p st = (Ret r, st')"
  shows "lib_ok st'"
proof -
  obtain b where b: "deref (ls_blobs st) p = Some b"
    "st' = st\<lparr>ls_handlers := (ls_handlers st)[b_obj b := None], ls_blobs := (ls_blobs st)[p := None]\<rparr>"
    using assms(2) by (auto simp: blob_free_f_def blob_free_def split: option.splits prod.splits if_splits)
  have k: "q \<noteq> p \<and> deref (ls_blobs st) q = Some x \<and> b_obj x \<noteq> b_obj b" if "deref (ls_blobs st') q = Some x" for q x
    using that b assms(1) deref_length [OF b(1)] by (auto simp: lib_ok_def split: if_splits)
  have h: "y \<noteq> b_obj b \<Longrightarrow> deref (ls_handlers st') y = deref (ls_handlers st) y" for y using b(2) by simp
  show ?thesis unfolding lib_ok_def using assms(1) k h unfolding lib_ok_def by metis
qed

lemmas blob_calls = blob_getsize_def blob_getlatest_def blob_read_def blob_write_def blob_append_def

lemma f_step_ok: "f_step mk ar env st st' \<Longrightarrow> lib_ok st \<Longrightarrow> lib_ok st'"
proof (induction rule: f_step.induct)
  case (by_init cfg e)
  then show ?case by (auto simp: blob_init_f_def blob_init_def)
next
  case (by_finalize e r)
  then show ?case by (auto simp: blob_finalize_f_def blob_finalize_def split: if_splits)
next
  case (by_create junk e psize rc x)
  show ?case by (rule opened_ok [OF by_create(2) by_create(1) [unfolded blob_create_f_def]]) (simp add: blob_create_def open_blob_ok)
next
  case (by_bind_to junk e bid x)
  show ?case by (rule opened_ok [OF by_bind_to(2) by_bind_to(1) [unfolded blob_bind_to_f_def]]) (rule blob_setid_ok)
next
  case (by_clone junk e bid v blob x)
  then obtain y where "opened_f junk (blob_clone mk ar env e bid v) st = (Ret y, st')"
    by (auto simp: blob_clone_f_def split: prod.splits res.splits)
  from opened_ok [OF by_clone(2) this] show ?case by (simp add: blob_clone_def open_blob_ok)
next
  case (by_set_id bid p r)
  then show ?case unfolding blob_set_id_f_def
    by (auto intro!: on_blob_ok [of st p _ r] simp: blob_of_def Let_def split: prod.splits res.splits if_splits dest: on_handlerD(1,6))
next
  case (by_free p r)
  then show ?case by (blast intro: free_ok)
next
  case (by_get_size p v s)
  then show ?case unfolding blob_get_size_f_def
    by (auto intro!: on_blob_ok [of st p _ s] simp: blob_calls split: prod.splits dest: on_handlerD(1,6))
next
  case (by_get_latest p y)
  then show ?case unfolding blob_get_latest_f_def
    by (auto intro!: on_blob_ok [of st p _ y] simp: blob_calls split: prod.splits res.splits if_splits dest: on_handlerD(1,6))
next
  case (by_read p v off sz mem z)
  then show ?case unfolding blob_read_f_def
    by (auto intro!: on_blob_ok [of st p _ z] simp: blob_calls split: prod.splits dest: on_handlerD(1,6))
next
  case (by_write p off sz buf r)
  then show ?case unfolding blob_write_f_def
    by (auto intro!: on_blob_ok [of st p _ r] simp: blob_calls split: prod.splits dest: on_handlerD(1,6))
next
  case (by_app p sz buf r)
  then show ?case unfolding blob_append_f_def
    by (auto intro!: on_blob_ok [of st p _ r] simp: blob_calls split: prod.splits dest: on_handlerD(1,6))
next
  case (by_get_page_size p s)
  then show ?case unfolding blob_get_page_size_f_def by (auto intro!: on_blob_ok [of st p _ s])
next
  case (by_get_id p i)
  then show ?case unfolding blob_get_id_f_def by (auto intro!: on_blob_ok [of st p _ i])
qed

definition f_reach :: "(string \<Rightarrow> object_handler res) \<Rightarrow> archive \<Rightarrow> env \<Rightarrow> lib_state \<Rightarrow> bool" where
  "f_reach mk ar env st \<longleftrightarrow> (f_step mk ar env)\<^sup>*\<^sup>* lib_init st"

lemma f_reach_ok: "f_reach mk ar env st \<Longrightarrow> lib_ok st"
  unfolding f_reach_def
proof (induction rule: rtranclp_induct)
  case base
  show ?case by (simp add: lib_init_def lib_ok_def deref_def)
next
  case (step y z)
  then show ?case by (blast intro: f_step_ok)
qed

text \<open>
  C35: The handles of a program are typed and separate: after any sequence of calls that returned, every
  \<open>blob_t\<close> that was not freed points to an existing handler that no other \<open>blob_t\<close> points to. A write
  through it is the write of this handler: it gives its result code, its new state and its calls to the
  servers, and leaves the other handlers, the handles and the environments as they are.
\<close>

theorem fortran_handles_separate:
  assumes "f_reach mk ar env st" "deref (ls_blobs st) p = Some b"
  shows "\<exists>h ok h' log' st'.
    deref (ls_handlers st) (b_obj b) = Some h \<and>
    (\<forall>q c. q \<noteq> p \<and> deref (ls_blobs st) q = Some c \<longrightarrow> b_obj c \<noteq> b_obj b) \<and>
    oh_write ar env off sz buf h (ls_log st) = (ok, h', log') \<and>
    blob_write_f ar env p off sz buf st = (fst (write_result (ok, h', log')), st') \<and>
    deref (ls_handlers st') (b_obj b) = Some h' \<and> ls_log st' = log' \<and>
    (\<forall>x. x \<noteq> b_obj b \<longrightarrow> deref (ls_handlers st') x = deref (ls_handlers st) x) \<and>
    (\<forall>q. deref (ls_blobs st') q = deref (ls_blobs st) q) \<and> ls_envs st' = ls_envs st"
proof -
  note ok = f_reach_ok [OF assms(1)]
  obtain h where h: "deref (ls_handlers st) (b_obj b) = Some h" using lib_okD [OF ok assms(2)] by blast
  have "b_obj c \<noteq> b_obj b" if "q \<noteq> p" "deref (ls_blobs st) q = Some c" for q c using ok assms(2) that unfolding lib_ok_def by blast
  moreover obtain r h' log' where "oh_write ar env off sz buf h (ls_log st) = (r, h', log')" by (metis prod_cases3)
  ultimately show ?thesis using h assms(2) deref_length [OF h] deref_length [OF assms(2)]
    by (auto simp: blob_write_f_def on_blob_def blob_write_def on_handler_def write_result_def split: prod.splits)
qed

text \<open>A failed call leaves a handler behind that no handle leads to and nothing can free.\<close>

lemma failed_open_leaks:
  assumes "lib_ok st" "open_blob mk f e junk st = (Ret 0, b, st')"
  shows "deref (ls_handlers st') (length (ls_handlers st)) \<noteq> None \<and>
    (\<forall>p c. deref (ls_blobs st') p = Some c \<longrightarrow> b_obj c \<noteq> length (ls_handlers st))"
  using open_blob_new(1,3) [OF assms(2)] lib_okD [OF assms(1)] deref_length by fastforce

lemma write_exception_escapes:
  "deref (ls_handlers st) (b_obj b) = Some h \<Longrightarrow> oh_write ar env off sz buf h (ls_log st) = (Thr x, h', log') \<Longrightarrow>
    fst (blob_write ar env b off sz buf st) = Thr x"
  by (simp add: blob_write_def on_handler_def write_result_def)

lemma read_exception_caught: "fst (blob_read ar env b v off sz mem st) \<noteq> Thr x"
  by (auto simp: blob_read_def on_handler_def split: option.splits prod.splits res.splits)

section \<open>An instance\<close>

definition c_env :: env where
  "c_env = (ex_env rpc_ok)\<lparr>en_answer := (\<lambda>log c. (rpc_ok, [buffer_wrapper plain_archive (ser_root plain_archive) (root_t_make 1 0 8 0 1)]))\<rparr>"

definition c_mk :: "string \<Rightarrow> object_handler res" where
  "c_mk cfg = Ret (object_handler_new 3 ''pm'' ''1'' ''vm'' ''1'')"

definition c_junk :: blob_t where
  "c_junk = \<lparr>b_obj = 0, b_id = 0, b_latest_version = 0, b_page_size = 0\<rparr>"

lemma create_works:
  assumes "deref (ls_envs st) e \<noteq> None"
  shows "\<exists>st' b. blob_create_f c_mk plain_archive c_env c_junk e 8 1 st = (Ret (length (ls_blobs st), 1), st') \<and>
    ls_envs st' = ls_envs st \<and> ls_blobs st' = ls_blobs st @ [Some b]"
proof -
  obtain cfg where "deref (ls_envs st) e = Some cfg" using assms by blast
  moreover have "rpc_get_serialized plain_archive (ser_root plain_archive) r (managed_answer [] (en_answer c_env log c)) = (True, root_t_make 1 0 8 0 1)" for r log c
    by (simp add: c_env_def rpc_get_serialized_def plain_archive_ok)
  ultimately show ?thesis
    by (simp add: blob_create_f_def opened_f_def blob_create_def open_blob_def new_handler_def c_mk_def on_handler_def oh_create_def
        answer_call_def vmgr_call_def plain_call_def Let_def list_update_append)
qed

theorem fortran_handles_separate_witness:
  "\<exists>st b c h. f_reach c_mk plain_archive c_env st \<and> deref (ls_blobs st) 0 = Some b \<and> deref (ls_blobs st) 1 = Some c \<and>
     b_obj b \<noteq> b_obj c \<and> deref (ls_handlers st) (b_obj b) = Some h \<and>
     deref (ls_handlers (snd (blob_write_f plain_archive c_env 0 0 8 (replicate 8 7) st))) (b_obj b) =
       Some (fst (snd (oh_write plain_archive c_env 0 8 (replicate 8 7) h (ls_log st)))) \<and>
     deref (ls_handlers (snd (blob_write_f plain_archive c_env 0 0 8 (replicate 8 7) st))) (b_obj c) = deref (ls_handlers st) (b_obj c)"
proof -
  let ?st1 = "lib_init\<lparr>ls_envs := [Some ''cfg'']\<rparr>"
  have "f_step c_mk plain_archive c_env lib_init ?st1"
    by (rule f_step.by_init [of "''cfg''" _ 0]) (simp add: blob_init_f_def blob_init_def lib_init_def)
  then have r1: "f_reach c_mk plain_archive c_env ?st1" by (simp add: f_reach_def)
  have e1: "deref (ls_envs ?st1) 0 \<noteq> None" by (simp add: deref_def)
  from create_works [OF e1] obtain st2 b where st2: "blob_create_f c_mk plain_archive c_env c_junk 0 8 1 ?st1 = (Ret (0, 1), st2)"
    "ls_envs st2 = ls_envs ?st1" "ls_blobs st2 = [Some b]" by (auto simp: lib_init_def)
  from create_works [of st2 0] e1 st2(2,3) obtain st3 c where st3: "blob_create_f c_mk plain_archive c_env c_junk 0 8 1 st2 = (Ret (1, 1), st3)"
    "ls_blobs st3 = [Some b, Some c]" by auto
  have reach: "f_reach c_mk plain_archive c_env st3"
    using r1 f_step.by_create [OF st2(1)] f_step.by_create [OF st3(1)] unfolding f_reach_def by (meson rtranclp.rtrancl_into_rtrancl)
  moreover have d: "deref (ls_blobs st3) 0 = Some b" "deref (ls_blobs st3) 1 = Some c" using st3(2) by (simp_all add: deref_def)
  ultimately obtain h ok h' log' st' where
    "deref (ls_handlers st3) (b_obj b) = Some h" "b_obj c \<noteq> b_obj b"
    "oh_write plain_archive c_env 0 8 (replicate 8 7) h (ls_log st3) = (ok, h', log')"
    "blob_write_f plain_archive c_env 0 0 8 (replicate 8 7) st3 = (fst (write_result (ok, h', log')), st')"
    "deref (ls_handlers st') (b_obj b) = Some h'" "\<forall>x. x \<noteq> b_obj b \<longrightarrow> deref (ls_handlers st') x = deref (ls_handlers st3) x"
    using fortran_handles_separate [of c_mk plain_archive c_env st3 0 b 0 8 "replicate 8 7"] by (metis one_neq_zero)
  then show ?thesis
    using reach d by (intro exI [of _ st3] exI [of _ b] exI [of _ c] exI [of _ h]) simp
qed

end
