(* ===== verification/Fuse_Pool.thy ===== *)
theory Fuse_Pool
  imports Fuse_Ops
begin

text \<open>
  The pool of handlers of the file system: in every state that requests can lead to, all open files use
  the same handler, and opening a file binds it to the blob of this file.
\<close>

section \<open>What all operations on the handle keep\<close>

text \<open>The contract of a handle of which a property is never lost, and that the mirror keeps it then.\<close>

locale blob_keeps =
  fixes ops :: "'o blob_ops" and Q :: "'o \<Rightarrow> bool"
  assumes size_keeps: "Q b \<Longrightarrow> bo_size ops v b = (s, b') \<Longrightarrow> Q b'"
    and read_keeps: "Q b \<Longrightarrow> bo_read ops off sz mem v b = (r, mem', b') \<Longrightarrow> Q b'"
    and write_keeps: "Q b \<Longrightarrow> bo_write ops off sz buf b = (r, b') \<Longrightarrow> Q b'"
    and clone_keeps: "Q b \<Longrightarrow> bo_clone ops b = (ok, b') \<Longrightarrow> Q b'"
    and latest_keeps: "Q b \<Longrightarrow> bo_latest ops i b = (ok, b') \<Longrightarrow> Q b'"
begin

lemma new_keeps: "Q b \<Longrightarrow> local_mirror_new ops ok bytes idx b v = (r, b') \<Longrightarrow> Q b' \<and> (\<forall>lm. r = Ret lm \<longrightarrow> lm_blob lm = b')"
  by (auto simp: local_mirror_new_def Let_def split: prod.splits if_splits dest: size_keeps)

lemma fetch_keeps: "Q (lm_blob lm) \<Longrightarrow> fetch ops off sz lm = (r, lm') \<Longrightarrow> Q (lm_blob lm')"
  by (auto simp: fetch_def split: prod.splits if_splits dest: read_keeps)

lemma read_chunks_keeps: "read_chunks ops stop index lm = Some x \<Longrightarrow> Q (lm_blob lm) \<Longrightarrow> Q (lm_blob (snd x))"
  by (rule read_chunks.raw_induct [where P = "\<lambda>o' stop index lm x. o' = ops \<longrightarrow> Q (lm_blob lm) \<longrightarrow> Q (lm_blob (snd x))", rule_format])
    (auto simp: Let_def split: if_splits option.splits res.splits prod.splits dest: fetch_keeps)

lemma commit_runs_keeps: "commit_runs ops index lm = Some x \<Longrightarrow> Q (lm_blob lm) \<Longrightarrow> Q (lm_blob (snd x))"
  by (rule commit_runs.raw_induct [where P = "\<lambda>o' index lm x. o' = ops \<longrightarrow> Q (lm_blob lm) \<longrightarrow> Q (lm_blob (snd x))", rule_format])
    (auto simp: Let_def split: if_splits option.splits res.splits prod.splits dest: write_keeps)

lemma lm_read_keeps: "Q (lm_blob lm) \<Longrightarrow> lm_read ops sz off lm = Some (r, lm') \<Longrightarrow> Q (lm_blob lm')"
  by (auto simp: lm_read_def Let_def split: if_splits option.splits prod.splits res.splits bool.splits dest: read_chunks_keeps)

lemma lm_write_keeps: "Q (lm_blob lm) \<Longrightarrow> lm_write ops sz off buf lm = Some (r, lm') \<Longrightarrow> Q (lm_blob lm')"
  by (auto simp: lm_write_def Let_def split: if_splits option.splits prod.splits res.splits bool.splits dest: fetch_keeps [rotated])

lemma lm_commit_keeps: "Q (lm_blob lm) \<Longrightarrow> lm_commit ops lm = Some (r, lm') \<Longrightarrow> Q (lm_blob lm')"
  by (auto simp: lm_commit_def dest: commit_runs_keeps)

lemma lm_clone_and_commit_keeps: "Q (lm_blob lm) \<Longrightarrow> lm_clone_and_commit ops ok lm = Some (r, lm') \<Longrightarrow> Q (lm_blob lm')"
  by (auto simp: lm_clone_and_commit_def Let_def split: if_splits prod.splits bool.splits dest: clone_keeps
      intro: latest_keeps [OF clone_keeps surjective_pairing]) (erule lm_commit_keeps [rotated], simp add: clone_keeps)

end

section \<open>The handlers of the file system\<close>

text \<open>A call through a pointer changes only the handler it leads to.\<close>

definition through :: "nat \<Rightarrow> nat \<Rightarrow> nat \<times> object_handler list \<times> oh_log \<Rightarrow> bool" where
  "through p n = (\<lambda>(q, hs, log). q = p \<and> length hs = n)"

interpretation through: blob_keeps "fuse_ops ar env" "through p n" for ar env p n
  by unfold_locales (auto simp: fuse_ops_def deref_ops_def through_def split: prod.splits)


text \<open>
  The requests to the file system, in any order; the answers of the servers and of the operating system
  are arbitrary.
\<close>

inductive fuse_step :: "archive \<Rightarrow> env \<Rightarrow> fuse_world \<Rightarrow> fuse_world \<Rightarrow> bool" for ar env w w' where
  getattr: "blob_ll_getattr ar env junk ino w = (r, w') \<Longrightarrow> fuse_step ar env w w'"
| lookup: "blob_ll_lookup ar env junk parent name w = (r, w') \<Longrightarrow> fuse_step ar env w w'"
| readdir: "blob_ll_readdir entry_size direntry ar env junk ino sz off w = Some (r, w') \<Longrightarrow> fuse_step ar env w w'"
| fopen: "fw_open w fh = None \<Longrightarrow> blob_ll_open ar env os_ok fh ino w = (r, w') \<Longrightarrow> fuse_step ar env w w'"
| fread: "blob_ll_read ar env fh sz off w = Some (r, w') \<Longrightarrow> fuse_step ar env w w'"
| fwrite: "blob_ll_write ar env fh buf sz off w = Some (r, w') \<Longrightarrow> fuse_step ar env w w'"
| fclose: "blob_ll_release idx_ok fh w = (r, w') \<Longrightarrow> fuse_step ar env w w'"
| fioctl: "blob_ll_ioctl ar env rename_ok cmd fh w = Some (r, w') \<Longrightarrow> fuse_step ar env w w'"

definition fuse_reach :: "archive \<Rightarrow> env \<Rightarrow> (nat list \<Rightarrow> nat list) \<Rightarrow> object_handler \<Rightarrow> fuse_world \<Rightarrow> bool" where
  "fuse_reach ar env order h w \<longleftrightarrow> (fuse_step ar env)\<^sup>*\<^sup>* (fuse_init order h) w"

definition fuse_inv :: "nat \<Rightarrow> nat \<Rightarrow> fuse_world \<Rightarrow> bool" where
  "fuse_inv p n w \<longleftrightarrow>
     fw_pool w \<noteq> [] \<and> p = fst (hd (fw_pool w)) \<and> (\<forall>e \<in> set (fw_pool w). \<not> snd e \<and> fst e < n) \<and> length (fw_handlers w) = n \<and>
     (\<forall>fh f. fw_open w fh = Some f \<longrightarrow> lm_blob (ff_mirror f) = p)"

lemma fuse_invD:
  assumes "fuse_inv p n w"
  shows "fw_pool w \<noteq> []" "\<forall>e \<in> set (fw_pool w). \<not> snd e" "p < n" "length (fw_handlers w) = n"
    "fw_open w fh = Some f \<Longrightarrow> lm_blob (ff_mirror f) = p" "pool_acquire (fw_pool w) = Some p" "pool_release p (fw_pool w) = Ret (fw_pool w)"
proof -
  show "fw_pool w \<noteq> []" "\<forall>e \<in> set (fw_pool w). \<not> snd e" "length (fw_handlers w) = n" "fw_open w fh = Some f \<Longrightarrow> lm_blob (ff_mirror f) = p"
    using assms by (auto simp: fuse_inv_def)
  obtain q t m where m: "fw_pool w = (q, t) # m" using assms by (auto simp: fuse_inv_def neq_Nil_conv)
  then have q: "q = p" "\<not> t" using assms by (auto simp: fuse_inv_def)
  then show "p < n" "pool_acquire (fw_pool w) = Some p" using m assms by (auto simp: fuse_inv_def)
  have "(if fst e = p then (p, False) else e) = e" if "e \<in> set (fw_pool w)" for e
    using assms that by (cases e) (auto simp: fuse_inv_def)
  then have "map (\<lambda>e. if fst e = p then (p, False) else e) (fw_pool w) = fw_pool w" by (rule map_idI)
  then show "pool_release p (fw_pool w) = Ret (fw_pool w)" using m q by (auto simp: pool_release_def)
qed

lemma release_inv: "fuse_inv p n w \<Longrightarrow> release_handler p x w = (Ret x, w)"
  by (simp add: release_handler_def fuse_invD(7))

lemma detach_inv:
  assumes "fuse_inv p n w" "through p n (lm_blob lm)"
  shows "fuse_inv p n (detach fh k lm w)"
  using assms by (auto simp: fuse_inv_def detach_def mirror_fields_def through_def split: prod.splits)

lemma attach_through: "fuse_inv p n w \<Longrightarrow> fw_open w fh = Some f \<Longrightarrow> through p n (lm_blob (attach w f))"
  by (simp add: through_def attach_def Let_def fuse_invD)

lemma fuse_inv_log [simp]: "fuse_inv p n (w\<lparr>fw_log := log\<rparr>) = fuse_inv p n w"
  by (simp add: fuse_inv_def)

lemma handlers_inv: "fuse_inv p n w \<Longrightarrow> length hs = n \<Longrightarrow> fuse_inv p n (w\<lparr>fw_handlers := hs, fw_log := log\<rparr>)"
  by (simp add: fuse_inv_def)

lemma fuse_ops_pointer:
  "bo_latest (fuse_ops ar env) i (p, hs, log) = (ok, q, hs', log') \<Longrightarrow> q = p \<and> length hs' = length hs"
  "bo_size (fuse_ops ar env) v (p, hs, log) = (s, q, hs', log') \<Longrightarrow> q = p \<and> length hs' = length hs"
  using through.latest_keeps [of p "length hs" "(p, hs, log)"] through.size_keeps [of p "length hs" "(p, hs, log)"]
  by (fastforce simp: through_def)+

lemma stat_entry_inv:
  assumes "fuse_inv p n w" "stat_entry ar env junk p ino st w = (r, st', w')"
  shows "fuse_inv p n w'"
  using assms fuse_invD(4) [OF assms(1)]
  by (auto simp: stat_entry_def Let_def split: prod.splits if_splits intro!: handlers_inv dest!: fuse_ops_pointer)

lemma blob_stat_inv:
  assumes "fuse_inv p n w" "blob_stat ar env junk ino st w = (r, st', w')"
  shows "fuse_inv p n w'"
  using assms stat_entry_inv [OF assms(1), of ar env junk ino "st\<lparr>st_ino := ino\<rparr>"]
  by (fastforce simp: blob_stat_def Let_def fuse_invD(6) release_inv split: prod.splits res.splits)

lemma local_file_inv: "fuse_inv p n w \<Longrightarrow> local_file name w = (k, w') \<Longrightarrow> fuse_inv p n w'"
  by (auto simp: local_file_def fuse_inv_def split: option.splits)

lemma open_inv:
  assumes "fuse_inv p n w" "blob_ll_open ar env os_ok fh ino w = (r, w')"
  shows "fuse_inv p n w'"
proof (cases "ino_id ino = 0 \<or> ino_version ino = 0")
  case True
  then show ?thesis using assms by (auto simp: blob_ll_open_def)
next
  case False
  obtain ok q hs log where l: "bo_latest (fuse_ops ar env) (ucast (ino_id ino)) (p, fw_handlers w, fw_log w) = (ok, q, hs, log)"
    by (metis surj_pair)
  let ?w = "w\<lparr>fw_handlers := hs, fw_log := log\<rparr>"
  have w: "fuse_inv p n ?w" using fuse_ops_pointer(1) [OF l] fuse_invD(4) [OF assms(1)] by (intro handlers_inv [OF assms(1)]) simp
  note rel = release_inv [OF w]
  show ?thesis
  proof (cases ok)
    case False
    with \<open>\<not> (ino_id ino = 0 \<or> ino_version ino = 0)\<close> show ?thesis using assms(2) l w by (auto simp: rel blob_ll_open_def fuse_invD(6) [OF assms(1)])
  next
    case True
    let ?name = "(bo_id (fuse_ops ar env) (p, hs, log), ucast (ino_version ino)) :: u32 \<times> u32"
    obtain k w1 where k: "local_file ?name ?w = (k, w1)" by (metis surj_pair)
    obtain m b where m: "local_mirror_new (fuse_ops ar env) os_ok (fw_files w1 ! k) (fw_index w1 ?name) (p, hs, log) (ucast (ino_version ino)) = (m, b)"
      by (metis surj_pair)
    have t: "through p n (p, hs, log)" using fuse_ops_pointer(1) [OF l] fuse_invD(4) [OF assms(1)] by (simp add: through_def)
    note b = through.new_keeps [OF t m]
    obtain q2 hs2 log2 where b2: "b = (q2, hs2, log2)" by (metis surj_pair)
    have w2: "fuse_inv p n (w\<lparr>fw_handlers := hs2, fw_log := log2\<rparr>)"
      using b by (intro handlers_inv [OF assms(1)]) (simp add: through_def b2)
    have w1: "fuse_inv p n (w1\<lparr>fw_files := fs\<rparr>)" for fs using local_file_inv [OF w k] by (simp add: fuse_inv_def)
    show ?thesis using assms(2) l True k m False w2 b
      by (auto simp: release_inv [OF w2] blob_ll_open_def fuse_invD(6) [OF assms(1)] Let_def b2 split: res.splits prod.splits intro!: detach_inv [OF w1])
  qed
qed

lemma fuse_step_inv: "fuse_step ar env w w' \<Longrightarrow> fuse_inv p n w \<Longrightarrow> fuse_inv p n w'"
proof (induction rule: fuse_step.induct)
  case (getattr junk ino r)
  then show ?case by (auto simp: blob_ll_getattr_def split: prod.splits res.splits dest: blob_stat_inv)
next
  case (lookup junk parent name r)
  then show ?case by (auto simp: blob_ll_lookup_def split: prod.splits res.splits option.splits if_splits dest: blob_stat_inv)
next
  case (readdir entry_size direntry junk ino sz off r)
  then show ?case by (auto simp: blob_ll_readdir_def Let_def split: prod.splits res.splits option.splits if_splits dest: blob_stat_inv)
next
  case (fopen fh os_ok ino r)
  then show ?case by (blast intro: open_inv)
next
  case (fread fh sz off r)
  then show ?case by (auto simp: blob_ll_read_def split: option.splits res.splits prod.splits
        intro!: detach_inv through.lm_read_keeps [OF attach_through])
next
  case (fwrite fh buf sz off r)
  then show ?case by (auto simp: blob_ll_write_def split: option.splits res.splits prod.splits
        intro!: detach_inv through.lm_write_keeps [OF attach_through])
next
  case (fclose idx_ok fh r)
  then show ?case
  proof (cases "fw_open w fh")
    case (Some f)
    let ?w = "w\<lparr>fw_open := (fw_open w)(fh := None), fw_index := (if idx_ok then (fw_index w)(local_name (ff_mirror f) \<mapsto> lm_index (ff_mirror f)) else fw_index w)\<rparr>"
    have i: "fuse_inv p n ?w" using fclose(2) by (auto simp: fuse_inv_def)
    then show ?thesis using fclose Some fuse_invD(5) [OF fclose(2) Some]
      by (auto simp: release_inv [OF i] blob_ll_release_def lm_get_object_def Let_def)
  qed (simp add: blob_ll_release_def)
next
  case (fioctl rename_ok cmd fh r)
  have rn: "fuse_inv p n (rename_local a b w)" for a b using fioctl(2) by (simp add: rename_local_def fuse_inv_def)
  from fioctl show ?case
    by (auto simp: blob_ll_ioctl_def Let_def split: option.splits blob_ioctl.splits prod.splits if_splits
        intro!: detach_inv rn intro: through.lm_commit_keeps [OF attach_through] through.lm_clone_and_commit_keeps [OF attach_through])
qed

lemma fuse_reach_inv:
  assumes "mset (order [0..<DEFAULT_POOL_SIZE]) = mset [0..<DEFAULT_POOL_SIZE]" "fuse_reach ar env order h w"
  shows "fuse_inv (hd (order [0..<DEFAULT_POOL_SIZE])) DEFAULT_POOL_SIZE w"
proof -
  let ?o = "order [0..<DEFAULT_POOL_SIZE]"
  have s: "set ?o = {0..<DEFAULT_POOL_SIZE}" "?o \<noteq> []" using arg_cong [OF assms(1), of set_mset] assms(1)
    by (auto simp: DEFAULT_POOL_SIZE_def)
  then have "fuse_inv (hd ?o) DEFAULT_POOL_SIZE (fuse_init order h)"
    by (auto simp: fuse_inv_def fuse_init_def object_pool_new_def hd_map)
  with assms(2) show ?thesis unfolding fuse_reach_def by (induction rule: rtranclp_induct) (auto intro: fuse_step_inv)
qed

section \<open>Inodes\<close>

lemma unat_ino: "unat (ino_id ino) = unat ino div 2 ^ 32" "unat (ino_version ino) = unat ino mod 2 ^ 32"
proof -
  show "unat (ino_id ino) = unat ino div 2 ^ 32"
    unfolding ino_id_def by (simp add: drop_bit_eq_div unat_div)
  have m: "(0x00000000FFFFFFFF :: u64) = mask 32" by (simp add: mask_eq_exp_minus_1)
  show "unat (ino_version ino) = unat ino mod 2 ^ 32"
    unfolding ino_version_def m take_bit_eq_mask [symmetric] by (simp add: take_bit_eq_mod unat_mod)
qed

lemma unat_build_ino: "unat (build_ino a v) = unat a * 2 ^ 32 + unat v"
proof -
  have b: "unat a < 2 ^ 32" "unat v < 2 ^ 32" using unsigned_less [of a] unsigned_less [of v] by simp_all
  have "unat a * 2 ^ 32 \<le> (2 ^ 32 - 1) * 2 ^ 32" using b(1) by simp
  then have n: "unat a * 2 ^ 32 + unat v < 2 ^ 64" using b(2) by simp
  have "unat (push_bit 32 (ucast a) :: u64) = unat a * 2 ^ 32"
    using n by (simp add: push_bit_eq_mult unat_word_ariths unat_ucast_u32)
  then show ?thesis unfolding build_ino_def
    using n by (subst unat_add_nowrap) (simp_all add: unat_ucast_u32)
qed

lemma ino_build [simp]: "ino_id (build_ino a v) = ucast a" "ino_version (build_ino a v) = ucast v"
  using unat_u32_bound [of v] by (simp_all add: word_unat_eq_iff unat_ino unat_build_ino unat_ucast_u32)

lemma ucast_ino [simp]: "build_ino (ucast (ino_id ino)) (ucast (ino_version ino)) = ino"
  "unat (ucast (ino_id ino) :: u32) = unat (ino_id ino)"
proof -
  have u: "unat (ucast x :: u32) = unat x" if "unat x < 2 ^ 32" for x :: u64
    using that by (simp add: unsigned_ucast_eq take_bit_eq_mod)
  have i: "unat (ino_id ino) < 2 ^ 32" using unat_u64_bound [of ino] by (simp add: unat_ino less_mult_imp_div_less)
  then show "unat (ucast (ino_id ino) :: u32) = unat (ino_id ino)" by (rule u)
  have "unat (ino_version ino) < 2 ^ 32" by (simp add: unat_ino)
  then show "build_ino (ucast (ino_id ino)) (ucast (ino_version ino)) = ino"
    using i by (simp add: word_unat_eq_iff unat_build_ino u) (simp add: unat_ino)
qed

lemma ucast_ino_id: "ucast (ino_id ino) = (0 :: u32) \<longleftrightarrow> ino_id ino = 0"
  by (metis ucast_ino(2) unat_0 word_unat_eq_iff)

section \<open>All files share one handler\<close>

lemma get_root_id: "get_root ar env v r oh log = (ok, r', oh', log') \<Longrightarrow> oh_id oh' = oh_id oh"
  by (auto simp: get_root_def Let_def split: prod.splits if_splits option.splits)

lemma get_latest_id: "bid \<noteq> 0 \<Longrightarrow> oh_get_latest ar env bid oh log = (ok, oh', log') \<Longrightarrow> oh_id oh' = bid"
  by (auto simp: oh_get_latest_def Let_def split: prod.splits dest: get_root_id)

lemma get_size_id: "oh_get_size ar env v oh log = (s, oh', log') \<Longrightarrow> oh_id oh' = oh_id oh"
  by (auto simp: oh_get_size_def split: prod.splits if_splits dest: get_root_id)

lemma open_ids:
  assumes "fuse_inv p n w" "blob_ll_open ar env os_ok fh ino w = (Ret (Reply_Open fh), w')"
  shows "oh_id (fw_handlers w' ! p) = ucast (ino_id ino)"
proof -
  let ?b = "ucast (ino_id ino) :: u32" and ?v = "ucast (ino_version ino) :: u32"
  obtain ok oh log where l: "oh_get_latest ar env ?b (fw_handlers w ! p) (fw_log w) = (ok, oh, log)" by (metis surj_pair)
  obtain s oh2 log2 where sz: "oh_get_size ar env ?v oh log = (s, oh2, log2)" by (metis surj_pair)
  have p: "p < length (fw_handlers w)" using fuse_invD [OF assms(1)] by simp
  have ino: "ino_id ino \<noteq> 0" using assms(2) by (auto simp: blob_ll_open_def)
  then have "oh_id oh2 = ?b" using get_latest_id [OF _ l] get_size_id [OF sz] by (simp add: ucast_ino_id)
  moreover have "fw_handlers w' ! p = oh2"
    using assms(2) l sz p fuse_invD(6) [OF assms(1)]
    by (auto simp: blob_ll_open_def fuse_ops_def deref_ops_def handler_ops_def local_mirror_new_def detach_def release_handler_def Let_def
        split: if_splits prod.splits res.splits)
  ultimately show ?thesis by simp
qed

text \<open>
  C37: All open files work on one handler, and \<open>get_latest\<close>, which every \<open>open\<close> calls on it, binds it to the
  blob of the file opened last: \<open>acquire\<close> does not mark the handler it returns as taken, so that it
  returns the first of the pool again and again. In every reachable state, after a successful \<open>open\<close>
  the handler of each open file, of whatever blob, is the one just bound to the new file's blob; the
  reads of the other files then ask for the pages of that blob.
\<close>

theorem open_redirects_all_files:
  assumes "mset (order [0..<DEFAULT_POOL_SIZE]) = mset [0..<DEFAULT_POOL_SIZE]" "fuse_reach ar env order h w"
    and "fw_open w fh = None" "blob_ll_open ar env os_ok fh ino w = (Ret (Reply_Open fh), w')" "fw_open w' fh' = Some f"
  shows "lm_blob (ff_mirror f) = hd (order [0..<DEFAULT_POOL_SIZE]) \<and>
    oh_id (fw_handlers w' ! lm_blob (ff_mirror f)) = ucast (ino_id ino)"
proof -
  note inv = fuse_reach_inv [OF assms(1,2)]
  have "lm_blob (ff_mirror f) = hd (order [0..<DEFAULT_POOL_SIZE])" by (rule fuse_invD(5) [OF open_inv [OF inv assms(4)] assms(5)])
  then show ?thesis using open_ids [OF inv assms(4)] by simp
qed

section \<open>An instance\<close>

text \<open>A version manager that knows one root.\<close>

definition one_root :: root_t where
  "one_root = (root_t_make 1 1 8 16 1)\<lparr>rt_current_size := 16\<rparr>"

definition one_root_env :: env where
  "one_root_env = (ex_env rpc_ok)\<lparr>en_answer := (\<lambda>log c. (rpc_ok, [buffer_wrapper plain_archive (ser_root plain_archive) one_root]))\<rparr>"

definition answers_one :: "env \<Rightarrow> bool" where
  "answers_one env \<longleftrightarrow>
     (\<forall>log c. rc_buffers c = [] \<longrightarrow> en_answer env log c = (rpc_ok, [buffer_wrapper plain_archive (ser_root plain_archive) one_root]))"

lemma one_root_env_answers: "answers_one one_root_env"
  by (simp add: answers_one_def one_root_env_def)

definition only_root :: "object_handler \<Rightarrow> bool" where
  "only_root oh \<longleftrightarrow> (\<forall>x \<in> set (cache_map (version_cache oh)). fst (snd x) = one_root)"

lemma cache_write_only:
  assumes "\<forall>x \<in> set (cache_map c). fst (snd x) = d" "x \<in> set (cache_map (snd (snd (cache_write cache_mt_LRU_ops k d b c))))"
  shows "fst (snd x) = d"
  using assms by (auto simp: cache_write_def Let_def AList.delete_eq split: option.splits if_splits)

lemma get_root_one:
  assumes "answers_one env" "only_root oh"
  shows "\<exists>oh' log'. get_root plain_archive env v r oh log = (True, one_root, oh', log') \<and> only_root oh' \<and> latest_root oh' = latest_root oh"
proof -
  define hv where "hv = (if v = 0 then (None, version_cache oh) else cache_read cache_mt_LRU_ops v (version_cache oh))"
  obtain hit vc where h: "hv = (hit, vc)" by (metis surj_pair)
  have vc: "only_root (oh\<lparr>version_cache := vc\<rparr>)" "hit = None \<or> hit = Some one_root"
    using assms(2) h by (auto simp: hv_def cache_read_def only_root_def split: option.splits if_splits dest!: map_of_SomeD)
  have a: "rpc_get_serialized plain_archive (ser_root plain_archive) r (managed_answer [] (en_answer env log c)) = (True, one_root)"
    if "rc_buffers c = []" for c
    using assms(1) that by (simp add: answers_one_def rpc_get_serialized_def plain_archive_ok)
  from vc(2) show ?thesis
  proof
    assume "hit = Some one_root"
    then show ?thesis using vc(1) h by (simp add: get_root_def hv_def [symmetric])
  next
    assume "hit = None"
    then show ?thesis using vc(1) h a
      by (auto simp: get_root_def hv_def [symmetric] answer_call_def vmgr_call_def plain_call_def Let_def only_root_def dest: cache_write_only)
  qed
qed

lemma open_one:
  assumes "answers_one env" "fuse_inv p n w" "\<forall>oh \<in> set (fw_handlers w). only_root oh" "ino_id ino \<noteq> 0" "ino_version ino \<noteq> 0"
  shows "\<exists>w' f. blob_ll_open plain_archive env True fh ino w = (Ret (Reply_Open fh), w') \<and>
    (\<forall>oh \<in> set (fw_handlers w'). only_root oh) \<and> fw_open w' = (fw_open w)(fh \<mapsto> f) \<and>
    page_size (ff_mirror f) = 8 \<and> blob_size (ff_mirror f) = 16 \<and> lm_blob (ff_mirror f) = p"
proof -
  let ?b = "ucast (ino_id ino) :: u32" and ?v = "ucast (ino_version ino) :: u32"
  have p: "p < length (fw_handlers w)" using fuse_invD [OF assms(2)] by simp
  have only: "only_root ((fw_handlers w ! p)\<lparr>oh_id := ?b\<rparr>)" using assms(3) nth_mem [OF p] by (simp add: only_root_def)
  from get_root_one [OF assms(1) this] obtain oh1 log1 where 1: "only_root oh1"
    "get_root plain_archive env 0 (latest_root (fw_handlers w ! p)) ((fw_handlers w ! p)\<lparr>oh_id := ?b\<rparr>) (fw_log w) = (True, one_root, oh1, log1)" by blast
  let ?oh1 = "oh1\<lparr>latest_root := one_root\<rparr>"
  have l: "oh_get_latest plain_archive env ?b (fw_handlers w ! p) (fw_log w) = (True, ?oh1, log1)"
    using 1(2) assms(4) by (simp add: oh_get_latest_def ucast_ino_id)
  have "only_root ?oh1" using 1(1) by (simp add: only_root_def)
  from get_root_one [OF assms(1) this, of ?v "root_t_make 0 0 0 0 0" log1] obtain oh2 log2 where 2: "only_root oh2" "latest_root oh2 = one_root"
    "get_root plain_archive env ?v (root_t_make 0 0 0 0 0) ?oh1 log1 = (True, one_root, oh2, log2)" by auto
  have v: "?v \<noteq> 0" using assms(5) by (metis ucast_ino(1) ino_build(2) ucast_0)
  have sz: "oh_get_size plain_archive env ?v ?oh1 log1 = (16, oh2, log2)"
    using 2(3) v by (simp add: oh_get_size_def one_root_def)
  have ps: "oh_get_page_size oh2 = 8" by (simp add: oh_get_page_size_def 2(2) one_root_def root_t_make_def)
  show ?thesis
    using assms(4,5) p l sz fuse_invD(6) [OF assms(2)] ps 2(1) assms(3)
    by (auto simp: blob_ll_open_def fuse_ops_def deref_ops_def handler_ops_def local_mirror_new_def detach_def mirror_fields_def Let_def local_file_def
        split: option.splits prod.splits dest: set_update_subset_insert [THEN subsetD])
qed

text \<open>Blob 1 is opened, then blob 2: both files read blob 2.\<close>

theorem open_redirects_all_files_witness:
  "\<exists>w1 w2 f. fuse_reach plain_archive one_root_env (\<lambda>l. l) ex_handler w1 \<and> fw_open w1 0 \<noteq> None \<and>
     blob_ll_open plain_archive one_root_env True 1 (build_ino 2 1) w1 = (Ret (Reply_Open 1), w2) \<and>
     fw_open w2 0 = Some f \<and> oh_id (fw_handlers w2 ! lm_blob (ff_mirror f)) = 2"
proof -
  let ?w0 = "fuse_init (\<lambda>l. l) ex_handler"
  have r0: "fuse_reach plain_archive one_root_env (\<lambda>l. l) ex_handler ?w0" by (simp add: fuse_reach_def)
  have o0: "\<forall>oh \<in> set (fw_handlers ?w0). only_root oh"
    by (simp add: fuse_init_def only_root_def ex_handler_def object_handler_new_def cache_init_def)
  note inv0 = fuse_reach_inv [OF refl r0]
  from open_one [OF one_root_env_answers inv0 o0, of "build_ino 1 1" 0] obtain w1 f1 where
    w1: "blob_ll_open plain_archive one_root_env True 0 (build_ino 1 1) ?w0 = (Ret (Reply_Open 0), w1)"
    "\<forall>oh \<in> set (fw_handlers w1). only_root oh" "fw_open w1 = (fw_open ?w0)(0 \<mapsto> f1)" by auto
  have n0: "fw_open ?w0 0 = None" "fw_open w1 1 = None" using w1(3) by (simp_all add: fuse_init_def)
  have r1: "fuse_reach plain_archive one_root_env (\<lambda>l. l) ex_handler w1"
    using r0 fuse_step.fopen [OF n0(1) w1(1)] unfolding fuse_reach_def by (rule rtranclp.rtrancl_into_rtrancl)
  from open_one [OF one_root_env_answers fuse_reach_inv [OF refl r1] w1(2), of "build_ino 2 1" 1] obtain w2 f2 where
    w2: "blob_ll_open plain_archive one_root_env True 1 (build_ino 2 1) w1 = (Ret (Reply_Open 1), w2)" "fw_open w2 = (fw_open w1)(1 \<mapsto> f2)" by auto
  have f: "fw_open w2 0 = Some f1" using w1(3) w2(2) by simp
  from open_redirects_all_files [OF refl r1 n0(2) w2(1) f] show ?thesis using r1 w1(3) w2(1) f by auto
qed

end
