(* ===== verification/Fuse_Dirs.thy ===== *)
theory Fuse_Dirs
  imports Fuse_Pool
begin

text \<open>
  The directories of the file system: the names that are listed are those that are looked up.
\<close>

section \<open>Decimal numbers\<close>

lemma digit_char:
  assumes "(d :: nat) < 10"
  shows "is_digit (char_of (48 + d))" "\<not> is_space (char_of (48 + d))" "of_char (char_of (48 + d)) = (48 + d :: nat)"
    "char_of (48 + d) \<noteq> CHR ''-''" "char_of (48 + d) \<noteq> CHR ''+''"
proof -
  show c: "of_char (char_of (48 + d)) = (48 + d :: nat)" using assms by simp
  show "is_digit (char_of (48 + d))" "\<not> is_space (char_of (48 + d))" using assms by (simp_all add: is_digit_def is_space_def)
  have ne: "char_of (48 + d) \<noteq> k" if "of_char k < (48 :: nat)" for k using c that by (metis not_add_less1)
  show "char_of (48 + d) \<noteq> CHR ''-''" "char_of (48 + d) \<noteq> CHR ''+''" by (rule ne, simp)+
qed

declare show_dec.simps [simp del]

lemma show_dec_digits: "show_dec n \<noteq> []" "\<forall>c \<in> set (show_dec n). \<exists>d < (10 :: nat). c = char_of (48 + d)" "digits_value (show_dec n) = n"
proof (induction n rule: show_dec.induct)
  case (1 n)
  { case 1 show ?case by (simp add: show_dec.simps [of n]) }
  { case 2 show ?case using "1.IH"(2) by (auto simp: show_dec.simps [of n] intro: exI [of _ "n mod 10"]) }
  { case 3 show ?case using "1.IH"(3) digit_char(3) [of "n mod 10"] by (auto simp: show_dec.simps [of n] digits_value_def) }
qed

lemma scan_show: "n < 2 ^ 31 \<Longrightarrow> scan_int (show_dec n) = Some (Ret (of_nat n))"
proof -
  assume n: "n < 2 ^ 31"
  have d: "is_digit c \<and> \<not> is_space c \<and> c \<noteq> CHR ''-'' \<and> c \<noteq> CHR ''+''" if c: "c \<in> set (show_dec n)" for c
  proof -
    obtain k :: nat where k: "k < 10" "c = char_of (48 + k)" using show_dec_digits(2) [of n] c by blast
    show ?thesis unfolding k(2) by (intro conjI digit_char [OF k(1)])
  qed
  obtain c s where s: "show_dec n = c # s" using show_dec_digits(1) [of n] by (cases "show_dec n") auto
  have tw: "takeWhile is_digit s = s" using d s by (simp add: takeWhile_eq_all_conv)
  have "dropWhile is_space (show_dec n) = show_dec n" using d [of c] s by simp
  moreover have "int n < 2 ^ 31" using n by (simp add: zless_nat_eq_int_zless [symmetric])
  ultimately show ?thesis using d [of c] s show_dec_digits(3) [of n]
    by (simp add: scan_int_def Let_def tw)
qed

section \<open>Directories\<close>

lemma of_nat_pred: "of_nat (Suc k) - 1 = (of_nat k :: u32)"
  by simp

lemma names_scan:
  assumes "k < 2 ^ 31"
  shows "sscanf_d ''blob-'' (blob_name (of_nat (Suc k))) = Some (Ret (of_nat k))"
    "sscanf_d ''version-'' (version_name (of_nat (Suc k))) = Some (Ret (of_nat k))"
proof -
  have k: "unat (of_nat k :: u32) = k" using assms by (simp add: unat_of_nat)
  show "sscanf_d ''blob-'' (blob_name (of_nat (Suc k))) = Some (Ret (of_nat k))"
    "sscanf_d ''version-'' (version_name (of_nat (Suc k))) = Some (Ret (of_nat k))"
    unfolding blob_name_def version_name_def of_nat_pred k by (simp_all add: sscanf_d_def stream_write_def scan_show [OF assms])
qed

text \<open>The entries of a directory with \<open>n\<close> blobs or versions, and the buffer the library fills with them.\<close>

definition dir_entry :: "u64 \<Rightarrow> nat \<Rightarrow> string \<times> u64" where
  "dir_entry ino k =
     (if ino = 1 then (''blob-'' @ show_dec k, build_ino (of_nat k) 0)
      else (''version-'' @ show_dec k, build_ino (ucast (ino_id ino)) (of_nat k)))"

definition dir_listing :: "u64 \<Rightarrow> nat \<Rightarrow> (string \<times> u64) list" where
  "dir_listing ino n = [(''.'', ino), (''..'', 1)] @ map (dir_entry ino) [1..<Suc n]"

definition dir_bytes :: "(string \<Rightarrow> nat) \<Rightarrow> (string \<Rightarrow> u64 \<Rightarrow> nat \<Rightarrow> buffer) \<Rightarrow> (string \<times> u64) list \<Rightarrow> buffer \<Rightarrow> buffer" where
  "dir_bytes entry_size direntry es b = foldl (\<lambda>b e. dirbuf_add entry_size direntry (fst e) (snd e) b) b es"

lemma dir_loop_listing:
  assumes "k \<le> Suc n" "n < 2 ^ 31" "unat nlink = n + 2" "0 < k"
  shows "dir_loop entry_size direntry ino nlink (of_nat (Suc k)) b = Some (dir_bytes entry_size direntry (map (dir_entry ino) [k..<Suc n]) b)"
  using assms(1,4)
proof (induction "Suc n - k" arbitrary: k b)
  case 0
  have "unat (of_nat (Suc k) :: u32) = Suc k" using 0 assms(2) by (simp add: unat_of_nat del: of_nat_Suc)
  then have "\<not> ucast (of_nat (Suc k) :: u32) < nlink" using 0 assms(3) by (simp add: word_less_nat_alt unat_ucast_u32 del: of_nat_Suc)
  then show ?case using 0 by (subst dir_loop.simps) (simp add: dir_bytes_def del: of_nat_Suc)
next
  case (Suc d)
  let ?b = "dirbuf_add entry_size direntry (fst (dir_entry ino k)) (snd (dir_entry ino k)) b"
  have k: "k < Suc n" using Suc.hyps(2) by linarith
  then have u: "unat (of_nat (Suc k) :: u32) = Suc k" "unat (of_nat k :: u32) = k" using assms(2) by (simp_all add: unat_of_nat del: of_nat_Suc)
  have lt: "ucast (of_nat (Suc k) :: u32) < nlink" using k assms(3) u(1) by (simp add: word_less_nat_alt unat_ucast_u32 del: of_nat_Suc)
  have "dir_loop entry_size direntry ino nlink (of_nat (Suc k)) b = dir_loop entry_size direntry ino nlink (of_nat (Suc (Suc k))) ?b"
  proof (subst dir_loop.simps, unfold if_P [OF lt] of_nat_pred blob_name_def version_name_def u(2))
    have "of_nat (Suc k) + 1 = (of_nat (Suc (Suc k)) :: u32)" by simp
    then show "dir_loop entry_size direntry ino nlink (of_nat (Suc k) + 1)
        (if ino = 1 then dirbuf_add entry_size direntry (stream_write [] (''blob-'' @ show_dec k)) (build_ino (of_nat k) 0) b
         else dirbuf_add entry_size direntry (stream_write ''version-'' (''version-'' @ show_dec k)) (build_ino (ucast (ino_id ino)) (of_nat k)) b) =
        dir_loop entry_size direntry ino nlink (of_nat (Suc (Suc k))) ?b"
      by (simp add: dir_entry_def stream_write_def del: of_nat_Suc)
  qed
  also have "\<dots> = Some (dir_bytes entry_size direntry (map (dir_entry ino) [Suc k..<Suc n]) ?b)"
    by (rule Suc.hyps(1)) (use Suc.hyps(2) k in simp_all)
  also have "\<dots> = Some (dir_bytes entry_size direntry (map (dir_entry ino) [k..<Suc n]) b)"
    using k by (simp add: dir_bytes_def upt_conv_Cons del: upt_Suc)
  finally show ?case .
qed

lemma stat_directory:
  assumes "blob_stat ar env junk ino stat_zero w = (Ret E_OK, st, w')" "and (st_mode st) S_IFDIR \<noteq> 0"
  shows "ino = 1 \<or> ino_id ino \<noteq> 0 \<and> ino_version ino = 0"
proof -
  have "and (or S_IFREG 0x1B6) S_IFDIR = 0" by (simp add: S_IFREG_def S_IFDIR_def)
  then show ?thesis using assms
    by (auto simp: blob_stat_def stat_entry_def release_handler_def stat_zero_def Let_def split: option.splits prod.splits res.splits if_splits)
qed

lemma sint_nonneg: "unat (off :: u64) < 2 ^ 63 \<Longrightarrow> sint off = int (unat off)"
proof -
  assume "unat off < 2 ^ 63"
  then have "int (unat off) < int (2 ^ 63)" by (simp only: of_nat_less_iff)
  then have u: "uint off < 2 ^ 63" by simp
  have "- (2 ^ 63) \<le> uint off" by (rule order_trans [OF _ uint_ge_0]) simp
  from signed_take_bit_int_eq_self [OF this u] show ?thesis by (simp add: sint_uint)
qed

lemma lookup_entry:
  assumes "ino = 1 \<or> ino_id ino \<noteq> 0 \<and> ino_version ino = 0" "0 < k" "k < 2 ^ 31"
    and "fst (blob_ll_lookup ar env junk ino (fst (dir_entry ino k)) w) = Ret x"
  shows "\<exists>st. x = Reply_Entry (snd (dir_entry ino k)) st"
proof -
  have k: "unat (of_nat k :: u32) = k" using assms(3) by (simp add: unat_of_nat)
  have n: "blob_name (of_nat (Suc k)) = ''blob-'' @ show_dec k" "version_name (of_nat (Suc k)) = ''version-'' @ show_dec k"
    unfolding blob_name_def version_name_def of_nat_pred k by (simp_all add: stream_write_def)
  note sc = names_scan [OF assms(3), unfolded n]
  have one: "ino_id 1 = 0" by (simp add: ino_id_def)
  show ?thesis
  proof (cases "ino = 1")
    case True
    then show ?thesis using assms(4) sc(1) one by (auto simp: blob_ll_lookup_def dir_entry_def split: prod.splits res.splits)
  next
    case False
    then show ?thesis using assms(1,4) sc(2) by (auto simp: blob_ll_lookup_def dir_entry_def split: prod.splits res.splits)
  qed
qed

text \<open>
  C38: What a directory lists can be opened under the listed name. \<open>readdir\<close> on a directory with \<open>n\<close> blobs or
  versions ends and returns, from any offset, the part of the listing \<open>.\<close>, \<open>..\<close>, \<open>blob-1\<close> to \<open>blob-\<close>\<open>n\<close> (or
  \<open>version-1\<close> to \<open>version-\<close>\<open>n\<close>) that the request has room for, and \<open>lookup\<close> of each listed name, if it
  replies, returns exactly the inode listed with it: printing and parsing of the names and packing of
  the inodes agree for all numbers below $2^{31}$.
\<close>

theorem listed_names_resolve:
  assumes "blob_stat ar env junk ino stat_zero w = (Ret E_OK, st, w')" "and (st_mode st) S_IFDIR \<noteq> 0"
    and "unat (st_nlink st) = n + 2" "n < 2 ^ 31 - 1" "unat off < 2 ^ 63"
  shows "blob_ll_readdir entry_size direntry ar env junk ino sz off w =
      Some (Ret (Reply_Buf (take (unat sz) (drop (unat off) (dir_bytes entry_size direntry (dir_listing ino n) [])))), w') \<and>
    (\<forall>k junk2 w2 x. 0 < k \<and> k \<le> n \<and> fst (blob_ll_lookup ar env junk2 ino (fst (dir_entry ino k)) w2) = Ret x \<longrightarrow>
       (\<exists>st2. x = Reply_Entry (snd (dir_entry ino k)) st2))"
proof
  let ?b = "dirbuf_add entry_size direntry ''..'' 1 (dirbuf_add entry_size direntry ''.'' ino [])"
  let ?d = "dir_bytes entry_size direntry (dir_listing ino n) []"
  have "dir_loop entry_size direntry ino (st_nlink st) (of_nat (Suc 1)) ?b = Some (dir_bytes entry_size direntry (map (dir_entry ino) [1..<Suc n]) ?b)"
    by (rule dir_loop_listing [OF _ _ assms(3)]) (use assms(4) in simp_all)
  also have "dir_bytes entry_size direntry (map (dir_entry ino) [1..<Suc n]) ?b = ?d" by (simp add: dir_bytes_def dir_listing_def)
  finally have loop: "dir_loop entry_size direntry ino (st_nlink st) 2 ?b = Some ?d" by simp
  have off: "sint off = int (unat off)" by (rule sint_nonneg [OF assms(5)])
  have "reply_buf_limited ?d off sz = Ret (Reply_Buf (take (unat sz) (drop (unat off) ?d)))"
    unfolding reply_buf_limited_def off of_nat_less_iff of_nat_less_0_iff by (auto simp: min_def)
  then show "blob_ll_readdir entry_size direntry ar env junk ino sz off w = Some (Ret (Reply_Buf (take (unat sz) (drop (unat off) ?d))), w')"
    using assms(1,2) loop by (simp add: blob_ll_readdir_def)
  show "\<forall>k junk2 w2 x. 0 < k \<and> k \<le> n \<and> fst (blob_ll_lookup ar env junk2 ino (fst (dir_entry ino k)) w2) = Ret x \<longrightarrow>
       (\<exists>st2. x = Reply_Entry (snd (dir_entry ino k)) st2)"
    using lookup_entry [OF stat_directory [OF assms(1,2)]] assms(4) by fastforce
qed

text \<open>The directory of a blob with one version.\<close>

theorem listed_names_resolve_witness:
  "\<exists>w'. blob_ll_readdir length (\<lambda>name ino off. map of_char name) plain_archive one_root_env 0 (build_ino 7 0) 4096 0
        (fuse_init (\<lambda>l. l) ex_handler) =
      Some (Ret (Reply_Buf (map of_char (''.'' @ ''..'' @ ''version-1''))), w') \<and>
    (\<forall>w2 x. fst (blob_ll_lookup plain_archive one_root_env 0 (build_ino 7 0) ''version-1'' w2) = Ret x \<longrightarrow>
       (\<exists>st2. x = Reply_Entry (build_ino 7 1) st2))"
proof -
  let ?w = "fuse_init (\<lambda>l. l) ex_handler" let ?ino = "build_ino 7 0"
  have p: "pool_acquire (fw_pool ?w) = Some 0" "fw_handlers ?w ! 0 = ex_handler" "0 \<in> fst ` set (fw_pool ?w)"
    by (simp_all add: fuse_init_def object_pool_new_def DEFAULT_POOL_SIZE_def upt_rec)
  have ino: "?ino \<noteq> 1" "ino_id ?ino \<noteq> 0" "ino_version ?ino = 0" by (simp add: build_ino_def, simp_all)
  have "only_root (ex_handler\<lparr>oh_id := 7\<rparr>)" by (simp add: only_root_def ex_handler_def object_handler_new_def cache_init_def)
  from get_root_one [OF one_root_env_answers this, of 0 "latest_root ex_handler" "[]"] obtain oh log where
    g: "get_root plain_archive one_root_env 0 (latest_root ex_handler) (ex_handler\<lparr>oh_id := 7\<rparr>) [] = (True, one_root, oh, log)" by blast
  obtain w' where st: "blob_stat plain_archive one_root_env 0 ?ino stat_zero ?w =
      (Ret E_OK, stat_zero\<lparr>st_ino := ?ino, st_mode := or S_IFDIR 0x1ED, st_nlink := 3\<rparr>, w')"
    using p g ino by (auto simp: blob_stat_def stat_entry_def fuse_ops_def deref_ops_def handler_ops_def oh_get_latest_def release_handler_def pool_release_def
        oh_get_version_def one_root_def root_t_make_def fuse_init_def DEFAULT_POOL_SIZE_def)
  have dir: "and (st_mode (stat_zero\<lparr>st_ino := ?ino, st_mode := or S_IFDIR 0x1ED, st_nlink := 3\<rparr>)) S_IFDIR \<noteq> 0"
    "unat (st_nlink (stat_zero\<lparr>st_ino := ?ino, st_mode := or S_IFDIR 0x1ED, st_nlink := 3\<rparr>)) = 1 + 2"
    by (simp_all add: S_IFDIR_def)
  have one: "char_of (49 :: nat) = CHR ''1''" by code_simp
  have d: "dir_entry ?ino 1 = (''version-1'', build_ino 7 1)" using ino by (simp add: dir_entry_def show_dec.simps one)
  then have b: "dir_bytes length (\<lambda>name ino off. map of_char name) (dir_listing ?ino 1) [] = map of_char (''.'' @ ''..'' @ ''version-1'')"
    by (simp add: dir_bytes_def dir_listing_def dirbuf_add_def upt_rec)
  have off: "(1 :: nat) < 2 ^ 31 - 1" "unat (0 :: u64) < 2 ^ 63" by simp_all
  note listed = listed_names_resolve [OF st dir off, of length "\<lambda>name ino off. map of_char name" 4096]
  have "\<exists>st2. x = Reply_Entry (build_ino 7 1) st2"
    if "fst (blob_ll_lookup plain_archive one_root_env 0 ?ino ''version-1'' w2) = Ret x" for w2 x
    using conjunct2 [OF listed, rule_format, of 1 0 w2 x] that d by simp
  then show ?thesis using conjunct1 [OF listed, unfolded b] by auto
qed

end
