(* ===== verification/Fuse_Files.thy ===== *)
theory Fuse_Files
  imports Fuse_Dirs
begin

text \<open>
  The files of the file system: reads and writes of a file from the moment it is opened, on the contract of
  the mirror, and what a second \<open>open\<close> of the same version does to the first.
\<close>

section \<open>Reads and writes of a file\<close>

text \<open>A handle behind a pointer keeps the contract of the handle.\<close>

locale pointed_source = blob_source ops base ver good
  for ops :: "('h \<times> 'l) blob_ops" and base :: buffer and ver :: u32 and good :: "'h \<times> 'l \<Rightarrow> bool"

definition points_to :: "('h \<times> 'l \<Rightarrow> bool) \<Rightarrow> nat \<times> 'h list \<times> 'l \<Rightarrow> bool" where
  "points_to good = (\<lambda>(p, hs, log). p < length hs \<and> good (hs ! p, log))"

sublocale pointed_source \<subseteq> pointed: blob_source "deref_ops ops" base ver "points_to good"
proof
  fix b off sz mem r mem' b'
  assume a: "points_to good b" "bo_read (deref_ops ops) off sz mem ver b = (Ret r, mem', b')" "0 < sz"
    "unat off + unat sz \<le> length base" "length mem = unat sz"
  obtain p hs log where b: "b = (p, hs, log)" by (metis surj_pair)
  obtain h log' where rd: "bo_read ops off sz mem ver (hs ! p, log) = (Ret r, mem', h, log')" "b' = (p, hs[p := h], log')"
    using a(2) by (auto simp: deref_ops_def b split: prod.splits)
  have "p < length hs" "good (hs ! p, log)" using a(1) by (simp_all add: points_to_def b)
  with read_right [OF this(2) rd(1) a(3-5)] rd(2)
  show "points_to good b' \<and> length mem' = length mem \<and> (r \<longrightarrow> mem' = take (unat sz) (drop (unat off) base))"
    by (simp add: points_to_def)
qed

interpretation file_handler: pointed_source "handler_ops ar env" base ver "handler_good ar env ver base" for ar env base ver
  by unfold_locales

text \<open>
  An open file stands for the bytes \<open>bytes\<close>: its mirror does, and the handler it points to is good for the
  version.
\<close>

definition file_ok :: "archive \<Rightarrow> env \<Rightarrow> buffer \<Rightarrow> buffer \<Rightarrow> nat \<Rightarrow> fuse_world \<Rightarrow> bool" where
  "file_ok ar env base bytes fh w \<longleftrightarrow>
     (case fw_open w fh of None \<Rightarrow> False
      | Some f \<Rightarrow> ff_file f < length (fw_files w) \<and> mirror_inv base bytes (attach w f) \<and>
          points_to (handler_good ar env (lm_version (ff_mirror f)) base) (lm_blob (attach w f)))"

lemma attach_detach:
  assumes "k < length (fw_files w)" "length (mapping lm) = unat (blob_size lm)" "length (mapping lm) \<le> length (fw_files w ! k)"
  shows "attach (detach fh k lm w) \<lparr>ff_mirror = mirror_fields lm, ff_file = k\<rparr> = lm"
proof -
  have "take (length (mapping lm)) (memory_write 0 (mapping lm) (fw_files w ! k)) = mapping lm"
    by (simp add: memory_write_def)
  then show ?thesis using assms by (cases lm) (simp add: attach_def detach_def mirror_fields_def Let_def)
qed

lemma file_ok_detach:
  assumes "file_ok ar env base bytes fh w" "fw_open w fh = Some f" "mirror_inv base bytes' lm'" "mirror_same (attach w f) lm'"
    and "points_to (handler_good ar env (lm_version (ff_mirror f)) base) (lm_blob lm')"
  shows "file_ok ar env base bytes' fh (detach fh (ff_file f) lm' w)"
proof -
  have f: "ff_file f < length (fw_files w)" "mirror_inv base bytes (attach w f)" using assms(1,2) by (simp_all add: file_ok_def)
  note i = mirror_invD [OF f(2) refl refl] and i' = mirror_invD [OF assms(3) refl refl]
  have len: "length (mapping lm') = unat (blob_size lm')" using i'(4,11) by simp
  have "length (mapping (attach w f)) = length (mapping lm')" using len i(4,11) assms(4) by (simp add: mirror_same_def)
  then have "length (mapping lm') \<le> length (fw_files w ! ff_file f)" by (simp add: attach_def Let_def)
  note ad = attach_detach [OF f(1) len this, of fh]
  have op: "fw_open (detach fh (ff_file f) lm' w) fh = Some \<lparr>ff_mirror = mirror_fields lm', ff_file = ff_file f\<rparr>"
    "length (fw_files (detach fh (ff_file f) lm' w)) = length (fw_files w)" by (simp_all add: detach_def)
  have "lm_version lm' = lm_version (ff_mirror f)" using assms(4) by (simp add: mirror_same_def attach_def Let_def)
  then show ?thesis using op f(1) assms(3,5) by (simp add: file_ok_def ad) (simp add: mirror_fields_def)
qed

lemma file_ok_open: "file_ok ar env base bytes fh w \<Longrightarrow> \<exists>f. fw_open w fh = Some f \<and> mirror_inv base bytes (attach w f) \<and>
    points_to (handler_good ar env (lm_version (ff_mirror f)) base) (lm_blob (attach w f)) \<and> lm_version (attach w f) = lm_version (ff_mirror f)"
  by (auto simp: file_ok_def attach_def Let_def split: option.splits)

text \<open>What a request through an open file leaves as it is.\<close>

definition same_file :: "nat \<Rightarrow> fuse_world \<Rightarrow> fuse_world \<Rightarrow> bool" where
  "same_file fh w w' \<longleftrightarrow>
     (\<exists>f f'. fw_open w fh = Some f \<and> fw_open w' fh = Some f' \<and> ff_file f' = ff_file f \<and> mirror_same (ff_mirror f) (ff_mirror f') \<and>
        fw_names w' = fw_names w \<and> fw_index w' = fw_index w \<and>
        length (fw_files w' ! ff_file f) = length (fw_files w ! ff_file f))"

lemma same_file_detach:
  assumes "file_ok ar env base bytes fh w" "fw_open w fh = Some f" "mirror_inv base bytes' lm" "mirror_same (attach w f) lm"
  shows "same_file fh w (detach fh (ff_file f) lm w)"
proof -
  have i: "mirror_inv base bytes (attach w f)" "ff_file f < length (fw_files w)" using assms(1,2) by (simp_all add: file_ok_def)
  have "length (mapping lm) = length (mapping (attach w f))"
    using mirror_invD(4,5) [OF i(1) refl refl] mirror_invD(4,5) [OF assms(3) refl refl] by simp
  then have "length (mapping lm) \<le> length (fw_files w ! ff_file f)" by (simp add: attach_def Let_def)
  then have "length (memory_write 0 (mapping lm) (fw_files w ! ff_file f)) = length (fw_files w ! ff_file f)" by (simp add: length_memory_write)
  then show ?thesis using assms(2,4) i(2) by (simp add: same_file_def detach_def mirror_same_def mirror_fields_def attach_def Let_def)
qed

lemma file_read_right:
  assumes "file_ok ar env base bytes fh w" "unat off + unat sz < 2 ^ 64"
  shows "\<exists>r w'. blob_ll_read ar env fh sz off w = Some (r, w') \<and>
      (\<forall>b. r = Ret (Reply_Buf b) \<longrightarrow> file_ok ar env base bytes fh w' \<and> same_file fh w w' \<and> (b = [] \<or> b = take (unat sz) (drop (unat off) bytes)))"
proof -
  from file_ok_open [OF assms(1)] obtain f where f: "fw_open w fh = Some f" "mirror_inv base bytes (attach w f)"
    "points_to (handler_good ar env (lm_version (ff_mirror f)) base) (lm_blob (attach w f))" "lm_version (attach w f) = lm_version (ff_mirror f)" by blast
  obtain r lm where r: "lm_read (fuse_ops ar env) sz off (attach w f) = Some (r, lm)" and
    ok: "\<And>k buf. r = Ret (k, buf) \<Longrightarrow> mirror_inv base bytes lm \<and> points_to (handler_good ar env (lm_version (ff_mirror f)) base) (lm_blob lm) \<and>
      mirror_same (attach w f) lm \<and>
      (\<forall>b. buf = Some b \<longrightarrow> unat k = min (unat sz) (length bytes - unat off) \<and> b = take (unat sz) (drop (unat off) bytes))"
    using file_handler.pointed.lm_read_right [OF f(2-4) assms(2), folded fuse_ops_def] by blast
  show ?thesis
  proof (cases r)
    case (Ret x)
    obtain k buf where x: "x = (k, buf)" by (metis surj_pair)
    note o = ok [OF Ret [unfolded x]]
    have "file_ok ar env base bytes fh (detach fh (ff_file f) lm w)" using o by (intro file_ok_detach [OF assms(1) f(1)]) simp_all
    moreover have "same_file fh w (detach fh (ff_file f) lm w)" using o by (intro same_file_detach [OF assms(1) f(1), of bytes]) simp_all
    ultimately show ?thesis using f(1) r Ret x o by (cases buf) (simp_all add: blob_ll_read_def min_def)
  qed (use f(1) r in \<open>simp_all add: blob_ll_read_def\<close>)
qed

lemma file_write_right:
  assumes "file_ok ar env base bytes fh w" "unat off + unat sz < 2 ^ 64" "0 < sz" "length buf = unat sz"
  shows "\<exists>r w'. blob_ll_write ar env fh buf sz off w = Some (r, w') \<and>
      (r = Ret (Reply_Write sz) \<longrightarrow> file_ok ar env base (memory_write (unat off) buf bytes) fh w' \<and> same_file fh w w') \<and>
      (\<forall>e f. r = Ret (Reply_Err e) \<and> fw_open w fh = Some f \<longrightarrow>
         file_ok ar env base (torn_write (unat off) buf (ff_mirror f) bytes) fh w' \<and> same_file fh w w')"
proof -
  from file_ok_open [OF assms(1)] obtain f where f: "fw_open w fh = Some f" "mirror_inv base bytes (attach w f)"
    "points_to (handler_good ar env (lm_version (ff_mirror f)) base) (lm_blob (attach w f))" "lm_version (attach w f) = lm_version (ff_mirror f)" by blast
  let ?good = "\<lambda>lm. points_to (handler_good ar env (lm_version (ff_mirror f)) base) (lm_blob lm)"
  from file_handler.pointed.lm_write_right [OF f(2-4) assms(2-4), folded fuse_ops_def] obtain r lm where
    H: "lm_write (fuse_ops ar env) sz off buf (attach w f) = Some (r, lm) \<and>
      (\<forall>k. r = Ret k \<and> k \<noteq> 0 \<longrightarrow> k = sz \<and> mirror_inv base (memory_write (unat off) buf bytes) lm \<and> ?good lm \<and> mirror_same (attach w f) lm) \<and>
      (r = Ret 0 \<longrightarrow> mirror_inv base (torn_write (unat off) buf (attach w f) bytes) lm \<and> ?good lm \<and> mirror_same (attach w f) lm)" by (elim exE)
  note w = H [THEN conjunct1] and ok = H [THEN conjunct2, THEN conjunct1, rule_format] and bad = H [THEN conjunct2, THEN conjunct2, rule_format]
  have torn: "torn_write (unat off) buf (attach w f) bytes = torn_write (unat off) buf (ff_mirror f) bytes"
    by (simp add: torn_write_def attach_def Let_def)
  have "file_ok ar env base (memory_write (unat off) buf bytes) fh (detach fh (ff_file f) lm w)" if "r = Ret sz"
    using ok [of sz] that assms(3) by (intro file_ok_detach [OF assms(1) f(1)]) (auto simp: word_gt_0)
  moreover have "file_ok ar env base (torn_write (unat off) buf (ff_mirror f) bytes) fh (detach fh (ff_file f) lm w)" if "r = Ret k" "k \<noteq> sz" for k
    using ok [of k] bad that unfolding torn by (intro file_ok_detach [OF assms(1) f(1)]) auto
  moreover have "same_file fh w (detach fh (ff_file f) lm w)" if "r = Ret k" for k
    using ok [of k] bad that by (cases "k = 0") (auto intro: same_file_detach [OF assms(1) f(1)])
  ultimately show ?thesis using f(1) w by (cases r) (simp_all add: blob_ll_write_def)
qed

section \<open>From \<open>open\<close> to the end of use\<close>

text \<open>
  What a successful \<open>open\<close> leaves, for a version that has no index file: the mirror is the fresh one of
  \<open>local_mirror_new\<close> over the local file, on the shared handler.
\<close>

lemma open_effect:
  assumes "fuse_inv p N w" "blob_ll_open ar env True fh ino w = (Ret (Reply_Open fh), w')" "fw_open w' fh = Some f"
    and "local_file (ucast (ino_id ino), ucast (ino_version ino)) w = (k, w1)" "k < length (fw_files w1)"
    and "fw_index w (ucast (ino_id ino), ucast (ino_version ino)) = None"
  shows "\<exists>hs log. local_mirror_new (fuse_ops ar env) True (fw_files w1 ! k) None (p, hs, log) (ucast (ino_version ino)) =
      (Ret (attach w' f), lm_blob (attach w' f)) \<and> length hs = N \<and> ff_file f = k \<and>
    fw_open w' = (fw_open w)(fh \<mapsto> f) \<and> fw_names w' = fw_names w1 \<and> fw_index w' = fw_index w \<and>
    fw_files w' = (fw_files w1)[k := adjust_file (blob_size (ff_mirror f)) (fw_files w1 ! k)] \<and>
    local_name (ff_mirror f) = (ucast (ino_id ino), ucast (ino_version ino))"
proof -
  let ?b = "ucast (ino_id ino) :: u32" and ?v = "ucast (ino_version ino) :: u32"
  have ino: "\<not> (ino_id ino = 0 \<or> ino_version ino = 0)" using assms(2) by (auto simp: blob_ll_open_def)
  note inv = fuse_invD [OF assms(1)]
  obtain ok q hs log where l: "bo_latest (fuse_ops ar env) ?b (p, fw_handlers w, fw_log w) = (ok, q, hs, log)" by (metis surj_pair)
  have q: "q = p" "length hs = N" using fuse_ops_pointer(1) [OF l] inv(4) by simp_all
  let ?w = "w\<lparr>fw_handlers := hs, fw_log := log\<rparr>" let ?w1 = "w1\<lparr>fw_handlers := hs, fw_log := log\<rparr>"
  have wi: "fuse_inv p N ?w" using q by (intro handlers_inv [OF assms(1)]) simp
  have ok: ok
  proof (rule ccontr)
    assume "\<not> ok"
    then show False using assms(2) l ino by (simp add: blob_ll_open_def inv(6) release_inv [OF wi] Let_def)
  qed
  obtain oh where oh: "oh_get_latest ar env ?b (fw_handlers w ! p) (fw_log w) = (ok, oh, log)" "hs = (fw_handlers w)[p := oh]"
    using l by (auto simp: fuse_ops_def deref_ops_def handler_ops_def split: prod.splits)
  have bid: "?b \<noteq> 0" using ino by (simp add: ucast_ino_id)
  have id: "bo_id (fuse_ops ar env) (p, hs', log') = ?b" if "oh_id (hs' ! p) = ?b" for hs' log'
    using that by (simp add: fuse_ops_def deref_ops_def handler_ops_def oh_get_id_def)
  have hid: "oh_id (hs ! p) = ?b" using get_latest_id [OF bid oh(1)] inv(3,4) by (simp add: oh(2))
  have lf: "local_file (?b, ?v) ?w = (k, ?w1)" "fw_index w1 = fw_index w" "fw_open w1 = fw_open w"
    using assms(4) by (auto simp: local_file_def split: option.splits)
  obtain m c where m: "local_mirror_new (fuse_ops ar env) True (fw_files w1 ! k) None (p, hs, log) ?v = (m, c)" by (metis surj_pair)
  obtain q2 hs2 log2 where c: "c = (q2, hs2, log2)" by (metis surj_pair)
  have "\<exists>lm. m = Ret lm"
  proof (rule ccontr)
    assume "\<nexists>lm. m = Ret lm"
    then show False using assms(2,6) l ino ok inv(6) m c
      by (cases m) (simp_all add: blob_ll_open_def Let_def id [OF hid] lf release_handler_def pool_release_def split: if_splits)
  qed
  then obtain lm where lm: "m = Ret lm" ..
  let ?a = "adjust_file (blob_size lm) (fw_files w1 ! k)"
  have w': "w' = detach fh k lm (?w1\<lparr>fw_files := (fw_files w1)[k := ?a]\<rparr>)"
    using assms(2,6) l ino ok inv(6) m c lm by (simp add: blob_ll_open_def Let_def id [OF hid] lf)
  have f: "f = \<lparr>ff_mirror = mirror_fields lm, ff_file = k\<rparr>" using assms(3) by (simp add: w' detach_def)
  note d = local_mirror_newD [OF m [unfolded lm]]
  have len: "length (mapping lm) = unat (blob_size lm)"
    using d(2) length_adjust_file [of "blob_size lm" "fw_files w1 ! k"] by (simp add: min_absorb2)
  have at: "attach w' f = lm" unfolding w' f
    by (rule attach_detach) (use assms(5) len length_adjust_file [of "blob_size lm" "fw_files w1 ! k"] in simp_all)
  have "memory_write 0 (mapping lm) ?a = ?a"
    using d(2) len by (simp add: memory_write_def)
  then have files: "fw_files w' = (fw_files w1)[k := ?a]" using assms(5) by (simp add: w' detach_def)
  have "oh_id (fst (snd (lm_blob lm)) ! p) = ?b" "fst (lm_blob lm) = p"
    using m lm d(3) hid inv(3,4) q(2)
    by (auto simp: local_mirror_new_def fuse_ops_def deref_ops_def handler_ops_def Let_def split: prod.splits if_splits dest!: get_size_id)
  then have "local_name lm = (?b, ?v)" using m lm id [of "fst (snd (lm_blob lm))" "snd (snd (lm_blob lm))"]
    by (auto simp: local_mirror_new_def Let_def split: prod.splits if_splits)
  then show ?thesis using m lm d(3) q(2) at files lf(2,3)
    by (intro exI [of _ hs] exI [of _ log]) (simp add: f mirror_fields_def, simp add: w' f detach_def mirror_fields_def)
qed

lemma open_file_ok:
  assumes "fuse_inv p N w" "blob_ll_open ar env True fh ino w = (Ret (Reply_Open fh), w')" "fw_open w' fh = Some f"
    and "local_file (ucast (ino_id ino), ucast (ino_version ino)) w = (k, w1)" "k < length (fw_files w1)"
    and "fw_index w (ucast (ino_id ino), ucast (ino_version ino)) = None"
    and "handler_good ar env (ucast (ino_version ino)) base (fw_handlers w' ! lm_blob (ff_mirror f), fw_log w')"
    and "fits (page_size (ff_mirror f)) n" "blob_size (ff_mirror f) = pw (page_size (ff_mirror f)) n"
    and "length base = n * unat (page_size (ff_mirror f))"
  shows "file_ok ar env base base fh w'"
proof -
  let ?lm = "attach w' f"
  obtain hs log where new: "local_mirror_new (fuse_ops ar env) True (fw_files w1 ! k) None (p, hs, log) (ucast (ino_version ino)) = (Ret ?lm, lm_blob ?lm)"
    and k: "length hs = N" "ff_file f < length (fw_files w')"
    using open_effect [OF assms(1-6)] assms(5) by fastforce
  note d = local_mirror_newD [OF new]
  have lm: "page_size ?lm = page_size (ff_mirror f)" "blob_size ?lm = blob_size (ff_mirror f)" "lm_version ?lm = lm_version (ff_mirror f)"
    "lm_blob ?lm = (lm_blob (ff_mirror f), fw_handlers w', fw_log w')" by (simp_all add: attach_def Let_def)
  have "length (mapping ?lm) = length base"
    using d(2) assms(9,10) lm(2) unat_pw [OF assms(8) le_refl] length_adjust_file [of "blob_size ?lm" "fw_files w1 ! k"] by (simp add: min_absorb2)
  then have inv: "mirror_inv base base ?lm" using d(5) assms(8-10) lm(1,2) by (intro new_mirror_inv [of ?lm base n]) simp_all
  have "through p N (lm_blob ?lm)" using through.new_keeps [OF _ new, of p N] k(1) by (simp add: through_def)
  then have "lm_blob (ff_mirror f) < length (fw_handlers w')" using fuse_invD(3) [OF assms(1)] by (simp add: lm(4) through_def)
  then have "points_to (handler_good ar env (lm_version (ff_mirror f)) base) (lm_blob ?lm)"
    using assms(7) d(1) lm(3) by (simp add: points_to_def lm(4))
  then show ?thesis using assms(3) inv k(2) by (simp add: file_ok_def)
qed

lemma local_file_new: "fw_names w name = None \<Longrightarrow>
    local_file name w = (length (fw_files w), w\<lparr>fw_names := (fw_names w)(name \<mapsto> length (fw_files w)), fw_files := fw_files w @ [[]]\<rparr>)"
  by (simp add: local_file_def)

text \<open>
  A file in use: it is opened in any state the file system can reach, for a version that has no local file
  and no index file yet, and then read and written, with or without success. From the \<open>open\<close> on there
  are no requests but those through \<open>fh\<close>. The version has the bytes \<open>base\<close>, and the handler that \<open>open\<close>
  leaves is good for it. The file then stands for the bytes in the last but one argument.
\<close>

inductive file_session :: "archive \<Rightarrow> env \<Rightarrow> buffer \<Rightarrow> nat \<Rightarrow> buffer \<Rightarrow> fuse_world \<Rightarrow> bool" for ar env base fh where
  opened: "file_session ar env base fh base w'"
    if "mset (order [0..<DEFAULT_POOL_SIZE]) = mset [0..<DEFAULT_POOL_SIZE]" "fuse_reach ar env order h w" "fw_open w fh = None"
      "blob_ll_open ar env True fh ino w = (Ret (Reply_Open fh), w')" "fw_open w' fh = Some f"
      "fw_names w (ucast (ino_id ino), ucast (ino_version ino)) = None" "fw_index w (ucast (ino_id ino), ucast (ino_version ino)) = None"
      "handler_good ar env (ucast (ino_version ino)) base (fw_handlers w' ! lm_blob (ff_mirror f), fw_log w')"
      "fits (page_size (ff_mirror f)) n" "blob_size (ff_mirror f) = pw (page_size (ff_mirror f)) n" "length base = n * unat (page_size (ff_mirror f))"
| read_done: "file_session ar env base fh bytes w'"
    if "file_session ar env base fh bytes w" "blob_ll_read ar env fh sz off w = Some (Ret (Reply_Buf b), w')" "unat off + unat sz < 2 ^ 64"
| written: "file_session ar env base fh (memory_write (unat off) buf bytes) w'"
    if "file_session ar env base fh bytes w" "blob_ll_write ar env fh buf sz off w = Some (Ret (Reply_Write sz), w')"
      "unat off + unat sz < 2 ^ 64" "0 < sz" "length buf = unat sz"
| refused: "file_session ar env base fh (torn_write (unat off) buf (ff_mirror f) bytes) w'"
    if "file_session ar env base fh bytes w" "blob_ll_write ar env fh buf sz off w = Some (Ret (Reply_Err e), w')" "fw_open w fh = Some f"
      "unat off + unat sz < 2 ^ 64" "0 < sz" "length buf = unat sz"

lemma session_ok: "file_session ar env base fh bytes w \<Longrightarrow> file_ok ar env base bytes fh w"
proof (induction rule: file_session.induct)
  case (opened order h w ino w' f n)
  from open_file_ok [OF fuse_reach_inv [OF opened(1,2)] opened(4,5) local_file_new [OF opened(6)] _ opened(7-11)] show ?case by simp
next
  case (read_done bytes w sz off b w')
  then show ?case using file_read_right [OF read_done(4,3)] by simp
next
  case (written bytes w buf sz off w')
  then show ?case using file_write_right [OF written(6,3-5)] by simp
next
  case (refused bytes w buf sz off e w' f)
  then show ?case using file_write_right [OF refused(7,4-6)] by simp
qed

lemma local_mirror_new_size: "local_mirror_new ops ok file0 idx b v = (Ret lm, b') \<Longrightarrow> blob_size lm \<noteq> 0"
  by (auto simp: local_mirror_new_def Let_def split: prod.splits if_splits option.splits)

text \<open>The local file of a file in use is found under the name of the version, and it has the size of the blob.\<close>

lemma session_file:
  "file_session ar env base fh bytes w \<Longrightarrow>
   \<exists>f p N. fw_open w fh = Some f \<and> fuse_inv p N w \<and> fw_names w (local_name (ff_mirror f)) = Some (ff_file f) \<and>
     fw_index w (local_name (ff_mirror f)) = None \<and> length (fw_files w ! ff_file f) = unat (blob_size (ff_mirror f)) \<and>
     lm_version (ff_mirror f) = snd (local_name (ff_mirror f))"
proof (induction rule: file_session.induct)
  case (opened order h w ino w' f n)
  note inv = fuse_reach_inv [OF opened(1,2)]
  note e = open_effect [OF inv opened(4,5) local_file_new [OF opened(6)] _ opened(7), simplified]
  then obtain hs log where new: "local_mirror_new (fuse_ops ar env) True [] None (hd (order [0..<DEFAULT_POOL_SIZE]), hs, log) (ucast (ino_version ino)) =
      (Ret (attach w' f), lm_blob (attach w' f))" by auto
  have "lm_version (ff_mirror f) = ucast (ino_version ino)" "blob_size (ff_mirror f) \<noteq> 0"
    using local_mirror_newD(1) [OF new] local_mirror_new_size [OF new] by (simp_all add: attach_def Let_def)
  then show ?case using e open_inv [OF inv opened(4)] opened(5,7)
    by (auto simp: adjust_file_def word_gt_0 unat_gt_0 nth_append)
next
  case (read_done bytes w sz off b w')
  then show ?case using file_read_right [OF session_ok [OF read_done(1)] read_done(3)] fuse_step_inv [OF fuse_step.fread [OF read_done(2)]]
    by (fastforce simp: same_file_def mirror_same_def)
next
  case (written bytes w buf sz off w')
  then show ?case using file_write_right [OF session_ok [OF written(1)] written(3-5)] fuse_step_inv [OF fuse_step.fwrite [OF written(2)]]
    by (fastforce simp: same_file_def mirror_same_def)
next
  case (refused bytes w buf sz off e w' f)
  then show ?case using file_write_right [OF session_ok [OF refused(1)] refused(4-6)] fuse_step_inv [OF fuse_step.fwrite [OF refused(2)]]
    by (fastforce simp: same_file_def mirror_same_def)
qed


section \<open>A second \<open>open\<close> of the same version\<close>

text \<open>
  Two open files of one version share the local file, but each has its own \<open>chunk_map\<close>. A byte that was
  written through the first (\<open>fh0\<close>, it is valid there) and then read through the second is fetched from
  the blob into the shared file; from then on the first returns the old byte: the acknowledged write is lost.
\<close>

lemma valid_chunk_read:
  assumes "mirror_inv base bytes lm" "g < length base" "valid_byte (unat (page_size lm)) (chunk_map lm) g" "length base < 2 ^ 64"
    and "mapping lm' = m" "length m = length base" "lm' = lm\<lparr>mapping := m, lm_blob := b\<rparr>"
  shows "lm_read (fuse_ops ar env) 1 (of_nat g) lm' = Some (Ret (1, Some [m ! g]), lm')"
proof -
  let ?ps = "page_size lm" and ?P = "unat (page_size lm)"
  note inv = mirror_invD [OF assms(1) refl refl]
  define i where "i = g div ?P"
  have i: "i < length (chunk_map lm)" using assms(2) inv(5) by (simp add: i_def less_mult_imp_div_less)
  have ug: "unat (of_nat g :: u64) = g" using assms(2,4) by (intro unat_of_nat_small) simp
  have "Suc g \<le> length base" using assms(2) by simp
  then have ug1: "unat (of_nat g + 1 :: u64) = Suc g" using assms(2,4) inv(1) inv(5) ug by (subst unat_add_nowrap) (simp_all add: fits_def)
  have bs: "\<not> blob_size lm \<le> of_nat g" "\<not> blob_size lm < of_nat g + 1"
    using ug ug1 assms(2) inv(5,11) by (simp_all add: word_le_nat_alt word_less_nat_alt)
  have div: "of_nat g div ?ps = (of_nat i :: u64)" by (simp add: word_arith_nat_div ug i_def)
  have ui: "unat (of_nat i :: u64) = i" using fits_of_nat [OF inv(1)] i by simp
  have iP: "i * ?P \<le> g" "g < Suc i * ?P" using inv(10) by (simp_all add: i_def div_times_less_eq_dividend dividend_less_div_times)
  have up: "unat (pw ?ps i) = i * ?P" "unat (pw ?ps (Suc i)) = Suc i * ?P" using unat_pw [OF inv(1)] i by simp_all
  have lt: "pw ?ps i < of_nat g + 1" "\<not> pw ?ps (Suc i) < of_nat g + 1" using up ug1 iP by (simp_all add: word_less_nat_alt)
  have "g - i * ?P < unat (chunk_map lm ! i)"
    using assms(3) valid_byte_page [OF inv(10) iP, of "chunk_map lm"] iP(1) by simp
  moreover have "unat (of_nat g + 1 - pw ?ps i) = Suc g - i * ?P" using lt(1) up(1) ug1 by (subst unat_sub_nowrap) simp_all
  ultimately have "\<not> chunk_map lm ! i < of_nat g + 1 - pw ?ps i" using iP(1) by (simp add: word_less_nat_alt)
  then have c: "\<not> chunk_map lm ! i < min ?ps (of_nat g + 1 - pw ?ps i)" by simp
  have lm': "page_size lm' = ?ps" "chunk_map lm' = chunk_map lm" "blob_size lm' = blob_size lm" "mapping lm' = m" using assms(7) by simp_all
  note rounds = file_handler.pointed.read_chunks_round [where ar = ar and env = env, folded fuse_ops_def]
  have "read_chunks (fuse_ops ar env) (of_nat g + 1) (of_nat i) lm' = Some (Ret True, lm')"
    using rounds(2) [of i lm' "of_nat g + 1"] rounds(1) [of "Suc i" lm' "of_nat g + 1"] ui i c lt
      fits_of_nat [OF inv(1), of "Suc i"] by (simp add: lm')
  then show ?thesis using bs assms(2,6) ug div by (simp add: lm_read_def lm' take_Suc hd_drop_conv_nth)
qed

lemma lm_read_data: "lm_read ops sz off lm = Some (Ret (k, Some b), lm') \<Longrightarrow> b = take (unat k) (drop (unat off) (mapping lm'))"
  by (auto simp: lm_read_def Let_def split: if_splits option.splits prod.splits res.splits bool.splits)

lemma attach_shared:
  assumes "fw_open w fh = Some f" "fh' \<noteq> fh" "k = ff_file f" "k < length (fw_files w)" "length (mapping lm) = unat (blob_size (ff_mirror f))"
  shows "fw_open (detach fh' k lm w) fh = Some f"
    "attach (detach fh' k lm w) f = (attach w f)\<lparr>mapping := mapping lm, lm_blob := (lm_blob (ff_mirror f), snd (lm_blob lm))\<rparr>"
  using assms by (simp_all add: attach_def detach_def Let_def memory_write_def)

lemma shared_read_undoes:
  assumes "file_ok ar env base bytes fh0 w" "file_ok ar env base base fh1 w" "fh1 \<noteq> fh0"
    and "fw_open w fh0 = Some f0" "fw_open w fh1 = Some f1" "ff_file f1 = ff_file f0" "blob_size (ff_mirror f1) = blob_size (ff_mirror f0)"
    and "g < length base" "bytes ! g \<noteq> base ! g"
    and "blob_ll_read ar env fh1 1 (of_nat g) w = Some (Ret (Reply_Buf b), w1)" "b \<noteq> []"
  shows "\<exists>w2. blob_ll_read ar env fh0 1 (of_nat g) w1 = Some (Ret (Reply_Buf [base ! g]), w2)"
proof -
  let ?a0 = "attach w f0" and ?a1 = "attach w f1"
  have i0: "mirror_inv base bytes ?a0" and k: "ff_file f0 < length (fw_files w)" using assms(1,4) by (simp_all add: file_ok_def)
  have i1: "mirror_inv base base ?a1" "points_to (handler_good ar env (lm_version (ff_mirror f1)) base) (lm_blob ?a1)" "lm_version ?a1 = lm_version (ff_mirror f1)"
    using assms(2,5) by (simp_all add: file_ok_def) (simp add: attach_def Let_def)
  note inv0 = mirror_invD [OF i0 refl refl]
  have lb: "length base < 2 ^ 64" using inv0(5,11) unat_u64_bound [of "blob_size ?a0"] by simp
  have ug: "unat (of_nat g :: u64) = g" using assms(8) lb by (intro unat_of_nat_small) simp
  have val: "valid_byte (unat (page_size ?a0)) (chunk_map ?a0) g" using inv0(5,9) assms(8,9) by metis
  obtain n buf lm where rd: "lm_read (fuse_ops ar env) 1 (of_nat g) ?a1 = Some (Ret (n, Some buf), lm)" "w1 = detach fh1 (ff_file f1) lm w"
    using assms(5,10,11) by (auto simp: blob_ll_read_def split: option.splits prod.splits res.splits)
  have fit: "unat (of_nat g :: u64) + unat (1 :: u64) < 2 ^ 64" using ug assms(8) inv0(1,5) by (simp add: fits_def)
  have ok: "mirror_inv base base lm" "mirror_same ?a1 lm" "unat n = min 1 (length base - g)" "buf = take 1 (drop g base)"
    using file_handler.pointed.lm_read_right [OF i1 fit, folded fuse_ops_def] rd(1) ug by auto
  have len: "length (mapping lm) = length base" using mirror_invD(4,5) [OF ok(1) refl refl] by simp
  have "mapping lm ! g = base ! g"
    using lm_read_data [OF rd(1)] ok(3,4) assms(8) ug len by (simp add: take_Suc_conv_app_nth hd_drop_conv_nth take_Suc)
  moreover have "length (mapping lm) = unat (blob_size (ff_mirror f0))"
    using len inv0(5,11) by (simp add: attach_def Let_def)
  note at = attach_shared [OF assms(4,3) assms(6) _ this] 
  have "lm_read (fuse_ops ar env) 1 (of_nat g) (attach w1 f0) = Some (Ret (1, Some [mapping lm ! g]), attach w1 f0)"
    using at k assms(6) by (intro valid_chunk_read [OF i0 assms(8) val lb _ len]) (simp_all add: rd(2))
  ultimately show ?thesis using at(1) k assms(6) by (simp add: blob_ll_read_def rd(2))
qed

text \<open>
  C40: A second \<open>open\<close> of the same version loses acknowledged writes. A file is opened and written, the write is
  acknowledged; then the same version is opened again, and a byte of the written range is read through the new
  handle, with success. From then on a read through the first handle, which was used for the write, returns
  the byte of the version as it was before the write.
\<close>

theorem second_open_loses_write:
  assumes "file_session ar env base fh0 bytes w0" "blob_ll_write ar env fh0 buf sz off w0 = Some (Ret (Reply_Write sz), w)"
    and "unat off + unat sz < 2 ^ 64" "0 < sz" "length buf = unat sz"
    and "fw_open w fh0 = Some f0" "local_name (ff_mirror f0) = (ucast (ino_id ino), ucast (ino_version ino))"
    and "fw_open w fh1 = None" "blob_ll_open ar env True fh1 ino w = (Ret (Reply_Open fh1), w')" "fw_open w' fh1 = Some f1"
    and "page_size (ff_mirror f1) = page_size (ff_mirror f0)" "blob_size (ff_mirror f1) = blob_size (ff_mirror f0)"
    and "handler_good ar env (ucast (ino_version ino)) base (fw_handlers w' ! lm_blob (ff_mirror f1), fw_log w')"
    and "unat off \<le> g" "g < unat off + unat sz" "g < length base" "buf ! (g - unat off) \<noteq> base ! g"
    and "blob_ll_read ar env fh1 1 (of_nat g) w' = Some (Ret (Reply_Buf b), w1)" "b \<noteq> []"
  shows "\<exists>w2. blob_ll_read ar env fh0 1 (of_nat g) w1 = Some (Ret (Reply_Buf [base ! g]), w2)"
proof -
  let ?bytes = "memory_write (unat off) buf bytes" and ?n = "(ucast (ino_id ino), ucast (ino_version ino)) :: u32 \<times> u32"
  have ses: "file_session ar env base fh0 ?bytes w" by (rule file_session.written [OF assms(1-5)])
  note ok = session_ok [OF ses]
  obtain p N where inv: "fuse_inv p N w" and names: "fw_names w ?n = Some (ff_file f0)" "fw_index w ?n = None"
    and len: "length (fw_files w ! ff_file f0) = unat (blob_size (ff_mirror f0))" and ver: "lm_version (ff_mirror f0) = ucast (ino_version ino)"
    using session_file [OF ses] assms(6,7) by auto
  let ?a0 = "attach w f0" 
  have i0: "mirror_inv base ?bytes ?a0" and k: "ff_file f0 < length (fw_files w)" using ok assms(6) by (simp_all add: file_ok_def)
  note inv0 = mirror_invD [OF i0 refl refl]
  have lf: "local_file ?n w = (ff_file f0, w)" using names(1) by (simp add: local_file_def)
  obtain hs where e: "ff_file f1 = ff_file f0" "fw_open w' = (fw_open w)(fh1 \<mapsto> f1)"
    "fw_files w' = (fw_files w)[ff_file f0 := adjust_file (blob_size (ff_mirror f1)) (fw_files w ! ff_file f0)]"
    using open_effect [OF inv assms(9,10) lf k names(2)] by blast
  have files: "fw_files w' = fw_files w" unfolding e(3) using len assms(12) by (simp add: adjust_file_def)
  have at: "attach w' f0 = ?a0\<lparr>lm_blob := lm_blob (attach w' f0)\<rparr>" by (simp add: attach_def Let_def files)
  have fits: "fits (page_size (ff_mirror f1)) (length (chunk_map ?a0))" "blob_size (ff_mirror f1) = pw (page_size (ff_mirror f1)) (length (chunk_map ?a0))"
    "length base = length (chunk_map ?a0) * unat (page_size (ff_mirror f1))"
    using inv0(1,2,5) assms(11,12) by (simp_all add: attach_def Let_def)
  have ok1: "file_ok ar env base base fh1 w'" by (rule open_file_ok [OF inv assms(9,10) lf k names(2) assms(13) fits])
  have ne: "fh1 \<noteq> fh0" using assms(6,8) by auto
  have ptr: "lm_blob (ff_mirror f0) = p" "lm_blob (ff_mirror f1) = p"
    using fuse_invD(5) [OF inv assms(6)] fuse_invD(5) [OF open_inv [OF inv assms(9)] assms(10)] by simp_all
  have "mirror_inv base ?bytes (attach w' f0)" using i0 by (subst at) (simp add: mirror_inv_def Let_def)
  moreover have "points_to (handler_good ar env (lm_version (ff_mirror f0)) base) (lm_blob (attach w' f0))"
    using assms(13) ver ptr fuse_invD(3,4) [OF open_inv [OF inv assms(9)]] by (simp add: points_to_def attach_def Let_def)
  ultimately have ok0: "file_ok ar env base ?bytes fh0 w'" using assms(6) e(2) ne k files by (simp add: file_ok_def)
  have "length bytes = length base"
    using file_ok_open [OF session_ok [OF assms(1)]] by (auto simp: mirror_inv_def Let_def)
  then have "unat off + length buf \<le> length bytes"
    using inv0(5,6) assms(4,5) unat_gt_0 [of sz] by (auto simp: memory_write_def word_gt_0 min_def split: if_splits)
  from nth_memory_write [OF this, of g] have "?bytes ! g \<noteq> base ! g"
    using assms(5,14-17) inv0(5,6) by (simp add: length_memory_write [OF \<open>unat off + length buf \<le> length bytes\<close>])
  from shared_read_undoes [OF ok0 ok1 ne _ assms(10) e(1) assms(12,16) this assms(18,19)] show ?thesis using assms(6) e(2) ne by simp
qed

section \<open>The instance of \<open>Snapshots\<close> as an open file\<close>

text \<open>The version manager answers with the root of version 1, the providers with the pages.\<close>

definition file_env :: env where
  "file_env = (rd_env ''c'')\<lparr>en_answer := (\<lambda>log c.
     if rc_buffers c = [] then (rpc_ok, [buffer_wrapper plain_archive (ser_root plain_archive) one_root]) else rd_answer ''c'' c)\<rparr>"

lemma file_env_answers: "answers_one file_env"
  by (simp add: answers_one_def file_env_def)

lemma file_env_simps [simp]: "en_dht file_env log = ex_store" "rc_buffers c \<noteq> [] \<Longrightarrow> en_answer file_env log c = en_answer (rd_env ''c'') log c"
  by (simp_all add: file_env_def)

lemma file_env_good: "only_root oh \<Longrightarrow> handler_good plain_archive file_env 1 mirror_base (oh, log)"
proof (rule snapshot_handler_good [OF plain_archive_ok ex_history])
  show "\<forall>log. store_has plain_archive 8 0 ex_base Map.empty [ex_write] (Suc 0) (en_dht file_env log)" using ex_has by simp
  show "rt_node one_root = root_of 8 1 ex_base [ex_write] (Suc 0)" "rt_page_size one_root = 8"
    using rd_root by (simp_all add: one_root_def)
  have "honest_page plain_archive file_env k d = honest_page plain_archive (rd_env ''c'') k d" for k d
    unfolding honest_page_def by (simp cong: conj_cong)
  then show "\<forall>p < 2. \<exists>x. content 1 Map.empty [ex_write] (Suc 0) p = Some x \<and> honest_page plain_archive file_env (fst x) (rd_page p)"
    using rd_content rd_honest by (simp del: content.simps)
  show "only_root oh \<Longrightarrow> oh \<in> {oh. only_root oh}" by simp
  show "\<forall>oh \<in> {oh. only_root oh}. \<forall>log. case query_root_of plain_archive file_env 1 oh log of
      (ok, root', oh', log') \<Rightarrow> oh' \<in> {oh. only_root oh} \<and> (ok \<longrightarrow> root' = one_root)"
  proof (intro ballI allI)
    fix oh log assume "oh \<in> {oh. only_root oh}"
    with get_root_one [OF file_env_answers, of oh 1 "root_t_make 0 0 0 0 0" log] show "case query_root_of plain_archive file_env 1 oh log of
      (ok, root', oh', log') \<Rightarrow> oh' \<in> {oh. only_root oh} \<and> (ok \<longrightarrow> root' = one_root)" by (auto simp: query_root_of_def)
  qed
  show "partial_checked file_env" using rd_partial [of "''c''"] by (simp add: partial_checked_def)
  show "\<forall>p. length (rd_page p) = unat (8 :: u64)" by (simp add: rd_length)
  show "(2 :: nat) \<le> 2 ^ wr_level ([ex_write] ! 0)" by (simp add: ex_write_def)
qed (simp_all add: mirror_base_def)

lemma replicate_two: "replicate 2 x = [x, x]"
  by (simp add: numeral_2_eq_2)

lemma open_ex:
  assumes "fuse_inv p n w" "\<forall>oh \<in> set (fw_handlers w). only_root oh" "fw_open w fh = None"
  shows "\<exists>w' f. blob_ll_open plain_archive file_env True fh (build_ino 1 1) w = (Ret (Reply_Open fh), w') \<and>
    fw_open w' = (fw_open w)(fh \<mapsto> f) \<and> page_size (ff_mirror f) = 8 \<and> blob_size (ff_mirror f) = 16 \<and>
    (\<forall>oh \<in> set (fw_handlers w'). only_root oh) \<and> fuse_inv p n w' \<and>
    handler_good plain_archive file_env 1 mirror_base (fw_handlers w' ! lm_blob (ff_mirror f), fw_log w')"
proof -
  from open_one [OF file_env_answers assms(1,2), of "build_ino 1 1" fh] obtain w' f where
    w: "blob_ll_open plain_archive file_env True fh (build_ino 1 1) w = (Ret (Reply_Open fh), w')"
      "\<forall>oh \<in> set (fw_handlers w'). only_root oh" "fw_open w' = (fw_open w)(fh \<mapsto> f)"
      "page_size (ff_mirror f) = 8" "blob_size (ff_mirror f) = 16" "lm_blob (ff_mirror f) = p" by auto
  note inv = open_inv [OF assms(1) w(1)]
  have "lm_blob (ff_mirror f) < length (fw_handlers w')" using fuse_invD(3,4) [OF inv] w(6) by simp
  then have "only_root (fw_handlers w' ! lm_blob (ff_mirror f))" using w(2) nth_mem by blast
  from file_env_good [OF this] w inv show ?thesis by blast
qed

lemma start_ex:
  "fuse_reach plain_archive file_env (\<lambda>l. l) ex_handler (fuse_init (\<lambda>l. l) ex_handler)"
  "\<forall>oh \<in> set (fw_handlers (fuse_init (\<lambda>l. l) ex_handler)). only_root oh"
  by (simp_all add: fuse_reach_def fuse_init_def only_root_def ex_handler_def object_handler_new_def cache_init_def)

lemma file_session_ex:
  "\<exists>w f. blob_ll_open plain_archive file_env True 0 (build_ino 1 1) (fuse_init (\<lambda>l. l) ex_handler) = (Ret (Reply_Open 0), w) \<and>
     file_session plain_archive file_env mirror_base 0 mirror_base w \<and> fw_open w = [0 \<mapsto> f] \<and> page_size (ff_mirror f) = 8 \<and>
     blob_size (ff_mirror f) = 16 \<and> chunk_map (ff_mirror f) = [0, 0] \<and> written_map (ff_mirror f) = [False, False] \<and>
     (\<forall>oh \<in> set (fw_handlers w). only_root oh) \<and> local_name (ff_mirror f) = (1, 1)"
proof -
  let ?w0 = "fuse_init (\<lambda>l. l) ex_handler"
  note inv = fuse_reach_inv [OF refl start_ex(1)]
  from open_ex [OF inv start_ex(2), of 0] obtain w f where
    w: "blob_ll_open plain_archive file_env True 0 (build_ino 1 1) ?w0 = (Ret (Reply_Open 0), w)" "fw_open w = (fw_open ?w0)(0 \<mapsto> f)"
      "page_size (ff_mirror f) = 8" "blob_size (ff_mirror f) = 16" "\<forall>oh \<in> set (fw_handlers w). only_root oh"
      "handler_good plain_archive file_env 1 mirror_base (fw_handlers w ! lm_blob (ff_mirror f), fw_log w)" by (auto simp: fuse_init_def)
  have g: "handler_good plain_archive file_env (ucast (ino_version (build_ino 1 1))) mirror_base (fw_handlers w ! lm_blob (ff_mirror f), fw_log w)"
    using w(6) by simp
  have ses: "file_session plain_archive file_env mirror_base 0 mirror_base w"
    by (rule file_session.opened [OF refl start_ex(1) _ w(1) _ _ _ g, where n = 2])
      (use w(2-4) in \<open>simp_all add: fuse_init_def fits_def pw_def mirror_base_def rd_page_def upt_rec\<close>)
  have f: "fw_open w 0 = Some f" using w(2) by simp
  have n: "fw_names ?w0 name = None" "fw_index ?w0 name = None" for name by (simp_all add: fuse_init_def)
  from open_effect [OF inv w(1) f local_file_new [OF n(1)] _ n(2)] obtain hs log where
    e: "local_mirror_new (fuse_ops plain_archive file_env) True [] None (hd [0..<DEFAULT_POOL_SIZE], hs, log) 1 = (Ret (attach w f), lm_blob (attach w f))"
      "local_name (ff_mirror f) = (1, 1)" by auto
  have "chunk_map (ff_mirror f) = [0, 0]" "written_map (ff_mirror f) = [False, False]"
    using local_mirror_newD(5) [OF e(1) refl] w(3,4) by (simp_all add: attach_def Let_def replicate_two)
  then show ?thesis using w ses e(2) by (auto simp: fuse_init_def)
qed


text \<open>The first page is read from its provider.\<close>

lemma first_page_ex:
  assumes "only_root oh" "length mem = 8"
  shows "\<exists>oh' log'. oh_read plain_archive file_env 0 8 mem 1 oh log = (Ret True, rd_page 0, oh', log')"
proof -
  obtain oh1 log1 where q: "query_root_of plain_archive file_env 1 oh log = (True, one_root, oh1, log1)"
    using get_root_one [OF file_env_answers assms(1), of 1 "root_t_make 0 0 0 0 0" log] by (auto simp: query_root_of_def)
  have root: "rt_node one_root = root_of 8 1 ex_base [ex_write] (Suc 0)" "rt_page_size one_root = 8"
    using rd_root by (simp_all add: one_root_def)
  have has: "store_has plain_archive 8 0 ex_base Map.empty [ex_write] (Suc 0) (en_dht file_env log1)" using ex_has by simp
  have g: "read_guard one_root 1 0 8 = None" by (simp add: read_guard_def one_root_def root_t_make_def)
  have rng: "first_page 8 0 = 0" "stop_page 8 0 8 = 1" "read_fits 8 0 8"
    by (simp_all add: read_nbr_vadv_def read_new_offset_def stop_page_def first_page_def read_fits_def)
  have part: "partial_checked file_env" using rd_partial [of "''c''"] by (simp add: partial_checked_def)
  have "honest_page plain_archive file_env k d = honest_page plain_archive (rd_env ''c'') k d"
    "good_provider plain_archive file_env k d adv = good_provider plain_archive (rd_env ''c'') k d adv" for k d adv
    unfolding honest_page_def good_provider_def by (simp_all cong: conj_cong)
  then have "page_available plain_archive file_env 8 0 8 (content 1 Map.empty [ex_write] (Suc 0) 0) 0 (rd_page 0)"
    using rd_good [of 0 "ex_provs ! 0" "''c''"] rd_content [of 0] rd_honest [of 0 "''c''"]
    by (auto simp: page_available_def page_answers_def named_replicas_def some_good_def page_result_def provider_desc_empty_def
        ex_provs_def simp del: content.simps)
  then have av: "\<forall>p. first_page 8 0 \<le> p \<and> p < stop_page 8 0 8 \<longrightarrow>
      page_available plain_archive file_env 8 0 8 (content 1 Map.empty [ex_write] (Suc 0) p) p (rd_page p)"
    by (simp add: rng del: content.simps)
  from snapshot_slice [OF plain_archive_ok ex_history _ q root has g rng(3) _ _ part av, of mem] show ?thesis
    using assms(2) rd_length by (simp add: rng rd_page_def) blast
qed

lemma read_ex:
  assumes "fw_open w fh = Some f" "page_size (ff_mirror f) = 8" "blob_size (ff_mirror f) = 16" "chunk_map (ff_mirror f) = [0, 0]"
    and "lm_version (ff_mirror f) = 1" "length (mapping (attach w f)) = 16" "only_root (fw_handlers w ! lm_blob (ff_mirror f))"
  shows "\<exists>b w'. blob_ll_read plain_archive file_env fh 1 0 w = Some (Ret (Reply_Buf b), w') \<and> b \<noteq> []"
proof -
  let ?ops = "fuse_ops plain_archive file_env" and ?lm = "attach w f"
  have lm: "page_size ?lm = 8" "blob_size ?lm = 16" "chunk_map ?lm = [0, 0]" "lm_version ?lm = 1"
    "lm_blob ?lm = (lm_blob (ff_mirror f), fw_handlers w, fw_log w)" using assms(2-5) by (simp_all add: attach_def Let_def)
  from first_page_ex [OF assms(7), of "take 8 (mapping ?lm)" "fw_log w"] assms(6) obtain oh log where
    rd: "oh_read plain_archive file_env 0 8 (take 8 (mapping ?lm)) 1 (fw_handlers w ! lm_blob (ff_mirror f)) (fw_log w) = (Ret True, rd_page 0, oh, log)" by auto
  let ?m = "memory_write 0 (rd_page 0) (mapping ?lm)"
  let ?lm1 = "?lm\<lparr>mapping := ?m, lm_blob := (lm_blob (ff_mirror f), (fw_handlers w)[lm_blob (ff_mirror f) := oh], log)\<rparr>"
  have fe: "fetch ?ops 0 8 ?lm = (Ret True, ?lm1)"
    using assms(6) rd by (simp add: fetch_def lm fuse_ops_def deref_ops_def handler_ops_def)
  have ex: "extend_read 8 1 [0, 0] 0 0 = Some (Ret 8)" by (simp add: extend_read.simps)
  have mk: "mark_chunks 8 8 0 [0, 0] = Some (Ret (1, [8, 0]))" by (simp add: mark_chunks.simps)
  have "read_chunks ?ops 1 0 ?lm = read_chunks ?ops 1 1 (?lm1\<lparr>chunk_map := [8, 0]\<rparr>)"
    by (subst read_chunks.simps) (simp add: lm ex fe mk)
  also have "\<dots> = Some (Ret True, ?lm1\<lparr>chunk_map := [8, 0]\<rparr>)"
    by (subst read_chunks.simps) (simp add: lm)
  finally have "lm_read ?ops 1 0 ?lm = Some (Ret (1, Some (take 1 ?m)), ?lm1\<lparr>chunk_map := [8, 0]\<rparr>)"
    by (simp add: lm_read_def lm)
  moreover have "?m \<noteq> []" by (simp add: memory_write_def rd_page_def)
  ultimately show ?thesis using assms(1) by (simp add: blob_ll_read_def)
qed

text \<open>
  A byte is written and acknowledged, the same version is opened a second time and read there: after that the
  first file has the old byte again.
\<close>

theorem second_open_loses_write_witness:
  "\<exists>w0 w w' b w1 w2. blob_ll_open plain_archive file_env True 0 (build_ino 1 1) (fuse_init (\<lambda>l. l) ex_handler) = (Ret (Reply_Open 0), w0) \<and>
     blob_ll_write plain_archive file_env 0 [99] 1 0 w0 = Some (Ret (Reply_Write 1), w) \<and>
     blob_ll_open plain_archive file_env True 1 (build_ino 1 1) w = (Ret (Reply_Open 1), w') \<and>
     blob_ll_read plain_archive file_env 1 1 0 w' = Some (Ret (Reply_Buf b), w1) \<and>
     blob_ll_read plain_archive file_env 0 1 0 w1 = Some (Ret (Reply_Buf [0]), w2)"
proof -
  let ?ops = "fuse_ops plain_archive file_env"
  obtain w0 f where w0: "blob_ll_open plain_archive file_env True 0 (build_ino 1 1) (fuse_init (\<lambda>l. l) ex_handler) = (Ret (Reply_Open 0), w0)"
    "file_session plain_archive file_env mirror_base 0 mirror_base w0" "fw_open w0 = [0 \<mapsto> f]" "page_size (ff_mirror f) = 8"
    "blob_size (ff_mirror f) = 16" "chunk_map (ff_mirror f) = [0, 0]" "written_map (ff_mirror f) = [False, False]"
    "\<forall>oh \<in> set (fw_handlers w0). only_root oh" "local_name (ff_mirror f) = (1, 1)" using file_session_ex by blast
  obtain p N where inv: "fuse_inv p N w0" using session_file [OF w0(2)] by blast
  have base: "length mirror_base = 16" "mirror_base ! 0 = 0" by (simp_all add: mirror_base_def rd_page_def upt_rec)
  have len: "length (mapping (attach w0 f)) = 16"
    using session_ok [OF w0(2)] w0(3) mirror_invD(4,5) [OF _ refl refl, of mirror_base mirror_base "attach w0 f"] base(1) by (simp add: file_ok_def)
  let ?lm = "(attach w0 f)\<lparr>mapping := memory_write 0 [99] (mapping (attach w0 f)), chunk_map := [1, 0], written_map := [True, False]\<rparr>"
  define w where "w = detach 0 (ff_file f) ?lm w0"
  have "lm_write ?ops 1 0 [99] (attach w0 f) = Some (Ret 1, ?lm)"
    using w0(4-7) len by (simp add: lm_write_def attach_def Let_def mark_written.simps)
  then have wr: "blob_ll_write plain_archive file_env 0 [99] 1 0 w0 = Some (Ret (Reply_Write 1), w)"
    using w0(3) by (simp add: blob_ll_write_def w_def)
  let ?f0 = "\<lparr>ff_mirror = mirror_fields ?lm, ff_file = ff_file f\<rparr>"
  have w: "fw_open w = [0 \<mapsto> ?f0]" "fw_handlers w = fw_handlers w0"
    using w0(3) by (simp_all add: w_def detach_def attach_def Let_def)
  have ses: "file_session plain_archive file_env mirror_base 0 (memory_write (unat (0 :: u64)) [99] mirror_base) w"
    by (rule file_session.written [OF w0(2) wr]) simp_all
  note sf = session_file [OF ses]
  have f0: "local_name (ff_mirror ?f0) = (1, 1)" "page_size (ff_mirror ?f0) = 8" "blob_size (ff_mirror ?f0) = 16"
    using w0(4,5,9) by (simp_all add: mirror_fields_def attach_def Let_def)
  have names: "fw_names w (1, 1) = Some (ff_file f)" "fw_index w (1, 1) = None" using sf w(1) f0(1) by auto
  have invw: "fuse_inv p N w" by (rule fuse_step_inv [OF fuse_step.fwrite [OF wr] inv])
  from open_ex [OF invw, of 1] w w0(8) obtain w' f1 where
    w': "blob_ll_open plain_archive file_env True 1 (build_ino 1 1) w = (Ret (Reply_Open 1), w')" "fw_open w' = (fw_open w)(1 \<mapsto> f1)"
      "page_size (ff_mirror f1) = 8" "blob_size (ff_mirror f1) = 16" "\<forall>oh \<in> set (fw_handlers w'). only_root oh" "fuse_inv p N w'"
      "handler_good plain_archive file_env 1 mirror_base (fw_handlers w' ! lm_blob (ff_mirror f1), fw_log w')" by auto
  have f1: "fw_open w' 1 = Some f1" "fw_open w' 0 = Some ?f0" using w'(2) w(1) by simp_all
  have k: "ff_file f < length (fw_files w)" using session_ok [OF ses] w(1) by (simp add: file_ok_def)
  have lf: "local_file (ucast (ino_id (build_ino 1 1)), ucast (ino_version (build_ino 1 1))) w = (ff_file f, w)"
    using names(1) by (simp add: local_file_def)
  from open_effect [OF invw w'(1) f1(1) lf k] names(2) obtain hs log where
    e: "local_mirror_new ?ops True (fw_files w ! ff_file f) None (p, hs, log) 1 = (Ret (attach w' f1), lm_blob (attach w' f1))" by auto
  note d = local_mirror_newD [OF e]
  have a1: "chunk_map (ff_mirror f1) = [0, 0]" "lm_version (ff_mirror f1) = 1"
    using d(1,5) w'(3,4) by (simp_all add: attach_def Let_def replicate_two)
  have l1: "length (mapping (attach w' f1)) = 16"
    using d(2) length_adjust_file [of "blob_size (attach w' f1)" "fw_files w ! ff_file f"] w'(4) by (simp add: attach_def Let_def min_absorb2)
  have "lm_blob (ff_mirror f1) < length (fw_handlers w')" using fuse_invD(3-5) [OF w'(6)] f1(1) by simp
  then have "only_root (fw_handlers w' ! lm_blob (ff_mirror f1))" using w'(5) nth_mem by blast
  from read_ex [OF f1(1) w'(3,4) a1 l1 this] obtain b w1 where
    rd: "blob_ll_read plain_archive file_env 1 1 0 w' = Some (Ret (Reply_Buf b), w1)" "b \<noteq> []" by blast
  have g: "handler_good plain_archive file_env (ucast (ino_version (build_ino 1 1))) mirror_base (fw_handlers w' ! lm_blob (ff_mirror f1), fw_log w')"
    using w'(7) by simp
  have "\<exists>w2. blob_ll_read plain_archive file_env 0 1 (of_nat 0) w1 = Some (Ret (Reply_Buf [mirror_base ! 0]), w2)"
    by (rule second_open_loses_write [OF w0(2) wr _ _ _ _ _ _ w'(1) f1(1) _ _ g, of ?f0 0 b])
      (use w(1) f0 w'(3,4) base rd in \<open>simp_all add: mirror_fields_def\<close>)
  with w0(1) wr w'(1) rd(1) base(2) show ?thesis by auto
qed

end
