(* ===== verification/Spec2Isabelle.thy ===== *)
theory Spec2Isabelle
  imports Buffer_Object Cluster_Version Binding_Reads Startup Bamboo_Dht Provider_Adv Rpc_Timer C_Handles Fuse_Files
begin

text \<open>
  \<^bold>\<open>BlobSeer\<close>

  BlobSeer stores huge binary objects (blobs) in pages on many providers, keeps every version of a
  blob readable, and lets any number of clients read, write and append concurrently. This development
  models the code under \<open>src/\<close> and proves what makes it correct.

  \<^bold>\<open>The parts and how they interact.\<close> A client (\<open>client/object_handler.cpp\<close>) that writes asks the
  provider manager (\<open>pmanager/\<close>) for providers, sends them the pages (\<open>provider/\<close>), gets a ticket,
  which is the number of the new version, from the version manager (\<open>vmanager/\<close>), stores the nodes of
  a new segment tree in a DHT (\<open>client/range_query.cpp\<close> over \<open>common/simple_dht.hpp\<close>), and has the
  version published. The new tree shares all nodes outside the written range with older trees, also
  with those whose writers are still at work. Versions become visible in the order of their tickets.
  A client that reads gets the root of a version, walks its tree and fetches the pages. All messages
  go through the RPC layer (\<open>rpc/\<close>). Programs use the client through a C and Fortran interface (\<open>lib/\<close>), through the
  bindings for Java, Ruby and Python (\<open>bindings/\<close>), or as a file system (\<open>bindings/blob-fuse/\<close>), which mirrors the
  versions of blobs in local files.

  \<^bold>\<open>Theories.\<close> Each component has its record, its operations in the order of the source, its invariant
  and its lemmas in a theory of its own.

  \<^item> \<open>Prelude\<close>: machine types, the outcome of a server handler (it answers, throws, is undefined or
    never returns), shared lemmas and the collections \<open>blob_defs\<close> and \<open>word_nat\<close>.
  \<^item> \<open>Buffer_Wrapper\<close> (\<open>common/buffer_wrapper.hpp\<close>), \<open>Structures\<close> (\<open>common/structures.hpp\<close>),
    \<open>Rpc_Meta\<close> (\<open>rpc/rpc_meta.hpp\<close> and the RPC numbers): data and serialisation. The archives of boost
    are a parameter, the record \<open>archive\<close>, with the law \<open>archive_ok\<close> that what was written is read
    back; \<open>plain_archive\<close> is an instance. \<open>Buffer_Object\<close> has the rest of the class of buffers: ownership,
    equality and the hash value, with the checksum of boost as a parameter. Elsewhere a buffer is its bytes.
  \<^item> \<open>Vmanagement\<close> (\<open>vmanager/\<close>): the six handlers. Published roots never change; pending tickets are
    consecutive; a publication publishes exactly the longest finished prefix; appends do not overlap; which
    ticket requests return. \<open>vm_reach\<close> is the relation of reachable states.
  \<^item> \<open>Dyadic\<close>, \<open>Range_Query\<close>, \<open>Range_Read\<close>, \<open>Range_Siblings\<close>, \<open>Range_Write\<close>, \<open>Snapshots\<close>
    (\<open>client/range_query.cpp\<close>, \<open>client/replica_policy.hpp\<close>): the arithmetic of tree nodes, the code, what a
    stored tree means (\<open>represents\<close>), that a read finds it, what a write stores, and that each version
    is the snapshot \<open>content\<close> of the writes up to it, for every interleaving of the writers.
  \<^item> \<open>Blob_History\<close>: the replies of the version manager are those the writers rely on.
  \<^item> \<open>Adv_Manager\<close> (\<open>pmanager/\<close>): the table of providers, the choice of replicas, the watchdog. The locales
    \<open>entry_index\<close> and \<open>time_index\<close> are the contracts of its ordered indices.
  \<^item> \<open>Cache_MT\<close> (\<open>common/cache_mt.hpp\<close>): the cache over any eviction policy that meets the locale
    \<open>cache_policy\<close>, which both policies of the code do.
  \<^item> \<open>Page_Manager\<close>, \<open>Null_Bw_Map\<close>, \<open>Bdb_Bw_Map\<close>, \<open>Pmgr_Listener\<close> (\<open>provider/\<close>): the page server
    over any store that meets the locale \<open>persistency\<close>, the memory-backed and the database-backed
    store (its writer thread takes a page from the queue in one step and stores it in another, \<open>writer_point\<close>;
    \<open>pending\<close> are the pages on their way to the database), and the listener that reports to the provider manager (locale \<open>space_account\<close>). \<open>Provider_Adv\<close>
    (\<open>provider/provider_adv.hpp\<close>) has a class of reports that no other file uses.
  \<^item> \<open>Simple_Dht\<close> (\<open>common/simple_dht.hpp\<close>, \<open>common/cached_dht.hpp\<close>): the queues, callbacks, replicas and
    hash function of the DHT client. \<open>Dht_Nodes\<close> (\<open>provider/sdht.cpp\<close>): the nodes of the DHT, and that what
    a client puts into it is what any client gets. \<open>Bamboo_Dht\<close> (\<open>common/bamboo_dht.cpp\<close>, \<open>common/async_dht.hpp\<close>): an older
    DHT client that the build does not use: when its requests return, and that each is called back once.
  \<^item> \<open>Rpc_Wire\<close>, \<open>Rpc_Client\<close> (\<open>rpc/\<close>, \<open>common/cached_resolver.hpp\<close>): both ends of a connection on the
    level of bytes with all error branches, the task queue of a server, and the scheduling of calls, in which callbacks
    may dispatch further calls (\<open>by_callbacks\<close>) and sockets may be found closed.
    \<open>Rpc_Timer\<close> (\<open>rpc/rpc_timer.hpp\<close>): the deadlines of sockets and the watchdog that closes them.
  \<^item> \<open>Object_Handler\<close> (\<open>client/object_handler.cpp\<close>): all operations of the client library.
    Its log lists the calls with their answers and the puts into the DHT with their error codes (\<open>oh_event\<close>).
    \<open>Object_Write\<close>: the order of the steps of a write. \<open>Page_Range\<close>, \<open>Object_Read\<close>, \<open>Read_Live\<close>:
    a read returns the right bytes; when it succeeds; what happens to a page that is read in part.
    \<open>Snapshot_Read\<close>: reads on the tree of a version, and that partial reads have no failover. The property at the end of this theory puts
    these and \<open>Snapshots\<close> together, with the answers of the providers as assumptions.
  \<^item> \<open>Cluster_Read\<close>, \<open>Cluster_Write\<close>, \<open>Cluster_Version\<close>: the client with the servers it calls. The first proves
    these assumptions for the providers of \<open>Page_Manager\<close>, the second that the bytes a client wrote are those that
    clients read until they are overwritten, the third that a read of a published version gets its snapshot
    from the version manager of \<open>Vmanagement\<close> and the providers.
  \<^item> \<open>C_Interface\<close>, \<open>C_Handles\<close> (\<open>lib/\<close>): the functions for C and Fortran programs, and that each handle
    leads to an object handler of its own, on which a write has its whole effect.
  \<^item> \<open>Java_Binding\<close>, \<open>Ruby_Binding\<close>, \<open>Python_Binding\<close>, \<open>Binding_Reads\<close> (\<open>bindings/java\<close>, \<open>bindings/ruby\<close>,
    \<open>bindings/python\<close>): the functions of the bindings with their conversions of numbers and strings, and which bytes of
    a snapshot reach the program that reads it. The interpreters are parameters.
  \<^item> \<open>Local_Mirror\<close>, \<open>Mirror_File\<close>, \<open>Mirror_Use\<close> (\<open>bindings/blob-fuse/local_mirror.hpp\<close>): the mirror of a
    version. Over any handle that meets the locale \<open>blob_source\<close>, as the object handler does, it
    behaves as a file with the bytes of the version; a write that fails leaves those of its bytes that fall on valid
    parts of pages (\<open>torn_write\<close>).
  \<^item> \<open>Fuse_Ops\<close>, \<open>Fuse_Pool\<close>, \<open>Fuse_Dirs\<close>, \<open>Fuse_Files\<close> (the other files of \<open>bindings/blob-fuse/\<close>): the requests of
    the file system. The locales \<open>blob_keeps\<close> and \<open>pointed_source\<close> are the contracts of the shared handlers;
    listed names are those that are looked up, and reads and writes of a file that is opened once (\<open>file_session\<close>) are
    those of a file; a second open of the same version loses writes of the first.
  \<^item> \<open>Startup\<close> (\<open>main\<close> of the programs, the constructor in \<open>client/object_handler.cpp\<close>): what the programs take from
    their configuration, their errors, and that they start in the states the other theories assume.

  \<^bold>\<open>State, effects and errors.\<close> The members of a class are a record; an operation takes and returns
  the state. Integers have their width, so wrap-around is as in the code. Exceptions, accesses outside
  arrays, divisions by zero and calls that never return are values of result types (\<open>outcome\<close> in the
  servers, \<open>res\<close> in the client, \<open>option\<close> in loops that may not end). What lies outside a process is a
  parameter: the answers of other processes (a function of the call and of everything that happened
  before), the order in which operations complete, random numbers, clocks, Berkeley DB. Theorems
  quantify over these parameters, so they hold for every schedule.

  \<^bold>\<open>Bounds.\<close> Loops whose end is not obvious are \<open>partial_function (option)\<close> and have no fuel; that
  they return is proved for each (or when they do not: \<open>grow\<close>, \<open>adv_get\<close> and \<open>request_loop\<close>). \<open>fits\<close> and \<open>read_fits\<close>
  say that byte addresses stay below $2^{64}$ and that pages and page numbers stay below $2^{32}$, which are
  the widths in the code; where the code does not check this, the theorems name it as an assumption.

  \<^bold>\<open>Faults of the code.\<close> Some theorems show that the code does not do what it is meant to do:
  \<open>get_ticket\<close> may not return, appends may overlap a pending write, a write far beyond the end drops
  the old content, a full provider may hide a free one, an evicted page cannot be read for a while, not
  even from the queue while the writer thread holds it, a host name that cannot be resolved makes the RPC client use a null pointer,
  a missing DHT replica hides a value, a partial read is not retried, a commit of a mirror overwrites
  bytes of the blob it never fetched, all open files of the file system share one handler, so that
  opening a second blob redirects the files of the first, a second open of a version undoes acknowledged writes of the first, a Python program gets the bytes of a read only up to the
  first zero byte, and Ruby programs see the size of a blob modulo $2^{32}$.

  \<^bold>\<open>Not modelled.\<close> The syntax of configuration files (\<open>libconfig\<close>) and of the options of the file system
  (\<open>libfuse\<close>), and the event loops of asio; logging; the generated declarations of SUN RPC stubs (\<open>common/gateway_prot.h\<close>,
  apart from the structures the Bamboo client fills) and of native methods (\<open>bindings/java/blobseer_ObjectHandler.h\<close>); the
  declarations of the Python module; the test programs. The threads
  of a server are modelled by interleaving whole handlers, which a server runs on one thread. The writer thread of the
  database-backed store is a thread of its own: its steps, between which it holds no lock, are taken between handlers in any
  order. The watchdog of the provider manager takes no lock, and the theorems about it are about passes that do not overlap
  with handlers.
\<close>

text \<open>
  C1: A read of any range of any published version returns the bytes of this snapshot. Let \<open>data p\<close>
  be the bytes that the writer of the last write up to version \<open>n + 1\<close> that covers page \<open>p\<close> stored
  under its page key. If the DHT holds the metadata of the versions up to this one (and whatever else
  concurrent writers put there), if no provider answers with wrong contents, if one replica of each
  page of the range answers, and all of a page that is read only in part, then \<open>read\<close> returns
  success with exactly the requested slice of the concatenated pages, whatever the order in which the
  DHT and the providers answer and the replicas are drawn.
\<close>

theorem snapshot_bytes:
  assumes "archive_ok ar" and "history ar ps d rc K0 q0 f0 ws" and "n < length ws"
    and "query_root_of ar env version oh log = (True, root, oh1, log1)"
    and "rt_node root = root_of ps d q0 ws (Suc n)" and "rt_page_size root = ps"
    and "store_has ar ps K0 q0 f0 ws (Suc n) (en_dht env log1)"
    and "read_guard root version offset sz = None" and "read_fits ps offset sz" and "length mem = unat sz"
    and "\<forall>p. length (data p) = unat ps" and "partial_checked env"
    and "\<forall>p. first_page ps offset \<le> p \<and> p < stop_page ps offset sz \<longrightarrow>
       page_available ar env ps offset sz (content rc f0 ws (Suc n) p) p (data p)"
  shows "\<exists>log'. oh_read ar env offset sz mem version oh log =
    (Ret True, take (unat sz) (drop (unat offset) (concat (map data [0..<stop_page ps offset sz]))), oh1, log')"
  by (rule snapshot_slice [OF assms])

theorem snapshot_bytes_witness:
  "\<exists>log'. oh_read plain_archive (rd_env ''c'') 3 10 (replicate 10 0) 0 rd_handler [] = (Ret True, [3, 4, 5, 6, 7, 8, 9, 10, 11, 12], rd_handler, log')"
proof -
  have h: "0 < length [ex_write]" "store_has plain_archive 8 0 ex_base Map.empty [ex_write] (Suc 0) (en_dht (rd_env ''c'') [])"
    using ex_has by simp_all
  have av: "\<forall>p. first_page 8 3 \<le> p \<and> p < stop_page 8 3 10 \<longrightarrow>
      page_available plain_archive (rd_env ''c'') 8 3 10 (content 1 Map.empty [ex_write] (Suc 0) p) p (rd_page p)"
    using rd_available by (simp add: rd_range del: content.simps)
  have len: "length (replicate 10 0 :: buffer) = unat (10 :: u64)" "\<forall>p. length (rd_page p) = unat (8 :: u64)"
    using rd_length by simp_all
  have "take (unat (10 :: u64)) (drop (unat (3 :: u64)) (concat (map rd_page [0..<2]))) = [3, 4, 5, 6, 7, 8, 9, 10, 11, 12]"
    by (simp add: rd_page_def upt_rec)
  with snapshot_bytes [OF plain_archive_ok ex_history h(1) rd_query rd_root h(2) rd_guard rd_fits len rd_partial av] show ?thesis
    by (simp add: rd_range)
qed

end
